(* ===== verification/Prelude.thy ===== *)
theory Prelude
  imports Main "HOL-Library.Word"
begin

text \<open>
  The vocabulary every component of the development shares.

  \<^item> \<open>U64\<close> and the operations \<open>add64\<close>, \<open>sub64\<close>: C++ \<open>uint64_t\<close> values are natural
    numbers below \<open>2 ^ 64\<close>, and the wrap-around of \<open>+\<close> and \<open>-\<close> is written out.
  \<^item> \<open>exit_reason\<close> and \<open>bindR\<close>: the source's \<open>EXIT\<close>, \<open>EXIT_IF\<close> and fatal-error calls end the
    process, so an operation that may reach one returns \<open>exit_reason + 'a\<close>.
  \<^item> \<open>span\<close>, \<open>spans\<close> and \<open>separated\<close>: what a list of address ranges covers, and the
    normal form (sorted, non-empty, with a gap between neighbours) of a coalesced list.
  \<^item> \<open>cstr_copy\<close>: the bounded string copy of the kernel's object names.
\<close>

section \<open>Unsigned 64-bit arithmetic on natural numbers\<close>

definition U64 :: nat where
  "U64 = 2 ^ 64"

definition UINT64_MAX :: nat where "UINT64_MAX = 2 ^ 64 - 1"

definition UINT32_MAX :: nat where "UINT32_MAX = 2 ^ 32 - 1"

definition add64 :: "nat \<Rightarrow> nat \<Rightarrow> nat" where
  "add64 a b = (a + b) mod U64"

definition sub64 :: "nat \<Rightarrow> nat \<Rightarrow> nat" where
  "sub64 a b = (a + (U64 - b mod U64)) mod U64"

lemmas uint_max_defs = UINT64_MAX_def UINT32_MAX_def

named_theorems arith64 \<open>wrap-around arithmetic where no wrap happens\<close>

lemma U64_pos [simp, intro]: "0 < U64"
  by (simp add: U64_def)

lemma add64_exact [arith64]: "a + b < U64 \<Longrightarrow> add64 a b = a + b"
  by (simp add: add64_def)

lemma sub64_exact [arith64]:
  assumes "b \<le> a" and "a < U64"
  shows "sub64 a b = a - b"
proof -
  have "b mod U64 = b" and "a + (U64 - b) = (a - b) + U64"
    using assms by simp_all
  then show ?thesis
    using assms by (simp only: sub64_def mod_add_self2) simp
qed

lemma add64_bound [simp]: "add64 a b < U64"
  by (simp add: add64_def)

lemma add64_assoc: "add64 (add64 a b) c = add64 a (b + c)"
  by (simp add: add64_def mod_add_left_eq add.assoc)

lemma sub64_bound [simp]: "sub64 a b < U64"
  by (simp add: sub64_def)

section \<open>Fatal exits\<close>

text \<open>The message is the one the source prints before it ends the process.\<close>

datatype exit_reason = Exit string

fun bindR :: "'e + 'a \<Rightarrow> ('a \<Rightarrow> 'e + 'b) \<Rightarrow> 'e + 'b" where
  "bindR (Inl e) f = Inl e"
| "bindR (Inr x) f = f x"

lemma bindR_eq_Inr: "bindR r f = Inr y \<longleftrightarrow> (\<exists>x. r = Inr x \<and> f x = Inr y)"
  by (cases r) auto

lemma bindR_assoc: "bindR (bindR r f) g = bindR r (\<lambda>x. bindR (f x) g)"
  by (cases r) auto

definition is_exit :: "exit_reason + 'a \<Rightarrow> bool" where
  "is_exit r = (case r of Inl _ \<Rightarrow> True | Inr _ \<Rightarrow> False)"

lemma is_exit_simps [simp]: "is_exit (Inl e)" "\<not> is_exit (Inr x)"
  by (simp_all add: is_exit_def)

text \<open>A loop whose body may end the process.\<close>

fun foldR :: "('x \<Rightarrow> 's \<Rightarrow> 'e + 's) \<Rightarrow> 'x list \<Rightarrow> 's \<Rightarrow> 'e + 's" where
  "foldR f [] s = Inr s"
| "foldR f (x # xs) s = bindR (f x s) (foldR f xs)"

lemma foldR_append: "foldR f (xs @ ys) s = bindR (foldR f xs s) (foldR f ys)"
proof (induction xs arbitrary: s)
  case (Cons x xs)
  then have "foldR f (xs @ ys) = (\<lambda>s. bindR (foldR f xs s) (foldR f ys))" by (intro ext)
  then show ?case by (simp add: bindR_assoc)
qed simp

lemma foldR_concat: "foldR (\<lambda>x. foldR f (g x)) xs s = foldR f (concat (map g xs)) s"
proof (induction xs arbitrary: s)
  case (Cons x xs)
  then have "foldR (\<lambda>x. foldR f (g x)) xs = foldR f (concat (map g xs))" by (intro ext)
  then show ?case by (simp add: foldR_append)
qed simp

lemma foldR_inv:
  assumes "foldR f xs s = Inr t" and "P s"
    and "\<And>x s t. x \<in> set xs \<Longrightarrow> P s \<Longrightarrow> f x s = Inr t \<Longrightarrow> P t"
  shows "P t"
  using assms
proof (induction xs arbitrary: s)
  case (Cons x xs)
  then obtain u where "f x s = Inr u" "foldR f xs u = Inr t" by (auto simp: bindR_eq_Inr)
  moreover have "P u" using Cons.prems(2,3) \<open>f x s = Inr u\<close> by auto
  ultimately show ?case using Cons.IH [of u] Cons.prems(3) by auto
qed simp

section \<open>Lists of half-open address ranges\<close>

text \<open>A range is its first address and the address one past its end.\<close>

type_synonym bounds = "nat \<times> nat"

definition span :: "bounds \<Rightarrow> nat set" where
  "span r = {fst r ..< snd r}"

definition spans :: "bounds list \<Rightarrow> nat set" where
  "spans rs = (\<Union>r\<in>set rs. span r)"

lemma span_pair [simp]: "span (a, b) = {a ..< b}"
  by (simp add: span_def)

lemma spans_simps [simp]:
  "spans [] = {}"
  "spans (r # rs) = span r \<union> spans rs"
  "spans (rs @ ss) = spans rs \<union> spans ss"
  by (auto simp: spans_def)

text \<open>
  \<open>separated\<close>: sorted, every range non-empty, and a gap of at least one address between a
  range and the next. A list with this property is the only one that covers its set.
\<close>

fun separated :: "bounds list \<Rightarrow> bool" where
  "separated [] = True"
| "separated [r] = (fst r < snd r)"
| "separated (r # s # rs) = (fst r < snd r \<and> snd r < fst s \<and> separated (s # rs))"

lemma separated_Cons:
  "separated (r # rs) \<longleftrightarrow>
     fst r < snd r \<and> (\<forall>s\<in>set rs. snd r < fst s) \<and> separated rs"
proof (induction rs arbitrary: r)
  case Nil
  then show ?case by simp
next
  case (Cons s rs)
  have "separated (r # s # rs) \<longleftrightarrow> fst r < snd r \<and> snd r < fst s \<and> separated (s # rs)"
    by simp
  moreover have "separated (s # rs) \<Longrightarrow> snd r < fst s \<Longrightarrow> \<forall>t\<in>set rs. snd r < fst t"
    unfolding Cons.IH [of s] by (auto intro: less_trans)
  ultimately show ?case by auto
qed

declare separated.simps(2,3) [simp del]

lemma separated_append:
  "separated (rs @ ss) \<longleftrightarrow>
     separated rs \<and> separated ss \<and> (\<forall>r\<in>set rs. \<forall>s\<in>set ss. snd r < fst s)"
  by (induction rs) (simp_all add: separated_Cons ball_Un, blast)

lemma separated_nonempty: "separated rs \<Longrightarrow> r \<in> set rs \<Longrightarrow> fst r < snd r"
  by (induction rs) (auto simp: separated_Cons)

lemma separated_spans_ge:
  "separated (r # rs) \<Longrightarrow> x \<in> spans rs \<Longrightarrow> snd r < x"
  by (fastforce simp: separated_Cons spans_def span_def)

lemma separated_spans_head:
  assumes "separated (r # rs)"
  shows "fst r \<in> spans (r # rs)" and "\<And>x. x \<in> spans (r # rs) \<Longrightarrow> fst r \<le> x"
    and "snd r \<notin> spans (r # rs)"
    and "\<And>x. fst r \<le> x \<Longrightarrow> x < snd r \<Longrightarrow> x \<in> spans (r # rs)"
  using assms separated_spans_ge [OF assms]
  by (fastforce simp: separated_Cons span_def)+

text \<open>The normal form is canonical: what a separated list covers determines it.\<close>

lemma separated_head_unique:
  assumes "separated (r # rs)" and "separated (s # ss)"
    and "spans (r # rs) = spans (s # ss)"
  shows "r = s"
proof -
  have start: "fst r = fst s"
    using assms separated_spans_head(1,2) [OF assms(1)] separated_spans_head(1,2) [OF assms(2)]
    by (metis le_antisym)
  have "snd r = snd s"
  proof (rule ccontr)
    assume "snd r \<noteq> snd s"
    then consider "snd r < snd s" | "snd s < snd r" by linarith
    then show False
    proof cases
      case 1
      have "fst s \<le> snd r" using start assms(1) by (simp add: separated_Cons)
      with 1 have "snd r \<in> spans (s # ss)" by (rule separated_spans_head(4) [OF assms(2), rotated])
      with assms separated_spans_head(3) [OF assms(1)] show False by simp
    next
      case 2
      have "fst r \<le> snd s" using start assms(2) by (simp add: separated_Cons)
      with 2 have "snd s \<in> spans (r # rs)" by (rule separated_spans_head(4) [OF assms(1), rotated])
      with assms separated_spans_head(3) [OF assms(2)] show False by simp
    qed
  qed
  with start show ?thesis by (simp add: prod_eq_iff)
qed

lemma separated_spans_Nil: "separated rs \<Longrightarrow> spans rs = {} \<longleftrightarrow> rs = []"
  using separated_spans_head(1) by (cases rs) (auto simp del: spans_simps(2))

lemma separated_tail_spans:
  "separated (r # rs) \<Longrightarrow> spans rs = spans (r # rs) - span r"
  using separated_spans_ge by (fastforce simp: span_def)

lemma separated_canonical:
  "separated rs \<Longrightarrow> separated ss \<Longrightarrow> spans rs = spans ss \<Longrightarrow> rs = ss"
proof (induction rs arbitrary: ss)
  case Nil
  then show ?case using separated_spans_Nil [of ss] by simp
next
  case (Cons r rs)
  from Cons.prems obtain s ss' where ss: "ss = s # ss'"
    using separated_spans_Nil [OF Cons.prems(1)] by (cases ss) auto
  have "r = s" using Cons.prems unfolding ss by (rule separated_head_unique)
  then have "spans rs = spans ss'"
    using separated_tail_spans [OF Cons.prems(1)] separated_tail_spans [of s ss'] Cons.prems ss
    by simp
  with Cons.IH [of ss'] Cons.prems ss \<open>r = s\<close> show ?case
    by (simp add: separated_Cons)
qed

text \<open>Sorted, non-empty, disjoint ranges; neighbours may touch.\<close>

definition chained :: "bounds list \<Rightarrow> bool" where
  "chained rs \<longleftrightarrow> (\<forall>r\<in>set rs. fst r < snd r) \<and> sorted_wrt (\<lambda>r s. snd r \<le> fst s) rs"

lemma chained_Nil [simp]: "chained []"
  by (simp add: chained_def)

lemma chained_Cons:
  "chained (r # rs) \<longleftrightarrow> fst r < snd r \<and> (\<forall>s\<in>set rs. snd r \<le> fst s) \<and> chained rs"
  by (auto simp: chained_def)

lemma chained_append:
  "chained (rs @ ss) \<longleftrightarrow> chained rs \<and> chained ss \<and> (\<forall>r\<in>set rs. \<forall>s\<in>set ss. snd r \<le> fst s)"
  by (auto simp: chained_def sorted_wrt_append)

section \<open>\<open>std::map\<close> as a key-sorted association list\<close>

text \<open>
  An ordered map is the list of its entries in key order. \<open>lower_bound(k)\<close> splits it into
  the entries with smaller keys and the rest, \<open>upper_bound(k)\<close> into the entries with keys
  up to \<open>k\<close> and the rest; an iterator is such a split. \<open>emplace\<close> does nothing when the
  key is present.
\<close>

definition om_below :: "'k::linorder \<Rightarrow> ('k \<times> 'v) list \<Rightarrow> ('k \<times> 'v) list" where
  "om_below k m = takeWhile (\<lambda>e. fst e < k) m"

definition om_from :: "'k::linorder \<Rightarrow> ('k \<times> 'v) list \<Rightarrow> ('k \<times> 'v) list" where
  "om_from k m = dropWhile (\<lambda>e. fst e < k) m"

definition om_upto :: "'k::linorder \<Rightarrow> ('k \<times> 'v) list \<Rightarrow> ('k \<times> 'v) list" where
  "om_upto k m = takeWhile (\<lambda>e. fst e \<le> k) m"

definition om_above :: "'k::linorder \<Rightarrow> ('k \<times> 'v) list \<Rightarrow> ('k \<times> 'v) list" where
  "om_above k m = dropWhile (\<lambda>e. fst e \<le> k) m"

fun om_emplace :: "'k::linorder \<times> 'v \<Rightarrow> ('k \<times> 'v) list \<Rightarrow> ('k \<times> 'v) list" where
  "om_emplace e [] = [e]"
| "om_emplace e (x # xs) =
     (if fst e < fst x then e # x # xs
      else if fst e = fst x then x # xs
      else x # om_emplace e xs)"

abbreviation keys_sorted :: "('k::linorder \<times> 'v) list \<Rightarrow> bool" where
  "keys_sorted m \<equiv> sorted_wrt (\<lambda>x y. fst x < fst y) m"

lemma om_below_from [simp]: "om_below k m @ om_from k m = m"
  by (simp add: om_below_def om_from_def)

lemma om_upto_above [simp]: "om_upto k m @ om_above k m = m"
  by (simp add: om_upto_def om_above_def)

lemma om_below_less: "e \<in> set (om_below k m) \<Longrightarrow> fst e < k"
  by (auto simp: om_below_def dest: set_takeWhileD)

lemma om_upto_le: "e \<in> set (om_upto k m) \<Longrightarrow> fst e \<le> k"
  by (auto simp: om_upto_def dest: set_takeWhileD)

lemma om_from_ge: "keys_sorted m \<Longrightarrow> e \<in> set (om_from k m) \<Longrightarrow> k \<le> fst e"
  by (induction m) (auto simp: om_from_def split: if_splits)

lemma om_above_greater: "keys_sorted m \<Longrightarrow> e \<in> set (om_above k m) \<Longrightarrow> k < fst e"
  by (induction m) (auto simp: om_above_def split: if_splits)

lemma om_emplace_between:
  assumes "\<forall>e\<in>set before. fst e < k" and "\<forall>e\<in>set after. k < fst e"
  shows "om_emplace (k, v) (before @ after) = before @ (k, v) # after"
  using assms
proof (induction before)
  case Nil
  then show ?case by (cases after) auto
next
  case (Cons x before)
  then show ?case by auto
qed

lemma om_emplace_last:
  "\<forall>e\<in>set before. fst e < k \<Longrightarrow> om_emplace (k, v) before = before @ [(k, v)]"
  using om_emplace_between [of before k "[]"] by simp

lemma set_om_emplace:
  "fst e \<notin> fst ` set m \<Longrightarrow> set (om_emplace e m) = insert e (set m)"
  by (induction m) auto

lemma keys_om_emplace: "fst ` set (om_emplace e m) = insert (fst e) (fst ` set m)"
  by (induction m) auto

lemma keys_sorted_om_emplace: "keys_sorted m \<Longrightarrow> keys_sorted (om_emplace e m)"
proof (induction m)
  case (Cons x xs)
  have "fst x < fst y" if less: "fst x < fst e" and y: "y \<in> set (om_emplace e xs)" for y
  proof -
    from y have "fst y \<in> insert (fst e) (fst ` set xs)"
      unfolding keys_om_emplace [symmetric] by blast
    with less Cons.prems show ?thesis by auto
  qed
  with Cons show ?case by (auto dest: less_trans)
qed simp

lemma separated_keys_sorted: "separated m \<Longrightarrow> keys_sorted m"
  by (induction m) (auto simp: separated_Cons dest: less_trans)

section \<open>Bounded C strings\<close>

text \<open>
  \<open>memset(dst, 0, n); strncpy(dst, src, n - 1)\<close>, read back as a C string: the characters
  before the first NUL, at most \<open>n - 1\<close> of them. A null pointer copies nothing.
\<close>

definition cstr_copy :: "nat \<Rightarrow> string option \<Rightarrow> string" where
  "cstr_copy n src = (case src of None \<Rightarrow> []
     | Some s \<Rightarrow> take (n - 1) (takeWhile (\<lambda>c. c \<noteq> CHR 0x00) s))"

lemma cstr_copy_length: "length (cstr_copy n src) \<le> n - 1"
  by (simp add: cstr_copy_def split: option.splits)

end
