(* ===== verification/RangeStore.thy ===== *)
theory RangeStore
  imports Prelude "HOL-Library.Multiset"
begin

text \<open>
  The interface of a coalescing store of address ranges, as three independent parts of the
  emulator implement it: the GPU buffer cache's \<open>RangeSet\<close>, the free list of the direct
  memory allocator and the free list of the memory pool. A client only sees which
  addresses are covered; the laws make every sequence of operations on a store determined
  by that set.
\<close>

section \<open>Adding ranges\<close>

locale range_store =
  fixes wf :: "'s \<Rightarrow> bool"
    and cover :: "'s \<Rightarrow> nat set"
    and ok :: "nat \<Rightarrow> nat \<Rightarrow> bool"
    and put :: "nat \<Rightarrow> nat \<Rightarrow> 's \<Rightarrow> 's"
  assumes wf_put: "wf s \<Longrightarrow> ok a b \<Longrightarrow> wf (put a b s)"
    and cover_put: "wf s \<Longrightarrow> ok a b \<Longrightarrow> cover (put a b s) = cover s \<union> {a ..< b}"
    and canonical: "wf s \<Longrightarrow> wf t \<Longrightarrow> cover s = cover t \<Longrightarrow> s = t"
begin

lemma put_covered: "wf s \<Longrightarrow> ok a b \<Longrightarrow> {a ..< b} \<subseteq> cover s \<Longrightarrow> put a b s = s"
  by (rule canonical) (auto simp: wf_put cover_put)

lemma put_idem: "wf s \<Longrightarrow> ok a b \<Longrightarrow> put a b (put a b s) = put a b s"
  by (rule put_covered) (auto simp: wf_put cover_put)

lemma put_commute:
  "wf s \<Longrightarrow> ok a b \<Longrightarrow> ok c d \<Longrightarrow> put a b (put c d s) = put c d (put a b s)"
  by (rule canonical) (auto simp: wf_put cover_put)

lemma put_join:
  assumes "wf s" and "ok a b" and "ok c d" and "ok (min a c) (max b d)"
    and "a \<le> d" and "c \<le> b" and "a \<le> b" and "c \<le> d"
  shows "put a b (put c d s) = put (min a c) (max b d) s"
  using assms by (intro canonical) (auto simp: wf_put cover_put)

lemma wf_fold_put:
  "wf s \<Longrightarrow> \<forall>r\<in>set rs. ok (fst r) (snd r) \<Longrightarrow> wf (fold (\<lambda>r. put (fst r) (snd r)) rs s)"
  by (induction rs arbitrary: s) (auto simp: wf_put)

lemma cover_fold_put:
  "wf s \<Longrightarrow> \<forall>r\<in>set rs. ok (fst r) (snd r) \<Longrightarrow>
     cover (fold (\<lambda>r. put (fst r) (snd r)) rs s) = cover s \<union> spans rs"
  by (induction rs arbitrary: s) (auto simp: wf_put cover_put span_def)

lemma fold_put_order:
  assumes "wf s" and "\<forall>r\<in>set rs. ok (fst r) (snd r)" and "set rs = set qs"
  shows "fold (\<lambda>r. put (fst r) (snd r)) rs s = fold (\<lambda>r. put (fst r) (snd r)) qs s"
proof (rule canonical)
  show "wf (fold (\<lambda>r. put (fst r) (snd r)) rs s)" using assms by (simp add: wf_fold_put)
  show "wf (fold (\<lambda>r. put (fst r) (snd r)) qs s)" using assms by (simp add: wf_fold_put)
  show "cover (fold (\<lambda>r. put (fst r) (snd r)) rs s)
      = cover (fold (\<lambda>r. put (fst r) (snd r)) qs s)"
    using assms by (simp add: cover_fold_put spans_def)
qed

end

section \<open>Removing ranges\<close>

text \<open>
  The precondition of a removal may depend on the state: the free lists only give out
  addresses they hold.
\<close>

locale cutting_store = range_store +
  fixes can_cut :: "nat \<Rightarrow> nat \<Rightarrow> 'a \<Rightarrow> bool"
    and cut :: "nat \<Rightarrow> nat \<Rightarrow> 'a \<Rightarrow> 'a"
  assumes wf_cut: "wf s \<Longrightarrow> can_cut a b s \<Longrightarrow> wf (cut a b s)"
    and cover_cut: "wf s \<Longrightarrow> can_cut a b s \<Longrightarrow> cover (cut a b s) = cover s - {a ..< b}"
begin

lemma cut_put:
  assumes "wf s" and "ok a b" and "can_cut a b (put a b s)" and "{a ..< b} \<inter> cover s = {}"
  shows "cut a b (put a b s) = s"
  using assms by (intro canonical) (auto simp: wf_put wf_cut cover_put cover_cut)

lemma put_cut:
  assumes "wf s" and "ok a b" and "can_cut a b s" and "{a ..< b} \<subseteq> cover s"
  shows "put a b (cut a b s) = s"
  using assms by (intro canonical) (auto simp: wf_put wf_cut cover_put cover_cut)

lemma cut_commute:
  assumes "wf s" and "can_cut a b s" and "can_cut c d s"
    and "can_cut a b (cut c d s)" and "can_cut c d (cut a b s)"
  shows "cut a b (cut c d s) = cut c d (cut a b s)"
  using assms by (intro canonical) (auto simp: wf_cut cover_cut)

lemma put_cut_commute:
  assumes "wf s" and "ok a b" and "can_cut c d s" and "can_cut c d (put a b s)"
    and "{a ..< b} \<inter> {c ..< d} = {}"
  shows "put a b (cut c d s) = cut c d (put a b s)"
  using assms by (intro canonical) (auto simp: wf_put wf_cut cover_put cover_cut)

end

end
