(* ===== verification/RangeSet.thy ===== *)
theory RangeSet
  imports RangeStore
begin

text \<open>
  \<open>gpu/src/graphics/host_gpu/rangeSet.h\<close>: the set of byte ranges the buffer cache keeps.
  \<open>std::map<uint64_t, uint64_t> m_ranges\<close> from the first byte of a range to the byte past
  its end is the sorted list of the pairs. The printing of diagnostics before the fatal
  exit is not modelled.
\<close>

section \<open>The code\<close>

type_synonym range_set = "bounds list"

record range =
  address :: nat
  size :: nat

definition range_end :: "nat \<Rightarrow> nat \<Rightarrow> exit_reason + nat" where
  "range_end a n =
     (if a = 0 \<or> n = 0 \<or> n > (U64 - 1) - a
      then Inl (Exit ''invalid range-set address or size'')
      else Inr (add64 a n))"

text \<open>The erasing loop of \<open>Add\<close>: \<open>begin\<close>, \<open>last\<close> and the entries from the iterator on.\<close>

fun add_absorb :: "nat \<Rightarrow> nat \<Rightarrow> range_set \<Rightarrow> nat \<times> nat \<times> range_set" where
  "add_absorb b l [] = (b, l, [])"
| "add_absorb b l ((x, y) # rest) =
     (if x \<le> l then add_absorb (min b x) (max l y) rest else (b, l, (x, y) # rest))"

definition add_range :: "nat \<Rightarrow> nat \<Rightarrow> range_set \<Rightarrow> range_set" where
  "add_range a e m =
     (let before = om_below a m; after = om_from a m;
          back = before \<noteq> [] \<and> snd (last before) \<ge> a;
          before' = (if back then butlast before else before);
          after' = (if back then last before # after else after)
      in case add_absorb a e after' of
           (b, l, rest) \<Rightarrow> om_emplace (b, l) (before' @ rest))"

definition Add :: "nat \<Rightarrow> nat \<Rightarrow> range_set \<Rightarrow> exit_reason + range_set" where
  "Add a n m = bindR (range_end a n) (\<lambda>e. Inr (add_range a e m))"

text \<open>
  The loop of \<open>Subtract\<close> over the entries before and from the iterator on: the iterator's
  entry is erased and what sticks out on either side of \<open>[a, e)\<close> is put back.
\<close>

fun subtract_loop :: "nat \<Rightarrow> nat \<Rightarrow> range_set \<Rightarrow> range_set \<Rightarrow> range_set" where
  "subtract_loop a e before [] = before"
| "subtract_loop a e before ((b, l) # rest) =
     (if b < e then
        (let before' = (if b < a then om_emplace (b, a) before else before)
         in if l > e then om_emplace (e, l) (before' @ rest)
            else subtract_loop a e before' rest)
      else before @ (b, l) # rest)"

definition subtract_range :: "nat \<Rightarrow> nat \<Rightarrow> range_set \<Rightarrow> range_set" where
  "subtract_range a e m =
     (let before = om_below a m; after = om_from a m;
          back = before \<noteq> [] \<and> snd (last before) > a
      in if back then subtract_loop a e (butlast before) (last before # after)
         else subtract_loop a e before after)"

definition Subtract :: "nat \<Rightarrow> nat \<Rightarrow> range_set \<Rightarrow> exit_reason + range_set" where
  "Subtract a n m = bindR (range_end a n) (\<lambda>e. Inr (subtract_range a e m))"

text \<open>
  \<open>ForEachIntersection\<close> calls its function once per intersection, in order; the list of the
  calls' arguments is what \<open>Intersections\<close> collects.
\<close>

fun isect_loop :: "nat \<Rightarrow> nat \<Rightarrow> range_set \<Rightarrow> range list" where
  "isect_loop a e [] = []"
| "isect_loop a e ((x, y) # rest) =
     (if x < e then
        (let b = max a x; l = min e y
         in (if b < l then [\<lparr>address = b, size = sub64 l b\<rparr>] else []) @ isect_loop a e rest)
      else [])"

definition isect_range :: "nat \<Rightarrow> nat \<Rightarrow> range_set \<Rightarrow> range list" where
  "isect_range a e m =
     (let upto = om_upto a m; above = om_above a m
      in isect_loop a e (if upto \<noteq> [] then last upto # above else above))"

definition Intersections :: "nat \<Rightarrow> nat \<Rightarrow> range_set \<Rightarrow> exit_reason + range list" where
  "Intersections a n m = bindR (range_end a n) (\<lambda>e. Inr (isect_range a e m))"

definition Empty :: "range_set \<Rightarrow> bool" where
  "Empty m = (m = [])"

section \<open>Invariant\<close>

definition rs_wf :: "range_set \<Rightarrow> bool" where
  "rs_wf m \<longleftrightarrow> separated m \<and> (\<forall>r\<in>set m. 0 < fst r \<and> snd r < U64)"

definition rs_ok :: "nat \<Rightarrow> nat \<Rightarrow> bool" where
  "rs_ok a b \<longleftrightarrow> 0 < a \<and> a < b \<and> b < U64"

lemma range_end_Inr: "range_end a n = Inr e \<longleftrightarrow> rs_ok a (a + n) \<and> e = a + n"
  by (auto simp: range_end_def rs_ok_def add64_def U64_def)

lemma range_end_ok: "range_end a n = Inr e \<Longrightarrow> rs_ok a e"
  by (simp add: range_end_Inr)

lemma range_end_exit: "is_exit (range_end a n) \<longleftrightarrow> \<not> rs_ok a (a + n)"
  by (auto simp: range_end_def rs_ok_def U64_def)

section \<open>\<open>Add\<close>\<close>

text \<open>
  What the absorbing loop computes, when the entries start at or before \<open>b\<close> only if they
  reach it: the union of the new range with every entry it overlaps or touches.
\<close>

lemma add_absorb_spec:
  assumes "add_absorb b l m = (b', l', rest)" and "separated m" and "b < l"
    and "\<forall>r\<in>set m. b \<le> snd r"
  shows "separated ((b', l') # rest) \<and> {b' ..< l'} \<union> spans rest = {b ..< l} \<union> spans m
    \<and> b' \<le> b \<and> l \<le> l' \<and> (b' = b \<or> b' \<in> fst ` set m) \<and> (l' = l \<or> l' \<in> snd ` set m)
    \<and> set rest \<subseteq> set m"
  using assms
proof (induction b l m rule: add_absorb.induct)
  case (1 b l)
  then show ?case by (simp add: separated_Cons)
next
  case (2 b l x y m)
  show ?case
  proof (cases "x \<le> l")
    case False
    with "2.prems" show ?thesis by (fastforce simp: separated_Cons)
  next
    case True
    have xy: "x < y" and later: "\<forall>r\<in>set m. y < fst r" and m: "separated m"
      using "2.prems"(2) by (simp_all add: separated_Cons)
    have nonempty: "\<forall>r\<in>set m. fst r < snd r"
      using m separated_nonempty by blast
    have "\<forall>r\<in>set m. min b x \<le> snd r"
      using "2.prems"(4) by auto
    then have IH: "separated ((b', l') # rest)
        \<and> {b' ..< l'} \<union> spans rest = {min b x ..< max l y} \<union> spans m
        \<and> b' \<le> min b x \<and> max l y \<le> l' \<and> (b' = min b x \<or> b' \<in> fst ` set m)
        \<and> (l' = max l y \<or> l' \<in> snd ` set m) \<and> set rest \<subseteq> set m"
      using "2.IH" [OF True] "2.prems" True m by simp
    have "{min b x ..< max l y} = {b ..< l} \<union> {x ..< y}"
      using True xy "2.prems"(3,4) by auto
    with IH show ?thesis
      by (auto simp: min_def max_def split: if_splits)
  qed
qed

text \<open>
  The entries before the position the loop starts from end before the new range begins,
  those from it on do not.
\<close>

lemma add_position:
  assumes "separated m"
  obtains before after where "m = before @ after"
    and "\<forall>r\<in>set before. snd r < a" and "\<forall>r\<in>set after. a \<le> snd r"
    and "add_range a e m = (case add_absorb a e after of
           (b, l, rest) \<Rightarrow> om_emplace (b, l) (before @ rest))"
proof -
  let ?lo = "om_below a m" and ?hi = "om_from a m"
  have sep: "separated (?lo @ ?hi)" using assms by simp
  have hi: "\<forall>r\<in>set ?hi. a \<le> snd r"
    using om_from_ge [OF separated_keys_sorted [OF assms]] separated_nonempty [OF assms]
    by (metis Un_iff less_imp_le om_below_from order_trans set_append)
  show thesis
  proof (cases "?lo = []")
    case True
    then show thesis
      using hi by (intro that [of "[]" ?hi]) (simp_all add: add_range_def Let_def
        om_below_from [of a m, unfolded True, simplified])
  next
    case False
    then have lo: "?lo = butlast ?lo @ [last ?lo]" by simp
    have "separated (butlast ?lo @ [last ?lo])"
      using sep lo by (metis separated_append)
    then have early: "\<forall>r\<in>set (butlast ?lo). snd r < fst (last ?lo)"
      by (simp add: separated_append)
    have small: "fst (last ?lo) < a" using False om_below_less [of "last ?lo" a m] by simp
    show thesis
    proof (cases "snd (last ?lo) \<ge> a")
      case True
      have "m = butlast ?lo @ last ?lo # ?hi"
        using lo by (metis append.assoc append_Cons append_Nil om_below_from)
      then show thesis
        using True False hi early small
        by (intro that [of "butlast ?lo" "last ?lo # ?hi"])
          (auto simp: add_range_def Let_def dest: less_trans)
    next
      case late: False
      have "\<forall>r\<in>set (butlast ?lo @ [last ?lo]). snd r < a"
        using early small late by (auto dest: less_trans)
      then have "\<forall>r\<in>set ?lo. snd r < a" using lo by simp
      then show thesis
        using late hi False by (intro that [of ?lo ?hi]) (simp_all add: add_range_def Let_def)
    qed
  qed
qed

lemma add_range_spec:
  assumes "separated m" and "a < e"
  shows "separated (add_range a e m) \<and> spans (add_range a e m) = spans m \<union> {a ..< e}
    \<and> fst ` set (add_range a e m) \<subseteq> insert a (fst ` set m)
    \<and> snd ` set (add_range a e m) \<subseteq> insert e (snd ` set m)"
proof -
  obtain before after where m: "m = before @ after"
    and before: "\<forall>r\<in>set before. snd r < a" and after: "\<forall>r\<in>set after. a \<le> snd r"
    and eq: "add_range a e m = (case add_absorb a e after of
           (b, l, rest) \<Rightarrow> om_emplace (b, l) (before @ rest))"
    by (rule add_position [OF assms(1)])
  obtain b l rest where loop: "add_absorb a e after = (b, l, rest)"
    by (metis prod_cases3)
  have sep: "separated before" "separated after"
    and gap: "\<forall>r\<in>set before. \<forall>s\<in>set after. snd r < fst s"
    using assms(1) unfolding m separated_append by blast+
  note spec = add_absorb_spec [OF loop sep(2) assms(2) after]
  have gap': "\<forall>r\<in>set before. snd r < b"
    using spec before gap by auto
  have "\<forall>r\<in>set before. fst r < b"
    using gap' separated_nonempty [OF sep(1)] by (meson less_trans)
  moreover have "\<forall>r\<in>set rest. b < fst r"
    using spec by (auto simp: separated_Cons dest: less_trans)
  ultimately have res: "add_range a e m = before @ (b, l) # rest"
    unfolding eq loop by (simp add: om_emplace_between)
  have "set rest \<subseteq> set after" using spec by blast
  then have "\<forall>r\<in>set before. \<forall>s\<in>set rest. snd r < fst s"
    using gap by blast
  then have "\<forall>r\<in>set before. \<forall>s\<in>set ((b, l) # rest). snd r < fst s"
    using gap' by simp
  then have "separated (add_range a e m)"
    unfolding res separated_append using spec sep(1) by blast
  moreover have "{b ..< l} \<union> spans rest = {a ..< e} \<union> spans after"
    using spec by blast
  then have "spans (before @ (b, l) # rest) = spans (before @ after) \<union> {a ..< e}"
    by auto
  moreover have "fst ` set (before @ (b, l) # rest) \<subseteq> insert a (fst ` set (before @ after))"
    "snd ` set (before @ (b, l) # rest) \<subseteq> insert e (snd ` set (before @ after))"
    using spec by auto
  ultimately show ?thesis using res m by simp
qed

lemma add_range_wf: "rs_wf m \<Longrightarrow> rs_ok a e \<Longrightarrow> rs_wf (add_range a e m)"
  using add_range_spec [of m a e] by (fastforce simp: rs_wf_def rs_ok_def)

section \<open>\<open>Subtract\<close>\<close>

lemma subtract_loop_spec:
  assumes "separated (before @ after)" and "a < e"
    and "\<forall>r\<in>set before. snd r \<le> a" and "\<forall>r\<in>set after. a < snd r"
  shows "separated (subtract_loop a e before after)
    \<and> spans (subtract_loop a e before after) = spans (before @ after) - {a ..< e}
    \<and> fst ` set (subtract_loop a e before after) \<subseteq> insert e (fst ` set (before @ after))
    \<and> snd ` set (subtract_loop a e before after) \<subseteq> insert a (snd ` set (before @ after))"
  using assms
proof (induction a e before after rule: subtract_loop.induct)
  case (1 a e before)
  have "spans before \<inter> {a ..< e} = {}"
    using "1.prems"(3) by (fastforce simp: spans_def span_def)
  with 1 show ?case by auto
next
  case (2 a e before b l rest)
  have bl: "b < l" and later: "\<forall>r\<in>set rest. l < fst r" and rest: "separated rest"
    and sep: "separated before" and gap: "\<forall>r\<in>set before. snd r < b"
    using "2.prems"(1) by (auto simp: separated_append separated_Cons)
  have below: "spans before \<inter> {a ..< e} = {}"
    using "2.prems"(3) by (fastforce simp: spans_def span_def)
  show ?case
  proof (cases "b < e")
    case False
    have "\<forall>r\<in>set rest. e \<le> fst r" using False later bl by fastforce
    then have "spans rest \<inter> {a ..< e} = {}"
      by (fastforce simp: spans_def span_def)
    with False have "spans ((b, l) # rest) \<inter> {a ..< e} = {}"
      by auto
    with below False "2.prems"(1) show ?thesis by auto
  next
    case True
    obtain before' where before':
      "before' = (if b < a then om_emplace (b, a) before else before)" by simp
    have "\<forall>r\<in>set before. fst r < b"
      using gap separated_nonempty [OF sep] by (meson less_trans)
    then have front: "before' = before @ (if b < a then [(b, a)] else [])"
      by (simp add: before' om_emplace_last)
    have al: "a < l" using "2.prems"(4) by simp
    have fsep: "separated before'" and fle: "\<forall>r\<in>set before'. snd r \<le> a"
      and fgap: "\<forall>r\<in>set before'. snd r < l"
      using sep gap "2.prems"(3) al bl unfolding front
      by (auto simp: separated_append separated_Cons)
    have fspan: "spans before' = spans before \<union> ({b ..< l} \<inter> {..< a})"
      using al unfolding front by auto
    show ?thesis
    proof (cases "l > e")
      case le: True
      have "fst r < e" if "r \<in> set before'" for r
        using separated_nonempty [OF fsep that] bspec [OF fle that] "2.prems"(2) by linarith
      moreover have keys: "e < fst r" if "r \<in> set rest" for r
        using bspec [OF later that] le by linarith
      ultimately have res: "subtract_loop a e before ((b, l) # rest) = before' @ (e, l) # rest"
        using True le by (simp add: om_emplace_between Let_def before' [symmetric])
      have "snd r < e" if "r \<in> set before'" for r
        using bspec [OF fle that] "2.prems"(2) by linarith
      moreover have "snd r < fst s" if "r \<in> set before'" and "s \<in> set rest" for r s
        using bspec [OF fgap that(1)] bspec [OF later that(2)] by linarith
      ultimately have "separated (before' @ (e, l) # rest)"
        using fsep rest later le by (simp add: separated_append separated_Cons)
      moreover have "spans rest \<inter> {a ..< e} = {}"
        using later le by (fastforce simp: spans_def span_def)
      then have "spans (before' @ (e, l) # rest) = spans (before @ (b, l) # rest) - {a ..< e}"
        using below fspan True le "2.prems"(2) by auto
      moreover have "fst ` set (before' @ (e, l) # rest)
          \<subseteq> insert e (fst ` set (before @ (b, l) # rest))"
        "snd ` set (before' @ (e, l) # rest) \<subseteq> insert a (snd ` set (before @ (b, l) # rest))"
        unfolding front by auto
      ultimately show ?thesis unfolding res by blast
    next
      case False
      have step: "subtract_loop a e before ((b, l) # rest) = subtract_loop a e before' rest"
        using True False by (simp add: Let_def before' [symmetric])
      have "snd r < fst s" if "r \<in> set before'" and "s \<in> set rest" for r s
        using bspec [OF fgap that(1)] bspec [OF later that(2)] by linarith
      then have "separated (before' @ rest)"
        using fsep rest by (simp add: separated_append)
      moreover have "\<forall>r\<in>set rest. a < snd r" using "2.prems"(4) by simp
      ultimately have IH: "separated (subtract_loop a e before' rest)
          \<and> spans (subtract_loop a e before' rest) = spans (before' @ rest) - {a ..< e}
          \<and> fst ` set (subtract_loop a e before' rest) \<subseteq> insert e (fst ` set (before' @ rest))
          \<and> snd ` set (subtract_loop a e before' rest) \<subseteq> insert a (snd ` set (before' @ rest))"
        using "2.IH" [OF True before' False] "2.prems"(2) fle by simp
      have "{b ..< l} \<inter> {..< a} - {a ..< e} = {b ..< l} - {a ..< e}"
        using False by auto
      then have "spans (before' @ rest) - {a ..< e} = spans (before @ (b, l) # rest) - {a ..< e}"
        unfolding spans_simps fspan span_pair by blast
      moreover have "fst ` set (subtract_loop a e before' rest)
          \<subseteq> insert e (fst ` set (before @ (b, l) # rest))"
        using IH unfolding front by (auto split: if_splits)
      moreover have "snd ` set (subtract_loop a e before' rest)
          \<subseteq> insert a (snd ` set (before @ (b, l) # rest))"
        using IH unfolding front by (auto split: if_splits)
      ultimately show ?thesis unfolding step using IH by simp
    qed
  qed
qed

lemma subtract_position:
  assumes "separated m"
  obtains before after where "m = before @ after"
    and "\<forall>r\<in>set before. snd r \<le> a" and "\<forall>r\<in>set after. a < snd r"
    and "subtract_range a e m = subtract_loop a e before after"
proof -
  let ?lo = "om_below a m" and ?hi = "om_from a m"
  have sep: "separated (?lo @ ?hi)" using assms by simp
  have hi: "\<forall>r\<in>set ?hi. a < snd r"
    using om_from_ge [OF separated_keys_sorted [OF assms]] separated_nonempty [OF assms]
    by (metis Un_iff om_below_from le_less_trans set_append)
  show thesis
  proof (cases "?lo = []")
    case True
    then show thesis
      using hi by (intro that [of "[]" ?hi]) (simp_all add: subtract_range_def Let_def
        om_below_from [of a m, unfolded True, simplified])
  next
    case False
    then have lo: "?lo = butlast ?lo @ [last ?lo]" by simp
    have "separated (butlast ?lo @ [last ?lo])"
      using sep lo by (metis separated_append)
    then have early: "\<forall>r\<in>set (butlast ?lo). snd r < fst (last ?lo)"
      by (simp add: separated_append)
    have small: "fst (last ?lo) < a" using False om_below_less [of "last ?lo" a m] by simp
    show thesis
    proof (cases "snd (last ?lo) > a")
      case True
      have "m = butlast ?lo @ last ?lo # ?hi"
        using lo by (metis append.assoc append_Cons append_Nil om_below_from)
      moreover have "\<forall>r\<in>set (butlast ?lo). snd r \<le> a"
        using early small by fastforce
      ultimately show thesis
        using True False hi
        by (intro that [of "butlast ?lo" "last ?lo # ?hi"])
          (simp_all add: subtract_range_def Let_def)
    next
      case late: False
      have "\<forall>r\<in>set (butlast ?lo @ [last ?lo]). snd r \<le> a"
        using early small late by (auto dest!: bspec)
      then have "\<forall>r\<in>set ?lo. snd r \<le> a" using lo by simp
      then show thesis
        using late hi False by (intro that [of ?lo ?hi])
          (simp_all add: subtract_range_def Let_def)
    qed
  qed
qed

lemma subtract_range_spec:
  assumes "separated m" and "a < e"
  shows "separated (subtract_range a e m)
    \<and> spans (subtract_range a e m) = spans m - {a ..< e}
    \<and> fst ` set (subtract_range a e m) \<subseteq> insert e (fst ` set m)
    \<and> snd ` set (subtract_range a e m) \<subseteq> insert a (snd ` set m)"
proof -
  obtain before after where m: "m = before @ after"
    and pos: "\<forall>r\<in>set before. snd r \<le> a" "\<forall>r\<in>set after. a < snd r"
    and eq: "subtract_range a e m = subtract_loop a e before after"
    by (rule subtract_position [OF assms(1)])
  show ?thesis
    using subtract_loop_spec [OF _ assms(2) pos] assms(1) unfolding eq unfolding m by simp
qed

lemma subtract_range_wf: "rs_wf m \<Longrightarrow> rs_ok a e \<Longrightarrow> rs_wf (subtract_range a e m)"
  using subtract_range_spec [of m a e] by (fastforce simp: rs_wf_def rs_ok_def)

section \<open>\<open>Intersections\<close>\<close>

definition range_bounds :: "range \<Rightarrow> bounds" where
  "range_bounds r = (address r, address r + size r)"

lemma range_bounds_simps [simp]:
  "fst (range_bounds r) = address r" "snd (range_bounds r) = address r + size r"
  "range_bounds \<lparr>address = a, size = n\<rparr> = (a, a + n)"
  by (simp_all add: range_bounds_def)

lemma isect_loop_spans:
  assumes "separated m" and "\<forall>r\<in>set m. snd r < U64" and "a < e"
  shows "spans (map range_bounds (isect_loop a e m)) = spans m \<inter> {a ..< e}"
  using assms
proof (induction a e m rule: isect_loop.induct)
  case (2 a e x y rest)
  have xy: "x < y" and later: "\<forall>r\<in>set rest. y < fst r" and rest: "separated rest"
    using "2.prems"(1) by (simp_all add: separated_Cons)
  show ?case
  proof (cases "x < e")
    case True
    have IH: "spans (map range_bounds (isect_loop a e rest)) = spans rest \<inter> {a ..< e}"
      using "2.IH" [OF True refl refl] "2.prems" rest by simp
    have "sub64 (min e y) (max a x) = min e y - max a x" if "max a x < min e y"
      using that "2.prems"(2) by (intro sub64_exact) auto
    then have "spans (map range_bounds (if max a x < min e y
        then [\<lparr>address = max a x, size = sub64 (min e y) (max a x)\<rparr>] else []))
      = {x ..< y} \<inter> {a ..< e}"
      by auto
    then show ?thesis using True IH by (simp add: Let_def Int_Un_distrib2)
  next
    case False
    have "\<forall>r\<in>set rest. e \<le> fst r" using later False xy by fastforce
    then have "spans rest \<inter> {a ..< e} = {}" by (fastforce simp: spans_def span_def)
    then show ?thesis using False by auto
  qed
qed simp

lemma isect_loop_lower:
  "\<forall>s\<in>set m. k < fst s \<Longrightarrow> r \<in> set (isect_loop a e m) \<Longrightarrow> k < address r"
  by (induction a e m rule: isect_loop.induct) (auto simp: Let_def split: if_splits)

lemma isect_loop_separated:
  assumes "separated m" and "\<forall>r\<in>set m. snd r < U64" and "a < e"
  shows "separated (map range_bounds (isect_loop a e m))"
  using assms
proof (induction a e m rule: isect_loop.induct)
  case (2 a e x y rest)
  have later: "\<forall>r\<in>set rest. y < fst r" and rest: "separated rest"
    using "2.prems"(1) by (simp_all add: separated_Cons)
  show ?case
  proof (cases "x < e \<and> max a x < min e y")
    case True
    then have IH: "separated (map range_bounds (isect_loop a e rest))"
      using "2.IH" "2.prems" rest by simp
    have "sub64 (min e y) (max a x) = min e y - max a x"
      using True "2.prems"(2) by (intro sub64_exact) auto
    moreover have "min e y < address r" if "r \<in> set (isect_loop a e rest)" for r
      using isect_loop_lower [OF later that] by simp
    ultimately show ?thesis
      using True IH by (simp add: Let_def separated_Cons)
  next
    case False
    with 2 rest show ?thesis by (auto simp: Let_def)
  qed
qed simp

lemma isect_range_spec:
  assumes "rs_wf m" and "a < e"
  shows "separated (map range_bounds (isect_range a e m))
    \<and> spans (map range_bounds (isect_range a e m)) = spans m \<inter> {a ..< e}"
proof -
  have sep: "separated (om_upto a m @ om_above a m)"
    and bound: "\<forall>r\<in>set (om_upto a m @ om_above a m). snd r < U64"
    using assms(1) unfolding om_upto_above rs_wf_def by blast+
  show ?thesis
  proof (cases "om_upto a m = []")
    case True
    then have m: "om_above a m = m" using om_upto_above [of a m] by simp
    then show ?thesis
      using True isect_loop_spans [of m a e] isect_loop_separated [of m a e] assms sep bound
      by (simp add: isect_range_def rs_wf_def)
  next
    case False
    let ?u = "last (om_upto a m)" and ?early = "butlast (om_upto a m)"
    have split: "?early @ ?u # om_above a m = m"
      using False om_upto_above [of a m] by (metis append.assoc append_Cons
          append_butlast_last_id self_append_conv2)
    have "separated (?early @ ?u # om_above a m)"
      unfolding split using assms(1) by (simp add: rs_wf_def)
    have "set (?u # om_above a m) \<subseteq> set m"
      using arg_cong [OF split, of set] by auto
    then have bound': "\<forall>r\<in>set (?u # om_above a m). snd r < U64"
      using assms(1) by (auto simp: rs_wf_def)
    from \<open>separated (?early @ ?u # om_above a m)\<close> have sep': "separated (?u # om_above a m)" and gap: "\<forall>r\<in>set ?early. snd r < fst ?u"
      by (auto simp: separated_append)
    have "fst ?u \<le> a" using False om_upto_le [of ?u a m] by simp
    then have "\<forall>r\<in>set ?early. snd r \<le> a" using gap by fastforce
    then have "spans ?early \<inter> {a ..< e} = {}" by (fastforce simp: spans_def span_def)
    moreover have "spans m = spans ?early \<union> spans (?u # om_above a m)"
      using arg_cong [OF split, of spans] by simp
    ultimately have "spans (?u # om_above a m) \<inter> {a ..< e} = spans m \<inter> {a ..< e}" by blast
    then show ?thesis
      using False isect_loop_spans [OF sep' bound' assms(2)]
        isect_loop_separated [OF sep' bound' assms(2)]
      by (simp add: isect_range_def del: spans_simps)
  qed
qed

section \<open>The store interface\<close>

interpretation rs: cutting_store rs_wf spans rs_ok add_range "\<lambda>a b m. rs_ok a b" subtract_range
proof unfold_locales
  fix m :: range_set and a b :: nat
  assume m: "rs_wf m" and ok: "rs_ok a b"
  then have sep: "separated m" and lt: "a < b" by (simp_all add: rs_wf_def rs_ok_def)
  show "rs_wf (add_range a b m)" using m ok by (rule add_range_wf)
  show "spans (add_range a b m) = spans m \<union> {a ..< b}"
    using add_range_spec [OF sep lt] by blast
  show "rs_wf (subtract_range a b m)" using m ok by (rule subtract_range_wf)
  show "spans (subtract_range a b m) = spans m - {a ..< b}"
    using subtract_range_spec [OF sep lt] by blast
next
  fix s t :: range_set
  assume "rs_wf s" and "rs_wf t" and "spans s = spans t"
  then show "s = t" using separated_canonical by (simp add: rs_wf_def)
qed

section \<open>Runs of operations\<close>

datatype rs_op = OpAdd nat nat | OpSubtract nat nat

fun rs_step :: "rs_op \<Rightarrow> range_set \<Rightarrow> exit_reason + range_set" where
  "rs_step (OpAdd a n) m = Add a n m"
| "rs_step (OpSubtract a n) m = Subtract a n m"

fun rs_run :: "rs_op list \<Rightarrow> range_set \<Rightarrow> exit_reason + range_set" where
  "rs_run [] m = Inr m"
| "rs_run (x # xs) m = bindR (rs_step x m) (rs_run xs)"

text \<open>The abstract machine: a set of addresses, with the same argument check.\<close>

fun set_step :: "rs_op \<Rightarrow> nat set \<Rightarrow> exit_reason + nat set" where
  "set_step (OpAdd a n) A = bindR (range_end a n) (\<lambda>e. Inr (A \<union> {a ..< e}))"
| "set_step (OpSubtract a n) A = bindR (range_end a n) (\<lambda>e. Inr (A - {a ..< e}))"

fun set_run :: "rs_op list \<Rightarrow> nat set \<Rightarrow> exit_reason + nat set" where
  "set_run [] A = Inr A"
| "set_run (x # xs) A = bindR (set_step x A) (set_run xs)"

lemma rs_step_refines:
  assumes "rs_wf m"
  shows "map_sum id spans (rs_step x m) = set_step x (spans m)
    \<and> (\<forall>m'. rs_step x m = Inr m' \<longrightarrow> rs_wf m')"
proof (cases x)
  case (OpAdd a n)
  then show ?thesis
    using assms rs.cover_put rs.wf_put
    by (cases "range_end a n") (auto simp: Add_def dest: range_end_ok)
next
  case (OpSubtract a n)
  then show ?thesis
    using assms rs.cover_cut rs.wf_cut
    by (cases "range_end a n") (auto simp: Subtract_def dest: range_end_ok)
qed

lemma rs_run_refines:
  "rs_wf m \<Longrightarrow> map_sum id spans (rs_run xs m) = set_run xs (spans m)"
proof (induction xs arbitrary: m)
  case (Cons x xs)
  show ?case
    using rs_step_refines [OF Cons.prems, of x] Cons.IH
    by (cases "rs_step x m"; cases "set_step x (spans m)") auto
qed simp

lemma rs_run_wf: "rs_wf m \<Longrightarrow> rs_run xs m = Inr m' \<Longrightarrow> rs_wf m'"
  by (induction xs arbitrary: m) (auto simp: bindR_eq_Inr dest: rs_step_refines)

lemma rs_wf_Nil [simp]: "rs_wf []"
  by (simp add: rs_wf_def)

section \<open>Properties\<close>

text \<open>
  C29. The range set refines a set of addresses: any sequence of \<open>Add\<close> and \<open>Subtract\<close> from
  the empty range set computes the union and difference of the byte ranges, and stops with
  the fatal exit at exactly the first operation whose address or size is invalid.
\<close>

theorem range_set_refines_sets:
  "map_sum id spans (rs_run ops []) = set_run ops {}"
  using rs_run_refines [of "[]" ops] by simp

text \<open>
  The map is a normal form of the set it stands for: two histories of operations that
  leave the same bytes covered leave the same entries in \<open>m_ranges\<close>.
\<close>

theorem range_set_canonical:
  assumes "rs_run ops [] = Inr m" and "rs_run ops' [] = Inr m'"
    and "set_run ops {} = set_run ops' {}"
  shows "m = m'"
proof (rule rs.canonical)
  show "rs_wf m" "rs_wf m'" using assms rs_run_wf rs_wf_Nil by blast+
  have "Inr (spans m) = set_run ops {}" "Inr (spans m') = set_run ops' {}"
    using assms rs_run_refines [of "[]" ops] rs_run_refines [of "[]" ops'] by simp_all
  then show "spans m = spans m'" using assms(3) by (metis sum.inject(2))
qed

theorem range_set_canonical_witness:
  "rs_run [OpAdd 10 10, OpAdd 30 5, OpAdd 20 10] [] = Inr [(10, 35)]
     \<and> rs_run [OpAdd 10 25] [] = Inr [(10, 35)]
     \<and> [(10, 35)] = ([(10, 35)] :: range_set)"
proof -
  have runs: "rs_run [OpAdd 10 10, OpAdd 30 5, OpAdd 20 10] [] = Inr [(10, 35)]"
    "rs_run [OpAdd 10 25] [] = Inr [(10, 35)]"
    by (simp_all add: Add_def range_end_def add_range_def om_below_def om_from_def
        Let_def add64_def U64_def)
  have "set_run [OpAdd 10 10, OpAdd 30 5, OpAdd 20 10] {} = set_run [OpAdd 10 25] {}"
    by (auto simp: range_end_def add64_def U64_def)
  then show ?thesis
    using runs range_set_canonical [OF runs] by simp
qed

text \<open>
  \<open>Intersections\<close> returns what the range set holds of the queried bytes: sorted,
  non-empty, non-adjacent ranges whose union is the queried range restricted to the set.
\<close>

theorem intersections_exact:
  assumes "rs_run ops [] = Inr m" and "Intersections a n m = Inr rs"
  shows "separated (map range_bounds rs)
    \<and> spans (map range_bounds rs) = spans m \<inter> {a ..< a + n}"
proof -
  have "rs_wf m" using assms(1) rs_run_wf rs_wf_Nil by blast
  moreover from assms(2) have "rs = isect_range a (a + n) m" "a < a + n"
    by (auto simp: Intersections_def bindR_eq_Inr range_end_Inr rs_ok_def)
  ultimately show ?thesis using isect_range_spec by simp
qed

theorem intersections_exact_witness:
  "rs_run [OpAdd 16 48, OpSubtract 24 8] [] = Inr [(16, 24), (32, 64)]
     \<and> Intersections 20 20 [(16, 24), (32, 64)]
         = Inr [\<lparr>address = 20, size = 4\<rparr>, \<lparr>address = 32, size = 8\<rparr>]
     \<and> spans [(20, 24), (32, 40)] = spans [(16, 24), (32, 64)] \<inter> {20 ..< 20 + 20}"
proof -
  have run: "rs_run [OpAdd 16 48, OpSubtract 24 8] [] = Inr [(16, 24), (32, 64)]"
    by (simp add: Add_def Subtract_def range_end_def add_range_def subtract_range_def
        om_below_def om_from_def Let_def add64_def U64_def)
  have isect: "Intersections 20 20 [(16, 24), (32, 64)]
      = Inr [\<lparr>address = 20, size = 4\<rparr>, \<lparr>address = 32, size = 8\<rparr>]"
    by (simp add: Intersections_def range_end_def isect_range_def om_upto_def om_above_def
        Let_def add64_def sub64_def U64_def)
  show ?thesis
    using run isect intersections_exact [OF run isect] by (simp del: spans_simps)
qed

end
