(* ===== verification/MemoryProtection.thy ===== *)
theory MemoryProtection
  imports Prelude
begin

text \<open>
  The memory protection bits of the guest and the range arithmetic of
  \<open>gpu/src/kernel/memory.cpp\<close> that every allocator of the file uses: \<open>DecodeMemoryProtection\<close>,
  \<open>GetGpuAccessMode\<close>, \<open>IsGpuAddressRange\<close>, \<open>VirtualRangesOverlap\<close>, \<open>GetAlignedPos\<close> and
  \<open>CopyVirtualRangeName\<close>. A protection value is the C++ \<open>int\<close> as 32 bits.
\<close>

unbundle bit_operations_syntax

section \<open>Protection bits\<close>

type_synonym prot = "32 word"

definition PROT_CPU_READ :: prot where "PROT_CPU_READ = 0x01"
definition PROT_CPU_WRITE :: prot where "PROT_CPU_WRITE = 0x02"
definition PROT_CPU_EXEC :: prot where "PROT_CPU_EXEC = 0x04"
definition PROT_GPU_READ :: prot where "PROT_GPU_READ = 0x10"
definition PROT_GPU_WRITE :: prot where "PROT_GPU_WRITE = 0x20"

lemmas prot_defs = PROT_CPU_READ_def PROT_CPU_WRITE_def PROT_CPU_EXEC_def
  PROT_GPU_READ_def PROT_GPU_WRITE_def

datatype gpu_access_mode = GpuNoAccess | GpuRead | GpuWrite | GpuReadWrite

text \<open>\<open>Common::VirtualMemory::Mode\<close>.\<close>

datatype vm_mode = VmNoAccess | VmRead | VmWrite | VmReadWrite | VmExecute | VmExecuteRead
  | VmExecuteWrite | VmExecuteReadWrite

definition prot_has :: "prot \<Rightarrow> prot \<Rightarrow> bool" where
  "prot_has p b = (p AND b \<noteq> 0)"

definition prot_any :: prot where
  "prot_any = PROT_CPU_READ OR PROT_CPU_WRITE OR PROT_CPU_EXEC OR PROT_GPU_READ OR PROT_GPU_WRITE"

text \<open>\<open>None\<close> is the \<open>false\<close> return, with the outputs left as they were.\<close>

definition DecodeMemoryProtection :: "prot \<Rightarrow> (vm_mode \<times> gpu_access_mode) option" where
  "DecodeMemoryProtection p =
     (let cpu_read = prot_has p PROT_CPU_READ;
          cpu_write = prot_has p PROT_CPU_WRITE;
          cpu_exec = prot_has p PROT_CPU_EXEC;
          gpu_read = prot_has p PROT_GPU_READ;
          gpu_write = prot_has p PROT_GPU_WRITE
      in if p AND prot_any = 0 \<and> p \<noteq> 0 then None
         else
           (let gpu_mode =
                  (if gpu_read \<and> gpu_write then GpuReadWrite
                   else if gpu_read then GpuRead
                   else if gpu_write then GpuWrite
                   else GpuNoAccess);
                host_write = (cpu_write \<or> gpu_write);
                host_read = (if host_write then True else cpu_read \<or> gpu_read);
                mode =
                  (if cpu_exec then
                     (if host_write then VmExecuteReadWrite
                      else if host_read then VmExecuteRead else VmExecute)
                   else if host_write then VmReadWrite
                   else if host_read then VmRead
                   else VmNoAccess)
            in Some (mode, gpu_mode)))"

definition GetGpuAccessMode :: "prot \<Rightarrow> exit_reason + gpu_access_mode" where
  "GetGpuAccessMode p = (case DecodeMemoryProtection p of
       None \<Rightarrow> Inl (Exit ''unsupported GPU memory protection'')
     | Some (mode, gpu_mode) \<Rightarrow> Inr gpu_mode)"

text \<open>What a decoded mode lets the host do.\<close>

definition mode_readable :: "vm_mode \<Rightarrow> bool" where
  "mode_readable m \<longleftrightarrow> m \<in> {VmRead, VmReadWrite, VmExecuteRead, VmExecuteReadWrite}"

definition mode_writable :: "vm_mode \<Rightarrow> bool" where
  "mode_writable m \<longleftrightarrow> m \<in> {VmWrite, VmReadWrite, VmExecuteWrite, VmExecuteReadWrite}"

definition mode_executable :: "vm_mode \<Rightarrow> bool" where
  "mode_executable m \<longleftrightarrow> m \<in> {VmExecute, VmExecuteRead, VmExecuteWrite, VmExecuteReadWrite}"

text \<open>
  A decoded protection lets the host write exactly when the guest asked for CPU or GPU
  writes, read whenever it asked for any CPU or GPU read or write, execute exactly when it
  asked for execution, and the GPU mode holds exactly the requested GPU reads and writes.
\<close>

theorem decode_protection_grants:
  assumes "DecodeMemoryProtection p = Some (m, g)"
  shows "(mode_writable m \<longleftrightarrow> prot_has p PROT_CPU_WRITE \<or> prot_has p PROT_GPU_WRITE)
    \<and> (mode_readable m \<longleftrightarrow>
          prot_has p PROT_CPU_READ \<or> prot_has p PROT_GPU_READ \<or> mode_writable m)
    \<and> (mode_executable m \<longleftrightarrow> prot_has p PROT_CPU_EXEC)
    \<and> (g \<in> {GpuRead, GpuReadWrite} \<longleftrightarrow> prot_has p PROT_GPU_READ)
    \<and> (g \<in> {GpuWrite, GpuReadWrite} \<longleftrightarrow> prot_has p PROT_GPU_WRITE)"
  using assms
  by (auto simp: DecodeMemoryProtection_def Let_def mode_writable_def mode_readable_def
      mode_executable_def split: if_splits)

theorem decode_protection_grants_witness:
  "DecodeMemoryProtection 0x32 = Some (VmReadWrite, GpuReadWrite)
     \<and> prot_has 0x32 PROT_GPU_READ \<and> mode_readable VmReadWrite"
proof -
  have d: "DecodeMemoryProtection 0x32 = Some (VmReadWrite, GpuReadWrite)"
    by (simp add: DecodeMemoryProtection_def Let_def prot_has_def prot_any_def prot_defs)
  moreover have "prot_has 0x32 PROT_GPU_READ"
    by (simp add: prot_has_def prot_defs)
  ultimately show ?thesis
    using decode_protection_grants [OF d] by simp
qed

section \<open>Range arithmetic\<close>

definition IsGpuAddressRange :: "nat \<Rightarrow> nat \<Rightarrow> bool" where
  "IsGpuAddressRange a n \<longleftrightarrow> a \<noteq> 0 \<and> n \<noteq> 0 \<and> a < 2 ^ 40 \<and> n \<le> 2 ^ 40 - a"

text \<open>The saturating end of a range, \<open>VirtualRanges::End\<close>.\<close>

definition range_End :: "nat \<Rightarrow> nat \<Rightarrow> nat" where
  "range_End s n = (if (U64 - 1) - s < n then U64 - 1 else s + n)"

definition VirtualRangesOverlap :: "nat \<Rightarrow> nat \<Rightarrow> nat \<Rightarrow> nat \<Rightarrow> bool" where
  "VirtualRangesOverlap ls ln rs rn \<longleftrightarrow>
     ln \<noteq> 0 \<and> rn \<noteq> 0 \<and> ls < range_End rs rn \<and> rs < range_End ls ln"

lemma range_End_exact [arith64]: "s + n < U64 \<Longrightarrow> range_End s n = s + n"
  by (auto simp: range_End_def)

lemma overlap_iff:
  assumes "ls + ln < U64" and "rs + rn < U64"
  shows "VirtualRangesOverlap ls ln rs rn \<longleftrightarrow> {ls ..< ls + ln} \<inter> {rs ..< rs + rn} \<noteq> {}"
proof -
  have "{ls ..< ls + ln} \<inter> {rs ..< rs + rn} = {max ls rs ..< min (ls + ln) (rs + rn)}"
    by auto
  then show ?thesis
    using assms by (auto simp: VirtualRangesOverlap_def range_End_exact)
qed

lemma overlap_commute: "VirtualRangesOverlap a b c d = VirtualRangesOverlap c d a b"
  by (auto simp: VirtualRangesOverlap_def)

text \<open>\<open>AlignedPos\<close> is its value and validity; an invalid one carries the value 0.\<close>

definition GetAlignedPos :: "nat \<Rightarrow> nat \<Rightarrow> nat \<times> bool" where
  "GetAlignedPos pos alignment =
     (if alignment = 0 then (pos, True)
      else (let remainder = pos mod alignment;
                increment = (if remainder \<noteq> 0 then alignment - remainder else 0)
            in if increment > (U64 - 1) - pos then (0, False)
               else (pos + increment, True)))"

text \<open>The smallest multiple of the alignment at or after the position.\<close>

lemma aligned_increment:
  assumes "0 < (k::nat)"
  shows "k dvd pos + (if pos mod k \<noteq> 0 then k - pos mod k else 0)"
proof (cases "pos mod k = 0")
  case False
  have "pos + (k - pos mod k) = k * (pos div k) + k"
    using assms mod_less_divisor [OF assms, of pos] mult_div_mod_eq [of k pos] by linarith
  then show ?thesis using False by simp
qed (use assms in auto)

lemma aligned_least:
  assumes "0 < (k::nat)" and "k dvd q" and "pos \<le> q"
  shows "pos + (if pos mod k \<noteq> 0 then k - pos mod k else 0) \<le> q"
proof (cases "pos mod k = 0")
  case True
  then show ?thesis using assms by simp
next
  case False
  from assms(2) obtain j where q: "q = k * j" ..
  have "pos div k < j"
  proof (rule ccontr)
    assume "\<not> pos div k < j"
    then have "k * j \<le> k * (pos div k)" by simp
    then have "q \<le> pos - pos mod k"
      using q by (simp add: minus_mod_eq_mult_div)
    with assms(3) False mod_less_eq_dividend [of pos k] show False by linarith
  qed
  then have "k * (pos div k) + k \<le> q"
    using q by (metis Suc_leI mult_Suc_right mult_le_mono2 add.commute)
  moreover have "pos + (k - pos mod k) = k * (pos div k) + k"
    using mod_less_divisor [OF assms(1), of pos] mult_div_mod_eq [of k pos] by linarith
  ultimately show ?thesis using False by simp
qed

lemma GetAlignedPos_valid:
  assumes "GetAlignedPos pos k = (v, True)" and "pos < U64"
  shows "pos \<le> v" and "v < U64" and "k = 0 \<or> k dvd v"
    and "\<And>q. pos \<le> q \<Longrightarrow> k = 0 \<or> k dvd q \<Longrightarrow> v \<le> q"
proof -
  have v: "v = (if k = 0 then pos else pos + (if pos mod k \<noteq> 0 then k - pos mod k else 0))"
    and small: "k \<noteq> 0 \<Longrightarrow> (if pos mod k \<noteq> 0 then k - pos mod k else 0) \<le> (U64 - 1) - pos"
    using assms(1) by (auto simp: GetAlignedPos_def Let_def split: if_splits)
  show "pos \<le> v" and "v < U64"
    using v small assms(2) by (auto split: if_splits)
  show "k = 0 \<or> k dvd v"
    using v aligned_increment [of k pos] by auto
  show "v \<le> q" if "pos \<le> q" and "k = 0 \<or> k dvd q" for q
    using v that aligned_least [of k q pos] by auto
qed

lemma GetAlignedPos_invalid:
  assumes "GetAlignedPos pos k = (v, False)" and "pos \<le> q" and "k = 0 \<or> k dvd q"
  shows "U64 \<le> q"
proof -
  have "k \<noteq> 0" and big: "(U64 - 1) - pos < (if pos mod k \<noteq> 0 then k - pos mod k else 0)"
    using assms(1) by (auto simp: GetAlignedPos_def Let_def split: if_splits)
  moreover have "pos + (if pos mod k \<noteq> 0 then k - pos mod k else 0) \<le> q"
    using assms \<open>k \<noteq> 0\<close> by (intro aligned_least) auto
  ultimately show ?thesis by linarith
qed

text \<open>
  \<open>GetAlignedPos\<close> yields the smallest aligned position at or after the given one, and
  is invalid exactly when that position is not a 64-bit value.
\<close>

theorem aligned_pos_least:
  assumes "pos < U64" and "0 < k"
  shows "GetAlignedPos pos k =
    (let v = (LEAST q. pos \<le> q \<and> k dvd q) in if v < U64 then (v, True) else (0, False))"
proof -
  let ?v = "pos + (if pos mod k \<noteq> 0 then k - pos mod k else 0)"
  have "(LEAST q. pos \<le> q \<and> k dvd q) = ?v"
    using assms(2) aligned_increment [OF assms(2)] aligned_least [OF assms(2)]
    by (intro Least_equality) auto
  moreover have "?v < U64 \<longleftrightarrow> (if pos mod k \<noteq> 0 then k - pos mod k else 0) \<le> (U64 - 1) - pos"
    using assms(1) by auto
  ultimately show ?thesis
    using assms(2) by (auto simp: GetAlignedPos_def Let_def)
qed

theorem aligned_pos_least_witness:
  "GetAlignedPos 0x4001 0x4000 = (0x8000, True)
     \<and> (let v = (LEAST q. 0x4001 \<le> q \<and> (0x4000::nat) dvd q)
        in if v < U64 then (v, True) else (0, False)) = (0x8000, True)"
proof -
  have val: "GetAlignedPos 0x4001 0x4000 = (0x8000, True)"
    by (simp add: GetAlignedPos_def Let_def U64_def)
  have "(0x4001::nat) < U64" "(0::nat) < 0x4000" by (simp_all add: U64_def)
  from aligned_pos_least [OF this] val show ?thesis by simp
qed

definition KERNEL_MAXIMUM_NAME_LENGTH :: nat where
  "KERNEL_MAXIMUM_NAME_LENGTH = 32"

definition CopyVirtualRangeName :: "string option \<Rightarrow> string" where
  "CopyVirtualRangeName src = cstr_copy KERNEL_MAXIMUM_NAME_LENGTH src"

end
