(* ===== verification/AddressMap.thy ===== *)
theory AddressMap
  imports Prelude
begin

text \<open>
  The interface of a map from addresses to attributes that is kept as a list of ranges, as
  the address-space bookkeeping of the kernel and its clients see it: a span is put, erased
  or edited, and only the attributes of single addresses are observable.
\<close>

definition free_span :: "nat \<Rightarrow> nat \<Rightarrow> (nat \<Rightarrow> 'v option) \<Rightarrow> bool" where
  "free_span s n m \<longleftrightarrow> (\<forall>a\<in>{s ..< s + n}. m a = None)"

definition erase_map :: "nat \<Rightarrow> nat \<Rightarrow> (nat \<Rightarrow> 'v option) \<Rightarrow> nat \<Rightarrow> 'v option" where
  "erase_map s n m a = (if s \<le> a \<and> a < s + n then None else m a)"

definition edit_map :: "nat \<Rightarrow> nat \<Rightarrow> ('v \<Rightarrow> 'v) \<Rightarrow> (nat \<Rightarrow> 'v option) \<Rightarrow> nat \<Rightarrow> 'v option" where
  "edit_map s n f m a = (if s \<le> a \<and> a < s + n then map_option f (m a) else m a)"

definition put_map :: "nat \<Rightarrow> nat \<Rightarrow> (nat \<Rightarrow> 'v) \<Rightarrow> (nat \<Rightarrow> 'v option) \<Rightarrow> nat \<Rightarrow> 'v option" where
  "put_map s n f m a = (if s \<le> a \<and> a < s + n then Some (f a) else m a)"

lemma erase_map_0 [simp]: "erase_map s 0 m = m"
  by (rule ext) (auto simp: erase_map_def)

lemma edit_map_0 [simp]: "edit_map s 0 f m = m"
  by (rule ext) (auto simp: edit_map_def)

lemma erase_free: "free_span s n m \<Longrightarrow> erase_map s n m = m"
  by (rule ext) (auto simp: erase_map_def free_span_def)

lemma erase_put: "free_span s n m \<Longrightarrow> erase_map s n (put_map s n f m) = m"
  by (rule ext) (auto simp: erase_map_def free_span_def put_map_def)

lemma free_erased: "free_span s n (erase_map s n m)"
  by (simp add: erase_map_def free_span_def)

lemma erase_commute: "erase_map s n (erase_map t k m) = erase_map t k (erase_map s n m)"
  by (rule ext) (simp add: erase_map_def)

text \<open>
  \<open>put\<close> succeeds on free, valid spans only and reports whether it did; \<open>erase\<close> removes
  whatever the span holds.
\<close>

locale address_map =
  fixes wf :: "'s \<Rightarrow> bool"
    and view :: "'s \<Rightarrow> nat \<Rightarrow> 'v option"
    and valid :: "nat \<Rightarrow> nat \<Rightarrow> bool"
    and put :: "nat \<Rightarrow> nat \<Rightarrow> 'x \<Rightarrow> 's \<Rightarrow> bool \<times> 's"
    and attr :: "nat \<Rightarrow> 'x \<Rightarrow> nat \<Rightarrow> 'v"
    and erase :: "nat \<Rightarrow> nat \<Rightarrow> 's \<Rightarrow> 's"
  assumes put_wf: "wf s \<Longrightarrow> valid b n \<Longrightarrow> wf (snd (put b n x s))"
    and put_ok: "wf s \<Longrightarrow> valid b n \<Longrightarrow> fst (put b n x s) \<longleftrightarrow> free_span b n (view s)"
    and put_view: "wf s \<Longrightarrow> valid b n \<Longrightarrow> view (snd (put b n x s))
      = (if free_span b n (view s) then put_map b n (attr b x) (view s) else view s)"
    and erase_wf: "wf s \<Longrightarrow> valid b n \<Longrightarrow> wf (erase b n s)"
    and erase_view: "wf s \<Longrightarrow> valid b n \<Longrightarrow> view (erase b n s) = erase_map b n (view s)"
begin

text \<open>Rolling back: erasing what has just been put gives back the observable map.\<close>

lemma put_erase:
  assumes "wf s" and "valid b n" and "put b n x s = (True, t)"
  shows "view (erase b n t) = view s"
proof -
  have free: "free_span b n (view s)" using put_ok [OF assms(1,2)] assms(3) by (metis fst_conv)
  have "wf t" using put_wf [OF assms(1,2)] assms(3) by (metis snd_conv)
  moreover have "view t = put_map b n (attr b x) (view s)"
    using put_view [OF assms(1,2)] assms(3) free by (metis snd_conv)
  ultimately show ?thesis using assms(2) free by (simp add: erase_view erase_put)
qed

lemma put_fails:
  assumes "wf s" and "valid b n" and "put b n x s = (False, t)"
  shows "view t = view s" and "\<not> free_span b n (view s)"
  using put_ok [OF assms(1,2)] put_view [OF assms(1,2), of x] assms(3)
  by (metis fst_conv snd_conv)+

lemma erase_then_put:
  assumes "wf s" and "valid b n" and "put b n x (erase b n s) = (ok, t)"
  shows "ok" and "wf t" and "view t = put_map b n (attr b x) (view s)"
proof -
  have wf: "wf (erase b n s)" and view: "view (erase b n s) = erase_map b n (view s)"
    using assms(1,2) by (simp_all add: erase_wf erase_view)
  then have free: "free_span b n (view (erase b n s))" by (simp add: free_erased)
  then show "ok" using put_ok [OF wf assms(2)] assms(3) by (metis fst_conv)
  show "wf t" using put_wf [OF wf assms(2)] assms(3) by (metis snd_conv)
  have "view t = put_map b n (attr b x) (erase_map b n (view s))"
    using put_view [OF wf assms(2)] assms(3) free view by (metis snd_conv)
  also have "\<dots> = put_map b n (attr b x) (view s)"
    by (rule ext) (simp add: put_map_def erase_map_def)
  finally show "view t = put_map b n (attr b x) (view s)" .
qed

lemma put_twice_fails:
  assumes "wf s" and "valid b n" and "0 < n" and "put b n x s = (True, t)"
  shows "\<not> fst (put b n y t)"
proof -
  have free: "free_span b n (view s)" using put_ok [OF assms(1,2)] assms(4) by (metis fst_conv)
  have "wf t" using put_wf [OF assms(1,2)] assms(4) by (metis snd_conv)
  moreover have "view t = put_map b n (attr b x) (view s)"
    using put_view [OF assms(1,2)] assms(4) free by (metis snd_conv)
  ultimately show ?thesis
    using put_ok [of t b n y] assms(2,3) by (auto simp: free_span_def put_map_def)
qed

end

end
