(* ===== verification/VirtualRanges.thy ===== *)
theory VirtualRanges
  imports MemoryProtection AddressMap
begin

text \<open>
  \<open>class VirtualRanges\<close> of \<open>gpu/src/kernel/memory.cpp\<close>: the sorted vector of the guest's
  virtual ranges with their attributes. Every operation runs under the object's mutex, so
  it is a function from the vector to the vector.

  \<open>view\<close> is the abstract state: the attributes of each mapped address. The lemmas show that
  every operation keeps the vector sorted and disjoint and acts on \<open>view\<close> address by
  address, however the code splits and merges the entries.
\<close>

section \<open>Data\<close>

datatype range_type = Reserved | PoolReserved | Direct | Flexible | Pooled | Stack | Code

definition IsReservedRangeType :: "range_type \<Rightarrow> bool" where
  "IsReservedRangeType t \<longleftrightarrow> t = Reserved \<or> t = PoolReserved"

definition IsPooledRangeType :: "range_type \<Rightarrow> bool" where
  "IsPooledRangeType t \<longleftrightarrow> t = Pooled \<or> t = PoolReserved"

definition IsCommittedRangeType :: "range_type \<Rightarrow> bool" where
  "IsCommittedRangeType t \<longleftrightarrow> \<not> IsReservedRangeType t"

record vrange =
  r_start :: nat
  r_size :: nat
  r_offset :: nat
  r_protection :: prot
  r_memory_type :: int
  r_type :: range_type
  r_committed_from_reserved :: bool
  r_placeholder_backed :: bool
  r_name :: string

abbreviation r_end :: "vrange \<Rightarrow> nat" where
  "r_end r \<equiv> range_End (r_start r) (r_size r)"

section \<open>Private helpers of the class\<close>

definition SameMergeKey :: "vrange \<Rightarrow> vrange \<Rightarrow> bool" where
  "SameMergeKey left right \<longleftrightarrow>
     \<not> (r_type left = Direct \<or> r_type right = Direct)
     \<and> r_type left = r_type right \<and> r_protection left = r_protection right
     \<and> r_memory_type left = r_memory_type right
     \<and> r_committed_from_reserved left = r_committed_from_reserved right
     \<and> r_placeholder_backed left = r_placeholder_backed right
     \<and> r_name left = r_name right"

definition mergeable :: "vrange \<Rightarrow> vrange \<Rightarrow> bool" where
  "mergeable c n \<longleftrightarrow> r_end c = r_start n \<and> SameMergeKey c n"

definition joined :: "vrange \<Rightarrow> vrange \<Rightarrow> vrange" where
  "joined c n = c\<lparr>r_size := add64 (r_size c) (r_size n)\<rparr>"

text \<open>A part \<open>[s, e)\<close> of a range; the physical offset of a direct range moves with it.\<close>

definition sub_range :: "vrange \<Rightarrow> nat \<Rightarrow> nat \<Rightarrow> vrange" where
  "sub_range r s e = r\<lparr>r_start := s, r_size := sub64 e s,
     r_offset := (if r_type r = Direct then add64 (r_offset r) (sub64 s (r_start r))
                  else r_offset r)\<rparr>"

text \<open>\<open>AddPiece\<close> pushes the part onto the output vector unless it is empty.\<close>

definition AddPiece :: "vrange list \<Rightarrow> vrange \<Rightarrow> nat \<Rightarrow> nat \<Rightarrow> vrange list" where
  "AddPiece out source s e = (if e \<le> s then out else out @ [sub_range source s e])"

definition vr_below :: "nat \<Rightarrow> vrange list \<Rightarrow> vrange list" where
  "vr_below s rs = takeWhile (\<lambda>r. r_start r < s) rs"

text \<open>\<open>LowerBound\<close> is the split of the vector at the first range starting at or after \<open>s\<close>.\<close>

definition LowerBound :: "nat \<Rightarrow> vrange list \<Rightarrow> vrange list" where
  "LowerBound s rs = dropWhile (\<lambda>r. r_start r < s) rs"

text \<open>The forward loop of \<open>MergeAroundUnlocked\<close> from the current element on.\<close>

fun merge_run :: "vrange \<Rightarrow> vrange list \<Rightarrow> vrange list" where
  "merge_run c [] = [c]"
| "merge_run c (n # ns) = (if mergeable c n then merge_run (joined c n) ns else c # n # ns)"

definition MergeAroundUnlocked :: "nat \<Rightarrow> vrange list \<Rightarrow> vrange list" where
  "MergeAroundUnlocked i rs =
     (if i \<ge> length rs then rs
      else
        (let back = i \<noteq> 0 \<and> mergeable (rs ! (i - 1)) (rs ! i);
             j = (if back then i - 1 else i);
             c = (if back then joined (rs ! (i - 1)) (rs ! i) else rs ! i)
         in take j rs @ merge_run c (drop (Suc i) rs)))"

text \<open>The merging loop of \<open>MergeUnlocked\<close>, with the last merged element in hand.\<close>

fun merge_list :: "vrange \<Rightarrow> vrange list \<Rightarrow> vrange list" where
  "merge_list prev [] = [prev]"
| "merge_list prev (r # rs) =
     (if mergeable prev r then merge_list (joined prev r) rs else prev # merge_list r rs)"

definition MergeUnlocked :: "vrange list \<Rightarrow> vrange list" where
  "MergeUnlocked rs =
     (if length rs < 2 then rs
      else (case sort_key r_start rs of [] \<Rightarrow> [] | r # rs' \<Rightarrow> merge_list r rs'))"

definition edit_piece :: "nat \<Rightarrow> nat \<Rightarrow> (vrange \<Rightarrow> vrange) \<Rightarrow> vrange \<Rightarrow> vrange list" where
  "edit_piece s n edit r =
     (if \<not> VirtualRangesOverlap s n (r_start r) (r_size r) then [r]
      else
        (let mid_start = max s (r_start r);
             mid_end = min (range_End s n) (r_end r);
             out = AddPiece [] r (r_start r) mid_start;
             out = out @ [edit (sub_range r mid_start mid_end)]
         in AddPiece out r mid_end (r_end r)))"

definition EditUnlocked :: "nat \<Rightarrow> nat \<Rightarrow> (vrange \<Rightarrow> vrange) \<Rightarrow> vrange list \<Rightarrow> vrange list" where
  "EditUnlocked s n edit rs =
     (if n = 0 then rs else MergeUnlocked (concat (map (edit_piece s n edit) rs)))"

definition remove_piece :: "nat \<Rightarrow> nat \<Rightarrow> vrange \<Rightarrow> vrange list" where
  "remove_piece s n r =
     (if \<not> VirtualRangesOverlap s n (r_start r) (r_size r) then [r]
      else AddPiece (AddPiece [] r (r_start r) (max s (r_start r)))
             r (min (range_End s n) (r_end r)) (r_end r))"

definition RemoveUnlocked :: "nat \<Rightarrow> nat \<Rightarrow> vrange list \<Rightarrow> bool \<times> vrange list" where
  "RemoveUnlocked s n rs =
     (if n = 0 then (False, rs)
      else (\<exists>r\<in>set rs. VirtualRangesOverlap s n (r_start r) (r_size r),
            concat (map (remove_piece s n) rs)))"

definition FindOverlap :: "nat \<Rightarrow> nat \<Rightarrow> vrange list \<Rightarrow> vrange option" where
  "FindOverlap s n rs =
     (let before = vr_below s rs; after = LowerBound s rs
      in if after \<noteq> [] \<and> VirtualRangesOverlap s n (r_start (hd after)) (r_size (hd after))
         then Some (hd after)
         else if before \<noteq> []
                 \<and> VirtualRangesOverlap s n (r_start (last before)) (r_size (last before))
         then Some (last before)
         else None)"

section \<open>The operations\<close>

definition VR_Add :: "nat \<Rightarrow> nat \<Rightarrow> nat \<Rightarrow> prot \<Rightarrow> int \<Rightarrow> range_type \<Rightarrow> string option \<Rightarrow>
    bool \<Rightarrow> bool \<Rightarrow> vrange list \<Rightarrow> bool \<times> vrange list" where
  "VR_Add s n offset protection memory_type type name committed placeholder rs =
     (if s = 0 \<or> n = 0 then (False, rs)
      else
        (let before = vr_below s rs; after = LowerBound s rs
         in if (after \<noteq> [] \<and> VirtualRangesOverlap s n (r_start (hd after)) (r_size (hd after)))
               \<or> (before \<noteq> []
                  \<and> VirtualRangesOverlap s n (r_start (last before)) (r_size (last before)))
            then (False, rs)
            else
              (let r = \<lparr>r_start = s, r_size = n, r_offset = offset, r_protection = protection,
                        r_memory_type = memory_type, r_type = type,
                        r_committed_from_reserved = committed,
                        r_placeholder_backed = placeholder,
                        r_name = CopyVirtualRangeName name\<rparr>
               in (True, MergeAroundUnlocked (length before) (before @ r # after)))))"

definition VR_Remove :: "nat \<Rightarrow> nat \<Rightarrow> vrange list \<Rightarrow> bool \<times> vrange list" where
  "VR_Remove s n rs =
     (let before = vr_below s rs; after = LowerBound s rs
      in if after \<noteq> [] \<and> r_start (hd after) = s \<and> r_size (hd after) = n
         then (True, before @ tl after)
         else (case RemoveUnlocked s n rs of (removed, rs') \<Rightarrow> (removed, MergeUnlocked rs')))"

definition VR_HasOverlap :: "nat \<Rightarrow> nat \<Rightarrow> vrange list \<Rightarrow> bool" where
  "VR_HasOverlap s n rs = (FindOverlap s n rs \<noteq> None)"

definition VR_HasGpuAccess :: "nat \<Rightarrow> nat \<Rightarrow> vrange list \<Rightarrow> bool" where
  "VR_HasGpuAccess s n rs =
     (\<exists>r\<in>set rs. VirtualRangesOverlap s n (r_start r) (r_size r)
        \<and> prot_has (r_protection r) (PROT_GPU_READ OR PROT_GPU_WRITE))"

text \<open>
  \<open>ReleaseReserved\<close> gives the memory back to the host: the second component of its result
  is the address the code passes to \<open>VirtualMemory::Free\<close>, whose answer it returns.
\<close>

fun release_reserved_scan :: "nat \<Rightarrow> nat \<Rightarrow> vrange list \<Rightarrow> vrange list option" where
  "release_reserved_scan s n [] = None"
| "release_reserved_scan s n (r # rs) =
     (if r_start r = s \<and> r_size r = n \<and> IsReservedRangeType (r_type r) then Some rs
      else map_option ((#) r) (release_reserved_scan s n rs))"

definition VR_ReleaseReserved ::
    "(nat \<Rightarrow> bool) \<Rightarrow> nat \<Rightarrow> nat \<Rightarrow> vrange list \<Rightarrow> bool \<times> vrange list" where
  "VR_ReleaseReserved host_free s n rs =
     (case release_reserved_scan s n rs of
        Some rs' \<Rightarrow> (host_free s, rs')
      | None \<Rightarrow> (True, rs))"

definition VR_ConsumeReserved ::
    "nat \<Rightarrow> nat \<Rightarrow> range_type \<Rightarrow> vrange list \<Rightarrow> bool \<times> vrange list" where
  "VR_ConsumeReserved s n type rs =
     (if \<exists>r\<in>set rs. r_type r = type \<and> s \<ge> r_start r \<and> range_End s n \<le> r_end r
      then (True, MergeUnlocked (snd (RemoveUnlocked s n rs)))
      else (False, rs))"

text \<open>
  The scan of \<open>ConsumeReservedSpan\<close>: from \<open>current\<close>, the range of the wanted type that holds
  it, until the end is reached. Each turn moves \<open>current\<close> to a strictly larger address, so
  the distance to the end bounds the number of turns.
\<close>

function consume_scan :: "nat \<Rightarrow> range_type \<Rightarrow> vrange list \<Rightarrow> nat \<Rightarrow> bool" where
  "consume_scan e type rs current =
     (if current < e then
        (case find (\<lambda>r. r_type r = type \<and> current \<ge> r_start r \<and> current < r_end r) rs of
           None \<Rightarrow> False
         | Some candidate \<Rightarrow> consume_scan e type rs (min e (r_end candidate)))
      else True)"
  by pat_completeness auto
termination
proof (relation "measure (\<lambda>(e, type, rs, current). e - current)")
  fix e type rs current candidate
  assume "current < e"
    and "find (\<lambda>r. r_type r = type \<and> current \<ge> r_start r \<and> current < r_end r) rs = Some candidate"
  moreover from this have "current < r_end candidate"
    by (auto simp: find_Some_iff)
  ultimately show "((e, type, rs, min e (r_end candidate)), e, type, rs, current)
      \<in> measure (\<lambda>(e, type, rs, current). e - current)"
    by auto
qed simp

declare consume_scan.simps [simp del]

text \<open>The optional output is the range holding the first address.\<close>

definition VR_ConsumeReservedSpan ::
    "nat \<Rightarrow> nat \<Rightarrow> range_type \<Rightarrow> vrange list \<Rightarrow> bool \<times> vrange option \<times> vrange list" where
  "VR_ConsumeReservedSpan s n type rs =
     (if n = 0 then (False, None, rs)
      else
        (let first = (if s < range_End s n then
               find (\<lambda>r. r_type r = type \<and> s \<ge> r_start r \<and> s < r_end r) rs else None)
         in if consume_scan (range_End s n) type rs s
            then (True, first, MergeUnlocked (snd (RemoveUnlocked s n rs)))
            else (False, first, rs)))"

definition VR_Rename :: "nat \<Rightarrow> nat \<Rightarrow> string option \<Rightarrow> vrange list \<Rightarrow> vrange list" where
  "VR_Rename s n name rs =
     (let before = vr_below s rs; after = LowerBound s rs
      in if after \<noteq> [] \<and> r_start (hd after) = s \<and> r_size (hd after) = n
         then MergeAroundUnlocked (length before)
                (before @ (hd after)\<lparr>r_name := CopyVirtualRangeName name\<rparr> # tl after)
         else EditUnlocked s n (\<lambda>r. r\<lparr>r_name := CopyVirtualRangeName name\<rparr>) rs)"

definition VR_Protect :: "nat \<Rightarrow> nat \<Rightarrow> prot \<Rightarrow> vrange list \<Rightarrow> vrange list" where
  "VR_Protect s n protection rs = EditUnlocked s n (\<lambda>r. r\<lparr>r_protection := protection\<rparr>) rs"

definition VR_SetMemoryType :: "nat \<Rightarrow> nat \<Rightarrow> int \<Rightarrow> vrange list \<Rightarrow> vrange list" where
  "VR_SetMemoryType s n memory_type rs =
     EditUnlocked s n (\<lambda>r. r\<lparr>r_memory_type := memory_type\<rparr>) rs"

definition VR_Query :: "nat \<Rightarrow> int \<Rightarrow> vrange list \<Rightarrow> vrange option" where
  "VR_Query a flags rs =
     (let before = takeWhile (\<lambda>r. \<not> a < r_start r) rs;
          nexts = dropWhile (\<lambda>r. \<not> a < r_start r) rs
      in if before \<noteq> [] \<and> a < r_end (last before) then Some (last before)
         else if flags \<noteq> 1 \<or> nexts = [] then None
         else Some (hd nexts))"

fun query_span_loop :: "nat \<Rightarrow> nat \<Rightarrow> vrange list \<Rightarrow> vrange list \<Rightarrow> vrange list option" where
  "query_span_loop e current out [] = None"
| "query_span_loop e current out (r # rs) =
     (if r_end r \<le> current then query_span_loop e current out rs
      else if r_start r > current then None
      else
        (let part = sub_range r current (min e (r_end r));
             current' = add64 current (r_size part)
         in if current' = e then Some (out @ [part])
            else query_span_loop e current' (out @ [part]) rs))"

definition VR_QuerySpan :: "nat \<Rightarrow> nat \<Rightarrow> vrange list \<Rightarrow> vrange list option" where
  "VR_QuerySpan s n rs =
     (if s = 0 \<or> n = 0 \<or> n > (U64 - 1) - s then None
      else query_span_loop (add64 s n) s [] rs)"

definition PAGE_TABLE_GRANULARITY :: nat where
  "PAGE_TABLE_GRANULARITY = 2 * 1024 * 1024"

definition page_table_entries :: "vrange \<Rightarrow> nat" where
  "page_table_entries r =
     (r_end r - 1) div PAGE_TABLE_GRANULARITY - r_start r div PAGE_TABLE_GRANULARITY + 1"

definition VR_CountPageTableEntries :: "bool \<Rightarrow> vrange list \<Rightarrow> nat" where
  "VR_CountPageTableEntries gpu rs =
     (\<Sum>r\<leftarrow>rs.
        if \<not> IsCommittedRangeType (r_type r) \<or> r_size r = 0 then 0
        else if (if gpu then \<not> prot_has (r_protection r) (PROT_GPU_READ OR PROT_GPU_WRITE)
                 else \<not> prot_has (r_protection r)
                        (PROT_CPU_READ OR PROT_CPU_WRITE OR PROT_CPU_EXEC))
        then 0 else page_table_entries r)"

section \<open>Invariant and abstract state\<close>

definition vr_dom :: "vrange \<Rightarrow> nat set" where
  "vr_dom r = {r_start r ..< r_start r + r_size r}"

definition vr_ok :: "vrange \<Rightarrow> bool" where
  "vr_ok r \<longleftrightarrow> 0 < r_size r \<and> r_start r + r_size r < U64"

definition vr_wf :: "vrange list \<Rightarrow> bool" where
  "vr_wf rs \<longleftrightarrow> (\<forall>r\<in>set rs. vr_ok r)
     \<and> sorted_wrt (\<lambda>r s. r_start r + r_size r \<le> r_start s) rs"

text \<open>
  The attributes of one address of a range: the record without its extent, the offset
  advanced to the address for direct memory and irrelevant otherwise.
\<close>

definition attr_at :: "vrange \<Rightarrow> nat \<Rightarrow> vrange" where
  "attr_at r a = r\<lparr>r_start := 0, r_size := 0,
     r_offset := (if r_type r = Direct then add64 (r_offset r) (a - r_start r) else 0)\<rparr>"

fun view :: "vrange list \<Rightarrow> nat \<Rightarrow> vrange option" where
  "view [] a = None"
| "view (r # rs) a = (if a \<in> vr_dom r then Some (attr_at r a) else view rs a)"

named_theorems vr_simps \<open>facts about entries, their extent and their attributes\<close>

lemma vr_wf_Nil [simp]: "vr_wf []"
  by (simp add: vr_wf_def)

lemma vr_wf_Cons [vr_simps]:
  "vr_wf (r # rs) \<longleftrightarrow> vr_ok r \<and> (\<forall>s\<in>set rs. r_start r + r_size r \<le> r_start s) \<and> vr_wf rs"
  by (auto simp: vr_wf_def)

lemma vr_wf_append [vr_simps]:
  "vr_wf (rs @ ss) \<longleftrightarrow> vr_wf rs \<and> vr_wf ss
     \<and> (\<forall>r\<in>set rs. \<forall>s\<in>set ss. r_start r + r_size r \<le> r_start s)"
  by (auto simp: vr_wf_def sorted_wrt_append)

lemma vr_ok_end [arith64]: "vr_ok r \<Longrightarrow> r_end r = r_start r + r_size r"
  by (simp add: vr_ok_def range_End_exact)

lemma view_append:
  "view (rs @ ss) a = (case view rs a of None \<Rightarrow> view ss a | Some v \<Rightarrow> Some v)"
  by (induction rs) auto

lemma view_None: "view rs a = None \<longleftrightarrow> (\<forall>r\<in>set rs. a \<notin> vr_dom r)"
  by (induction rs) auto

lemma view_tail_None: "vr_wf (r # rs) \<Longrightarrow> a \<in> vr_dom r \<Longrightarrow> view rs a = None"
  by (fastforce simp: view_None vr_wf_Cons vr_dom_def)

lemma view_member:
  "vr_wf rs \<Longrightarrow> r \<in> set rs \<Longrightarrow> a \<in> vr_dom r \<Longrightarrow> view rs a = Some (attr_at r a)"
proof (induction rs)
  case (Cons x rs)
  show ?case
  proof (cases "r = x")
    case False
    then have "a \<notin> vr_dom x"
      using Cons.prems by (fastforce simp: vr_wf_Cons vr_dom_def)
    with False Cons show ?thesis by (simp add: vr_wf_Cons)
  qed (use Cons.prems in simp)
qed simp

text \<open>A part of a range has the attributes of the range at every address of the part.\<close>

lemma sub_range_simps [vr_simps]:
  assumes "vr_ok r" and "r_start r \<le> s" and "s < e" and "e \<le> r_start r + r_size r"
  shows "vr_ok (sub_range r s e)" and "r_start (sub_range r s e) = s"
    and "r_size (sub_range r s e) = e - s" and "vr_dom (sub_range r s e) = {s ..< e}"
    and "s \<le> a \<Longrightarrow> attr_at (sub_range r s e) a = attr_at r a"
proof -
  have size: "sub64 e s = e - s" and off: "sub64 s (r_start r) = s - r_start r"
    using assms by (auto simp: vr_ok_def intro!: sub64_exact)
  then show "r_start (sub_range r s e) = s" "r_size (sub_range r s e) = e - s"
    "vr_ok (sub_range r s e)" "vr_dom (sub_range r s e) = {s ..< e}"
    using assms by (auto simp: sub_range_def vr_ok_def vr_dom_def)
  show "attr_at (sub_range r s e) a = attr_at r a" if "s \<le> a"
  proof -
    have "add64 (add64 (r_offset r) (s - r_start r)) (a - s) = add64 (r_offset r) (a - r_start r)"
      using that assms(2) by (simp add: add64_assoc)
    then show ?thesis
      using size off by (simp add: attr_at_def sub_range_def)
  qed
qed

section \<open>Splitting\<close>

text \<open>
  The edit and remove loops replace every entry by pieces inside it. Such a step keeps the
  vector sorted and disjoint, and its effect on the view is the effect on one entry.
\<close>

definition inside :: "vrange \<Rightarrow> vrange list \<Rightarrow> bool" where
  "inside r ps \<longleftrightarrow> vr_wf ps
     \<and> (\<forall>p\<in>set ps. r_start r \<le> r_start p \<and> r_start p + r_size p \<le> r_start r + r_size r)"

lemma concat_pieces_wf:
  "vr_wf rs \<Longrightarrow> (\<And>r. r \<in> set rs \<Longrightarrow> inside r (f r)) \<Longrightarrow> vr_wf (concat (map f rs))"
proof (induction rs)
  case (Cons r rs)
  have "r_start p + r_size p \<le> r_start q"
    if p: "p \<in> set (f r)" and q: "q \<in> set (concat (map f rs))" for p q
  proof -
    from q obtain t where t: "t \<in> set rs" "q \<in> set (f t)" by auto
    have "r_start p + r_size p \<le> r_start r + r_size r"
      using p Cons.prems(2) [of r] by (simp add: inside_def)
    also have "\<dots> \<le> r_start t"
      using t(1) Cons.prems(1) by (simp add: vr_wf_Cons)
    also have "\<dots> \<le> r_start q"
      using t Cons.prems(2) [of t] by (simp add: inside_def)
    finally show ?thesis .
  qed
  then show ?case
    using Cons by (auto simp: vr_wf_append vr_wf_Cons inside_def)
qed simp

lemma inside_view_None: "inside r ps \<Longrightarrow> a \<notin> vr_dom r \<Longrightarrow> view ps a = None"
  by (fastforce simp: inside_def view_None vr_dom_def)

lemma concat_pieces_view:
  assumes "vr_wf rs" and "\<And>r. r \<in> set rs \<Longrightarrow> inside r (f r)"
    and "\<And>r. r \<in> set rs \<Longrightarrow> a \<in> vr_dom r \<Longrightarrow> view (f r) a = g (attr_at r a)"
  shows "view (concat (map f rs)) a = Option.bind (view rs a) g"
  using assms
proof (induction rs)
  case (Cons r rs)
  have IH: "view (concat (map f rs)) a = Option.bind (view rs a) g"
    using Cons by (simp add: vr_wf_Cons)
  show ?case
  proof (cases "a \<in> vr_dom r")
    case True
    then have "view rs a = None" using Cons.prems(1) by (rule view_tail_None [rotated])
    with True Cons.prems(3) [of r] IH show ?thesis
      by (simp add: view_append split: option.splits)
  next
    case False
    with Cons.prems(2) [of r] IH show ?thesis
      by (simp add: view_append inside_view_None)
  qed
qed simp

lemma no_overlap_dom:
  assumes "vr_ok r" and "s + n < U64" and "\<not> VirtualRangesOverlap s n (r_start r) (r_size r)"
  shows "{s ..< s + n} \<inter> vr_dom r = {}"
  using assms overlap_iff [of s n "r_start r" "r_size r"] by (simp add: vr_ok_def vr_dom_def)

lemma remove_piece_eq:
  assumes "vr_ok r" and "0 < n" and "s + n < U64"
  shows "remove_piece s n r =
    (if {s ..< s + n} \<inter> vr_dom r = {} then [r]
     else (if r_start r < s then [sub_range r (r_start r) s] else [])
       @ (if s + n < r_start r + r_size r then [sub_range r (s + n) (r_start r + r_size r)]
          else []))"
  using assms overlap_iff [of s n "r_start r" "r_size r"]
  by (auto simp: remove_piece_def AddPiece_def arith64 vr_dom_def vr_ok_def)

lemma inside_self: "vr_ok r \<Longrightarrow> inside r [r]"
  by (simp add: inside_def vr_wf_Cons)

lemma remove_piece_inside:
  assumes "vr_ok r" and "0 < n" and "s + n < U64"
  shows "inside r (remove_piece s n r)"
proof (cases "{s ..< s + n} \<inter> vr_dom r = {}")
  case True
  then show ?thesis by (simp add: remove_piece_eq assms inside_self)
next
  case False
  then have "s < r_start r + r_size r" "r_start r < s + n" by (auto simp: vr_dom_def)
  with False assms show ?thesis
    by (auto simp: remove_piece_eq inside_def vr_wf_append vr_wf_Cons sub_range_simps)
qed

lemma remove_piece_view:
  assumes "vr_ok r" and "0 < n" and "s + n < U64" and "a \<in> vr_dom r"
  shows "view (remove_piece s n r) a
    = (if s \<le> a \<and> a < s + n then None else Some (attr_at r a))"
proof (cases "{s ..< s + n} \<inter> vr_dom r = {}")
  case True
  then show ?thesis using assms by (auto simp: remove_piece_eq)
next
  case False
  then have "s < r_start r + r_size r" "r_start r < s + n" by (auto simp: vr_dom_def)
  with False assms show ?thesis
    by (auto simp: remove_piece_eq sub_range_simps) (auto simp: vr_dom_def)
qed


lemma edit_piece_eq:
  assumes "vr_ok r" and "0 < n" and "s + n < U64"
  shows "edit_piece s n edit r =
    (if {s ..< s + n} \<inter> vr_dom r = {} then [r]
     else (if r_start r < s then [sub_range r (r_start r) s] else [])
       @ [edit (sub_range r (max s (r_start r)) (min (s + n) (r_start r + r_size r)))]
       @ (if s + n < r_start r + r_size r then [sub_range r (s + n) (r_start r + r_size r)]
          else []))"
  using assms overlap_iff [of s n "r_start r" "r_size r"]
  by (auto simp: edit_piece_def AddPiece_def arith64 vr_dom_def vr_ok_def Let_def)

text \<open>
  An edit that leaves the extent, the type and the offset alone, so that it commutes with
  reading the attributes of an address.
\<close>

definition attr_edit :: "(vrange \<Rightarrow> vrange) \<Rightarrow> bool" where
  "attr_edit edit \<longleftrightarrow> (\<forall>r. r_start (edit r) = r_start r \<and> r_size (edit r) = r_size r
     \<and> (\<forall>a. attr_at (edit r) a = edit (attr_at r a)))"

lemma attr_edit_simps [simp]:
  "attr_edit (\<lambda>r. r\<lparr>r_protection := p\<rparr>)" "attr_edit (\<lambda>r. r\<lparr>r_memory_type := t\<rparr>)"
  "attr_edit (\<lambda>r. r\<lparr>r_name := nm\<rparr>)"
  by (simp_all add: attr_edit_def attr_at_def)

lemma attr_editD:
  assumes "attr_edit edit"
  shows "r_start (edit r) = r_start r" "r_size (edit r) = r_size r"
    "attr_at (edit r) a = edit (attr_at r a)" "vr_dom (edit r) = vr_dom r"
    "vr_ok (edit r) = vr_ok r"
  using assms by (simp_all add: attr_edit_def vr_dom_def vr_ok_def)

lemma edit_piece_spec:
  assumes "vr_ok r" and "0 < n" and "s + n < U64" and "attr_edit edit"
  shows "inside r (edit_piece s n edit r)"
    and "a \<in> vr_dom r \<Longrightarrow> view (edit_piece s n edit r) a
      = (if s \<le> a \<and> a < s + n then Some (edit (attr_at r a)) else Some (attr_at r a))"
proof -
  let ?b = "max s (r_start r)" and ?e = "min (s + n) (r_start r + r_size r)"
  have "inside r (edit_piece s n edit r) \<and> (a \<in> vr_dom r \<longrightarrow> view (edit_piece s n edit r) a
      = (if s \<le> a \<and> a < s + n then Some (edit (attr_at r a)) else Some (attr_at r a)))"
  proof (cases "{s ..< s + n} \<inter> vr_dom r = {}")
    case True
    then show ?thesis using assms by (auto simp: edit_piece_eq inside_self)
  next
    case False
    then have lt: "s < r_start r + r_size r" "r_start r < s + n" by (auto simp: vr_dom_def)
    then have mid: "r_start r \<le> ?b" "?b < ?e" "?e \<le> r_start r + r_size r"
      using assms by (auto simp: vr_ok_def)
    note m = sub_range_simps [OF assms(1) mid] attr_editD [OF assms(4)]
    show ?thesis
      using False assms lt mid
      by (auto simp: edit_piece_eq inside_def vr_wf_append vr_wf_Cons sub_range_simps m)
        (auto simp: vr_dom_def)
  qed
  then show "inside r (edit_piece s n edit r)"
    and "a \<in> vr_dom r \<Longrightarrow> view (edit_piece s n edit r) a
      = (if s \<le> a \<and> a < s + n then Some (edit (attr_at r a)) else Some (attr_at r a))"
    by blast+
qed

section \<open>Merging\<close>

lemma joined_simps:
  assumes "vr_ok c" and "vr_ok n" and "mergeable c n"
  shows "r_start (joined c n) = r_start c" "r_size (joined c n) = r_size c + r_size n"
    "r_start n = r_start c + r_size c" "vr_ok (joined c n)"
    "vr_dom (joined c n) = vr_dom c \<union> vr_dom n"
    "attr_at (joined c n) a = attr_at c a" "attr_at n a = attr_at c a"
proof -
  have start: "r_start n = r_start c + r_size c"
    using assms by (simp add: mergeable_def vr_ok_end)
  with assms have "r_size c + r_size n < U64" by (simp add: vr_ok_def)
  then have size: "add64 (r_size c) (r_size n) = r_size c + r_size n" by (rule add64_exact)
  show "r_start (joined c n) = r_start c" "r_size (joined c n) = r_size c + r_size n"
    "r_start n = r_start c + r_size c" "vr_ok (joined c n)"
    "vr_dom (joined c n) = vr_dom c \<union> vr_dom n"
    using assms start size by (auto simp: joined_def vr_ok_def vr_dom_def)
  show "attr_at (joined c n) a = attr_at c a" "attr_at n a = attr_at c a"
    using assms(3) by (auto simp: joined_def mergeable_def SameMergeKey_def attr_at_def
        intro: vrange.equality)
qed

lemma merge_step:
  assumes "vr_wf (pre @ c # n # ns)" and "mergeable c n"
  shows "vr_wf (pre @ joined c n # ns)" and "view (pre @ joined c n # ns) = view (pre @ c # n # ns)"
proof -
  have "vr_ok c" "vr_ok n" using assms(1) by (simp_all add: vr_wf_append vr_wf_Cons)
  note j = joined_simps [OF this assms(2)]
  show "vr_wf (pre @ joined c n # ns)"
    using assms(1) j by (auto simp: vr_wf_append vr_wf_Cons)
  show "view (pre @ joined c n # ns) = view (pre @ c # n # ns)"
    by (rule ext) (auto simp: view_append j split: option.splits)
qed

lemma merge_run_spec:
  "vr_wf (pre @ c # ns) \<Longrightarrow>
     vr_wf (pre @ merge_run c ns) \<and> view (pre @ merge_run c ns) = view (pre @ c # ns)"
proof (induction c ns rule: merge_run.induct)
  case (2 c n ns)
  then show ?case using merge_step [of pre c n ns] by auto
qed simp

lemma merge_list_spec:
  "vr_wf (pre @ c # ns) \<Longrightarrow>
     vr_wf (pre @ merge_list c ns) \<and> view (pre @ merge_list c ns) = view (pre @ c # ns)"
proof (induction c ns arbitrary: pre rule: merge_list.induct)
  case (2 c n ns)
  show ?case
  proof (cases "mergeable c n")
    case True
    then show ?thesis using 2 merge_step [of pre c n ns] by auto
  next
    case False
    then show ?thesis using "2.IH"(2) [OF False, of "pre @ [c]"] "2.prems" by simp
  qed
qed simp

lemma vr_wf_sorted: "vr_wf rs \<Longrightarrow> sort_key r_start rs = rs"
proof (rule sort_key_id_if_sorted)
  assume "vr_wf rs"
  then show "sorted (map r_start rs)"
    by (induction rs) (auto simp: vr_wf_Cons intro: add_leD1)
qed

lemma MergeUnlocked_spec:
  assumes "vr_wf rs"
  shows "vr_wf (MergeUnlocked rs)" and "view (MergeUnlocked rs) = view rs"
  using assms merge_list_spec [of "[]" "hd rs" "tl rs"]
  by (auto simp: MergeUnlocked_def vr_wf_sorted split: list.splits)

lemma MergeAroundUnlocked_spec:
  assumes "vr_wf rs"
  shows "vr_wf (MergeAroundUnlocked i rs)" and "view (MergeAroundUnlocked i rs) = view rs"
proof -
  have "vr_wf (MergeAroundUnlocked i rs) \<and> view (MergeAroundUnlocked i rs) = view rs"
  proof (cases "i \<ge> length rs")
    case True
    then show ?thesis using assms by (simp add: MergeAroundUnlocked_def)
  next
    case False
    then have split: "rs = take i rs @ rs ! i # drop (Suc i) rs"
      by (simp add: id_take_nth_drop)
    show ?thesis
    proof (cases "i \<noteq> 0 \<and> mergeable (rs ! (i - 1)) (rs ! i)")
      case True
      then have "take i rs = take (i - 1) rs @ [rs ! (i - 1)]"
        using False by (metis Suc_diff_1 Suc_leI less_imp_diff_less linorder_not_le
            neq0_conv take_Suc_conv_app_nth)
      then have eq: "rs = take (i - 1) rs @ rs ! (i - 1) # rs ! i # drop (Suc i) rs"
        using split by simp
      then have "vr_wf (take (i - 1) rs @ rs ! (i - 1) # rs ! i # drop (Suc i) rs)"
        using assms by simp
      note step = merge_step [OF this conjunct2 [OF True]]
      show ?thesis
        using True False merge_run_spec [OF step(1)] step(2) eq
        by (simp add: MergeAroundUnlocked_def Let_def)
    next
      case noback: False
      have "vr_wf (take i rs @ rs ! i # drop (Suc i) rs)" using split assms by simp
      from merge_run_spec [OF this] noback False split show ?thesis
        by (auto simp: MergeAroundUnlocked_def Let_def)
    qed
  qed
  then show "vr_wf (MergeAroundUnlocked i rs)" and "view (MergeAroundUnlocked i rs) = view rs"
    by blast+
qed


section \<open>Positions\<close>

lemma vr_split: "vr_below s rs @ LowerBound s rs = rs"
  by (simp add: vr_below_def LowerBound_def)

lemma vr_below_less: "r \<in> set (vr_below s rs) \<Longrightarrow> r_start r < s"
  by (auto simp: vr_below_def dest: set_takeWhileD)

lemma LowerBound_ge:
  assumes "vr_wf rs" and "r \<in> set (LowerBound s rs)"
  shows "s \<le> r_start r"
  using assms
proof (induction rs)
  case (Cons x rs)
  show ?case
  proof (cases "r_start x < s")
    case True
    with Cons show ?thesis by (simp add: LowerBound_def vr_wf_Cons)
  next
    case False
    with Cons.prems have "r = x \<or> r_start x + r_size x \<le> r_start r"
      by (auto simp: LowerBound_def vr_wf_Cons)
    with False show ?thesis by auto
  qed
qed (simp add: LowerBound_def)

lemma overlap_dom:
  "vr_ok r \<Longrightarrow> s + n < U64 \<Longrightarrow>
     VirtualRangesOverlap s n (r_start r) (r_size r) \<longleftrightarrow> {s ..< s + n} \<inter> vr_dom r \<noteq> {}"
  by (simp add: overlap_iff vr_ok_def vr_dom_def)

text \<open>
  The neighbours of the insertion point decide whether any entry overlaps: the vector is
  sorted and disjoint.
\<close>

lemma neighbours_decide:
  assumes "vr_wf rs" and "s + n < U64"
  shows "(LowerBound s rs \<noteq> [] \<and> VirtualRangesOverlap s n (r_start (hd (LowerBound s rs)))
              (r_size (hd (LowerBound s rs))))
     \<or> (vr_below s rs \<noteq> [] \<and> VirtualRangesOverlap s n (r_start (last (vr_below s rs)))
              (r_size (last (vr_below s rs))))
     \<longleftrightarrow> (\<exists>r\<in>set rs. VirtualRangesOverlap s n (r_start r) (r_size r))" (is "?L \<longleftrightarrow> ?R")
proof
  assume ?L
  then have "\<exists>r\<in>set (vr_below s rs @ LowerBound s rs).
      VirtualRangesOverlap s n (r_start r) (r_size r)"
    by (metis Un_iff hd_in_set last_in_set set_append)
  then show ?R by (simp add: vr_split)
next
  assume ?R
  then obtain r where r: "r \<in> set (vr_below s rs @ LowerBound s rs)"
    and ov: "VirtualRangesOverlap s n (r_start r) (r_size r)"
    by (auto simp: vr_split)
  have wf: "vr_wf (vr_below s rs @ LowerBound s rs)" using assms(1) by (simp add: vr_split)
  then have ok: "\<And>x. x \<in> set (vr_below s rs @ LowerBound s rs) \<Longrightarrow> vr_ok x"
    unfolding vr_wf_def by blast
  from ov have hit: "s < r_start r + r_size r" "r_start r < s + n" "0 < n"
    using overlap_dom [OF ok [OF r] assms(2)] by (auto simp: vr_dom_def)
  from r consider "r \<in> set (LowerBound s rs)" | "r \<in> set (vr_below s rs)" by auto
  then show ?L
  proof cases
    case 1
    then obtain h t where ht: "LowerBound s rs = h # t" by (cases "LowerBound s rs") auto
    have h: "vr_ok h" "s \<le> r_start h"
      using ok [of h] LowerBound_ge [OF assms(1), of h s] ht by auto
    have "r_start h \<le> r_start r"
      using 1 wf unfolding ht vr_wf_append vr_wf_Cons by auto
    then have "VirtualRangesOverlap s n (r_start h) (r_size h)"
      using overlap_dom [OF h(1) assms(2)] h hit by (auto simp: vr_dom_def vr_ok_def)
    then show ?thesis by (simp add: ht)
  next
    case 2
    then obtain i l where il: "vr_below s rs = i @ [l]"
      by (metis append_butlast_last_id empty_iff empty_set)
    have "r = l"
    proof (rule ccontr)
      assume "r \<noteq> l"
      then have "r_start r + r_size r \<le> r_start l"
        using 2 wf unfolding il vr_wf_append by auto
      moreover have "r_start l < s" using vr_below_less [of l s rs] il by simp
      ultimately show False using hit by linarith
    qed
    then show ?thesis using ov il by simp
  qed
qed

lemma overlap_view:
  assumes "vr_wf rs" and "s + n < U64"
  shows "(\<exists>r\<in>set rs. VirtualRangesOverlap s n (r_start r) (r_size r))
    \<longleftrightarrow> \<not> free_span s n (view rs)"
proof -
  have ok: "\<And>r. r \<in> set rs \<Longrightarrow> vr_ok r" using assms(1) by (simp add: vr_wf_def)
  then have "(\<exists>r\<in>set rs. VirtualRangesOverlap s n (r_start r) (r_size r))
      \<longleftrightarrow> (\<exists>r\<in>set rs. {s ..< s + n} \<inter> vr_dom r \<noteq> {})"
    using overlap_dom [OF _ assms(2)] by blast
  also have "\<dots> \<longleftrightarrow> \<not> free_span s n (view rs)"
    by (auto simp: free_span_def view_None)
  finally show ?thesis .
qed

section \<open>What each operation does to the view\<close>

lemma EditUnlocked_spec:
  assumes "vr_wf rs" and "s + n < U64" and "attr_edit edit"
  shows "vr_wf (EditUnlocked s n edit rs)"
    and "view (EditUnlocked s n edit rs) = edit_map s n edit (view rs)"
proof -
  have "vr_wf (EditUnlocked s n edit rs)
    \<and> view (EditUnlocked s n edit rs) = edit_map s n edit (view rs)"
  proof (cases "n = 0")
    case True
    then show ?thesis using assms by (auto simp: EditUnlocked_def)
  next
    case False
    have ok: "\<And>r. r \<in> set rs \<Longrightarrow> vr_ok r" using assms(1) by (simp add: vr_wf_def)
    note piece = edit_piece_spec [OF ok _ assms(2,3)]
    let ?out = "concat (map (edit_piece s n edit) rs)"
    have wf: "vr_wf ?out"
      using piece(1) False by (intro concat_pieces_wf [OF assms(1)]) simp
    have "view ?out a = edit_map s n edit (view rs) a" for a
    proof -
      have "view ?out a = Option.bind (view rs a)
          (\<lambda>v. if s \<le> a \<and> a < s + n then Some (edit v) else Some v)"
        using piece False by (intro concat_pieces_view [OF assms(1)]) simp_all
      then show ?thesis by (cases "view rs a") (simp_all add: edit_map_def)
    qed
    then show ?thesis
      using MergeUnlocked_spec [OF wf] False by (auto simp: EditUnlocked_def)
  qed
  then show "vr_wf (EditUnlocked s n edit rs)"
    and "view (EditUnlocked s n edit rs) = edit_map s n edit (view rs)" by blast+
qed

lemma RemoveUnlocked_spec:
  assumes "vr_wf rs" and "s + n < U64" and "RemoveUnlocked s n rs = (removed, rs')"
  shows "vr_wf rs'" and "view rs' = erase_map s n (view rs)"
    and "removed \<longleftrightarrow> \<not> free_span s n (view rs)"
proof -
  have "vr_wf rs' \<and> view rs' = erase_map s n (view rs)
    \<and> (removed \<longleftrightarrow> \<not> free_span s n (view rs))"
  proof (cases "n = 0")
    case True
    then show ?thesis
      using assms by (auto simp: RemoveUnlocked_def free_span_def)
  next
    case False
    have ok: "\<And>r. r \<in> set rs \<Longrightarrow> vr_ok r" using assms(1) by (simp add: vr_wf_def)
    note piece = remove_piece_inside [OF ok _ assms(2)] remove_piece_view [OF ok _ assms(2)]
    have rs': "rs' = concat (map (remove_piece s n) rs)"
      and removed: "removed \<longleftrightarrow> (\<exists>r\<in>set rs. VirtualRangesOverlap s n (r_start r) (r_size r))"
      using assms(3) False by (auto simp: RemoveUnlocked_def)
    have wf: "vr_wf rs'"
      unfolding rs' using piece(1) False by (intro concat_pieces_wf [OF assms(1)]) simp
    have "view rs' a = erase_map s n (view rs) a" for a
    proof -
      have "view rs' a = Option.bind (view rs a)
          (\<lambda>v. if s \<le> a \<and> a < s + n then None else Some v)"
        unfolding rs' using piece False
        by (intro concat_pieces_view [OF assms(1)]) simp_all
      then show ?thesis by (cases "view rs a") (simp_all add: erase_map_def)
    qed
    then show ?thesis
      using wf removed overlap_view [OF assms(1,2)] by auto
  qed
  then show "vr_wf rs'" and "view rs' = erase_map s n (view rs)"
    and "removed \<longleftrightarrow> \<not> free_span s n (view rs)" by blast+
qed

lemma exact_entry:
  assumes "vr_wf rs" and "LowerBound s rs = h # t" and "r_start h = s" and "r_size h = n"
  shows "view rs = (\<lambda>a. if s \<le> a \<and> a < s + n then Some (attr_at h a)
      else view (vr_below s rs @ t) a)"
    and "view (vr_below s rs @ t) = erase_map s n (view rs)"
    and "vr_wf (vr_below s rs @ t)" and "vr_ok h"
proof -
  have rs: "rs = vr_below s rs @ h # t" using vr_split [of s rs] assms(2) by simp
  have wf: "vr_wf (vr_below s rs @ h # t)" using assms(1) rs by simp
  have dom: "vr_dom h = {s ..< s + n}" using assms by (simp add: vr_dom_def)
  have free: "view (vr_below s rs @ t) a = None" if "s \<le> a" "a < s + n" for a
    using that wf assms(3,4)
    by (fastforce simp: view_None vr_wf_append vr_wf_Cons vr_dom_def)
  have eq: "view rs = view (vr_below s rs @ h # t)" using rs by simp
  show v: "view rs = (\<lambda>a. if s \<le> a \<and> a < s + n then Some (attr_at h a)
      else view (vr_below s rs @ t) a)"
  proof
    fix a
    show "view rs a = (if s \<le> a \<and> a < s + n then Some (attr_at h a)
        else view (vr_below s rs @ t) a)"
      unfolding eq using free [of a]
      by (auto simp: view_append dom split: option.splits)
  qed
  show "view (vr_below s rs @ t) = erase_map s n (view rs)"
    unfolding v using free by (intro ext) (auto simp: erase_map_def)
  show "vr_wf (vr_below s rs @ t)" "vr_ok h"
    using wf by (auto simp: vr_wf_append vr_wf_Cons)
qed


text \<open>The attributes an added range gives each of its addresses.\<close>

definition added_attr :: "nat \<Rightarrow> nat \<Rightarrow> prot \<Rightarrow> int \<Rightarrow> range_type \<Rightarrow> string option \<Rightarrow>
    bool \<Rightarrow> bool \<Rightarrow> nat \<Rightarrow> vrange" where
  "added_attr s offset protection memory_type type name committed placeholder a =
     \<lparr>r_start = 0, r_size = 0,
      r_offset = (if type = Direct then add64 offset (a - s) else 0),
      r_protection = protection, r_memory_type = memory_type, r_type = type,
      r_committed_from_reserved = committed, r_placeholder_backed = placeholder,
      r_name = CopyVirtualRangeName name\<rparr>"

lemma VR_Add_eq:
  assumes "vr_wf rs" and "s + n < U64"
  shows "VR_Add s n off p t ty nm c b rs =
    (if s = 0 \<or> n = 0 \<or> \<not> free_span s n (view rs) then (False, rs)
     else (True, MergeAroundUnlocked (length (vr_below s rs)) (vr_below s rs @
        \<lparr>r_start = s, r_size = n, r_offset = off, r_protection = p, r_memory_type = t,
          r_type = ty, r_committed_from_reserved = c, r_placeholder_backed = b,
          r_name = CopyVirtualRangeName nm\<rparr> # LowerBound s rs)))"
  unfolding VR_Add_def Let_def neighbours_decide [OF assms] overlap_view [OF assms]
  by simp

text \<open>A range put on free addresses keeps the vector in order.\<close>

lemma vr_insert_wf:
  assumes "vr_wf rs" and "s + n < U64" and "r_start r = s" and "r_size r = n" and "n \<noteq> 0"
    and "free_span s n (view rs)"
  shows "vr_wf (vr_below s rs @ r # LowerBound s rs)"
    and "\<forall>x\<in>set (vr_below s rs). r_start x + r_size x \<le> s"
proof -
  have no: "\<not> (\<exists>r\<in>set rs. VirtualRangesOverlap s n (r_start r) (r_size r))"
    using assms(6) overlap_view [OF assms(1,2)] by blast
  have wf: "vr_wf (vr_below s rs @ LowerBound s rs)" using assms(1) by (simp add: vr_split)
  have rok: "vr_ok r" using assms(2-5) by (simp add: vr_ok_def)
  have clear: "{s ..< s + n} \<inter> vr_dom x = {}" "vr_ok x" if "x \<in> set rs" for x
    using that no overlap_dom [of x s n] assms(1,2) by (auto simp: vr_wf_def)
  have mem: "x \<in> set rs" if "x \<in> set (vr_below s rs) \<or> x \<in> set (LowerBound s rs)" for x
    using that arg_cong [OF vr_split, of set s rs] by auto
  show lo: "\<forall>x\<in>set (vr_below s rs). r_start x + r_size x \<le> s"
  proof (intro ballI, rule ccontr)
    fix x assume x: "x \<in> set (vr_below s rs)" and "\<not> r_start x + r_size x \<le> s"
    then have "s \<in> {s ..< s + n} \<inter> vr_dom x"
      using vr_below_less [OF x] assms(5) by (simp add: vr_dom_def)
    then show False using clear(1) [OF mem] x by blast
  qed
  have hi: "s + n \<le> r_start x" if "x \<in> set (LowerBound s rs)" for x
  proof (rule ccontr)
    assume "\<not> s + n \<le> r_start x"
    moreover have "0 < r_size x" using clear(2) [OF mem] that by (simp add: vr_ok_def)
    ultimately have "r_start x \<in> {s ..< s + n} \<inter> vr_dom x"
      using LowerBound_ge [OF assms(1) that] by (simp add: vr_dom_def)
    then show False using clear(1) [OF mem] that by blast
  qed
  show "vr_wf (vr_below s rs @ r # LowerBound s rs)"
    using wf rok lo hi assms(3,4) by (fastforce simp: vr_wf_append vr_wf_Cons)
qed

lemma VR_Add_spec:
  assumes "vr_wf rs" and "s + n < U64"
  shows "VR_Add s n off p t ty nm c b rs = (added, rs') \<Longrightarrow> vr_wf rs'
    \<and> (added \<longleftrightarrow> s \<noteq> 0 \<and> n \<noteq> 0 \<and> free_span s n (view rs))
    \<and> view rs' = (if added then put_map s n (added_attr s off p t ty nm c b) (view rs)
                  else view rs)"
proof (cases "s \<noteq> 0 \<and> n \<noteq> 0 \<and> free_span s n (view rs)")
  case True
  let ?r = "\<lparr>r_start = s, r_size = n, r_offset = off, r_protection = p, r_memory_type = t,
    r_type = ty, r_committed_from_reserved = c, r_placeholder_backed = b,
    r_name = CopyVirtualRangeName nm\<rparr>"
  let ?rs = "vr_below s rs @ ?r # LowerBound s rs"
  assume res: "VR_Add s n off p t ty nm c b rs = (added, rs')"
  have res: "added" "rs' = MergeAroundUnlocked (length (vr_below s rs)) ?rs"
    using res True VR_Add_eq [OF assms] by auto
  have wf': "vr_wf ?rs" and lo: "\<forall>x\<in>set (vr_below s rs). r_start x + r_size x \<le> s"
    using vr_insert_wf [OF assms, of ?r] True by simp_all
  have "view ?rs a = put_map s n (added_attr s off p t ty nm c b) (view rs) a" for a
  proof -
    have "view rs a = view (vr_below s rs @ LowerBound s rs) a" by (simp add: vr_split)
    moreover have "s \<le> a \<Longrightarrow> a < s + n \<Longrightarrow> view (vr_below s rs) a = None"
      using lo by (fastforce simp: view_None vr_dom_def)
    ultimately show ?thesis
      by (auto simp: view_append put_map_def vr_dom_def attr_at_def added_attr_def
          split: option.splits)
  qed
  then show ?thesis
    using True res MergeAroundUnlocked_spec [OF wf'] by auto
next
  case False
  assume res: "VR_Add s n off p t ty nm c b rs = (added, rs')"
  have "\<not> added \<and> rs' = rs"
    using False res VR_Add_eq [OF assms] by (auto split: if_splits)
  then show ?thesis using False assms by auto
qed

text \<open>An added range lies inside one range of the list, merged with its neighbours or not.\<close>

lemma merge_run_head:
  "vr_wf (c # ns) \<Longrightarrow> \<exists>q\<in>set (merge_run c ns). r_start q = r_start c
     \<and> r_start c + r_size c \<le> r_start q + r_size q"
proof (induction c ns rule: merge_run.induct)
  case (2 c n ns)
  show ?case
  proof (cases "mergeable c n")
    case True
    have "vr_ok c" "vr_ok n" using "2.prems" by (simp_all add: vr_wf_Cons)
    note j = joined_simps [OF this True]
    have "vr_wf (joined c n # ns)" using "2.prems" j by (auto simp: vr_wf_Cons)
    then obtain q where "q \<in> set (merge_run (joined c n) ns)" "r_start q = r_start (joined c n)"
      "r_start (joined c n) + r_size (joined c n) \<le> r_start q + r_size q"
      using "2.IH" [OF True] by blast
    then show ?thesis using True j by auto
  qed simp
qed simp

lemma MergeAround_covers:
  assumes "vr_wf (bs @ r # as)"
  shows "\<exists>q\<in>set (MergeAroundUnlocked (length bs) (bs @ r # as)). r_start q \<le> r_start r
     \<and> r_start r + r_size r \<le> r_start q + r_size q"
proof (cases "bs \<noteq> [] \<and> mergeable (last bs) r")
  case True
  then obtain cs b where bs: "bs = cs @ [b]" by (metis rev_exhaust)
  have m: "mergeable b r" using True bs by simp
  have "vr_ok b" "vr_ok r" using assms by (simp_all add: bs vr_wf_append vr_wf_Cons)
  note j = joined_simps [OF this m]
  have "vr_wf (joined b r # as)" using assms j by (auto simp: bs vr_wf_append vr_wf_Cons)
  then obtain q where "q \<in> set (merge_run (joined b r) as)" "r_start q = r_start (joined b r)"
    "r_start (joined b r) + r_size (joined b r) \<le> r_start q + r_size q"
    using merge_run_head by blast
  then show ?thesis
    using m j by (intro bexI [of _ q]) (auto simp: MergeAroundUnlocked_def bs nth_append Let_def)
next
  case False
  have "vr_wf (r # as)" using assms by (simp add: vr_wf_append)
  then obtain q where q: "q \<in> set (merge_run r as)" "r_start q = r_start r"
    "r_start r + r_size r \<le> r_start q + r_size q" using merge_run_head by blast
  have "\<not> (length bs \<noteq> 0 \<and> mergeable ((bs @ r # as) ! (length bs - 1)) ((bs @ r # as) ! length bs))"
    using False by (auto simp: nth_append last_conv_nth)
  then show ?thesis
    using q by (intro bexI [of _ q]) (auto simp: MergeAroundUnlocked_def Let_def)
qed

lemma VR_Add_covers:
  assumes "vr_wf rs" and "s + n < U64" and "VR_Add s n off p t ty nm c b rs = (True, rs')"
  shows "\<exists>q\<in>set rs'. r_start q \<le> s \<and> s + n \<le> r_start q + r_size q"
proof -
  let ?r = "\<lparr>r_start = s, r_size = n, r_offset = off, r_protection = p, r_memory_type = t,
    r_type = ty, r_committed_from_reserved = c, r_placeholder_backed = b,
    r_name = CopyVirtualRangeName nm\<rparr>"
  have ok: "n \<noteq> 0" "free_span s n (view rs)"
    and rs': "rs' = MergeAroundUnlocked (length (vr_below s rs)) (vr_below s rs @ ?r # LowerBound s rs)"
    using assms(3) unfolding VR_Add_eq [OF assms(1,2)] by (auto split: if_splits)
  have "vr_wf (vr_below s rs @ ?r # LowerBound s rs)"
    using vr_insert_wf(1) [OF assms(1,2), of ?r] ok by simp
  from MergeAround_covers [OF this] show ?thesis unfolding rs' by simp
qed

lemma VR_Remove_spec:
  assumes "vr_wf rs" and "s + n < U64" and "VR_Remove s n rs = (removed, rs')"
  shows "vr_wf rs' \<and> view rs' = erase_map s n (view rs)
    \<and> (removed \<longleftrightarrow> \<not> free_span s n (view rs))"
proof (cases "LowerBound s rs \<noteq> [] \<and> r_start (hd (LowerBound s rs)) = s
    \<and> r_size (hd (LowerBound s rs)) = n")
  case True
  then obtain h t where ht: "LowerBound s rs = h # t" by (cases "LowerBound s rs") auto
  note entry = exact_entry [OF assms(1) ht]
  have "removed" "rs' = vr_below s rs @ t"
    using assms(3) True ht by (auto simp: VR_Remove_def Let_def)
  moreover have "\<not> free_span s n (view rs)"
    using entry True ht by (auto simp: free_span_def vr_ok_def)
  ultimately show ?thesis using entry True ht by auto
next
  case False
  obtain d qs where d: "RemoveUnlocked s n rs = (d, qs)" by fastforce
  then have "removed = d" "rs' = MergeUnlocked qs"
    using assms(3) False by (auto simp: VR_Remove_def Let_def)
  with RemoveUnlocked_spec [OF assms(1,2) d] MergeUnlocked_spec [of qs]
  show ?thesis by simp
qed

lemma VR_HasOverlap_spec:
  assumes "vr_wf rs" and "s + n < U64"
  shows "VR_HasOverlap s n rs \<longleftrightarrow> \<not> free_span s n (view rs)"
  using neighbours_decide [OF assms] overlap_view [OF assms]
  by (auto simp: VR_HasOverlap_def FindOverlap_def Let_def)

lemma VR_HasGpuAccess_spec:
  assumes "vr_wf rs" and "s + n < U64"
  shows "VR_HasGpuAccess s n rs \<longleftrightarrow> (\<exists>a v. s \<le> a \<and> a < s + n \<and> view rs a = Some v
    \<and> prot_has (r_protection v) (PROT_GPU_READ OR PROT_GPU_WRITE))"
proof
  assume "VR_HasGpuAccess s n rs"
  then obtain r where r: "r \<in> set rs" "VirtualRangesOverlap s n (r_start r) (r_size r)"
    "prot_has (r_protection r) (PROT_GPU_READ OR PROT_GPU_WRITE)"
    by (auto simp: VR_HasGpuAccess_def)
  have "vr_ok r" using r(1) assms(1) by (simp add: vr_wf_def)
  then obtain a where a: "s \<le> a" "a < s + n" "a \<in> vr_dom r"
    using r(2) overlap_dom [of r s n] assms(2) by auto
  have "view rs a = Some (attr_at r a)" using assms(1) r(1) a(3) by (rule view_member)
  moreover have "r_protection (attr_at r a) = r_protection r" by (simp add: attr_at_def)
  ultimately show "\<exists>a v. s \<le> a \<and> a < s + n \<and> view rs a = Some v
    \<and> prot_has (r_protection v) (PROT_GPU_READ OR PROT_GPU_WRITE)"
    using a r(3) by auto
next
  assume "\<exists>a v. s \<le> a \<and> a < s + n \<and> view rs a = Some v
    \<and> prot_has (r_protection v) (PROT_GPU_READ OR PROT_GPU_WRITE)"
  then obtain a v where av: "s \<le> a" "a < s + n" "view rs a = Some v"
    "prot_has (r_protection v) (PROT_GPU_READ OR PROT_GPU_WRITE)" by blast
  then obtain r where r: "r \<in> set rs" "a \<in> vr_dom r" "v = attr_at r a"
    by (metis option.distinct(1) option.inject view_None view_member assms(1))
  have "vr_ok r" using r(1) assms(1) by (simp add: vr_wf_def)
  then have "VirtualRangesOverlap s n (r_start r) (r_size r)"
    using overlap_dom [of r s n] assms(2) av r(2) by auto
  then show "VR_HasGpuAccess s n rs"
    using r av(4) by (auto simp: VR_HasGpuAccess_def attr_at_def)
qed


lemma removed_merged:
  assumes "vr_wf rs" and "s + n < U64"
  shows "vr_wf (MergeUnlocked (snd (RemoveUnlocked s n rs)))"
    and "view (MergeUnlocked (snd (RemoveUnlocked s n rs))) = erase_map s n (view rs)"
  using RemoveUnlocked_spec [OF assms] MergeUnlocked_spec
  by (cases "RemoveUnlocked s n rs"; simp)+

lemma view_Some:
  assumes "vr_wf rs"
  shows "view rs a = Some v \<longleftrightarrow> (\<exists>r\<in>set rs. a \<in> vr_dom r \<and> v = attr_at r a)"
  using assms view_member view_None by (metis option.distinct(1) option.exhaust option.inject)

lemma VR_ConsumeReserved_spec:
  assumes "vr_wf rs" and "s + n < U64" and "0 < n"
    and "VR_ConsumeReserved s n type rs = (ok, rs')"
  shows "vr_wf rs' \<and> view rs' = (if ok then erase_map s n (view rs) else view rs)
    \<and> (ok \<longrightarrow> (\<forall>a\<in>{s ..< s + n}. \<exists>v. view rs a = Some v \<and> r_type v = type))"
proof (cases "\<exists>r\<in>set rs. r_type r = type \<and> s \<ge> r_start r \<and> range_End s n \<le> r_end r")
  case True
  then obtain r where r: "r \<in> set rs" "r_type r = type" "r_start r \<le> s" "range_End s n \<le> r_end r"
    by blast
  have "vr_ok r" using r(1) assms(1) by (simp add: vr_wf_def)
  then have "{s ..< s + n} \<subseteq> vr_dom r"
    using r assms(2) by (auto simp: vr_dom_def arith64)
  then have "\<forall>a\<in>{s ..< s + n}. view rs a = Some (attr_at r a)"
    using assms(1) r(1) by (metis subset_eq view_member)
  moreover have "r_type (attr_at r a) = type" for a using r(2) by (simp add: attr_at_def)
  moreover have "ok" "rs' = MergeUnlocked (snd (RemoveUnlocked s n rs))"
    using True assms(4) by (auto simp: VR_ConsumeReserved_def)
  ultimately show ?thesis using removed_merged [OF assms(1,2)] by simp
next
  case False
  then have "VR_ConsumeReserved s n type rs = (False, rs)"
    unfolding VR_ConsumeReserved_def by (rule if_not_P)
  then have "\<not> ok \<and> rs' = rs" using assms(4) by simp
  then show ?thesis using assms(1) by simp
qed

definition all_of_type :: "nat \<Rightarrow> nat \<Rightarrow> range_type \<Rightarrow> (nat \<Rightarrow> vrange option) \<Rightarrow> bool" where
  "all_of_type s e type m \<longleftrightarrow> (\<forall>a\<in>{s ..< e}. \<exists>v. m a = Some v \<and> r_type v = type)"

lemma type_at:
  assumes "vr_wf rs" and "r \<in> set rs" and "a \<in> vr_dom r"
  shows "(\<exists>v. view rs a = Some v \<and> r_type v = type) \<longleftrightarrow> r_type r = type"
  using view_member [OF assms] by (simp add: attr_at_def)

lemma consume_scan_iff:
  "vr_wf rs \<Longrightarrow> consume_scan e type rs current \<longleftrightarrow> all_of_type current e type (view rs)"
proof (induction e type rs current rule: consume_scan.induct)
  case (1 e type rs current)
  note assms = "1.prems"
  show ?case
  proof (cases "current < e")
    case False
    then show ?thesis by (simp add: all_of_type_def consume_scan.simps)
  next
    case True
    let ?P = "\<lambda>r. r_type r = type \<and> current \<ge> r_start r \<and> current < r_end r"
    show ?thesis
    proof (cases "find ?P rs")
      case None
      have "\<not> (\<exists>v. view rs current = Some v \<and> r_type v = type)"
      proof
        assume "\<exists>v. view rs current = Some v \<and> r_type v = type"
        then obtain v where v: "view rs current = Some v" "r_type v = type" by blast
        then obtain r where "r \<in> set rs" "current \<in> vr_dom r" "v = attr_at r current"
          by (auto simp: view_Some [OF assms])
        with v have r: "r \<in> set rs" "current \<in> vr_dom r" "r_type (attr_at r current) = type"
          by simp_all
        then have "vr_ok r" using assms by (simp add: vr_wf_def)
        then have "?P r" using r by (auto simp: vr_dom_def attr_at_def vr_ok_end)
        then show False using None r(1) by (auto simp: find_None_iff)
      qed
      moreover have "current \<in> {current ..< e}" using True by simp
      moreover have "\<not> consume_scan e type rs current"
        using None True by (subst consume_scan.simps) simp
      ultimately show ?thesis unfolding all_of_type_def by blast
    next
      case (Some c)
      then have c: "c \<in> set rs" "r_type c = type" "r_start c \<le> current" "current < r_end c"
        by (auto simp: find_Some_iff)
      have cok: "vr_ok c" using c(1) assms by (simp add: vr_wf_def)
      have IH: "consume_scan e type rs (min e (r_end c))
          \<longleftrightarrow> all_of_type (min e (r_end c)) e type (view rs)"
        by (rule "1.IH" [OF True Some assms])
      have "all_of_type current (min e (r_end c)) type (view rs)"
        unfolding all_of_type_def
      proof
        fix a assume "a \<in> {current ..< min e (r_end c)}"
        then have "a \<in> vr_dom c" using c cok by (auto simp: vr_dom_def vr_ok_end)
        then show "\<exists>v. view rs a = Some v \<and> r_type v = type"
          using type_at [OF assms c(1)] c(2) by blast
      qed
      moreover have "{current ..< e} = {current ..< min e (r_end c)} \<union> {min e (r_end c) ..< e}"
        using c(4) True by auto
      ultimately have "all_of_type current e type (view rs)
          \<longleftrightarrow> all_of_type (min e (r_end c)) e type (view rs)"
        by (auto simp: all_of_type_def)
      moreover have "consume_scan e type rs current = consume_scan e type rs (min e (r_end c))"
        using Some True by (subst consume_scan.simps) simp
      ultimately show ?thesis using IH by simp
    qed
  qed
qed

lemma VR_ConsumeReservedSpan_spec:
  assumes "vr_wf rs" and "s + n < U64"
    and "VR_ConsumeReservedSpan s n type rs = (ok, first, rs')"
  shows "vr_wf rs' \<and> (ok \<longleftrightarrow> n \<noteq> 0 \<and> all_of_type s (s + n) type (view rs))
    \<and> view rs' = (if ok then erase_map s n (view rs) else view rs)"
  using assms(3) removed_merged [OF assms(1,2)] assms(1)
  by (auto simp: VR_ConsumeReservedSpan_def Let_def consume_scan_iff [OF assms(1)]
      range_End_exact [OF assms(2)] split: if_splits)

lemma VR_Rename_spec:
  assumes "vr_wf rs" and "s + n < U64"
  shows "vr_wf (VR_Rename s n name rs) \<and> view (VR_Rename s n name rs)
    = edit_map s n (\<lambda>v. v\<lparr>r_name := CopyVirtualRangeName name\<rparr>) (view rs)"
proof (cases "LowerBound s rs \<noteq> [] \<and> r_start (hd (LowerBound s rs)) = s
    \<and> r_size (hd (LowerBound s rs)) = n")
  case False
  then show ?thesis
    using EditUnlocked_spec [OF assms, of "\<lambda>r. r\<lparr>r_name := CopyVirtualRangeName name\<rparr>"]
    by (auto simp: VR_Rename_def Let_def)
next
  case True
  then obtain h t where ht: "LowerBound s rs = h # t" by (cases "LowerBound s rs") auto
  let ?h = "h\<lparr>r_name := CopyVirtualRangeName name\<rparr>"
  let ?new = "vr_below s rs @ ?h # t"
  have rs: "vr_below s rs @ h # t = rs" using vr_split [of s rs] ht by simp
  then have "vr_wf (vr_below s rs @ h # t)" using assms(1) by simp
  then have wf: "vr_wf ?new" by (auto simp: vr_wf_append vr_wf_Cons vr_ok_def)
  have "view ?new a = edit_map s n (\<lambda>v. v\<lparr>r_name := CopyVirtualRangeName name\<rparr>) (view rs) a" for a
  proof -
    have dom: "vr_dom ?h = {s ..< s + n}" "vr_dom h = {s ..< s + n}"
      using True ht by (auto simp: vr_dom_def)
    have "s \<le> a \<Longrightarrow> a < s + n \<Longrightarrow> view (vr_below s rs) a = None"
      using \<open>vr_wf (vr_below s rs @ h # t)\<close> True ht
      by (fastforce simp: view_None vr_wf_append vr_wf_Cons vr_dom_def)
    moreover have "view rs a = view (vr_below s rs @ h # t) a" by (simp add: rs)
    moreover have "attr_at ?h a = (attr_at h a)\<lparr>r_name := CopyVirtualRangeName name\<rparr>"
      by (simp add: attr_at_def)
    ultimately show ?thesis
      by (auto simp: view_append dom edit_map_def split: option.splits)
  qed
  then show ?thesis
    using True ht MergeAroundUnlocked_spec [OF wf] by (auto simp: VR_Rename_def Let_def)
qed


section \<open>Queries\<close>

lemma VR_Query_mapped:
  assumes "vr_wf rs" and "r \<in> set rs" and "a \<in> vr_dom r"
  shows "VR_Query a flags rs = Some r"
proof -
  let ?B = "takeWhile (\<lambda>r. \<not> a < r_start r) rs" and ?N = "dropWhile (\<lambda>r. \<not> a < r_start r) rs"
  have wf: "vr_wf (?B @ ?N)" using assms(1) by simp
  have ok: "vr_ok r" using assms by (simp add: vr_wf_def)
  have "r \<in> set ?B"
  proof (rule ccontr)
    assume "r \<notin> set ?B"
    then have "r \<in> set ?N" using assms(2) by (metis Un_iff set_append takeWhile_dropWhile_id)
    then obtain h t where ht: "?N = h # t" by (cases ?N) auto
    then have "a < r_start h" by (metis (lifting) dropWhile_eq_Cons_conv)
    moreover have "r_start h \<le> r_start r"
      using \<open>r \<in> set ?N\<close> wf unfolding ht vr_wf_append vr_wf_Cons by auto
    ultimately show False using assms(3) by (simp add: vr_dom_def)
  qed
  then obtain i l where il: "?B = i @ [l]" by (metis append_butlast_last_id empty_iff empty_set)
  have "r_start l \<le> a"
  proof -
    have "l \<in> set ?B" by (simp add: il)
    then show ?thesis by (auto dest: set_takeWhileD)
  qed
  have "r = l"
  proof (rule ccontr)
    assume "r \<noteq> l"
    then have "r_start r + r_size r \<le> r_start l"
      using \<open>r \<in> set ?B\<close> wf unfolding il vr_wf_append by auto
    then show False using assms(3) \<open>r_start l \<le> a\<close> by (simp add: vr_dom_def)
  qed
  then show ?thesis
    using il assms(3) ok by (simp add: VR_Query_def Let_def vr_ok_end vr_dom_def)
qed

lemma dropWhile_find:
  "(if dropWhile (\<lambda>x. \<not> P x) xs = [] then None else Some (hd (dropWhile (\<lambda>x. \<not> P x) xs)))
     = find P xs"
  by (induction xs) (auto split: if_splits)

lemma VR_Query_unmapped:
  assumes "vr_wf rs" and "view rs a = None"
  shows "VR_Query a flags rs = (if flags = 1 then find (\<lambda>r. a < r_start r) rs else None)"
proof -
  let ?B = "takeWhile (\<lambda>r. \<not> a < r_start r) rs"
  have "\<not> (?B \<noteq> [] \<and> a < r_end (last ?B))"
  proof
    assume l: "?B \<noteq> [] \<and> a < r_end (last ?B)"
    then have "last ?B \<in> set ?B" by simp
    then have mem: "last ?B \<in> set rs" "r_start (last ?B) \<le> a" by (auto dest: set_takeWhileD)
    then have "vr_ok (last ?B)" using assms(1) by (simp add: vr_wf_def)
    then have "a \<in> vr_dom (last ?B)" using l mem by (simp add: vr_dom_def vr_ok_end)
    then show False using assms(2) mem(1) by (auto simp: view_None)
  qed
  then show ?thesis
    using dropWhile_find [of "\<lambda>r. a < r_start r" rs]
    by (auto simp: VR_Query_def Let_def)
qed

lemma query_span_loop_out:
  "query_span_loop e current out rs = map_option ((@) out) (query_span_loop e current [] rs)"
proof (induction rs arbitrary: current out)
  case (Cons r rs)
  let ?part = "sub_range r current (min e (r_end r))"
  note IH = Cons.IH [of "add64 current (r_size ?part)" "out @ [?part]"]
    Cons.IH [of "add64 current (r_size ?part)" "[?part]"]
  show ?case
    using IH Cons.IH [of current out]
    by (simp add: Let_def option.map_comp comp_def)
qed simp

lemma query_span_loop_spec:
  assumes "vr_wf rs" and "current < e" and "e < U64"
  shows "case query_span_loop e current [] rs of
      None \<Rightarrow> \<exists>a\<in>{current ..< e}. view rs a = None
    | Some ps \<Rightarrow> vr_wf ps \<and> (\<forall>p\<in>set ps. current \<le> r_start p)
        \<and> (\<forall>a\<in>{current ..< e}. view rs a \<noteq> None)
        \<and> (\<forall>a. view ps a = (if current \<le> a \<and> a < e then view rs a else None))"
  using assms
proof (induction rs arbitrary: current)
  case Nil
  then show ?case by auto
next
  case (Cons r rs)
  have ok: "vr_ok r" and wf: "vr_wf rs" and later: "\<forall>x\<in>set rs. r_start r + r_size r \<le> r_start x"
    using Cons.prems(1) by (simp_all add: vr_wf_Cons)
  note IH = Cons.IH [OF wf _ Cons.prems(3)]
  consider "r_end r \<le> current" | "current < r_end r" "r_start r > current"
    | "current < r_end r" "r_start r \<le> current" by linarith
  then show ?case
  proof cases
    case 1
    have view: "view (r # rs) a = view rs a" if "current \<le> a" for a
      using that 1 ok by (auto simp: vr_dom_def vr_ok_end)
    have "query_span_loop e current [] (r # rs) = query_span_loop e current [] rs"
      using 1 by simp
    with IH [OF Cons.prems(2)] view show ?thesis
      by (auto split: option.splits simp del: view.simps)
  next
    case 2
    have "view (r # rs) current = None"
      using 2 later by (fastforce simp: view_None vr_dom_def)
    then have "\<exists>a\<in>{current ..< e}. view (r # rs) a = None"
      using Cons.prems(2) by (intro bexI [of _ current]) (simp_all del: view.simps)
    then show ?thesis using 2 by (simp del: view.simps)
  next
    case 3
    obtain m where m: "m = min e (r_end r)" by simp
    then have le: "current < m" "m \<le> r_start r + r_size r" "m \<le> e"
      using 3 ok Cons.prems(2) by (auto simp: vr_ok_end)
    note part = sub_range_simps [OF ok 3(2) le(1,2)]
    have cur: "add64 current (r_size (sub_range r current m)) = m"
      using part le Cons.prems(3) by (simp add: arith64)
    have here: "view (r # rs) a = Some (attr_at r a)" if "current \<le> a" "a < m" for a
      using that le 3 by (simp add: vr_dom_def)
    show ?thesis
    proof (cases "m = e")
      case True
      then have "query_span_loop e current [] (r # rs) = Some [sub_range r current m]"
        using 3 cur by (simp add: m [symmetric] del: view.simps)
      then show ?thesis
        using True part here by (auto simp: vr_wf_Cons simp del: view.simps(2))
          (auto simp: True)
    next
      case False
      then have me: "m < e" and mr: "m = r_start r + r_size r"
        using le m ok by (auto simp: vr_ok_end)
      have there: "view (r # rs) a = view rs a" if "m \<le> a" for a
        using that mr by (simp add: vr_dom_def)
      have step: "query_span_loop e current [] (r # rs)
          = map_option ((#) (sub_range r current m)) (query_span_loop e m [] rs)"
        using 3 cur False query_span_loop_out [of e m "[sub_range r current m]" rs]
        by (cases "query_span_loop e m [] rs") (simp_all add: m [symmetric])
      show ?thesis
      proof (cases "query_span_loop e m [] rs")
        case None
        then obtain a where "m \<le> a" "a < e" "view rs a = None" using IH [OF me] by auto
        then have "\<exists>a\<in>{current ..< e}. view (r # rs) a = None"
          using there le by (metis atLeastLessThan_iff less_imp_le order_trans)
        then show ?thesis using None step by (simp del: view.simps)
      next
        case (Some ps)
        then have ps: "vr_wf ps" "\<forall>p\<in>set ps. m \<le> r_start p"
          "\<forall>a\<in>{m ..< e}. view rs a \<noteq> None"
          "\<forall>a. view ps a = (if m \<le> a \<and> a < e then view rs a else None)"
          using IH [OF me] by simp_all
        have "vr_wf (sub_range r current m # ps)"
          using ps part le by (simp add: vr_wf_Cons)
        moreover have "\<forall>p\<in>set (sub_range r current m # ps). current \<le> r_start p"
          using ps(2) part le by fastforce
        moreover have "view (r # rs) a \<noteq> None" if "current \<le> a" "a < e" for a
          using that here [of a] there [of a] ps(3) by (cases "a < m") (simp_all del: view.simps)
        moreover have "view (sub_range r current m # ps) a
            = (if current \<le> a \<and> a < e then view (r # rs) a else None)" for a
        proof (cases "current \<le> a \<and> a < m")
          case True
          then show ?thesis using here [of a] part le by simp
        next
          case out: False
          then show ?thesis
            using there [of a] part le spec [OF ps(4), of a] by auto
        qed
        ultimately show ?thesis using Some step by (simp del: view.simps)
      qed
    qed
  qed
qed

lemma VR_QuerySpan_spec:
  assumes "vr_wf rs"
  shows "case VR_QuerySpan s n rs of
      None \<Rightarrow> s = 0 \<or> n = 0 \<or> U64 \<le> s + n \<or> (\<exists>a\<in>{s ..< s + n}. view rs a = None)
    | Some ps \<Rightarrow> s \<noteq> 0 \<and> n \<noteq> 0 \<and> s + n < U64 \<and> vr_wf ps
        \<and> (\<forall>a\<in>{s ..< s + n}. view rs a \<noteq> None)
        \<and> (\<forall>a. view ps a = (if s \<le> a \<and> a < s + n then view rs a else None))"
proof (cases "s = 0 \<or> n = 0 \<or> U64 \<le> s + n")
  case True
  then have "VR_QuerySpan s n rs = None" by (auto simp: VR_QuerySpan_def U64_def)
  then show ?thesis using True by (simp only: option.case) blast
next
  case False
  then have "VR_QuerySpan s n rs = query_span_loop (s + n) s [] rs"
    by (auto simp: VR_QuerySpan_def arith64)
  then show ?thesis
    using False query_span_loop_spec [OF assms, of s "s + n"] by (auto split: option.splits)
qed

lemma VR_Query_Some:
  assumes "vr_wf rs"
  shows "VR_Query a 0 rs = Some r \<longleftrightarrow> r \<in> set rs \<and> a \<in> vr_dom r"
proof
  assume q: "VR_Query a 0 rs = Some r"
  then have "view rs a \<noteq> None" using VR_Query_unmapped [OF assms, of a 0] by auto
  then obtain k where k: "k \<in> set rs" "a \<in> vr_dom k" by (auto simp: view_None)
  then show "r \<in> set rs \<and> a \<in> vr_dom r" using VR_Query_mapped [OF assms k] q by simp
qed (auto intro: VR_Query_mapped [OF assms])

section \<open>The address map interface\<close>

type_synonym add_args = "nat \<times> prot \<times> int \<times> range_type \<times> string option \<times> bool \<times> bool"

fun VR_put :: "nat \<Rightarrow> nat \<Rightarrow> add_args \<Rightarrow> vrange list \<Rightarrow> bool \<times> vrange list" where
  "VR_put s n (off, p, t, ty, nm, c, b) rs = VR_Add s n off p t ty nm c b rs"

fun VR_attr :: "nat \<Rightarrow> add_args \<Rightarrow> nat \<Rightarrow> vrange" where
  "VR_attr s (off, p, t, ty, nm, c, b) = added_attr s off p t ty nm c b"

definition vr_valid :: "nat \<Rightarrow> nat \<Rightarrow> bool" where
  "vr_valid s n \<longleftrightarrow> 0 < s \<and> 0 < n \<and> s + n < U64"

interpretation vr: address_map vr_wf view vr_valid VR_put VR_attr "\<lambda>s n rs. snd (VR_Remove s n rs)"
proof unfold_locales
  fix rs :: "vrange list" and b n :: nat and x :: add_args
  assume wf: "vr_wf rs" and v: "vr_valid b n"
  obtain off p t ty nm c h where x: "x = (off, p, t, ty, nm, c, h)" by (metis prod_cases7)
  obtain ok rs' where add: "VR_Add b n off p t ty nm c h rs = (ok, rs')" by fastforce
  have in64: "b + n < U64" using v by (simp add: vr_valid_def)
  note spec = VR_Add_spec [OF wf in64 add]
  show "vr_wf (snd (VR_put b n x rs))" using spec add x by simp
  show "fst (VR_put b n x rs) \<longleftrightarrow> free_span b n (view rs)"
    using spec add x v by (simp add: vr_valid_def)
  show "view (snd (VR_put b n x rs))
      = (if free_span b n (view rs) then put_map b n (VR_attr b x) (view rs) else view rs)"
    using spec add x v by (simp add: vr_valid_def)
  obtain d qs where rem: "VR_Remove b n rs = (d, qs)" by fastforce
  show "vr_wf (snd (VR_Remove b n rs))" "view (snd (VR_Remove b n rs)) = erase_map b n (view rs)"
    using VR_Remove_spec [OF wf in64 rem] rem by simp_all
qed

section \<open>Runs of operations\<close>

datatype vr_op =
    OpAdd nat nat add_args
  | OpRemove nat nat
  | OpConsumeSpan nat nat range_type
  | OpRename nat nat "string option"
  | OpProtect nat nat prot
  | OpSetMemoryType nat nat int

fun vr_step :: "vr_op \<Rightarrow> vrange list \<Rightarrow> bool \<times> vrange list" where
  "vr_step (OpAdd s n x) rs = VR_put s n x rs"
| "vr_step (OpRemove s n) rs = VR_Remove s n rs"
| "vr_step (OpConsumeSpan s n ty) rs =
     (case VR_ConsumeReservedSpan s n ty rs of (ok, first, rs') \<Rightarrow> (ok, rs'))"
| "vr_step (OpRename s n nm) rs = (True, VR_Rename s n nm rs)"
| "vr_step (OpProtect s n p) rs = (True, VR_Protect s n p rs)"
| "vr_step (OpSetMemoryType s n t) rs = (True, VR_SetMemoryType s n t rs)"

text \<open>The abstract machine acts on the attributes of single addresses.\<close>

fun map_step :: "vr_op \<Rightarrow> (nat \<Rightarrow> vrange option) \<Rightarrow> bool \<times> (nat \<Rightarrow> vrange option)" where
  "map_step (OpAdd s n x) m =
     (if s \<noteq> 0 \<and> n \<noteq> 0 \<and> free_span s n m then (True, put_map s n (VR_attr s x) m)
      else (False, m))"
| "map_step (OpRemove s n) m = (\<not> free_span s n m, erase_map s n m)"
| "map_step (OpConsumeSpan s n ty) m =
     (if n \<noteq> 0 \<and> all_of_type s (s + n) ty m then (True, erase_map s n m) else (False, m))"
| "map_step (OpRename s n nm) m =
     (True, edit_map s n (\<lambda>v. v\<lparr>r_name := CopyVirtualRangeName nm\<rparr>) m)"
| "map_step (OpProtect s n p) m = (True, edit_map s n (\<lambda>v. v\<lparr>r_protection := p\<rparr>) m)"
| "map_step (OpSetMemoryType s n t) m = (True, edit_map s n (\<lambda>v. v\<lparr>r_memory_type := t\<rparr>) m)"

fun op_span :: "vr_op \<Rightarrow> nat \<times> nat" where
  "op_span (OpAdd s n x) = (s, n)"
| "op_span (OpRemove s n) = (s, n)"
| "op_span (OpConsumeSpan s n ty) = (s, n)"
| "op_span (OpRename s n nm) = (s, n)"
| "op_span (OpProtect s n p) = (s, n)"
| "op_span (OpSetMemoryType s n t) = (s, n)"

definition op_in64 :: "vr_op \<Rightarrow> bool" where
  "op_in64 x \<longleftrightarrow> fst (op_span x) + snd (op_span x) < U64"

fun run :: "('o \<Rightarrow> 's \<Rightarrow> bool \<times> 's) \<Rightarrow> 'o list \<Rightarrow> 's \<Rightarrow> bool list \<times> 's" where
  "run step [] s = ([], s)"
| "run step (x # xs) s =
     (case step x s of (b, s') \<Rightarrow> (case run step xs s' of (bs, s'') \<Rightarrow> (b # bs, s'')))"

lemma vr_step_refines:
  assumes "vr_wf rs" and "op_in64 x" and "vr_step x rs = (b, rs')"
  shows "vr_wf rs' \<and> map_step x (view rs) = (b, view rs')"
proof (cases x)
  case (OpAdd s n y)
  obtain off p t ty nm c h where y: "y = (off, p, t, ty, nm, c, h)" by (metis prod_cases7)
  then show ?thesis
    using assms OpAdd VR_Add_spec [of rs s n off p t ty nm c h b rs']
    by (auto simp: op_in64_def)
next
  case (OpRemove s n)
  then show ?thesis using assms VR_Remove_spec [of rs s n b rs'] by (simp add: op_in64_def)
next
  case (OpConsumeSpan s n ty)
  then obtain f where "VR_ConsumeReservedSpan s n ty rs = (b, f, rs')"
    using assms(3) by (auto split: prod.splits)
  then show ?thesis
    using assms OpConsumeSpan VR_ConsumeReservedSpan_spec [of rs s n ty b f rs']
    by (auto simp: op_in64_def)
next
  case (OpRename s n nm)
  then show ?thesis using assms VR_Rename_spec [of rs s n nm] by (auto simp: op_in64_def)
next
  case (OpProtect s n p)
  then show ?thesis
    using assms EditUnlocked_spec [of rs s n "\<lambda>r. r\<lparr>r_protection := p\<rparr>"]
    by (auto simp: op_in64_def VR_Protect_def)
next
  case (OpSetMemoryType s n t)
  then show ?thesis
    using assms EditUnlocked_spec [of rs s n "\<lambda>r. r\<lparr>r_memory_type := t\<rparr>"]
    by (auto simp: op_in64_def VR_SetMemoryType_def)
qed

lemma vr_run_refines:
  "vr_wf rs \<Longrightarrow> \<forall>x\<in>set xs. op_in64 x \<Longrightarrow> run vr_step xs rs = (bs, rs') \<Longrightarrow>
     vr_wf rs' \<and> run map_step xs (view rs) = (bs, view rs')"
proof (induction xs arbitrary: rs bs)
  case (Cons x xs)
  obtain b mid where step: "vr_step x rs = (b, mid)" by fastforce
  obtain cs where rest: "run vr_step xs mid = (cs, rs')" and bs: "bs = b # cs"
    using Cons.prems(3) step by (auto split: prod.splits)
  have "vr_wf mid" "map_step x (view rs) = (b, view mid)"
    using vr_step_refines [OF Cons.prems(1) _ step] Cons.prems(2) by simp_all
  then show ?case using Cons.IH [OF _ _ rest] Cons.prems(2) bs by simp
qed simp

section \<open>Properties\<close>



text \<open>
  \<open>QuerySpan\<close> succeeds exactly on the non-empty spans that do not wrap and whose every
  address is mapped, and then returns disjoint parts in order that cover exactly the span
  and carry, at every address, the attributes of the mapping, the physical offset included.
\<close>

theorem query_span_exact:
  assumes "\<forall>x\<in>set xs. op_in64 x" and "run vr_step xs [] = (bs, rs)"
  shows "(VR_QuerySpan s n rs = None \<longleftrightarrow>
       s = 0 \<or> n = 0 \<or> U64 \<le> s + n \<or> (\<exists>a\<in>{s ..< s + n}. view rs a = None))
    \<and> (\<forall>ps. VR_QuerySpan s n rs = Some ps \<longrightarrow> vr_wf ps
         \<and> view ps = (\<lambda>a. if s \<le> a \<and> a < s + n then view rs a else None))"
proof -
  have "vr_wf rs" using vr_run_refines [OF _ assms] by simp
  from VR_QuerySpan_spec [OF this, of s n] show ?thesis
    by (cases "VR_QuerySpan s n rs") auto
qed

theorem query_span_exact_witness:
  "\<exists>rs. run vr_step [OpAdd 4096 8192 (65536, 3, 0, Direct, None, False, False)] [] = ([True], rs)
     \<and> VR_QuerySpan 8192 4096 rs \<noteq> None \<and> VR_QuerySpan 8192 4097 rs = None"
proof -
  let ?r = "\<lparr>r_start = 4096, r_size = 8192, r_offset = 65536, r_protection = 3,
    r_memory_type = 0, r_type = Direct, r_committed_from_reserved = False,
    r_placeholder_backed = False, r_name = []\<rparr>"
  have r: "run vr_step [OpAdd 4096 8192 (65536, 3, 0, Direct, None, False, False)] []
      = ([True], [?r])"
    by (simp add: VR_Add_def MergeAroundUnlocked_def LowerBound_def vr_below_def
        CopyVirtualRangeName_def cstr_copy_def Let_def)
  have ok: "\<forall>x\<in>set [OpAdd 4096 8192 (65536, 3, 0, Direct, None, False, False)]. op_in64 x"
    by (simp add: op_in64_def U64_def)
  note q = query_span_exact [OF ok r]
  have "\<forall>a\<in>{8192 ..< 8192 + 4096}. view [?r] a \<noteq> None" by (simp add: vr_dom_def)
  then have "VR_QuerySpan 8192 4096 [?r] \<noteq> None"
    using q [of 8192 4096] by (auto simp: U64_def)
  moreover have "\<exists>a\<in>{8192 ..< 8192 + 4097}. view [?r] a = None"
    by (intro bexI [of _ 12288]) (simp_all add: vr_dom_def)
  then have "VR_QuerySpan 8192 4097 [?r] = None"
    using q [of 8192 4097] by blast
  ultimately show ?thesis using r by blast
qed

end
