(* ===== verification/PhysicalMemory.thy ===== *)
theory PhysicalMemory
  imports MemoryProtection RangeSet
begin

text \<open>
  \<open>class PhysicalMemory\<close> of \<open>gpu/src/kernel/memory.cpp\<close>: the direct memory of the console,
  as a free list \<open>m_free\<close>, the allocated blocks \<open>m_physical\<close> (both \<open>std::map\<close>s keyed by the
  first address) and the vector \<open>m_mappings\<close> of the virtual mappings of the blocks. Every
  operation holds the object's mutex. An output pointer is a component of the result.
\<close>

section \<open>State\<close>

record allocated_block =
  a_start :: nat
  a_size :: nat
  a_map_vaddr :: nat
  a_map_size :: nat
  a_host_vaddr :: nat
  a_host_size :: nat
  a_prot :: prot
  a_mode :: vm_mode
  a_gpu_mode :: gpu_access_mode
  a_memory_type :: int
  a_pool_expansion :: bool
  a_name :: string

record physical_memory =
  pm_physical :: "(nat \<times> allocated_block) list"
  pm_free :: "(nat \<times> nat) list"
  pm_mappings :: "allocated_block list"

definition PhysicalSize :: nat where
  "PhysicalSize = 13824 * 1024 * 1024"

definition PM_init :: physical_memory where
  "PM_init = \<lparr>pm_physical = [], pm_free = [(0, PhysicalSize)], pm_mappings = []\<rparr>"

section \<open>The free list\<close>

text \<open>The iterator of \<open>ConsumeFreeRange\<close> splits the map around the entry it points to.\<close>

definition ConsumeFreeRange :: "(nat \<times> nat) list \<Rightarrow> nat \<times> nat \<Rightarrow> (nat \<times> nat) list \<Rightarrow>
    nat \<Rightarrow> nat \<Rightarrow> (nat \<times> nat) list" where
  "ConsumeFreeRange before r after start n =
     (let range_start = fst r;
          range_end = add64 (fst r) (snd r);
          m = before @ after;
          m = (if range_start < start then om_emplace (range_start, sub64 start range_start) m
               else m)
      in if add64 start n < range_end
         then om_emplace (add64 start n, sub64 (sub64 range_end start) n) m else m)"

fun free_absorb :: "nat \<Rightarrow> (nat \<times> nat) list \<Rightarrow> nat \<times> (nat \<times> nat) list" where
  "free_absorb e [] = (e, [])"
| "free_absorb e ((s, n) # rest) =
     (if s \<le> e then free_absorb (max e (add64 s n)) rest else (e, (s, n) # rest))"

definition AddFreeRange :: "nat \<Rightarrow> nat \<Rightarrow> (nat \<times> nat) list \<Rightarrow> (nat \<times> nat) list" where
  "AddFreeRange start n m =
     (let e = add64 start n;
          before = om_below start m;
          after = om_from start m;
          prev = last before;
          prev_end = add64 (fst prev) (snd prev)
      in if before \<noteq> [] \<and> prev_end \<ge> start
         then (case free_absorb (max e prev_end) after of
                 (e', rest) \<Rightarrow> om_emplace (fst prev, sub64 e' (fst prev)) (butlast before @ rest))
         else (case free_absorb e after of
                 (e', rest) \<Rightarrow> om_emplace (start, sub64 e' start) (before @ rest)))"

section \<open>Allocation\<close>

text \<open>
  The search loop of \<open>Alloc\<close> with the entries before the iterator: the position found and
  the map split around the entry that holds it.
\<close>

fun alloc_scan :: "nat \<Rightarrow> nat \<Rightarrow> nat \<Rightarrow> nat \<Rightarrow> (nat \<times> nat) list \<Rightarrow> (nat \<times> nat) list \<Rightarrow>
    (nat \<times> (nat \<times> nat) list \<times> (nat \<times> nat) \<times> (nat \<times> nat) list) option" where
  "alloc_scan search_start search_end len alignment before [] = None"
| "alloc_scan search_start search_end len alignment before ((s, n) # rest) =
     (if s < search_end then
        (let range_end = min (add64 s n) search_end;
             lower_bound = max s search_start
         in case GetAlignedPos lower_bound alignment of (free_pos, valid) \<Rightarrow>
              if \<not> valid \<or> free_pos < lower_bound \<or> free_pos > range_end
                 \<or> len > sub64 range_end free_pos
              then alloc_scan search_start search_end len alignment (before @ [(s, n)]) rest
              else Some (free_pos, before, (s, n), rest))
      else None)"

definition new_block :: "nat \<Rightarrow> nat \<Rightarrow> int \<Rightarrow> bool \<Rightarrow> allocated_block" where
  "new_block start len memory_type pool =
     \<lparr>a_start = start, a_size = len, a_map_vaddr = 0, a_map_size = 0, a_host_vaddr = 0,
      a_host_size = 0, a_prot = 0, a_mode = VmNoAccess, a_gpu_mode = GpuNoAccess,
      a_memory_type = memory_type, a_pool_expansion = pool, a_name = []\<rparr>"

definition PM_Alloc :: "nat \<Rightarrow> nat \<Rightarrow> nat \<Rightarrow> nat \<Rightarrow> int \<Rightarrow> bool \<Rightarrow> physical_memory \<Rightarrow>
    exit_reason + nat option \<times> physical_memory" where
  "PM_Alloc search_start search_end len alignment memory_type pool pm =
     (let search_end = min search_end PhysicalSize
      in if search_start \<ge> search_end then Inr (None, pm)
         else
           (let upto = om_upto search_start (pm_free pm);
                above = om_above search_start (pm_free pm)
            in case (if upto \<noteq> []
                     then alloc_scan search_start search_end len alignment (butlast upto)
                            (last upto # above)
                     else alloc_scan search_start search_end len alignment [] above) of
                 None \<Rightarrow> Inr (None, pm)
               | Some (free_pos, before, r, after) \<Rightarrow>
                   if free_pos \<in> fst ` set (pm_physical pm)
                   then Inl (Exit ''!m_physical.emplace(b.start_addr, b).second'')
                   else Inr (Some free_pos,
                     pm\<lparr>pm_free := ConsumeFreeRange before r after free_pos len,
                        pm_physical := om_emplace
                          (free_pos, new_block free_pos len memory_type pool)
                          (pm_physical pm)\<rparr>)))"

fun available_scan :: "nat \<Rightarrow> nat \<Rightarrow> nat \<Rightarrow> nat \<times> nat \<Rightarrow> (nat \<times> nat) list \<Rightarrow> nat \<times> nat" where
  "available_scan search_start search_end alignment best [] = best"
| "available_scan search_start search_end alignment best ((s, n) # rest) =
     (if s \<ge> search_end then best
      else
        (let range_end = min (add64 s n) search_end;
             lower_bound = max s search_start
         in case GetAlignedPos lower_bound alignment of (free_pos, valid) \<Rightarrow>
              available_scan search_start search_end alignment
                (if valid \<and> free_pos \<ge> lower_bound \<and> free_pos < range_end
                    \<and> sub64 range_end free_pos > snd best
                 then (free_pos, sub64 range_end free_pos) else best) rest))"

definition PM_Available :: "nat \<Rightarrow> nat \<Rightarrow> nat \<Rightarrow> physical_memory \<Rightarrow> (nat \<times> nat) option" where
  "PM_Available search_start search_end alignment pm =
     (let search_end = min search_end PhysicalSize
      in if search_start \<ge> search_end then None
         else
           (let best = available_scan search_start search_end alignment (0, 0) (pm_free pm)
            in if snd best = 0 then None else Some best))"

section \<open>Release\<close>

definition PM_ReleasePoolExpansion ::
    "nat \<Rightarrow> nat \<Rightarrow> physical_memory \<Rightarrow> bool \<times> physical_memory" where
  "PM_ReleasePoolExpansion phys_addr len pm =
     (case map_of (pm_physical pm) phys_addr of
        None \<Rightarrow> (False, pm)
      | Some b \<Rightarrow>
          if \<not> a_pool_expansion b \<or> a_size b \<noteq> len then (False, pm)
          else (True, pm\<lparr>pm_physical := filter (\<lambda>e. fst e \<noteq> phys_addr) (pm_physical pm),
                         pm_free := AddFreeRange phys_addr len (pm_free pm)\<rparr>))"

text \<open>
  \<open>Release\<close> reports the virtual address, the size and the GPU mode recorded in the block.
  The block is the last one with a key up to \<open>start\<close>; the map is split around it.
\<close>

definition block_end :: "allocated_block \<Rightarrow> nat" where
  "block_end b = add64 (a_start b) (a_size b)"

definition PM_Release :: "nat \<Rightarrow> nat \<Rightarrow> physical_memory \<Rightarrow>
    (nat \<times> nat \<times> gpu_access_mode) option \<times> physical_memory" where
  "PM_Release start len pm =
     (let upto = om_upto start (pm_physical pm);
          after = om_above start (pm_physical pm)
      in if upto = [] then (None, pm)
         else
           (let before = butlast upto;
                key = fst (last upto);
                b = snd (last upto);
                e = block_end b;
                mapped = a_map_vaddr b \<noteq> 0;
                free = AddFreeRange start len (pm_free pm)
            in if a_pool_expansion b \<or> start < a_start b \<or> start \<ge> e \<or> len > sub64 e start
               then (None, pm)
               else if start = a_start b \<and> len = a_size b then
                 (Some (a_map_vaddr b, a_map_size b, a_gpu_mode b),
                  pm\<lparr>pm_physical := before @ after, pm_free := free\<rparr>)
               else if start > a_start b \<and> add64 start len < e then
                 (let right = b\<lparr>a_start := add64 start len,
                                a_size := sub64 e (add64 start len)\<rparr>;
                      right = (if mapped
                               then right\<lparr>a_map_vaddr := add64 (a_map_vaddr b)
                                            (sub64 (add64 start len) (a_start b)),
                                          a_map_size := a_size right\<rparr>
                               else right);
                      left = b\<lparr>a_size := sub64 start (a_start b)\<rparr>;
                      left = (if mapped then left\<lparr>a_map_size := a_size left\<rparr> else left)
                  in (Some (if mapped then add64 (a_map_vaddr b) (sub64 start (a_start b)) else 0,
                            if mapped then len else 0, a_gpu_mode b),
                      pm\<lparr>pm_physical := om_emplace (a_start right, right)
                                         (before @ (key, left) # after),
                         pm_free := free\<rparr>))
               else if start = a_start b \<and> len < a_size b then
                 (let rest = b\<lparr>a_start := add64 (a_start b) len, a_size := sub64 (a_size b) len\<rparr>;
                      rest = (if mapped
                              then rest\<lparr>a_map_vaddr := add64 (a_map_vaddr b) len,
                                        a_map_size := sub64 (a_map_size b) len\<rparr>
                              else rest)
                  in (Some (a_map_vaddr b, if mapped then len else 0, a_gpu_mode b),
                      pm\<lparr>pm_physical := om_emplace (a_start rest, rest) (before @ after),
                         pm_free := free\<rparr>))
               else if start > a_start b \<and> add64 start len = e then
                 (let left = b\<lparr>a_size := sub64 start (a_start b)\<rparr>;
                      left = (if mapped then left\<lparr>a_map_size := a_size left\<rparr> else left)
                  in (Some (if mapped then add64 (a_map_vaddr b) (sub64 start (a_start b)) else 0,
                            if mapped then len else 0, a_gpu_mode b),
                      pm\<lparr>pm_physical := before @ (key, left) # after, pm_free := free\<rparr>))
               else (None, pm)))"

section \<open>Mappings\<close>

definition PM_CanMapDirect :: "nat \<Rightarrow> nat \<Rightarrow> physical_memory \<Rightarrow> bool" where
  "PM_CanMapDirect phys_addr len pm =
     (let upto = om_upto phys_addr (pm_physical pm)
      in upto \<noteq> []
         \<and> (let b = snd (last upto)
            in \<not> a_pool_expansion b \<and> phys_addr \<ge> a_start b \<and> phys_addr < block_end b
               \<and> len \<le> sub64 (block_end b) phys_addr))"

definition PM_Map :: "nat \<Rightarrow> nat \<Rightarrow> nat \<Rightarrow> prot \<Rightarrow> vm_mode \<Rightarrow> gpu_access_mode \<Rightarrow> physical_memory \<Rightarrow>
    bool \<times> physical_memory" where
  "PM_Map vaddr phys_addr len protection mode gpu_mode pm =
     (let upto = om_upto phys_addr (pm_physical pm)
      in if upto = [] then (False, pm)
         else
           (let b = snd (last upto)
            in if a_pool_expansion b \<or> phys_addr < a_start b \<or> phys_addr \<ge> block_end b
                  \<or> len > sub64 (block_end b) phys_addr
               then (False, pm)
               else (True, pm\<lparr>pm_mappings := pm_mappings pm @
                      [b\<lparr>a_start := phys_addr, a_size := len, a_map_vaddr := vaddr,
                         a_map_size := len, a_host_vaddr := vaddr, a_host_size := len,
                         a_prot := protection, a_mode := mode, a_gpu_mode := gpu_mode\<rparr>]\<rparr>)))"

text \<open>
  The loop of \<open>Unmap\<close>: the mode of the first mapping that contains the span, the host
  extent of a mapping that went away entirely, and the vector afterwards.
\<close>

definition map_end :: "allocated_block \<Rightarrow> nat" where
  "map_end b = add64 (a_map_vaddr b) (a_map_size b)"

fun unmap_scan :: "nat \<Rightarrow> nat \<Rightarrow> allocated_block list \<Rightarrow> allocated_block list \<Rightarrow>
    (gpu_access_mode \<times> (nat \<times> nat) option \<times> allocated_block list) option" where
  "unmap_scan vaddr n before [] = None"
| "unmap_scan vaddr n before (b # bs) =
     (if a_map_vaddr b = vaddr \<and> a_map_size b = n then
        Some (a_gpu_mode b, Some (a_host_vaddr b, a_host_size b), before @ bs)
      else if vaddr > a_map_vaddr b \<and> add64 vaddr n < map_end b then
        (let right = b\<lparr>a_start := add64 (a_start b) (sub64 (add64 vaddr n) (a_map_vaddr b)),
                       a_size := sub64 (map_end b) (add64 vaddr n),
                       a_map_size := sub64 (map_end b) (add64 vaddr n),
                       a_map_vaddr := add64 vaddr n\<rparr>;
             left = b\<lparr>a_size := sub64 vaddr (a_map_vaddr b),
                      a_map_size := sub64 vaddr (a_map_vaddr b)\<rparr>
         in Some (a_gpu_mode b, None, before @ left # bs @ [right]))
      else if vaddr = a_map_vaddr b \<and> n < a_map_size b then
        Some (a_gpu_mode b, None,
          before @ b\<lparr>a_start := add64 (a_start b) n, a_size := sub64 (a_size b) n,
                     a_map_vaddr := add64 (a_map_vaddr b) n,
                     a_map_size := sub64 (a_map_size b) n\<rparr> # bs)
      else if vaddr > a_map_vaddr b \<and> add64 vaddr n = map_end b then
        Some (a_gpu_mode b, None,
          before @ b\<lparr>a_size := sub64 vaddr (a_map_vaddr b),
                     a_map_size := sub64 vaddr (a_map_vaddr b)\<rparr> # bs)
      else unmap_scan vaddr n (before @ [b]) bs)"

text \<open>
  The host address to release: the host extent of the removed mapping when no remaining
  mapping shares it, and 0 otherwise.
\<close>

definition host_release :: "(nat \<times> nat) option \<Rightarrow> allocated_block list \<Rightarrow> nat" where
  "host_release host bs =
     (case host of None \<Rightarrow> 0
      | Some (v, n) \<Rightarrow>
          if v = 0 \<or> n = 0 \<or> (\<exists>b\<in>set bs. a_host_vaddr b = v \<and> a_host_size b = n) then 0 else v)"

definition PM_Unmap :: "nat \<Rightarrow> nat \<Rightarrow> physical_memory \<Rightarrow>
    (gpu_access_mode \<times> nat) option \<times> physical_memory" where
  "PM_Unmap vaddr n pm =
     (case unmap_scan vaddr n [] (pm_mappings pm) of
        None \<Rightarrow> (None, pm)
      | Some (mode, host, bs) \<Rightarrow> (Some (mode, host_release host bs), pm\<lparr>pm_mappings := bs\<rparr>))"

definition PM_Find :: "nat \<Rightarrow> bool \<Rightarrow> physical_memory \<Rightarrow> allocated_block option" where
  "PM_Find phys_addr next_one pm =
     (let upto = om_upto phys_addr (pm_physical pm);
          above = om_above phys_addr (pm_physical pm)
      in if upto \<noteq> [] \<and> phys_addr < block_end (snd (last upto)) then Some (snd (last upto))
         else if next_one \<and> above \<noteq> [] then Some (snd (hd above))
         else None)"

definition mapping_part :: "nat \<Rightarrow> nat \<Rightarrow> allocated_block \<Rightarrow> allocated_block" where
  "mapping_part phys_addr len m =
     (let overlap_start = max phys_addr (a_start m);
          overlap_end = min (add64 phys_addr len) (add64 (a_start m) (a_size m))
      in m\<lparr>a_start := overlap_start, a_size := sub64 overlap_end overlap_start,
           a_map_vaddr := add64 (a_map_vaddr m) (sub64 overlap_start (a_start m)),
           a_map_size := sub64 overlap_end overlap_start\<rparr>)"

definition PM_FindMappings :: "nat \<Rightarrow> nat \<Rightarrow> physical_memory \<Rightarrow> allocated_block list" where
  "PM_FindMappings phys_addr len pm =
     sort_key a_map_vaddr (map (mapping_part phys_addr len)
       (filter (\<lambda>m. VirtualRangesOverlap phys_addr len (a_start m) (a_size m)) (pm_mappings pm)))"

definition PM_FindVirtual :: "nat \<Rightarrow> physical_memory \<Rightarrow>
    (nat \<times> nat \<times> prot \<times> vm_mode \<times> gpu_access_mode) option" where
  "PM_FindVirtual vaddr pm =
     map_option (\<lambda>b. (a_map_vaddr b, a_map_size b, a_prot b, a_mode b, a_gpu_mode b))
       (find (\<lambda>b. vaddr \<ge> a_map_vaddr b \<and> vaddr < map_end b) (pm_mappings pm))"

definition PM_SetVirtualRangeName ::
    "nat \<Rightarrow> nat \<Rightarrow> string option \<Rightarrow> physical_memory \<Rightarrow> physical_memory" where
  "PM_SetVirtualRangeName vaddr len name pm =
     pm\<lparr>pm_mappings := map (\<lambda>b.
          if VirtualRangesOverlap vaddr len (a_map_vaddr b) (a_map_size b)
          then b\<lparr>a_name := CopyVirtualRangeName name\<rparr> else b) (pm_mappings pm)\<rparr>"

definition PM_SetVirtualRangeMemoryType ::
    "nat \<Rightarrow> nat \<Rightarrow> int \<Rightarrow> physical_memory \<Rightarrow> physical_memory" where
  "PM_SetVirtualRangeMemoryType vaddr len memory_type pm =
     pm\<lparr>pm_mappings := map (\<lambda>b.
          if VirtualRangesOverlap vaddr len (a_map_vaddr b) (a_map_size b)
          then b\<lparr>a_memory_type := memory_type\<rparr> else b) (pm_mappings pm)\<rparr>"

section \<open>The free list is a coalescing store\<close>

definition fb :: "nat \<times> nat \<Rightarrow> bounds" where
  "fb r = (fst r, fst r + snd r)"

lemma fb_simps [simp]: "fst (fb r) = fst r" "snd (fb r) = fst r + snd r"
  by (simp_all add: fb_def)

lemma inj_fb: "inj fb"
  by (rule injI) (auto simp: fb_def prod_eq_iff)

definition fl_wf :: "(nat \<times> nat) list \<Rightarrow> bool" where
  "fl_wf m \<longleftrightarrow> separated (map fb m) \<and> (\<forall>r\<in>set m. fst r + snd r < U64)"

definition fl_cover :: "(nat \<times> nat) list \<Rightarrow> nat set" where
  "fl_cover m = spans (map fb m)"

definition fl_ok :: "nat \<Rightarrow> nat \<Rightarrow> bool" where
  "fl_ok a b \<longleftrightarrow> a < b \<and> b < U64"

lemma fl_canonical: "fl_wf m \<Longrightarrow> fl_wf k \<Longrightarrow> fl_cover m = fl_cover k \<Longrightarrow> m = k"
  using separated_canonical [of "map fb m" "map fb k"]
  by (auto simp: fl_wf_def fl_cover_def dest: injD [OF inj_mapI [OF inj_fb]])

lemma om_map_fb:
  "om_below a (map fb m) = map fb (om_below a m)" "om_from a (map fb m) = map fb (om_from a m)"
  "om_upto a (map fb m) = map fb (om_upto a m)" "om_above a (map fb m) = map fb (om_above a m)"
  by (simp_all add: om_below_def om_from_def om_upto_def om_above_def takeWhile_map
      dropWhile_map comp_def)

lemma om_emplace_fb: "map fb (om_emplace r m) = om_emplace (fb r) (map fb m)"
  by (induction m) auto

lemma free_absorb_fb:
  assumes "\<forall>r\<in>set m. b \<le> fst r \<and> fst r + snd r < U64" and "l < U64"
    and "free_absorb l m = (e, rest)"
  shows "add_absorb b l (map fb m) = (b, e, map fb rest) \<and> l \<le> e \<and> e < U64"
  using assms
proof (induction l m rule: free_absorb.induct)
  case (2 l s n m)
  then show ?case
    by (cases "s \<le> l") (auto simp: fb_def arith64 min_def)
qed (simp add: fb_def)

lemma AddFreeRange_fb:
  assumes "fl_wf m" and "fl_ok a b"
  shows "map fb (AddFreeRange a (b - a) m) = add_range a b (map fb m)"
proof -
  let ?lo = "om_below a m" and ?hi = "om_from a m"
  have in64: "\<forall>r\<in>set (?lo @ ?hi). fst r + snd r < U64"
    using assms(1) unfolding om_below_from fl_wf_def by blast
  then have hi64: "\<forall>r\<in>set ?hi. fst r + snd r < U64" unfolding set_append by blast
  have sorted: "keys_sorted (map fb m)"
    using assms(1) separated_keys_sorted by (simp add: fl_wf_def)
  have hi: "\<forall>r\<in>set ?hi. a \<le> fst r"
    using om_from_ge [OF sorted, of _ a] by (fastforce simp: om_map_fb)
  have e: "add64 a (b - a) = b" and ab: "a < b" "b < U64"
    using assms(2) by (simp_all add: fl_ok_def arith64)
  show ?thesis
  proof (cases "?lo \<noteq> [] \<and> fst (last ?lo) + snd (last ?lo) \<ge> a")
    case True
    let ?p = "last ?lo"
    have "?p \<in> set (?lo @ ?hi)" using True by (metis Un_iff last_in_set set_append)
    then have "fst ?p + snd ?p < U64" using in64 by blast
    then have p: "add64 (fst ?p) (snd ?p) = fst ?p + snd ?p" "fst ?p + snd ?p < U64"
      "fst ?p < a"
      using True om_below_less [of ?p a m] by (simp_all add: arith64)
    obtain e' rest where loop: "free_absorb (max b (fst ?p + snd ?p)) ?hi = (e', rest)"
      by fastforce
    have "\<forall>r\<in>set ?hi. fst ?p \<le> fst r \<and> fst r + snd r < U64"
      using hi hi64 p(3) by (meson less_imp_le order_trans)
    from free_absorb_fb [OF this _ loop] have
      abs: "add_absorb (fst ?p) (max b (fst ?p + snd ?p)) (map fb ?hi) = (fst ?p, e', map fb rest)"
      "fst ?p \<le> e'" "e' < U64"
      using ab p by auto
    have "min a (fst ?p) = fst ?p" "fst ?p \<le> b" using p ab by simp_all
    then have "add_range a b (map fb m)
        = om_emplace (fst ?p, e') (butlast (map fb ?lo) @ map fb rest)"
      using True abs(1) by (simp add: add_range_def Let_def om_map_fb last_map fb_def [of ?p])
    then show ?thesis
      using True e p loop abs
      by (simp add: AddFreeRange_def Let_def om_emplace_fb fb_def arith64 map_butlast)
  next
    case False
    obtain e' rest where loop: "free_absorb b ?hi = (e', rest)" by fastforce
    have "\<forall>r\<in>set ?hi. a \<le> fst r \<and> fst r + snd r < U64"
      using hi hi64 by blast
    from free_absorb_fb [OF this _ loop] have
      abs: "add_absorb a b (map fb ?hi) = (a, e', map fb rest)" "a \<le> e'" "e' < U64"
      using ab by auto
    have out: "\<not> (?lo \<noteq> [] \<and> add64 (fst (last ?lo)) (snd (last ?lo)) \<ge> a)"
    proof
      assume l: "?lo \<noteq> [] \<and> add64 (fst (last ?lo)) (snd (last ?lo)) \<ge> a"
      then have "last ?lo \<in> set (?lo @ ?hi)" by (metis Un_iff last_in_set set_append)
      then have "fst (last ?lo) + snd (last ?lo) < U64" using in64 by blast
      then show False using l False by (simp add: arith64)
    qed
    have "add_range a b (map fb m) = om_emplace (a, e') (map fb ?lo @ map fb rest)"
      using False abs(1) by (auto simp: add_range_def Let_def om_map_fb last_map)
    then show ?thesis
      using out e loop abs ab
      by (auto simp: AddFreeRange_def Let_def om_emplace_fb fb_def arith64)
  qed
qed

lemma AddFreeRange_spec:
  assumes "fl_wf m" and "fl_ok a b"
  shows "fl_wf (AddFreeRange a (b - a) m)"
    and "fl_cover (AddFreeRange a (b - a) m) = fl_cover m \<union> {a ..< b}"
proof -
  have sep: "separated (map fb m)" and ab: "a < b" "b < U64"
    using assms by (simp_all add: fl_wf_def fl_ok_def)
  note spec = add_range_spec [OF sep ab(1)] 
  have eq: "map fb (AddFreeRange a (b - a) m) = add_range a b (map fb m)"
    using assms by (rule AddFreeRange_fb)
  have "snd ` fb ` set (AddFreeRange a (b - a) m) \<subseteq> insert b (snd ` fb ` set m)"
    using spec eq by (metis list.set_map)
  then have "\<forall>r\<in>set (AddFreeRange a (b - a) m). fst r + snd r < U64"
    using ab assms(1) by (fastforce simp: fl_wf_def)
  then show "fl_wf (AddFreeRange a (b - a) m)"
    using spec eq by (simp add: fl_wf_def)
  show "fl_cover (AddFreeRange a (b - a) m) = fl_cover m \<union> {a ..< b}"
    using spec eq by (simp add: fl_cover_def)
qed

lemma ConsumeFreeRange_spec:
  assumes "fl_wf (before @ r # after)" and "fst r \<le> a" and "a < b" and "b \<le> fst r + snd r"
  shows "fl_wf (ConsumeFreeRange before r after a (b - a))"
    and "fl_cover (ConsumeFreeRange before r after a (b - a))
      = fl_cover (before @ r # after) - {a ..< b}"
proof -
  have r64: "fst r + snd r < U64" using assms(1) by (simp add: fl_wf_def)
  have sep: "separated (map fb before @ fb r # map fb after)" using assms(1) by (simp add: fl_wf_def)
  have lo: "\<forall>x\<in>set before. fst x + snd x < fst r" and hi: "\<forall>x\<in>set after. fst r + snd r < fst x"
    using sep by (auto simp: separated_append separated_Cons)
  let ?left = "if fst r < a then [(fst r, a - fst r)] else []"
  let ?right = "if b < fst r + snd r then [(b, fst r + snd r - b)] else []"
  have eq: "ConsumeFreeRange before r after a (b - a) = before @ ?left @ ?right @ after"
  proof -
    have arith: "add64 (fst r) (snd r) = fst r + snd r" "sub64 a (fst r) = a - fst r"
      "add64 a (b - a) = b"
      "sub64 (sub64 (fst r + snd r) a) (b - a) = fst r + snd r - b"
      using assms r64 by (simp_all add: arith64)
    have "\<forall>x\<in>set before. fst x < fst r" "\<forall>x\<in>set after. fst r < fst x"
      using lo hi by fastforce+
    note left = om_emplace_between [OF this]
    have "\<forall>x\<in>set (before @ ?left). fst x < b" "\<forall>x\<in>set after. fst r + snd r < fst x"
      using lo hi assms by fastforce+
    then have right: "om_emplace (b, v) ((before @ ?left) @ after) = (before @ ?left) @ (b, v) # after"
      for v
      using assms(4) by (intro om_emplace_between) fastforce+
    show ?thesis
      using left right by (cases "fst r < a") (simp_all add: ConsumeFreeRange_def Let_def arith)
  qed
  have "separated (map fb (?left @ ?right))"
    using assms by (auto simp: separated_Cons fb_def)
  then show "fl_wf (ConsumeFreeRange before r after a (b - a))"
    using assms sep lo hi
    by (auto simp: eq fl_wf_def separated_append separated_Cons fb_def split: if_splits)
  have "spans (map fb (before @ after)) \<inter> {a ..< b} = {}"
    using lo hi assms by (fastforce simp: spans_def span_def)
  moreover have "spans (map fb (?left @ ?right)) = span (fb r) - {a ..< b}"
    using assms by (auto simp: fb_def)
  ultimately show "fl_cover (ConsumeFreeRange before r after a (b - a))
      = fl_cover (before @ r # after) - {a ..< b}"
    unfolding eq fl_cover_def map_append spans_simps list.map by blast
qed

text \<open>The entry that holds an address range of the free list, and the cut through it.\<close>

definition free_cut :: "nat \<Rightarrow> nat \<Rightarrow> (nat \<times> nat) list \<Rightarrow> (nat \<times> nat) list" where
  "free_cut a b m =
     ConsumeFreeRange (butlast (om_upto a m)) (last (om_upto a m)) (om_above a m) a (b - a)"

lemma fl_entry:
  assumes "fl_wf m" and "a \<in> fl_cover m"
  shows "om_upto a m \<noteq> []" and "butlast (om_upto a m) @ last (om_upto a m) # om_above a m = m"
    and "fst (last (om_upto a m)) \<le> a"
    and "a < fst (last (om_upto a m)) + snd (last (om_upto a m))"
proof -
  from assms(2) obtain r where r: "r \<in> set m" "fst r \<le> a" "a < fst r + snd r"
    by (auto simp: fl_cover_def spans_def span_def)
  have sep: "separated (map fb m)" using assms(1) by (simp add: fl_wf_def)
  then have "keys_sorted (map fb m)" by (rule separated_keys_sorted)
  then have "\<forall>x\<in>set (om_above a m). a < fst x"
    using om_above_greater [of "map fb m" _ a] by (fastforce simp: om_map_fb)
  moreover have "r \<in> set (om_upto a m @ om_above a m)" using r(1) by simp
  ultimately have up: "r \<in> set (om_upto a m)" using r(2) by (metis Un_iff leD set_append)
  then show ne: "om_upto a m \<noteq> []" by auto
  then show split: "butlast (om_upto a m) @ last (om_upto a m) # om_above a m = m"
    by (metis append.assoc append_Cons append_butlast_last_id om_upto_above self_append_conv2)
  show le: "fst (last (om_upto a m)) \<le> a" using ne om_upto_le [of "last (om_upto a m)" a m] by simp
  have "r = last (om_upto a m)"
  proof (rule ccontr)
    assume "r \<noteq> last (om_upto a m)"
    then have "r \<in> set (butlast (om_upto a m))"
      using up ne by (metis append_butlast_last_id rotate1.simps(2) set_ConsD set_rotate1)
    moreover have "separated (map fb (butlast (om_upto a m) @ last (om_upto a m) # om_above a m))"
      using sep unfolding split .
    ultimately have "fst r + snd r < fst (last (om_upto a m))"
      by (auto simp: separated_append separated_Cons)
    then show False using le r(3) by linarith
  qed
  then show "a < fst (last (om_upto a m)) + snd (last (om_upto a m))" using r(3) by simp
qed

text \<open>Covered addresses without a gap lie in one entry.\<close>

lemma fl_one_entry:
  assumes "fl_wf m" and "a < b" and "{a ..< b} \<subseteq> fl_cover m" and "r \<in> set m"
    and "fst r \<le> a" and "a < fst r + snd r"
  shows "b \<le> fst r + snd r"
proof (rule ccontr)
  assume "\<not> b \<le> fst r + snd r"
  then have "fst r + snd r \<in> fl_cover m" using assms(3,6) by auto
  then obtain q where q: "q \<in> set m" "fst q \<le> fst r + snd r" "fst r + snd r < fst q + snd q"
    by (auto simp: fl_cover_def spans_def span_def)
  have sep: "separated (map fb m)" using assms(1) by (simp add: fl_wf_def)
  obtain u v where m: "m = u @ r # v" using assms(4) by (metis split_list)
  have "q \<noteq> r" using q by auto
  then consider "q \<in> set u" | "q \<in> set v" using q(1) m by auto
  then show False
  proof cases
    case 1
    then have "fst q + snd q < fst r" using sep m by (auto simp: separated_append)
    then show False using q by linarith
  next
    case 2
    then have "fst r + snd r < fst q" using sep m by (auto simp: separated_append separated_Cons)
    then show False using q by linarith
  qed
qed

interpretation fl: cutting_store fl_wf fl_cover fl_ok "\<lambda>a b. AddFreeRange a (b - a)"
  "\<lambda>a b m. a < b \<and> {a ..< b} \<subseteq> fl_cover m" free_cut
proof unfold_locales
  fix m :: "(nat \<times> nat) list" and a b :: nat
  assume m: "fl_wf m"
  show "fl_wf (AddFreeRange a (b - a) m)" if "fl_ok a b"
    using m that by (rule AddFreeRange_spec)
  show "fl_cover (AddFreeRange a (b - a) m) = fl_cover m \<union> {a ..< b}" if "fl_ok a b"
    using m that by (rule AddFreeRange_spec)
  assume cut: "a < b \<and> {a ..< b} \<subseteq> fl_cover m"
  then have "a \<in> fl_cover m" by auto
  note entry = fl_entry [OF m this]
  have mem: "last (om_upto a m) \<in> set m" using entry(2) by (metis in_set_conv_decomp)
  have "b \<le> fst (last (om_upto a m)) + snd (last (om_upto a m))"
    using fl_one_entry [OF m _ _ mem entry(3,4)] cut by blast
  with ConsumeFreeRange_spec [of "butlast (om_upto a m)" "last (om_upto a m)" "om_above a m" a b]
  show "fl_wf (free_cut a b m)" "fl_cover (free_cut a b m) = fl_cover m - {a ..< b}"
    using entry m cut by (simp_all add: free_cut_def)
qed (rule fl_canonical)

section \<open>The search of \<open>Alloc\<close>\<close>

text \<open>A position at which \<open>len\<close> bytes may be taken.\<close>

definition fits :: "nat \<Rightarrow> nat \<Rightarrow> nat \<Rightarrow> nat \<Rightarrow> nat set \<Rightarrow> nat \<Rightarrow> bool" where
  "fits search_start search_end len alignment free a \<longleftrightarrow>
     search_start \<le> a \<and> a + len \<le> search_end \<and> (alignment \<noteq> 0 \<longrightarrow> alignment dvd a)
     \<and> {a ..< a + len} \<subseteq> free"

definition entry_fits :: "nat \<Rightarrow> nat \<Rightarrow> nat \<Rightarrow> nat \<Rightarrow> nat \<times> nat \<Rightarrow> nat \<Rightarrow> bool" where
  "entry_fits search_start search_end len alignment r a \<longleftrightarrow>
     search_start \<le> a \<and> fst r \<le> a \<and> a + len \<le> search_end \<and> a + len \<le> fst r + snd r
     \<and> (alignment = 0 \<or> alignment dvd a)"

text \<open>One turn of the loop takes the least position the entry offers, or there is none.\<close>

lemma alloc_entry:
  assumes "fst r + snd r < U64" and "ss < se" and "se < U64" and "0 < len" and "fst r < se"
    and "GetAlignedPos (max (fst r) ss) al = (p, valid)"
    and "e = min (add64 (fst r) (snd r)) se"
  shows "\<not> valid \<or> p < max (fst r) ss \<or> p > e \<or> len > sub64 e p \<Longrightarrow>
      \<not> entry_fits ss se len al r q"
    and "\<not> (\<not> valid \<or> p < max (fst r) ss \<or> p > e \<or> len > sub64 e p) \<Longrightarrow>
      entry_fits ss se len al r p \<and> (entry_fits ss se len al r q \<longrightarrow> p \<le> q)"
proof -
  have re: "e = min (fst r + snd r) se" using assms(1,7) by (simp add: arith64)
  have lower: "max (fst r) ss < U64" using assms by auto
  show "\<not> entry_fits ss se len al r q"
    if rej: "\<not> valid \<or> p < max (fst r) ss \<or> p > e \<or> len > sub64 e p"
  proof
    assume fit: "entry_fits ss se len al r q"
    then have q: "max (fst r) ss \<le> q" "q + len \<le> e" "al = 0 \<or> al dvd q"
      by (auto simp: entry_fits_def re)
    show False
    proof (cases valid)
      case False
      then have "U64 \<le> q" using GetAlignedPos_invalid [of "max (fst r) ss" al p q] assms(6) q False by simp
      then show False using q(2) re assms(1) by linarith
    next
      case True
      then have "p \<le> q" "max (fst r) ss \<le> p"
        using GetAlignedPos_valid(1,4) [OF assms(6) [unfolded eqTrueI [OF True]] lower] q by blast+
      then have "p \<le> e" "sub64 e p = e - p"
        using q(2) re assms(1) by (simp_all add: arith64)
      then show False using rej True \<open>p \<le> q\<close> \<open>max (fst r) ss \<le> p\<close> q(2) by auto
    qed
  qed
  assume acc: "\<not> (\<not> valid \<or> p < max (fst r) ss \<or> p > e \<or> len > sub64 e p)"
  then have v: "GetAlignedPos (max (fst r) ss) al = (p, True)" using assms(6) by simp
  note pos = GetAlignedPos_valid [OF v lower]
  have "p \<le> e" "e < U64" using acc re assms(1) by auto
  then have "sub64 e p = e - p" by (rule sub64_exact)
  then have "entry_fits ss se len al r p" using acc pos re by (auto simp: entry_fits_def)
  moreover have "p \<le> q" if "entry_fits ss se len al r q"
    using that pos(4) [of q] by (auto simp: entry_fits_def)
  ultimately show "entry_fits ss se len al r p \<and> (entry_fits ss se len al r q \<longrightarrow> p \<le> q)" by blast
qed

lemma alloc_scan_spec:
  assumes "fl_wf m" and "ss < se" and "se < U64" and "0 < len"
  shows "case alloc_scan ss se len al pre m of
      None \<Rightarrow> \<forall>r\<in>set m. \<forall>q. \<not> entry_fits ss se len al r q
    | Some (p, before, r, after) \<Rightarrow> pre @ m = before @ r # after \<and> entry_fits ss se len al r p
        \<and> (\<forall>x\<in>set m. \<forall>q. entry_fits ss se len al x q \<longrightarrow> p \<le> q)"
  using assms(1)
proof (induction m arbitrary: pre)
  case (Cons r m)
  obtain s n where r: "r = (s, n)" by fastforce
  have wf: "fl_wf m" and r64: "fst r + snd r < U64"
    and later: "\<forall>x\<in>set m. fst r + snd r < fst x"
    using Cons.prems by (auto simp: fl_wf_def separated_Cons)
  show ?case
  proof (cases "s < se")
    case False
    have "\<not> entry_fits ss se len al x q" if "x \<in> set (r # m)" for x q
      using that False later r assms(4) by (fastforce simp: entry_fits_def)
    then show ?thesis using False r by simp
  next
    case True
    obtain p valid where al: "GetAlignedPos (max (fst r) ss) al = (p, valid)" by fastforce
    obtain re where re: "re = min (add64 (fst r) (snd r)) se" by simp
    note entry = alloc_entry [OF r64 assms(2-4) _ al re]
    show ?thesis
    proof (cases "\<not> valid \<or> p < max (fst r) ss \<or> p > re \<or> len > sub64 re p")
      case rej: True
      then have "alloc_scan ss se len al pre (r # m) = alloc_scan ss se len al (pre @ [r]) m"
        using True al re r by (simp add: Let_def)
      moreover have "\<not> entry_fits ss se len al r q" for q using entry(1) [OF _ rej] True r by simp
      ultimately show ?thesis using Cons.IH [OF wf, of "pre @ [r]"]
        by (auto split: option.splits prod.splits)
    next
      case acc: False
      then have res: "alloc_scan ss se len al pre (r # m) = Some (p, pre, r, m)"
        using True al re r by (simp add: Let_def)
      have fit: "entry_fits ss se len al r p" "\<And>q. entry_fits ss se len al r q \<Longrightarrow> p \<le> q"
        using entry(2) [OF _ acc] True r by auto
      moreover have "p \<le> q" if "x \<in> set m" "entry_fits ss se len al x q" for x q
      proof -
        have "fst r + snd r < fst x" using that(1) later by blast
        then show ?thesis using fit(1) that(2) assms(4) by (auto simp: entry_fits_def)
      qed
      ultimately show ?thesis unfolding res by auto
    qed
  qed
qed simp

lemma fits_entry:
  assumes "fl_wf m" and "0 < len"
  shows "fits ss se len al (fl_cover m) a \<longleftrightarrow> (\<exists>r\<in>set m. entry_fits ss se len al r a)"
proof
  assume fit: "fits ss se len al (fl_cover m) a"
  then have "a \<in> fl_cover m" using assms(2) by (auto simp: fits_def)
  then obtain r where r: "r \<in> set m" "fst r \<le> a" "a < fst r + snd r"
    by (auto simp: fl_cover_def spans_def span_def)
  have "a + len \<le> fst r + snd r"
    using fl_one_entry [OF assms(1) _ _ r] fit assms(2) by (simp add: fits_def)
  then show "\<exists>r\<in>set m. entry_fits ss se len al r a"
    using r fit by (auto simp: fits_def entry_fits_def)
next
  assume "\<exists>r\<in>set m. entry_fits ss se len al r a"
  then show "fits ss se len al (fl_cover m) a"
    by (fastforce simp: fits_def entry_fits_def fl_cover_def spans_def span_def)
qed

section \<open>Invariant\<close>

text \<open>
  The free list and the allocated blocks partition the physical memory. No block of
  \<open>m_physical\<close> records a mapping: \<open>Map\<close> records mappings in \<open>m_mappings\<close> only.
\<close>

definition bb :: "nat \<times> allocated_block \<Rightarrow> bounds" where
  "bb e = (a_start (snd e), a_start (snd e) + a_size (snd e))"

lemma bb_simps [simp]:
  "fst (bb e) = a_start (snd e)" "snd (bb e) = a_start (snd e) + a_size (snd e)"
  by (simp_all add: bb_def)

definition blocks_wf :: "(nat \<times> allocated_block) list \<Rightarrow> bool" where
  "blocks_wf m \<longleftrightarrow> chained (map bb m)
     \<and> (\<forall>e\<in>set m. fst e = a_start (snd e) \<and> a_start (snd e) + a_size (snd e) \<le> PhysicalSize
          \<and> a_map_vaddr (snd e) = 0 \<and> a_map_size (snd e) = 0 \<and> a_gpu_mode (snd e) = GpuNoAccess)"

definition allocated :: "physical_memory \<Rightarrow> nat set" where
  "allocated pm = spans (map bb (pm_physical pm))"

definition free_memory :: "physical_memory \<Rightarrow> nat set" where
  "free_memory pm = fl_cover (pm_free pm)"

definition pm_inv :: "physical_memory \<Rightarrow> bool" where
  "pm_inv pm \<longleftrightarrow> fl_wf (pm_free pm) \<and> blocks_wf (pm_physical pm)
     \<and> free_memory pm \<inter> allocated pm = {} \<and> free_memory pm \<union> allocated pm = {0 ..< PhysicalSize}"

lemma PhysicalSize_in64: "PhysicalSize < U64"
  by (simp add: PhysicalSize_def U64_def)

lemma pm_inv_init: "pm_inv PM_init"
  using PhysicalSize_in64
  by (simp add: pm_inv_def PM_init_def fl_wf_def fl_cover_def free_memory_def allocated_def
      blocks_wf_def fb_def separated_Cons PhysicalSize_def)

lemma block_split:
  assumes "om_upto x m \<noteq> []"
  shows "butlast (om_upto x m) @ (fst (last (om_upto x m)), snd (last (om_upto x m)))
      # om_above x m = m"
    and "last (om_upto x m) \<in> set m"
proof -
  show split: "butlast (om_upto x m) @ (fst (last (om_upto x m)), snd (last (om_upto x m)))
      # om_above x m = m"
    using assms by (metis append.assoc append_Cons append_butlast_last_id om_upto_above
        prod.collapse self_append_conv2)
  then show "last (om_upto x m) \<in> set m" by (metis in_set_conv_decomp prod.collapse)
qed

text \<open>The block at an address is the last one that starts at or before it.\<close>

lemma block_at:
  assumes "blocks_wf m" and "e \<in> set m" and "a_start (snd e) \<le> x"
    and "x < a_start (snd e) + a_size (snd e)"
  shows "om_upto x m \<noteq> []" and "last (om_upto x m) = e"
proof -
  have keys: "\<forall>e\<in>set m. fst e = a_start (snd e)" and ch: "chained (map bb m)"
    using assms(1) by (simp_all add: blocks_wf_def)
  have sorted: "keys_sorted m"
    using ch keys by (induction m) (auto simp: chained_Cons)
  have up: "e \<in> set (om_upto x m)"
  proof (rule ccontr)
    assume "e \<notin> set (om_upto x m)"
    then have "e \<in> set (om_above x m)"
      using assms(2) by (metis Un_iff om_upto_above set_append)
    then have "x < fst e" by (rule om_above_greater [OF sorted])
    then show False using assms(2,3) keys by simp
  qed
  then show ne: "om_upto x m \<noteq> []" by auto
  show "last (om_upto x m) = e"
  proof (rule ccontr)
    assume d: "last (om_upto x m) \<noteq> e"
    then have "e \<in> set (butlast (om_upto x m))"
      using up ne by (metis append_butlast_last_id rotate1.simps(2) set_ConsD set_rotate1)
    moreover have "chained (map bb (butlast (om_upto x m) @ last (om_upto x m) # om_above x m))"
      using ch block_split(1) [OF ne] by (simp only: prod.collapse)
    ultimately have "a_start (snd e) + a_size (snd e) \<le> a_start (snd (last (om_upto x m)))"
      by (auto simp: chained_append chained_Cons)
    moreover have "a_start (snd (last (om_upto x m))) \<le> x"
      using om_upto_le [of "last (om_upto x m)" x m] ne keys block_split(2) [OF ne] by simp
    ultimately show False using assms(4) by linarith
  qed
qed

lemma chained_replace:
  assumes "chained (pre @ r # post)" and "chained ps"
    and "\<forall>p\<in>set ps. fst r \<le> fst p \<and> snd p \<le> snd r"
  shows "chained (pre @ ps @ post)"
    and "spans (pre @ ps @ post) = spans (pre @ r # post) - (span r - spans ps)"
proof -
  show "chained (pre @ ps @ post)"
    using assms by (fastforce simp: chained_append chained_Cons)
  have "spans pre \<inter> span r = {}" "spans post \<inter> span r = {}"
    using assms(1) by (fastforce simp: chained_append chained_Cons spans_def span_def)+
  moreover have "spans ps \<subseteq> span r" using assms(3) by (fastforce simp: spans_def span_def)
  ultimately show "spans (pre @ ps @ post) = spans (pre @ r # post) - (span r - spans ps)"
    by auto
qed

section \<open>Allocation\<close>

lemma pm_invD:
  assumes "pm_inv pm"
  shows "fl_wf (pm_free pm)" "blocks_wf (pm_physical pm)"
    "free_memory pm \<inter> allocated pm = {}" "free_memory pm \<union> allocated pm = {0 ..< PhysicalSize}"
  using assms by (simp_all add: pm_inv_def)

lemma om_emplace_split:
  assumes "keys_sorted m" and "k \<notin> fst ` set m"
  obtains before after where "m = before @ after" and "om_emplace (k, v) m = before @ (k, v) # after"
    and "\<forall>e\<in>set before. fst e < k" and "\<forall>e\<in>set after. k < fst e"
proof -
  have lo: "\<forall>e\<in>set (om_below k m). fst e < k" by (simp add: om_below_less)
  have hi: "\<forall>e\<in>set (om_from k m). k < fst e"
  proof
    fix e assume e: "e \<in> set (om_from k m)"
    then have "k \<le> fst e" by (rule om_from_ge [OF assms(1)])
    moreover have "e \<in> set m" using e by (metis Un_iff om_below_from set_append)
    then have "fst e \<noteq> k" using assms(2) by auto
    ultimately show "k < fst e" by simp
  qed
  show thesis
    using that [of "om_below k m" "om_from k m"] om_emplace_between [OF lo hi] lo hi by simp
qed

lemma blocks_keys_sorted: "blocks_wf m \<Longrightarrow> keys_sorted m"
  by (induction m) (auto simp: blocks_wf_def chained_Cons)

lemma blocks_insert:
  assumes "blocks_wf m" and "0 < len" and "p + len \<le> PhysicalSize"
    and "{p ..< p + len} \<inter> spans (map bb m) = {}"
  shows "p \<notin> fst ` set m" and "blocks_wf (om_emplace (p, new_block p len t pool) m)"
    and "spans (map bb (om_emplace (p, new_block p len t pool) m))
      = spans (map bb m) \<union> {p ..< p + len}"
proof -
  have ent: "\<And>e. e \<in> set m \<Longrightarrow> fst e = a_start (snd e) \<and> 0 < a_size (snd e)
      \<and> {p ..< p + len} \<inter> {a_start (snd e) ..< a_start (snd e) + a_size (snd e)} = {}"
    using assms(1,4) by (fastforce simp: blocks_wf_def chained_def spans_def span_def)
  show fresh: "p \<notin> fst ` set m"
  proof
    assume "p \<in> fst ` set m"
    then obtain e where e: "e \<in> set m" "p = fst e" by auto
    then have "p = a_start (snd e)" "0 < a_size (snd e)" using ent [of e] by blast+
    then have "p \<in> {p ..< p + len} \<inter> {a_start (snd e) ..< a_start (snd e) + a_size (snd e)}"
      using assms(2) by simp
    then show False using ent [OF e(1)] by (metis empty_iff)
  qed
  obtain before after where m: "m = before @ after"
    and eq: "om_emplace (p, new_block p len t pool) m = before @ (p, new_block p len t pool) # after"
    and lo: "\<forall>e\<in>set before. fst e < p" and hi: "\<forall>e\<in>set after. p < fst e"
    using om_emplace_split [OF blocks_keys_sorted [OF assms(1)] fresh] by metis
  have "a_start (snd e) + a_size (snd e) \<le> p" if "e \<in> set before" for e
  proof (rule ccontr)
    assume "\<not> a_start (snd e) + a_size (snd e) \<le> p"
    then have "p \<in> {p ..< p + len} \<inter> {a_start (snd e) ..< a_start (snd e) + a_size (snd e)}"
      using lo that ent [of e] m assms(2) by fastforce
    then show False using ent [of e] that m by (metis Un_iff empty_iff set_append)
  qed
  moreover have "p + len \<le> a_start (snd e)" if "e \<in> set after" for e
  proof (rule ccontr)
    assume "\<not> p + len \<le> a_start (snd e)"
    then have "a_start (snd e)
        \<in> {p ..< p + len} \<inter> {a_start (snd e) ..< a_start (snd e) + a_size (snd e)}"
      using hi that ent [of e] m by fastforce
    then show False using ent [of e] that m by (metis Un_iff empty_iff set_append)
  qed
  ultimately show "blocks_wf (om_emplace (p, new_block p len t pool) m)"
    using assms(1,2,3) unfolding eq unfolding m
    by (fastforce simp: blocks_wf_def chained_append chained_Cons new_block_def)
  show "spans (map bb (om_emplace (p, new_block p len t pool) m))
      = spans (map bb m) \<union> {p ..< p + len}"
    unfolding eq unfolding m by (auto simp: new_block_def bb_def)
qed

text \<open>
  The search from the iterator finds what a search of the whole free list finds: the
  entries before it end before \<open>search_start\<close>.
\<close>

lemma alloc_search:
  assumes "fl_wf m" and "ss < se" and "se < U64" and "0 < len"
  shows "case (if om_upto ss m \<noteq> []
               then alloc_scan ss se len al (butlast (om_upto ss m))
                      (last (om_upto ss m) # om_above ss m)
               else alloc_scan ss se len al [] (om_above ss m)) of
      None \<Rightarrow> \<forall>a. \<not> fits ss se len al (fl_cover m) a
    | Some (p, before, r, after) \<Rightarrow> m = before @ r # after \<and> entry_fits ss se len al r p
        \<and> fits ss se len al (fl_cover m) p
        \<and> (\<forall>a. fits ss se len al (fl_cover m) a \<longrightarrow> p \<le> a)"
proof -
  obtain pre rest where split: "m = pre @ rest"
    and eq: "(if om_upto ss m \<noteq> []
               then alloc_scan ss se len al (butlast (om_upto ss m))
                      (last (om_upto ss m) # om_above ss m)
               else alloc_scan ss se len al [] (om_above ss m)) = alloc_scan ss se len al pre rest"
    and early: "\<forall>r\<in>set pre. fst r + snd r \<le> ss"
  proof (cases "om_upto ss m = []")
    case True
    then have "om_above ss m = m" using om_upto_above [of ss m] by simp
    then show thesis using True that [of "[]" m] by simp
  next
    case False
    then have m: "m = butlast (om_upto ss m) @ last (om_upto ss m) # om_above ss m"
      by (metis append.assoc append_Cons append_butlast_last_id om_upto_above self_append_conv2)
    have le: "fst (last (om_upto ss m)) \<le> ss"
      using False om_upto_le [of "last (om_upto ss m)" ss m] by simp
    have "separated (map fb (butlast (om_upto ss m) @ last (om_upto ss m) # om_above ss m))"
      using assms(1) m by (simp add: fl_wf_def)
    then have "\<forall>r\<in>set (butlast (om_upto ss m)). fst r + snd r < fst (last (om_upto ss m))"
      by (auto simp: separated_append separated_Cons)
    then have "\<forall>r\<in>set (butlast (om_upto ss m)). fst r + snd r \<le> ss"
      using le by (meson less_imp_le order_trans)
    then show thesis using False m that by presburger
  qed
  have wf: "fl_wf rest"
    using assms(1) split by (auto simp: fl_wf_def separated_append)
  have none: "\<not> entry_fits ss se len al r a" if "r \<in> set pre" for r a
    using early that assms(4) by (fastforce simp: entry_fits_def)
  have iff: "fits ss se len al (fl_cover m) a \<longleftrightarrow> (\<exists>r\<in>set rest. entry_fits ss se len al r a)" for a
    using fits_entry [OF assms(1,4)] none split by auto
  note scan = alloc_scan_spec [OF wf assms(2-4), of al pre]
  show ?thesis
    unfolding eq
  proof (cases "alloc_scan ss se len al pre rest")
    case None
    then show "case alloc_scan ss se len al pre rest of
      None \<Rightarrow> \<forall>a. \<not> fits ss se len al (fl_cover m) a
    | Some (p, before, r, after) \<Rightarrow> m = before @ r # after \<and> entry_fits ss se len al r p
        \<and> fits ss se len al (fl_cover m) p
        \<and> (\<forall>a. fits ss se len al (fl_cover m) a \<longrightarrow> p \<le> a)"
      using scan iff by auto
  next
    case (Some res)
    obtain p before r after where res: "res = (p, before, r, after)" by (metis prod_cases4)
    then have s: "m = before @ r # after" "entry_fits ss se len al r p"
      "\<forall>x\<in>set rest. \<forall>q. entry_fits ss se len al x q \<longrightarrow> p \<le> q"
      using scan Some split by auto
    then have "fits ss se len al (fl_cover m) p" using fits_entry [OF assms(1,4)] by auto
    then show "case alloc_scan ss se len al pre rest of
      None \<Rightarrow> \<forall>a. \<not> fits ss se len al (fl_cover m) a
    | Some (p, before, r, after) \<Rightarrow> m = before @ r # after \<and> entry_fits ss se len al r p
        \<and> fits ss se len al (fl_cover m) p
        \<and> (\<forall>a. fits ss se len al (fl_cover m) a \<longrightarrow> p \<le> a)"
      using Some res s iff by auto
  qed
qed

lemma PM_Alloc_spec:
  assumes "pm_inv pm" and "0 < len"
  obtains (none) "PM_Alloc ss se len al t pool pm = Inr (None, pm)"
      and "\<forall>a. \<not> fits ss (min se PhysicalSize) len al (free_memory pm) a"
  | (some) p pm' where "PM_Alloc ss se len al t pool pm = Inr (Some p, pm')"
      and "fits ss (min se PhysicalSize) len al (free_memory pm) p"
      and "\<forall>a. fits ss (min se PhysicalSize) len al (free_memory pm) a \<longrightarrow> p \<le> a"
      and "pm_inv pm'" and "free_memory pm' = free_memory pm - {p ..< p + len}"
      and "allocated pm' = allocated pm \<union> {p ..< p + len}"
      and "pm_mappings pm' = pm_mappings pm"
proof -
  let ?se = "min se PhysicalSize" and ?m = "pm_free pm"
  note inv = pm_invD [OF assms(1)]
  have se64: "?se < U64" using PhysicalSize_in64 by simp
  show thesis
  proof (cases "ss < ?se")
    case False
    then have "?se \<le> ss" by (rule leI)
    then have "PM_Alloc ss se len al t pool pm = Inr (None, pm)"
      unfolding PM_Alloc_def Let_def by (rule if_P)
    moreover have "\<not> fits ss ?se len al (free_memory pm) a" for a
      using False assms(2) by (auto simp: fits_def)
    ultimately show thesis by (intro none) auto
  next
    case True
    obtain found where found: "found = (if om_upto ss ?m \<noteq> []
               then alloc_scan ss ?se len al (butlast (om_upto ss ?m))
                      (last (om_upto ss ?m) # om_above ss ?m)
               else alloc_scan ss ?se len al [] (om_above ss ?m))" by simp
    note search = alloc_search [OF inv(1) True se64 assms(2), of al, folded found]
    have nle: "\<not> ?se \<le> ss" using True by (simp only: not_le not_False_eq_True)
    have run: "PM_Alloc ss se len al t pool pm = (case found of
         None \<Rightarrow> Inr (None, pm)
       | Some (free_pos, before, r, after) \<Rightarrow>
           if free_pos \<in> fst ` set (pm_physical pm)
           then Inl (Exit ''!m_physical.emplace(b.start_addr, b).second'')
           else Inr (Some free_pos,
             pm\<lparr>pm_free := ConsumeFreeRange before r after free_pos len,
                pm_physical := om_emplace (free_pos, new_block free_pos len t pool)
                  (pm_physical pm)\<rparr>))"
      unfolding PM_Alloc_def Let_def found by (simp only: nle if_False)
    show thesis
    proof (cases found)
      case None
      then have "PM_Alloc ss se len al t pool pm = Inr (None, pm)"
        using run by (simp only: option.case)
      then show thesis using None search by (intro none) (simp_all add: free_memory_def)
    next
      case (Some res)
      obtain p before r after where res: "res = (p, before, r, after)" by (metis prod_cases4)
      have "?m = before @ r # after \<and> entry_fits ss ?se len al r p
          \<and> fits ss ?se len al (fl_cover ?m) p
          \<and> (\<forall>a. fits ss ?se len al (fl_cover ?m) a \<longrightarrow> p \<le> a)"
        using search unfolding Some res option.case prod.case .
      then have "?m = before @ r # after" "entry_fits ss ?se len al r p"
        "fits ss ?se len al (free_memory pm) p"
        "\<forall>a. fits ss ?se len al (free_memory pm) a \<longrightarrow> p \<le> a"
        unfolding free_memory_def by blast+
      note m = this(1) and fit = this(2) and fp = this(3) and least = this(4)
      have sub: "{p ..< p + len} \<subseteq> free_memory pm" and top: "p + len \<le> PhysicalSize"
        using fp by (auto simp: fits_def)
      have "{p ..< p + len} \<inter> spans (map bb (pm_physical pm)) = {}"
        using sub inv(3) by (auto simp: allocated_def)
      note ins = blocks_insert [OF inv(2) assms(2) top this]
      have wf: "fl_wf (before @ r # after)" using inv(1) m by simp
      have cf: "fl_wf (ConsumeFreeRange before r after p len)"
        "fl_cover (ConsumeFreeRange before r after p len) = free_memory pm - {p ..< p + len}"
        using ConsumeFreeRange_spec [OF wf, of p "p + len"] fit assms(2) m
        by (simp_all add: entry_fits_def free_memory_def)
      obtain pm' where pm': "pm' = pm\<lparr>pm_free := ConsumeFreeRange before r after p len,
          pm_physical := om_emplace (p, new_block p len t pool) (pm_physical pm)\<rparr>" by simp
      have eq: "PM_Alloc ss se len al t pool pm = Inr (Some p, pm')"
        unfolding run Some res option.case prod.case pm' using ins(1) by (simp only: if_False)
      have f': "free_memory pm' = free_memory pm - {p ..< p + len}"
        and a': "allocated pm' = allocated pm \<union> {p ..< p + len}"
        using cf(2) ins(3) pm' by (simp_all add: free_memory_def allocated_def)
      have "pm_inv pm'"
        unfolding pm_inv_def f' a' using cf(1) ins(2) pm' inv(3,4) sub by auto
      then show thesis using some [OF eq fp least _ f' a'] pm' by simp
    qed
  qed
qed

section \<open>Release\<close>

text \<open>Whether \<open>[start, start + len)\<close> lies in one allocated block that the pool does not own.\<close>

definition releasable :: "nat \<Rightarrow> nat \<Rightarrow> physical_memory \<Rightarrow> bool" where
  "releasable start len pm \<longleftrightarrow> (\<exists>e\<in>set (pm_physical pm). \<not> a_pool_expansion (snd e)
     \<and> a_start (snd e) \<le> start \<and> start + len \<le> a_start (snd e) + a_size (snd e))"

text \<open>What is left of a block when a part of it is released.\<close>

definition remains :: "nat \<Rightarrow> nat \<Rightarrow> allocated_block \<Rightarrow> (nat \<times> allocated_block) list" where
  "remains start len b =
     (if a_start b < start then [(a_start b, b\<lparr>a_size := start - a_start b\<rparr>)] else [])
     @ (if start + len < a_start b + a_size b
        then [(start + len, b\<lparr>a_start := start + len,
                              a_size := a_start b + a_size b - (start + len)\<rparr>)] else [])"

lemma releasable_last:
  assumes "pm_inv pm" and "0 < len" and "releasable start len pm"
  shows "om_upto start (pm_physical pm) \<noteq> []"
    and "\<not> a_pool_expansion (snd (last (om_upto start (pm_physical pm))))"
    and "a_start (snd (last (om_upto start (pm_physical pm)))) \<le> start"
    and "start + len \<le> a_start (snd (last (om_upto start (pm_physical pm))))
      + a_size (snd (last (om_upto start (pm_physical pm))))"
proof -
  obtain e where e: "e \<in> set (pm_physical pm)" "\<not> a_pool_expansion (snd e)"
    "a_start (snd e) \<le> start" "start + len \<le> a_start (snd e) + a_size (snd e)"
    using assms(3) by (auto simp: releasable_def)
  note blk = block_at [OF pm_invD(2) [OF assms(1)] e(1,3)]
  then show "om_upto start (pm_physical pm) \<noteq> []"
    "\<not> a_pool_expansion (snd (last (om_upto start (pm_physical pm))))"
    "a_start (snd (last (om_upto start (pm_physical pm)))) \<le> start"
    "start + len \<le> a_start (snd (last (om_upto start (pm_physical pm))))
      + a_size (snd (last (om_upto start (pm_physical pm))))"
    using e assms(2) by simp_all
qed

text \<open>The test of \<open>Release\<close>, \<open>Map\<close> and \<open>CanMapDirect\<close> decides \<open>releasable\<close>.\<close>

lemma block_test:
  assumes "pm_inv pm" and "0 < len"
  shows "(om_upto start (pm_physical pm) \<noteq> []
      \<and> (let b = snd (last (om_upto start (pm_physical pm)))
         in \<not> (a_pool_expansion b \<or> start < a_start b \<or> start \<ge> block_end b
               \<or> len > sub64 (block_end b) start)))
    \<longleftrightarrow> releasable start len pm" (is "?L \<longleftrightarrow> ?R")
proof -
  let ?u = "om_upto start (pm_physical pm)" and ?b = "snd (last (om_upto start (pm_physical pm)))"
  note wf = pm_invD(2) [OF assms(1)]
  have ends: "block_end ?b = a_start ?b + a_size ?b" "a_start ?b + a_size ?b < U64" if "?u \<noteq> []"
  proof -
    have "a_start ?b + a_size ?b \<le> PhysicalSize"
      using wf block_split(2) [OF that] by (simp add: blocks_wf_def)
    then show "a_start ?b + a_size ?b < U64" using PhysicalSize_in64 by simp
    then show "block_end ?b = a_start ?b + a_size ?b" by (simp add: block_end_def arith64)
  qed
  show ?thesis
  proof
    assume L: ?L
    then have ne: "?u \<noteq> []" by simp
    have "start < block_end ?b" "\<not> len > sub64 (block_end ?b) start" "a_start ?b \<le> start"
      "\<not> a_pool_expansion ?b"
      using L by (auto simp: Let_def)
    moreover from this have "sub64 (block_end ?b) start = block_end ?b - start"
      using ends [OF ne] by (intro sub64_exact) auto
    ultimately show ?R
      using ends [OF ne] block_split(2) [OF ne] unfolding releasable_def by fastforce
  next
    assume ?R
    note last = releasable_last [OF assms this]
    note e = ends [OF last(1)]
    have "sub64 (block_end ?b) start = block_end ?b - start"
      using e last by (intro sub64_exact) auto
    then show ?L using last e assms(2) by (simp add: Let_def)
  qed
qed

lemma Release_cases:
  assumes "pm_inv pm" and "0 < len"
  shows "PM_Release start len pm =
    (if releasable start len pm
     then (Some (0, 0, GpuNoAccess),
       pm\<lparr>pm_physical := butlast (om_upto start (pm_physical pm))
            @ remains start len (snd (last (om_upto start (pm_physical pm))))
            @ om_above start (pm_physical pm),
          pm_free := AddFreeRange start len (pm_free pm)\<rparr>)
     else (None, pm))"
proof (cases "releasable start len pm")
  case False
  then have "\<not> (om_upto start (pm_physical pm) \<noteq> []
      \<and> (let b = snd (last (om_upto start (pm_physical pm)))
         in \<not> (a_pool_expansion b \<or> start < a_start b \<or> start \<ge> block_end b
               \<or> len > sub64 (block_end b) start)))"
    using block_test [OF assms] by blast
  then show ?thesis using False unfolding PM_Release_def Let_def by auto
next
  case True
  let ?u = "om_upto start (pm_physical pm)" and ?a = "om_above start (pm_physical pm)"
  obtain k b where kb: "last ?u = (k, b)" by fastforce
  note last = releasable_last [OF assms True, unfolded kb snd_conv]
  note wf = pm_invD(2) [OF assms(1)]
  have mem: "(k, b) \<in> set (pm_physical pm)" using block_split(2) [OF last(1)] kb by simp
  then have b: "k = a_start b" "a_start b + a_size b \<le> PhysicalSize" "a_map_vaddr b = 0"
    "a_map_size b = 0" "a_gpu_mode b = GpuNoAccess"
    using wf by (auto simp: blocks_wf_def)
  have e: "block_end b = a_start b + a_size b" and b64: "a_start b + a_size b < U64"
    using b(2) PhysicalSize_in64 by (simp_all add: block_end_def arith64)
  have test: "\<not> (a_pool_expansion b \<or> start < a_start b \<or> start \<ge> block_end b
      \<or> len > sub64 (block_end b) start)"
    using block_test [OF assms, of start] True kb by (simp add: Let_def)
  have sl: "add64 start len = start + len" using last b64 by (simp add: arith64)
  have split: "butlast ?u @ (k, b) # ?a = pm_physical pm"
    using block_split(1) [OF last(1)] kb by simp
  have ch: "chained (map bb (butlast ?u @ (k, b) # ?a))" using wf by (simp add: split blocks_wf_def)
  have keys: "\<forall>e\<in>set (butlast ?u) \<union> set ?a. fst e = a_start (snd e)"
    using wf split unfolding blocks_wf_def by (metis Un_iff in_set_conv_decomp list.set_intros(2) set_append)
  have lo: "\<forall>e\<in>set (butlast ?u). fst e < a_start b"
  proof
    fix e assume e: "e \<in> set (butlast ?u)"
    then have "a_start (snd e) + a_size (snd e) \<le> a_start b" "0 < a_size (snd e)"
      using ch by (auto simp: chained_append chained_Cons) (auto simp: chained_def)
    then show "fst e < a_start b" using keys e by (metis UnI1 add_leD1 less_add_same_cancel1
        less_le_trans)
  qed
  have hi: "\<forall>e\<in>set ?a. a_start b + a_size b \<le> fst e"
    using ch keys by (auto simp: chained_append chained_Cons)
  show ?thesis
  proof -
    consider (whole) "start = a_start b" "len = a_size b"
      | (middle) "start > a_start b" "start + len < a_start b + a_size b"
      | (head) "start = a_start b" "len < a_size b"
      | (tail) "start > a_start b" "start + len = a_start b + a_size b"
      using last by linarith
    then show ?thesis
    proof cases
      case whole
      then show ?thesis
        using True last(1) kb test b by (simp add: PM_Release_def Let_def remains_def)
    next
      case middle
      have "\<forall>e\<in>set (butlast ?u @ [(k, b\<lparr>a_size := start - a_start b\<rparr>)]). fst e < start + len"
        using lo middle b(1) by fastforce
      moreover have "\<forall>e\<in>set ?a. start + len < fst e" using hi middle by fastforce
      ultimately have em: "om_emplace (start + len, v)
          ((butlast ?u @ [(k, b\<lparr>a_size := start - a_start b\<rparr>)]) @ ?a)
        = (butlast ?u @ [(k, b\<lparr>a_size := start - a_start b\<rparr>)]) @ (start + len, v) # ?a" for v
        by (rule om_emplace_between)
      have "sub64 (block_end b) (start + len) = a_start b + a_size b - (start + len)"
        "sub64 start (a_start b) = start - a_start b"
        using middle e b64 by (auto intro!: sub64_exact)
      then show ?thesis
        using True last(1) kb test b middle e sl em by (simp add: PM_Release_def Let_def remains_def)
    next
      case head
      have "\<forall>e\<in>set (butlast ?u). fst e < start + len" using lo head by fastforce
      moreover have "\<forall>e\<in>set ?a. start + len < fst e" using hi head by fastforce
      ultimately have em: "om_emplace (start + len, v) (butlast ?u @ ?a)
        = butlast ?u @ (start + len, v) # ?a" for v
        by (rule om_emplace_between)
      have "sub64 (a_size b) len = a_start b + a_size b - (start + len)"
        using head b64 by (subst sub64_exact) auto
      then show ?thesis
        using True last(1) kb test b head e sl em by (simp add: PM_Release_def Let_def remains_def)
    next
      case tail
      have "sub64 start (a_start b) = start - a_start b"
        using tail b64 by (auto intro!: sub64_exact)
      then show ?thesis
        using True last(1) kb test b tail e sl by (simp add: PM_Release_def Let_def remains_def)
    qed
  qed
qed

lemma remains_spec:
  assumes "a_start b \<le> start" and "0 < len" and "start + len \<le> a_start b + a_size b"
  shows "chained (map bb (remains start len b))"
    and "spans (map bb (remains start len b))
      = {a_start b ..< a_start b + a_size b} - {start ..< start + len}"
    and "\<forall>p\<in>set (map bb (remains start len b)).
      a_start b \<le> fst p \<and> snd p \<le> a_start b + a_size b"
  using assms by (auto simp: remains_def chained_Cons bb_def)

lemma freed_spec:
  assumes "pm_inv pm" and "0 < len" and "{start ..< start + len} \<subseteq> allocated pm"
  shows "fl_wf (AddFreeRange start len (pm_free pm))"
    and "fl_cover (AddFreeRange start len (pm_free pm)) = free_memory pm \<union> {start ..< start + len}"
proof -
  have "start + len - 1 \<in> {start ..< start + len}" using assms(2) by auto
  then have "start + len - 1 \<in> {0 ..< PhysicalSize}"
    using assms(3) pm_invD(4) [OF assms(1)] by blast
  then have ok: "fl_ok start (start + len)"
    using assms(2) PhysicalSize_in64 by (simp add: fl_ok_def)
  then show "fl_wf (AddFreeRange start len (pm_free pm))"
    "fl_cover (AddFreeRange start len (pm_free pm)) = free_memory pm \<union> {start ..< start + len}"
    using AddFreeRange_spec [OF pm_invD(1) [OF assms(1)] ok] by (simp_all add: free_memory_def)
qed

lemma PM_Release_spec:
  assumes "pm_inv pm" and "0 < len" and "releasable start len pm"
    and "PM_Release start len pm = (out, pm')"
  shows "out = Some (0, 0, GpuNoAccess) \<and> pm_inv pm'
    \<and> free_memory pm' = free_memory pm \<union> {start ..< start + len}
    \<and> allocated pm' = allocated pm - {start ..< start + len}
    \<and> {start ..< start + len} \<subseteq> allocated pm \<and> pm_mappings pm' = pm_mappings pm"
proof -
  let ?u = "om_upto start (pm_physical pm)" and ?a = "om_above start (pm_physical pm)"
  obtain k b where kb: "last ?u = (k, b)" by fastforce
  note last = releasable_last [OF assms(1-3), unfolded kb snd_conv]
  note inv = pm_invD [OF assms(1)]
  obtain ps where ps: "ps = remains start len b" by simp
  have split: "butlast ?u @ (k, b) # ?a = pm_physical pm"
    using block_split(1) [OF last(1)] kb by simp
  have res: "out = Some (0, 0, GpuNoAccess)"
    "pm' = pm\<lparr>pm_physical := butlast ?u @ ps @ ?a, pm_free := AddFreeRange start len (pm_free pm)\<rparr>"
    using assms(3,4) Release_cases [OF assms(1,2), of start] kb ps by auto
  have ch: "chained (map bb (butlast ?u) @ bb (k, b) # map bb ?a)"
    using inv(2) split by (metis blocks_wf_def list.simps(9) map_append)
  note rem = remains_spec [OF last(3) assms(2) last(4), folded ps]
  have in3: "\<forall>p\<in>set (map bb ps). fst (bb (k, b)) \<le> fst p \<and> snd p \<le> snd (bb (k, b))"
    using rem(3) by (simp only: bb_simps snd_conv)
  note rep = chained_replace [OF ch rem(1) in3]
  have sub: "{start ..< start + len} \<subseteq> allocated pm"
  proof -
    have "{start ..< start + len} \<subseteq> span (bb (k, b))" using last by (auto simp: bb_def)
    moreover have "allocated pm = spans (map bb (butlast ?u @ (k, b) # ?a))"
      by (simp only: split allocated_def)
    ultimately show ?thesis by auto
  qed
  have alloc: "allocated pm' = allocated pm - {start ..< start + len}"
  proof -
    have "span (bb (k, b)) - spans (map bb ps) = {start ..< start + len}"
    proof -
      have "{start ..< start + len} \<subseteq> {a_start b ..< a_start b + a_size b}"
        using last(3,4) by (intro ivl_subset [THEN iffD2]) simp
      moreover have "span (bb (k, b)) = {a_start b ..< a_start b + a_size b}" by (simp add: bb_def)
      ultimately show ?thesis by (simp only: rem(2) double_diff subset_refl)
    qed
    moreover have "allocated pm' = spans (map bb (butlast ?u) @ map bb ps @ map bb ?a)"
      using res(2) by (simp add: allocated_def)
    moreover have "allocated pm = spans (map bb (butlast ?u) @ bb (k, b) # map bb ?a)"
      using arg_cong [OF split, of "\<lambda>m. spans (map bb m)"] by (simp add: allocated_def)
    ultimately show ?thesis by (simp only: rep(2))
  qed
  note free = freed_spec [OF assms(1,2) sub]
  have f': "free_memory pm' = free_memory pm \<union> {start ..< start + len}"
    using free(2) res(2) by (simp add: free_memory_def)
  have ent: "\<forall>e\<in>set (butlast ?u @ (k, b) # ?a). fst e = a_start (snd e)
      \<and> a_start (snd e) + a_size (snd e) \<le> PhysicalSize \<and> a_map_vaddr (snd e) = 0
      \<and> a_map_size (snd e) = 0 \<and> a_gpu_mode (snd e) = GpuNoAccess"
    using inv(2) unfolding split blocks_wf_def by blast
  have "blocks_wf (butlast ?u @ ps @ ?a)"
    unfolding blocks_wf_def
  proof
    show "chained (map bb (butlast ?u @ ps @ ?a))" using rep(1) by simp
    show "\<forall>e\<in>set (butlast ?u @ ps @ ?a). fst e = a_start (snd e)
        \<and> a_start (snd e) + a_size (snd e) \<le> PhysicalSize \<and> a_map_vaddr (snd e) = 0
        \<and> a_map_size (snd e) = 0 \<and> a_gpu_mode (snd e) = GpuNoAccess"
      using ent last by (auto simp: ps remains_def)
  qed
  then have "pm_inv pm'"
    unfolding pm_inv_def f' alloc using free(1) res(2) inv(3,4) sub by auto
  then show ?thesis using res f' alloc sub by simp
qed

lemma PM_Release_fails:
  assumes "pm_inv pm" and "0 < len" and "\<not> releasable start len pm"
  shows "PM_Release start len pm = (None, pm)"
  using Release_cases [OF assms(1,2)] assms(3) by simp

lemma filter_key_split:
  assumes "keys_sorted (pre @ (k, b) # post)"
  shows "filter (\<lambda>e. fst e \<noteq> k) (pre @ (k, b) # post) = pre @ post"
proof -
  have "filter (\<lambda>e. fst e \<noteq> k) pre = pre" "filter (\<lambda>e. fst e \<noteq> k) post = post"
    using assms by (auto simp: sorted_wrt_append filter_id_conv)
  then show ?thesis by simp
qed

lemma PM_ReleasePoolExpansion_spec:
  assumes "pm_inv pm" and "PM_ReleasePoolExpansion start len pm = (ok, pm')"
  shows "pm_inv pm' \<and> (ok \<longrightarrow> free_memory pm' = free_memory pm \<union> {start ..< start + len}
      \<and> allocated pm' = allocated pm - {start ..< start + len} \<and> 0 < len)
    \<and> (\<not> ok \<longrightarrow> pm' = pm) \<and> pm_mappings pm' = pm_mappings pm"
proof (cases ok)
  case False
  then have "pm' = pm"
    using assms(2) by (auto simp: PM_ReleasePoolExpansion_def split: option.splits if_splits)
  then show ?thesis using False assms(1) by simp
next
  case True
  note inv = pm_invD [OF assms(1)]
  obtain b where b: "map_of (pm_physical pm) start = Some b" "a_size b = len"
    and pm': "pm' = pm\<lparr>pm_physical := filter (\<lambda>e. fst e \<noteq> start) (pm_physical pm),
        pm_free := AddFreeRange start len (pm_free pm)\<rparr>"
    using assms(2) True
    by (auto simp: PM_ReleasePoolExpansion_def split: option.splits if_splits)
  then have mem: "(start, b) \<in> set (pm_physical pm)" by (simp add: map_of_SomeD)
  then obtain pre post where split: "pm_physical pm = pre @ (start, b) # post"
    by (metis split_list)
  have wf: "blocks_wf (pre @ (start, b) # post)" using inv(2) split by simp
  have filt: "filter (\<lambda>e. fst e \<noteq> start) (pm_physical pm) = pre @ post"
    unfolding split by (rule filter_key_split [OF blocks_keys_sorted [OF wf]])
  have sb: "a_start b = start" and len: "0 < len"
    using wf b(2) by (auto simp: blocks_wf_def chained_append chained_Cons)
  have spn: "span (bb (start, b)) = {start ..< start + len}" using sb b(2) by (simp add: bb_def)
  have ch: "chained (map bb pre @ bb (start, b) # map bb post)"
    using wf unfolding blocks_wf_def map_append list.map by blast
  have rep: "chained (map bb pre @ map bb post)"
    "spans (map bb pre @ map bb post)
      = spans (map bb pre @ bb (start, b) # map bb post) - {start ..< start + len}"
    using chained_replace [OF ch, of "[]"] spn by simp_all
  have alloc: "allocated pm = spans (map bb pre @ bb (start, b) # map bb post)"
    by (simp add: allocated_def split)
  then have sub: "{start ..< start + len} \<subseteq> allocated pm" using spn by auto
  note free = freed_spec [OF assms(1) len sub]
  have f': "free_memory pm' = free_memory pm \<union> {start ..< start + len}"
    using free(2) pm' by (simp add: free_memory_def)
  have "allocated pm' = spans (map bb pre @ map bb post)"
    unfolding allocated_def pm' by (simp add: filt)
  then have a': "allocated pm' = allocated pm - {start ..< start + len}"
    by (simp only: rep(2) alloc)
  have "blocks_wf (pre @ post)" using wf rep(1) by (auto simp: blocks_wf_def)
  then have "pm_inv pm'"
    unfolding pm_inv_def f' a' using free(1) pm' filt inv(3,4) sub by auto
  then show ?thesis using True f' a' len pm' by simp
qed

section \<open>Runs\<close>

datatype pm_op =
    PAlloc nat nat nat nat int bool
  | PRelease nat nat
  | PReleasePool nat nat
  | PMap nat nat nat prot vm_mode gpu_access_mode
  | PUnmap nat nat
  | PName nat nat "string option"
  | PMemoryType nat nat int

fun pm_step :: "pm_op \<Rightarrow> physical_memory \<Rightarrow> exit_reason + physical_memory" where
  "pm_step (PAlloc ss se len al t pool) pm =
     bindR (PM_Alloc ss se len al t pool pm) (\<lambda>r. Inr (snd r))"
| "pm_step (PRelease start len) pm = Inr (snd (PM_Release start len pm))"
| "pm_step (PReleasePool start len) pm = Inr (snd (PM_ReleasePoolExpansion start len pm))"
| "pm_step (PMap vaddr start len p m g) pm = Inr (snd (PM_Map vaddr start len p m g pm))"
| "pm_step (PUnmap vaddr n) pm = Inr (snd (PM_Unmap vaddr n pm))"
| "pm_step (PName vaddr n name) pm = Inr (PM_SetVirtualRangeName vaddr n name pm)"
| "pm_step (PMemoryType vaddr n t) pm = Inr (PM_SetVirtualRangeMemoryType vaddr n t pm)"

fun pm_run :: "pm_op list \<Rightarrow> physical_memory \<Rightarrow> exit_reason + physical_memory" where
  "pm_run [] pm = Inr pm"
| "pm_run (x # xs) pm = bindR (pm_step x pm) (pm_run xs)"

text \<open>The system calls reject a length of 0 before they reach \<open>Alloc\<close> and \<open>Release\<close>.\<close>

fun pm_op_ok :: "pm_op \<Rightarrow> bool" where
  "pm_op_ok (PAlloc ss se len al t pool) = (0 < len)"
| "pm_op_ok (PRelease start len) = (0 < len)"
| "pm_op_ok _ = True"

lemma pm_inv_mappings:
  "pm_physical pm' = pm_physical pm \<Longrightarrow> pm_free pm' = pm_free pm \<Longrightarrow> pm_inv pm' = pm_inv pm"
  by (simp add: pm_inv_def free_memory_def allocated_def)

lemma mapping_ops_keep:
  "pm_physical (snd (PM_Map vaddr start len p m g pm)) = pm_physical pm"
  "pm_free (snd (PM_Map vaddr start len p m g pm)) = pm_free pm"
  "pm_physical (snd (PM_Unmap vaddr n pm)) = pm_physical pm"
  "pm_free (snd (PM_Unmap vaddr n pm)) = pm_free pm"
  by (auto simp: PM_Map_def PM_Unmap_def Let_def split: option.splits prod.splits)

lemma pm_step_inv:
  assumes "pm_inv pm" and "pm_op_ok x"
  shows "\<exists>pm'. pm_step x pm = Inr pm' \<and> pm_inv pm'"
proof (cases x)
  case (PAlloc ss se len al t pool)
  then have "0 < len" using assms(2) by simp
  then show ?thesis
    using PM_Alloc_spec [OF assms(1), of len ss se al t pool] assms(1) PAlloc
    by (metis bindR.simps(2) pm_step.simps(1) snd_conv)
next
  case (PRelease start len)
  then have "0 < len" using assms(2) by simp
  obtain out pm' where "PM_Release start len pm = (out, pm')" by fastforce
  then show ?thesis
    using PM_Release_spec [OF assms(1) \<open>0 < len\<close>] PM_Release_fails [OF assms(1) \<open>0 < len\<close>]
      assms(1) PRelease
    by (cases "releasable start len pm") auto
next
  case (PReleasePool start len)
  obtain ok pm' where "PM_ReleasePoolExpansion start len pm = (ok, pm')" by fastforce
  then show ?thesis
    using PM_ReleasePoolExpansion_spec [OF assms(1)] PReleasePool by auto
next
  case (PMap vaddr start len p m g)
  have "pm_inv (snd (PM_Map vaddr start len p m g pm))"
    using assms(1) pm_inv_mappings [OF mapping_ops_keep(1,2)] by blast
  with PMap show ?thesis by simp
next
  case (PUnmap vaddr n)
  have "pm_inv (snd (PM_Unmap vaddr n pm))"
    using assms(1) pm_inv_mappings [OF mapping_ops_keep(3,4)] by blast
  with PUnmap show ?thesis by simp
next
  case (PName vaddr n name)
  then show ?thesis
    using assms(1) pm_inv_mappings [of "PM_SetVirtualRangeName vaddr n name pm" pm]
    by (simp add: PM_SetVirtualRangeName_def)
next
  case (PMemoryType vaddr n t)
  then show ?thesis
    using assms(1) pm_inv_mappings [of "PM_SetVirtualRangeMemoryType vaddr n t pm" pm]
    by (simp add: PM_SetVirtualRangeMemoryType_def)
qed

lemma pm_run_inv:
  "pm_inv pm \<Longrightarrow> \<forall>x\<in>set xs. pm_op_ok x \<Longrightarrow> \<exists>pm'. pm_run xs pm = Inr pm' \<and> pm_inv pm'"
proof (induction xs arbitrary: pm)
  case (Cons x xs)
  obtain mid where "pm_step x pm = Inr mid" "pm_inv mid"
    using pm_step_inv [OF Cons.prems(1)] Cons.prems(2) by auto
  then show ?case using Cons.IH [of mid] Cons.prems(2) by auto
qed simp

section \<open>Properties\<close>

text \<open>
  C2. Whatever the operations, the direct memory allocator never reaches its fatal exit,
  and its free list and its allocated blocks partition the 13824 MiB of direct memory: no
  byte is free and allocated, no byte is lost.
\<close>

theorem direct_memory_partition:
  assumes "\<forall>x\<in>set xs. pm_op_ok x"
  shows "\<exists>pm. pm_run xs PM_init = Inr pm \<and> free_memory pm \<inter> allocated pm = {}
    \<and> free_memory pm \<union> allocated pm = {0 ..< PhysicalSize}"
  using pm_run_inv [OF pm_inv_init assms] by (auto simp: pm_inv_def)

theorem direct_memory_partition_witness:
  "\<exists>pm. pm_run [PAlloc 0 PhysicalSize 65536 16384 0 False, PRelease 16384 16384] PM_init = Inr pm
     \<and> free_memory pm \<union> allocated pm = {0 ..< PhysicalSize}"
proof -
  have "\<forall>x\<in>set [PAlloc 0 PhysicalSize 65536 16384 0 False, PRelease 16384 16384]. pm_op_ok x"
    by simp
  from direct_memory_partition [OF this] show ?thesis by blast
qed

text \<open>
  C33. \<open>Alloc\<close> is first fit: it fails only when no aligned position in the search window has
  \<open>len\<close> free bytes, and otherwise takes the lowest such position, moves exactly those bytes
  from the free list to a new block and leaves the mappings alone.
\<close>

theorem direct_alloc_first_fit:
  assumes "\<forall>x\<in>set xs. pm_op_ok x" and "pm_run xs PM_init = Inr pm" and "0 < len"
    and "PM_Alloc search_start search_end len alignment memory_type pool pm = Inr (r, pm')"
  shows "case r of
      None \<Rightarrow> pm' = pm
        \<and> (\<forall>a. \<not> fits search_start (min search_end PhysicalSize) len alignment (free_memory pm) a)
    | Some p \<Rightarrow> fits search_start (min search_end PhysicalSize) len alignment (free_memory pm) p
        \<and> (\<forall>a<p. \<not> fits search_start (min search_end PhysicalSize) len alignment (free_memory pm) a)
        \<and> free_memory pm' = free_memory pm - {p ..< p + len}
        \<and> allocated pm' = allocated pm \<union> {p ..< p + len} \<and> pm_mappings pm' = pm_mappings pm"
proof -
  have "pm_inv pm" using pm_run_inv [OF pm_inv_init assms(1)] assms(2) by auto
  then show ?thesis
  proof (rule PM_Alloc_spec [OF _ assms(3), of pm search_start search_end alignment memory_type pool])
    fix p q
    assume "\<forall>a. fits search_start (min search_end PhysicalSize) len alignment (free_memory pm) a
        \<longrightarrow> p \<le> a"
    then have "\<forall>a<p. \<not> fits search_start (min search_end PhysicalSize) len alignment
        (free_memory pm) a" by (meson leD)
    moreover assume "PM_Alloc search_start search_end len alignment memory_type pool pm
        = Inr (Some p, q)"
      "fits search_start (min search_end PhysicalSize) len alignment (free_memory pm) p"
      "free_memory q = free_memory pm - {p ..< p + len}"
      "allocated q = allocated pm \<union> {p ..< p + len}" "pm_mappings q = pm_mappings pm"
    ultimately show ?thesis using assms(4) by simp
  qed (use assms(4) in simp)
qed

theorem direct_alloc_first_fit_witness:
  "\<exists>pm'. PM_Alloc 1 PhysicalSize 65536 16384 0 False PM_init = Inr (Some 16384, pm')
     \<and> free_memory pm' = free_memory PM_init - {16384 ..< 81920}"
proof -
  have ok: "\<forall>x\<in>set []. pm_op_ok x" and run: "pm_run [] PM_init = Inr PM_init" by simp_all
  obtain pm' where alloc: "PM_Alloc 1 PhysicalSize 65536 16384 0 False PM_init = Inr (Some 16384, pm')"
    by (simp add: PM_Alloc_def PM_init_def om_upto_def om_above_def GetAlignedPos_def Let_def
        add64_def sub64_def U64_def PhysicalSize_def)
  from direct_alloc_first_fit [OF ok run _ alloc] show ?thesis using alloc by simp
qed

text \<open>
  \<open>Release\<close> succeeds exactly on a span inside one block that the memory pool does not
  own, and then gives back exactly those bytes and keeps the rest of the block allocated; a
  failed release changes nothing. The virtual extent it reports is always empty.
\<close>

theorem direct_release_exact:
  assumes "\<forall>x\<in>set xs. pm_op_ok x" and "pm_run xs PM_init = Inr pm" and "0 < len"
    and "PM_Release start len pm = (out, pm')"
  shows "if releasable start len pm
    then out = Some (0, 0, GpuNoAccess)
      \<and> free_memory pm' = free_memory pm \<union> {start ..< start + len}
      \<and> allocated pm' = allocated pm - {start ..< start + len}
      \<and> {start ..< start + len} \<subseteq> allocated pm
    else out = None \<and> pm' = pm"
proof -
  have "pm_inv pm" using pm_run_inv [OF pm_inv_init assms(1)] assms(2) by auto
  then show ?thesis
    using PM_Release_spec [OF _ assms(3) _ assms(4)] PM_Release_fails [OF _ assms(3)] assms(4)
    by (cases "releasable start len pm") auto
qed

theorem direct_release_exact_witness:
  "\<exists>pm pm'. pm_run [PAlloc 0 PhysicalSize 65536 16384 0 False] PM_init = Inr pm
     \<and> PM_Release 16384 16384 pm = (Some (0, 0, GpuNoAccess), pm')
     \<and> free_memory pm' = free_memory pm \<union> {16384 ..< 32768}"
proof -
  let ?xs = "[PAlloc 0 PhysicalSize 65536 16384 0 False]"
  let ?pm = "\<lparr>pm_physical = [(0, new_block 0 65536 0 False)], pm_free = [(65536, PhysicalSize - 65536)],
    pm_mappings = []\<rparr>"
  have ok: "\<forall>x\<in>set ?xs. pm_op_ok x" by simp
  have run: "pm_run ?xs PM_init = Inr ?pm"
    by (simp add: PM_Alloc_def PM_init_def om_upto_def om_above_def GetAlignedPos_def Let_def
        ConsumeFreeRange_def add64_def sub64_def U64_def PhysicalSize_def)
  obtain out pm' where rel: "PM_Release 16384 16384 ?pm = (out, pm')" by fastforce
  have "releasable 16384 16384 ?pm" by (simp add: releasable_def new_block_def)
  with direct_release_exact [OF ok run _ rel] show ?thesis using run rel by auto
qed

text \<open>
  Allocation and release are inverse: releasing the block \<open>Alloc\<close> has just returned
  succeeds and leaves the free list exactly as it was before the allocation.
\<close>

theorem direct_alloc_release_roundtrip:
  assumes "\<forall>x\<in>set xs. pm_op_ok x" and "pm_run xs PM_init = Inr pm" and "0 < len"
    and "PM_Alloc search_start search_end len alignment memory_type False pm = Inr (Some p, pm')"
  shows "fst (PM_Release p len pm') \<noteq> None \<and> pm_free (snd (PM_Release p len pm')) = pm_free pm"
proof -
  have inv: "pm_inv pm" using pm_run_inv [OF pm_inv_init assms(1)] assms(2) by auto
  obtain fit: "{p ..< p + len} \<subseteq> free_memory pm" and inv': "pm_inv pm'"
    and free': "free_memory pm' = free_memory pm - {p ..< p + len}"
    by (rule PM_Alloc_spec [OF inv assms(3), of search_start search_end alignment memory_type False])
      (use assms(4) in \<open>auto simp: fits_def\<close>)
  have "(p, new_block p len memory_type False) \<in> set (pm_physical pm')"
    using assms(4) by (auto simp: PM_Alloc_def Let_def set_om_emplace split: if_splits option.splits)
  then have rel: "releasable p len pm'"
    unfolding releasable_def by (intro bexI) (simp_all add: new_block_def)
  obtain out pm'' where res: "PM_Release p len pm' = (out, pm'')" by fastforce
  note spec = PM_Release_spec [OF inv' assms(3) rel res]
  have "fl_cover (pm_free pm'') = fl_cover (pm_free pm)"
    using spec free' fit by (auto simp: free_memory_def)
  then have "pm_free pm'' = pm_free pm"
    using fl.canonical [of "pm_free pm''" "pm_free pm"] spec inv by (simp add: pm_inv_def)
  then show ?thesis using spec res by simp
qed

theorem direct_alloc_release_roundtrip_witness:
  "\<exists>pm'. PM_Alloc 0 PhysicalSize 65536 16384 0 False PM_init = Inr (Some 0, pm')
     \<and> pm_free (snd (PM_Release 0 65536 pm')) = [(0, PhysicalSize)]"
proof -
  have ok: "\<forall>x\<in>set []. pm_op_ok x" and run: "pm_run [] PM_init = Inr PM_init" by simp_all
  obtain pm' where alloc: "PM_Alloc 0 PhysicalSize 65536 16384 0 False PM_init = Inr (Some 0, pm')"
    by (simp add: PM_Alloc_def PM_init_def om_upto_def om_above_def GetAlignedPos_def Let_def
        add64_def sub64_def U64_def PhysicalSize_def)
  from direct_alloc_release_roundtrip [OF ok run _ alloc] show ?thesis
    using alloc by (simp add: PM_init_def)
qed

end
