(* ===== verification/FlexibleMemory.thy ===== *)
theory FlexibleMemory
  imports MemoryProtection
begin

text \<open>
  \<open>class FlexibleMemory\<close> of \<open>gpu/src/kernel/memory.cpp\<close>: the vector of mapped blocks with the
  running total of their sizes. The configured size, the global
  \<open>g_flexible_memory_size\<close>, is an argument of the operations that read it.
\<close>

section \<open>State and operations\<close>

record flex_block =
  f_vaddr :: nat
  f_size :: nat
  f_host_vaddr :: nat
  f_host_size :: nat
  f_prot :: prot
  f_mode :: vm_mode
  f_gpu_mode :: gpu_access_mode
  f_name :: string

record flexible_memory =
  fm_allocated :: "flex_block list"
  fm_total :: nat

definition FM_init :: flexible_memory where
  "FM_init = \<lparr>fm_allocated = [], fm_total = 0\<rparr>"

definition FM_Available :: "nat \<Rightarrow> flexible_memory \<Rightarrow> nat" where
  "FM_Available fsize fm = (if fsize \<ge> fm_total fm then fsize - fm_total fm else 0)"

definition FM_Map :: "nat \<Rightarrow> nat \<Rightarrow> nat \<Rightarrow> prot \<Rightarrow> vm_mode \<Rightarrow> gpu_access_mode \<Rightarrow> string option \<Rightarrow>
    flexible_memory \<Rightarrow> bool \<times> flexible_memory" where
  "FM_Map fsize vaddr len protection mode gpu_mode name fm =
     (let available = (if fsize \<ge> fm_total fm then fsize - fm_total fm else 0)
      in if len = 0 \<or> len > available then (False, fm)
         else (True,
           \<lparr>fm_allocated = fm_allocated fm @
              [\<lparr>f_vaddr = vaddr, f_size = len, f_host_vaddr = vaddr, f_host_size = len,
                f_prot = protection, f_mode = mode, f_gpu_mode = gpu_mode,
                f_name = CopyVirtualRangeName name\<rparr>],
            fm_total = add64 (fm_total fm) len\<rparr>))"

definition f_end :: "flex_block \<Rightarrow> nat" where
  "f_end b = add64 (f_vaddr b) (f_size b)"

text \<open>The loop of \<open>Unmap\<close>, with the blocks it has passed.\<close>

fun flex_unmap_scan :: "nat \<Rightarrow> nat \<Rightarrow> flex_block list \<Rightarrow> flex_block list \<Rightarrow>
    (gpu_access_mode \<times> (nat \<times> nat) option \<times> flex_block list) option" where
  "flex_unmap_scan vaddr n before [] = None"
| "flex_unmap_scan vaddr n before (b # bs) =
     (if f_vaddr b = vaddr \<and> f_size b = n then
        Some (f_gpu_mode b, Some (f_host_vaddr b, f_host_size b), before @ bs)
      else if vaddr > f_vaddr b \<and> add64 vaddr n < f_end b then
        Some (f_gpu_mode b, None,
          before @ b\<lparr>f_size := sub64 vaddr (f_vaddr b)\<rparr> # bs
            @ [b\<lparr>f_size := sub64 (f_end b) (add64 vaddr n), f_vaddr := add64 vaddr n\<rparr>])
      else if vaddr = f_vaddr b \<and> n < f_size b then
        Some (f_gpu_mode b, None,
          before @ b\<lparr>f_vaddr := add64 (f_vaddr b) n, f_size := sub64 (f_size b) n\<rparr> # bs)
      else if vaddr > f_vaddr b \<and> add64 vaddr n = f_end b then
        Some (f_gpu_mode b, None, before @ b\<lparr>f_size := sub64 vaddr (f_vaddr b)\<rparr> # bs)
      else flex_unmap_scan vaddr n (before @ [b]) bs)"

definition flex_host_release :: "(nat \<times> nat) option \<Rightarrow> flex_block list \<Rightarrow> nat" where
  "flex_host_release host bs =
     (case host of None \<Rightarrow> 0
      | Some (v, n) \<Rightarrow>
          if v = 0 \<or> n = 0 \<or> (\<exists>b\<in>set bs. f_host_vaddr b = v \<and> f_host_size b = n) then 0 else v)"

definition FM_Unmap :: "nat \<Rightarrow> nat \<Rightarrow> flexible_memory \<Rightarrow>
    (gpu_access_mode \<times> nat) option \<times> flexible_memory" where
  "FM_Unmap vaddr n fm =
     (case flex_unmap_scan vaddr n [] (fm_allocated fm) of
        None \<Rightarrow> (None, fm)
      | Some (mode, host, bs) \<Rightarrow>
          (Some (mode, flex_host_release host bs),
           \<lparr>fm_allocated = bs, fm_total = sub64 (fm_total fm) n\<rparr>))"

definition FM_Find :: "nat \<Rightarrow> flexible_memory \<Rightarrow>
    (nat \<times> nat \<times> prot \<times> vm_mode \<times> gpu_access_mode) option" where
  "FM_Find vaddr fm =
     map_option (\<lambda>b. (f_vaddr b, f_size b, f_prot b, f_mode b, f_gpu_mode b))
       (find (\<lambda>b. vaddr \<ge> f_vaddr b \<and> vaddr < f_end b) (fm_allocated fm))"

definition FM_SetVirtualRangeName ::
    "nat \<Rightarrow> nat \<Rightarrow> string option \<Rightarrow> flexible_memory \<Rightarrow> flexible_memory" where
  "FM_SetVirtualRangeName vaddr len name fm =
     fm\<lparr>fm_allocated := map (\<lambda>b.
          if VirtualRangesOverlap vaddr len (f_vaddr b) (f_size b)
          then b\<lparr>f_name := CopyVirtualRangeName name\<rparr> else b) (fm_allocated fm)\<rparr>"

section \<open>Invariant\<close>

text \<open>The total is the sum of the block sizes, and no block wraps.\<close>

definition flex_sum :: "flex_block list \<Rightarrow> nat" where
  "flex_sum bs = (\<Sum>b\<leftarrow>bs. f_size b)"

definition flex_ok :: "flex_block \<Rightarrow> bool" where
  "flex_ok b \<longleftrightarrow> 0 < f_size b \<and> f_vaddr b + f_size b < U64"

definition flex_inv :: "nat \<Rightarrow> flexible_memory \<Rightarrow> bool" where
  "flex_inv fsize fm \<longleftrightarrow> (\<forall>b\<in>set (fm_allocated fm). flex_ok b)
     \<and> fm_total fm = flex_sum (fm_allocated fm) \<and> fm_total fm \<le> fsize \<and> fsize < U64"

lemma flex_sum_simps [simp]:
  "flex_sum [] = 0" "flex_sum (b # bs) = f_size b + flex_sum bs"
  "flex_sum (bs @ cs) = flex_sum bs + flex_sum cs"
  by (simp_all add: flex_sum_def)

text \<open>
  The effect of a successful scan: one block that contains the span is replaced by the
  pieces around it.
\<close>

definition flex_pieces :: "nat \<Rightarrow> nat \<Rightarrow> flex_block \<Rightarrow> flex_block list" where
  "flex_pieces vaddr n b =
     (if f_vaddr b < vaddr then [b\<lparr>f_size := vaddr - f_vaddr b\<rparr>] else [])
     @ (if vaddr + n < f_vaddr b + f_size b
        then [b\<lparr>f_vaddr := vaddr + n, f_size := f_vaddr b + f_size b - (vaddr + n)\<rparr>] else [])"

definition flex_contains :: "nat \<Rightarrow> nat \<Rightarrow> flex_block \<Rightarrow> bool" where
  "flex_contains vaddr n b \<longleftrightarrow> f_vaddr b \<le> vaddr \<and> vaddr + n \<le> f_vaddr b + f_size b"

lemma f_end_exact [arith64]: "flex_ok b \<Longrightarrow> f_end b = f_vaddr b + f_size b"
  by (simp add: f_end_def flex_ok_def add64_exact)

lemma flex_unmap_scan_spec:
  assumes "\<forall>b\<in>set bs. flex_ok b" and "vaddr + n < U64" and "0 < n"
  shows "case flex_unmap_scan vaddr n before bs of
      None \<Rightarrow> \<forall>b\<in>set bs. \<not> flex_contains vaddr n b
    | Some (mode, host, out) \<Rightarrow> \<exists>pre b post l r. bs = pre @ b # post \<and> flex_contains vaddr n b
        \<and> mode = f_gpu_mode b \<and> flex_pieces vaddr n b = l @ r
        \<and> out = before @ pre @ l @ post @ r
        \<and> host = (if l @ r = [] then Some (f_host_vaddr b, f_host_size b) else None)"
  using assms(1)
proof (induction bs arbitrary: before)
  case (Cons b bs)
  have ok: "flex_ok b" and b64: "f_vaddr b + f_size b < U64" and bpos: "0 < f_size b"
    using Cons.prems by (auto simp: flex_ok_def)
  have e: "f_end b = f_vaddr b + f_size b" using ok by (rule f_end_exact)
  have ve: "add64 vaddr n = vaddr + n" using assms(2) by (rule add64_exact)
  have subs: "f_vaddr b \<le> vaddr \<Longrightarrow> sub64 vaddr (f_vaddr b) = vaddr - f_vaddr b"
    "vaddr + n \<le> f_vaddr b + f_size b \<Longrightarrow>
      sub64 (f_vaddr b + f_size b) (vaddr + n) = f_vaddr b + f_size b - (vaddr + n)"
    "n \<le> f_size b \<Longrightarrow> sub64 (f_size b) n = f_size b - n"
    using assms(2) b64 by (auto intro!: sub64_exact)
  consider (whole) "f_vaddr b = vaddr" "f_size b = n"
    | (middle) "vaddr > f_vaddr b" "vaddr + n < f_vaddr b + f_size b"
    | (head) "vaddr = f_vaddr b" "n < f_size b"
    | (tail) "vaddr > f_vaddr b" "vaddr + n = f_vaddr b + f_size b"
    | (no) "\<not> flex_contains vaddr n b"
    by (auto simp: flex_contains_def) linarith
  then show ?case
  proof cases
    case whole
    let ?l = "[] :: flex_block list"
    have scan: "flex_unmap_scan vaddr n before (b # bs)
        = Some (f_gpu_mode b, Some (f_host_vaddr b, f_host_size b), before @ [] @ ?l @ bs @ [])"
      using whole e ve subs by simp
    show ?thesis
      unfolding scan option.case prod.case
      using whole bpos assms(3)
      by (intro exI [of _ "[]"] exI [of _ b] exI [of _ bs] exI [of _ ?l] exI [of _ "[]"])
        (simp add: flex_contains_def flex_pieces_def)
  next
    case middle
    let ?l = "[b\<lparr>f_size := vaddr - f_vaddr b\<rparr>]"
    let ?r = "[b\<lparr>f_vaddr := vaddr + n, f_size := f_vaddr b + f_size b - (vaddr + n)\<rparr>]"
    have scan: "flex_unmap_scan vaddr n before (b # bs)
        = Some (f_gpu_mode b, None, before @ [] @ ?l @ bs @ ?r)"
      using middle e ve subs by simp
    show ?thesis
      unfolding scan option.case prod.case
      using middle
      by (intro exI [of _ "[]"] exI [of _ b] exI [of _ bs] exI [of _ ?l] exI [of _ ?r])
        (simp add: flex_contains_def flex_pieces_def)
  next
    case head
    let ?l = "[b\<lparr>f_vaddr := vaddr + n, f_size := f_vaddr b + f_size b - (vaddr + n)\<rparr>]"
    have scan: "flex_unmap_scan vaddr n before (b # bs)
        = Some (f_gpu_mode b, None, before @ [] @ ?l @ bs @ [])"
      using head e ve subs b64 by simp
    show ?thesis
      unfolding scan option.case prod.case
      using head bpos assms(3)
      by (intro exI [of _ "[]"] exI [of _ b] exI [of _ bs] exI [of _ ?l] exI [of _ "[]"])
        (simp add: flex_contains_def flex_pieces_def)
  next
    case tail
    let ?l = "[b\<lparr>f_size := vaddr - f_vaddr b\<rparr>]"
    have scan: "flex_unmap_scan vaddr n before (b # bs)
        = Some (f_gpu_mode b, None, before @ [] @ ?l @ bs @ [])"
      using tail e ve subs by simp
    show ?thesis
      unfolding scan option.case prod.case
      using tail bpos assms(3)
      by (intro exI [of _ "[]"] exI [of _ b] exI [of _ bs] exI [of _ ?l] exI [of _ "[]"])
        (simp add: flex_contains_def flex_pieces_def)
  next
    case no
    then have "flex_unmap_scan vaddr n before (b # bs) = flex_unmap_scan vaddr n (before @ [b]) bs"
      using e ve bpos assms(3) by (auto simp: flex_contains_def)
    then show ?thesis
      using Cons.IH [of "before @ [b]"] Cons.prems no
      by (auto split: option.splits) (metis append_Cons)+
  qed
qed simp

lemma flex_pieces_sum:
  "flex_contains vaddr n b \<Longrightarrow> flex_sum (flex_pieces vaddr n b) + n = f_size b"
  by (auto simp: flex_contains_def flex_pieces_def)

lemma flex_pieces_ok:
  "flex_ok b \<Longrightarrow> flex_contains vaddr n b \<Longrightarrow> p \<in> set (flex_pieces vaddr n b) \<Longrightarrow> flex_ok p"
  by (auto simp: flex_contains_def flex_pieces_def flex_ok_def split: if_splits)

lemma FM_Map_inv:
  assumes "flex_inv fsize fm" and "vaddr + len < U64"
    and "FM_Map fsize vaddr len p m g name fm = (ok, fm')"
  shows "flex_inv fsize fm' \<and> (ok \<longleftrightarrow> 0 < len \<and> fm_total fm + len \<le> fsize)
    \<and> fm_total fm' = (if ok then fm_total fm + len else fm_total fm)"
proof -
  have "fm_total fm + len \<le> fsize \<Longrightarrow> add64 (fm_total fm) len = fm_total fm + len"
    using assms(1) by (intro add64_exact) (auto simp: flex_inv_def)
  then show ?thesis
    using assms by (auto simp: FM_Map_def Let_def flex_inv_def flex_ok_def split: if_splits)
qed

lemma FM_Unmap_inv:
  assumes "flex_inv fsize fm" and "vaddr + n < U64" and "0 < n"
    and "FM_Unmap vaddr n fm = (r, fm')"
  shows "flex_inv fsize fm' \<and> (r \<noteq> None \<longleftrightarrow> (\<exists>b\<in>set (fm_allocated fm). flex_contains vaddr n b))
    \<and> fm_total fm' = (if r = None then fm_total fm else fm_total fm - n)
    \<and> (r \<noteq> None \<longrightarrow> n \<le> fm_total fm)"
proof -
  have ok: "\<forall>b\<in>set (fm_allocated fm). flex_ok b" and tot: "fm_total fm = flex_sum (fm_allocated fm)"
    "fm_total fm \<le> fsize" "fsize < U64"
    using assms(1) by (simp_all add: flex_inv_def)
  note scan = flex_unmap_scan_spec [OF ok assms(2,3), of "[]"]
  show ?thesis
  proof (cases "flex_unmap_scan vaddr n [] (fm_allocated fm)")
    case None
    then show ?thesis using scan assms by (auto simp: FM_Unmap_def)
  next
    case (Some res)
    obtain mode host out where res: "res = (mode, host, out)" by (metis prod_cases3)
    obtain pre b post l q where bs: "fm_allocated fm = pre @ b # post" "flex_contains vaddr n b"
      "flex_pieces vaddr n b = l @ q" "out = pre @ l @ post @ q"
      using scan Some res by auto
    have sum: "flex_sum out + n = flex_sum (fm_allocated fm)"
      using flex_pieces_sum [OF bs(2)] bs by simp
    then have "sub64 (fm_total fm) n = flex_sum out"
      using tot by (subst sub64_exact) auto
    moreover have "\<forall>b\<in>set out. flex_ok b"
      using ok bs flex_pieces_ok [of b vaddr n] by auto
    ultimately show ?thesis
      using Some res assms(4) bs sum tot by (auto simp: FM_Unmap_def flex_inv_def)
  qed
qed

section \<open>Runs\<close>

datatype fm_op =
    FMap nat nat prot vm_mode gpu_access_mode "string option"
  | FUnmap nat nat
  | FName nat nat "string option"

fun fm_step :: "nat \<Rightarrow> fm_op \<Rightarrow> flexible_memory \<Rightarrow> flexible_memory" where
  "fm_step fsize (FMap vaddr len p m g name) fm = snd (FM_Map fsize vaddr len p m g name fm)"
| "fm_step fsize (FUnmap vaddr n) fm = snd (FM_Unmap vaddr n fm)"
| "fm_step fsize (FName vaddr n name) fm = FM_SetVirtualRangeName vaddr n name fm"

fun fm_op_ok :: "fm_op \<Rightarrow> bool" where
  "fm_op_ok (FMap vaddr len p m g name) = (vaddr + len < U64)"
| "fm_op_ok (FUnmap vaddr n) = (0 < n \<and> vaddr + n < U64)"
| "fm_op_ok (FName vaddr n name) = True"

lemma flex_sum_renamed:
  "flex_sum (map (\<lambda>b. if P b then b\<lparr>f_name := nm\<rparr> else b) bs) = flex_sum bs"
  by (induction bs) auto

lemma fm_step_inv:
  assumes "flex_inv fsize fm" and "fm_op_ok x"
  shows "flex_inv fsize (fm_step fsize x fm)"
proof (cases x)
  case (FMap vaddr len p m g name)
  then show ?thesis
    using assms FM_Map_inv [of fsize fm vaddr len p m g name]
    by (cases "FM_Map fsize vaddr len p m g name fm") auto
next
  case (FUnmap vaddr n)
  then show ?thesis
    using assms FM_Unmap_inv [of fsize fm vaddr n] by (cases "FM_Unmap vaddr n fm") auto
next
  case (FName vaddr n name)
  then show ?thesis
    using assms by (auto simp: FM_SetVirtualRangeName_def flex_inv_def flex_sum_renamed flex_ok_def)
qed

definition fm_run :: "nat \<Rightarrow> fm_op list \<Rightarrow> flexible_memory" where
  "fm_run fsize xs = fold (fm_step fsize) xs FM_init"

lemma fm_run_inv:
  assumes "\<forall>x\<in>set xs. fm_op_ok x" and "fsize < U64"
  shows "flex_inv fsize (fm_run fsize xs)"
proof -
  have "flex_inv fsize fm \<Longrightarrow> flex_inv fsize (fold (fm_step fsize) xs fm)" for fm
    using assms(1) by (induction xs arbitrary: fm) (simp_all add: fm_step_inv)
  moreover have "flex_inv fsize FM_init" using assms(2) by (simp add: flex_inv_def FM_init_def)
  ultimately show ?thesis by (simp add: fm_run_def)
qed

section \<open>Properties\<close>

text \<open>
  C34. The flexible memory budget is kept exactly: after any sequence of operations what is
  available and the sizes of the mapped blocks add up to the configured size, a further
  \<open>Map\<close> succeeds exactly when the length is positive and fits into what is available, and
  an \<open>Unmap\<close> succeeds exactly on a span inside one block and then gives back its length,
  whichever way the block is split.
\<close>

theorem flexible_budget_exact:
  assumes "\<forall>x\<in>set xs. fm_op_ok x" and "fsize < U64"
    and "vaddr + len < U64" and "0 < len"
  shows "FM_Available fsize (fm_run fsize xs) + flex_sum (fm_allocated (fm_run fsize xs)) = fsize
    \<and> (fst (FM_Map fsize vaddr len p m g name (fm_run fsize xs))
        \<longleftrightarrow> len \<le> FM_Available fsize (fm_run fsize xs))
    \<and> (fst (FM_Unmap vaddr len (fm_run fsize xs)) \<noteq> None
        \<longleftrightarrow> (\<exists>b\<in>set (fm_allocated (fm_run fsize xs)). flex_contains vaddr len b))
    \<and> (fst (FM_Unmap vaddr len (fm_run fsize xs)) \<noteq> None \<longrightarrow>
        FM_Available fsize (snd (FM_Unmap vaddr len (fm_run fsize xs)))
          = FM_Available fsize (fm_run fsize xs) + len)"
proof -
  obtain fm where fm: "fm = fm_run fsize xs" by simp
  have inv: "flex_inv fsize fm" unfolding fm using assms(1,2) by (rule fm_run_inv)
  obtain ok fm1 where mp: "FM_Map fsize vaddr len p m g name fm = (ok, fm1)" by fastforce
  obtain r fm2 where um: "FM_Unmap vaddr len fm = (r, fm2)" by fastforce
  show ?thesis
    using FM_Map_inv [OF inv assms(3) mp] FM_Unmap_inv [OF inv assms(3,4) um] inv assms(4)
    unfolding fm [symmetric] mp um
    by (auto simp: FM_Available_def flex_inv_def)
qed

theorem flexible_budget_exact_witness:
  "FM_Available 65536 (snd (FM_Unmap 20480 4096
      (fm_run 65536 [FMap 16384 16384 3 VmReadWrite GpuNoAccess None]))) = 53248"
proof -
  let ?xs = "[FMap 16384 16384 3 VmReadWrite GpuNoAccess None]"
  have ok: "\<forall>x\<in>set ?xs. fm_op_ok x" and sz: "(65536::nat) < U64" "(20480::nat) + 4096 < U64"
    by (simp_all add: U64_def)
  have run: "FM_Available 65536 (fm_run 65536 ?xs) = 49152"
    "\<exists>b\<in>set (fm_allocated (fm_run 65536 ?xs)). flex_contains 20480 4096 b"
    by (simp_all add: fm_run_def FM_init_def FM_Map_def FM_Available_def add64_def U64_def
        flex_contains_def)
  show ?thesis
    using flexible_budget_exact [OF ok sz(1,2), of 0 VmNoAccess GpuNoAccess None] run by simp
qed

end
