(* ===== verification/PooledMemory.thy ===== *)
theory PooledMemory
  imports PhysicalMemory
begin

text \<open>
  \<open>class PooledMemory\<close> of \<open>gpu/src/kernel/memory.cpp\<close>: the memory pool, which hands out
  direct memory in pieces. \<open>m_free\<close> and \<open>m_expansions\<close> are vectors of (start, size),
  \<open>m_mappings\<close> the virtual mappings of the pieces in the order they were made. Where the
  source sorts by start address, the order of entries with equal starts does not matter:
  they are merged.
\<close>

section \<open>State and operations\<close>

record pool_mapping =
  m_vaddr :: nat
  m_size :: nat
  m_phys :: nat
  m_gpu :: gpu_access_mode

record pooled_memory =
  pool_free :: "(nat \<times> nat) list"
  pool_expansions :: "(nat \<times> nat) list"
  pool_mappings :: "pool_mapping list"

definition Pool_init :: pooled_memory where
  "Pool_init = \<lparr>pool_free = [], pool_expansions = [], pool_mappings = []\<rparr>"

text \<open>The merging loop of \<open>AddFreeUnlocked\<close>, with the last merged range in hand.\<close>

fun pool_merge :: "nat \<times> nat \<Rightarrow> (nat \<times> nat) list \<Rightarrow> (nat \<times> nat) list" where
  "pool_merge l [] = [l]"
| "pool_merge l (r # rs) =
     (if fst r \<le> add64 (fst l) (snd l)
      then (let e = max (add64 (fst l) (snd l)) (add64 (fst r) (snd r))
            in pool_merge (fst l, sub64 e (fst l)) rs)
      else l # pool_merge r rs)"

definition AddFreeUnlocked :: "nat \<Rightarrow> nat \<Rightarrow> (nat \<times> nat) list \<Rightarrow> (nat \<times> nat) list" where
  "AddFreeUnlocked start n m =
     (if n = 0 then m
      else (case sort_key fst (m @ [(start, n)]) of [] \<Rightarrow> [] | r # rs \<Rightarrow> pool_merge r rs))"

definition Pool_Expand :: "nat \<Rightarrow> nat \<Rightarrow> pooled_memory \<Rightarrow> pooled_memory" where
  "Pool_Expand phys_addr n p =
     p\<lparr>pool_expansions := pool_expansions p @ [(phys_addr, n)],
       pool_free := AddFreeUnlocked phys_addr n (pool_free p)\<rparr>"

definition Pool_ReleaseExpansion :: "nat \<Rightarrow> nat \<Rightarrow> pooled_memory \<Rightarrow> bool \<times> pooled_memory" where
  "Pool_ReleaseExpansion phys_addr n p =
     (if (phys_addr, n) \<notin> set (pool_expansions p) then (False, p)
      else if \<exists>m\<in>set (pool_mappings p). VirtualRangesOverlap phys_addr n (m_phys m) (m_size m)
      then (False, p)
      else
        (let e = add64 phys_addr n;
             holds = (\<lambda>r. phys_addr \<ge> fst r \<and> e \<le> add64 (fst r) (snd r))
         in case find holds (pool_free p) of
              None \<Rightarrow> (False, p)
            | Some old \<Rightarrow>
                (let left_size = sub64 phys_addr (fst old);
                     right_size = sub64 (add64 (fst old) (snd old)) e;
                     rest = remove1 old (pool_free p);
                     rest = (if left_size \<noteq> 0 then rest @ [(fst old, left_size)] else rest);
                     rest = (if right_size \<noteq> 0 then rest @ [(e, right_size)] else rest)
                 in (True, p\<lparr>pool_free := sort_key fst rest,
                             pool_expansions := remove1 (phys_addr, n) (pool_expansions p)\<rparr>))))"

text \<open>
  The loop of \<open>Allocate\<close> over the copy of the free list: the mappings made, the ranges left
  (empty ones included) and the bytes still wanted.
\<close>

fun pool_take :: "gpu_access_mode \<Rightarrow> nat \<Rightarrow> nat \<Rightarrow> (nat \<times> nat) list \<Rightarrow>
    pool_mapping list \<times> (nat \<times> nat) list \<times> nat" where
  "pool_take g current remaining [] = ([], [], remaining)"
| "pool_take g current remaining ((s, n) # rs) =
     (if remaining = 0 \<or> n = 0
      then (case pool_take g current remaining rs of (ms, fs, left) \<Rightarrow> (ms, (s, n) # fs, left))
      else
        (let part = min n remaining
         in case pool_take g (add64 current part) (remaining - part) rs of
              (ms, fs, left) \<Rightarrow>
                (\<lparr>m_vaddr = current, m_size = part, m_phys = s, m_gpu = g\<rparr> # ms,
                 (add64 s part, n - part) # fs, left)))"

definition Pool_Allocate :: "nat \<Rightarrow> nat \<Rightarrow> gpu_access_mode \<Rightarrow> pooled_memory \<Rightarrow>
    pool_mapping list option \<times> pooled_memory" where
  "Pool_Allocate vaddr n g p =
     (if vaddr = 0 \<or> n = 0 \<or> (U64 - 1) - vaddr < n then (None, p)
      else
        (case pool_take g vaddr n (pool_free p) of
           (ms, fs, left) \<Rightarrow>
             if left \<noteq> 0 then (None, p)
             else (Some ms, p\<lparr>pool_free := filter (\<lambda>r. snd r \<noteq> 0) fs,
                              pool_mappings := pool_mappings p @ ms\<rparr>)))"

definition m_end :: "pool_mapping \<Rightarrow> nat" where
  "m_end m = add64 (m_vaddr m) (m_size m)"

lemma query_part:
  assumes "current < e" and "current < m_end m"
  shows "sub64 (min e (m_end m)) current = min e (m_end m) - current"
    and "add64 current (min e (m_end m) - current) = min e (m_end m)"
proof -
  have b: "min e (m_end m) < U64" by (simp add: m_end_def min_less_iff_disj)
  then show "sub64 (min e (m_end m)) current = min e (m_end m) - current"
    using assms by (intro sub64_exact) auto
  show "add64 current (min e (m_end m) - current) = min e (m_end m)"
    using assms b by (subst add64_exact) auto
qed

text \<open>
  The loop of \<open>QueryUnlocked\<close>: every turn advances \<open>current\<close> to the end of the mapping that
  holds it or to the end of the query.
\<close>

function query_loop :: "pool_mapping list \<Rightarrow> nat \<Rightarrow> nat \<Rightarrow> pool_mapping list option" where
  "query_loop ms e current =
     (if current < e then
        (case find (\<lambda>m. current \<ge> m_vaddr m \<and> current < m_end m) ms of
           None \<Rightarrow> None
         | Some m \<Rightarrow>
             (let part = sub64 (min e (m_end m)) current
              in map_option ((#) \<lparr>m_vaddr = current, m_size = part,
                      m_phys = add64 (m_phys m) (sub64 current (m_vaddr m)), m_gpu = m_gpu m\<rparr>)
                   (query_loop ms e (add64 current part))))
      else Some [])"
  by pat_completeness auto

termination
proof (relation "measure (\<lambda>(ms, e, current). e - current)")
  fix ms :: "pool_mapping list" and e current part :: nat and m
  assume lt: "current < e"
    and "find (\<lambda>m. current \<ge> m_vaddr m \<and> current < m_end m) ms = Some m"
    and part: "part = sub64 (min e (m_end m)) current"
  then have "current < m_end m" by (auto simp: find_Some_iff)
  note q = query_part [OF lt this]
  then show "((ms, e, add64 current part), ms, e, current)
      \<in> measure (\<lambda>(ms, e, current). e - current)"
    using part lt \<open>current < m_end m\<close> by (simp add: diff_less_mono2)
qed simp

declare query_loop.simps [simp del]

definition Pool_Query :: "nat \<Rightarrow> nat \<Rightarrow> pooled_memory \<Rightarrow> pool_mapping list option" where
  "Pool_Query vaddr n p =
     (if vaddr = 0 \<or> n = 0 \<or> (U64 - 1) - vaddr < n then None
      else query_loop (pool_mappings p) (add64 vaddr n) vaddr)"

definition keep_piece :: "nat \<Rightarrow> nat \<Rightarrow> pool_mapping \<Rightarrow> pool_mapping list" where
  "keep_piece vaddr e m =
     (let cut_start = max vaddr (m_vaddr m);
          cut_end = min e (m_end m)
      in if cut_start \<ge> cut_end then [m]
         else (if m_vaddr m < cut_start
               then [m\<lparr>m_size := sub64 cut_start (m_vaddr m)\<rparr>] else [])
            @ (if cut_end < m_end m
               then [m\<lparr>m_vaddr := cut_end, m_size := sub64 (m_end m) cut_end,
                       m_phys := add64 (m_phys m) (sub64 cut_end (m_vaddr m))\<rparr>] else []))"

definition Pool_Release ::
    "nat \<Rightarrow> nat \<Rightarrow> pooled_memory \<Rightarrow> gpu_access_mode option \<times> pooled_memory" where
  "Pool_Release vaddr n p =
     (case Pool_Query vaddr n p of
        None \<Rightarrow> (None, p)
      | Some released \<Rightarrow>
          (Some (m_gpu (hd released)),
           p\<lparr>pool_mappings := concat (map (keep_piece vaddr (add64 vaddr n)) (pool_mappings p)),
             pool_free := fold (\<lambda>m. AddFreeUnlocked (m_phys m) (m_size m)) released
                            (pool_free p)\<rparr>))"

definition Pool_Available :: "pooled_memory \<Rightarrow> nat" where
  "Pool_Available p = foldl add64 0 (map snd (pool_free p))"

section \<open>The free list\<close>

lemma pool_merge_spec:
  assumes "sorted_wrt (\<lambda>x y. fst x \<le> fst y) (l # rs)"
    and "\<forall>r\<in>set (l # rs). 0 < snd r \<and> fst r + snd r < U64"
  shows "fl_wf (pool_merge l rs) \<and> fl_cover (pool_merge l rs) = fl_cover (l # rs)
    \<and> (\<forall>r\<in>set (pool_merge l rs). fst l \<le> fst r)"
  using assms
proof (induction l rs rule: pool_merge.induct)
  case (1 l)
  then show ?case by (simp add: fl_wf_def separated_Cons)
next
  case (2 l r rs)
  have ends: "add64 (fst l) (snd l) = fst l + snd l" "add64 (fst r) (snd r) = fst r + snd r"
    using "2.prems"(2) by (simp_all add: arith64)
  show ?case
  proof (cases "fst r \<le> fst l + snd l")
    case True
    obtain e where e: "e = max (fst l + snd l) (fst r + snd r)" by simp
    have e64: "sub64 e (fst l) = e - fst l" "fst l < e" "e < U64"
      using "2.prems"(2) e by (auto intro!: sub64_exact)
    have "sorted_wrt (\<lambda>x y. fst x \<le> fst y) ((fst l, e - fst l) # rs)"
      "\<forall>q\<in>set ((fst l, e - fst l) # rs). 0 < snd q \<and> fst q + snd q < U64"
      using "2.prems" e64 by auto
    then have IH: "fl_wf (pool_merge (fst l, e - fst l) rs)
        \<and> fl_cover (pool_merge (fst l, e - fst l) rs) = fl_cover ((fst l, e - fst l) # rs)
        \<and> (\<forall>q\<in>set (pool_merge (fst l, e - fst l) rs). fst l \<le> fst q)"
      using "2.IH"(1) True ends e e64 by simp
    have step: "pool_merge l (r # rs) = pool_merge (fst l, e - fst l) rs"
      using True ends e e64 by simp
    have "span (fb (fst l, e - fst l)) = span (fb l) \<union> span (fb r)"
      using True e e64 "2.prems" by (auto simp: fb_def)
    then have "fl_cover ((fst l, e - fst l) # rs) = fl_cover (l # r # rs)"
      by (simp add: fl_cover_def Un_assoc)
    then show ?thesis using IH step by simp
  next
    case False
    then have IH: "fl_wf (pool_merge r rs) \<and> fl_cover (pool_merge r rs) = fl_cover (r # rs)
        \<and> (\<forall>q\<in>set (pool_merge r rs). fst r \<le> fst q)"
      using "2.IH"(2) "2.prems" ends by simp
    then have "\<forall>q\<in>set (pool_merge r rs). fst l + snd l < fst q"
      using False by (meson leI less_le_trans)
    then show ?thesis
      using IH False ends "2.prems"
      by (auto simp: fl_wf_def fl_cover_def separated_Cons)
  qed
qed

lemma fl_cover_set: "fl_cover m = (\<Union>r\<in>set m. {fst r ..< fst r + snd r})"
  by (simp add: fl_cover_def spans_def span_def)

lemma AddFreeUnlocked_spec:
  assumes "fl_wf m" and "fl_ok a b"
  shows "fl_wf (AddFreeUnlocked a (b - a) m)"
    and "fl_cover (AddFreeUnlocked a (b - a) m) = fl_cover m \<union> {a ..< b}"
proof -
  have ab: "a < b" "b < U64" using assms(2) by (simp_all add: fl_ok_def)
  obtain l rs where s: "sort_key fst (m @ [(a, b - a)]) = l # rs"
    by (cases "sort_key fst (m @ [(a, b - a)])") (auto dest: arg_cong [of _ _ length])
  have sets: "set (l # rs) = insert (a, b - a) (set m)"
    using arg_cong [OF s, of set] by auto
  have "sorted (map fst (l # rs))" using sorted_sort_key [of fst "m @ [(a, b - a)]"] s by simp
  then have srt: "sorted_wrt (\<lambda>x y. fst x \<le> fst y) (l # rs)" by (simp add: sorted_map)
  have "\<forall>r\<in>set (l # rs). 0 < snd r \<and> fst r + snd r < U64"
    unfolding sets using assms(1) ab separated_nonempty [of "map fb m"]
    by (fastforce simp: fl_wf_def)
  note spec = pool_merge_spec [OF srt this]
  have eq: "AddFreeUnlocked a (b - a) m = pool_merge l rs"
    using ab s by (simp add: AddFreeUnlocked_def)
  then show "fl_wf (AddFreeUnlocked a (b - a) m)" using spec by simp
  have "fl_cover (l # rs) = fl_cover m \<union> {a ..< b}"
    unfolding fl_cover_set sets using ab by auto
  then show "fl_cover (AddFreeUnlocked a (b - a) m) = fl_cover m \<union> {a ..< b}"
    using spec eq by simp
qed

interpretation pool: range_store fl_wf fl_cover fl_ok "\<lambda>a b. AddFreeUnlocked a (b - a)"
  by unfold_locales (fact AddFreeUnlocked_spec fl_canonical)+

section \<open>The address translation of the mappings\<close>

definition mdom :: "pool_mapping \<Rightarrow> nat set" where
  "mdom m = {m_vaddr m ..< m_vaddr m + m_size m}"

definition m_ok :: "pool_mapping \<Rightarrow> bool" where
  "m_ok m \<longleftrightarrow> 0 < m_size m \<and> m_vaddr m + m_size m < U64 \<and> m_phys m + m_size m < U64"

definition translate :: "pool_mapping \<Rightarrow> nat \<Rightarrow> nat" where
  "translate m a = m_phys m + (a - m_vaddr m)"

fun mview :: "pool_mapping list \<Rightarrow> nat \<Rightarrow> nat option" where
  "mview [] a = None"
| "mview (m # ms) a = (if a \<in> mdom m then Some (translate m a) else mview ms a)"

definition ms_wf :: "pool_mapping list \<Rightarrow> bool" where
  "ms_wf ms \<longleftrightarrow> (\<forall>m\<in>set ms. m_ok m) \<and> sorted_wrt (\<lambda>m k. mdom m \<inter> mdom k = {}) ms"

lemma ms_wf_simps [simp]:
  "ms_wf []"
  "ms_wf (m # ms) \<longleftrightarrow> m_ok m \<and> (\<forall>k\<in>set ms. mdom m \<inter> mdom k = {}) \<and> ms_wf ms"
  "ms_wf (ms @ ks) \<longleftrightarrow> ms_wf ms \<and> ms_wf ks \<and> (\<forall>m\<in>set ms. \<forall>k\<in>set ks. mdom m \<inter> mdom k = {})"
  by (auto simp: ms_wf_def sorted_wrt_append)

lemma m_end_exact [arith64]: "m_ok m \<Longrightarrow> m_end m = m_vaddr m + m_size m"
  by (simp add: m_end_def m_ok_def add64_exact)

lemma mview_append: "mview (ms @ ks) a = (case mview ms a of None \<Rightarrow> mview ks a | Some x \<Rightarrow> Some x)"
  by (induction ms) auto

lemma mview_None: "mview ms a = None \<longleftrightarrow> (\<forall>m\<in>set ms. a \<notin> mdom m)"
  by (induction ms) auto

lemma mview_member:
  "ms_wf ms \<Longrightarrow> m \<in> set ms \<Longrightarrow> a \<in> mdom m \<Longrightarrow> mview ms a = Some (translate m a)"
proof (induction ms)
  case (Cons k ms)
  show ?case
  proof (cases "m = k")
    case False
    then have "m \<in> set ms" using Cons.prems by simp
    then have "a \<notin> mdom k" using Cons.prems by auto
    with \<open>m \<in> set ms\<close> Cons show ?thesis by simp
  qed (use Cons.prems in simp)
qed simp

definition mphys :: "pool_mapping list \<Rightarrow> nat set" where
  "mphys ms = (\<Union>m\<in>set ms. {m_phys m ..< m_phys m + m_size m})"

lemma translate_image: "translate m ` mdom m = {m_phys m ..< m_phys m + m_size m}"
proof -
  have "x \<in> translate m ` mdom m" if "m_phys m \<le> x" "x < m_phys m + m_size m" for x
    using that
    by (intro image_eqI [of _ _ "m_vaddr m + (x - m_phys m)"]) (auto simp: translate_def mdom_def)
  then show ?thesis by (auto simp: translate_def mdom_def)
qed

lemma ran_mview:
  assumes "ms_wf ms"
  shows "ran (mview ms) = mphys ms"
proof
  show "ran (mview ms) \<subseteq> mphys ms"
  proof
    fix x assume "x \<in> ran (mview ms)"
    then obtain a where a: "mview ms a = Some x" by (auto simp: ran_def)
    then have "mview ms a \<noteq> None" by simp
    then obtain m where m: "m \<in> set ms" "a \<in> mdom m" by (auto simp: mview_None)
    then have "x = translate m a" using mview_member [OF assms m] a by simp
    then have "x \<in> {m_phys m ..< m_phys m + m_size m}"
      using m(2) translate_image [of m] by blast
    then show "x \<in> mphys ms" using m(1) unfolding mphys_def by blast
  qed
  show "mphys ms \<subseteq> ran (mview ms)"
  proof
    fix x assume "x \<in> mphys ms"
    then obtain m where m: "m \<in> set ms" "x \<in> translate m ` mdom m"
      by (auto simp: mphys_def translate_image)
    then obtain a where a: "a \<in> mdom m" "x = translate m a" by blast
    have "mview ms a = Some x" unfolding a(2) using assms m(1) a(1) by (rule mview_member)
    then show "x \<in> ran (mview ms)" by (rule ranI)
  qed
qed

section \<open>\<open>Query\<close>\<close>

definition query_piece :: "nat \<Rightarrow> nat \<Rightarrow> pool_mapping \<Rightarrow> pool_mapping" where
  "query_piece b e m = \<lparr>m_vaddr = b, m_size = e - b, m_phys = m_phys m + (b - m_vaddr m),
     m_gpu = m_gpu m\<rparr>"

lemma query_piece_spec:
  assumes "m_ok m" and "m_vaddr m \<le> b" and "b < e" and "e \<le> m_vaddr m + m_size m"
  shows "m_ok (query_piece b e m)" and "mdom (query_piece b e m) = {b ..< e}"
    and "b \<le> a \<Longrightarrow> translate (query_piece b e m) a = translate m a"
  using assms by (auto simp: query_piece_def m_ok_def mdom_def translate_def)

lemma query_loop_step:
  assumes "ms_wf ms" and "current < e" and "find (\<lambda>m. current \<ge> m_vaddr m \<and> current < m_end m) ms = Some m"
  shows "query_loop ms e current
    = map_option ((#) (query_piece current (min e (m_end m)) m)) (query_loop ms e (min e (m_end m)))"
    and "m \<in> set ms" and "m_vaddr m \<le> current" and "current < m_vaddr m + m_size m"
    and "m_end m = m_vaddr m + m_size m" and "m_ok m"
proof -
  show m: "m \<in> set ms" "m_vaddr m \<le> current" using assms(3) by (auto simp: find_Some_iff)
  have lt: "current < m_end m" using assms(3) by (auto simp: find_Some_iff)
  show ok: "m_ok m" using m(1) assms(1) by (simp add: ms_wf_def)
  show e: "m_end m = m_vaddr m + m_size m" using ok by (rule m_end_exact)
  then show "current < m_vaddr m + m_size m" using lt by simp
  note q = query_part [OF assms(2) lt]
  have "m_phys m + (current - m_vaddr m) < U64" using lt e ok by (auto simp: m_ok_def)
  then have "add64 (m_phys m) (current - m_vaddr m) = m_phys m + (current - m_vaddr m)"
    by (rule add64_exact)
  moreover have "sub64 current (m_vaddr m) = current - m_vaddr m"
    using m lt e ok by (auto simp: m_ok_def intro!: sub64_exact)
  ultimately show "query_loop ms e current
    = map_option ((#) (query_piece current (min e (m_end m)) m)) (query_loop ms e (min e (m_end m)))"
    using assms(2,3) q by (subst query_loop.simps) (simp add: Let_def query_piece_def)
qed

lemma query_loop_spec:
  "ms_wf ms \<Longrightarrow> case query_loop ms e current of
      None \<Rightarrow> \<exists>a\<in>{current ..< e}. mview ms a = None
    | Some ps \<Rightarrow> ms_wf ps \<and> (\<forall>a\<in>{current ..< e}. mview ms a \<noteq> None)
        \<and> mview ps = (\<lambda>a. if current \<le> a \<and> a < e then mview ms a else None)
        \<and> (\<forall>p\<in>set ps. current \<le> m_vaddr p)"
proof (induction ms e current rule: query_loop.induct)
  case (1 ms e current)
  note wf = "1.prems"
  show ?case
  proof (cases "current < e")
    case False
    then have "query_loop ms e current = Some []" by (subst query_loop.simps) simp
    then show ?thesis using False by (auto intro!: ext)
  next
    case True
    let ?P = "\<lambda>m. current \<ge> m_vaddr m \<and> current < m_end m"
    show ?thesis
    proof (cases "find ?P ms")
      case None
      then have res: "query_loop ms e current = None" using True by (subst query_loop.simps) simp
      have "current \<notin> mdom m" if "m \<in> set ms" for m
      proof -
        have "\<not> ?P m" using None that by (simp add: find_None_iff)
        moreover have "m_ok m" using wf that by (simp add: ms_wf_def)
        ultimately show ?thesis by (auto simp: mdom_def m_end_exact)
      qed
      then have "mview ms current = None" by (simp add: mview_None)
      then show ?thesis using True res by auto
    next
      case (Some m)
      note step = query_loop_step [OF wf True Some]
      obtain n where n: "n = min e (m_end m)" by simp
      have bounds: "current < n" "n \<le> e" "n \<le> m_vaddr m + m_size m"
        using True step(4,5) n by auto
      have q: "sub64 (min e (m_end m)) current = n - current" "add64 current (n - current) = n"
        using query_part [of current e m] True step(4,5) n by simp_all
      have IH: "case query_loop ms e n of
            None \<Rightarrow> \<exists>a\<in>{n ..< e}. mview ms a = None
          | Some ps \<Rightarrow> ms_wf ps \<and> (\<forall>a\<in>{n ..< e}. mview ms a \<noteq> None)
              \<and> mview ps = (\<lambda>a. if n \<le> a \<and> a < e then mview ms a else None)
              \<and> (\<forall>p\<in>set ps. n \<le> m_vaddr p)"
        using "1.IH" [OF True Some refl wf] unfolding q .
      note piece = query_piece_spec [OF step(6,3) bounds(1,3)]
      have here: "mview ms a = Some (translate m a)" if "current \<le> a" "a < n" for a
        using that bounds step(3) by (intro mview_member [OF wf step(2)]) (auto simp: mdom_def)
      show ?thesis
      proof (cases "query_loop ms e n")
        case None
        then obtain a where "n \<le> a" "a < e" "mview ms a = None" using IH by auto
        then have "\<exists>a\<in>{current ..< e}. mview ms a = None"
          using bounds by (intro bexI [of _ a]) auto
        then show ?thesis using None step(1) n by simp
      next
        case (Some ps)
        then have ps: "ms_wf ps" "\<forall>a\<in>{n ..< e}. mview ms a \<noteq> None"
          "mview ps = (\<lambda>a. if n \<le> a \<and> a < e then mview ms a else None)"
          "\<forall>p\<in>set ps. n \<le> m_vaddr p"
          using IH by simp_all
        let ?ps = "query_piece current n m # ps"
        have res: "query_loop ms e current = Some ?ps" using step(1) Some n by simp
        have "\<forall>k\<in>set ps. mdom (query_piece current n m) \<inter> mdom k = {}"
          using ps(4) piece(2) by (fastforce simp: mdom_def)
        then have "ms_wf ?ps" using ps(1) piece(1) by simp
        moreover have "mview ms a \<noteq> None" if "current \<le> a" "a < e" for a
          using that here [of a] ps(2) by (cases "a < n") simp_all
        moreover have "mview ?ps = (\<lambda>a. if current \<le> a \<and> a < e then mview ms a else None)"
          using here piece(2,3) ps(3) bounds by (intro ext) auto
        moreover have "\<forall>p\<in>set ?ps. current \<le> m_vaddr p"
          using ps(4) bounds by (fastforce simp: query_piece_def)
        ultimately show ?thesis unfolding res by simp
      qed
    qed
  qed
qed

section \<open>What \<open>Release\<close> keeps\<close>

lemma keep_piece_eq:
  assumes "m_ok m" and "vaddr < e"
  shows "keep_piece vaddr e m =
    (if max vaddr (m_vaddr m) \<ge> min e (m_vaddr m + m_size m) then [m]
     else (if m_vaddr m < vaddr then [query_piece (m_vaddr m) vaddr m] else [])
       @ (if e < m_vaddr m + m_size m then [query_piece e (m_vaddr m + m_size m) m] else []))"
proof -
  have end': "m_end m = m_vaddr m + m_size m" using assms(1) by (rule m_end_exact)
  have 1: "sub64 vaddr (m_vaddr m) = vaddr - m_vaddr m"
    if "m_vaddr m \<le> vaddr" "vaddr < m_vaddr m + m_size m"
    using that assms(1) by (intro sub64_exact) (auto simp: m_ok_def)
  have 2: "sub64 (m_vaddr m + m_size m) e = m_vaddr m + m_size m - e"
    "sub64 e (m_vaddr m) = e - m_vaddr m" "add64 (m_phys m) (e - m_vaddr m) = m_phys m + (e - m_vaddr m)"
    if le: "m_vaddr m \<le> e" "e < m_vaddr m + m_size m"
  proof -
    show "sub64 (m_vaddr m + m_size m) e = m_vaddr m + m_size m - e"
      "sub64 e (m_vaddr m) = e - m_vaddr m"
      using le assms(1) by (auto simp: m_ok_def intro!: sub64_exact)
    have "m_phys m + (e - m_vaddr m) < U64" using le assms(1) by (auto simp: m_ok_def)
    then show "add64 (m_phys m) (e - m_vaddr m) = m_phys m + (e - m_vaddr m)"
      by (rule add64_exact)
  qed
  show ?thesis
    using 1 2 assms(2)
    by (auto simp: keep_piece_def Let_def end' query_piece_def max_def min_def)
qed

definition minside :: "pool_mapping \<Rightarrow> pool_mapping list \<Rightarrow> bool" where
  "minside m ps \<longleftrightarrow> ms_wf ps \<and> (\<forall>p\<in>set ps. mdom p \<subseteq> mdom m)"

lemma keep_piece_spec:
  assumes "m_ok m" and "vaddr < e"
  shows "minside m (keep_piece vaddr e m)"
    and "a \<in> mdom m \<Longrightarrow> mview (keep_piece vaddr e m) a
      = (if vaddr \<le> a \<and> a < e then None else Some (translate m a))"
proof -
  show "minside m (keep_piece vaddr e m)"
    using assms by (auto simp: keep_piece_eq minside_def mdom_def query_piece_def m_ok_def)
  show "mview (keep_piece vaddr e m) a
      = (if vaddr \<le> a \<and> a < e then None else Some (translate m a))" if "a \<in> mdom m"
    using assms that by (auto simp: keep_piece_eq mdom_def query_piece_def translate_def)
qed

lemma kept_spec:
  assumes "ms_wf ms" and "vaddr < e"
  shows "ms_wf (concat (map (keep_piece vaddr e) ms))
    \<and> mview (concat (map (keep_piece vaddr e) ms))
        = (\<lambda>a. if vaddr \<le> a \<and> a < e then None else mview ms a)
    \<and> (\<forall>p\<in>set (concat (map (keep_piece vaddr e) ms)). \<exists>m\<in>set ms. mdom p \<subseteq> mdom m)"
  using assms(1)
proof (induction ms)
  case (Cons m ms)
  have ok: "m_ok m" and wf: "ms_wf ms" and dis: "\<forall>k\<in>set ms. mdom m \<inter> mdom k = {}"
    using Cons.prems by simp_all
  note IH = Cons.IH [OF wf]
  note piece = keep_piece_spec [OF ok assms(2)]
  have "mview (concat (map (keep_piece vaddr e) (m # ms))) a
      = (if vaddr \<le> a \<and> a < e then None else mview (m # ms) a)" for a
  proof (cases "a \<in> mdom m")
    case True
    then have "mview ms a = None" using dis by (auto simp: mview_None)
    then show ?thesis using True IH piece(2) [OF True] by (simp add: mview_append)
  next
    case False
    then have "mview (keep_piece vaddr e m) a = None"
      using piece(1) by (auto simp: minside_def mview_None)
    then show ?thesis using False IH by (simp add: mview_append)
  qed
  moreover have "mdom p \<inter> mdom q = {}"
    if pq: "p \<in> set (keep_piece vaddr e m)" "q \<in> set (concat (map (keep_piece vaddr e) ms))" for p q
  proof -
    obtain k where "k \<in> set ms" "mdom q \<subseteq> mdom k" using IH pq(2) by blast
    moreover have "mdom p \<subseteq> mdom m" using piece(1) pq(1) by (simp add: minside_def)
    ultimately show ?thesis using dis by blast
  qed
  then have "ms_wf (concat (map (keep_piece vaddr e) (m # ms)))"
    using IH piece(1) by (simp add: minside_def)
  moreover have "\<exists>k\<in>set (m # ms). mdom p \<subseteq> mdom k"
    if "p \<in> set (concat (map (keep_piece vaddr e) (m # ms)))" for p
  proof -
    from that have "p \<in> set (keep_piece vaddr e m) \<or> p \<in> set (concat (map (keep_piece vaddr e) ms))"
      by simp
    then show ?thesis
      using IH piece(1) unfolding minside_def by (metis list.set_intros(1,2))
  qed
  ultimately show ?case by blast
qed (auto intro!: ext)

section \<open>\<open>Allocate\<close>\<close>

definition free_bytes :: "(nat \<times> nat) list \<Rightarrow> nat" where
  "free_bytes m = sum_list (map snd m)"

lemma free_bytes_simps [simp]: "free_bytes [] = 0" "free_bytes (r # rs) = snd r + free_bytes rs"
  by (simp_all add: free_bytes_def)

lemma free_bytes_bound:
  "separated (map fb (r # m)) \<Longrightarrow> \<forall>q\<in>set (r # m). fst q + snd q < U64 \<Longrightarrow>
     fst r + free_bytes (r # m) < U64"
proof (induction m arbitrary: r)
  case (Cons q m)
  have "fst q + free_bytes (q # m) < U64"
    using Cons.prems by (intro Cons.IH) (auto simp: separated_Cons)
  moreover have "fst r + snd r < fst q" using Cons.prems(1) by (simp add: separated_Cons)
  ultimately show ?case by simp
qed (simp add: free_bytes_def)

lemma foldl_add64: "x + free_bytes m < U64 \<Longrightarrow> foldl add64 x (map snd m) = x + free_bytes m"
proof (induction m arbitrary: x)
  case (Cons r m)
  then show ?case using Cons.IH [of "x + snd r"] by (simp add: arith64 add.assoc)
qed (simp add: free_bytes_def)

lemma Pool_Available_exact:
  assumes "fl_wf (pool_free p)"
  shows "Pool_Available p = free_bytes (pool_free p)"
proof -
  have "free_bytes (pool_free p) < U64"
    using assms free_bytes_bound [of "hd (pool_free p)" "tl (pool_free p)"]
    by (cases "pool_free p") (auto simp: fl_wf_def free_bytes_def)
  then show ?thesis using foldl_add64 [of 0 "pool_free p"] by (simp add: Pool_Available_def)
qed

text \<open>The mappings of one allocation tile the virtual span, in order.\<close>

fun tiles :: "nat \<Rightarrow> pool_mapping list \<Rightarrow> bool" where
  "tiles c [] = True"
| "tiles c (m # ms) = (m_vaddr m = c \<and> tiles (c + m_size m) ms)"

definition msum :: "pool_mapping list \<Rightarrow> nat" where
  "msum ms = sum_list (map m_size ms)"

lemma msum_simps [simp]: "msum [] = 0" "msum (m # ms) = m_size m + msum ms"
  by (simp_all add: msum_def)

definition nonempty :: "(nat \<times> nat) list \<Rightarrow> (nat \<times> nat) list" where
  "nonempty m = filter (\<lambda>r. snd r \<noteq> 0) m"

lemma mphys_simps [simp]:
  "mphys [] = {}" "mphys (m # ms) = {m_phys m ..< m_phys m + m_size m} \<union> mphys ms"
  by (simp_all add: mphys_def)

lemma fl_cover_simps [simp]:
  "fl_cover [] = {}" "fl_cover (r # rs) = {fst r ..< fst r + snd r} \<union> fl_cover rs"
  by (simp_all add: fl_cover_set)

lemma pool_take_spec:
  assumes "fl_wf m" and "current + remaining < U64" and "pool_take g current remaining m = (ms, fs, left)"
  shows "left \<le> remaining \<and> msum ms + left = remaining \<and> (left = 0 \<or> msum ms = free_bytes m)
    \<and> tiles current ms \<and> (\<forall>k\<in>set ms. m_ok k \<and> m_gpu k = g)
    \<and> fl_wf (nonempty fs)
    \<and> (\<forall>r\<in>set (nonempty fs). \<exists>q\<in>set m. fst q \<le> fst r \<and> fst r + snd r = fst q + snd q)
    \<and> fl_cover (nonempty fs) \<union> mphys ms = fl_cover m \<and> fl_cover (nonempty fs) \<inter> mphys ms = {}
    \<and> msum ms \<le> free_bytes m"
  using assms
proof (induction g current remaining m arbitrary: ms fs left rule: pool_take.induct)
  case (1 g current remaining)
  then show ?case by (auto simp: nonempty_def)
next
  case (2 g current remaining s n rs)
  have wf: "fl_wf rs" and pos: "0 < n" and s64: "s + n < U64"
    and later: "\<forall>r\<in>set rs. s + n < fst r"
    using "2.prems"(1) by (auto simp: fl_wf_def separated_Cons)
  have above: "x \<in> fl_cover rs \<Longrightarrow> s + n < x" for x
    using later by (fastforce simp: fl_cover_set)
  show ?case
  proof (cases "remaining = 0")
    case True
    obtain ms' fs' left' where t: "pool_take g current remaining rs = (ms', fs', left')"
      by (metis prod_cases3)
    have res: "ms = ms'" "fs = (s, n) # fs'" "left = left'"
      using "2.prems"(3) True t by auto
    note IH = "2.IH"(1) [OF disjI1 [OF True] wf "2.prems"(2) t]
    have "fl_wf ((s, n) # nonempty fs')"
      using IH True later pos s64 by (fastforce simp: fl_wf_def separated_Cons)
    then have fw: "fl_wf (nonempty fs)" using res pos by (simp add: nonempty_def)
    have up: "x \<in> mphys ms' \<Longrightarrow> s + n < x" for x using IH above by blast
    have cov: "fl_cover (nonempty fs) = {s ..< s + n} \<union> fl_cover (nonempty fs')"
      using res pos by (simp add: nonempty_def)
    have "fl_cover (nonempty fs) \<inter> mphys ms = {}"
      unfolding cov res(1) using IH up by fastforce
    moreover have "fl_cover (nonempty fs) \<union> mphys ms = fl_cover ((s, n) # rs)"
      unfolding cov res(1) using IH by auto
    moreover have "\<exists>q\<in>set ((s, n) # rs). fst q \<le> fst r \<and> fst r + snd r = fst q + snd q"
      if "r \<in> set (nonempty fs)" for r
      using that IH res(2) pos by (auto simp: nonempty_def split: if_splits)
    ultimately show ?thesis using IH True pos res fw by auto
  next
    case False
    obtain part where part: "part = min n remaining" by simp
    have p: "0 < part" "part \<le> n" "part \<le> remaining" using part pos False by auto
    have add: "add64 current part = current + part" "add64 s part = s + part"
      using p "2.prems"(2) s64 by (auto intro!: add64_exact)
    obtain ms' fs' left' where
      t: "pool_take g (current + part) (remaining - part) rs = (ms', fs', left')"
      by (metis prod_cases3)
    let ?k = "\<lparr>m_vaddr = current, m_size = part, m_phys = s, m_gpu = g\<rparr>"
    have res: "ms = ?k # ms'" "fs = (s + part, n - part) # fs'" "left = left'"
      using "2.prems"(3) False pos t add part by (auto simp: Let_def)
    have "current + part + (remaining - part) < U64" using "2.prems"(2) p by simp
    then have IH: "left' \<le> remaining - part \<and> msum ms' + left' = remaining - part
      \<and> (left' = 0 \<or> msum ms' = free_bytes rs)
      \<and> tiles (current + part) ms' \<and> (\<forall>k\<in>set ms'. m_ok k \<and> m_gpu k = g)
      \<and> fl_wf (nonempty fs')
      \<and> (\<forall>r\<in>set (nonempty fs'). \<exists>q\<in>set rs. fst q \<le> fst r \<and> fst r + snd r = fst q + snd q)
      \<and> fl_cover (nonempty fs') \<union> mphys ms' = fl_cover rs
      \<and> fl_cover (nonempty fs') \<inter> mphys ms' = {} \<and> msum ms' \<le> free_bytes rs"
      using "2.IH"(2) [OF _ part wf] False pos t add by simp
    have full: "left' = 0 \<or> part = n" using IH part by auto
    have kok: "m_ok ?k" using p "2.prems"(2) s64 by (auto simp: m_ok_def)
    have ends: "\<forall>r\<in>set (nonempty fs'). s + n < fst r"
      using IH later by (meson less_le_trans)
    have fw: "fl_wf (nonempty fs)"
      using IH ends s64 p res(2) by (auto simp: nonempty_def fl_wf_def separated_Cons)
    have cov: "fl_cover (nonempty fs) = {s + part ..< s + n} \<union> fl_cover (nonempty fs')"
      using res(2) p by (auto simp: nonempty_def)
    have phys: "mphys ms = {s ..< s + part} \<union> mphys ms'" using res(1) by simp
    have up: "x \<in> fl_cover (nonempty fs') \<or> x \<in> mphys ms' \<Longrightarrow> s + n < x" for x
      using IH above by blast
    have "fl_cover (nonempty fs) \<union> mphys ms = fl_cover ((s, n) # rs)"
      unfolding cov phys using IH p by auto
    moreover have "fl_cover (nonempty fs) \<inter> mphys ms = {}"
      unfolding cov phys using IH p up by fastforce
    moreover have "\<exists>q\<in>set ((s, n) # rs). fst q \<le> fst r \<and> fst r + snd r = fst q + snd q"
      if "r \<in> set (nonempty fs)" for r
      using that IH res(2) p by (auto simp: nonempty_def split: if_splits)
    ultimately show ?thesis
      using IH res p full kok fw by auto
  qed
qed

lemma pool_take_phys:
  assumes "fl_wf m" and "current + remaining < U64" and "pool_take g current remaining m = (ms, fs, left)"
  shows "sorted_wrt (\<lambda>a b. m_phys a + m_size a \<le> m_phys b) ms"
  using assms
proof (induction g current remaining m arbitrary: ms fs left rule: pool_take.induct)
  case (2 g current remaining s n rs)
  have wf: "fl_wf rs" and pos: "0 < n" and s64: "s + n < U64"
    and later: "\<forall>r\<in>set rs. s + n < fst r"
    using "2.prems"(1) by (auto simp: fl_wf_def separated_Cons)
  show ?case
  proof (cases "remaining = 0")
    case True
    then show ?thesis
      using "2.IH"(1) [OF disjI1 [OF True] wf "2.prems"(2)] "2.prems"(3)
      by (cases "pool_take g current remaining rs") auto
  next
    case False
    obtain part where part: "part = min n remaining" by simp
    have p: "0 < part" "part \<le> n" "part \<le> remaining" using part pos False by auto
    have add: "add64 current part = current + part" "add64 s part = s + part"
      using p "2.prems"(2) s64 by (auto intro!: add64_exact)
    obtain ms' fs' left' where
      t: "pool_take g (current + part) (remaining - part) rs = (ms', fs', left')"
      by (metis prod_cases3)
    have res: "ms = \<lparr>m_vaddr = current, m_size = part, m_phys = s, m_gpu = g\<rparr> # ms'"
      using "2.prems"(3) False pos t add part by (auto simp: Let_def)
    have c64: "current + part + (remaining - part) < U64" using "2.prems"(2) p by simp
    have IH: "sorted_wrt (\<lambda>a b. m_phys a + m_size a \<le> m_phys b) ms'"
      using "2.IH"(2) [OF _ part wf] False pos t add c64 by simp
    have "s + part \<le> m_phys k" if k: "k \<in> set ms'" for k
    proof -
      note spec = pool_take_spec [OF wf c64 t]
      have "m_ok k" using spec k by blast
      then have "m_phys k \<in> mphys ms'" using k by (force simp: mphys_def m_ok_def)
      then have "m_phys k \<in> fl_cover rs" using spec by blast
      then have "s + n < m_phys k" using later by (fastforce simp: fl_cover_set)
      then show ?thesis using p by simp
    qed
    then show ?thesis using IH res by simp
  qed
qed simp

lemma tiles_wf:
  "tiles c ms \<Longrightarrow> \<forall>m\<in>set ms. m_ok m \<Longrightarrow> ms_wf ms \<and> (\<forall>m\<in>set ms. c \<le> m_vaddr m)
     \<and> (\<forall>a. mview ms a \<noteq> None \<longleftrightarrow> c \<le> a \<and> a < c + msum ms)"
proof (induction c ms rule: tiles.induct)
  case (2 c m ms)
  then have IH: "ms_wf ms" "\<forall>k\<in>set ms. c + m_size m \<le> m_vaddr k"
    "\<forall>a. mview ms a \<noteq> None \<longleftrightarrow> c + m_size m \<le> a \<and> a < c + m_size m + msum ms"
    by simp_all
  have dom: "mdom m = {c ..< c + m_size m}" using "2.prems"(1) by (simp add: mdom_def)
  have "\<forall>k\<in>set ms. mdom m \<inter> mdom k = {}"
    unfolding dom using IH(2) by (fastforce simp: mdom_def)
  moreover have "mview (m # ms) a \<noteq> None \<longleftrightarrow> c \<le> a \<and> a < c + msum (m # ms)" for a
    using spec [OF IH(3), of a] dom by auto
  moreover have "\<forall>k\<in>set (m # ms). c \<le> m_vaddr k"
    using IH(2) "2.prems"(1) by fastforce
  ultimately show ?case using IH(1) "2.prems"(2) by simp
qed simp

lemma mview_ex:
  assumes "ms_wf ms" and "mview ms a = Some x"
  obtains m where "m \<in> set ms" and "a \<in> mdom m" and "x = translate m a"
proof -
  from assms(2) have "mview ms a \<noteq> None" by simp
  then obtain m where m: "m \<in> set ms" "a \<in> mdom m" by (auto simp: mview_None)
  then have "x = translate m a" using mview_member [OF assms(1) m] assms(2) by simp
  then show thesis using m that by blast
qed

lemma sorted_phys_inj:
  assumes "ms_wf ms" and "sorted_wrt (\<lambda>a b. m_phys a + m_size a \<le> m_phys b) ms"
    and "mview ms a = Some x" and "mview ms b = Some x"
  shows "a = b"
  using assms
proof (induction ms)
  case (Cons m ms)
  have in_tail: "x \<ge> m_phys m + m_size m" if c: "mview ms c = Some x" for c
  proof -
    have "ms_wf ms" using Cons.prems(1) by simp
    then obtain k where k: "k \<in> set ms" "c \<in> mdom k" "x = translate k c"
      using c by (rule mview_ex)
    then show ?thesis using Cons.prems(2) by (fastforce simp: translate_def)
  qed
  have in_head: "translate m c < m_phys m + m_size m" if "c \<in> mdom m" for c
    using that by (auto simp: translate_def mdom_def)
  consider "a \<in> mdom m" "b \<in> mdom m" | "a \<notin> mdom m" "b \<notin> mdom m"
    | "a \<in> mdom m" "b \<notin> mdom m" | "a \<notin> mdom m" "b \<in> mdom m" by blast
  then show ?case
  proof cases
    case 1
    then show ?thesis using Cons.prems(3,4) by (auto simp: translate_def mdom_def)
  next
    case 2
    then show ?thesis using Cons by simp
  next
    case 3
    then show ?thesis using in_tail [of b] in_head [of a] Cons.prems(3,4) by auto
  next
    case 4
    then show ?thesis using in_tail [of a] in_head [of b] Cons.prems(3,4) by auto
  qed
qed simp

section \<open>Invariant\<close>

text \<open>
  The mappings are an injective translation from virtual to physical addresses, and no
  physical address is both mapped and free.
\<close>

definition pool_inv :: "pooled_memory \<Rightarrow> bool" where
  "pool_inv p \<longleftrightarrow> fl_wf (pool_free p) \<and> ms_wf (pool_mappings p)
     \<and> (\<forall>a b x. mview (pool_mappings p) a = Some x \<longrightarrow> mview (pool_mappings p) b = Some x \<longrightarrow> a = b)
     \<and> mphys (pool_mappings p) \<inter> fl_cover (pool_free p) = {}"

definition pool_owned :: "pooled_memory \<Rightarrow> nat set" where
  "pool_owned p = fl_cover (pool_free p) \<union> mphys (pool_mappings p)"

lemma pool_inv_init: "pool_inv Pool_init"
  by (simp add: pool_inv_def Pool_init_def fl_wf_def)

lemma mphys_append [simp]: "mphys (ms @ ks) = mphys ms \<union> mphys ks"
  by (auto simp: mphys_def)

lemma mview_in_phys: "ms_wf ms \<Longrightarrow> mview ms a = Some x \<Longrightarrow> x \<in> mphys ms"
  using ran_mview [of ms] by (auto simp: ran_def)

lemma Pool_Allocate_spec:
  assumes "pool_inv p" and "0 < vaddr" and "0 < n" and "vaddr + n < U64"
    and "\<forall>a\<in>{vaddr ..< vaddr + n}. mview (pool_mappings p) a = None"
    and "Pool_Allocate vaddr n g p = (r, p')"
  shows "case r of
      None \<Rightarrow> free_bytes (pool_free p) < n \<and> p' = p
    | Some ms \<Rightarrow> n \<le> free_bytes (pool_free p) \<and> pool_inv p' \<and> tiles vaddr ms \<and> msum ms = n
        \<and> pool_mappings p' = pool_mappings p @ ms \<and> ms_wf ms
        \<and> mphys ms \<subseteq> fl_cover (pool_free p)
        \<and> fl_cover (pool_free p') = fl_cover (pool_free p) - mphys ms
        \<and> pool_expansions p' = pool_expansions p
        \<and> (\<forall>a. mview (pool_mappings p') a \<noteq> None \<longleftrightarrow>
              mview (pool_mappings p) a \<noteq> None \<or> vaddr \<le> a \<and> a < vaddr + n)"
proof -
  have fwf: "fl_wf (pool_free p)" and mwf: "ms_wf (pool_mappings p)"
    and inj: "\<And>a b x. mview (pool_mappings p) a = Some x \<Longrightarrow> mview (pool_mappings p) b = Some x \<Longrightarrow> a = b"
    and dis: "mphys (pool_mappings p) \<inter> fl_cover (pool_free p) = {}"
    using assms(1) unfolding pool_inv_def by blast+
  obtain ms fs left where take: "pool_take g vaddr n (pool_free p) = (ms, fs, left)"
    by (metis prod_cases3)
  note spec = pool_take_spec [OF fwf assms(4) take]
  have args: "\<not> (vaddr = 0 \<or> n = 0 \<or> (U64 - 1) - vaddr < n)" using assms(2-4) by auto
  show ?thesis
  proof (cases "left = 0")
    case False
    then have "r = None" "p' = p" using assms(6) args take by (auto simp: Pool_Allocate_def)
    moreover have "free_bytes (pool_free p) < n" using spec False by linarith
    ultimately show ?thesis by simp
  next
    case True
    have res: "r = Some ms" "p' = p\<lparr>pool_free := nonempty fs, pool_mappings := pool_mappings p @ ms\<rparr>"
      using assms(6) args take True by (auto simp: Pool_Allocate_def nonempty_def)
    have til: "tiles vaddr ms" "\<forall>m\<in>set ms. m_ok m" "msum ms = n" using spec True by auto
    note tw = tiles_wf [OF til(1,2)]
    have cov: "fl_cover (nonempty fs) = fl_cover (pool_free p) - mphys ms"
      and sub: "mphys ms \<subseteq> fl_cover (pool_free p)"
      using spec by blast+
    have sep: "mdom m \<inter> mdom k = {}" if mk: "m \<in> set (pool_mappings p)" "k \<in> set ms" for m k
    proof (rule ccontr)
      assume "mdom m \<inter> mdom k \<noteq> {}"
      then obtain a where a: "a \<in> mdom m" "a \<in> mdom k" by blast
      then have "mview ms a \<noteq> None" using mk(2) by (auto simp: mview_None)
      then have "mview (pool_mappings p) a = None" using tw til(3) assms(5) by auto
      then show False using a(1) mk(1) by (auto simp: mview_None)
    qed
    have wf': "ms_wf (pool_mappings p @ ms)" using mwf tw sep by simp
    have inj': "a = b" if ab: "mview (pool_mappings p @ ms) a = Some x"
      "mview (pool_mappings p @ ms) b = Some x" for a b x
    proof -
      have old: "x \<notin> mphys ms" if "mview (pool_mappings p) c = Some x" for c
        using mview_in_phys [OF mwf that] dis sub by blast
      have new: "x \<in> mphys ms" if "mview ms c = Some x" for c
        using mview_in_phys that tw by blast
      show ?thesis
        using ab inj [of a x b] old [of a] old [of b] new [of a] new [of b]
          sorted_phys_inj [OF _ pool_take_phys [OF fwf assms(4) take], of a x b] tw
        by (auto simp: mview_append split: option.splits)
    qed
    have "pool_inv p'"
      unfolding pool_inv_def
    proof (intro conjI allI impI)
      show "fl_wf (pool_free p')" using res spec by simp
      show "ms_wf (pool_mappings p')" using res wf' by simp
      show "mphys (pool_mappings p') \<inter> fl_cover (pool_free p') = {}"
        using res cov dis by auto
      show "a = b" if "mview (pool_mappings p') a = Some x" "mview (pool_mappings p') b = Some x"
        for a b x
        using that inj' res by simp
    qed
    moreover have "mview (pool_mappings p') a \<noteq> None \<longleftrightarrow>
        mview (pool_mappings p) a \<noteq> None \<or> vaddr \<le> a \<and> a < vaddr + n" for a
      using res tw til(3) by (auto simp: mview_append split: option.splits)
    ultimately show ?thesis
      using res til tw cov sub spec by auto
  qed
qed

lemma fold_free_cover:
  assumes "fl_wf m" and "\<forall>k\<in>set ms. m_ok k"
  shows "fl_wf (fold (\<lambda>k. AddFreeUnlocked (m_phys k) (m_size k)) ms m)"
    and "fl_cover (fold (\<lambda>k. AddFreeUnlocked (m_phys k) (m_size k)) ms m) = fl_cover m \<union> mphys ms"
proof -
  let ?b = "\<lambda>k. (m_phys k, m_phys k + m_size k)"
  have eq: "fold (\<lambda>k. AddFreeUnlocked (m_phys k) (m_size k)) ms m
      = fold (\<lambda>r. AddFreeUnlocked (fst r) (snd r - fst r)) (map ?b ms) m"
    by (simp add: fold_map comp_def)
  have ok: "\<forall>r\<in>set (map ?b ms). fl_ok (fst r) (snd r)"
    using assms(2) by (auto simp: fl_ok_def m_ok_def)
  show "fl_wf (fold (\<lambda>k. AddFreeUnlocked (m_phys k) (m_size k)) ms m)"
    unfolding eq using pool.wf_fold_put [OF assms(1) ok] .
  have "spans (map ?b ms) = mphys ms" by (simp add: spans_def mphys_def)
  then show "fl_cover (fold (\<lambda>k. AddFreeUnlocked (m_phys k) (m_size k)) ms m) = fl_cover m \<union> mphys ms"
    unfolding eq using pool.cover_fold_put [OF assms(1) ok] by simp
qed

lemma ran_if:
  "ran (\<lambda>a. if P a then m a else None) = {x. \<exists>a. P a \<and> m a = Some x}"
  "ran (\<lambda>a. if P a then None else m a) = {x. \<exists>a. \<not> P a \<and> m a = Some x}"
  unfolding ran_def by (rule Collect_cong, metis option.distinct(1))+

lemma Pool_Release_spec:
  assumes "pool_inv p" and "0 < vaddr" and "0 < n" and "vaddr + n < U64"
    and "Pool_Release vaddr n p = (r, p')"
  shows "if r = None
    then p' = p \<and> (\<exists>a\<in>{vaddr ..< vaddr + n}. mview (pool_mappings p) a = None)
    else pool_inv p' \<and> (\<forall>a\<in>{vaddr ..< vaddr + n}. mview (pool_mappings p) a \<noteq> None)
      \<and> mview (pool_mappings p')
          = (\<lambda>a. if vaddr \<le> a \<and> a < vaddr + n then None else mview (pool_mappings p) a)
      \<and> fl_cover (pool_free p') = fl_cover (pool_free p)
          \<union> {x. \<exists>a\<in>{vaddr ..< vaddr + n}. mview (pool_mappings p) a = Some x}
      \<and> pool_owned p' = pool_owned p \<and> pool_expansions p' = pool_expansions p"
proof -
  let ?old = "pool_mappings p"
  have fwf: "fl_wf (pool_free p)" and mwf: "ms_wf ?old"
    and inj: "\<And>a b x. mview ?old a = Some x \<Longrightarrow> mview ?old b = Some x \<Longrightarrow> a = b"
    and dis: "mphys ?old \<inter> fl_cover (pool_free p) = {}"
    using assms(1) unfolding pool_inv_def by blast+
  have args: "\<not> (vaddr = 0 \<or> n = 0 \<or> (U64 - 1) - vaddr < n)" using assms(2-4) by auto
  have ve: "add64 vaddr n = vaddr + n" using assms(4) by (rule add64_exact)
  have q: "Pool_Query vaddr n p = query_loop ?old (vaddr + n) vaddr"
    using args ve by (simp add: Pool_Query_def)
  note spec = query_loop_spec [OF mwf, where e = "vaddr + n" and current = vaddr]
  show ?thesis
  proof (cases "query_loop ?old (vaddr + n) vaddr")
    case None
    then have "r = None" "p' = p" using assms(5) q by (simp_all add: Pool_Release_def)
    then show ?thesis using spec None by simp
  next
    case (Some rel)
    let ?kept = "concat (map (keep_piece vaddr (vaddr + n)) ?old)"
    let ?free = "fold (\<lambda>m. AddFreeUnlocked (m_phys m) (m_size m)) rel (pool_free p)"
    have r: "r \<noteq> None" "p' = p\<lparr>pool_mappings := ?kept, pool_free := ?free\<rparr>"
      using assms(5) q Some ve by (auto simp: Pool_Release_def)
    have rel: "ms_wf rel" "\<forall>a\<in>{vaddr ..< vaddr + n}. mview ?old a \<noteq> None"
      "mview rel = (\<lambda>a. if vaddr \<le> a \<and> a < vaddr + n then mview ?old a else None)"
      using spec Some by simp_all
    have "vaddr < vaddr + n" using assms(3) by simp
    note kept = kept_spec [OF mwf this]
    have ok: "\<forall>k\<in>set rel. m_ok k" using rel(1) by (simp add: ms_wf_def)
    note free = fold_free_cover [OF fwf ok]
    have prel: "mphys rel = {x. \<exists>a\<in>{vaddr ..< vaddr + n}. mview ?old a = Some x}"
      unfolding ran_mview [OF rel(1), symmetric] rel(3) ran_if(1)
      by (rule Collect_cong) (simp only: atLeastLessThan_iff Bex_def)
    have pkept: "mphys ?kept = {x. \<exists>a. \<not> (vaddr \<le> a \<and> a < vaddr + n) \<and> mview ?old a = Some x}"
      using ran_mview [OF conjunct1 [OF kept], symmetric]
      by (simp only: conjunct1 [OF conjunct2 [OF kept]] ran_if(2))
    have pold: "mphys ?old = {x. \<exists>a. mview ?old a = Some x}"
      using ran_mview [OF mwf] by (simp add: ran_def)
    have both: "mphys rel \<union> mphys ?kept = mphys ?old" unfolding prel pkept pold
      by (rule set_eqI, simp only: Un_iff mem_Collect_eq Bex_def atLeastLessThan_iff) blast
    have apart: "mphys rel \<inter> mphys ?kept = {}"
    proof (rule ccontr)
      assume "mphys rel \<inter> mphys ?kept \<noteq> {}"
      then obtain x where "x \<in> mphys rel" "x \<in> mphys ?kept" by blast
      then obtain a b where "vaddr \<le> a" "a < vaddr + n" "mview ?old a = Some x"
        "\<not> (vaddr \<le> b \<and> b < vaddr + n)" "mview ?old b = Some x"
        unfolding prel pkept mem_Collect_eq Bex_def atLeastLessThan_iff by blast
      then show False using inj [of a x b] by blast
    qed
    have "pool_inv p'"
      unfolding pool_inv_def
    proof (intro conjI allI impI)
      show "fl_wf (pool_free p')" using r free by simp
      show "ms_wf (pool_mappings p')" using r kept by simp
      have "mphys ?kept \<inter> (fl_cover (pool_free p) \<union> mphys rel) = {}" using both apart dis by blast
      then show "mphys (pool_mappings p') \<inter> fl_cover (pool_free p') = {}" using r free by simp
      show "a = b" if "mview (pool_mappings p') a = Some x" "mview (pool_mappings p') b = Some x"
        for a b x
        using that inj kept r by (simp split: if_splits)
    qed
    moreover have "pool_owned p' = pool_owned p"
      using r free both by (auto simp: pool_owned_def)
    moreover have "mview (pool_mappings p')
        = (\<lambda>a. if vaddr \<le> a \<and> a < vaddr + n then None else mview ?old a)"
      "fl_cover (pool_free p') = fl_cover (pool_free p) \<union> mphys rel"
      "pool_expansions p' = pool_expansions p"
      using r kept free by simp_all
    ultimately show ?thesis
      unfolding if_not_P [OF r(1)] using rel(2) prel by (intro conjI) simp_all
  qed
qed

lemma Pool_Expand_spec:
  assumes "pool_inv p" and "0 < n" and "start + n < U64"
    and "{start ..< start + n} \<inter> pool_owned p = {}"
  shows "pool_inv (Pool_Expand start n p)"
    and "pool_owned (Pool_Expand start n p) = pool_owned p \<union> {start ..< start + n}"
    and "fl_cover (pool_free (Pool_Expand start n p)) = fl_cover (pool_free p) \<union> {start ..< start + n}"
proof -
  have ok: "fl_ok start (start + n)" using assms(2,3) by (simp add: fl_ok_def)
  have wf: "fl_wf (pool_free p)" using assms(1) by (simp add: pool_inv_def)
  note add = AddFreeUnlocked_spec [OF wf ok]
  show "fl_cover (pool_free (Pool_Expand start n p)) = fl_cover (pool_free p) \<union> {start ..< start + n}"
    using add by (simp add: Pool_Expand_def)
  then show "pool_owned (Pool_Expand start n p) = pool_owned p \<union> {start ..< start + n}"
    by (auto simp: pool_owned_def Pool_Expand_def)
  show "pool_inv (Pool_Expand start n p)"
    using assms add unfolding pool_inv_def pool_owned_def by (auto simp: Pool_Expand_def)
qed

section \<open>Sizes\<close>

lemma card_dom_mview:
  assumes "ms_wf ms"
  shows "finite (dom (mview ms)) \<and> card (dom (mview ms)) = msum ms"
  using assms
proof (induction ms)
  case Nil
  then show ?case by (simp add: dom_def)
next
  case (Cons m ms)
  have d: "dom (mview (m # ms)) = mdom m \<union> dom (mview ms)" by auto
  have "mdom m \<inter> dom (mview ms) = {}" using Cons.prems by (auto simp: dom_def mview_None)
  moreover have "finite (mdom m)" "card (mdom m) = m_size m" by (simp_all add: mdom_def)
  ultimately show ?case
    unfolding d using Cons by (simp add: card_Un_disjoint)
qed

lemma pool_bytes_bound:
  assumes "pool_inv p" and "mphys (pool_mappings p) \<subseteq> {0 ..< N}"
  shows "msum (pool_mappings p) \<le> N"
proof -
  let ?v = "mview (pool_mappings p)"
  have wf: "ms_wf (pool_mappings p)"
    and inj: "\<And>a b x. ?v a = Some x \<Longrightarrow> ?v b = Some x \<Longrightarrow> a = b"
    using assms(1) unfolding pool_inv_def by blast+
  have "inj_on (\<lambda>a. the (?v a)) (dom ?v)"
    by (rule inj_onI) (metis domD inj option.sel)
  moreover have "(\<lambda>a. the (?v a)) ` dom ?v \<subseteq> {0 ..< N}"
    using assms(2) ran_mview [OF wf] by (force simp: ran_def)
  ultimately have "card (dom ?v) \<le> card {0 ..< N}" by (rule card_inj_on_le) simp
  then show ?thesis using card_dom_mview [OF wf] by simp
qed

section \<open>\<open>Release\<close> after \<open>Allocate\<close>\<close>

lemma keep_all:
  assumes "\<forall>m\<in>set ms. m_ok m \<and> mdom m \<inter> {vaddr ..< e} = {}" and "vaddr < e"
  shows "concat (map (keep_piece vaddr e) ms) = ms"
  using assms(1)
proof (induction ms)
  case (Cons m ms)
  have "max vaddr (m_vaddr m) \<ge> min e (m_vaddr m + m_size m)"
  proof (rule ccontr)
    assume "\<not> max vaddr (m_vaddr m) \<ge> min e (m_vaddr m + m_size m)"
    then have "max vaddr (m_vaddr m) \<in> mdom m \<inter> {vaddr ..< e}" by (auto simp: mdom_def)
    then show False using Cons.prems by auto
  qed
  then show ?case using Cons keep_piece_eq [of m vaddr e] assms(2) by simp
qed simp

lemma keep_none:
  assumes "\<forall>m\<in>set ms. m_ok m \<and> mdom m \<subseteq> {vaddr ..< e}" and "vaddr < e"
  shows "concat (map (keep_piece vaddr e) ms) = []"
  using assms(1)
proof (induction ms)
  case (Cons m ms)
  have "0 < m_size m" using Cons.prems by (simp add: m_ok_def)
  then have "{m_vaddr m, m_vaddr m + m_size m - 1} \<subseteq> mdom m" by (auto simp: mdom_def)
  then have "{m_vaddr m, m_vaddr m + m_size m - 1} \<subseteq> {vaddr ..< e}" using Cons.prems by auto
  then have "vaddr \<le> m_vaddr m" "m_vaddr m + m_size m \<le> e"
    using \<open>0 < m_size m\<close> by auto
  then show ?case using Cons keep_piece_eq [of m vaddr e] assms(2) \<open>0 < m_size m\<close> by simp
qed simp

lemma tiles_inside:
  "tiles c ms \<Longrightarrow> \<forall>m\<in>set ms. m_ok m \<Longrightarrow> \<forall>m\<in>set ms. mdom m \<subseteq> {c ..< c + msum ms}"
proof (induction c ms rule: tiles.induct)
  case (2 c m ms)
  then have "\<forall>k\<in>set ms. mdom k \<subseteq> {c + m_size m ..< c + m_size m + msum ms}" by simp
  then show ?case using 2 by (fastforce simp: mdom_def)
qed simp

lemma Pool_Release_undoes:
  assumes "pool_inv p" and "0 < vaddr" and "0 < n" and "vaddr + n < U64"
    and "\<forall>a\<in>{vaddr ..< vaddr + n}. mview (pool_mappings p) a = None"
    and "Pool_Allocate vaddr n g p = (Some ms, p')" and "Pool_Release vaddr n p' = (r, p'')"
  shows "r \<noteq> None \<and> p'' = p"
proof -
  have al: "pool_inv p'" "tiles vaddr ms" "msum ms = n"
    "pool_mappings p' = pool_mappings p @ ms" "ms_wf ms"
    "mphys ms \<subseteq> fl_cover (pool_free p)"
    "fl_cover (pool_free p') = fl_cover (pool_free p) - mphys ms"
    "pool_expansions p' = pool_expansions p"
    using Pool_Allocate_spec [OF assms(1-6)] unfolding option.case by blast+
  note rel = Pool_Release_spec [OF al(1) assms(2-4,7)]
  have ok: "\<forall>m\<in>set ms. m_ok m" using al(5) by (simp add: ms_wf_def)
  have tw: "mview ms a \<noteq> None \<longleftrightarrow> vaddr \<le> a \<and> a < vaddr + n" for a
    using tiles_wf [OF al(2) ok] al(3) by simp
  have view': "mview (pool_mappings p') a = mview ms a" if "vaddr \<le> a" "a < vaddr + n" for a
    using that assms(5) by (simp add: al(4) mview_append)
  then have mapped: "\<forall>a\<in>{vaddr ..< vaddr + n}. mview (pool_mappings p') a \<noteq> None"
    using tw by auto
  then have r: "r \<noteq> None" using rel by (cases "r = None") (auto simp: Bex_def Ball_def)
  have lt: "vaddr < vaddr + n" using assms(3) by simp
  have old: "\<forall>m\<in>set (pool_mappings p). m_ok m \<and> mdom m \<inter> {vaddr ..< vaddr + n} = {}"
    using assms(1,5) by (fastforce simp: pool_inv_def ms_wf_def mview_None)
  have "\<forall>m\<in>set ms. m_ok m \<and> mdom m \<subseteq> {vaddr ..< vaddr + n}"
    using tiles_inside [OF al(2) ok] ok al(3) by simp
  then have "concat (map (keep_piece vaddr (vaddr + n)) (pool_mappings p')) = pool_mappings p"
    unfolding al(4) using keep_all [OF old lt] keep_none [OF _ lt] by simp
  then have maps: "pool_mappings p'' = pool_mappings p"
    using assms(4,7) r by (auto simp: Pool_Release_def add64_exact split: option.splits)
  have "{x. \<exists>a\<in>{vaddr ..< vaddr + n}. mview (pool_mappings p') a = Some x} = mphys ms"
    unfolding ran_mview [OF al(5), symmetric] ran_def
    using view' tw by (metis (no_types, lifting) atLeastLessThan_iff option.distinct(1))
  then have "fl_cover (pool_free p'') = fl_cover (pool_free p)"
    using rel r al(6,7) by auto
  moreover have "fl_wf (pool_free p'')" "fl_wf (pool_free p)"
    using rel r assms(1) by (simp_all add: pool_inv_def)
  ultimately have "pool_free p'' = pool_free p" by (intro pool.canonical)
  moreover have "pool_expansions p'' = pool_expansions p" using rel r al(8) by simp
  ultimately show ?thesis using maps r by (cases p, cases p'') simp
qed

section \<open>\<open>ReleaseExpansion\<close>\<close>

lemma phys_overlap:
  assumes "pool_inv p" and "a + n < U64"
  shows "(\<exists>m\<in>set (pool_mappings p). VirtualRangesOverlap a n (m_phys m) (m_size m))
    \<longleftrightarrow> {a ..< a + n} \<inter> mphys (pool_mappings p) \<noteq> {}"
proof -
  have "m_phys m + m_size m < U64" if "m \<in> set (pool_mappings p)" for m
    using that assms(1) by (simp add: pool_inv_def ms_wf_def m_ok_def)
  then have "VirtualRangesOverlap a n (m_phys m) (m_size m)
      \<longleftrightarrow> {a ..< a + n} \<inter> {m_phys m ..< m_phys m + m_size m} \<noteq> {}"
    if "m \<in> set (pool_mappings p)" for m
    using overlap_iff [OF assms(2)] that by blast
  then show ?thesis unfolding mphys_def by (simp add: Int_UN_distrib)
qed

definition cut_left :: "nat \<Rightarrow> nat \<times> nat \<Rightarrow> (nat \<times> nat) list" where
  "cut_left a r = (if a - fst r \<noteq> 0 then [(fst r, a - fst r)] else [])"

definition cut_right :: "nat \<Rightarrow> nat \<times> nat \<Rightarrow> (nat \<times> nat) list" where
  "cut_right b r = (if fst r + snd r - b \<noteq> 0 then [(b, fst r + snd r - b)] else [])"

lemma fb_starts_sorted: "keys_sorted (map fb m) \<Longrightarrow> sorted_wrt (<) (map fst m)"
  by (simp add: sorted_wrt_map)

lemma cut_sorted:
  assumes "fl_wf m" and "m = pre @ r # post" and "fst r \<le> a" and "a + n \<le> fst r + snd r"
    and "0 < n"
  shows "sort_key fst (((pre @ post) @ cut_left a r) @ cut_right (a + n) r)
      = pre @ cut_left a r @ cut_right (a + n) r @ post"
    and "fl_wf (pre @ cut_left a r @ cut_right (a + n) r @ post)"
    and "fl_cover (pre @ cut_left a r @ cut_right (a + n) r @ post) = fl_cover m - {a ..< a + n}"
proof -
  let ?t = "pre @ cut_left a r @ cut_right (a + n) r @ post"
  have sep: "separated (map fb pre)" "separated (map fb post)"
    "\<forall>x\<in>set pre. fst x + snd x < fst r" "\<forall>y\<in>set post. fst r + snd r < fst y"
    "\<forall>x\<in>set pre. \<forall>y\<in>set post. fst x + snd x < fst y"
    and b64: "\<forall>x\<in>set m. fst x + snd x < U64"
    using assms(1) unfolding fl_wf_def assms(2) by (auto simp: separated_append separated_Cons)
  have "separated (map fb ?t)"
    using sep assms(3-5)
    by (auto simp: separated_append separated_Cons cut_left_def cut_right_def)
  moreover have "\<forall>x\<in>set ?t. fst x + snd x < U64"
    using b64 assms(3-5) unfolding assms(2) by (auto simp: cut_left_def cut_right_def)
  ultimately show wf: "fl_wf ?t" by (simp add: fl_wf_def)
  then have "keys_sorted (map fb ?t)" unfolding fl_wf_def by (intro separated_keys_sorted) simp
  then have strict: "sorted_wrt (<) (map fst ?t)" by (rule fb_starts_sorted)
  then have "distinct (map fst ?t)" "sorted (map fst ?t)"
    by (simp_all only: strict_sorted_iff)
  then have "inj_on fst (set ?t)" by (simp only: distinct_map)
  moreover have "set (((pre @ post) @ cut_left a r) @ cut_right (a + n) r) = set ?t" by auto
  ultimately show "sort_key fst (((pre @ post) @ cut_left a r) @ cut_right (a + n) r) = ?t"
    using \<open>sorted (map fst ?t)\<close> by (intro sort_key_inj_key_eq) simp_all
  have "fl_cover pre \<inter> {a ..< a + n} = {}" "fl_cover post \<inter> {a ..< a + n} = {}"
    using sep(3,4) assms(3,4) by (fastforce simp: fl_cover_set)+
  moreover have "fl_cover (cut_left a r) \<union> fl_cover (cut_right (a + n) r)
      = {fst r ..< fst r + snd r} - {a ..< a + n}"
    using assms(3-5) by (auto simp: cut_left_def cut_right_def)
  ultimately show "fl_cover ?t = fl_cover m - {a ..< a + n}"
    unfolding assms(2) by (auto simp: fl_cover_set)
qed

lemma Pool_ReleaseExpansion_spec:
  assumes "pool_inv p" and "0 < n" and "a + n < U64" and "{a ..< a + n} \<subseteq> pool_owned p"
    and "Pool_ReleaseExpansion a n p = (ok, p')"
  shows "(ok \<longleftrightarrow> (a, n) \<in> set (pool_expansions p) \<and> {a ..< a + n} \<inter> mphys (pool_mappings p) = {})
    \<and> (if ok then pool_inv p' \<and> pool_owned p' = pool_owned p - {a ..< a + n}
         \<and> pool_mappings p' = pool_mappings p
         \<and> pool_expansions p' = remove1 (a, n) (pool_expansions p)
       else p' = p)"
proof (cases "(a, n) \<in> set (pool_expansions p) \<and> {a ..< a + n} \<inter> mphys (pool_mappings p) = {}")
  case False
  have "Pool_ReleaseExpansion a n p = (False, p)"
  proof (cases "(a, n) \<in> set (pool_expansions p)")
    case True
    then have "\<exists>m\<in>set (pool_mappings p). VirtualRangesOverlap a n (m_phys m) (m_size m)"
      using False phys_overlap [OF assms(1,3)] by simp
    then show ?thesis
      unfolding Pool_ReleaseExpansion_def using True by (simp only: simp_thms if_True if_False)
  next
    case False
    then show ?thesis unfolding Pool_ReleaseExpansion_def by (rule if_P)
  qed
  then show ?thesis using False assms(5) by simp
next
  case True
  have fwf: "fl_wf (pool_free p)" using assms(1) by (simp add: pool_inv_def)
  have cov: "{a ..< a + n} \<subseteq> fl_cover (pool_free p)"
    using assms(4) True unfolding pool_owned_def by blast
  let ?holds = "\<lambda>r. a \<ge> fst r \<and> add64 a n \<le> add64 (fst r) (snd r)"
  have ends: "add64 (fst r) (snd r) = fst r + snd r" if "r \<in> set (pool_free p)" for r
    using that fwf by (simp add: fl_wf_def add64_exact)
  have an: "add64 a n = a + n" using assms(3) by (rule add64_exact)
  have "a \<in> fl_cover (pool_free p)" using cov assms(2) by auto
  then obtain r where r: "r \<in> set (pool_free p)" "fst r \<le> a" "a < fst r + snd r"
    by (auto simp: fl_cover_set)
  have "a + n \<le> fst r + snd r" using fl_one_entry [OF fwf _ cov r] assms(2) by simp
  then have "\<exists>r\<in>set (pool_free p). ?holds r" using r ends an by auto
  then obtain old where old: "find ?holds (pool_free p) = Some old"
    by (metis (lifting) find_None_iff not_None_eq)
  then have o: "old \<in> set (pool_free p)" "fst old \<le> a" "a + n \<le> fst old + snd old"
    using ends an by (auto simp: find_Some_iff)
  obtain pre post where split: "pool_free p = pre @ old # post" "old \<notin> set pre"
    using split_list_first [OF o(1)] by blast
  note cut = cut_sorted [OF fwf split(1) o(2,3) assms(2)]
  have old64: "fst old + snd old < U64" using fwf o(1) by (simp add: fl_wf_def)
  have s1: "sub64 a (fst old) = a - fst old" "sub64 (fst old + snd old) (a + n) = fst old + snd old - (a + n)"
    using o old64 assms(3) by (simp_all add: sub64_exact)
  have res: "ok" "p' = p\<lparr>pool_free := pre @ cut_left a old @ cut_right (a + n) old @ post,
      pool_expansions := remove1 (a, n) (pool_expansions p)\<rparr>"
    using assms(5) True phys_overlap [OF assms(1,3)] old cut split(2)
    unfolding Pool_ReleaseExpansion_def Let_def an split(1)
    by (auto simp: remove1_append cut_left_def cut_right_def ends [OF o(1)] s1)
  have "pool_inv p'"
    using assms(1) cut(2,3) unfolding res pool_inv_def by auto
  moreover have "pool_owned p' = pool_owned p - {a ..< a + n}"
    using True cut(3) unfolding res pool_owned_def by auto
  ultimately show ?thesis using True res by simp
qed

section \<open>Reachable pools\<close>

text \<open>
  The pool is expanded with direct memory it does not own yet and allocates at virtual
  addresses that it does not map: the direct memory allocator and the virtual ranges see to
  it. Spans do not wrap.
\<close>

inductive pool_reach :: "pooled_memory \<Rightarrow> bool" where
  init: "pool_reach Pool_init"
| expand: "pool_reach p \<Longrightarrow> 0 < n \<Longrightarrow> start + n < U64 \<Longrightarrow>
    {start ..< start + n} \<inter> pool_owned p = {} \<Longrightarrow> pool_reach (Pool_Expand start n p)"
| allocate: "pool_reach p \<Longrightarrow> 0 < vaddr \<Longrightarrow> 0 < n \<Longrightarrow> vaddr + n < U64 \<Longrightarrow>
    \<forall>a\<in>{vaddr ..< vaddr + n}. mview (pool_mappings p) a = None \<Longrightarrow>
    pool_reach (snd (Pool_Allocate vaddr n g p))"
| release: "pool_reach p \<Longrightarrow> 0 < vaddr \<Longrightarrow> 0 < n \<Longrightarrow> vaddr + n < U64 \<Longrightarrow>
    pool_reach (snd (Pool_Release vaddr n p))"

lemma pool_reach_inv: "pool_reach p \<Longrightarrow> pool_inv p"
proof (induction rule: pool_reach.induct)
  case init
  show ?case by (rule pool_inv_init)
next
  case (expand p n start)
  then show ?case by (intro Pool_Expand_spec)
next
  case (allocate p vaddr n g)
  obtain r p' where res: "Pool_Allocate vaddr n g p = (r, p')" by fastforce
  show ?case
    using Pool_Allocate_spec [OF allocate.IH allocate.hyps(2-5) res] allocate.IH res
    by (cases r) simp_all
next
  case (release p vaddr n)
  obtain r p' where res: "Pool_Release vaddr n p = (r, p')" by fastforce
  show ?case
    using Pool_Release_spec [OF release.IH release.hyps(2-4) res] release.IH res
    by (simp split: if_splits)
qed

section \<open>Properties\<close>

text \<open>
  The pool never hands out a byte twice: in every reachable pool two mapped virtual
  addresses never translate to the same physical address, and no mapped physical address is
  in the free list.
\<close>

theorem pool_translation_injective:
  assumes "pool_reach p"
  shows "(\<forall>a b x. mview (pool_mappings p) a = Some x \<and> mview (pool_mappings p) b = Some x
        \<longrightarrow> a = b)
    \<and> (\<forall>a x. mview (pool_mappings p) a = Some x \<longrightarrow> x \<notin> fl_cover (pool_free p))"
proof -
  have inv: "pool_inv p" using assms by (rule pool_reach_inv)
  then have "ms_wf (pool_mappings p)" by (simp add: pool_inv_def)
  from mview_in_phys [OF this] show ?thesis using inv unfolding pool_inv_def by blast
qed

theorem pool_translation_injective_witness:
  "\<exists>p. pool_reach p \<and> mview (pool_mappings p) 65536 = Some 4096
     \<and> mview (pool_mappings p) 69632 = Some 16384"
proof -
  let ?e = "Pool_Expand 16384 8192 (Pool_Expand 4096 4096 Pool_init)"
  have e1: "pool_reach (Pool_Expand 4096 4096 Pool_init)"
    by (rule pool_reach.expand [OF pool_reach.init])
      (simp_all add: U64_def pool_owned_def Pool_init_def)
  have x1: "Pool_Expand 4096 4096 Pool_init
      = \<lparr>pool_free = [(4096, 4096)], pool_expansions = [(4096, 4096)], pool_mappings = []\<rparr>"
    by (simp add: Pool_Expand_def Pool_init_def AddFreeUnlocked_def)
  have e2: "pool_reach ?e"
    by (rule pool_reach.expand [OF e1]) (simp_all add: x1 U64_def pool_owned_def)
  have x2: "?e = \<lparr>pool_free = [(4096, 4096), (16384, 8192)],
      pool_expansions = [(4096, 4096), (16384, 8192)], pool_mappings = []\<rparr>"
    unfolding x1 by (simp add: Pool_Expand_def AddFreeUnlocked_def add64_def U64_def)
  have e3: "pool_reach (snd (Pool_Allocate 65536 8192 GpuNoAccess ?e))"
    by (rule pool_reach.allocate [OF e2]) (simp_all add: x2 U64_def)
  have x3: "pool_mappings (snd (Pool_Allocate 65536 8192 GpuNoAccess ?e))
      = [\<lparr>m_vaddr = 65536, m_size = 4096, m_phys = 4096, m_gpu = GpuNoAccess\<rparr>,
         \<lparr>m_vaddr = 69632, m_size = 4096, m_phys = 16384, m_gpu = GpuNoAccess\<rparr>]"
    by (simp add: x2 Pool_Allocate_def add64_def U64_def Let_def)
  from pool_translation_injective [OF e3] show ?thesis
    using e3 x3 by (intro exI [of _ "snd (Pool_Allocate 65536 8192 GpuNoAccess ?e)"])
      (simp add: mdom_def translate_def)
qed

text \<open>
  \<open>Allocate\<close> succeeds exactly when the free bytes suffice, whatever their fragmentation;
  the mappings it returns tile the requested virtual span without gaps and take their
  physical bytes from the free list.
\<close>

theorem pool_allocate_complete:
  assumes "pool_reach p" and "0 < vaddr" and "0 < n" and "vaddr + n < U64"
    and "\<forall>a\<in>{vaddr ..< vaddr + n}. mview (pool_mappings p) a = None"
    and "Pool_Allocate vaddr n g p = (r, p')"
  shows "(r \<noteq> None \<longleftrightarrow> n \<le> Pool_Available p)
    \<and> (r = None \<longrightarrow> p' = p)
    \<and> (\<forall>ms. r = Some ms \<longrightarrow> tiles vaddr ms \<and> msum ms = n
         \<and> mphys ms \<subseteq> fl_cover (pool_free p)
         \<and> fl_cover (pool_free p') = fl_cover (pool_free p) - mphys ms
         \<and> pool_mappings p' = pool_mappings p @ ms)"
  using Pool_Allocate_spec [OF pool_reach_inv [OF assms(1)] assms(2-6)]
    Pool_Available_exact [of p] pool_reach_inv [OF assms(1)]
  by (cases r) (auto simp: pool_inv_def)

theorem pool_allocate_complete_witness:
  "\<exists>p. pool_reach p \<and> fst (Pool_Allocate 65536 4096 GpuRead p) \<noteq> None
     \<and> fst (Pool_Allocate 65536 4097 GpuRead p) = None"
proof -
  let ?p = "Pool_Expand 4096 4096 Pool_init"
  have p: "pool_reach ?p"
    by (rule pool_reach.expand [OF pool_reach.init])
      (simp_all add: U64_def pool_owned_def Pool_init_def)
  have x: "pool_free ?p = [(4096, 4096)]" "pool_mappings ?p = []"
    by (simp_all add: Pool_Expand_def Pool_init_def AddFreeUnlocked_def)
  have ok: "(0::nat) < 65536" "(0::nat) < 4096" "(0::nat) < 4097"
    "(65536::nat) + 4096 < U64" "(65536::nat) + 4097 < U64" by (simp_all add: U64_def)
  have free: "\<forall>a\<in>{65536 ..< 65536 + 4096}. mview (pool_mappings ?p) a = None"
    "\<forall>a\<in>{65536 ..< 65536 + 4097}. mview (pool_mappings ?p) a = None"
    by (simp_all add: x)
  note r = pool_allocate_complete [OF p ok(1,2,4) free(1), of GpuRead]
    pool_allocate_complete [OF p ok(1,3,5) free(2), of GpuRead]
  show ?thesis
    using p r(1) [OF prod.collapse [symmetric]] r(2) [OF prod.collapse [symmetric]] x
    by (auto simp: Pool_Available_def add64_def U64_def)
qed

text \<open>
  Release undoes allocation: after the whole span of a successful allocation is
  released, the free list is the one before it, entry by entry, and every other virtual
  address keeps its translation.
\<close>

theorem pool_allocate_release_roundtrip:
  assumes "pool_reach p" and "0 < vaddr" and "0 < n" and "vaddr + n < U64"
    and "\<forall>a\<in>{vaddr ..< vaddr + n}. mview (pool_mappings p) a = None"
    and "Pool_Allocate vaddr n g p = (Some ms, p')" and "Pool_Release vaddr n p' = (r, p'')"
  shows "r \<noteq> None \<and> pool_free p'' = pool_free p
    \<and> mview (pool_mappings p'') = mview (pool_mappings p)"
  using Pool_Release_undoes [OF pool_reach_inv [OF assms(1)] assms(2-7)] by simp

theorem pool_allocate_release_roundtrip_witness:
  "\<exists>p p' p''. pool_reach p \<and> fst (Pool_Allocate 65536 4096 GpuRead p) \<noteq> None
     \<and> p' = snd (Pool_Allocate 65536 4096 GpuRead p) \<and> p'' = snd (Pool_Release 65536 4096 p')
     \<and> pool_free p' = [(8192, 4096)] \<and> pool_free p'' = [(4096, 8192)]"
proof -
  let ?p = "Pool_Expand 4096 8192 Pool_init"
  have p: "pool_reach ?p"
    by (rule pool_reach.expand [OF pool_reach.init])
      (simp_all add: U64_def pool_owned_def Pool_init_def)
  have x: "?p = \<lparr>pool_free = [(4096, 8192)], pool_expansions = [(4096, 8192)], pool_mappings = []\<rparr>"
    by (simp_all add: Pool_Expand_def Pool_init_def AddFreeUnlocked_def)
  let ?m = "\<lparr>m_vaddr = 65536, m_size = 4096, m_phys = 4096, m_gpu = GpuRead\<rparr>"
  let ?p' = "\<lparr>pool_free = [(8192, 4096)], pool_expansions = [(4096, 8192)], pool_mappings = [?m]\<rparr>"
  have al: "Pool_Allocate 65536 4096 GpuRead ?p = (Some [?m], ?p')"
    by (simp add: x Pool_Allocate_def add64_def U64_def Let_def)
  have ok: "(0::nat) < 65536" "(0::nat) < 4096" "(65536::nat) + 4096 < U64"
    by (simp_all add: U64_def)
  have free: "\<forall>a\<in>{65536 ..< 65536 + 4096}. mview (pool_mappings ?p) a = None"
    by (simp add: x)
  obtain r p'' where rel: "Pool_Release 65536 4096 ?p' = (r, p'')" by fastforce
  from pool_allocate_release_roundtrip [OF p ok free al rel]
  have "pool_free p'' = [(4096, 8192)]" by (simp add: x)
  then show ?thesis
    using p al rel by (intro exI [of _ ?p] exI [of _ ?p'] exI [of _ p'']) simp
qed

text \<open>
  The two free lists of the kernel coalesce alike: on a well-formed list the pool's
  \<open>AddFreeUnlocked\<close>, which sorts and merges a vector, computes what the direct memory
  allocator's \<open>AddFreeRange\<close> computes on its map.
\<close>

theorem free_lists_agree:
  assumes "fl_wf m" and "0 < n" and "start + n < U64"
  shows "AddFreeUnlocked start n m = AddFreeRange start n m"
proof -
  have ok: "fl_ok start (start + n)" using assms(2,3) by (simp add: fl_ok_def)
  show ?thesis
    using pool.canonical AddFreeUnlocked_spec [OF assms(1) ok] AddFreeRange_spec [OF assms(1) ok]
    by simp
qed

theorem free_lists_agree_witness:
  "AddFreeUnlocked 8 8 [(0, 4), (16, 4)] = [(0, 4), (8, 12)]
     \<and> AddFreeRange 8 8 [(0, 4), (16, 4)] = [(0, 4), (8, 12)]"
proof -
  have wf: "fl_wf [(0, 4), (16, 4)]" by (simp add: fl_wf_def separated_Cons U64_def)
  have "AddFreeRange 8 8 [(0, 4), (16, 4)] = [(0, 4), (8, 12)]"
    by (simp add: AddFreeRange_def om_below_def om_from_def Let_def add64_def sub64_def U64_def)
  then show ?thesis using free_lists_agree [OF wf, of 8 8] by (simp add: U64_def)
qed

end
