(* ===== verification/PageManager.thy ===== *)
theory PageManager
  imports Prelude
begin

text \<open>
  \<open>class PageManager\<close> of \<open>graphics/host_gpu/pageManager.cpp\<close>: the write and access watchers the
  GPU caches put on guest pages, the host page protection that enforces them, and the
  handling of the faults they cause. Pages are numbered from address 0; \<open>pm_host\<close> is the
  state of each page in the operating system, which only \<open>QueryProtection\<close> and \<open>Protect\<close>
  touch here. Every page is changed under its own spin lock, so one turn of a loop over pages
  is a function on one page.
\<close>

section \<open>Addresses\<close>

definition PAGE_SIZE :: nat where "PAGE_SIZE = 4096"

definition REGION_SIZE :: nat where "REGION_SIZE = 4 * 1024 * 1024"

definition ADDRESS_SIZE :: nat where "ADDRESS_SIZE = 2 ^ 47"

definition REGION_PAGES :: nat where "REGION_PAGES = 1024"

definition ValidRange :: "nat \<Rightarrow> nat \<Rightarrow> bool" where
  "ValidRange vaddr n \<longleftrightarrow> \<not> (vaddr = 0 \<or> n = 0 \<or> vaddr \<ge> ADDRESS_SIZE \<or> n > ADDRESS_SIZE - vaddr)"

definition PageStart :: "nat \<Rightarrow> nat" where
  "PageStart vaddr = vaddr div PAGE_SIZE * PAGE_SIZE"

definition PageEnd :: "nat \<Rightarrow> nat \<Rightarrow> exit_reason + nat" where
  "PageEnd vaddr n =
     (if ValidRange vaddr n then Inr (PageStart (vaddr + n - 1) + PAGE_SIZE)
      else Inl (Exit ''invalid range''))"

text \<open>The pages the loops from \<open>PageStart\<close> to \<open>PageEnd\<close> visit, in order.\<close>

definition page_list :: "nat \<Rightarrow> nat \<Rightarrow> nat list" where
  "page_list vaddr n = [vaddr div PAGE_SIZE ..< Suc ((vaddr + n - 1) div PAGE_SIZE)]"

section \<open>Data\<close>

datatype page_prot = ProtUnset | NoAccess | ReadOnly | ReadWrite | Execute | ExecuteRead
  | ExecuteReadWrite

datatype host_page = HostFree | HostReserved | Committed page_prot

datatype fault_access = FaultRead | FaultWrite | FaultExecute | FaultUnknown

datatype watch_mode = WatchWrite | WatchReadWrite

datatype gpu_access = AccessRead | AccessWrite | AccessReadWrite

record page_state =
  mappings :: nat
  gpu_read_mappings :: nat
  gpu_write_mappings :: nat
  write_watchers :: nat
  access_watchers :: nat
  original_protection :: page_prot
  backing_writer :: nat
  resolving :: bool
  resolving_read_write :: bool
  late_read_pending :: bool
  late_write_pending :: bool

definition fresh_page :: page_state where
  "fresh_page = \<lparr>mappings = 0, gpu_read_mappings = 0, gpu_write_mappings = 0,
     write_watchers = 0, access_watchers = 0, original_protection = ProtUnset,
     backing_writer = 0, resolving = False, resolving_read_write = False,
     late_read_pending = False, late_write_pending = False\<rparr>"

text \<open>
  \<open>pm_region\<close> says which regions exist, \<open>pm_can_commit\<close> whether the operating system would
  commit a page that is not, and \<open>pm_in_fault\<close> is the thread-local \<open>g_in_fault_resolution\<close>.
\<close>

record page_manager =
  pm_region :: "nat \<Rightarrow> bool"
  pm_page :: "nat \<Rightarrow> page_state"
  pm_host :: "nat \<Rightarrow> host_page"
  pm_can_commit :: "nat \<Rightarrow> bool"
  pm_in_fault :: "nat \<Rightarrow> bool"

definition PM_start :: "(nat \<Rightarrow> host_page) \<Rightarrow> (nat \<Rightarrow> bool) \<Rightarrow> page_manager" where
  "PM_start host can = \<lparr>pm_region = (\<lambda>_. False), pm_page = (\<lambda>_. fresh_page), pm_host = host,
     pm_can_commit = can, pm_in_fault = (\<lambda>_. False)\<rparr>"

section \<open>One page\<close>

definition WatcherProtection :: "page_state \<Rightarrow> page_prot" where
  "WatcherProtection pg =
     (if access_watchers pg \<noteq> 0 then NoAccess
      else if write_watchers pg \<noteq> 0 then ReadOnly
      else original_protection pg)"

definition PublishDelayedFaults :: "page_prot \<Rightarrow> page_prot \<Rightarrow> page_state \<Rightarrow> page_state" where
  "PublishDelayedFaults old new pg =
     pg\<lparr>late_read_pending := late_read_pending pg \<or> old = NoAccess \<and> new \<noteq> NoAccess,
        late_write_pending := late_write_pending pg
          \<or> (old = NoAccess \<or> old = ReadOnly) \<and> new = ReadWrite\<rparr>"

text \<open>
  A page that is not writable is made so: committed, reserved and committed, or
  reprotected.
\<close>

definition QueryProtection :: "bool \<Rightarrow> host_page \<Rightarrow> exit_reason + page_prot \<times> host_page" where
  "QueryProtection can h =
     (if h = Committed ReadWrite then Inr (ReadWrite, h)
      else if h = Committed ExecuteReadWrite then Inr (ExecuteReadWrite, h)
      else if (case h of Committed _ \<Rightarrow> True | _ \<Rightarrow> can) then Inr (ReadWrite, Committed ReadWrite)
      else Inl (Exit ''basic path requires PAGE_READWRITE or PAGE_EXECUTE_READWRITE''))"

definition AllowsAccess :: "host_page \<Rightarrow> fault_access \<Rightarrow> bool" where
  "AllowsAccess h a =
     (case h of
        Committed p \<Rightarrow>
          (case a of
             FaultRead \<Rightarrow> p = ReadOnly \<or> p = ReadWrite \<or> p = ExecuteRead \<or> p = ExecuteReadWrite
           | FaultWrite \<Rightarrow> p = ReadWrite \<or> p = ExecuteReadWrite
           | _ \<Rightarrow> False)
      | _ \<Rightarrow> False)"

text \<open>\<open>VirtualProtect\<close> fails on a page that is not committed and on protection 0.\<close>

definition ProtectPage :: "page_prot \<Rightarrow> page_prot \<Rightarrow> host_page \<Rightarrow> exit_reason + host_page" where
  "ProtectPage new expected h =
     (case h of
        Committed old \<Rightarrow>
          if new = ProtUnset
             \<or> old \<noteq> expected \<and> old \<noteq> ExecuteReadWrite \<and> old \<noteq> ReadWrite
          then Inl (Exit ''invalid protection transition'')
          else Inr (Committed new)
      | _ \<Rightarrow> Inl (Exit ''invalid protection transition''))"

definition change_protection :: "page_prot \<Rightarrow> page_prot \<Rightarrow> host_page \<Rightarrow> exit_reason + host_page" where
  "change_protection new old h = (if new \<noteq> old then ProtectPage new old h else Inr h)"

definition watchers :: "watch_mode \<Rightarrow> page_state \<Rightarrow> nat" where
  "watchers mode pg = (case mode of WatchReadWrite \<Rightarrow> access_watchers pg
     | WatchWrite \<Rightarrow> write_watchers pg)"

definition set_watchers :: "watch_mode \<Rightarrow> nat \<Rightarrow> page_state \<Rightarrow> page_state" where
  "set_watchers mode k pg = (case mode of WatchReadWrite \<Rightarrow> pg\<lparr>access_watchers := k\<rparr>
     | WatchWrite \<Rightarrow> pg\<lparr>write_watchers := k\<rparr>)"

definition clear_late :: "page_prot \<Rightarrow> page_state \<Rightarrow> page_state" where
  "clear_late new pg =
     (case new of
        NoAccess \<Rightarrow> pg\<lparr>late_read_pending := False, late_write_pending := False\<rparr>
      | ReadOnly \<Rightarrow> pg\<lparr>late_write_pending := False\<rparr>
      | _ \<Rightarrow> pg)"

text \<open>One turn of the loop of \<open>UpdatePageWatchers\<close> that adds a watcher.\<close>

definition track_page :: "watch_mode \<Rightarrow> bool \<Rightarrow> page_state \<times> host_page \<Rightarrow>
    exit_reason + page_state \<times> host_page" where
  "track_page mode can = (\<lambda>(pg, h).
     if resolving pg then Inl (Exit ''new page watcher raced active fault resolution'')
     else if watchers mode pg = UINT32_MAX then Inl (Exit ''watcher overflow'')
     else
       bindR (if write_watchers pg = 0 \<and> access_watchers pg = 0
              then bindR (QueryProtection can h) (\<lambda>(p, h). Inr (pg\<lparr>original_protection := p\<rparr>, h))
              else Inr (pg, h))
         (\<lambda>(pg, h).
            let old = WatcherProtection pg;
                pg = set_watchers mode (Suc (watchers mode pg)) pg;
                new = WatcherProtection pg
            in bindR (change_protection new old h) (\<lambda>h. Inr (clear_late new pg, h))))"

text \<open>One turn that removes a watcher, by thread \<open>th\<close>.\<close>

definition untrack_page :: "nat \<Rightarrow> watch_mode \<Rightarrow> page_state \<times> host_page \<Rightarrow>
    exit_reason + page_state \<times> host_page" where
  "untrack_page th mode = (\<lambda>(pg, h).
     if watchers mode pg = 0 then Inl (Exit ''watcher underflow'')
     else if backing_writer pg \<noteq> 0 \<and> backing_writer pg \<noteq> th
     then Inl (Exit ''backing write ownership changed'')
     else
       (let old = WatcherProtection pg;
            pg = set_watchers mode (watchers mode pg - 1) pg;
            new = WatcherProtection pg
        in bindR (if backing_writer pg = 0 then change_protection new old h else Inr h)
             (\<lambda>h. let pg = (if backing_writer pg = 0 then PublishDelayedFaults old new pg else pg)
                  in Inr (if backing_writer pg = 0 \<and> write_watchers pg = 0
                             \<and> access_watchers pg = 0
                          then pg\<lparr>original_protection := ProtUnset\<rparr> else pg, h))))"

definition gpu_reads :: "gpu_access \<Rightarrow> bool" where
  "gpu_reads a \<longleftrightarrow> a = AccessRead \<or> a = AccessReadWrite"

definition gpu_writes :: "gpu_access \<Rightarrow> bool" where
  "gpu_writes a \<longleftrightarrow> a = AccessWrite \<or> a = AccessReadWrite"

definition map_page :: "gpu_access \<Rightarrow> page_state \<times> host_page \<Rightarrow>
    exit_reason + page_state \<times> host_page" where
  "map_page a = (\<lambda>(pg, h).
     if resolving pg \<or> mappings pg = UINT32_MAX
        \<or> gpu_reads a \<and> gpu_read_mappings pg = UINT32_MAX
        \<or> gpu_writes a \<and> gpu_write_mappings pg = UINT32_MAX
     then Inl (Exit ''invalid map state'')
     else Inr (pg\<lparr>mappings := mappings pg + 1,
                  gpu_read_mappings := gpu_read_mappings pg + (if gpu_reads a then 1 else 0),
                  gpu_write_mappings := gpu_write_mappings pg + (if gpu_writes a then 1 else 0)\<rparr>,
               h))"

definition unmap_page :: "gpu_access \<Rightarrow> page_state \<times> host_page \<Rightarrow>
    exit_reason + page_state \<times> host_page" where
  "unmap_page a = (\<lambda>(pg, h).
     if resolving pg \<or> mappings pg = 0 \<or> gpu_reads a \<and> gpu_read_mappings pg = 0
        \<or> gpu_writes a \<and> gpu_write_mappings pg = 0
        \<or> mappings pg = 1 \<and> (write_watchers pg \<noteq> 0 \<or> access_watchers pg \<noteq> 0)
     then Inl (Exit ''invalid unmap state'')
     else
       (let pg = pg\<lparr>mappings := mappings pg - 1,
              gpu_read_mappings := gpu_read_mappings pg - (if gpu_reads a then 1 else 0),
              gpu_write_mappings := gpu_write_mappings pg - (if gpu_writes a then 1 else 0)\<rparr>
        in if mappings pg = 0
           then (if gpu_read_mappings pg \<noteq> 0 \<or> gpu_write_mappings pg \<noteq> 0
                 then Inl (Exit ''GPU unmap left nonzero GPU mapping counts'')
                 else Inr (pg\<lparr>late_read_pending := False, late_write_pending := False\<rparr>, h))
           else Inr (pg, h)))"

definition begin_write_page :: "nat \<Rightarrow> page_state \<times> host_page \<Rightarrow>
    exit_reason + page_state \<times> host_page" where
  "begin_write_page th = (\<lambda>(pg, h).
     if \<not> (mappings pg = 0 \<and> \<not> resolving pg \<and> backing_writer pg = 0 \<and> access_watchers pg \<noteq> 0)
        \<and> (resolving pg \<or> backing_writer pg \<noteq> 0 \<or> access_watchers pg = 0)
     then Inl (Exit ''backing write races page resolution'')
     else Inr (pg\<lparr>resolving := True, resolving_read_write := True, backing_writer := th\<rparr>, h))"

definition end_write_page :: "nat \<Rightarrow> page_state \<times> host_page \<Rightarrow>
    exit_reason + page_state \<times> host_page" where
  "end_write_page th = (\<lambda>(pg, h).
     if \<not> resolving pg \<or> backing_writer pg \<noteq> th
     then Inl (Exit ''backing write ended without matching owner and resolving state'')
     else
       (let new = WatcherProtection pg
        in bindR (change_protection new NoAccess h)
             (\<lambda>h. let pg = PublishDelayedFaults NoAccess new pg;
                      pg = (if write_watchers pg = 0 \<and> access_watchers pg = 0
                            then pg\<lparr>original_protection := ProtUnset\<rparr> else pg)
                  in Inr (pg\<lparr>backing_writer := 0, resolving := False,
                             resolving_read_write := False\<rparr>, h))))"

section \<open>Loops over pages\<close>

definition on_page :: "(page_state \<times> host_page \<Rightarrow> exit_reason + page_state \<times> host_page) \<Rightarrow>
    nat \<Rightarrow> page_manager \<Rightarrow> exit_reason + page_manager" where
  "on_page f p pm =
     bindR (f (pm_page pm p, pm_host pm p))
       (\<lambda>(pg, h). Inr (pm\<lparr>pm_page := (pm_page pm)(p := pg), pm_host := (pm_host pm)(p := h)\<rparr>))"

definition FindRegion :: "nat \<Rightarrow> page_manager \<Rightarrow> bool" where
  "FindRegion p pm = pm_region pm (p div REGION_PAGES)"

definition GetOrCreateRegion :: "nat \<Rightarrow> page_manager \<Rightarrow> page_manager" where
  "GetOrCreateRegion p pm = pm\<lparr>pm_region := (pm_region pm)(p div REGION_PAGES := True)\<rparr>"

definition track_step :: "watch_mode \<Rightarrow> nat \<Rightarrow> page_manager \<Rightarrow> exit_reason + page_manager" where
  "track_step mode p pm =
     on_page (track_page mode (pm_can_commit pm p)) p (GetOrCreateRegion p pm)"

definition known_step :: "string \<Rightarrow> (page_state \<times> host_page \<Rightarrow> exit_reason + page_state \<times> host_page) \<Rightarrow>
    nat \<Rightarrow> page_manager \<Rightarrow> exit_reason + page_manager" where
  "known_step msg f p pm = (if FindRegion p pm then on_page f p pm else Inl (Exit msg))"

definition UpdatePageWatchers :: "nat \<Rightarrow> bool \<Rightarrow> nat \<Rightarrow> nat \<Rightarrow> watch_mode \<Rightarrow> page_manager \<Rightarrow>
    exit_reason + page_manager" where
  "UpdatePageWatchers th track vaddr n mode pm =
     (if pm_in_fault pm th then Inl (Exit ''page watchers changed during fault resolution'')
      else bindR (PageEnd vaddr n) (\<lambda>_.
        foldR (if track then track_step mode
               else known_step ''untracking unknown page'' (untrack_page th mode))
          (page_list vaddr n) pm))"

definition OnGpuMap :: "nat \<Rightarrow> nat \<Rightarrow> nat \<Rightarrow> gpu_access \<Rightarrow> page_manager \<Rightarrow>
    exit_reason + page_manager" where
  "OnGpuMap th vaddr n a pm =
     (if pm_in_fault pm th then Inl (Exit ''GPU mapping changed during fault resolution'')
      else bindR (PageEnd vaddr n) (\<lambda>_.
        foldR (\<lambda>p pm. on_page (map_page a) p (GetOrCreateRegion p pm)) (page_list vaddr n) pm))"

definition OnGpuUnmap :: "nat \<Rightarrow> nat \<Rightarrow> nat \<Rightarrow> gpu_access \<Rightarrow> page_manager \<Rightarrow>
    exit_reason + page_manager" where
  "OnGpuUnmap th vaddr n a pm =
     (if pm_in_fault pm th then Inl (Exit ''GPU unmapping changed during fault resolution'')
      else bindR (PageEnd vaddr n) (\<lambda>_.
        foldR (known_step ''unmapping unknown page'' (unmap_page a)) (page_list vaddr n) pm))"

definition BeginBackingWrite :: "nat \<Rightarrow> nat \<Rightarrow> nat \<Rightarrow> page_manager \<Rightarrow> exit_reason + page_manager" where
  "BeginBackingWrite th vaddr n pm =
     (if pm_in_fault pm th then Inl (Exit ''backing write began during fault resolution'')
      else bindR (PageEnd vaddr n) (\<lambda>_.
        foldR (known_step ''backing write reserves an unknown page'' (begin_write_page th))
          (page_list vaddr n) pm))"

definition EndBackingWrite :: "nat \<Rightarrow> nat \<Rightarrow> nat \<Rightarrow> page_manager \<Rightarrow> exit_reason + page_manager" where
  "EndBackingWrite th vaddr n pm =
     (if pm_in_fault pm th then Inl (Exit ''backing write ended during fault resolution'')
      else bindR (PageEnd vaddr n) (\<lambda>_.
        foldR (known_step ''backing write ended for an unknown page'' (end_write_page th))
          (page_list vaddr n) pm))"

definition IsTracked :: "nat \<Rightarrow> nat \<Rightarrow> page_manager \<Rightarrow> exit_reason + bool" where
  "IsTracked th vaddr pm =
     (if pm_in_fault pm th then Inl (Exit ''IsTracked called during fault resolution'')
      else Inr (vaddr < ADDRESS_SIZE \<and> FindRegion (vaddr div PAGE_SIZE) pm
        \<and> (let pg = pm_page pm (vaddr div PAGE_SIZE)
           in write_watchers pg \<noteq> 0 \<or> access_watchers pg \<noteq> 0)))"

definition IsMapped :: "nat \<Rightarrow> nat \<Rightarrow> nat \<Rightarrow> page_manager \<Rightarrow> bool" where
  "IsMapped th vaddr n pm \<longleftrightarrow> \<not> pm_in_fault pm th \<and> ValidRange vaddr n"

section \<open>Fault handling\<close>

text \<open>
  \<open>HandleFault\<close> up to the first callback: one turn of its loop, under the page's spin lock.
  \<open>FaultDone b\<close> returns \<open>b\<close>, \<open>FaultWait\<close> goes round again with \<open>waited\<close> set, \<open>FaultClaim\<close>
  leaves the loop as the resolver of the page.
\<close>

datatype fault_turn = FaultDone bool | FaultWait | FaultClaim

definition fault_loop :: "nat \<Rightarrow> bool \<Rightarrow> fault_access \<Rightarrow> page_state \<Rightarrow> host_page \<Rightarrow>
    exit_reason + fault_turn \<times> page_state" where
  "fault_loop th waited a pg h =
     (if a = FaultRead \<and> late_read_pending pg \<and> AllowsAccess h a
      then Inr (FaultDone True, pg\<lparr>late_read_pending := False\<rparr>)
      else if a = FaultWrite \<and> late_write_pending pg \<and> AllowsAccess h a
      then Inr (FaultDone True, pg\<lparr>late_write_pending := False\<rparr>)
      else if resolving pg
      then (if backing_writer pg = th
            then Inl (Exit ''backing writer faulted on its own reserved page'')
            else if \<not> resolving_read_write pg \<and> a \<noteq> FaultWrite
                    \<or> resolving_read_write pg \<and> a \<noteq> FaultRead \<and> a \<noteq> FaultWrite
            then Inl (Exit ''fault access is incompatible with the active resolver'')
            else Inr (FaultWait, pg))
      else if write_watchers pg = 0 \<and> access_watchers pg = 0
      then (if a \<noteq> FaultRead \<and> a \<noteq> FaultWrite then Inr (FaultDone False, pg)
            else if waited \<and> \<not> AllowsAccess h a
            then Inl (Exit ''page remained inaccessible after waiting for its resolver'')
            else Inr (FaultDone (AllowsAccess h a),
                   if a = FaultRead then pg\<lparr>late_read_pending := False\<rparr>
                   else pg\<lparr>late_write_pending := False\<rparr>))
      else if a \<noteq> FaultRead \<and> a \<noteq> FaultWrite \<or> a = FaultRead \<and> access_watchers pg = 0
      then (if (a = FaultRead \<or> a = FaultWrite) \<and> AllowsAccess h a then Inr (FaultDone True, pg)
            else Inl (Exit ''fault access is incompatible with active page watchers''))
      else Inr (FaultClaim,
             pg\<lparr>resolving := True, resolving_read_write := access_watchers pg \<noteq> 0\<rparr>))"

definition fault_turn_at :: "nat \<Rightarrow> bool \<Rightarrow> fault_access \<Rightarrow> nat \<Rightarrow> page_manager \<Rightarrow>
    exit_reason + fault_turn \<times> page_manager" where
  "fault_turn_at th waited a vaddr pm =
     (if pm_in_fault pm th then Inl (Exit ''nested HandleFault call'')
      else if \<not> (vaddr < ADDRESS_SIZE \<and> FindRegion (vaddr div PAGE_SIZE) pm)
      then Inr (FaultDone False, pm)
      else (let p = vaddr div PAGE_SIZE in
        bindR (fault_loop th waited a (pm_page pm p) (pm_host pm p))
          (\<lambda>(t, pg). Inr (t, pm\<lparr>pm_page := (pm_page pm)(p := pg)\<rparr>))))"

text \<open>After the \<open>Invalidate\<close> callback.\<close>

definition after_invalidate :: "bool \<Rightarrow> nat \<Rightarrow> page_manager \<Rightarrow> exit_reason + page_manager" where
  "after_invalidate handled p pm =
     (if \<not> handled \<or> \<not> resolving (pm_page pm p)
      then Inl (Exit ''fault invalidation did not preserve the resolving state'')
      else Inr pm)"

text \<open>After the \<open>Complete\<close> callback: the watchers are dropped and the page is opened.\<close>

definition complete_page :: "bool \<Rightarrow> fault_access \<Rightarrow> page_state \<times> host_page \<Rightarrow>
    exit_reason + page_state \<times> host_page" where
  "complete_page completed a = (\<lambda>(pg, h).
     if \<not> completed \<or> \<not> resolving pg
     then Inl (Exit ''fault completion did not preserve the resolving state'')
     else
       bindR
         (if write_watchers pg \<noteq> 0 \<or> access_watchers pg \<noteq> 0
          then
            (let old = WatcherProtection pg; read_only_fault = (a = FaultRead)
             in if read_only_fault \<and> access_watchers pg = 0
                then Inl (Exit ''read fault completed without a read/write watcher'')
                else
                  (let pg = pg\<lparr>access_watchers := 0\<rparr>;
                       pg = (if read_only_fault then pg else pg\<lparr>write_watchers := 0\<rparr>);
                       restored = WatcherProtection pg
                   in bindR (ProtectPage restored old h)
                        (\<lambda>h. let pg = (if write_watchers pg = 0
                                       then pg\<lparr>original_protection := ProtUnset\<rparr> else pg)
                             in Inr (PublishDelayedFaults old restored pg, h))))
          else if \<not> AllowsAccess h a then Inl (Exit ''fault completion left the page inaccessible'')
          else Inr (pg, h))
         (\<lambda>(pg, h). Inr (pg\<lparr>resolving := False, resolving_read_write := False\<rparr>, h)))"

section \<open>The invariant of one page\<close>

text \<open>
  A watched page has exactly the host protection its watchers ask for, unless a backing
  write holds it inaccessible; the protection to go back to is a writable one; a pending
  late fault is only recorded where the access has become possible.
\<close>

definition watched :: "page_state \<Rightarrow> bool" where
  "watched pg \<longleftrightarrow> write_watchers pg \<noteq> 0 \<or> access_watchers pg \<noteq> 0"

definition page_ok :: "page_state \<times> host_page \<Rightarrow> bool" where
  "page_ok s = (case s of (pg, h) \<Rightarrow>
     (original_protection pg = (if watched pg \<or> backing_writer pg \<noteq> 0
        then (if original_protection pg = ExecuteReadWrite then ExecuteReadWrite else ReadWrite)
        else ProtUnset))
     \<and> (backing_writer pg = 0 \<and> watched pg \<longrightarrow> h = Committed (WatcherProtection pg))
     \<and> (backing_writer pg \<noteq> 0 \<longrightarrow> resolving pg \<and> h = Committed NoAccess)
     \<and> (late_read_pending pg \<longrightarrow> access_watchers pg = 0 \<and> backing_writer pg = 0)
     \<and> (late_write_pending pg \<longrightarrow> \<not> watched pg \<and> backing_writer pg = 0))"

text \<open>What the operations on watchers leave alone.\<close>

definition same_rest :: "page_state \<Rightarrow> page_state \<Rightarrow> bool" where
  "same_rest pg pg' \<longleftrightarrow> mappings pg' = mappings pg
     \<and> gpu_read_mappings pg' = gpu_read_mappings pg
     \<and> gpu_write_mappings pg' = gpu_write_mappings pg"

definition committable :: "bool \<Rightarrow> host_page \<Rightarrow> bool" where
  "committable can h \<longleftrightarrow> can \<or> (\<exists>p. h = Committed p)"

definition host_kept :: "host_page \<Rightarrow> host_page \<Rightarrow> bool" where
  "host_kept h h' \<longleftrightarrow> h' = h \<or> (\<exists>p. h' = Committed p)"

named_theorems page_simps \<open>unfolding the operations on one page\<close>

declare watched_def [page_simps] WatcherProtection_def [page_simps] same_rest_def [page_simps]
  watchers_def [page_simps] set_watchers_def [page_simps] change_protection_def [page_simps]
  ProtectPage_def [page_simps] PublishDelayedFaults_def [page_simps] clear_late_def [page_simps]
  committable_def [page_simps] host_kept_def [page_simps] Let_def [page_simps] AllowsAccess_def [page_simps]

lemma page_ok_fresh: "page_ok (fresh_page, h)"
  by (simp add: page_ok_def fresh_page_def page_simps)

lemma QueryProtection_ok:
  assumes "committable can h"
  shows "\<exists>p. QueryProtection can h = Inr (p, Committed p) \<and> (p = ReadWrite \<or> p = ExecuteReadWrite)"
  using assms by (auto simp: QueryProtection_def page_simps split: host_page.splits)

lemma track_page_spec:
  assumes ok: "page_ok (pg, h)" and res: "\<not> resolving pg"
    and max: "watchers mode pg < UINT32_MAX"
    and com: "watched pg \<or> committable can h"
  shows "\<exists>pg' h'. track_page mode can (pg, h) = Inr (pg', h') \<and> page_ok (pg', h')
    \<and> write_watchers pg' = write_watchers pg + (if mode = WatchWrite then 1 else 0)
    \<and> access_watchers pg' = access_watchers pg + (if mode = WatchReadWrite then 1 else 0)
    \<and> \<not> resolving pg' \<and> backing_writer pg' = backing_writer pg \<and> same_rest pg pg' \<and> host_kept h h'"
proof (cases "watched pg")
  case True
  then show ?thesis using ok res max
    by (cases mode) (auto simp: track_page_def page_ok_def page_simps split: if_splits)
next
  case False
  then have "committable can h" using com by simp
  then obtain p where p: "QueryProtection can h = Inr (p, Committed p)"
    "p = ReadWrite \<or> p = ExecuteReadWrite"
    using QueryProtection_ok by blast
  show ?thesis using False ok res max p
    by (cases mode) (auto simp: track_page_def page_ok_def page_simps split: if_splits)
qed

lemma untrack_page_spec:
  assumes ok: "page_ok (pg, h)" and some: "0 < watchers mode pg"
    and own: "backing_writer pg = 0 \<or> backing_writer pg = th"
  shows "\<exists>pg' h'. untrack_page th mode (pg, h) = Inr (pg', h') \<and> page_ok (pg', h')
    \<and> write_watchers pg' = write_watchers pg - (if mode = WatchWrite then 1 else 0)
    \<and> access_watchers pg' = access_watchers pg - (if mode = WatchReadWrite then 1 else 0)
    \<and> resolving pg' = resolving pg \<and> backing_writer pg' = backing_writer pg \<and> same_rest pg pg' \<and> host_kept h h'"
proof (cases "backing_writer pg = 0")
  case True
  then have "watched pg" using some by (cases mode) (auto simp: page_simps)
  then show ?thesis using ok some True
    by (cases mode) (auto simp: untrack_page_def page_ok_def page_simps split: if_splits)
next
  case False
  then show ?thesis using ok some own
    by (cases mode) (auto simp: untrack_page_def page_ok_def page_simps split: if_splits)
qed

lemma begin_write_page_spec:
  assumes "page_ok (pg, h)" and "\<not> resolving pg" and "0 < access_watchers pg" and "th \<noteq> 0"
  shows "begin_write_page th (pg, h) = Inr (pg\<lparr>resolving := True, resolving_read_write := True,
      backing_writer := th\<rparr>, h)
    \<and> page_ok (pg\<lparr>resolving := True, resolving_read_write := True, backing_writer := th\<rparr>, h)"
  using assms by (auto simp: begin_write_page_def page_ok_def page_simps split: if_splits)

lemma end_write_page_spec:
  assumes "page_ok (pg, h)" and "backing_writer pg = th" and "th \<noteq> 0"
  shows "\<exists>pg' h'. end_write_page th (pg, h) = Inr (pg', h') \<and> page_ok (pg', h')
    \<and> write_watchers pg' = write_watchers pg \<and> access_watchers pg' = access_watchers pg
    \<and> \<not> resolving pg' \<and> backing_writer pg' = 0 \<and> same_rest pg pg' \<and> host_kept h h'"
  using assms by (auto simp: end_write_page_def page_ok_def page_simps split: if_splits)

lemma complete_page_spec:
  assumes "page_ok (pg, h)" and "resolving pg" and "backing_writer pg = 0"
    and "a = FaultRead \<or> a = FaultWrite"
    and "watched pg \<Longrightarrow> a = FaultRead \<Longrightarrow> 0 < access_watchers pg"
    and "\<not> watched pg \<Longrightarrow> AllowsAccess h a"
  shows "\<exists>pg' h'. complete_page True a (pg, h) = Inr (pg', h') \<and> page_ok (pg', h')
    \<and> write_watchers pg' = (if a = FaultRead then write_watchers pg else 0)
    \<and> access_watchers pg' = 0
    \<and> \<not> resolving pg' \<and> backing_writer pg' = 0 \<and> same_rest pg pg' \<and> host_kept h h'
    \<and> AllowsAccess h' a"
proof (cases "watched pg")
  case True
  then show ?thesis using assms
    by (auto simp: complete_page_def page_ok_def page_simps split: if_splits)
next
  case False
  then have "AllowsAccess h a" by (rule assms(6))
  moreover have "write_watchers pg = 0" "access_watchers pg = 0"
    using False by (simp_all add: watched_def)
  moreover have "complete_page True a (pg, h)
      = Inr (pg\<lparr>resolving := False, resolving_read_write := False\<rparr>, h)"
    using calculation assms(2) by (simp add: complete_page_def)
  moreover have "page_ok (pg\<lparr>resolving := False, resolving_read_write := False\<rparr>, h)"
    using assms(1,3) False by (simp add: page_ok_def page_simps)
  ultimately show ?thesis using assms(3) by (simp add: same_rest_def host_kept_def)
qed

lemma fault_loop_spec:
  assumes "page_ok (pg, h)" and "\<not> resolving pg" and "a = FaultRead \<or> a = FaultWrite"
  shows "(AllowsAccess h a \<and> (\<exists>pg'. fault_loop th False a pg h = Inr (FaultDone True, pg')
        \<and> page_ok (pg', h) \<and> write_watchers pg' = write_watchers pg
        \<and> access_watchers pg' = access_watchers pg \<and> \<not> resolving pg'
        \<and> backing_writer pg' = backing_writer pg \<and> same_rest pg pg'))
    \<or> (\<not> AllowsAccess h a \<and> \<not> watched pg \<and> (\<exists>pg'. fault_loop th False a pg h = Inr (FaultDone False, pg')
        \<and> page_ok (pg', h) \<and> write_watchers pg' = write_watchers pg
        \<and> access_watchers pg' = access_watchers pg \<and> \<not> resolving pg'
        \<and> backing_writer pg' = backing_writer pg \<and> same_rest pg pg'))
    \<or> (\<not> AllowsAccess h a \<and> watched pg \<and> (a = FaultRead \<longrightarrow> 0 < access_watchers pg)
        \<and> fault_loop th False a pg h = Inr (FaultClaim,
            pg\<lparr>resolving := True, resolving_read_write := access_watchers pg \<noteq> 0\<rparr>)
        \<and> page_ok (pg\<lparr>resolving := True, resolving_read_write := access_watchers pg \<noteq> 0\<rparr>, h))"
  using assms(3)
proof
  assume a: "a = FaultRead"
  show ?thesis using assms(1,2) unfolding a
    by (auto simp: fault_loop_def page_ok_def page_simps split: if_splits)
next
  assume a: "a = FaultWrite"
  show ?thesis using assms(1,2) unfolding a
    by (auto simp: fault_loop_def page_ok_def page_simps split: if_splits)
qed

section \<open>Loops act page by page\<close>

definition slot :: "page_manager \<Rightarrow> nat \<Rightarrow> page_state \<times> host_page" where
  "slot pm p = (pm_page pm p, pm_host pm p)"

text \<open>\<open>later pm pm'\<close>: what no loop undoes or touches.\<close>

definition later :: "page_manager \<Rightarrow> page_manager \<Rightarrow> bool" where
  "later pm pm' \<longleftrightarrow> (\<forall>p. FindRegion p pm \<longrightarrow> FindRegion p pm')
     \<and> pm_can_commit pm' = pm_can_commit pm \<and> pm_in_fault pm' = pm_in_fault pm"

lemma later_refl [simp]: "later pm pm"
  by (simp add: later_def)

lemma later_trans: "later a b \<Longrightarrow> later b c \<Longrightarrow> later a c"
  by (auto simp: later_def)

text \<open>A turn that changes one page, as a function of that page.\<close>

definition page_turn :: "(nat \<Rightarrow> page_manager \<Rightarrow> exit_reason + page_manager) \<Rightarrow> page_manager \<Rightarrow>
    (nat \<Rightarrow> page_state \<times> host_page \<Rightarrow> exit_reason + page_state \<times> host_page) \<Rightarrow> bool" where
  "page_turn step pm0 f \<longleftrightarrow> (\<forall>p pm pm'. later pm0 pm \<longrightarrow> step p pm = Inr pm' \<longrightarrow>
     f p (slot pm p) = Inr (slot pm' p) \<and> (\<forall>q. q \<noteq> p \<longrightarrow> slot pm' q = slot pm q)
     \<and> later pm pm' \<and> FindRegion p pm')"

lemma page_turnD:
  assumes "page_turn step pm0 f" and "later pm0 pm" and "step p pm = Inr pm'"
  shows "f p (slot pm p) = Inr (slot pm' p)" and "\<And>q. q \<noteq> p \<Longrightarrow> slot pm' q = slot pm q"
    and "later pm pm'" and "FindRegion p pm'"
  using assms by (auto simp: page_turn_def)

lemma foldR_pages:
  assumes "page_turn step pm0 f" and "later pm0 pm" and "distinct ps"
    and "foldR step ps pm = Inr pm'"
  shows "(\<forall>p\<in>set ps. f p (slot pm p) = Inr (slot pm' p) \<and> FindRegion p pm')
    \<and> (\<forall>p. p \<notin> set ps \<longrightarrow> slot pm' p = slot pm p) \<and> later pm pm'"
  using assms(2-)
proof (induction ps arbitrary: pm)
  case (Cons p ps)
  then obtain u where u: "step p pm = Inr u" "foldR step ps u = Inr pm'"
    by (auto simp: bindR_eq_Inr)
  note turn = page_turnD [OF assms(1) Cons.prems(1) u(1)]
  have "later pm0 u" using Cons.prems(1) turn(3) by (rule later_trans)
  note IH = Cons.IH [OF this _ u(2)]
  have dist: "p \<notin> set ps" "distinct ps" using Cons.prems(2) by simp_all
  then have rest: "slot pm' p = slot u p" "later u pm'" using IH by auto
  have "f q (slot pm q) = Inr (slot pm' q) \<and> FindRegion q pm'" if q: "q \<in> set (p # ps)" for q
  proof (cases "q = p")
    case True
    then show ?thesis using turn(1,4) rest by (simp add: later_def)
  next
    case False
    then show ?thesis using q turn(2) [of q] IH dist by auto
  qed
  moreover have "slot pm' q = slot pm q" if "q \<notin> set (p # ps)" for q
    using that turn(2) [of q] IH dist by auto
  moreover have "later pm pm'" using turn(3) rest(2) by (rule later_trans)
  ultimately show ?case by blast
qed simp

lemma foldR_pages_ok:
  assumes "page_turn step pm0 f" and "later pm0 pm" and "distinct ps"
    and "\<And>p u. p \<in> set ps \<Longrightarrow> later pm u \<Longrightarrow> slot u p = slot pm p \<Longrightarrow> \<exists>v. step p u = Inr v"
  shows "\<exists>pm'. foldR step ps pm = Inr pm'"
  using assms(2-)
proof (induction ps arbitrary: pm)
  case (Cons p ps)
  obtain u where u: "step p pm = Inr u" using Cons.prems(3) [of p pm] by auto
  note turn = page_turnD [OF assms(1) Cons.prems(1) u]
  have "\<exists>pm'. foldR step ps u = Inr pm'"
  proof (rule Cons.IH)
    show "later pm0 u" using Cons.prems(1) turn(3) by (rule later_trans)
    show "distinct ps" using Cons.prems(2) by simp
    fix q v
    assume q: "q \<in> set ps" and v: "later u v" "slot v q = slot u q"
    have "q \<noteq> p" using q Cons.prems(2) by auto
    then have "slot v q = slot pm q" using v(2) turn(2) by simp
    moreover have "later pm v" using turn(3) v(1) by (rule later_trans)
    ultimately show "\<exists>w. step q v = Inr w" using Cons.prems(3) [of q v] q by simp
  qed
  then show ?case using u by simp
qed simp

lemma on_page_turn:
  assumes "on_page f p pm = Inr pm'"
  shows "f (slot pm p) = Inr (slot pm' p)" and "\<And>q. q \<noteq> p \<Longrightarrow> slot pm' q = slot pm q"
    and "later pm pm'" and "FindRegion q pm' = FindRegion q pm"
  using assms by (auto simp: on_page_def bindR_eq_Inr slot_def later_def FindRegion_def)

lemma on_page_ok: "f (slot pm p) = Inr s \<Longrightarrow> \<exists>pm'. on_page f p pm = Inr pm'"
  by (cases s) (auto simp: on_page_def slot_def)

lemma known_turn: "page_turn (known_step msg f) pm0 (\<lambda>_. f)"
  unfolding page_turn_def known_step_def
  by (auto split: if_splits dest: on_page_turn)

lemma slot_create [simp]: "slot (GetOrCreateRegion p pm) q = slot pm q"
  by (simp add: slot_def GetOrCreateRegion_def)

lemma later_create: "later pm (GetOrCreateRegion p pm)" "FindRegion p (GetOrCreateRegion p pm)"
  by (auto simp: later_def GetOrCreateRegion_def FindRegion_def)

lemma create_turn:
  assumes "on_page f p (GetOrCreateRegion p pm) = Inr pm'"
  shows "f (slot pm p) = Inr (slot pm' p) \<and> (\<forall>q. q \<noteq> p \<longrightarrow> slot pm' q = slot pm q)
    \<and> later pm pm' \<and> FindRegion p pm'"
  using on_page_turn [OF assms] later_create(1) [of pm p] later_create(2) [of p pm]
    later_trans [of pm "GetOrCreateRegion p pm" pm'] by auto

lemma track_turn: "page_turn (track_step mode) pm0 (\<lambda>p. track_page mode (pm_can_commit pm0 p))"
  unfolding page_turn_def track_step_def using create_turn by (auto simp: later_def)

lemma map_turn: "page_turn (\<lambda>p pm. on_page (map_page a) p (GetOrCreateRegion p pm)) pm0 (\<lambda>_. map_page a)"
  unfolding page_turn_def using create_turn by blast

lemma distinct_page_list [simp]: "distinct (page_list vaddr n)"
  by (simp add: page_list_def)

lemma set_page_list:
  "set (page_list vaddr n) = {p. vaddr div PAGE_SIZE \<le> p \<and> p \<le> (vaddr + n - 1) div PAGE_SIZE}"
  unfolding page_list_def set_upt atLeastLessThan_def atLeast_def lessThan_def less_Suc_eq_le by auto

section \<open>The operations on ranges\<close>

abbreviation wwatch :: "page_manager \<Rightarrow> nat \<Rightarrow> nat" where
  "wwatch pm p \<equiv> write_watchers (pm_page pm p)"

abbreviation awatch :: "page_manager \<Rightarrow> nat \<Rightarrow> nat" where
  "awatch pm p \<equiv> access_watchers (pm_page pm p)"

abbreviation is_resolving :: "page_manager \<Rightarrow> nat \<Rightarrow> bool" where
  "is_resolving pm p \<equiv> resolving (pm_page pm p)"

abbreviation writer :: "page_manager \<Rightarrow> nat \<Rightarrow> nat" where
  "writer pm p \<equiv> backing_writer (pm_page pm p)"

definition pm_ok :: "page_manager \<Rightarrow> bool" where
  "pm_ok pm \<longleftrightarrow> (\<forall>p. page_ok (slot pm p)
     \<and> (watched (pm_page pm p) \<or> is_resolving pm p \<longrightarrow> FindRegion p pm))"

text \<open>\<open>s'\<close> comes from \<open>s\<close> with the given watchers, resolver flag and backing writer.\<close>

definition page_change :: "page_state \<times> host_page \<Rightarrow> page_state \<times> host_page \<Rightarrow>
    nat \<Rightarrow> nat \<Rightarrow> bool \<Rightarrow> nat \<Rightarrow> bool" where
  "page_change s s' w a r b \<longleftrightarrow> page_ok s' \<and> write_watchers (fst s') = w
     \<and> access_watchers (fst s') = a \<and> resolving (fst s') = r \<and> backing_writer (fst s') = b
     \<and> same_rest (fst s) (fst s') \<and> host_kept (snd s) (snd s')"

definition pages_change :: "page_manager \<Rightarrow> page_manager \<Rightarrow> (nat \<Rightarrow> nat) \<Rightarrow> (nat \<Rightarrow> nat) \<Rightarrow>
    (nat \<Rightarrow> bool) \<Rightarrow> (nat \<Rightarrow> nat) \<Rightarrow> bool" where
  "pages_change pm pm' w a r b \<longleftrightarrow> pm_ok pm' \<and> later pm pm'
     \<and> (\<forall>p. page_change (slot pm p) (slot pm' p) (w p) (a p) (r p) (b p))"

lemma page_change_refl:
  "page_ok s \<Longrightarrow> page_change s s (write_watchers (fst s)) (access_watchers (fst s))
     (resolving (fst s)) (backing_writer (fst s))"
  by (simp add: page_change_def same_rest_def host_kept_def)

lemma pages_change_refl:
  "pm_ok pm \<Longrightarrow> pages_change pm pm (wwatch pm) (awatch pm) (is_resolving pm) (writer pm)"
  using page_change_refl [of "slot pm _"] by (simp add: pages_change_def pm_ok_def slot_def)

lemma pages_change_trans:
  assumes "pages_change x y w1 a1 r1 b1" and "pages_change y z w2 a2 r2 b2"
  shows "pages_change x z w2 a2 r2 b2"
  using assms unfolding pages_change_def page_change_def same_rest_def host_kept_def
  by (metis (no_types, lifting) later_trans)

lemma pages_changeD:
  assumes "pages_change pm pm' w a r b"
  shows "pm_ok pm'" and "later pm pm'" and "wwatch pm' = w" and "awatch pm' = a"
    and "is_resolving pm' = r" and "writer pm' = b"
    and "\<And>p. same_rest (pm_page pm p) (pm_page pm' p)"
    and "\<And>p. host_kept (pm_host pm p) (pm_host pm' p)"
  using assms unfolding pages_change_def page_change_def slot_def by auto

lemma pm_ok_page: "pm_ok pm \<Longrightarrow> page_ok (pm_page pm p, pm_host pm p)"
  by (simp add: pm_ok_def slot_def)

text \<open>A loop whose every turn is possible and known.\<close>

lemma loop_pages:
  assumes turn: "page_turn step pm f" and ok: "pm_ok pm" and dist: "distinct ps"
    and spec: "\<And>p. p \<in> set ps \<Longrightarrow> \<exists>s. f p (slot pm p) = Inr s
      \<and> page_change (slot pm p) s (w p) (a p) (r p) (b p)"
    and poss: "\<And>p u s. p \<in> set ps \<Longrightarrow> later pm u \<Longrightarrow> slot u p = slot pm p \<Longrightarrow>
      f p (slot pm p) = Inr s \<Longrightarrow> \<exists>v. step p u = Inr v"
    and out: "\<And>p. p \<notin> set ps \<Longrightarrow> w p = wwatch pm p \<and> a p = awatch pm p
      \<and> r p = is_resolving pm p \<and> b p = writer pm p"
  shows "\<exists>pm'. foldR step ps pm = Inr pm' \<and> pages_change pm pm' w a r b"
proof -
  have "\<exists>pm'. foldR step ps pm = Inr pm'"
    using spec poss by (intro foldR_pages_ok [OF turn later_refl dist]) blast
  then obtain pm' where run: "foldR step ps pm = Inr pm'" by blast
  note eff = foldR_pages [OF turn later_refl dist run]
  have change: "page_change (slot pm p) (slot pm' p) (w p) (a p) (r p) (b p)" for p
  proof (cases "p \<in> set ps")
    case True
    then show ?thesis using spec [OF True] eff by auto
  next
    case False
    then have "slot pm' p = slot pm p" using eff by blast
    then show ?thesis using page_change_refl [of "slot pm p"] out [OF False] ok
      by (simp add: pm_ok_def slot_def)
  qed
  have "watched (pm_page pm' p) \<or> is_resolving pm' p \<longrightarrow> FindRegion p pm'" for p
  proof (cases "p \<in> set ps")
    case False
    then have "slot pm' p = slot pm p" using eff by blast
    then show ?thesis using ok eff by (auto simp: pm_ok_def slot_def later_def)
  qed (use eff in blast)
  then have "pm_ok pm'" using change by (simp add: pm_ok_def page_change_def)
  then show ?thesis using run change eff unfolding pages_change_def by blast
qed

lemma known_poss:
  assumes "FindRegion p pm" and "later pm u" and "slot u p = slot pm p"
    and "f (slot pm p) = Inr s"
  shows "\<exists>v. known_step msg f p u = Inr v"
  using assms on_page_ok [of f u p s] by (simp add: known_step_def later_def)

lemma track_poss:
  assumes "later pm u" and "slot u p = slot pm p"
    and "track_page mode (pm_can_commit pm p) (slot pm p) = Inr s"
  shows "\<exists>v. track_step mode p u = Inr v"
  using assms on_page_ok [of "track_page mode (pm_can_commit u p)" "GetOrCreateRegion p u" p s]
  by (simp add: track_step_def later_def)

definition bump :: "watch_mode \<Rightarrow> watch_mode \<Rightarrow> nat set \<Rightarrow> nat \<Rightarrow> nat" where
  "bump mode m ps p = (if m = mode \<and> p \<in> ps then 1 else 0)"

lemma UpdatePageWatchers_track:
  assumes ok: "pm_ok pm" and fault: "\<not> pm_in_fault pm th" and range: "ValidRange vaddr n"
    and pages: "\<And>p. p \<in> set (page_list vaddr n) \<Longrightarrow> \<not> is_resolving pm p
      \<and> watchers mode (pm_page pm p) < UINT32_MAX
      \<and> (watched (pm_page pm p) \<or> committable (pm_can_commit pm p) (pm_host pm p))"
  shows "\<exists>pm'. UpdatePageWatchers th True vaddr n mode pm = Inr pm'
    \<and> pages_change pm pm' (\<lambda>p. wwatch pm p + bump mode WatchWrite (set (page_list vaddr n)) p)
        (\<lambda>p. awatch pm p + bump mode WatchReadWrite (set (page_list vaddr n)) p)
        (is_resolving pm) (writer pm)"
proof -
  have "\<exists>pm'. foldR (track_step mode) (page_list vaddr n) pm = Inr pm'
    \<and> pages_change pm pm' (\<lambda>p. wwatch pm p + bump mode WatchWrite (set (page_list vaddr n)) p)
        (\<lambda>p. awatch pm p + bump mode WatchReadWrite (set (page_list vaddr n)) p)
        (is_resolving pm) (writer pm)"
  proof (rule loop_pages [OF track_turn ok distinct_page_list])
    fix p assume p: "p \<in> set (page_list vaddr n)"
    show "\<exists>s. track_page mode (pm_can_commit pm p) (slot pm p) = Inr s
      \<and> page_change (slot pm p) s (wwatch pm p + bump mode WatchWrite (set (page_list vaddr n)) p)
        (awatch pm p + bump mode WatchReadWrite (set (page_list vaddr n)) p)
        (is_resolving pm p) (writer pm p)"
      using track_page_spec [OF pm_ok_page [OF ok, of p], of mode "pm_can_commit pm p"] pages [OF p] p
      by (auto simp: page_change_def slot_def bump_def)
  qed (auto simp: bump_def intro: track_poss)
  then show ?thesis using fault range by (simp add: UpdatePageWatchers_def PageEnd_def)
qed

lemma UpdatePageWatchers_untrack:
  assumes ok: "pm_ok pm" and fault: "\<not> pm_in_fault pm th" and range: "ValidRange vaddr n"
    and pages: "\<And>p. p \<in> set (page_list vaddr n) \<Longrightarrow> 0 < watchers mode (pm_page pm p)
      \<and> (writer pm p = 0 \<or> writer pm p = th)"
  shows "\<exists>pm'. UpdatePageWatchers th False vaddr n mode pm = Inr pm'
    \<and> pages_change pm pm' (\<lambda>p. wwatch pm p - bump mode WatchWrite (set (page_list vaddr n)) p)
        (\<lambda>p. awatch pm p - bump mode WatchReadWrite (set (page_list vaddr n)) p)
        (is_resolving pm) (writer pm)"
proof -
  have "\<exists>pm'. foldR (known_step ''untracking unknown page'' (untrack_page th mode))
        (page_list vaddr n) pm = Inr pm'
    \<and> pages_change pm pm' (\<lambda>p. wwatch pm p - bump mode WatchWrite (set (page_list vaddr n)) p)
        (\<lambda>p. awatch pm p - bump mode WatchReadWrite (set (page_list vaddr n)) p)
        (is_resolving pm) (writer pm)"
  proof (rule loop_pages [OF known_turn ok distinct_page_list])
    fix p assume p: "p \<in> set (page_list vaddr n)"
    show "\<exists>s. untrack_page th mode (slot pm p) = Inr s
      \<and> page_change (slot pm p) s (wwatch pm p - bump mode WatchWrite (set (page_list vaddr n)) p)
        (awatch pm p - bump mode WatchReadWrite (set (page_list vaddr n)) p)
        (is_resolving pm p) (writer pm p)"
      using untrack_page_spec [OF pm_ok_page [OF ok, of p], of mode th] pages [OF p] p
      by (auto simp: page_change_def slot_def bump_def)
  next
    fix p u s
    assume p: "p \<in> set (page_list vaddr n)" and u: "later pm u" "slot u p = slot pm p"
      "untrack_page th mode (slot pm p) = Inr s"
    have "watched (pm_page pm p)" using pages [OF p] by (cases mode) (auto simp: page_simps)
    then have "FindRegion p pm" using ok by (simp add: pm_ok_def)
    then show "\<exists>v. known_step ''untracking unknown page'' (untrack_page th mode) p u = Inr v"
      using u by (rule known_poss)
  qed (auto simp: bump_def)
  then show ?thesis using fault range by (simp add: UpdatePageWatchers_def PageEnd_def)
qed

lemma BeginBackingWrite_spec:
  assumes ok: "pm_ok pm" and fault: "\<not> pm_in_fault pm th" and range: "ValidRange vaddr n"
    and th: "th \<noteq> 0"
    and pages: "\<And>p. p \<in> set (page_list vaddr n) \<Longrightarrow> \<not> is_resolving pm p \<and> 0 < awatch pm p"
  shows "\<exists>pm'. BeginBackingWrite th vaddr n pm = Inr pm'
    \<and> pages_change pm pm' (wwatch pm) (awatch pm)
        (\<lambda>p. p \<in> set (page_list vaddr n) \<or> is_resolving pm p)
        (\<lambda>p. if p \<in> set (page_list vaddr n) then th else writer pm p)"
proof -
  have "\<exists>pm'. foldR (known_step ''backing write reserves an unknown page'' (begin_write_page th))
        (page_list vaddr n) pm = Inr pm'
    \<and> pages_change pm pm' (wwatch pm) (awatch pm)
        (\<lambda>p. p \<in> set (page_list vaddr n) \<or> is_resolving pm p)
        (\<lambda>p. if p \<in> set (page_list vaddr n) then th else writer pm p)"
  proof (rule loop_pages [OF known_turn ok distinct_page_list])
    fix p assume p: "p \<in> set (page_list vaddr n)"
    show "\<exists>s. begin_write_page th (slot pm p) = Inr s
      \<and> page_change (slot pm p) s (wwatch pm p) (awatch pm p)
        (p \<in> set (page_list vaddr n) \<or> is_resolving pm p)
        (if p \<in> set (page_list vaddr n) then th else writer pm p)"
      using begin_write_page_spec [OF pm_ok_page [OF ok, of p], of th] pages [OF p] p th
      by (auto simp: page_change_def slot_def same_rest_def host_kept_def)
  next
    fix p u s
    assume p: "p \<in> set (page_list vaddr n)" and u: "later pm u" "slot u p = slot pm p"
      "begin_write_page th (slot pm p) = Inr s"
    have "watched (pm_page pm p)" using pages [OF p] by (simp add: page_simps)
    then have "FindRegion p pm" using ok by (simp add: pm_ok_def)
    then show "\<exists>v. known_step ''backing write reserves an unknown page'' (begin_write_page th) p u
        = Inr v"
      using u by (rule known_poss)
  qed auto
  then show ?thesis using fault range by (simp add: BeginBackingWrite_def PageEnd_def)
qed

lemma EndBackingWrite_spec:
  assumes ok: "pm_ok pm" and fault: "\<not> pm_in_fault pm th" and range: "ValidRange vaddr n"
    and th: "th \<noteq> 0" and pages: "\<And>p. p \<in> set (page_list vaddr n) \<Longrightarrow> writer pm p = th"
  shows "\<exists>pm'. EndBackingWrite th vaddr n pm = Inr pm'
    \<and> pages_change pm pm' (wwatch pm) (awatch pm)
        (\<lambda>p. p \<notin> set (page_list vaddr n) \<and> is_resolving pm p)
        (\<lambda>p. if p \<in> set (page_list vaddr n) then 0 else writer pm p)"
proof -
  have "\<exists>pm'. foldR (known_step ''backing write ended for an unknown page'' (end_write_page th))
        (page_list vaddr n) pm = Inr pm'
    \<and> pages_change pm pm' (wwatch pm) (awatch pm)
        (\<lambda>p. p \<notin> set (page_list vaddr n) \<and> is_resolving pm p)
        (\<lambda>p. if p \<in> set (page_list vaddr n) then 0 else writer pm p)"
  proof (rule loop_pages [OF known_turn ok distinct_page_list])
    fix p assume p: "p \<in> set (page_list vaddr n)"
    show "\<exists>s. end_write_page th (slot pm p) = Inr s
      \<and> page_change (slot pm p) s (wwatch pm p) (awatch pm p)
        (p \<notin> set (page_list vaddr n) \<and> is_resolving pm p)
        (if p \<in> set (page_list vaddr n) then 0 else writer pm p)"
      using end_write_page_spec [OF pm_ok_page [OF ok, of p], of th] pages [OF p] p th
      by (auto simp: page_change_def slot_def)
  next
    fix p u s
    assume p: "p \<in> set (page_list vaddr n)" and u: "later pm u" "slot u p = slot pm p"
      "end_write_page th (slot pm p) = Inr s"
    have "is_resolving pm p"
      using pages [OF p] th pm_ok_page [OF ok, of p] by (simp add: page_ok_def)
    then have "FindRegion p pm" using ok by (simp add: pm_ok_def)
    then show "\<exists>v. known_step ''backing write ended for an unknown page'' (end_write_page th) p u
        = Inr v"
      using u by (rule known_poss)
  qed auto
  then show ?thesis using fault range by (simp add: EndBackingWrite_def PageEnd_def)
qed

end
