(* ===== verification/Reachability.thy ===== *)
theory Reachability
  imports Prelude
begin

text \<open>
  The interface between a synchronisation object and the safety arguments about it: a start
  state, atomic steps (one critical section of the source each) and an invariant. Each
  object interprets the locale on its own step relation.

  The second locale adds threads that sleep on the object until a condition holds: no
  sleeping thread that has not been told to look again may have its condition satisfied.
\<close>

section \<open>Errors of the system calls\<close>

text \<open>The values of \<open>gpu/src/libs/errno.h\<close> the modelled operations return.\<close>

definition OK :: int where "OK = 0"
definition KERNEL_ERROR_EPERM :: int where "KERNEL_ERROR_EPERM = -2147352575"
definition KERNEL_ERROR_ENOENT :: int where "KERNEL_ERROR_ENOENT = -2147352574"
definition KERNEL_ERROR_ESRCH :: int where "KERNEL_ERROR_ESRCH = -2147352573"
definition KERNEL_ERROR_EBADF :: int where "KERNEL_ERROR_EBADF = -2147352567"
definition KERNEL_ERROR_EDEADLK :: int where "KERNEL_ERROR_EDEADLK = -2147352565"
definition KERNEL_ERROR_ENOMEM :: int where "KERNEL_ERROR_ENOMEM = -2147352564"
definition KERNEL_ERROR_EACCES :: int where "KERNEL_ERROR_EACCES = -2147352563"
definition KERNEL_ERROR_EFAULT :: int where "KERNEL_ERROR_EFAULT = -2147352562"
definition KERNEL_ERROR_EBUSY :: int where "KERNEL_ERROR_EBUSY = -2147352560"
definition KERNEL_ERROR_EINVAL :: int where "KERNEL_ERROR_EINVAL = -2147352554"
definition KERNEL_ERROR_EAGAIN :: int where "KERNEL_ERROR_EAGAIN = -2147352541"
definition KERNEL_ERROR_ETIMEDOUT :: int where "KERNEL_ERROR_ETIMEDOUT = -2147352516"
definition KERNEL_ERROR_ECANCELED :: int where "KERNEL_ERROR_ECANCELED = -2147352491"
definition POSIX_EINVAL :: int where "POSIX_EINVAL = 22"
definition POSIX_EAGAIN :: int where "POSIX_EAGAIN = 35"
definition POSIX_ETIMEDOUT :: int where "POSIX_ETIMEDOUT = 60"
definition POSIX_EOVERFLOW :: int where "POSIX_EOVERFLOW = 84"

lemmas errno_defs = OK_def KERNEL_ERROR_EPERM_def KERNEL_ERROR_ENOENT_def KERNEL_ERROR_ESRCH_def
  KERNEL_ERROR_EBADF_def KERNEL_ERROR_EDEADLK_def KERNEL_ERROR_ENOMEM_def KERNEL_ERROR_EACCES_def
  KERNEL_ERROR_EFAULT_def KERNEL_ERROR_EBUSY_def
  KERNEL_ERROR_EINVAL_def KERNEL_ERROR_EAGAIN_def KERNEL_ERROR_ETIMEDOUT_def
  KERNEL_ERROR_ECANCELED_def POSIX_EINVAL_def POSIX_EAGAIN_def POSIX_ETIMEDOUT_def
  POSIX_EOVERFLOW_def

section \<open>C++ \<open>int\<close>\<close>

definition int32 :: "int \<Rightarrow> bool" where
  "int32 x \<longleftrightarrow> - (2 ^ 31) \<le> x \<and> x < 2 ^ 31"

section \<open>Objects with atomic steps\<close>

locale atomic_object =
  fixes start :: "'s \<Rightarrow> bool"
    and step :: "'s \<Rightarrow> 's \<Rightarrow> bool"
    and inv :: "'s \<Rightarrow> bool"
  assumes start_inv: "start s \<Longrightarrow> inv s"
    and step_inv: "inv s \<Longrightarrow> step s t \<Longrightarrow> inv t"
begin

lemma steps_inv: "step\<^sup>*\<^sup>* s t \<Longrightarrow> inv s \<Longrightarrow> inv t"
  by (induction rule: rtranclp_induct) (auto intro: step_inv)

lemma reach_inv: "start s \<Longrightarrow> step\<^sup>*\<^sup>* s t \<Longrightarrow> inv t"
  using steps_inv start_inv by blast

end

text \<open>
  \<open>asleep\<close> are the threads blocked on the object that no notification has reached,
  \<open>runnable\<close> the condition a thread waits for.
\<close>

locale waiting_object = atomic_object +
  fixes asleep :: "'a \<Rightarrow> 'w set"
    and runnable :: "'a \<Rightarrow> 'w \<Rightarrow> bool"
  assumes inv_asleep: "inv s \<Longrightarrow> w \<in> asleep s \<Longrightarrow> \<not> runnable s w"
begin

lemma no_lost_wakeup: "start s \<Longrightarrow> step\<^sup>*\<^sup>* s t \<Longrightarrow> w \<in> asleep t \<Longrightarrow> \<not> runnable t w"
  using reach_inv inv_asleep by blast

end

end
