(* ===== verification/MemoryPoolCalls.thy ===== *)
theory MemoryPoolCalls
  imports PooledMemory VirtualRanges PageManager Reachability "HOL-Library.Word"
begin

text \<open>
  The memory pool system calls of \<open>gpu/src/kernel/memory.cpp\<close>: \<open>KernelMemoryPoolExpand\<close>,
  \<open>KernelMemoryPoolReserve\<close>, \<open>KernelMemoryPoolCommit\<close>, \<open>KernelMemoryPoolDecommit\<close>,
  \<open>KernelMemoryPoolBatch\<close>, \<open>KernelMemoryPoolGetBlockStats\<close>, the pool branch of
  \<open>KernelReleaseDirectMemory\<close>, \<open>KernelMprotect\<close> and \<open>KernelMtypeprotect\<close>, with
  \<open>UnmapPooledBackingTransactional\<close>. Each call holds \<open>g_memory_operation_mutex\<close>, so a call is
  one step on the state: the direct memory allocator, the pool, the virtual ranges, the
  counter of committed bytes and the GPU layer.

  The host address space (\<open>DirectMemoryBacking\<close>, \<open>PlaceholderAddressSpace\<close>, and below them the
  operating system) answers each call with success or failure: the answers to come are
  the list \<open>ps_host\<close>, and \<open>ps_views\<close> records what the successful calls made visible, the byte
  of direct memory and the host protection behind each virtual address. Every theorem
  holds for all lists of answers. The GPU resource manager is three functions.
\<close>

unbundle bit_operations_syntax

lemma bindR_cong [fundef_cong]:
  "r = r' \<Longrightarrow> (\<And>x. r' = Inr x \<Longrightarrow> f x = g x) \<Longrightarrow> bindR r f = bindR r' g"
  by (cases r') simp_all

section \<open>State\<close>

datatype guest_call = AllocCallback nat nat | FreeCallback nat nat

record 'g pool_system =
  ps_phys :: physical_memory
  ps_pool :: pooled_memory
  ps_ranges :: "vrange list"
  ps_committed :: nat
  ps_views :: "nat \<Rightarrow> (nat \<times> vm_mode) option"
  ps_host :: "bool list"
  ps_addresses :: "nat list"
  ps_calls :: "guest_call list"
  ps_gpu :: 'g

record 'g gpu_ops =
  map_memory :: "nat \<Rightarrow> nat \<Rightarrow> gpu_access \<Rightarrow> 'g \<Rightarrow> exit_reason + 'g"
  unmap_memory :: "nat \<Rightarrow> nat \<Rightarrow> gpu_access \<Rightarrow> 'g \<Rightarrow> exit_reason + 'g"
  is_mapped :: "nat \<Rightarrow> nat \<Rightarrow> 'g \<Rightarrow> bool"

definition pool_system_start :: "bool list \<Rightarrow> nat list \<Rightarrow> 'g \<Rightarrow> 'g pool_system" where
  "pool_system_start answers addresses g =
     \<lparr>ps_phys = PM_init, ps_pool = Pool_init, ps_ranges = [], ps_committed = 0,
      ps_views = (\<lambda>_. None), ps_host = answers, ps_addresses = addresses, ps_calls = [],
      ps_gpu = g\<rparr>"

section \<open>The host\<close>

text \<open>The answer to the next host call; when the list is used up every call succeeds.\<close>

definition host_answer :: "'g pool_system \<Rightarrow> bool \<times> 'g pool_system" where
  "host_answer s = (case ps_host s of [] \<Rightarrow> (True, s) | b # bs \<Rightarrow> (b, s\<lparr>ps_host := bs\<rparr>))"

definition host_address :: "'g pool_system \<Rightarrow> nat \<times> 'g pool_system" where
  "host_address s = (case ps_addresses s of [] \<Rightarrow> (0, s) | a # as \<Rightarrow> (a, s\<lparr>ps_addresses := as\<rparr>))"

text \<open>
  \<open>MapFixed\<close> and \<open>MapExistingPlaceholderFixed\<close> of a pool mapping: on success the span shows
  the mapping's direct memory with the given protection.
\<close>

definition host_map :: "pool_mapping \<Rightarrow> vm_mode \<Rightarrow> 'g pool_system \<Rightarrow> bool \<times> 'g pool_system" where
  "host_map m mode s = (case host_answer s of
       (True, s) \<Rightarrow> (True, s\<lparr>ps_views :=
          (\<lambda>a. if a \<in> mdom m then Some (translate m a, mode) else ps_views s a)\<rparr>)
     | (False, s) \<Rightarrow> (False, s))"

text \<open>\<open>Unmap(vaddr, size, true, &placeholder_preserved)\<close>.\<close>

definition host_unmap :: "pool_mapping \<Rightarrow> 'g pool_system \<Rightarrow> bool \<times> bool \<times> 'g pool_system" where
  "host_unmap m s = (case host_answer s of
       (True, s) \<Rightarrow> (case host_answer s of (preserved, s) \<Rightarrow>
          (True, preserved, s\<lparr>ps_views := (\<lambda>a. if a \<in> mdom m then None else ps_views s a)\<rparr>))
     | (False, s) \<Rightarrow> (False, False, s))"

section \<open>The GPU side\<close>

fun gpu_access_of :: "gpu_access_mode \<Rightarrow> gpu_access" where
  "gpu_access_of GpuRead = AccessRead"
| "gpu_access_of GpuWrite = AccessWrite"
| "gpu_access_of _ = AccessReadWrite"

definition MapGpuRange :: "'g gpu_ops \<Rightarrow> nat \<Rightarrow> nat \<Rightarrow> gpu_access_mode \<Rightarrow> 'g pool_system \<Rightarrow>
    exit_reason + 'g pool_system" where
  "MapGpuRange ops vaddr n mode s =
     (if mode = GpuNoAccess then Inr s
      else if \<not> IsGpuAddressRange vaddr n then Inl (Exit ''invalid GPU map range'')
      else bindR (map_memory ops vaddr n (gpu_access_of mode) (ps_gpu s))
             (\<lambda>g. Inr (s\<lparr>ps_gpu := g\<rparr>)))"

definition UnmapGpuRange :: "'g gpu_ops \<Rightarrow> nat \<Rightarrow> nat \<Rightarrow> gpu_access_mode \<Rightarrow> 'g pool_system \<Rightarrow>
    exit_reason + 'g pool_system" where
  "UnmapGpuRange ops vaddr n mode s =
     (if mode = GpuNoAccess then Inr s
      else if \<not> IsGpuAddressRange vaddr n then Inl (Exit ''invalid GPU unmap range'')
      else bindR (unmap_memory ops vaddr n (gpu_access_of mode) (ps_gpu s))
             (\<lambda>g. Inr (s\<lparr>ps_gpu := g\<rparr>)))"

section \<open>\<open>UnmapPooledBackingTransactional\<close>\<close>

definition restore_mapping :: "vm_mode \<Rightarrow> pool_mapping \<times> bool \<Rightarrow> 'g pool_system \<Rightarrow>
    exit_reason + 'g pool_system" where
  "restore_mapping mode r s = (case host_map (fst r) mode s of
       (True, s) \<Rightarrow> Inr s
     | (False, s) \<Rightarrow> Inl (Exit ''pooled-memory unmap rollback failed''))"

text \<open>The first loop, with the vector \<open>removed\<close> in reverse.\<close>

fun unmap_pooled :: "vm_mode \<Rightarrow> pool_mapping list \<Rightarrow> (pool_mapping \<times> bool) list \<Rightarrow>
    'g pool_system \<Rightarrow> exit_reason + (pool_mapping \<times> bool) list option \<times> 'g pool_system" where
  "unmap_pooled mode [] removed s = Inr (Some (rev removed), s)"
| "unmap_pooled mode (m # ms) removed s = (case host_unmap m s of
       (True, preserved, s) \<Rightarrow> unmap_pooled mode ms ((m, preserved) # removed) s
     | (False, _, s) \<Rightarrow>
         bindR (foldR (restore_mapping mode) removed s) (\<lambda>s. Inr (None, s)))"

definition reserve_removed :: "pool_mapping \<times> bool \<Rightarrow> 'g pool_system \<Rightarrow>
    exit_reason + 'g pool_system" where
  "reserve_removed r s =
     (if snd r then Inr s
      else (case host_answer s of
              (True, s) \<Rightarrow> Inr s
            | (False, s) \<Rightarrow> Inl (Exit ''failed to reserve pooled-memory placeholder'')))"

definition UnmapPooledBackingTransactional :: "pool_mapping list \<Rightarrow> vm_mode \<Rightarrow>
    'g pool_system \<Rightarrow> exit_reason + bool \<times> 'g pool_system" where
  "UnmapPooledBackingTransactional ms mode s =
     bindR (unmap_pooled mode ms [] s) (\<lambda>(removed, s).
       case removed of
         None \<Rightarrow> Inr (False, s)
       | Some rs \<Rightarrow> bindR (foldR reserve_removed rs s) (\<lambda>s. Inr (True, s)))"

section \<open>\<open>KernelMemoryPoolExpand\<close> and the release of an expansion\<close>

definition IsAligned :: "nat \<Rightarrow> nat \<Rightarrow> bool" where
  "IsAligned v alignment \<longleftrightarrow> alignment = 0 \<or> v AND (alignment - 1) = 0"

definition IsPowerOfTwo :: "nat \<Rightarrow> bool" where
  "IsPowerOfTwo v \<longleftrightarrow> v \<noteq> 0 \<and> v AND (v - 1) = 0"

definition POOL_PAGE_SIZE :: nat where
  "POOL_PAGE_SIZE = 0x10000"

text \<open>
  The result is the error code, the value stored through \<open>phys_addr_out\<close> and the state;
  \<open>out\<close> says that the pointer is not null.
\<close>

definition KernelMemoryPoolExpand :: "int \<Rightarrow> int \<Rightarrow> nat \<Rightarrow> nat \<Rightarrow> bool \<Rightarrow> 'g pool_system \<Rightarrow>
    exit_reason + int \<times> nat option \<times> 'g pool_system" where
  "KernelMemoryPoolExpand search_start search_end len alignment out s =
     (if search_start < 0 \<or> search_end \<le> search_start \<or> len = 0
         \<or> len AND (POOL_PAGE_SIZE - 1) \<noteq> 0 \<or> \<not> out
         \<or> alignment \<noteq> 0
           \<and> (\<not> IsPowerOfTwo alignment \<or> alignment AND (POOL_PAGE_SIZE - 1) \<noteq> 0)
      then Inr (KERNEL_ERROR_EINVAL, None, s)
      else if nat (search_end - search_start) < len then Inr (KERNEL_ERROR_ENOMEM, None, s)
      else
        (let effective_alignment = (if alignment \<noteq> 0 then alignment else POOL_PAGE_SIZE)
         in bindR (PM_Alloc (nat search_start) (nat search_end) len effective_alignment 0 True
                     (ps_phys s))
              (\<lambda>(phys_addr, pm). case phys_addr of
                 None \<Rightarrow> Inr (KERNEL_ERROR_ENOMEM, None, s\<lparr>ps_phys := pm\<rparr>)
               | Some p \<Rightarrow> Inr (OK, Some p,
                   s\<lparr>ps_phys := pm, ps_pool := Pool_Expand p len (ps_pool s)\<rparr>))))"

text \<open>
  \<open>KernelReleaseDirectMemory\<close> up to the return of its pool branch; \<open>None\<close> is the
  continuation with memory that is not a pool expansion.
\<close>

definition KernelReleaseDirectMemory_pool :: "int \<Rightarrow> nat \<Rightarrow> 'g pool_system \<Rightarrow>
    exit_reason + int option \<times> 'g pool_system" where
  "KernelReleaseDirectMemory_pool start len s =
     (if start < 0 \<or> len = 0 then Inr (Some KERNEL_ERROR_EINVAL, s)
      else (case Pool_ReleaseExpansion (nat start) len (ps_pool s) of
          (True, p) \<Rightarrow> (case PM_ReleasePoolExpansion (nat start) len (ps_phys s) of
              (True, pm) \<Rightarrow> Inr (Some OK, s\<lparr>ps_pool := p, ps_phys := pm\<rparr>)
            | (False, pm) \<Rightarrow> Inl (Exit ''failed to release physical pool expansion''))
        | (False, p) \<Rightarrow> Inr (None, s)))"

section \<open>\<open>KernelMemoryPoolReserve\<close>\<close>

definition MAP_FIXED :: prot where "MAP_FIXED = 0x10"
definition MAP_NO_OVERWRITE :: prot where "MAP_NO_OVERWRITE = 0x80"

text \<open>
  \<open>KernelReserveVirtualRange\<close>, called with the address of a local variable of the caller, so
  \<open>addr\<close> is not null. \<open>ReplaceFixedRangeWithReserved\<close> is the function \<open>replace_fixed\<close>: its result, the output \<open>placeholder_backed\<close> and the new state. The
  host's free calls of the failure path have no result that is used.
\<close>

definition KernelReserveVirtualRange ::
    "(nat \<Rightarrow> nat \<Rightarrow> 'g pool_system \<Rightarrow> exit_reason + bool \<times> bool \<times> 'g pool_system) \<Rightarrow>
     nat \<Rightarrow> nat \<Rightarrow> prot \<Rightarrow> nat \<Rightarrow> 'g pool_system \<Rightarrow>
     exit_reason + int \<times> nat option \<times> 'g pool_system" where
  "KernelReserveVirtualRange replace_fixed in_addr len flags alignment s =
     (if len = 0 \<or> len AND (0x4000 - 1) \<noteq> 0 then Inr (KERNEL_ERROR_EINVAL, None, s)
      else if alignment \<noteq> 0 \<and> alignment AND (alignment - 1) \<noteq> 0
      then Inr (KERNEL_ERROR_EINVAL, None, s)
      else if flags AND MAP_FIXED \<noteq> 0 then
        (if in_addr = 0 \<or> in_addr AND (0x4000 - 1) \<noteq> 0
         then Inr (KERNEL_ERROR_EINVAL, None, s)
         else if flags AND MAP_NO_OVERWRITE \<noteq> 0 \<and> VR_HasOverlap in_addr len (ps_ranges s)
         then Inr (KERNEL_ERROR_ENOMEM, None, s)
         else bindR (replace_fixed in_addr len s) (\<lambda>(replaced, placeholder, s).
           if replaced then Inr (OK, Some in_addr, s) else Inr (KERNEL_ERROR_ENOMEM, None, s)))
      else
        (case host_address s of (addr, s1) \<Rightarrow>
         case (if addr = 0 then host_address s1 else (addr, s1)) of (out_addr, s2) \<Rightarrow>
           if out_addr = 0 then Inr (KERNEL_ERROR_ENOMEM, None, s2)
           else (case VR_Add out_addr len 0 0 0 Reserved (Some ''anon'') False (addr \<noteq> 0)
                        (ps_ranges s2) of
               (True, rs) \<Rightarrow> Inr (OK, Some out_addr, s2\<lparr>ps_ranges := rs\<rparr>)
             | (False, rs) \<Rightarrow> Inr (KERNEL_ERROR_EBUSY, None, s2\<lparr>ps_ranges := rs\<rparr>))))"

definition POOL_RESERVE_ALIGNMENT :: nat where
  "POOL_RESERVE_ALIGNMENT = 0x200000"

definition KernelMemoryPoolReserve ::
    "(nat \<Rightarrow> nat \<Rightarrow> 'g pool_system \<Rightarrow> exit_reason + bool \<times> bool \<times> 'g pool_system) \<Rightarrow>
     nat \<Rightarrow> nat \<Rightarrow> nat \<Rightarrow> prot \<Rightarrow> bool \<Rightarrow> 'g pool_system \<Rightarrow>
     exit_reason + int \<times> nat option \<times> 'g pool_system" where
  "KernelMemoryPoolReserve replace_fixed addr_in len alignment flags out s =
     (if \<not> out \<or> len = 0 \<or> \<not> IsAligned len POOL_RESERVE_ALIGNMENT
      then Inr (KERNEL_ERROR_EINVAL, None, s)
      else if alignment \<noteq> 0
        \<and> (\<not> IsPowerOfTwo alignment \<or> \<not> IsAligned alignment POOL_RESERVE_ALIGNMENT)
      then Inr (KERNEL_ERROR_EINVAL, None, s)
      else
        (let reserve_alignment = (if alignment \<noteq> 0 then alignment else POOL_RESERVE_ALIGNMENT)
         in bindR (KernelReserveVirtualRange replace_fixed addr_in len flags reserve_alignment s)
              (\<lambda>(ret, out_addr, s). case out_addr of
                 None \<Rightarrow> Inr (ret, None, s)
               | Some v \<Rightarrow> (case VR_Query v 0 (ps_ranges s) of
                     None \<Rightarrow> Inr (KERNEL_ERROR_EBUSY, None, s)
                   | Some r \<Rightarrow>
                       if r_start r \<noteq> v \<or> r_size r \<noteq> len \<or> \<not> IsReservedRangeType (r_type r)
                       then Inr (KERNEL_ERROR_EBUSY, None, s)
                       else
                         (let rs = snd (VR_Remove v len (ps_ranges s))
                          in case VR_Add v len 0 0 0 PoolReserved (Some (r_name r)) False
                                    (r_placeholder_backed r) rs of
                               (True, rs) \<Rightarrow> Inr (OK, Some v, s\<lparr>ps_ranges := rs\<rparr>)
                             | (False, rs) \<Rightarrow> Inr (KERNEL_ERROR_EBUSY, None, s\<lparr>ps_ranges :=
                                 snd (VR_Add v len (r_offset r) (r_protection r)
                                   (r_memory_type r) (r_type r) (Some (r_name r))
                                   (r_committed_from_reserved r) (r_placeholder_backed r)
                                   rs)\<rparr>))))))"

section \<open>\<open>KernelMemoryPoolCommit\<close>\<close>

definition POOL_COMMIT_ALIGNMENT :: nat where
  "POOL_COMMIT_ALIGNMENT = 0x10000"

definition readd_reserved :: "nat \<Rightarrow> nat \<Rightarrow> string \<Rightarrow> bool \<Rightarrow> 'g pool_system \<Rightarrow> 'g pool_system"
  where
  "readd_reserved vaddr len name placeholder s =
     s\<lparr>ps_ranges := snd (VR_Add vaddr len 0 0 0 PoolReserved (Some name) False placeholder
        (ps_ranges s))\<rparr>"

definition commit_rollback :: "nat \<Rightarrow> nat \<Rightarrow> vm_mode \<Rightarrow> vrange \<Rightarrow> pool_mapping list \<Rightarrow>
    'g pool_system \<Rightarrow> exit_reason + 'g pool_system" where
  "commit_rollback vaddr len mode old_range mapped s =
     bindR (UnmapPooledBackingTransactional mapped mode s) (\<lambda>(ok, s).
       if \<not> ok then Inl (Exit ''failed to roll back pooled-memory backing maps'')
       else (case Pool_Release vaddr len (ps_pool s) of
           (None, p) \<Rightarrow> Inl (Exit ''failed to release pooled-memory rollback allocation'')
         | (Some g, p) \<Rightarrow> Inr (readd_reserved vaddr len (r_name old_range)
              (r_placeholder_backed old_range) (s\<lparr>ps_pool := p\<rparr>))))"

text \<open>
  The loop that maps the mappings: the mappings made so far when one fails, in order.
  \<open>Consume\<close> and the map call each take an answer of the host.
\<close>

fun map_pooled :: "vm_mode \<Rightarrow> pool_mapping list \<Rightarrow> pool_mapping list \<Rightarrow> 'g pool_system \<Rightarrow>
    bool \<times> pool_mapping list \<times> 'g pool_system" where
  "map_pooled mode [] mapped s = (True, mapped, s)"
| "map_pooled mode (m # ms) mapped s =
     (case host_answer s of (placeholder_ready, s) \<Rightarrow>
      case host_map m mode s of
        (True, s) \<Rightarrow> map_pooled mode ms (mapped @ [m]) s
      | (False, s) \<Rightarrow> (False, mapped, s))"

definition KernelMemoryPoolCommit :: "'g gpu_ops \<Rightarrow> nat \<Rightarrow> nat \<Rightarrow> int \<Rightarrow> prot \<Rightarrow>
    'g pool_system \<Rightarrow> exit_reason + int \<times> 'g pool_system" where
  "KernelMemoryPoolCommit ops addr len type prot s =
     (if addr = 0 \<or> len = 0 \<or> \<not> IsAligned len POOL_COMMIT_ALIGNMENT
         \<or> prot AND PROT_CPU_EXEC \<noteq> 0
      then Inr (KERNEL_ERROR_EINVAL, s)
      else case DecodeMemoryProtection prot of
        None \<Rightarrow> Inr (KERNEL_ERROR_EINVAL, s)
      | Some (mode, gpu_mode) \<Rightarrow>
        (case VR_Query addr 0 (ps_ranges s) of
           None \<Rightarrow> Inr (KERNEL_ERROR_EACCES, s)
         | Some old_range \<Rightarrow>
             if r_type old_range \<noteq> PoolReserved then Inr (KERNEL_ERROR_EACCES, s)
             else
               (case VR_ConsumeReserved addr len PoolReserved (ps_ranges s) of
                  (False, rs) \<Rightarrow> Inr (KERNEL_ERROR_EACCES, s\<lparr>ps_ranges := rs\<rparr>)
                | (True, rs) \<Rightarrow>
                    (let s = s\<lparr>ps_ranges := rs\<rparr>
                     in case Pool_Allocate addr len gpu_mode (ps_pool s) of
                       (None, p) \<Rightarrow> Inr (KERNEL_ERROR_ENOMEM,
                         readd_reserved addr len (r_name old_range)
                           (r_placeholder_backed old_range) (s\<lparr>ps_pool := p\<rparr>))
                     | (Some ms, p) \<Rightarrow>
                         (case map_pooled mode ms [] (s\<lparr>ps_pool := p\<rparr>) of
                            (False, mapped, s) \<Rightarrow>
                              bindR (commit_rollback addr len mode old_range mapped s)
                                (\<lambda>s. Inr (KERNEL_ERROR_ENOMEM, s))
                          | (True, mapped, s) \<Rightarrow>
                              (case VR_Add addr len 0 prot type Pooled (Some (r_name old_range))
                                      True (r_placeholder_backed old_range) (ps_ranges s) of
                                 (False, rs) \<Rightarrow>
                                   bindR (commit_rollback addr len mode old_range mapped
                                            (s\<lparr>ps_ranges := rs\<rparr>))
                                     (\<lambda>s. Inr (KERNEL_ERROR_EBUSY, s))
                               | (True, rs) \<Rightarrow>
                                   bindR (MapGpuRange ops addr len gpu_mode (s\<lparr>ps_ranges := rs\<rparr>))
                                     (\<lambda>s. Inr (OK,
                                        s\<lparr>ps_calls := ps_calls s @ [AllocCallback addr len],
                                          ps_committed := add64 (ps_committed s) len\<rparr>))))))))"

section \<open>\<open>KernelMemoryPoolDecommit\<close>\<close>

definition MemoryPoolSubtractCommitted :: "nat \<Rightarrow> nat \<Rightarrow> nat" where
  "MemoryPoolSubtractCommitted len current = (if current > len then current - len else 0)"

text \<open>The loop that checks that the whole span is pool memory.\<close>

function decommit_scan :: "nat \<Rightarrow> nat \<Rightarrow> vrange list \<Rightarrow> bool" where
  "decommit_scan e scan rs =
     (if scan < e then
        (case VR_Query scan 0 rs of
           None \<Rightarrow> False
         | Some r \<Rightarrow>
             if r_type r \<noteq> Pooled \<and> r_type r \<noteq> PoolReserved then False
             else
               (let next = min e (add64 (r_start r) (r_size r))
                in if next \<le> scan then False else decommit_scan e next rs))
      else True)"
  by pat_completeness auto

termination
  by (relation "measure (\<lambda>(e, scan, rs). e - scan)") auto

declare decommit_scan.simps [simp del]

definition decommit_chunk :: "'g gpu_ops \<Rightarrow> nat \<Rightarrow> nat \<Rightarrow> vrange \<Rightarrow> 'g pool_system \<Rightarrow>
    exit_reason + int \<times> 'g pool_system" where
  "decommit_chunk ops vaddr len old_range s =
     (case Pool_Query vaddr len (ps_pool s) of
        None \<Rightarrow> Inr (KERNEL_ERROR_EACCES, s)
      | Some ms \<Rightarrow>
          (case DecodeMemoryProtection (r_protection old_range) of
             None \<Rightarrow> Inr (KERNEL_ERROR_EACCES, s)
           | Some (mode, decoded_gpu) \<Rightarrow>
               bindR (UnmapGpuRange ops vaddr len decoded_gpu s) (\<lambda>s.
               bindR (UnmapPooledBackingTransactional ms mode s) (\<lambda>(ok, s).
                 if \<not> ok
                 then Inl (Exit ''pooled-memory backing transaction failed after GPU unmap'')
                 else (case Pool_Release vaddr len (ps_pool s) of
                     (None, p) \<Rightarrow> Inl (Exit ''failed to release decommitted pooled-memory range'')
                   | (Some g, p) \<Rightarrow>
                       (let s = s\<lparr>ps_pool := p, ps_ranges := snd (VR_Remove vaddr len (ps_ranges s))\<rparr>;
                            s = readd_reserved vaddr len (r_name old_range) True s
                        in Inr (OK, s\<lparr>ps_calls := ps_calls s @ [FreeCallback vaddr len],
                             ps_committed := MemoryPoolSubtractCommitted len (ps_committed s)\<rparr>)))))))"

definition decommit_length :: "nat \<Rightarrow> nat \<Rightarrow> vrange \<Rightarrow> nat" where
  "decommit_length vaddr len r = min len (sub64 (r_size r) (sub64 vaddr (r_start r)))"

lemma int_sub64: "int (sub64 a b) = (int a - int b) mod int U64"
proof -
  have "int (U64 - b mod U64) = int U64 - int b mod int U64"
    using mod_less_divisor [OF U64_pos, of b] by (simp add: of_nat_diff zmod_int)
  then have "int (sub64 a b) = (int a + (int U64 - int b mod int U64)) mod int U64"
    unfolding sub64_def zmod_int of_nat_add by simp
  also have "\<dots> = (int a - int b mod int U64 + int U64) mod int U64"
    by (simp only: diff_conv_add_uminus add.assoc add.commute [of "int U64"])
  also have "\<dots> = (int a - int b) mod int U64" by (simp only: mod_add_self2 mod_diff_right_eq)
  finally show ?thesis .
qed

lemma sub64_sub64_0:
  assumes "sub64 n (sub64 v s) = 0"
  shows "v mod U64 = (s + n) mod U64"
proof -
  have "(int n - (int v - int s) mod int U64) mod int U64 = 0"
    using assms int_sub64 [of n "sub64 v s"] by (simp only: int_sub64 of_nat_0)
  then have "(int n - (int v - int s)) mod int U64 = 0" by (simp only: mod_diff_right_eq)
  then have "int U64 dvd (int s + int n) - int v"
    by (simp add: algebra_simps dvd_eq_mod_eq_0)
  then have "int v mod int U64 = int (s + n) mod int U64"
    unfolding of_nat_add by (subst eq_commute) (simp only: mod_eq_dvd_iff)
  then show ?thesis by (simp only: zmod_int [symmetric] of_nat_eq_iff)
qed

text \<open>The check of the span makes sure that the chunk is not empty.\<close>

lemma decommit_progress:
  assumes "decommit_scan (add64 vaddr len) vaddr rs" and "\<not> UINT64_MAX - vaddr < len"
    and "0 < len" and "VR_Query vaddr 0 rs = Some r"
  shows "0 < decommit_length vaddr len r"
proof -
  have v: "vaddr + len < U64" using assms(2,3) by (simp add: UINT64_MAX_def U64_def)
  then have lt: "vaddr < add64 vaddr len" using assms(3) by (simp add: add64_exact)
  have "\<not> add64 (r_start r) (r_size r) \<le> vaddr"
    using assms(1,4) lt by (subst (asm) decommit_scan.simps) (auto simp: Let_def split: if_splits)
  then have "vaddr mod U64 \<noteq> (r_start r + r_size r) mod U64"
    using v by (simp add: add64_def)
  then have "sub64 (r_size r) (sub64 vaddr (r_start r)) \<noteq> 0"
    using sub64_sub64_0 by metis
  then show ?thesis using assms(3) by (simp add: decommit_length_def)
qed

function KernelMemoryPoolDecommit :: "'g gpu_ops \<Rightarrow> nat \<Rightarrow> nat \<Rightarrow> 'g pool_system \<Rightarrow>
    exit_reason + int \<times> 'g pool_system" where
  "KernelMemoryPoolDecommit ops addr len s =
     (if addr = 0 \<or> len = 0 \<or> \<not> IsAligned len POOL_COMMIT_ALIGNMENT
      then Inr (KERNEL_ERROR_EINVAL, s)
      else if UINT64_MAX - addr < len then Inr (KERNEL_ERROR_EINVAL, s)
      else if \<not> decommit_scan (add64 addr len) addr (ps_ranges s)
      then Inr (KERNEL_ERROR_EACCES, s)
      else (case VR_Query addr 0 (ps_ranges s) of
          None \<Rightarrow> Inr (KERNEL_ERROR_EACCES, s)
        | Some old_range \<Rightarrow>
            (let chunk_len = decommit_length addr len old_range
             in if r_type old_range = PoolReserved then
                  (if chunk_len < len
                   then KernelMemoryPoolDecommit ops (add64 addr chunk_len) (len - chunk_len) s
                   else Inr (OK, s))
                else if r_type old_range \<noteq> Pooled then Inr (KERNEL_ERROR_EACCES, s)
                else if chunk_len < len then
                  bindR (KernelMemoryPoolDecommit ops addr chunk_len s) (\<lambda>(ret, s).
                    if ret = OK
                    then KernelMemoryPoolDecommit ops (add64 addr chunk_len) (len - chunk_len) s
                    else Inr (ret, s))
                else decommit_chunk ops addr len old_range s)))"
  by pat_completeness auto

termination
  by (relation "measure (\<lambda>(ops, addr, len, s). len)") (auto dest: decommit_progress)

declare KernelMemoryPoolDecommit.simps [simp del]

section \<open>\<open>KernelMprotect\<close>\<close>

definition MPROTECT_PAGE_SIZE :: nat where
  "MPROTECT_PAGE_SIZE = 0x4000"

definition page_floor :: "nat \<Rightarrow> nat" where
  "page_floor a = a - a mod MPROTECT_PAGE_SIZE"

text \<open>
  \<open>ProtectCommittedHostMemory\<close>: on success the host pages of the span have the new
  protection; the system call does not return when it fails.
\<close>

definition host_protect :: "nat \<Rightarrow> nat \<Rightarrow> vm_mode \<Rightarrow> 'g pool_system \<Rightarrow> bool \<times> 'g pool_system" where
  "host_protect start n mode s = (case host_answer s of
       (True, s) \<Rightarrow> (True, s\<lparr>ps_views := (\<lambda>a. if start \<le> a \<and> a < start + n
          then map_option (\<lambda>x. (fst x, mode)) (ps_views s a) else ps_views s a)\<rparr>)
     | (False, s) \<Rightarrow> (False, s))"

text \<open>The loop over the old ranges.\<close>

definition protect_unmap_gpu :: "'g gpu_ops \<Rightarrow> vrange \<Rightarrow> 'g pool_system \<Rightarrow>
    exit_reason + 'g pool_system" where
  "protect_unmap_gpu ops r s =
     bindR (GetGpuAccessMode (r_protection r)) (\<lambda>old_gpu_mode.
       if old_gpu_mode = GpuNoAccess then Inr s
       else if \<not> is_mapped ops (r_start r) (r_size r) (ps_gpu s)
       then Inl (Exit ''GPU protection transition requires tracked memory'')
       else UnmapGpuRange ops (r_start r) (r_size r) old_gpu_mode s)"

definition KernelMprotect :: "'g gpu_ops \<Rightarrow> nat \<Rightarrow> nat \<Rightarrow> prot \<Rightarrow> 'g pool_system \<Rightarrow>
    exit_reason + int \<times> 'g pool_system" where
  "KernelMprotect ops addr len prot s =
     (let aligned_addr = page_floor addr;
          page_offset = addr - aligned_addr
      in if len > UINT64_MAX - page_offset
            \<or> len + page_offset > UINT64_MAX - (MPROTECT_PAGE_SIZE - 1)
         then Inl (Exit ''memory-protection range overflows'')
         else
           (let aligned_len = page_floor (len + page_offset + (MPROTECT_PAGE_SIZE - 1))
            in if aligned_len = 0 then Inr (OK, s)
               else case DecodeMemoryProtection prot of
                 None \<Rightarrow> Inr (KERNEL_ERROR_EINVAL, s)
               | Some (mode, gpu_mode) \<Rightarrow>
                   (case VR_QuerySpan aligned_addr aligned_len (ps_ranges s) of
                      None \<Rightarrow> Inl (Exit ''memory-protection range is not fully mapped'')
                    | Some old_ranges \<Rightarrow>
                        if \<exists>r\<in>set old_ranges. \<not> IsCommittedRangeType (r_type r)
                        then Inl (Exit ''memory-protection range is not fully mapped'')
                        else
                          bindR (foldR (protect_unmap_gpu ops) old_ranges s) (\<lambda>s.
                          case host_protect aligned_addr aligned_len mode s of
                            (False, s) \<Rightarrow> Inl (Exit ''host memory-protection update failed'')
                          | (True, s) \<Rightarrow>
                              bindR (MapGpuRange ops aligned_addr aligned_len gpu_mode
                                (s\<lparr>ps_ranges := VR_Protect aligned_addr aligned_len prot
                                   (ps_ranges s)\<rparr>)) (\<lambda>s. Inr (OK, s))))))"

definition KernelMtypeprotect :: "'g gpu_ops \<Rightarrow> nat \<Rightarrow> nat \<Rightarrow> int \<Rightarrow> prot \<Rightarrow> 'g pool_system \<Rightarrow>
    exit_reason + int \<times> 'g pool_system" where
  "KernelMtypeprotect ops addr len type prot s = KernelMprotect ops addr len prot s"

section \<open>\<open>KernelMemoryPoolBatch\<close> and \<open>KernelMemoryPoolGetBlockStats\<close>\<close>

text \<open>
  An entry of a batch, by its \<open>op\<close>; \<open>prot\<close> and \<open>type\<close> are the bytes of the entry.
\<close>

datatype batch_entry =
  PoolCommit nat nat "8 word" "8 word"
| PoolDecommit nat nat
| PoolProtect nat nat "8 word"
| PoolTypeProtect nat nat "8 word" "8 word"
| PoolOther "32 word"

fun batch_entry_call :: "'g gpu_ops \<Rightarrow> batch_entry \<Rightarrow> 'g pool_system \<Rightarrow>
    exit_reason + int \<times> 'g pool_system" where
  "batch_entry_call ops (PoolCommit addr len prot type) s =
     KernelMemoryPoolCommit ops addr len (uint type) (ucast prot) s"
| "batch_entry_call ops (PoolDecommit addr len) s = KernelMemoryPoolDecommit ops addr len s"
| "batch_entry_call ops (PoolProtect addr len prot) s = KernelMprotect ops addr len (ucast prot) s"
| "batch_entry_call ops (PoolTypeProtect addr len prot type) s =
     KernelMtypeprotect ops addr len (uint type) (ucast prot) s"
| "batch_entry_call ops (PoolOther op) s = Inr (KERNEL_ERROR_EINVAL, s)"

fun batch_loop :: "'g gpu_ops \<Rightarrow> batch_entry list \<Rightarrow> nat \<Rightarrow> 'g pool_system \<Rightarrow>
    exit_reason + int \<times> nat \<times> 'g pool_system" where
  "batch_loop ops [] processed s = Inr (OK, processed, s)"
| "batch_loop ops (e # es) processed s =
     bindR (batch_entry_call ops e s) (\<lambda>(result, s).
       if result \<noteq> OK then Inr (result, processed, s)
       else batch_loop ops es (processed + 1) s)"

text \<open>\<open>None\<close> is a null pointer; the second result is what \<open>num_entries_out\<close> receives.\<close>

definition KernelMemoryPoolBatch :: "'g gpu_ops \<Rightarrow> batch_entry list option \<Rightarrow>
    int \<Rightarrow> bool \<Rightarrow> 'g pool_system \<Rightarrow> exit_reason + int \<times> nat option \<times> 'g pool_system" where
  "KernelMemoryPoolBatch ops entries num_entries out s =
     (case entries of
        None \<Rightarrow> Inr (KERNEL_ERROR_EINVAL, None, s)
      | Some es \<Rightarrow>
          if num_entries < 0 then Inr (KERNEL_ERROR_EINVAL, None, s)
          else bindR (batch_loop ops (take (nat num_entries) es) 0 s)
            (\<lambda>(result, processed, s). Inr (result, if out then Some processed else None, s)))"

record block_stats =
  available_flushed_blocks :: "32 word"
  available_cached_blocks :: "32 word"
  allocated_flushed_blocks :: "32 word"
  allocated_cached_blocks :: "32 word"

definition block_stats_bytes :: "block_stats \<Rightarrow> 8 word list" where
  "block_stats_bytes st = concat (map (\<lambda>w. map (\<lambda>i. ucast (drop_bit (8 * i) w)) [0 ..< 4])
     [available_flushed_blocks st, available_cached_blocks st,
      allocated_flushed_blocks st, allocated_cached_blocks st])"

definition pool_block_stats :: "'g pool_system \<Rightarrow> block_stats" where
  "pool_block_stats s =
     \<lparr>available_flushed_blocks = of_nat (Pool_Available (ps_pool s) div 0x10000),
      available_cached_blocks = 0,
      allocated_flushed_blocks = of_nat (ps_committed s div 0x10000),
      allocated_cached_blocks = 0\<rparr>"

text \<open>The second result is the bytes written to the output.\<close>

definition KernelMemoryPoolGetBlockStats :: "bool \<Rightarrow> nat \<Rightarrow> 'g pool_system \<Rightarrow> int \<times> 8 word list" where
  "KernelMemoryPoolGetBlockStats output output_size s =
     (if \<not> output \<and> output_size \<noteq> 0 then (KERNEL_ERROR_EFAULT, [])
      else (OK, take (min output_size 16) (block_stats_bytes (pool_block_stats s))))"

end
