(* ===== verification/MemoryPoolInvariant.thy ===== *)
theory MemoryPoolInvariant
  imports MemoryPoolCalls
begin

text \<open>
  The invariant that the memory pool system calls keep across the direct memory allocator,
  the pool, the virtual ranges and the host's views, and what the transactions on the host
  do to the views whether they succeed or not.
\<close>

section \<open>Transactions on the host\<close>

text \<open>Host calls change the answers left and the views only.\<close>

definition host_frame :: "'g pool_system \<Rightarrow> 'g pool_system \<Rightarrow> bool" where
  "host_frame s s' \<longleftrightarrow> s' = s\<lparr>ps_views := ps_views s', ps_host := ps_host s'\<rparr>"

lemma host_frame_refl [simp]: "host_frame s s"
  by (simp add: host_frame_def)

lemma host_frameI: "s' = s\<lparr>ps_views := v, ps_host := h\<rparr> \<Longrightarrow> host_frame s s'"
  by (simp add: host_frame_def)

lemma host_frame_trans: "host_frame s t \<Longrightarrow> host_frame t u \<Longrightarrow> host_frame s u"
  unfolding host_frame_def by (cases s, cases t, cases u) simp

lemma host_frameD:
  assumes "host_frame s s'"
  shows "ps_phys s' = ps_phys s" "ps_pool s' = ps_pool s" "ps_ranges s' = ps_ranges s"
    "ps_committed s' = ps_committed s" "ps_calls s' = ps_calls s" "ps_gpu s' = ps_gpu s"
    "ps_addresses s' = ps_addresses s"
  using assms unfolding host_frame_def by (cases s, cases s', simp)+

definition show_all :: "vm_mode \<Rightarrow> pool_mapping list \<Rightarrow> (nat \<Rightarrow> (nat \<times> vm_mode) option) \<Rightarrow>
    nat \<Rightarrow> (nat \<times> vm_mode) option" where
  "show_all mode ms V a = (case mview ms a of Some x \<Rightarrow> Some (x, mode) | None \<Rightarrow> V a)"

definition hide_all :: "pool_mapping list \<Rightarrow> (nat \<Rightarrow> (nat \<times> vm_mode) option) \<Rightarrow>
    nat \<Rightarrow> (nat \<times> vm_mode) option" where
  "hide_all ms V a = (if mview ms a = None then V a else None)"

lemma show_all_Nil [simp]: "show_all mode [] V = V"
  by (simp add: show_all_def fun_eq_iff)

lemma hide_all_Nil [simp]: "hide_all [] V = V"
  by (simp add: hide_all_def fun_eq_iff)

lemma hide_show: "\<forall>a. mview ms a \<noteq> None \<longrightarrow> V a = None \<Longrightarrow> hide_all ms (show_all mode ms V) = V"
  by (auto simp: hide_all_def show_all_def fun_eq_iff split: option.splits)

lemma show_hide:
  "(\<And>a x. mview ms a = Some x \<Longrightarrow> V a = Some (x, mode)) \<Longrightarrow> show_all mode ms (hide_all ms V) = V"
  by (auto simp: hide_all_def show_all_def fun_eq_iff split: option.splits)

lemma mview_single_apart:
  "ms_wf (m # ms) \<Longrightarrow> a \<in> mdom m \<Longrightarrow> mview ms a = None"
  by (auto simp: mview_None)

lemma mview_swap:
  assumes "ms_wf (m # xs @ ks)"
  shows "mview (xs @ m # ks) a = mview (m # xs @ ks) a"
proof (cases "a \<in> mdom m")
  case True
  then have "mview xs a = None" using assms by (auto simp: mview_None)
  then show ?thesis using True by (simp add: mview_append)
next
  case False
  then show ?thesis by (cases "mview xs a") (simp_all add: mview_append)
qed

lemma show_Cons:
  "ms_wf (m # ms) \<Longrightarrow> show_all mode ms (show_all mode [m] V) = show_all mode (m # ms) V"
  using mview_single_apart [of m ms]
  by (auto simp: show_all_def fun_eq_iff split: option.splits)

lemma show_append:
  "show_all mode ms (show_all mode ks V) = show_all mode (ms @ ks) V"
  by (auto simp: show_all_def fun_eq_iff mview_append split: option.splits)

lemma hide_append: "hide_all ms (hide_all ks V) = hide_all (ks @ ms) V"
  by (auto simp: hide_all_def fun_eq_iff mview_append split: option.splits)

lemma host_answer_frame: "host_answer s = (b, s') \<Longrightarrow> host_frame s s' \<and> ps_views s' = ps_views s"
  by (auto simp: host_answer_def host_frame_def split: list.splits)

lemma host_map_spec:
  assumes "host_map m mode s = (ok, s')"
  shows "host_frame s s'
    \<and> ps_views s' = (if ok then show_all mode [m] (ps_views s) else ps_views s)"
proof -
  obtain b t where t: "host_answer s = (b, t)" by fastforce
  note f = host_answer_frame [OF t]
  show ?thesis
  proof (cases b)
    case True
    then have "ok" and s': "s' = t\<lparr>ps_views := (\<lambda>a. if a \<in> mdom m then Some (translate m a, mode)
        else ps_views t a)\<rparr>"
      using assms t by (simp_all add: host_map_def)
    moreover have "host_frame t s'" using s' by (simp add: host_frame_def)
    then have "host_frame s s'" using f host_frame_trans by metis
    ultimately show ?thesis
      using f by (simp add: show_all_def fun_eq_iff)
  next
    case False
    then show ?thesis using assms t f by (simp add: host_map_def)
  qed
qed

lemma host_unmap_spec:
  assumes "host_unmap m s = (ok, preserved, s')"
  shows "host_frame s s'
    \<and> ps_views s' = (if ok then hide_all [m] (ps_views s) else ps_views s)"
proof -
  obtain b t where t: "host_answer s = (b, t)" by fastforce
  obtain c u where u: "host_answer t = (c, u)" by fastforce
  note f = host_answer_frame [OF t] host_answer_frame [OF u]
  show ?thesis
  proof (cases b)
    case True
    then have "ok" and s': "s' = u\<lparr>ps_views := (\<lambda>a. if a \<in> mdom m then None else ps_views u a)\<rparr>"
      using assms t u by (simp_all add: host_unmap_def)
    moreover have "host_frame u s'" using s' by (simp add: host_frame_def)
    then have "host_frame s s'" using f host_frame_trans by metis
    ultimately show ?thesis
      using f by (simp add: hide_all_def fun_eq_iff)
  next
    case False
    then show ?thesis using assms t f by (simp add: host_unmap_def)
  qed
qed

lemma restore_all:
  assumes "foldR (restore_mapping mode) rs s = Inr s'" and "ms_wf (map fst rs)"
  shows "host_frame s s' \<and> ps_views s' = show_all mode (map fst rs) (ps_views s)"
  using assms
proof (induction rs arbitrary: s)
  case (Cons r rs)
  obtain ok t where t: "host_map (fst r) mode s = (ok, t)" by fastforce
  then have "restore_mapping mode r s
      = (if ok then Inr t else Inl (Exit ''pooled-memory unmap rollback failed''))"
    by (simp add: restore_mapping_def)
  then have "ok" "foldR (restore_mapping mode) rs t = Inr s'"
    using Cons.prems(1) by (simp_all split: if_splits)
  moreover have "ms_wf (map fst rs)" using Cons.prems(2) by simp
  ultimately have "host_frame t s' \<and> ps_views s' = show_all mode (map fst rs) (ps_views t)"
    using Cons.IH by blast
  then show ?case
    using host_map_spec [OF t] \<open>ok\<close> host_frame_trans [of s t s'] Cons.prems(2)
      show_Cons [of "fst r" "map fst rs"] by simp
qed simp

lemma reserve_all:
  assumes "foldR reserve_removed rs s = Inr s'"
  shows "host_frame s s' \<and> ps_views s' = ps_views s"
  using assms
proof (induction rs arbitrary: s)
  case (Cons r rs)
  obtain b t where t: "host_answer s = (b, t)" by fastforce
  show ?case
  proof (cases "snd r")
    case True
    then show ?thesis using Cons by (simp add: reserve_removed_def)
  next
    case False
    then have "reserve_removed r s
        = (if b then Inr t else Inl (Exit ''failed to reserve pooled-memory placeholder''))"
      using t by (simp add: reserve_removed_def)
    then have "foldR reserve_removed rs t = Inr s'"
      using Cons.prems by (simp split: if_splits)
    then show ?thesis
      using Cons.IH host_answer_frame [OF t] host_frame_trans [of s t s'] by simp
  qed
qed simp

lemma unmap_pooled_spec:
  assumes "unmap_pooled mode ms removed s = Inr (r, s')" and "ms_wf (map fst removed @ ms)"
  shows "host_frame s s' \<and>
    (case r of
       Some rs \<Rightarrow> map fst rs = map fst (rev removed) @ ms \<and> ps_views s' = hide_all ms (ps_views s)
     | None \<Rightarrow> \<exists>ks. set ks \<subseteq> set ms \<and> ms_wf (map fst removed @ ks)
         \<and> ps_views s' = show_all mode (map fst removed @ ks) (ps_views s))"
  using assms
proof (induction ms arbitrary: removed s)
  case Nil
  then show ?case by auto
next
  case (Cons m ms)
  obtain ok preserved t where t: "host_unmap m s = (ok, preserved, t)" by (metis prod_cases3)
  note step = host_unmap_spec [OF t]
  show ?case
  proof (cases ok)
    case True
    have eq: "unmap_pooled mode ms ((m, preserved) # removed) t = Inr (r, s')"
      using Cons.prems(1) t True by simp
    have wf: "ms_wf (map fst ((m, preserved) # removed) @ ms)"
      using Cons.prems(2) by (auto simp: Int_commute)
    note IH = Cons.IH [OF eq wf]
    have V: "ps_views t = hide_all [m] (ps_views s)" using step True by simp
    show ?thesis
    proof (cases r)
      case (Some rs)
      then show ?thesis using IH step V host_frame_trans [of s t s']
        by (simp add: hide_append)
    next
      case None
      then obtain ks where ks: "set ks \<subseteq> set ms" "ms_wf (m # map fst removed @ ks)"
        "ps_views s' = show_all mode (m # map fst removed @ ks) (hide_all [m] (ps_views s))"
        using IH V by auto
      have "ps_views s' = show_all mode (map fst removed @ m # ks) (ps_views s)"
        unfolding ks(3) by (rule ext)
          (simp add: show_all_def hide_all_def mview_swap [OF ks(2)] split: option.splits)
      moreover have "ms_wf (map fst removed @ m # ks)" using ks(2) by (auto simp: Int_commute)
      moreover have "set (m # ks) \<subseteq> set (m # ms)" using ks(1) by auto
      moreover have "host_frame s s'" using IH step host_frame_trans [of s t s'] by blast
      ultimately show ?thesis unfolding None option.case by blast
    qed
  next
    case False
    then obtain u where u: "foldR (restore_mapping mode) removed t = Inr u" "r = None" "s' = u"
      using Cons.prems(1) t by (auto simp: bindR_eq_Inr)
    have "ms_wf (map fst removed)" using Cons.prems(2) by simp
    note all = restore_all [OF u(1) this]
    then show ?thesis
      using u step False host_frame_trans [of s t s'] Cons.prems(2)
      by (auto intro!: exI [of _ "[]"])
  qed
qed

lemma UnmapPooled_spec:
  assumes "UnmapPooledBackingTransactional ms mode s = Inr (ok, s')" and "ms_wf ms"
  shows "host_frame s s'
    \<and> (if ok then ps_views s' = hide_all ms (ps_views s)
       else \<exists>ks. set ks \<subseteq> set ms \<and> ms_wf ks \<and> ps_views s' = show_all mode ks (ps_views s))"
proof -
  obtain r t where t: "unmap_pooled mode ms [] s = Inr (r, t)"
    and rest: "(case r of None \<Rightarrow> Inr (False, t)
       | Some rs \<Rightarrow> bindR (foldR reserve_removed rs t) (\<lambda>s. Inr (True, s))) = Inr (ok, s')"
    using assms(1) unfolding UnmapPooledBackingTransactional_def bindR_eq_Inr by auto
  have "ms_wf (map fst [] @ ms)" using assms(2) by simp
  note spec = unmap_pooled_spec [OF t this]
  show ?thesis
  proof (cases r)
    case None
    then show ?thesis using spec rest by auto
  next
    case (Some rs)
    then obtain "ok" and "foldR reserve_removed rs t = Inr s'"
      using rest by (auto simp: bindR_eq_Inr)
    then show ?thesis using spec Some reserve_all [of rs t s'] host_frame_trans [of s t s'] by simp
  qed
qed

lemma map_pooled_spec:
  assumes "map_pooled mode ms mapped s = (ok, mapped', s')" and "ms_wf ms"
  shows "\<exists>ks rest. mapped' = mapped @ ks \<and> ms = ks @ rest \<and> (ok \<longrightarrow> rest = [])
    \<and> host_frame s s' \<and> ps_views s' = show_all mode ks (ps_views s)"
  using assms
proof (induction ms arbitrary: mapped s)
  case Nil
  then show ?case by auto
next
  case (Cons m ms)
  obtain b t where t: "host_answer s = (b, t)" by fastforce
  obtain c u where u: "host_map m mode t = (c, u)" by fastforce
  note f = host_answer_frame [OF t] host_map_spec [OF u]
  show ?case
  proof (cases c)
    case True
    have wf: "ms_wf ms" using Cons.prems(2) by simp
    have "map_pooled mode ms (mapped @ [m]) u = (ok, mapped', s')"
      using Cons.prems(1) t u True by simp
    from Cons.IH [OF this wf] obtain ks rest where ks: "mapped' = (mapped @ [m]) @ ks"
      "ms = ks @ rest" "ok \<longrightarrow> rest = []" "host_frame u s'"
      "ps_views s' = show_all mode ks (ps_views u)" by blast
    have "ms_wf (m # ks)" using Cons.prems(2) ks(2) by auto
    then have "ps_views s' = show_all mode (m # ks) (ps_views s)"
      using ks(5) f True show_Cons by simp
    moreover have "host_frame s s'" using f ks(4) host_frame_trans by blast
    ultimately show ?thesis
      using ks(1-3) by (intro exI [of _ "m # ks"] exI [of _ rest]) simp
  next
    case False
    then have "ok = False" "mapped' = mapped" "s' = u" using Cons.prems(1) t u by auto
    then show ?thesis
      using f False host_frame_trans [of s t u] by (intro exI [of _ "[]"] exI [of _ "m # ms"]) simp
  qed
qed

section \<open>The invariant\<close>

definition name_ok :: "string \<Rightarrow> bool" where
  "name_ok nm \<longleftrightarrow> CopyVirtualRangeName (Some nm) = nm"

lemma name_ok_copy [simp]: "name_ok (CopyVirtualRangeName nm)"
proof -
  have again: "takeWhile P (take k (takeWhile P xs)) = take k (takeWhile P xs)"
    for P k and xs :: string
    by (rule takeWhile_eq_all_conv [THEN iffD2]) (auto dest: in_set_takeD set_takeWhileD)
  show ?thesis
    by (cases nm) (simp_all add: again name_ok_def CopyVirtualRangeName_def cstr_copy_def)
qed

definition reserved_attr :: "string \<Rightarrow> bool \<Rightarrow> vrange" where
  "reserved_attr nm placeholder =
     \<lparr>r_start = 0, r_size = 0, r_offset = 0, r_protection = 0, r_memory_type = 0,
      r_type = PoolReserved, r_committed_from_reserved = False,
      r_placeholder_backed = placeholder, r_name = nm\<rparr>"

definition range_ok :: "vrange \<Rightarrow> bool" where
  "range_ok v \<longleftrightarrow>
     (r_type v = PoolReserved \<longrightarrow>
        name_ok (r_name v) \<and> v = reserved_attr (r_name v) (r_placeholder_backed v))
     \<and> (r_type v = Pooled \<longrightarrow> name_ok (r_name v) \<and> DecodeMemoryProtection (r_protection v) \<noteq> None)"

text \<open>What the host must show at an address: the pool's byte, with the range's protection.\<close>

definition pool_view :: "vrange list \<Rightarrow> pool_mapping list \<Rightarrow> nat \<Rightarrow> (nat \<times> vm_mode) option" where
  "pool_view rs ms a = (case (view rs a, mview ms a) of
       (Some v, Some x) \<Rightarrow> map_option (\<lambda>d. (x, fst d)) (DecodeMemoryProtection (r_protection v))
     | _ \<Rightarrow> None)"

text \<open>The expansions are the blocks of direct memory that are flagged as such.\<close>

definition expansions_ok :: "physical_memory \<Rightarrow> pooled_memory \<Rightarrow> bool" where
  "expansions_ok pm p \<longleftrightarrow> distinct (pool_expansions p)
     \<and> set (pool_expansions p)
        = {(fst e, a_size (snd e)) |e. e \<in> set (pm_physical pm) \<and> a_pool_expansion (snd e)}
     \<and> pool_owned p = (\<Union>r\<in>set (pool_expansions p). {fst r ..< fst r + snd r})"

definition pooled_typed :: "vrange list \<Rightarrow> nat \<Rightarrow> bool" where
  "pooled_typed rs a \<longleftrightarrow> (\<exists>v. view rs a = Some v \<and> r_type v = Pooled)"

text \<open>No range reaches the last address but one.\<close>

definition pool_sys_inv :: "'g pool_system \<Rightarrow> bool" where
  "pool_sys_inv s \<longleftrightarrow> pm_inv (ps_phys s) \<and> pool_inv (ps_pool s) \<and> vr_wf (ps_ranges s)
     \<and> (\<forall>a. mview (pool_mappings (ps_pool s)) a \<noteq> None \<longleftrightarrow> pooled_typed (ps_ranges s) a)
     \<and> (\<forall>a v. view (ps_ranges s) a = Some v \<longrightarrow> range_ok v)
     \<and> view (ps_ranges s) (U64 - 2) = None
     \<and> ps_views s = pool_view (ps_ranges s) (pool_mappings (ps_pool s))
     \<and> ps_committed s = msum (pool_mappings (ps_pool s))
     \<and> expansions_ok (ps_phys s) (ps_pool s)"

lemma pool_sys_start: "pool_sys_inv (pool_system_start answers addresses g)"
  using pm_inv_init pool_inv_init
  by (auto simp: pool_sys_inv_def pool_system_start_def pool_view_def pooled_typed_def
      expansions_ok_def pool_owned_def Pool_init_def PM_init_def)

lemma pool_sys_invD:
  assumes "pool_sys_inv s"
  shows "pm_inv (ps_phys s)" "pool_inv (ps_pool s)" "vr_wf (ps_ranges s)"
    "mview (pool_mappings (ps_pool s)) a \<noteq> None \<longleftrightarrow> pooled_typed (ps_ranges s) a"
    "view (ps_ranges s) a = Some v \<Longrightarrow> range_ok v"
    "ps_views s = pool_view (ps_ranges s) (pool_mappings (ps_pool s))"
    "ps_committed s = msum (pool_mappings (ps_pool s))"
    "expansions_ok (ps_phys s) (ps_pool s)"
    "view (ps_ranges s) (U64 - 2) = None"
  using assms unfolding pool_sys_inv_def by blast+

lemma pool_sys_inv_update:
  assumes "pool_sys_inv s" and "pm_inv pm" and "pool_inv p" and "expansions_ok pm p"
    and "pool_mappings p = pool_mappings (ps_pool s)"
  shows "pool_sys_inv (s\<lparr>ps_phys := pm, ps_pool := p\<rparr>)"
  using assms by (simp add: pool_sys_inv_def)

section \<open>Expansion and release of an expansion\<close>

lemma expansion_block:
  assumes "pm_inv pm" and "expansions_ok pm p" and "(a, n) \<in> set (pool_expansions p)"
  obtains b where "(a, b) \<in> set (pm_physical pm)" and "a_pool_expansion b" and "a_size b = n"
    and "a_start b = a" and "0 < n" and "a + n \<le> PhysicalSize"
proof -
  obtain b where b: "(a, b) \<in> set (pm_physical pm)" "a_pool_expansion b" "a_size b = n"
    using assms(2,3) unfolding expansions_ok_def by auto
  moreover have "a_start b = a \<and> 0 < n \<and> a + n \<le> PhysicalSize"
    using pm_invD(2) [OF assms(1)] b unfolding blocks_wf_def chained_def by fastforce
  ultimately show thesis using that by blast
qed

lemma owned_allocated:
  assumes "pm_inv pm" and "expansions_ok pm p"
  shows "pool_owned p \<subseteq> allocated pm"
proof
  fix x assume "x \<in> pool_owned p"
  then obtain a n where an: "(a, n) \<in> set (pool_expansions p)" "a \<le> x" "x < a + n"
    using assms(2) unfolding expansions_ok_def by auto
  obtain b where b: "(a, b) \<in> set (pm_physical pm)" "a_start b = a" "a_size b = n"
    using expansion_block [OF assms an(1)] by metis
  then have "x \<in> span (bb (a, b))" using an by (simp add: bb_def)
  then show "x \<in> allocated pm" using b(1) unfolding allocated_def spans_def by auto
qed

lemma PM_Alloc_block:
  "PM_Alloc ss se len al t pool pm = Inr (Some p, pm') \<Longrightarrow>
     pm_physical pm' = om_emplace (p, new_block p len t pool) (pm_physical pm)
     \<and> p \<notin> fst ` set (pm_physical pm)"
  by (simp add: PM_Alloc_def Let_def split: if_splits option.splits prod.splits) force+

lemma image_insert_filter:
  "P x \<Longrightarrow> {f e |e. e \<in> insert x S \<and> P e} = insert (f x) {f e |e. e \<in> S \<and> P e}"
  by blast

lemma Expand_keeps:
  assumes "pool_sys_inv s"
  shows "\<exists>r out s'. KernelMemoryPoolExpand search_start search_end len al ptr s = Inr (r, out, s')
    \<and> pool_sys_inv s' \<and> (r = OK \<longrightarrow> (\<exists>p. out = Some p \<and> {p ..< p + len} \<subseteq> free_memory (ps_phys s)
        \<and> ps_phys s' \<noteq> ps_phys s
        \<and> fl_cover (pool_free (ps_pool s')) = fl_cover (pool_free (ps_pool s)) \<union> {p ..< p + len}))
    \<and> (r \<noteq> OK \<longrightarrow> out = None \<and> s' = s)"
proof -
  note inv = pool_sys_invD [OF assms]
  let ?bad = "search_start < 0 \<or> search_end \<le> search_start \<or> len = 0
         \<or> len AND (POOL_PAGE_SIZE - 1) \<noteq> 0 \<or> \<not> ptr
         \<or> al \<noteq> 0 \<and> (\<not> IsPowerOfTwo al \<or> al AND (POOL_PAGE_SIZE - 1) \<noteq> 0)"
  have err: "KERNEL_ERROR_EINVAL \<noteq> OK" "KERNEL_ERROR_ENOMEM \<noteq> OK" by (simp_all add: errno_defs)
  consider (bad) ?bad | (small) "\<not> ?bad" "nat (search_end - search_start) < len"
    | (go) "\<not> ?bad" "\<not> nat (search_end - search_start) < len" by blast
  then show ?thesis
  proof cases
    case bad
    then have "KernelMemoryPoolExpand search_start search_end len al ptr s
        = Inr (KERNEL_ERROR_EINVAL, None, s)"
      unfolding KernelMemoryPoolExpand_def by (rule if_P)
    then show ?thesis using err assms by auto
  next
    case small
    then have "KernelMemoryPoolExpand search_start search_end len al ptr s
        = Inr (KERNEL_ERROR_ENOMEM, None, s)"
      unfolding KernelMemoryPoolExpand_def by (simp only: if_False if_True simp_thms)
    then show ?thesis using err assms by auto
  next
    case go
    let ?al = "if al \<noteq> 0 then al else POOL_PAGE_SIZE"
    have len: "0 < len" using go(1) by simp
    have eq: "KernelMemoryPoolExpand search_start search_end len al ptr s
        = bindR (PM_Alloc (nat search_start) (nat search_end) len ?al 0 True (ps_phys s))
            (\<lambda>(phys_addr, pm). case phys_addr of
                 None \<Rightarrow> Inr (KERNEL_ERROR_ENOMEM, None, s\<lparr>ps_phys := pm\<rparr>)
               | Some p \<Rightarrow> Inr (OK, Some p,
                   s\<lparr>ps_phys := pm, ps_pool := Pool_Expand p len (ps_pool s)\<rparr>))"
      using go unfolding KernelMemoryPoolExpand_def Let_def by (simp only: if_False simp_thms)
    show ?thesis
    proof (rule PM_Alloc_spec [OF inv(1) len])
      assume "PM_Alloc (nat search_start) (nat search_end) len ?al 0 True (ps_phys s)
        = Inr (None, ps_phys s)"
      then have "KernelMemoryPoolExpand search_start search_end len al ptr s
          = Inr (KERNEL_ERROR_ENOMEM, None, s)" using eq by simp
      then show ?thesis using err assms by auto
    next
      fix p pm'
      assume al: "PM_Alloc (nat search_start) (nat search_end) len ?al 0 True (ps_phys s)
          = Inr (Some p, pm')"
        and fit: "fits (nat search_start) (min (nat search_end) PhysicalSize) len ?al
          (free_memory (ps_phys s)) p"
        and pm': "pm_inv pm'" "free_memory pm' = free_memory (ps_phys s) - {p ..< p + len}"
      let ?p = "Pool_Expand p len (ps_pool s)"
      let ?s = "s\<lparr>ps_phys := pm', ps_pool := ?p\<rparr>"
      have res: "KernelMemoryPoolExpand search_start search_end len al ptr s = Inr (OK, Some p, ?s)"
        using eq al by simp
      have sub: "{p ..< p + len} \<subseteq> free_memory (ps_phys s)" and top: "p + len \<le> PhysicalSize"
        using fit by (auto simp: fits_def)
      have apart: "{p ..< p + len} \<inter> pool_owned (ps_pool s) = {}"
        using sub owned_allocated [OF inv(1,8)] pm_invD(3) [OF inv(1)] by blast
      have in64: "p + len < U64" using top PhysicalSize_in64 by simp
      note ex = Pool_Expand_spec [OF inv(2) len in64 apart]
      note blk = PM_Alloc_block [OF al]
      have maps: "pool_mappings ?p = pool_mappings (ps_pool s)"
        "pool_expansions ?p = pool_expansions (ps_pool s) @ [(p, len)]"
        by (simp_all add: Pool_Expand_def)
      have new: "(p, len) \<notin> set (pool_expansions (ps_pool s))"
        using expansion_block [OF inv(1,8)] blk by (metis fst_conv image_eqI)
      have set': "set (pm_physical pm')
          = insert (p, new_block p len 0 True) (set (pm_physical (ps_phys s)))"
        using blk set_om_emplace [of "(p, new_block p len 0 True)"] by simp
      have nb: "a_size (new_block p len 0 True) = len" "a_pool_expansion (new_block p len 0 True)"
        by (simp_all add: new_block_def)
      have "{(fst e, a_size (snd e)) |e. e \<in> set (pm_physical pm') \<and> a_pool_expansion (snd e)}
          = insert (p, len) {(fst e, a_size (snd e)) |e.
              e \<in> set (pm_physical (ps_phys s)) \<and> a_pool_expansion (snd e)}"
        unfolding set' using image_insert_filter [of "\<lambda>e. a_pool_expansion (snd e)"
          "(p, new_block p len 0 True)" "\<lambda>e. (fst e, a_size (snd e))"] nb by simp
      then have "expansions_ok pm' ?p"
        using inv(8) new ex(2) unfolding expansions_ok_def maps by (simp add: Un_commute)
      moreover have "p \<in> free_memory (ps_phys s)" "p \<notin> free_memory pm'"
        using sub len pm'(2) by auto
      then have "ps_phys s \<noteq> pm'" by auto
      ultimately have "pool_sys_inv ?s \<and> ps_phys ?s \<noteq> ps_phys s"
        using pool_sys_inv_update [OF assms pm'(1) ex(1) _ maps(1)] by (intro conjI) simp_all
      then show ?thesis using res sub ex(3) by simp
    qed
  qed
qed

lemma chained_apart:
  "chained rs \<Longrightarrow> r \<in> set rs \<Longrightarrow> q \<in> set rs \<Longrightarrow> r \<noteq> q \<Longrightarrow> span r \<inter> span q = {}"
proof (induction rs)
  case (Cons x rs)
  have "span x \<inter> span y = {}" if "y \<in> set rs" for y
    using Cons.prems(1) that by (fastforce simp: chained_Cons span_def)
  then show ?case using Cons unfolding chained_Cons set_simps by blast
qed simp

lemma expansions_apart:
  assumes "pm_inv pm" and "expansions_ok pm p"
    and "r \<in> set (pool_expansions p)" and "q \<in> set (pool_expansions p)" and "r \<noteq> q"
  shows "{fst r ..< fst r + snd r} \<inter> {fst q ..< fst q + snd q} = {}"
proof -
  obtain b where b: "(fst r, b) \<in> set (pm_physical pm)" "a_start b = fst r" "a_size b = snd r"
    using expansion_block [OF assms(1,2), of "fst r" "snd r"] assms(3) by auto
  obtain c where c: "(fst q, c) \<in> set (pm_physical pm)" "a_start c = fst q" "a_size c = snd q"
    using expansion_block [OF assms(1,2), of "fst q" "snd q"] assms(4) by auto
  have "bb (fst r, b) \<noteq> bb (fst q, c)"
    using b c assms(5) by (auto simp: bb_def prod_eq_iff)
  moreover have "chained (map bb (pm_physical pm))"
    using pm_invD(2) [OF assms(1)] by (simp add: blocks_wf_def)
  ultimately have "span (bb (fst r, b)) \<inter> span (bb (fst q, c)) = {}"
    using chained_apart b(1) c(1) by (metis imageI set_map)
  then show ?thesis using b c by (simp add: bb_def)
qed

lemma Release_keeps:
  assumes "pool_sys_inv s"
  shows "\<exists>r s'. KernelReleaseDirectMemory_pool start len s = Inr (r, s') \<and> pool_sys_inv s'
    \<and> (r = Some OK \<longleftrightarrow> 0 \<le> start \<and> (nat start, len) \<in> set (pool_expansions (ps_pool s))
         \<and> {nat start ..< nat start + len} \<inter> mphys (pool_mappings (ps_pool s)) = {})
    \<and> (if r = Some OK
       then free_memory (ps_phys s') = free_memory (ps_phys s) \<union> {nat start ..< nat start + len}
         \<and> pool_owned (ps_pool s') = pool_owned (ps_pool s) - {nat start ..< nat start + len}
       else s' = s)"
proof -
  note inv = pool_sys_invD [OF assms]
  let ?a = "nat start" and ?p = "ps_pool s"
  let ?run = "KernelReleaseDirectMemory_pool start len s"
  have err: "KERNEL_ERROR_EINVAL \<noteq> OK" by (simp add: errno_defs)
  show ?thesis
  proof (cases "0 \<le> start \<and> (?a, len) \<in> set (pool_expansions ?p)")
    case False
    then have "?run = Inr (Some KERNEL_ERROR_EINVAL, s) \<or> ?run = Inr (None, s)"
      by (auto simp: KernelReleaseDirectMemory_pool_def Pool_ReleaseExpansion_def)
    then show ?thesis using False err assms by auto
  next
    case True
    obtain b where b: "(?a, b) \<in> set (pm_physical (ps_phys s))" "a_pool_expansion b"
      "a_size b = len" "0 < len" "?a + len \<le> PhysicalSize"
      using expansion_block [OF inv(1,8)] True by metis
    have in64: "?a + len < U64" using b(5) PhysicalSize_in64 by simp
    have "{?a ..< ?a + len} \<subseteq> pool_owned ?p"
      using True inv(8) unfolding expansions_ok_def by fastforce
    note own = this
    obtain ok p' where rel: "Pool_ReleaseExpansion ?a len ?p = (ok, p')" by fastforce
    note spec = Pool_ReleaseExpansion_spec [OF inv(2) b(4) in64 own rel]
    show ?thesis
    proof (cases ok)
      case False
      then have "?run = Inr (None, s)"
        using True b(4) rel by (simp add: KernelReleaseDirectMemory_pool_def)
      then show ?thesis using False spec True assms by auto
    next
      case ok: True
      have "distinct (map fst (pm_physical (ps_phys s)))"
        using blocks_keys_sorted [OF pm_invD(2) [OF inv(1)]]
        by (metis sorted_wrt_map strict_sorted_iff)
      then have "map_of (pm_physical (ps_phys s)) ?a = Some b" using b(1) by simp
      then obtain pm' where rp: "PM_ReleasePoolExpansion ?a len (ps_phys s) = (True, pm')"
        and ph: "pm_physical pm' = filter (\<lambda>e. fst e \<noteq> ?a) (pm_physical (ps_phys s))"
        using b(2,3) by (simp add: PM_ReleasePoolExpansion_def)
      note pspec = PM_ReleasePoolExpansion_spec [OF inv(1) rp]
      let ?s = "s\<lparr>ps_pool := p', ps_phys := pm'\<rparr>"
      have res: "?run = Inr (Some OK, ?s)"
        using True b(4) rel ok rp by (simp add: KernelReleaseDirectMemory_pool_def)
      have p': "pool_inv p'" "pool_owned p' = pool_owned ?p - {?a ..< ?a + len}"
        "pool_mappings p' = pool_mappings ?p"
        "pool_expansions p' = remove1 (?a, len) (pool_expansions ?p)"
        using spec ok by simp_all
      have ex: "distinct (pool_expansions ?p)"
        "pool_owned ?p = (\<Union>r\<in>set (pool_expansions ?p). {fst r ..< fst r + snd r})"
        "set (pool_expansions ?p) = {(fst e, a_size (snd e)) |e. e \<in> set (pm_physical (ps_phys s))
            \<and> a_pool_expansion (snd e)}"
        using inv(8) unfolding expansions_ok_def by blast+
      have set': "set (pool_expansions p') = set (pool_expansions ?p) - {(?a, len)}"
        unfolding p'(4) using ex(1) by simp
      have apart: "{fst r ..< fst r + snd r} \<inter> {?a ..< ?a + len} = {}"
        if "r \<in> set (pool_expansions p')" for r
        using expansions_apart [OF inv(1,8), of r "(?a, len)"] True that unfolding set' by simp
      have "pool_owned p' = (\<Union>r\<in>set (pool_expansions p'). {fst r ..< fst r + snd r})"
      proof -
        have "pool_owned ?p = (\<Union>r\<in>set (pool_expansions p'). {fst r ..< fst r + snd r})
            \<union> {?a ..< ?a + len}"
          unfolding ex(2) set' using True by auto
        moreover have "(\<Union>r\<in>set (pool_expansions p'). {fst r ..< fst r + snd r})
            \<inter> {?a ..< ?a + len} = {}" using apart by blast
        ultimately show ?thesis unfolding p'(2) by blast
      qed
      moreover have "set (pool_expansions p')
          = {(fst e, a_size (snd e)) |e. e \<in> set (pm_physical pm') \<and> a_pool_expansion (snd e)}"
      proof -
        have "fst r \<noteq> ?a" if "r \<in> set (pool_expansions p')" for r
        proof
          assume "fst r = ?a"
          moreover have "r \<in> set (pool_expansions ?p)" using that set' by simp
          then have "0 < snd r" using expansion_block [OF inv(1,8), of "fst r" "snd r"] by auto
          ultimately have "?a \<in> {fst r ..< fst r + snd r} \<inter> {?a ..< ?a + len}" using b(4) by simp
          then show False using apart [OF that] by blast
        qed
        then have "set (pool_expansions p') = {r \<in> set (pool_expansions ?p). fst r \<noteq> ?a}"
          using set' by auto
        then show ?thesis unfolding ex(3) ph by auto
      qed
      moreover have "distinct (pool_expansions p')" unfolding p'(4) using ex(1) by simp
      ultimately have "expansions_ok pm' p'" unfolding expansions_ok_def by blast
      then have "pool_sys_inv ?s"
        using pool_sys_inv_update [OF assms conjunct1 [OF pspec] p'(1) _ p'(3)]
        by (cases s) simp
      then show ?thesis using res pspec p' spec ok True by simp
    qed
  qed
qed

end
