(* ===== verification/MemoryPoolCommit.thy ===== *)
theory MemoryPoolCommit
  imports MemoryPoolInvariant
begin

text \<open>
  What \<open>KernelMemoryPoolReserve\<close>, \<open>KernelMemoryPoolCommit\<close> and \<open>KernelMemoryPoolDecommit\<close>
  do to a system that satisfies the invariant, on every path that returns.
\<close>

section \<open>The reserved span\<close>

lemma reserved_added [simp]:
  "name_ok nm \<Longrightarrow> added_attr v 0 0 0 PoolReserved (Some nm) False placeholder a
     = reserved_attr nm placeholder"
  by (simp add: added_attr_def reserved_attr_def name_ok_def)

lemma consume_reserved_span:
  assumes "pool_sys_inv s" and "VR_Query addr 0 (ps_ranges s) = Some old"
    and "r_type old = PoolReserved" and "0 < len"
    and "VR_ConsumeReserved addr len PoolReserved (ps_ranges s) = (True, rs)"
  shows "addr + len < U64 - 1" and "vr_wf rs"
    and "view rs = erase_map addr len (view (ps_ranges s))" and "name_ok (r_name old)"
    and "\<forall>a\<in>{addr ..< addr + len}. view (ps_ranges s) a
      = Some (reserved_attr (r_name old) (r_placeholder_backed old))"
proof -
  note inv = pool_sys_invD [OF assms(1)]
  let ?R = "ps_ranges s"
  have old: "old \<in> set ?R" "addr \<in> vr_dom old" using assms(2) VR_Query_Some [OF inv(3)] by auto
  obtain r where r: "r \<in> set ?R" "r_start r \<le> addr" "range_End addr len \<le> r_end r"
    using assms(5) by (auto simp: VR_ConsumeReserved_def split: if_splits)
  have ok: "vr_ok r" using r(1) inv(3) by (simp add: vr_wf_def)
  have big: "3 < U64" by (simp add: U64_def)
  have "U64 - 2 \<notin> vr_dom r" using inv(9) r(1) by (auto simp: view_None)
  then have top: "r_start r + r_size r < U64 - 1"
    using ok big by (auto simp: vr_dom_def vr_ok_def)
  have "range_End addr len \<le> r_start r + r_size r" using r(3) vr_ok_end [OF ok] by simp
  then have fits: "addr + len \<le> r_start r + r_size r"
    using top by (auto simp: range_End_def split: if_splits)
  then have "addr \<in> vr_dom r" using r(2) assms(4) by (simp add: vr_dom_def)
  then have r_old: "r = old" using VR_Query_mapped [OF inv(3) r(1)] assms(2) by simp
  show in64: "addr + len < U64 - 1" using fits top by simp
  have "addr + len < U64" using in64 by simp
  note spec = VR_ConsumeReserved_spec [OF inv(3) this assms(4,5)]
  show "vr_wf rs" "view rs = erase_map addr len (view ?R)" using spec by simp_all
  have at: "view ?R a = Some (attr_at old a)" if "a \<in> {addr ..< addr + len}" for a
    using that fits r(2) by (intro view_member [OF inv(3) old(1)]) (auto simp: r_old vr_dom_def)
  have attr: "r_name (attr_at old a) = r_name old" "r_type (attr_at old a) = PoolReserved"
    "r_placeholder_backed (attr_at old a) = r_placeholder_backed old" for a
    using assms(3) by (simp_all add: attr_at_def)
  have "range_ok (attr_at old addr)" using inv(5) at [of addr] assms(4) by simp
  then show "name_ok (r_name old)" using attr by (simp add: range_ok_def)
  show "\<forall>a\<in>{addr ..< addr + len}. view ?R a
      = Some (reserved_attr (r_name old) (r_placeholder_backed old))"
  proof
    fix a assume a: "a \<in> {addr ..< addr + len}"
    have "range_ok (attr_at old a)" using inv(5) at [OF a] by simp
    then have "attr_at old a = reserved_attr (r_name old) (r_placeholder_backed old)"
      unfolding range_ok_def attr by blast
    then show "view ?R a = Some (reserved_attr (r_name old) (r_placeholder_backed old))"
      using at [OF a] by simp
  qed
qed

text \<open>Adding the reservation again restores the view.\<close>

lemma readd_restores:
  assumes "vr_wf rs" and "view rs = erase_map addr len V" and "addr + len < U64" and "0 < addr"
    and "0 < len" and "name_ok nm"
    and "VR_Add addr len 0 0 0 PoolReserved (Some nm) False placeholder rs = (ok, rs')"
  shows "vr_wf rs'" and "ok"
    and "view rs' = put_map addr len (\<lambda>_. reserved_attr nm placeholder) V"
proof -
  note spec = VR_Add_spec [OF assms(1,3,7)]
  have free: "free_span addr len (view rs)" unfolding assms(2) by (rule free_erased)
  show "vr_wf rs'" "ok" using spec free assms(4,5) by auto
  have "view rs' = put_map addr len (added_attr addr 0 0 0 PoolReserved (Some nm) False placeholder)
      (erase_map addr len V)"
    using spec \<open>ok\<close> assms(2) by simp
  then show "view rs' = put_map addr len (\<lambda>_. reserved_attr nm placeholder) V"
    using assms(6) by (auto simp: put_map_def erase_map_def fun_eq_iff)
qed

lemma put_same:
  "\<forall>a\<in>{addr ..< addr + len}. V a = Some v \<Longrightarrow> put_map addr len (\<lambda>_. v) V = V"
  by (auto simp: put_map_def fun_eq_iff)

section \<open>\<open>Commit\<close>\<close>

lemma commit_rollback_spec:
  assumes "commit_rollback addr len mode old mapped s = Inr s'"
    and "ms_wf mapped" and "ps_views s = show_all mode mapped V"
    and "\<forall>a. mview mapped a \<noteq> None \<longrightarrow> V a = None"
    and "\<And>r p'. Pool_Release addr len (ps_pool s) = (r, p') \<Longrightarrow> r \<noteq> None \<and> p' = p"
  shows "\<exists>h. s' = s\<lparr>ps_pool := p, ps_views := V, ps_host := h,
     ps_ranges := snd (VR_Add addr len 0 0 0 PoolReserved (Some (r_name old)) False
        (r_placeholder_backed old) (ps_ranges s))\<rparr>"
proof -
  obtain t where t: "UnmapPooledBackingTransactional mapped mode s = Inr (True, t)"
    and rest: "(case Pool_Release addr len (ps_pool t) of
           (None, p) \<Rightarrow> Inl (Exit ''failed to release pooled-memory rollback allocation'')
         | (Some g, p) \<Rightarrow> Inr (readd_reserved addr len (r_name old)
              (r_placeholder_backed old) (t\<lparr>ps_pool := p\<rparr>))) = Inr s'"
    using assms(1) unfolding commit_rollback_def bindR_eq_Inr by (auto split: if_splits)
  have frame: "host_frame s t" and views: "ps_views t = V"
    using UnmapPooled_spec [OF t assms(2)] assms(3) hide_show [OF assms(4)] by auto
  obtain r p' where rel: "Pool_Release addr len (ps_pool t) = (r, p')" by fastforce
  moreover have "r \<noteq> None \<and> p' = p" using assms(5) rel host_frameD(2) [OF frame] by simp
  ultimately have "s' = readd_reserved addr len (r_name old) (r_placeholder_backed old)
      (t\<lparr>ps_pool := p\<rparr>)"
    using rest by (auto split: option.splits)
  moreover have "t = s\<lparr>ps_views := V, ps_host := ps_host t\<rparr>"
    using frame views unfolding host_frame_def by simp
  ultimately show ?thesis
    by (intro exI [of _ "ps_host t"]) (cases s, cases t, simp add: readd_reserved_def)
qed

text \<open>An error return leaves everything as it was, up to the host's remaining answers.\<close>

definition unchanged :: "'g pool_system \<Rightarrow> 'g pool_system \<Rightarrow> bool" where
  "unchanged s s' \<longleftrightarrow> (\<exists>rs h. s' = s\<lparr>ps_ranges := rs, ps_host := h\<rparr> \<and> vr_wf rs
     \<and> view rs = view (ps_ranges s))"

text \<open>What a successful commit has done.\<close>

definition committed_by :: "'g gpu_ops \<Rightarrow> nat \<Rightarrow> nat \<Rightarrow> int \<Rightarrow> prot \<Rightarrow> 'g pool_system \<Rightarrow>
    'g pool_system \<Rightarrow> bool" where
  "committed_by ops addr len type prot s s' \<longleftrightarrow>
     0 < addr \<and> 0 < len \<and> addr + len < U64 - 1 \<and>
     (\<exists>mode gpu ms nm placeholder.
        DecodeMemoryProtection prot = Some (mode, gpu) \<and> name_ok nm
        \<and> (\<forall>a\<in>{addr ..< addr + len}. view (ps_ranges s) a = Some (reserved_attr nm placeholder))
        \<and> Pool_Allocate addr len gpu (ps_pool s) = (Some ms, ps_pool s')
        \<and> vr_wf (ps_ranges s')
        \<and> view (ps_ranges s') = put_map addr len
            (added_attr addr 0 prot type Pooled (Some nm) True placeholder) (view (ps_ranges s))
        \<and> ps_views s' = show_all mode ms (ps_views s)
        \<and> ps_committed s' = add64 (ps_committed s) len
        \<and> ps_calls s' = ps_calls s @ [AllocCallback addr len]
        \<and> ps_phys s' = ps_phys s
        \<and> (if gpu = GpuNoAccess then ps_gpu s' = ps_gpu s
           else map_memory ops addr len (gpu_access_of gpu) (ps_gpu s) = Inr (ps_gpu s')))
     \<and> IsAligned len POOL_COMMIT_ALIGNMENT
     \<and> (\<exists>q\<in>set (ps_ranges s'). r_start q \<le> addr \<and> addr + len \<le> r_start q + r_size q)"

lemma MapGpuRange_spec:
  assumes "MapGpuRange ops addr len gpu s = Inr s'"
  shows "\<exists>g. s' = s\<lparr>ps_gpu := g\<rparr> \<and> (if gpu = GpuNoAccess then g = ps_gpu s
           else map_memory ops addr len (gpu_access_of gpu) (ps_gpu s) = Inr g)"
proof (cases "gpu = GpuNoAccess")
  case True
  then show ?thesis using assms by (intro exI [of _ "ps_gpu s"]) (cases s, simp add: MapGpuRange_def)
next
  case False
  then show ?thesis using assms by (auto simp: MapGpuRange_def bindR_eq_Inr split: if_splits)
qed

lemma Commit_spec:
  assumes inv: "pool_sys_inv s"
    and run: "KernelMemoryPoolCommit ops addr len type prot s = Inr (r, s')"
  shows "if r = OK then committed_by ops addr len type prot s s' else unchanged s s'"
proof -
  note I = pool_sys_invD [OF inv]
  have err: "KERNEL_ERROR_EINVAL \<noteq> OK" "KERNEL_ERROR_ENOMEM \<noteq> OK" "KERNEL_ERROR_EACCES \<noteq> OK"
    "KERNEL_ERROR_EBUSY \<noteq> OK" by (simp_all add: errno_defs)
  have same: "unchanged s s"
    unfolding unchanged_def using I(3)
    by (intro exI [of _ "ps_ranges s"] exI [of _ "ps_host s"]) simp
  show ?thesis
  proof (cases "addr = 0 \<or> len = 0 \<or> \<not> IsAligned len POOL_COMMIT_ALIGNMENT
      \<or> prot AND PROT_CPU_EXEC \<noteq> 0 \<or> DecodeMemoryProtection prot = None
      \<or> VR_Query addr 0 (ps_ranges s) = None")
    case True
    then have "r \<noteq> OK \<and> s' = s"
      using run err unfolding KernelMemoryPoolCommit_def
      by (auto split: if_splits option.splits)
    then show ?thesis using same by simp
  next
    case False
    then obtain mode gpu old where args: "addr \<noteq> 0" "0 < len" "IsAligned len POOL_COMMIT_ALIGNMENT"
      "prot AND PROT_CPU_EXEC = 0" and dec: "DecodeMemoryProtection prot = Some (mode, gpu)"
      and q: "VR_Query addr 0 (ps_ranges s) = Some old" by auto
    obtain ok rs where con: "VR_ConsumeReserved addr len PoolReserved (ps_ranges s) = (ok, rs)"
      by fastforce
    show ?thesis
    proof (cases "r_type old = PoolReserved \<and> ok")
      case False
      have "rs = ps_ranges s" if "\<not> ok"
        using con that by (auto simp: VR_ConsumeReserved_def split: if_splits)
      then have "r \<noteq> OK \<and> s' = s"
        using run err args dec q con False unfolding KernelMemoryPoolCommit_def
        by (cases ok) (auto split: if_splits)
      then show ?thesis using same by simp
    next
      case True
      then have type: "r_type old = PoolReserved" and con: "VR_ConsumeReserved addr len PoolReserved
          (ps_ranges s) = (True, rs)" using con by simp_all
      note span = consume_reserved_span [OF inv q type args(2) con]
      have in64: "addr + len < U64" using span(1) by simp
      have free: "\<forall>a\<in>{addr ..< addr + len}. mview (pool_mappings (ps_pool s)) a = None"
      proof
        fix a assume "a \<in> {addr ..< addr + len}"
        then have "\<not> pooled_typed (ps_ranges s) a"
          using span(5) by (simp add: pooled_typed_def reserved_attr_def)
        then show "mview (pool_mappings (ps_pool s)) a = None" using I(4) by blast
      qed
      have dark: "ps_views s a = None" if "mview (pool_mappings (ps_pool s)) a = None" for a
        using that unfolding I(6) by (simp add: pool_view_def split: option.splits)
      obtain m p where alloc: "Pool_Allocate addr len gpu (ps_pool s) = (m, p)" by fastforce
      have pos: "0 < addr" using args(1) by simp
      note al = Pool_Allocate_spec [OF I(2) pos args(2) in64 free alloc]
      let ?add = "VR_Add addr len 0 0 0 PoolReserved (Some (r_name old)) False
        (r_placeholder_backed old) rs"
      obtain added rs0 where add: "?add = (added, rs0)" by fastforce
      note again = readd_restores [OF span(2,3) in64 pos args(2) span(4) add]
      have same_view: "vr_wf rs0 \<and> view rs0 = view (ps_ranges s)"
        using again put_same [OF span(5)] by simp
      show ?thesis
      proof (cases m)
        case None
        then have "p = ps_pool s" using al by simp
        then have "r = KERNEL_ERROR_ENOMEM \<and> s' = s\<lparr>ps_ranges := rs0\<rparr>"
          using run args dec q type con alloc None add
          unfolding KernelMemoryPoolCommit_def Let_def readd_reserved_def
          by (cases s) auto
        then show ?thesis
          using err same_view unfolding unchanged_def
          by (auto intro!: exI [of _ rs0] exI [of _ "ps_host s"])
      next
        case (Some ms)
        then have ms: "ms_wf ms" "tiles addr ms" "msum ms = len"
          "pool_mappings p = pool_mappings (ps_pool s) @ ms" using al by simp_all
        let ?s1 = "s\<lparr>ps_ranges := rs, ps_pool := p\<rparr>"
        obtain mok mapped t where mp: "map_pooled mode ms [] ?s1 = (mok, mapped, t)"
          by (metis prod_cases3)
        obtain ks rest where ks: "mapped = ks" "ms = ks @ rest" "mok \<longrightarrow> rest = []"
          "host_frame ?s1 t" "ps_views t = show_all mode ks (ps_views s)"
          using map_pooled_spec [OF mp ms(1)] by auto
        have ks_wf: "ms_wf mapped" using ms(1) ks(1,2) by simp
        have "mview ms a = None \<or> (addr \<le> a \<and> a < addr + len)" for a
          using tiles_wf [OF ms(2)] ms(1,3) by (auto simp: ms_wf_def)
        then have "ps_views s a = None" if "mview ms a \<noteq> None" for a
          using dark free that by (meson atLeastLessThan_iff)
        then have ks_dark: "\<forall>a. mview mapped a \<noteq> None \<longrightarrow> ps_views s a = None"
          unfolding ks(1,2) by (auto simp: mview_append split: option.splits)
        note fr = host_frameD [OF ks(4)]
        have undo: "r' \<noteq> None \<and> p' = ps_pool s" if "Pool_Release addr len (ps_pool t) = (r', p')"
          for r' p'
          using Pool_Release_undoes [OF I(2) pos args(2) in64 free] alloc Some that fr(2) by simp
        have t: "t = ?s1\<lparr>ps_views := ps_views t, ps_host := ps_host t\<rparr>"
          using ks(4) unfolding host_frame_def .
        show ?thesis
        proof (cases mok)
          case False
          then obtain u where u: "commit_rollback addr len mode old mapped t = Inr u"
            and res: "r = KERNEL_ERROR_ENOMEM" "s' = u"
            using run args dec q type con alloc Some mp
            unfolding KernelMemoryPoolCommit_def Let_def
            by (auto simp: bindR_eq_Inr)
          have vt: "ps_views t = show_all mode mapped (ps_views s)" using ks by simp
          obtain h where "u = t\<lparr>ps_pool := ps_pool s, ps_views := ps_views s, ps_host := h,
              ps_ranges := snd (VR_Add addr len 0 0 0 PoolReserved (Some (r_name old)) False
                (r_placeholder_backed old) (ps_ranges t))\<rparr>"
            using commit_rollback_spec [OF u ks_wf vt ks_dark undo] by blast
          then have "u = s\<lparr>ps_ranges := rs0, ps_host := h\<rparr>"
            using t fr(3) add by (cases s, cases t) simp
          then show ?thesis
            using res err same_view unfolding unchanged_def by auto
        next
          case True
          obtain aok rs1 where add1: "VR_Add addr len 0 prot type Pooled (Some (r_name old)) True
              (r_placeholder_backed old) rs = (aok, rs1)" by fastforce
          note aspec = VR_Add_spec [OF span(2) in64 add1]
          have aok: "aok" and wf1: "vr_wf rs1"
            using aspec pos args(2) free_erased [of addr len "view (ps_ranges s)"] span(3) by auto
          have v1: "view rs1 = put_map addr len (added_attr addr 0 prot type Pooled
              (Some (r_name old)) True (r_placeholder_backed old)) (view (ps_ranges s))"
            using aspec aok span(3) by (auto simp: put_map_def erase_map_def fun_eq_iff)
          obtain u where u: "MapGpuRange ops addr len gpu (t\<lparr>ps_ranges := rs1\<rparr>) = Inr u"
            and res: "r = OK" "s' = u\<lparr>ps_calls := ps_calls u @ [AllocCallback addr len],
                ps_committed := add64 (ps_committed u) len\<rparr>"
            using run args dec q type con alloc Some mp True add1 aok fr(3)
            unfolding KernelMemoryPoolCommit_def Let_def
            by (auto simp: bindR_eq_Inr)
          obtain g where g0: "u = t\<lparr>ps_ranges := rs1\<rparr>\<lparr>ps_gpu := g\<rparr>"
            "if gpu = GpuNoAccess then g = ps_gpu (t\<lparr>ps_ranges := rs1\<rparr>)
             else map_memory ops addr len (gpu_access_of gpu) (ps_gpu (t\<lparr>ps_ranges := rs1\<rparr>)) = Inr g"
            using MapGpuRange_spec [OF u] by (elim exE conjE) (rule that)
          have g: "u = t\<lparr>ps_ranges := rs1, ps_gpu := g\<rparr>"
            "if gpu = GpuNoAccess then g = ps_gpu t
             else map_memory ops addr len (gpu_access_of gpu) (ps_gpu t) = Inr g"
            using g0 by (auto split: if_splits)
          have "mapped = ms" using ks True by simp
          then have "ps_views s' = show_all mode ms (ps_views s)" using ks res g by simp
          moreover have "ps_pool s' = p" "ps_ranges s' = rs1" "ps_phys s' = ps_phys s"
            "ps_committed s' = add64 (ps_committed s) len" "ps_gpu s' = g"
            "ps_calls s' = ps_calls s @ [AllocCallback addr len]"
            using res g fr by simp_all
          moreover have "if gpu = GpuNoAccess then ps_gpu s' = ps_gpu s
             else map_memory ops addr len (gpu_access_of gpu) (ps_gpu s) = Inr (ps_gpu s')"
            using g(2) fr(6) \<open>ps_gpu s' = g\<close> by (auto split: if_splits)
          moreover have "\<exists>q\<in>set (ps_ranges s'). r_start q \<le> addr \<and> addr + len \<le> r_start q + r_size q"
            using VR_Add_covers [OF span(2) in64] add1 aok \<open>ps_ranges s' = rs1\<close> by simp
          ultimately have "committed_by ops addr len type prot s s'"
            unfolding committed_by_def
            using pos args(2,3) span dec alloc Some wf1 v1
            by (intro conjI exI [of _ mode] exI [of _ gpu] exI [of _ ms] exI [of _ "r_name old"]
              exI [of _ "r_placeholder_backed old"]) (simp_all split: if_splits)
          then show ?thesis using res by simp
        qed
      qed
    qed
  qed
qed

section \<open>The invariant after \<open>Commit\<close>\<close>

lemma unchanged_refl: "pool_sys_inv s \<Longrightarrow> unchanged s s"
  unfolding unchanged_def
  by (intro exI [of _ "ps_ranges s"] exI [of _ "ps_host s"]) (simp add: pool_sys_inv_def)

lemma unchanged_inv:
  assumes "pool_sys_inv s" and "unchanged s s'"
  shows "pool_sys_inv s'"
proof -
  obtain rs h where s': "s' = s\<lparr>ps_ranges := rs, ps_host := h\<rparr>" "vr_wf rs"
    "view rs = view (ps_ranges s)" using assms(2) by (auto simp: unchanged_def)
  have "pooled_typed rs = pooled_typed (ps_ranges s)" "pool_view rs = pool_view (ps_ranges s)"
    using s'(3) by (simp_all add: pooled_typed_def pool_view_def fun_eq_iff)
  then show ?thesis using assms(1) s' by (simp add: pool_sys_inv_def)
qed

lemma pool_bytes_in64:
  assumes "pm_inv pm" and "pool_inv p" and "expansions_ok pm p"
  shows "msum (pool_mappings p) \<le> PhysicalSize"
proof -
  have "mphys (pool_mappings p) \<subseteq> allocated pm"
    using owned_allocated [OF assms(1,3)] by (auto simp: pool_owned_def)
  then show ?thesis using pool_bytes_bound [OF assms(2)] pm_invD(4) [OF assms(1)] by blast
qed

lemma msum_append [simp]: "msum (ms @ ks) = msum ms + msum ks"
  by (simp add: msum_def)

lemma committed_inv:
  assumes inv: "pool_sys_inv s" and com: "committed_by ops addr len type prot s s'"
  shows "pool_sys_inv s'"
proof -
  note I = pool_sys_invD [OF inv]
  let ?R = "ps_ranges s" and ?R' = "ps_ranges s'" and ?p = "ps_pool s" and ?p' = "ps_pool s'"
  obtain mode gpu ms nm placeholder where pos: "0 < addr" "0 < len" "addr + len < U64 - 1"
    and dec: "DecodeMemoryProtection prot = Some (mode, gpu)" and nm: "name_ok nm"
    and span: "\<forall>a\<in>{addr ..< addr + len}. view ?R a = Some (reserved_attr nm placeholder)"
    and alloc: "Pool_Allocate addr len gpu ?p = (Some ms, ?p')" and wf': "vr_wf ?R'"
    and view': "view ?R' = put_map addr len
            (added_attr addr 0 prot type Pooled (Some nm) True placeholder) (view ?R)"
    and views': "ps_views s' = show_all mode ms (ps_views s)"
    and c': "ps_committed s' = add64 (ps_committed s) len" and ph': "ps_phys s' = ps_phys s"
    using com unfolding committed_by_def by blast
  have in64: "addr + len < U64" using pos(3) by simp
  have typed: "\<not> pooled_typed ?R a" if "a \<in> {addr ..< addr + len}" for a
    using span that by (simp add: pooled_typed_def reserved_attr_def)
  then have free: "\<forall>a\<in>{addr ..< addr + len}. mview (pool_mappings ?p) a = None"
    using I(4) by blast
  note al = Pool_Allocate_spec [OF I(2) pos(1,2) in64 free alloc, unfolded option.case]
  have maps: "pool_mappings ?p' = pool_mappings ?p @ ms" and sub: "mphys ms \<subseteq> fl_cover (pool_free ?p)"
    and cov: "fl_cover (pool_free ?p') = fl_cover (pool_free ?p) - mphys ms"
    and ex: "pool_expansions ?p' = pool_expansions ?p" and pinv: "pool_inv ?p'"
    and ms: "tiles addr ms" "msum ms = len" "ms_wf ms"
    using al by blast+
  have tw: "mview ms a \<noteq> None \<longleftrightarrow> addr \<le> a \<and> a < addr + len" for a
    using tiles_wf [OF ms(1)] ms(2,3) by (auto simp: ms_wf_def)
  have attr: "r_type (added_attr addr 0 prot type Pooled (Some nm) True placeholder a) = Pooled"
    "r_protection (added_attr addr 0 prot type Pooled (Some nm) True placeholder a) = prot"
    "r_name (added_attr addr 0 prot type Pooled (Some nm) True placeholder a) = nm" for a
    using nm by (simp_all add: added_attr_def name_ok_def)
  have typed': "pooled_typed ?R' a \<longleftrightarrow> pooled_typed ?R a \<or> addr \<le> a \<and> a < addr + len" for a
    unfolding pooled_typed_def view' by (auto simp: put_map_def attr)
  have "pool_owned ?p' = pool_owned ?p"
    unfolding pool_owned_def maps cov using sub by auto
  then have ex': "expansions_ok (ps_phys s') ?p'"
    using I(8) unfolding expansions_ok_def ph' ex by simp
  have pm: "pm_inv (ps_phys s')" using I(1) ph' by simp
  have views: "ps_views s' = pool_view ?R' (pool_mappings ?p')"
  proof
    fix a
    show "ps_views s' a = pool_view ?R' (pool_mappings ?p') a"
    proof (cases "addr \<le> a \<and> a < addr + len")
      case True
      then obtain x where "mview ms a = Some x" using tw by blast
      moreover have "mview (pool_mappings ?p) a = None" using free True by simp
      ultimately show ?thesis
        using True dec by (simp add: views' show_all_def pool_view_def maps mview_append view'
            put_map_def attr)
    next
      case False
      then have "mview ms a = None" using tw by blast
      then have "mview (pool_mappings ?p') a = mview (pool_mappings ?p) a"
        by (simp add: maps mview_append split: option.splits)
      moreover have "view ?R' a = view ?R a" using False by (auto simp: view' put_map_def)
      ultimately show ?thesis
        using \<open>mview ms a = None\<close> I(6) by (simp add: views' show_all_def pool_view_def)
    qed
  qed
  have "msum (pool_mappings ?p') < U64"
    using pool_bytes_in64 [OF pm pinv ex'] PhysicalSize_in64 by simp
  then have "ps_committed s' = msum (pool_mappings ?p')"
    using c' I(7) maps ms(2) by (simp add: add64_exact)
  moreover have "mview (pool_mappings ?p') a \<noteq> None \<longleftrightarrow> pooled_typed ?R' a" for a
    using al I(4) typed' by blast
  moreover have "range_ok v" if "view ?R' a = Some v" for a v
  proof (cases "addr \<le> a \<and> a < addr + len")
    case True
    then show ?thesis
      using that nm dec attr by (auto simp: view' put_map_def range_ok_def)
  next
    case False
    then have "view ?R a = Some v" using that by (auto simp: view' put_map_def split: if_splits)
    then show ?thesis by (rule I(5))
  qed
  moreover have "view ?R' (U64 - 2) = None"
    using I(9) pos(3) by (auto simp: view' put_map_def)
  ultimately show ?thesis
    unfolding pool_sys_inv_def using pm pinv wf' views ex' by blast
qed

end
