(* ===== verification/MemoryPoolDecommit.thy ===== *)
theory MemoryPoolDecommit
  imports MemoryPoolCommit
begin

text \<open>
  What \<open>KernelMemoryPoolDecommit\<close> does: one committed range at a time, in address order,
  after a check of the whole span. The lemmas follow one chunk and then the recursion.
\<close>

section \<open>The check of the span\<close>

definition pool_span :: "nat \<Rightarrow> nat \<Rightarrow> (nat \<Rightarrow> vrange option) \<Rightarrow> bool" where
  "pool_span b e V \<longleftrightarrow> (\<forall>a\<in>{b ..< e}. \<exists>v. V a = Some v \<and> IsPooledRangeType (r_type v))"

lemma pool_span_split:
  assumes "b \<le> m" and "m \<le> e"
  shows "pool_span b e V \<longleftrightarrow> pool_span b m V \<and> pool_span m e V"
proof -
  have "{b ..< e} = {b ..< m} \<union> {m ..< e}" using assms by auto
  then show ?thesis by (simp add: pool_span_def ball_Un)
qed

lemma decommit_scan_iff: "vr_wf rs \<Longrightarrow> decommit_scan e b rs \<longleftrightarrow> pool_span b e (view rs)"
proof (induction e b rs rule: decommit_scan.induct)
  case (1 e b rs)
  note wf = "1.prems"
  consider (stop) "\<not> b < e" | (none) "b < e" "VR_Query b 0 rs = None"
    | (some) r where "b < e" "VR_Query b 0 rs = Some r" by fastforce
  then show ?case
  proof cases
    case stop
    then show ?thesis by (subst decommit_scan.simps) (simp add: pool_span_def)
  next
    case none
    then have "view rs b = None" using VR_Query_mapped [OF wf] by (force simp: view_None)
    moreover have "b \<in> {b ..< e}" using none by simp
    ultimately have "\<not> pool_span b e (view rs)"
      unfolding pool_span_def by (metis option.distinct(1))
    then show ?thesis using none by (subst decommit_scan.simps) simp
  next
    case some
    have r: "r \<in> set rs" "b \<in> vr_dom r" using some VR_Query_Some [OF wf] by auto
    have ok: "vr_ok r" using r(1) wf by (simp add: vr_wf_def)
    let ?n = "min e (r_start r + r_size r)"
    have nxt: "min e (add64 (r_start r) (r_size r)) = ?n" "b < ?n"
      using ok r(2) some(1) by (auto simp: vr_ok_def vr_dom_def add64_exact)
    have here: "(\<exists>v. view rs a = Some v \<and> IsPooledRangeType (r_type v))
        \<longleftrightarrow> IsPooledRangeType (r_type r)" if "a \<in> vr_dom r" for a
      using view_member [OF wf r(1) that] by (simp add: attr_at_def)
    have head: "pool_span b ?n (view rs) \<longleftrightarrow> IsPooledRangeType (r_type r)"
    proof -
      have "{b ..< ?n} \<subseteq> vr_dom r" using r(2) by (auto simp: vr_dom_def)
      moreover have "b \<in> {b ..< ?n}" using nxt(2) by simp
      ultimately show ?thesis unfolding pool_span_def using here by blast
    qed
    have step: "decommit_scan e b rs
        \<longleftrightarrow> IsPooledRangeType (r_type r) \<and> decommit_scan e ?n rs"
      using some nxt by (subst decommit_scan.simps) (auto simp: Let_def IsPooledRangeType_def)
    show ?thesis
    proof (cases "IsPooledRangeType (r_type r)")
      case True
      then have "decommit_scan e ?n rs \<longleftrightarrow> pool_span ?n e (view rs)"
        using "1.IH" [OF some _ refl] nxt wf by (auto simp: IsPooledRangeType_def)
      then show ?thesis
        using step head True nxt(2) pool_span_split [of b ?n e "view rs"] by simp
    next
      case False
      then show ?thesis
        using step head nxt(2) pool_span_split [of b ?n e "view rs"] by simp
    qed
  qed
qed

section \<open>One chunk\<close>

text \<open>The attributes of a committed address become those of a reserved one.\<close>

definition freed :: "vrange \<Rightarrow> vrange" where
  "freed v = (if r_type v = Pooled then reserved_attr (r_name v) True else v)"

definition decommitted :: "nat \<Rightarrow> nat \<Rightarrow> 'g pool_system \<Rightarrow> 'g pool_system \<Rightarrow> bool" where
  "decommitted addr n s s' \<longleftrightarrow>
     (\<forall>a. view (ps_ranges s') a = (if addr \<le> a \<and> a < addr + n
        then map_option freed (view (ps_ranges s) a) else view (ps_ranges s) a))
     \<and> (\<forall>a. mview (pool_mappings (ps_pool s')) a = (if addr \<le> a \<and> a < addr + n then None
          else mview (pool_mappings (ps_pool s)) a))
     \<and> ps_phys s' = ps_phys s"

lemma freed_idem [simp]: "freed (freed v) = freed v"
  by (simp add: freed_def reserved_attr_def)

lemma decommitted_0: "decommitted addr 0 s s"
  by (auto simp: decommitted_def)

lemma decommitted_join:
  assumes "decommitted addr m s t" and "decommitted (addr + m) k t u"
  shows "decommitted addr (m + k) s u"
  using assms unfolding decommitted_def by auto

text \<open>Reserved addresses need no work.\<close>

lemma decommitted_reserved:
  assumes "pool_sys_inv s"
    and "\<forall>a\<in>{addr ..< addr + n}. \<exists>v. view (ps_ranges s) a = Some v \<and> r_type v = PoolReserved"
  shows "decommitted addr n s s"
proof -
  have "\<not> pooled_typed (ps_ranges s) a" if "addr \<le> a" "a < addr + n" for a
  proof -
    obtain v where "view (ps_ranges s) a = Some v" "r_type v = PoolReserved"
      using assms(2) \<open>addr \<le> a\<close> \<open>a < addr + n\<close> by (meson atLeastLessThan_iff)
    then show ?thesis by (simp add: pooled_typed_def)
  qed
  then have "mview (pool_mappings (ps_pool s)) a = None" if "addr \<le> a" "a < addr + n" for a
    using that pool_sys_invD(4) [OF assms(1), of a] by blast
  moreover have "map_option freed (view (ps_ranges s) a) = view (ps_ranges s) a"
    if "addr \<le> a" "a < addr + n" for a
    using assms(2) that by (force simp: freed_def)
  ultimately show ?thesis by (simp add: decommitted_def)
qed

lemma UnmapGpuRange_spec:
  "UnmapGpuRange ops addr len gpu s = Inr s' \<Longrightarrow> \<exists>g. s' = s\<lparr>ps_gpu := g\<rparr>"
  by (auto simp: UnmapGpuRange_def bindR_eq_Inr split: if_splits intro: exI [of _ "ps_gpu s"])

lemma Pool_Query_Some:
  assumes "pool_inv p" and "0 < addr" and "0 < len" and "addr + len < U64"
    and "\<forall>a\<in>{addr ..< addr + len}. mview (pool_mappings p) a \<noteq> None"
  obtains ms where "Pool_Query addr len p = Some ms" and "ms_wf ms"
    and "mview ms = (\<lambda>a. if addr \<le> a \<and> a < addr + len then mview (pool_mappings p) a else None)"
proof -
  have q: "Pool_Query addr len p = query_loop (pool_mappings p) (addr + len) addr"
    using assms(2-4) by (auto simp: Pool_Query_def add64_exact)
  have wf: "ms_wf (pool_mappings p)" using assms(1) by (simp add: pool_inv_def)
  note spec = query_loop_spec [OF wf, where e = "addr + len" and current = addr]
  show thesis
  proof (cases "query_loop (pool_mappings p) (addr + len) addr")
    case None
    then show thesis using spec assms(5) by (simp add: Bex_def Ball_def)
  next
    case (Some ms)
    then show thesis using spec q that by simp
  qed
qed

lemma msum_cut:
  assumes "ms_wf ms" and "ms_wf ks" and "\<forall>a\<in>{b ..< b + n}. mview ms a \<noteq> None"
    and "mview ks = (\<lambda>a. if b \<le> a \<and> a < b + n then None else mview ms a)"
  shows "msum ks = msum ms - n"
proof -
  have "dom (mview ks) = dom (mview ms) - {b ..< b + n}"
    using assms(4) by (auto split: if_splits)
  moreover have "{b ..< b + n} \<subseteq> dom (mview ms)" using assms(3) by auto
  ultimately show ?thesis
    using card_dom_mview [OF assms(1)] card_dom_mview [OF assms(2)] by (simp add: card_Diff_subset)
qed

lemma chunk_attr:
  assumes "pool_sys_inv s" and "old \<in> set (ps_ranges s)" and "r_type old = Pooled"
    and "a \<in> vr_dom old"
  shows "view (ps_ranges s) a = Some (attr_at old a)" and "pooled_typed (ps_ranges s) a"
    and "mview (pool_mappings (ps_pool s)) a \<noteq> None" and "name_ok (r_name old)"
    and "DecodeMemoryProtection (r_protection old) \<noteq> None"
    and "freed (attr_at old a) = reserved_attr (r_name old) True"
proof -
  note I = pool_sys_invD [OF assms(1)]
  have attr: "r_type (attr_at old a) = Pooled" "r_name (attr_at old a) = r_name old"
    "r_protection (attr_at old a) = r_protection old"
    using assms(3) by (simp_all add: attr_at_def)
  show v: "view (ps_ranges s) a = Some (attr_at old a)" by (rule view_member [OF I(3) assms(2,4)])
  then show t: "pooled_typed (ps_ranges s) a" using attr by (simp add: pooled_typed_def)
  then show "mview (pool_mappings (ps_pool s)) a \<noteq> None" using I(4) by blast
  have "range_ok (attr_at old a)" by (rule I(5) [OF v])
  then show "name_ok (r_name old)" "DecodeMemoryProtection (r_protection old) \<noteq> None"
    using attr by (simp_all add: range_ok_def)
  show "freed (attr_at old a) = reserved_attr (r_name old) True" using attr by (simp add: freed_def)
qed

lemma chunk_run:
  assumes inv: "pool_sys_inv s" and old: "old \<in> set (ps_ranges s)" "r_type old = Pooled"
    and pos: "0 < addr" "0 < len" and ins: "r_start old \<le> addr" "addr + len \<le> r_start old + r_size old"
    and run: "decommit_chunk ops addr len old s = Inr (r, s')"
  obtains ms p rs where "r = OK" and "ms_wf ms"
    and "mview ms = (\<lambda>a. if addr \<le> a \<and> a < addr + len
           then mview (pool_mappings (ps_pool s)) a else None)"
    and "Pool_Release addr len (ps_pool s) = (Some (m_gpu (hd ms)), p)"
    and "vr_wf rs" and "view rs = put_map addr len (\<lambda>_. reserved_attr (r_name old) True)
           (view (ps_ranges s))"
    and "ps_pool s' = p" and "ps_ranges s' = rs" and "ps_phys s' = ps_phys s"
    and "ps_views s' = hide_all ms (ps_views s)" and "ps_committed s' = ps_committed s - len"
    and "ps_calls s' = ps_calls s @ [FreeCallback addr len]"
proof -
  note I = pool_sys_invD [OF inv]
  have "vr_ok old" using old(1) I(3) by (simp add: vr_wf_def)
  then have in64: "addr + len < U64" using ins(2) by (simp add: vr_ok_def)
  have dom: "a \<in> vr_dom old" if "a \<in> {addr ..< addr + len}" for a
    using that ins by (simp add: vr_dom_def)
  note attr = chunk_attr [OF inv old]
  have mapped: "\<forall>a\<in>{addr ..< addr + len}. mview (pool_mappings (ps_pool s)) a \<noteq> None"
    using attr(3) dom by blast
  obtain ms where ms: "Pool_Query addr len (ps_pool s) = Some ms" "ms_wf ms"
    "mview ms = (\<lambda>a. if addr \<le> a \<and> a < addr + len then mview (pool_mappings (ps_pool s)) a else None)"
    by (rule Pool_Query_Some [OF I(2) pos in64 mapped])
  have "addr \<in> vr_dom old" using dom pos(2) by simp
  then obtain mode gpu where dec: "DecodeMemoryProtection (r_protection old) = Some (mode, gpu)"
    and nm: "name_ok (r_name old)" using attr(4,5) by fastforce
  obtain p where rel: "Pool_Release addr len (ps_pool s) = (Some (m_gpu (hd ms)), p)"
    using ms(1) by (simp add: Pool_Release_def)
  obtain rem rs0 where rm: "VR_Remove addr len (ps_ranges s) = (rem, rs0)" by fastforce
  note rspec = VR_Remove_spec [OF I(3) in64 rm]
  obtain ok rs where ad: "VR_Add addr len 0 0 0 PoolReserved (Some (r_name old)) False True rs0
      = (ok, rs)" by fastforce
  have "vr_wf rs0" "view rs0 = erase_map addr len (view (ps_ranges s))" using rspec by simp_all
  note aspec = readd_restores [OF this in64 pos nm ad]
  obtain t where t: "UnmapGpuRange ops addr len gpu s = Inr t"
    and rest: "bindR (UnmapPooledBackingTransactional ms mode t) (\<lambda>(ok, s).
         if \<not> ok then Inl (Exit ''pooled-memory backing transaction failed after GPU unmap'')
         else (case Pool_Release addr len (ps_pool s) of
             (None, p) \<Rightarrow> Inl (Exit ''failed to release decommitted pooled-memory range'')
           | (Some g, p) \<Rightarrow>
               (let s = s\<lparr>ps_pool := p, ps_ranges := snd (VR_Remove addr len (ps_ranges s))\<rparr>;
                    s = readd_reserved addr len (r_name old) True s
                in Inr (OK, s\<lparr>ps_calls := ps_calls s @ [FreeCallback addr len],
                     ps_committed := MemoryPoolSubtractCommitted len (ps_committed s)\<rparr>))))
       = Inr (r, s')"
    using run ms(1) dec unfolding decommit_chunk_def by (auto simp: bindR_eq_Inr)
  obtain g where tg: "t = s\<lparr>ps_gpu := g\<rparr>" using UnmapGpuRange_spec [OF t] by blast
  from rest obtain ok' u where u': "UnmapPooledBackingTransactional ms mode t = Inr (ok', u)"
    by (auto simp: bindR_eq_Inr)
  have u: "UnmapPooledBackingTransactional ms mode t = Inr (True, u)"
    using rest u' by (cases ok') simp_all
  note uspec = UnmapPooled_spec [OF u ms(2)]
  have uf: "ps_phys u = ps_phys s" "ps_pool u = ps_pool s" "ps_ranges u = ps_ranges s"
    "ps_committed u = ps_committed s" "ps_calls u = ps_calls s" "ps_views u = hide_all ms (ps_views s)"
    using uspec host_frameD [of t u] tg by simp_all
  have sub: "MemoryPoolSubtractCommitted len (ps_committed s) = ps_committed s - len"
    by (simp add: MemoryPoolSubtractCommitted_def)
  have s': "r = OK" "s' = u\<lparr>ps_pool := p, ps_ranges := rs, ps_calls := ps_calls s @ [FreeCallback addr len],
      ps_committed := ps_committed s - len\<rparr>"
    using rest unfolding u by (simp_all add: uf rel rm ad readd_reserved_def sub)
  show thesis
    by (rule that [of ms p rs]) (use s' ms rel aspec uf in simp_all)
qed

lemma chunk_spec:
  assumes inv: "pool_sys_inv s" and old: "old \<in> set (ps_ranges s)" "r_type old = Pooled"
    and pos: "0 < addr" "0 < len" and ins: "r_start old \<le> addr" "addr + len \<le> r_start old + r_size old"
    and run: "decommit_chunk ops addr len old s = Inr (r, s')"
  shows "r = OK \<and> pool_sys_inv s' \<and> decommitted addr len s s'"
proof (rule chunk_run [OF assms])
  fix ms p rs
  assume r: "r = OK" and ms: "ms_wf ms"
    "mview ms = (\<lambda>a. if addr \<le> a \<and> a < addr + len then mview (pool_mappings (ps_pool s)) a else None)"
    and rel: "Pool_Release addr len (ps_pool s) = (Some (m_gpu (hd ms)), p)"
    and rs: "vr_wf rs" "view rs = put_map addr len (\<lambda>_. reserved_attr (r_name old) True) (view (ps_ranges s))"
    and s': "ps_pool s' = p" "ps_ranges s' = rs" "ps_phys s' = ps_phys s"
      "ps_views s' = hide_all ms (ps_views s)" "ps_committed s' = ps_committed s - len"
  note I = pool_sys_invD [OF inv]
  have "vr_ok old" using old(1) I(3) by (simp add: vr_wf_def)
  then have in64: "addr + len < U64" using ins(2) by (simp add: vr_ok_def)
  have dom: "a \<in> vr_dom old" if "addr \<le> a" "a < addr + len" for a
    using that ins by (simp add: vr_dom_def)
  note attr = chunk_attr [OF inv old]
  note q = Pool_Release_spec [OF I(2) pos in64 rel, simplified]
  have m': "mview (pool_mappings p)
      = (\<lambda>a. if addr \<le> a \<and> a < addr + len then None else mview (pool_mappings (ps_pool s)) a)"
    using q by blast
  have nm: "name_ok (r_name old)" using attr(4) [OF dom [of addr]] pos(2) by simp
  have inside: "view rs a = Some (reserved_attr (r_name old) True)" if "addr \<le> a" "a < addr + len" for a
    using that by (simp add: rs(2) put_map_def)
  have outside: "view rs a = view (ps_ranges s) a" if "\<not> (addr \<le> a \<and> a < addr + len)" for a
    using that by (auto simp: rs(2) put_map_def)
  have typed': "pooled_typed rs a \<longleftrightarrow> \<not> (addr \<le> a \<and> a < addr + len) \<and> pooled_typed (ps_ranges s) a" for a
    by (cases "addr \<le> a \<and> a < addr + len")
      (simp_all add: pooled_typed_def inside outside reserved_attr_def)
  have views: "ps_views s' = pool_view rs (pool_mappings p)"
    unfolding s'(4) I(6) hide_all_def ms(2) pool_view_def m'
    by (rule ext) (auto simp: outside split: option.splits)
  have wfp: "ms_wf (pool_mappings p)" "ms_wf (pool_mappings (ps_pool s))"
    using q I(2) by (simp_all add: pool_inv_def)
  have mapped: "\<forall>a\<in>{addr ..< addr + len}. mview (pool_mappings (ps_pool s)) a \<noteq> None"
    using attr(3) dom by (meson atLeastLessThan_iff)
  have com: "ps_committed s' = msum (pool_mappings p)"
    using msum_cut [OF wfp(2,1) mapped m'] I(7) s'(5) by simp
  have ex: "expansions_ok (ps_phys s') p"
    using I(8) q unfolding expansions_ok_def s'(3) by simp
  have "range_ok v" if "view rs a = Some v" for a v
  proof (cases "addr \<le> a \<and> a < addr + len")
    case True
    then show ?thesis using that inside nm by (auto simp: range_ok_def reserved_attr_def)
  next
    case False
    then show ?thesis using that outside I(5) by simp
  qed
  moreover have "mview (pool_mappings p) a \<noteq> None \<longleftrightarrow> pooled_typed rs a" for a
    unfolding m' typed' using I(4) [of a] by auto
  moreover have "view rs (U64 - 2) = None"
  proof -
    have "U64 - 2 \<notin> vr_dom old" using I(9) old(1) by (auto simp: view_None)
    then show ?thesis using outside I(9) dom by metis
  qed
  ultimately have "pool_sys_inv s'"
    unfolding pool_sys_inv_def s'(1-3) using rs(1) views com ex I(1) q s'(3) by simp
  moreover have "decommitted addr len s s'"
    unfolding decommitted_def s'(1-3) m'
    using inside outside attr(1,6) dom by simp
  ultimately show ?thesis using r by blast
qed

section \<open>The recursion over the ranges\<close>

lemma pool_span_decommitted:
  assumes "decommitted addr n s t"
  shows "pool_span b e (view (ps_ranges t)) \<longleftrightarrow> pool_span b e (view (ps_ranges s))"
proof -
  have kind: "IsPooledRangeType (r_type (freed v)) \<longleftrightarrow> IsPooledRangeType (r_type v)" for v
    by (simp add: freed_def reserved_attr_def IsPooledRangeType_def)
  have "(\<exists>v. view (ps_ranges t) a = Some v \<and> IsPooledRangeType (r_type v))
      \<longleftrightarrow> (\<exists>v. view (ps_ranges s) a = Some v \<and> IsPooledRangeType (r_type v))" for a
  proof (cases "addr \<le> a \<and> a < addr + n")
    case True
    then have "view (ps_ranges t) a = map_option freed (view (ps_ranges s) a)"
      using assms by (simp add: decommitted_def)
    then show ?thesis using kind by (cases "view (ps_ranges s) a") simp_all
  next
    case False
    then have "view (ps_ranges t) a = view (ps_ranges s) a"
      using assms unfolding decommitted_def by presburger
    then show ?thesis by simp
  qed
  then show ?thesis by (simp add: pool_span_def)
qed

text \<open>The part of the span that lies in the first range.\<close>

lemma first_range:
  assumes "pool_sys_inv s" and "addr + len < U64" and "0 < len"
    and "pool_span addr (addr + len) (view (ps_ranges s))"
  obtains old where "VR_Query addr 0 (ps_ranges s) = Some old" and "old \<in> set (ps_ranges s)"
    and "r_start old \<le> addr" and "0 < decommit_length addr len old"
    and "decommit_length addr len old = min len (r_start old + r_size old - addr)"
    and "r_type old = Pooled \<or> r_type old = PoolReserved"
proof -
  note I = pool_sys_invD [OF assms(1)]
  have "addr \<in> {addr ..< addr + len}" using assms(3) by simp
  then obtain v where v: "view (ps_ranges s) addr = Some v" "IsPooledRangeType (r_type v)"
    using assms(4) unfolding pool_span_def by blast
  then obtain old where old: "old \<in> set (ps_ranges s)" "addr \<in> vr_dom old" "v = attr_at old addr"
    using view_Some [OF I(3)] by blast
  have ok: "vr_ok old" using old(1) I(3) by (simp add: vr_wf_def)
  have "sub64 addr (r_start old) = addr - r_start old"
    using old(2) assms(2) by (intro sub64_exact) (auto simp: vr_dom_def)
  moreover have "sub64 (r_size old) (addr - r_start old) = r_size old - (addr - r_start old)"
    using old(2) ok by (intro sub64_exact) (auto simp: vr_dom_def vr_ok_def)
  ultimately have "decommit_length addr len old = min len (r_start old + r_size old - addr)"
    using old(2) by (auto simp: decommit_length_def vr_dom_def)
  moreover have "r_type old = Pooled \<or> r_type old = PoolReserved"
    using v(2) unfolding old(3) by (simp add: attr_at_def IsPooledRangeType_def)
  ultimately show thesis
    using that [of old] old assms(3) VR_Query_Some [OF I(3)] by (simp add: vr_dom_def)
qed

definition decommit_result :: "nat \<Rightarrow> nat \<Rightarrow> 'g pool_system \<Rightarrow> int \<Rightarrow> 'g pool_system \<Rightarrow> bool" where
  "decommit_result addr len s r s' \<longleftrightarrow> pool_sys_inv s'
     \<and> (\<exists>m\<le>len. decommitted addr m s s' \<and> (r = OK \<longrightarrow> m = len))
     \<and> (r = OK \<and> pool_span addr (addr + len) (view (ps_ranges s))
        \<or> r = KERNEL_ERROR_EINVAL
        \<or> r = KERNEL_ERROR_EACCES \<and> \<not> pool_span addr (addr + len) (view (ps_ranges s)) \<and> s' = s)"

lemma decommit_join:
  assumes "decommitted addr c s t" and "decommit_result (addr + c) (len - c) t r s'" and "c \<le> len"
    and "pool_span addr (addr + len) (view (ps_ranges s))"
  shows "decommit_result addr len s r s'"
proof -
  obtain m where m: "m \<le> len - c" "decommitted (addr + c) m t s'" "r = OK \<longrightarrow> m = len - c"
    using assms(2) unfolding decommit_result_def by blast
  have "pool_span (addr + c) (addr + c + (len - c)) (view (ps_ranges t))"
    using assms(3,4) pool_span_decommitted [OF assms(1)]
      pool_span_split [of addr "addr + c" "addr + len" "view (ps_ranges s)"] by simp
  then have "r = OK \<or> r = KERNEL_ERROR_EINVAL" using assms(2) unfolding decommit_result_def by blast
  moreover have "c + m \<le> len \<and> decommitted addr (c + m) s s' \<and> (r = OK \<longrightarrow> c + m = len)"
    using m assms(3) decommitted_join [OF assms(1) m(2)] by auto
  ultimately show ?thesis
    using assms(2,4) unfolding decommit_result_def by blast
qed

lemma Decommit_spec:
  "pool_sys_inv s \<Longrightarrow> KernelMemoryPoolDecommit ops addr len s = Inr (r, s') \<Longrightarrow>
     decommit_result addr len s r s'"
proof (induction len arbitrary: addr s r s' rule: less_induct)
  case (less len)
  note inv = less.prems(1)
  note I = pool_sys_invD [OF inv]
  have err: "KERNEL_ERROR_EINVAL \<noteq> OK" "KERNEL_ERROR_EACCES \<noteq> OK"
    "KERNEL_ERROR_EINVAL \<noteq> KERNEL_ERROR_EACCES" by (simp_all add: errno_defs)
  have stay: "\<exists>m\<le>len. decommitted addr m s s \<and> (k = OK \<longrightarrow> m = len)" if "k \<noteq> OK" for k
    using that decommitted_0 by blast
  show ?case
  proof (cases "addr = 0 \<or> len = 0 \<or> \<not> IsAligned len POOL_COMMIT_ALIGNMENT \<or> UINT64_MAX - addr < len")
    case True
    then have "r = KERNEL_ERROR_EINVAL \<and> s' = s"
      using less.prems(2) by (subst (asm) KernelMemoryPoolDecommit.simps) (auto split: if_splits)
    then show ?thesis using inv stay [OF err(1)] by (simp add: decommit_result_def)
  next
    case False
    then have pos: "0 < addr" "0 < len" by simp_all
    have in64: "addr + len < U64"
      using False pos by (auto simp: UINT64_MAX_def U64_def)
    have e64: "add64 addr len = addr + len" using in64 by (rule add64_exact)
    have scan: "decommit_scan (add64 addr len) addr (ps_ranges s)
        \<longleftrightarrow> pool_span addr (addr + len) (view (ps_ranges s))"
      using decommit_scan_iff [OF I(3)] e64 by simp
    show ?thesis
    proof (cases "pool_span addr (addr + len) (view (ps_ranges s))")
      case bad: False
      then have "r = KERNEL_ERROR_EACCES \<and> s' = s"
        using less.prems(2) False scan
        by (subst (asm) KernelMemoryPoolDecommit.simps) (auto split: if_splits)
      then show ?thesis using inv stay [OF err(2)] bad by (simp add: decommit_result_def)
    next
      case good: True
      obtain old where q: "VR_Query addr 0 (ps_ranges s) = Some old" and old: "old \<in> set (ps_ranges s)"
        "r_start old \<le> addr" and c0: "0 < decommit_length addr len old"
        and ceq: "decommit_length addr len old = min len (r_start old + r_size old - addr)"
        and type: "r_type old = Pooled \<or> r_type old = PoolReserved"
        by (rule first_range [OF inv in64 pos(2) good])
      obtain c where c: "c = decommit_length addr len old" by simp
      have cl: "0 < c" "c \<le> len" "addr + c \<le> r_start old + r_size old"
        using c0 ceq c by auto
      have c64: "add64 addr c = addr + c" using in64 cl by (intro add64_exact) simp
      have run: "(if r_type old = PoolReserved then
              (if c < len then KernelMemoryPoolDecommit ops (addr + c) (len - c) s else Inr (OK, s))
            else if c < len then
              bindR (KernelMemoryPoolDecommit ops addr c s) (\<lambda>(ret, s).
                if ret = OK then KernelMemoryPoolDecommit ops (addr + c) (len - c) s
                else Inr (ret, s))
            else decommit_chunk ops addr len old s) = Inr (r, s')"
        using less.prems(2) False scan good q type
        by (subst (asm) KernelMemoryPoolDecommit.simps)
          (auto simp: Let_def c [symmetric] c64 split: if_splits cong: if_cong)
      have inside: "view (ps_ranges s) a = Some (attr_at old a)" if "addr \<le> a" "a < addr + c" for a
        using that cl(3) old by (intro view_member [OF I(3)]) (auto simp: vr_dom_def)
      show ?thesis
      proof (cases "r_type old = PoolReserved")
        case res: True
        have "\<forall>a\<in>{addr ..< addr + c}. \<exists>v. view (ps_ranges s) a = Some v \<and> r_type v = PoolReserved"
          using inside res by (simp add: attr_at_def)
        note d = decommitted_reserved [OF inv this]
        show ?thesis
        proof (cases "c < len")
          case True
          then have "KernelMemoryPoolDecommit ops (addr + c) (len - c) s = Inr (r, s')"
            using run res by simp
          with less.IH [OF _ inv] have "decommit_result (addr + c) (len - c) s r s'"
            using cl True by simp
          then show ?thesis by (rule decommit_join [OF d _ cl(2) good])
        next
          case False
          then have "r = OK" "s' = s" "c = len" using run res cl by auto
          then show ?thesis using d inv good by (auto simp: decommit_result_def)
        qed
      next
        case com: False
        then have pooled: "r_type old = Pooled" using type by simp
        show ?thesis
        proof (cases "c < len")
          case True
          obtain ret t where t: "KernelMemoryPoolDecommit ops addr c s = Inr (ret, t)"
            and rest: "(if ret = OK then KernelMemoryPoolDecommit ops (addr + c) (len - c) t
                else Inr (ret, t)) = Inr (r, s')"
            using run com True by (auto simp: bindR_eq_Inr)
          have head: "decommit_result addr c s ret t" by (rule less.IH [OF True inv t])
          have "pool_span addr (addr + c) (view (ps_ranges s))"
            using good cl pool_span_split [of addr "addr + c" "addr + len" "view (ps_ranges s)"] by simp
          then have ret: "ret = OK \<or> ret = KERNEL_ERROR_EINVAL"
            using head unfolding decommit_result_def by blast
          show ?thesis
          proof (cases "ret = OK")
            case ok: True
            then have d: "decommitted addr c s t" and ti: "pool_sys_inv t"
              using head unfolding decommit_result_def by blast+
            have "decommit_result (addr + c) (len - c) t r s'"
              using less.IH [OF _ ti] rest ok cl True by simp
            then show ?thesis by (rule decommit_join [OF d _ cl(2) good])
          next
            case no: False
            then have "r = KERNEL_ERROR_EINVAL" "s' = t" using rest ret by auto
            then show ?thesis
              using head cl err unfolding decommit_result_def by (meson le_trans)
          qed
        next
          case False
          then have "c = len" using cl by simp
          then have "decommit_chunk ops addr len old s = Inr (r, s')" using run com by simp
          from chunk_spec [OF inv old(1) pooled pos old(2) _ this]
          show ?thesis using cl \<open>c = len\<close> good by (auto simp: decommit_result_def)
        qed
      qed
    qed
  qed
qed

end
