(* ===== verification/MemoryPoolSystem.thy ===== *)
theory MemoryPoolSystem
  imports MemoryPoolDecommit
begin

text \<open>
  The pool as the guest sees it: every sequence of memory pool system calls, interleaved
  with the other memory system calls, keeps the direct memory allocator, the pool, the
  virtual ranges and the host's views in step.
\<close>

section \<open>\<open>Reserve\<close>\<close>

lemma ranges_inv:
  assumes "pool_sys_inv s" and "vr_wf rs" and "\<And>a. pooled_typed rs a = pooled_typed (ps_ranges s) a"
    and "\<And>a. pooled_typed (ps_ranges s) a \<Longrightarrow> view rs a = view (ps_ranges s) a"
    and "\<And>a v. view rs a = Some v \<Longrightarrow> range_ok v" and "view rs (U64 - 2) = None"
  shows "pool_sys_inv (s\<lparr>ps_ranges := rs, ps_addresses := as\<rparr>)"
proof -
  note I = pool_sys_invD [OF assms(1)]
  have "pool_view rs (pool_mappings (ps_pool s)) a = pool_view (ps_ranges s) (pool_mappings (ps_pool s)) a" for a
  proof (cases "pooled_typed (ps_ranges s) a")
    case True
    then show ?thesis using assms(4) by (simp add: pool_view_def)
  next
    case False
    then have "mview (pool_mappings (ps_pool s)) a = None" using I(4) by blast
    then show ?thesis by (simp add: pool_view_def split: option.splits)
  qed
  then have "pool_view rs (pool_mappings (ps_pool s))
      = pool_view (ps_ranges s) (pool_mappings (ps_pool s))" by (rule ext)
  then show ?thesis
    using assms(1-3,5,6) by (simp add: pool_sys_inv_def)
qed

lemma host_address_cases:
  "host_address s = (a, t) \<Longrightarrow> \<exists>as. t = s\<lparr>ps_addresses := as\<rparr> \<and> set as \<subseteq> set (ps_addresses s)
     \<and> (a = 0 \<or> a \<in> set (ps_addresses s))"
  by (cases "ps_addresses s") (auto simp: host_address_def intro: exI [of _ "ps_addresses s"])

text \<open>A range that is neither pool memory before nor after may be put on free addresses.\<close>

lemma put_inv:
  assumes inv: "pool_sys_inv s" and wf: "vr_wf rs" and v: "v + len < U64 - 1"
    and free: "free_span v len (view (ps_ranges s))"
    and view: "view rs = put_map v len f (view (ps_ranges s))"
    and f: "\<And>a. range_ok (f a) \<and> r_type (f a) \<noteq> Pooled"
  shows "pool_sys_inv (s\<lparr>ps_ranges := rs, ps_addresses := as\<rparr>)"
proof (rule ranges_inv [OF inv wf])
  note I = pool_sys_invD [OF inv]
  have out: "view rs a = view (ps_ranges s) a" if "\<not> (v \<le> a \<and> a < v + len)" for a
    using that by (auto simp: view put_map_def)
  have none: "view (ps_ranges s) a = None" if "v \<le> a" "a < v + len" for a
    using free that by (simp add: free_span_def)
  show "pooled_typed rs a = pooled_typed (ps_ranges s) a" for a
    using out [of a] none [of a] f by (auto simp: pooled_typed_def view put_map_def split: if_splits)
  show "view rs a = view (ps_ranges s) a" if "pooled_typed (ps_ranges s) a" for a
    using that out [of a] none [of a] unfolding pooled_typed_def by (metis option.distinct(1))
  show "range_ok k" if "view rs a = Some k" for a k
    using that I(5) [of a k] f by (auto simp: view put_map_def split: if_splits)
  have "\<not> U64 - 2 < v + len" using v by arith
  then show "view rs (U64 - 2) = None" using out [of "U64 - 2"] I(9) by simp
qed

text \<open>The addresses the host returns leave room for the span below the end of the address space.\<close>

definition addresses_fit :: "nat \<Rightarrow> 'g pool_system \<Rightarrow> bool" where
  "addresses_fit len s \<longleftrightarrow> (\<forall>a\<in>set (ps_addresses s). a + len < U64 - 1)"

lemma ReserveVirtualRange_spec:
  assumes inv: "pool_sys_inv s" and fl: "flags AND MAP_FIXED = 0" and fit: "addresses_fit len s"
    and run: "KernelReserveVirtualRange rf addr len flags al s = Inr (r, out, s')"
  shows "pool_sys_inv s' \<and> (case out of
       None \<Rightarrow> r \<noteq> OK \<and> (\<exists>rs as. s' = s\<lparr>ps_ranges := rs, ps_addresses := as\<rparr> \<and> view rs = view (ps_ranges s))
     | Some v \<Rightarrow> r = OK \<and> 0 < v \<and> 0 < len \<and> v + len < U64 - 1 \<and> free_span v len (view (ps_ranges s))
         \<and> (\<exists>rs as placeholder. s' = s\<lparr>ps_ranges := rs, ps_addresses := as\<rparr> \<and> vr_wf rs
             \<and> view rs = put_map v len (added_attr v 0 0 0 Reserved (Some ''anon'') False placeholder)
                 (view (ps_ranges s))))"
proof -
  note I = pool_sys_invD [OF inv]
  have err: "KERNEL_ERROR_EINVAL \<noteq> OK" "KERNEL_ERROR_ENOMEM \<noteq> OK" "KERNEL_ERROR_EBUSY \<noteq> OK"
    by (simp_all add: errno_defs)
  have keep: "pool_sys_inv (s\<lparr>ps_addresses := as\<rparr>)" for as
    using inv by (simp add: pool_sys_inv_def)
  have same: "\<exists>rs as'. s\<lparr>ps_addresses := as\<rparr> = s\<lparr>ps_ranges := rs, ps_addresses := as'\<rparr>
      \<and> view rs = view (ps_ranges s)" for as
    by (intro exI [of _ "ps_ranges s"] exI [of _ as]) (cases s, simp)
  show ?thesis
  proof (cases "len = 0 \<or> len AND (0x4000 - 1) \<noteq> 0 \<or> al \<noteq> 0 \<and> al AND (al - 1) \<noteq> 0")
    case True
    then have "r = KERNEL_ERROR_EINVAL \<and> out = None \<and> s' = s"
      using run unfolding KernelReserveVirtualRange_def by (auto split: if_splits)
    then show ?thesis
      using err inv by (auto intro!: exI [of _ "ps_ranges s"] exI [of _ "ps_addresses s"])
  next
    case False
    obtain a0 s1 where a0: "host_address s = (a0, s1)" by fastforce
    obtain v s2 where v: "(if a0 = 0 then host_address s1 else (a0, s1)) = (v, s2)" by fastforce
    obtain as1 where s1: "s1 = s\<lparr>ps_addresses := as1\<rparr>" "set as1 \<subseteq> set (ps_addresses s)"
      "a0 = 0 \<or> a0 \<in> set (ps_addresses s)" using host_address_cases [OF a0] by blast
    obtain as where s2: "s2 = s\<lparr>ps_addresses := as\<rparr>" "v = 0 \<or> v \<in> set (ps_addresses s)"
    proof (cases "a0 = 0")
      case True
      then obtain as where "s2 = s1\<lparr>ps_addresses := as\<rparr>" "v = 0 \<or> v \<in> set as1"
        using v host_address_cases [of s1 v s2] s1(1) by auto
      then show thesis using s1 that by auto
    next
      case False
      then show thesis using v s1 that by auto
    qed
    obtain placeholder where ph: "(a0 \<noteq> 0) = placeholder" by simp
    have run': "(if v = 0 then Inr (KERNEL_ERROR_ENOMEM, None, s2)
           else (case VR_Add v len 0 0 0 Reserved (Some ''anon'') False placeholder (ps_ranges s2) of
               (True, rs) \<Rightarrow> Inr (OK, Some v, s2\<lparr>ps_ranges := rs\<rparr>)
             | (False, rs) \<Rightarrow> Inr (KERNEL_ERROR_EBUSY, None, s2\<lparr>ps_ranges := rs\<rparr>)))
        = (Inr (r, out, s') :: exit_reason + _)"
      using run False fl a0 v unfolding KernelReserveVirtualRange_def ph [symmetric]
      by (simp split: if_splits)
    show ?thesis
    proof (cases "v = 0")
      case True
      then have "r = KERNEL_ERROR_ENOMEM \<and> out = None \<and> s' = s\<lparr>ps_addresses := as\<rparr>"
        using run' s2(1) by simp
      then show ?thesis
        using err keep [of as] same [of as] by simp
    next
      case nz: False
      then have top: "v + len < U64 - 1" using fit s2(2) by (auto simp: addresses_fit_def)
      then have in64: "v + len < U64" by simp
      obtain ok rs where add: "VR_Add v len 0 0 0 Reserved (Some ''anon'') False placeholder (ps_ranges s)
          = (ok, rs)" by fastforce
      note spec = VR_Add_spec [OF I(3) in64 add]
      have res: "s' = s\<lparr>ps_ranges := rs, ps_addresses := as\<rparr>"
        "if ok then r = OK \<and> out = Some v else r = KERNEL_ERROR_EBUSY \<and> out = None"
      proof -
        have swap: "s\<lparr>ps_addresses := as, ps_ranges := rs\<rparr> = s\<lparr>ps_ranges := rs, ps_addresses := as\<rparr>"
          by (cases s) simp
        have "(if ok then Inr (OK, Some v, s\<lparr>ps_addresses := as, ps_ranges := rs\<rparr>)
            else Inr (KERNEL_ERROR_EBUSY, None, s\<lparr>ps_addresses := as, ps_ranges := rs\<rparr>))
            = (Inr (r, out, s') :: exit_reason + _)"
          using run' nz add unfolding s2(1) by (cases ok) simp_all
        then show "s' = s\<lparr>ps_ranges := rs, ps_addresses := as\<rparr>"
          "if ok then r = OK \<and> out = Some v else r = KERNEL_ERROR_EBUSY \<and> out = None"
          unfolding swap by (simp_all split: if_splits)
      qed
      show ?thesis
      proof (cases ok)
        case True
        let ?f = "added_attr v 0 0 0 Reserved (Some ''anon'') False placeholder"
        have f: "range_ok (?f a) \<and> r_type (?f a) \<noteq> Pooled" for a
          by (simp add: range_ok_def added_attr_def)
        have "free_span v len (view (ps_ranges s))" "vr_wf rs"
          "view rs = put_map v len ?f (view (ps_ranges s))" using spec True by auto
        moreover from this have "pool_sys_inv s'"
          using put_inv [OF inv _ top _ _ f] res(1) by simp
        ultimately show ?thesis using True res nz False top by auto
      next
        case False
        then have "view rs = view (ps_ranges s)" "vr_wf rs" using spec by auto
        moreover from this have "unchanged s (s\<lparr>ps_ranges := rs\<rparr>)"
          unfolding unchanged_def by (intro exI [of _ rs] exI [of _ "ps_host s"]) simp
        then have "pool_sys_inv (s\<lparr>ps_ranges := rs\<rparr>)" by (rule unchanged_inv [OF inv])
        then have "pool_sys_inv s'" unfolding res(1) by (simp add: pool_sys_inv_def)
        ultimately show ?thesis using False res err by auto
      qed
    qed
  qed
qed


lemma anon_name [simp]: "CopyVirtualRangeName (Some ''anon'') = ''anon''"
  by code_simp

lemma put_put: "put_map v len f (put_map v len g V) = put_map v len f V"
  by (simp add: put_map_def fun_eq_iff)

text \<open>What a successful reservation has done.\<close>

definition reserved_by :: "nat \<Rightarrow> nat \<Rightarrow> 'g pool_system \<Rightarrow> 'g pool_system \<Rightarrow> bool" where
  "reserved_by v len s s' \<longleftrightarrow> 0 < v \<and> 0 < len \<and> v + len < U64 - 1
     \<and> free_span v len (view (ps_ranges s))
     \<and> (\<exists>rs as placeholder. s' = s\<lparr>ps_ranges := rs, ps_addresses := as\<rparr> \<and> vr_wf rs
          \<and> view rs = put_map v len (\<lambda>_. reserved_attr ''anon'' placeholder) (view (ps_ranges s)))"

text \<open>What is left of a reservation that failed after the range was added.\<close>

definition leaked_by :: "nat \<Rightarrow> nat \<Rightarrow> 'g pool_system \<Rightarrow> 'g pool_system \<Rightarrow> bool" where
  "leaked_by v len s s' \<longleftrightarrow> 0 < v \<and> 0 < len \<and> v + len < U64 - 1
     \<and> free_span v len (view (ps_ranges s))
     \<and> (\<exists>rs as placeholder. s' = s\<lparr>ps_ranges := rs, ps_addresses := as\<rparr> \<and> vr_wf rs
          \<and> view rs = put_map v len (added_attr v 0 0 0 Reserved (Some ''anon'') False placeholder)
              (view (ps_ranges s)))"

lemma reserved_by_inv:
  assumes "pool_sys_inv s" and "reserved_by v len s s'"
  shows "pool_sys_inv s'"
proof -
  obtain rs as placeholder where s': "s' = s\<lparr>ps_ranges := rs, ps_addresses := as\<rparr>" "vr_wf rs"
    "view rs = put_map v len (\<lambda>_. reserved_attr ''anon'' placeholder) (view (ps_ranges s))"
    "v + len < U64 - 1" "free_span v len (view (ps_ranges s))"
    using assms(2) unfolding reserved_by_def by blast
  have "name_ok ''anon''" by (simp add: name_ok_def)
  then have "range_ok (reserved_attr ''anon'' placeholder) \<and> r_type (reserved_attr ''anon'' placeholder) \<noteq> Pooled"
    by (simp add: range_ok_def reserved_attr_def)
  then show ?thesis unfolding s'(1) using put_inv [OF assms(1) s'(2,4,5,3)] by blast
qed

lemma Reserve_tail:
  assumes V: "vr_wf rs" "view rs = put_map v len (added_attr v 0 0 0 Reserved (Some ''anon'') False placeholder) V"
    and top: "v + len < U64 - 1" "0 < v" "0 < len"
    and r: "VR_Query v 0 rs = Some r"
    and ok: "VR_Add v len 0 0 0 PoolReserved (Some (r_name r)) False (r_placeholder_backed r)
        (snd (VR_Remove v len rs)) = (ok, rs')"
  shows "ok" and "vr_wf rs'"
    and "view rs' = put_map v len (\<lambda>_. reserved_attr ''anon'' (r_placeholder_backed r)) V"
proof -
  have in64: "v + len < U64" using top(1) by simp
  have mem: "r \<in> set rs" "v \<in> vr_dom r" using r VR_Query_Some [OF V(1)] by blast+
  have "view rs v = Some (attr_at r v)" by (rule view_member [OF V(1) mem])
  then have "attr_at r v = added_attr v 0 0 0 Reserved (Some ''anon'') False placeholder v"
    using V(2) top by (simp add: put_map_def)
  then have "r_name (attr_at r v) = ''anon''" by (simp add: added_attr_def)
  then have nm: "r_name r = ''anon''" by (simp add: attr_at_def)
  have nok: "name_ok ''anon''" by (simp add: name_ok_def)
  obtain b rs1 where rem: "VR_Remove v len rs = (b, rs1)" by fastforce
  have w: "vr_wf rs1" "view rs1 = erase_map v len (view rs)"
    using VR_Remove_spec [OF V(1) in64 rem] by blast+
  have "VR_Add v len 0 0 0 PoolReserved (Some ''anon'') False (r_placeholder_backed r) rs1 = (ok, rs')"
    using ok rem nm by simp
  note R = readd_restores [OF w in64 top(2,3) nok this]
  show "ok" "vr_wf rs'" using R by blast+
  show "view rs' = put_map v len (\<lambda>_. reserved_attr ''anon'' (r_placeholder_backed r)) V"
    using R(3) unfolding V(2) put_put .
qed

lemma bindR_Inr3: "bindR x f = Inr y \<Longrightarrow> \<exists>a b c. x = Inr (a, b, c) \<and> f (a, b, c) = Inr y"
  by (cases x) auto

lemma Reserve_spec:
  assumes inv: "pool_sys_inv s" and fl: "flags AND MAP_FIXED = 0" and fit: "addresses_fit len s"
    and run: "KernelMemoryPoolReserve rf addr len al flags ptr s = Inr (r, out, s')"
  shows "pool_sys_inv s' \<and> (case out of Some v \<Rightarrow> r = OK \<and> reserved_by v len s s'
     | None \<Rightarrow> r \<noteq> OK \<and> ((\<exists>rs as. s' = s\<lparr>ps_ranges := rs, ps_addresses := as\<rparr> \<and> view rs = view (ps_ranges s))
         \<or> r = KERNEL_ERROR_EBUSY \<and> (\<exists>v. leaked_by v len s s')))"
proof (cases "\<not> ptr \<or> len = 0 \<or> \<not> IsAligned len POOL_RESERVE_ALIGNMENT
    \<or> al \<noteq> 0 \<and> (\<not> IsPowerOfTwo al \<or> \<not> IsAligned al POOL_RESERVE_ALIGNMENT)")
  case True
  then have "r = KERNEL_ERROR_EINVAL \<and> out = None \<and> s' = s"
    using run unfolding KernelMemoryPoolReserve_def by (auto split: if_splits)
  then show ?thesis using inv
    by (auto simp: errno_defs intro!: exI [of _ "ps_ranges s"] exI [of _ "ps_addresses s"])
next
  case False
  let ?al = "if al \<noteq> 0 then al else POOL_RESERVE_ALIGNMENT"
  have err: "KERNEL_ERROR_EBUSY \<noteq> OK" by (simp add: errno_defs)
  let ?rest = "\<lambda>(ret, out_addr, s). case out_addr of
                 None \<Rightarrow> Inr (ret, None, s)
               | Some v \<Rightarrow> (case VR_Query v 0 (ps_ranges s) of
                     None \<Rightarrow> Inr (KERNEL_ERROR_EBUSY, None, s)
                   | Some r \<Rightarrow>
                       if r_start r \<noteq> v \<or> r_size r \<noteq> len \<or> \<not> IsReservedRangeType (r_type r)
                       then Inr (KERNEL_ERROR_EBUSY, None, s)
                       else
                         (let rs = snd (VR_Remove v len (ps_ranges s))
                          in case VR_Add v len 0 0 0 PoolReserved (Some (r_name r)) False
                                    (r_placeholder_backed r) rs of
                               (True, rs) \<Rightarrow> Inr (OK, Some v, s\<lparr>ps_ranges := rs\<rparr>)
                             | (False, rs) \<Rightarrow> Inr (KERNEL_ERROR_EBUSY, None, s\<lparr>ps_ranges :=
                                 snd (VR_Add v len (r_offset r) (r_protection r)
                                   (r_memory_type r) (r_type r) (Some (r_name r))
                                   (r_committed_from_reserved r) (r_placeholder_backed r)
                                   rs)\<rparr>)))"
  have c: "\<not> (\<not> ptr \<or> len = 0 \<or> \<not> IsAligned len POOL_RESERVE_ALIGNMENT)"
    "\<not> (al \<noteq> 0 \<and> (\<not> IsPowerOfTwo al \<or> \<not> IsAligned al POOL_RESERVE_ALIGNMENT))"
    using False by blast+
  have "KernelMemoryPoolReserve rf addr len al flags ptr s
      = bindR (KernelReserveVirtualRange rf addr len flags ?al s) ?rest"
    unfolding KernelMemoryPoolReserve_def Let_def if_not_P [OF c(1)] if_not_P [OF c(2)] by (rule refl)
  from this [symmetric] run
  have "bindR (KernelReserveVirtualRange rf addr len flags ?al s) ?rest = Inr (r, out, s')"
    by (rule trans)
  from bindR_Inr3 [OF this]
  obtain r0 o0 t where k: "KernelReserveVirtualRange rf addr len flags ?al s = Inr (r0, o0, t)"
    and rest: "?rest (r0, o0, t) = (Inr (r, out, s') :: exit_reason + _)"
    by (elim exE conjE) (rule that)
  note spec = ReserveVirtualRange_spec [OF inv fl fit k]
  show ?thesis
  proof (cases o0)
    case None
    then have "r = r0" "out = None" "s' = t" using rest by simp_all
    then show ?thesis using spec None by simp
  next
    case (Some v)
    obtain rs as placeholder where t: "t = s\<lparr>ps_ranges := rs, ps_addresses := as\<rparr>" "vr_wf rs"
      and V: "view rs = put_map v len (added_attr v 0 0 0 Reserved (Some ''anon'') False placeholder)
                (view (ps_ranges s))"
      and top: "0 < v" "0 < len" "v + len < U64 - 1" "free_span v len (view (ps_ranges s))"
      and ti: "pool_sys_inv t" using spec Some by auto
    have leak: "leaked_by v len s t"
      using t V top unfolding leaked_by_def by blast
    have tr: "ps_ranges t = rs" using t(1) by simp
    show ?thesis
    proof (cases "\<exists>q. VR_Query v 0 rs = Some q \<and> r_start q = v \<and> r_size q = len \<and> IsReservedRangeType (r_type q)")
      case False
      then have "r = KERNEL_ERROR_EBUSY" "out = None" "s' = t"
        using rest Some tr by (auto split: option.splits if_splits)
      then show ?thesis using err ti leak by auto
    next
      case True
      then obtain q where q: "VR_Query v 0 rs = Some q" "r_start q = v" "r_size q = len"
        "IsReservedRangeType (r_type q)" by blast
      obtain ok rs' where add: "VR_Add v len 0 0 0 PoolReserved (Some (r_name q)) False
          (r_placeholder_backed q) (snd (VR_Remove v len rs)) = (ok, rs')" by fastforce
      note tail = Reserve_tail [OF t(2) V top(3,1,2) q(1) add]
      have "r = OK" "out = Some v" "s' = t\<lparr>ps_ranges := rs'\<rparr>"
        using rest Some tr q add tail(1) by (simp_all add: Let_def)
      moreover have "t\<lparr>ps_ranges := rs'\<rparr> = s\<lparr>ps_ranges := rs', ps_addresses := as\<rparr>"
        unfolding t(1) by (cases s) simp
      ultimately have "r = OK \<and> out = Some v \<and> reserved_by v len s s'"
        using tail top unfolding reserved_by_def by blast
      then show ?thesis using reserved_by_inv [OF inv] by auto
    qed
  qed
qed


section \<open>\<open>Mprotect\<close>\<close>

lemma protect_unmap_all:
  assumes "foldR (protect_unmap_gpu ops) rs s = Inr t"
  shows "\<exists>g. t = s\<lparr>ps_gpu := g\<rparr>"
proof -
  have "\<exists>g. u = s\<lparr>ps_gpu := g\<rparr>"
    if "\<exists>g. v = s\<lparr>ps_gpu := g\<rparr>" and "protect_unmap_gpu ops r v = Inr u" for r u v
    using that UnmapGpuRange_spec [of ops "r_start r" "r_size r"]
    by (fastforce simp: protect_unmap_gpu_def bindR_eq_Inr split: if_splits)
  moreover have "\<exists>g. s = s\<lparr>ps_gpu := g\<rparr>" by (rule exI [of _ "ps_gpu s"]) simp
  ultimately show ?thesis using foldR_inv [OF assms, of "\<lambda>t. \<exists>g. t = s\<lparr>ps_gpu := g\<rparr>"] by blast
qed

text \<open>What a protection change has done to the ranges.\<close>

definition protected_by :: "nat \<Rightarrow> nat \<Rightarrow> prot \<Rightarrow> 'g pool_system \<Rightarrow> 'g pool_system \<Rightarrow> bool" where
  "protected_by v len prot s s' \<longleftrightarrow>
     (\<forall>a\<in>{v ..< v + len}. \<exists>k. view (ps_ranges s) a = Some k \<and> IsCommittedRangeType (r_type k))
     \<and> view (ps_ranges s') = edit_map v len (\<lambda>k. k\<lparr>r_protection := prot\<rparr>) (view (ps_ranges s))
     \<and> ps_phys s' = ps_phys s \<and> ps_pool s' = ps_pool s \<and> ps_committed s' = ps_committed s"

lemma protect_inv:
  assumes inv: "pool_sys_inv s" and wf: "vr_wf rs" and dec: "DecodeMemoryProtection prot = Some (mode, gpu)"
    and com: "\<forall>a\<in>{v ..< v + len}. \<exists>k. view (ps_ranges s) a = Some k \<and> IsCommittedRangeType (r_type k)"
    and view: "view rs = edit_map v len (\<lambda>k. k\<lparr>r_protection := prot\<rparr>) (view (ps_ranges s))"
    and s': "s' = s\<lparr>ps_ranges := rs, ps_gpu := g, ps_host := h,
        ps_views := (\<lambda>a. if v \<le> a \<and> a < v + len
          then map_option (\<lambda>x. (fst x, mode)) (ps_views s a) else ps_views s a)\<rparr>"
  shows "pool_sys_inv s'"
proof -
  note I = pool_sys_invD [OF inv]
  let ?ms = "pool_mappings (ps_pool s)"
  have typed: "pooled_typed rs a = pooled_typed (ps_ranges s) a" for a
    by (cases "view (ps_ranges s) a") (auto simp: pooled_typed_def view edit_map_def)
  have ok: "range_ok k" if k: "view rs a = Some k" for a k
  proof (cases "v \<le> a \<and> a < v + len")
    case True
    then obtain k0 where k0: "view (ps_ranges s) a = Some k0" "IsCommittedRangeType (r_type k0)"
      using com by (meson atLeastLessThan_iff)
    then have "k = k0\<lparr>r_protection := prot\<rparr>" using k True by (simp add: view edit_map_def)
    then show ?thesis
      using k0(2) I(5) [OF k0(1)] dec
      by (auto simp: range_ok_def IsCommittedRangeType_def IsReservedRangeType_def)
  next
    case False
    then show ?thesis using I(5) [of a k] k by (auto simp: view edit_map_def)
  qed
  have shown: "(if v \<le> a \<and> a < v + len then map_option (\<lambda>x. (fst x, mode)) (ps_views s a)
      else ps_views s a) = pool_view rs ?ms a" for a
  proof (cases "mview ?ms a")
    case None
    then show ?thesis unfolding I(6) by (simp add: pool_view_def split: option.splits)
  next
    case (Some x)
    then obtain k where k: "view (ps_ranges s) a = Some k" "r_type k = Pooled"
      using I(4) [of a] unfolding pooled_typed_def by auto
    moreover have "DecodeMemoryProtection (r_protection k) \<noteq> None"
      using I(5) [OF k(1)] k(2) by (simp add: range_ok_def)
    ultimately show ?thesis
      unfolding I(6) using Some dec by (auto simp: pool_view_def view edit_map_def)
  qed
  have "view rs (U64 - 2) = None" using I(9) by (simp add: view edit_map_def)
  then show ?thesis
    using inv wf typed ok shown unfolding s' by (simp add: pool_sys_inv_def fun_eq_iff)
qed


lemma Mprotect_spec:
  assumes inv: "pool_sys_inv s" and run: "KernelMprotect ops addr len prot s = Inr (r, s')"
  shows "pool_sys_inv s' \<and> (if r = OK
     then (let n = page_floor (len + (addr - page_floor addr) + (MPROTECT_PAGE_SIZE - 1))
       in n = 0 \<and> s' = s \<or> DecodeMemoryProtection prot \<noteq> None \<and> protected_by (page_floor addr) n prot s s')
     else r = KERNEL_ERROR_EINVAL \<and> s' = s)"
proof -
  note I = pool_sys_invD [OF inv]
  obtain v n where v: "v = page_floor addr"
    and n: "n = page_floor (len + (addr - page_floor addr) + (MPROTECT_PAGE_SIZE - 1))" by simp
  have err: "KERNEL_ERROR_EINVAL \<noteq> OK" by (simp add: errno_defs)
  have run': "(if n = 0 then Inr (OK, s)
     else case DecodeMemoryProtection prot of
       None \<Rightarrow> Inr (KERNEL_ERROR_EINVAL, s)
     | Some (mode, gpu_mode) \<Rightarrow>
         (case VR_QuerySpan v n (ps_ranges s) of
            None \<Rightarrow> Inl (Exit ''memory-protection range is not fully mapped'')
          | Some old_ranges \<Rightarrow>
              if \<exists>r\<in>set old_ranges. \<not> IsCommittedRangeType (r_type r)
              then Inl (Exit ''memory-protection range is not fully mapped'')
              else
                bindR (foldR (protect_unmap_gpu ops) old_ranges s) (\<lambda>s.
                case host_protect v n mode s of
                  (False, s) \<Rightarrow> Inl (Exit ''host memory-protection update failed'')
                | (True, s) \<Rightarrow>
                    bindR (MapGpuRange ops v n gpu_mode
                      (s\<lparr>ps_ranges := VR_Protect v n prot (ps_ranges s)\<rparr>)) (\<lambda>s. Inr (OK, s)))))
     = Inr (r, s')"
    using run unfolding KernelMprotect_def Let_def n [symmetric] unfolding v [symmetric]
    by (simp split: if_splits)
  show ?thesis
  proof (cases "n = 0 \<or> DecodeMemoryProtection prot = None")
    case True
    then show ?thesis using run' inv err n by (auto simp: Let_def split: if_splits)
  next
    case False
    then obtain mode gpu where dec: "DecodeMemoryProtection prot = Some (mode, gpu)" by auto
    obtain old where q: "VR_QuerySpan v n (ps_ranges s) = Some old"
      using run' False dec by (cases "VR_QuerySpan v n (ps_ranges s)") auto
    have com: "\<forall>r\<in>set old. IsCommittedRangeType (r_type r)"
      using run' False dec q by (auto split: if_splits)
    then have run'': "bindR (foldR (protect_unmap_gpu ops) old s) (\<lambda>s.
                case host_protect v n mode s of
                  (False, s) \<Rightarrow> Inl (Exit ''host memory-protection update failed'')
                | (True, s) \<Rightarrow>
                    bindR (MapGpuRange ops v n gpu
                      (s\<lparr>ps_ranges := VR_Protect v n prot (ps_ranges s)\<rparr>)) (\<lambda>s. Inr (OK, s)))
        = Inr (r, s')"
      using run' False dec q by simp
    have sp: "v + n < U64" "vr_wf old" "\<forall>a\<in>{v ..< v + n}. view (ps_ranges s) a \<noteq> None"
      "\<forall>a. view old a = (if v \<le> a \<and> a < v + n then view (ps_ranges s) a else None)"
      using VR_QuerySpan_spec [OF I(3), of v n] q by simp_all
    have span: "\<forall>a\<in>{v ..< v + n}. \<exists>k. view (ps_ranges s) a = Some k \<and> IsCommittedRangeType (r_type k)"
    proof
      fix a assume a: "a \<in> {v ..< v + n}"
      then obtain k where k: "view (ps_ranges s) a = Some k" using sp(3) by blast
      then have "view old a = Some k" using a sp(4) by simp
      then obtain q where "q \<in> set old" "k = attr_at q a" using view_Some [OF sp(2)] by blast
      then have "IsCommittedRangeType (r_type k)" using com by (simp add: attr_at_def)
      then show "\<exists>k. view (ps_ranges s) a = Some k \<and> IsCommittedRangeType (r_type k)" using k by blast
    qed
    obtain t where t: "foldR (protect_unmap_gpu ops) old s = Inr t"
      and rest: "(case host_protect v n mode t of
                  (False, s) \<Rightarrow> Inl (Exit ''host memory-protection update failed'')
                | (True, s) \<Rightarrow>
                    bindR (MapGpuRange ops v n gpu
                      (s\<lparr>ps_ranges := VR_Protect v n prot (ps_ranges s)\<rparr>)) (\<lambda>s. Inr (OK, s)))
        = Inr (r, s')"
      using run'' by (auto simp: bindR_eq_Inr)
    obtain g where g: "t = s\<lparr>ps_gpu := g\<rparr>" using protect_unmap_all [OF t] by blast
    obtain b u where u: "host_answer t = (b, u)" by fastforce
    have b: "b" using rest u by (auto simp: host_protect_def split: bool.splits)
    have fu: "u = t\<lparr>ps_host := ps_host u\<rparr>"
      using u by (auto simp: host_answer_def split: list.splits)
    have pv: "ps_views u = ps_views s" using host_answer_frame [OF u] g by simp
    obtain g' where s': "s' = u\<lparr>ps_views := (\<lambda>a. if v \<le> a \<and> a < v + n
          then map_option (\<lambda>x. (fst x, mode)) (ps_views u a) else ps_views u a),
        ps_ranges := VR_Protect v n prot (ps_ranges u), ps_gpu := g'\<rparr>" and r: "r = OK"
      using rest u b MapGpuRange_spec by (fastforce simp: host_protect_def bindR_eq_Inr)
    have s'': "s' = s\<lparr>ps_ranges := VR_Protect v n prot (ps_ranges s), ps_gpu := g', ps_host := ps_host u,
        ps_views := (\<lambda>a. if v \<le> a \<and> a < v + n
          then map_option (\<lambda>x. (fst x, mode)) (ps_views s a) else ps_views s a)\<rparr>"
      using s' fu unfolding g pv by (cases s, cases u) simp
    have vr: "vr_wf (VR_Protect v n prot (ps_ranges s))"
      "view (VR_Protect v n prot (ps_ranges s)) = edit_map v n (\<lambda>k. k\<lparr>r_protection := prot\<rparr>) (view (ps_ranges s))"
      unfolding VR_Protect_def using EditUnlocked_spec [OF I(3) sp(1)] attr_edit_simps(1) by blast+
    have "protected_by v n prot s s'" using span vr(2) unfolding protected_by_def s'' by simp
    then show ?thesis
      using protect_inv [OF inv vr(1) dec span vr(2) s''] r dec unfolding v n by (simp add: Let_def)
  qed
qed

end
