(* ===== verification/MemoryPoolSafety.thy ===== *)
theory MemoryPoolSafety
  imports MemoryPoolSystem
begin

text \<open>
  Sequences of memory pool system calls from the start of the emulator, with any other
  memory system call between them, and what holds in every state they reach.
\<close>

section \<open>The system calls as steps\<close>

lemma Commit_keeps:
  assumes "pool_sys_inv s" and "KernelMemoryPoolCommit ops addr len type prot s = Inr (r, s')"
  shows "pool_sys_inv s'"
  using Commit_spec [OF assms] committed_inv [OF assms(1)] unchanged_inv [OF assms(1)]
  by (auto split: if_splits)

lemma Decommit_keeps:
  "pool_sys_inv s \<Longrightarrow> KernelMemoryPoolDecommit ops addr len s = Inr (r, s') \<Longrightarrow> pool_sys_inv s'"
  using Decommit_spec unfolding decommit_result_def by blast

lemma Mprotect_keeps:
  "pool_sys_inv s \<Longrightarrow> KernelMprotect ops addr len prot s = Inr (r, s') \<Longrightarrow> pool_sys_inv s'"
  using Mprotect_spec by blast

lemma batch_entry_keeps:
  assumes "pool_sys_inv s" and "batch_entry_call ops e s = Inr (r, s')"
  shows "pool_sys_inv s'"
proof (cases e)
  case (PoolProtect addr len prot)
  then show ?thesis using assms Mprotect_keeps by simp
next
  case (PoolTypeProtect addr len prot type)
  then show ?thesis
    using assms Mprotect_keeps by (simp add: KernelMtypeprotect_def)
qed (use assms Commit_keeps Decommit_keeps in auto)

lemma batch_loop_keeps:
  assumes "pool_sys_inv s" and "batch_loop ops es k s = Inr (r, n, s')"
  shows "pool_sys_inv s'"
  using assms
proof (induction es arbitrary: k s)
  case (Cons e es)
  obtain r0 t where t: "batch_entry_call ops e s = Inr (r0, t)"
    and rest: "(if r0 \<noteq> OK then Inr (r0, k, t) else batch_loop ops es (k + 1) t) = Inr (r, n, s')"
    using Cons.prems(2) by (auto simp: bindR_eq_Inr)
  have "pool_sys_inv t" by (rule batch_entry_keeps [OF Cons.prems(1) t])
  then show ?case using rest Cons.IH by (auto split: if_splits)
qed simp

lemma Batch_keeps:
  assumes "pool_sys_inv s" and "KernelMemoryPoolBatch ops entries n ptr s = Inr (r, out, s')"
  shows "pool_sys_inv s'"
  using assms batch_loop_keeps [OF assms(1)]
  by (auto simp: KernelMemoryPoolBatch_def bindR_eq_Inr split: option.splits if_splits)

text \<open>
  The rule \<open>memory_call\<close> is a call on other memory: the ranges of pool memory and the blocks
  of direct memory that are pool expansions are as before.
\<close>

inductive pool_sys_step :: "'g gpu_ops \<Rightarrow> 'g pool_system \<Rightarrow> 'g pool_system \<Rightarrow> bool"
  for ops :: "'g gpu_ops" where
  expand: "KernelMemoryPoolExpand search_start search_end len al ptr s = Inr (r, out, s') \<Longrightarrow>
     pool_sys_step ops s s'"
| release: "KernelReleaseDirectMemory_pool start len s = Inr (r', s') \<Longrightarrow> pool_sys_step ops s s'"
| reserve: "flags AND MAP_FIXED = 0 \<Longrightarrow> addresses_fit len s \<Longrightarrow>
     KernelMemoryPoolReserve rf addr len al flags ptr s = Inr (r, out, s') \<Longrightarrow> pool_sys_step ops s s'"
| commit: "KernelMemoryPoolCommit ops addr len type prot s = Inr (r, s') \<Longrightarrow> pool_sys_step ops s s'"
| decommit: "KernelMemoryPoolDecommit ops addr len s = Inr (r, s') \<Longrightarrow> pool_sys_step ops s s'"
| protect: "KernelMprotect ops addr len prot s = Inr (r, s') \<Longrightarrow> pool_sys_step ops s s'"
| batch: "KernelMemoryPoolBatch ops entries n ptr s = Inr (r, out, s') \<Longrightarrow> pool_sys_step ops s s'"
| memory_call: "pm_inv pm \<Longrightarrow> expansions_ok pm (ps_pool s) \<Longrightarrow> vr_wf rs \<Longrightarrow>
     (\<And>a. pooled_typed rs a = pooled_typed (ps_ranges s) a) \<Longrightarrow>
     (\<And>a. pooled_typed (ps_ranges s) a \<Longrightarrow> view rs a = view (ps_ranges s) a) \<Longrightarrow>
     (\<And>a v. view rs a = Some v \<Longrightarrow> range_ok v) \<Longrightarrow> view rs (U64 - 2) = None \<Longrightarrow>
     s' = s\<lparr>ps_ranges := rs, ps_addresses := as, ps_phys := pm, ps_host := h, ps_calls := cs,
            ps_gpu := g\<rparr> \<Longrightarrow> pool_sys_step ops s s'"

lemma other_fields:
  "pool_sys_inv s \<Longrightarrow> pm_inv pm \<Longrightarrow> expansions_ok pm (ps_pool s) \<Longrightarrow>
     pool_sys_inv (s\<lparr>ps_phys := pm, ps_host := h, ps_calls := cs, ps_gpu := g\<rparr>)"
  by (simp add: pool_sys_inv_def)

lemma pool_sys_step_inv:
  assumes "pool_sys_inv s" and "pool_sys_step ops s s'"
  shows "pool_sys_inv s'"
  using assms(2)
proof cases
  case (expand search_start search_end len al ptr r out)
  then show ?thesis
    using Expand_keeps [OF assms(1), of search_start search_end len al ptr] by force
next
  case (release start len r)
  then show ?thesis using Release_keeps [OF assms(1), of start len] by force
next
  case (reserve flags len rf addr al ptr r out)
  then show ?thesis using Reserve_spec [OF assms(1)] by blast
next
  case (memory_call pm rs g cs h as)
  have "pool_sys_inv (s\<lparr>ps_ranges := rs, ps_addresses := as\<rparr>)"
    using memory_call by (intro ranges_inv [OF assms(1)]) simp_all
  then have "pool_sys_inv (s\<lparr>ps_ranges := rs, ps_addresses := as,
      ps_phys := pm, ps_host := h, ps_calls := cs, ps_gpu := g\<rparr>)"
    by (rule other_fields) (simp_all add: memory_call)
  then show ?thesis using memory_call by simp
qed (fact Commit_keeps [OF assms(1)] Decommit_keeps [OF assms(1)] Batch_keeps [OF assms(1)]
    Mprotect_keeps [OF assms(1)])+

definition pool_sys_started :: "'g pool_system \<Rightarrow> bool" where
  "pool_sys_started s \<longleftrightarrow> (\<exists>answers addresses g. s = pool_system_start answers addresses g)"

interpretation ps: atomic_object pool_sys_started "pool_sys_step ops" pool_sys_inv
  by unfold_locales (auto simp: pool_sys_started_def intro: pool_sys_start pool_sys_step_inv)


section \<open>Counting the bytes of the pool\<close>

lemma card_cover: "separated (map fb m) \<Longrightarrow> card (fl_cover m) = free_bytes m"
proof (induction m)
  case (Cons r m)
  have "{fst r ..< fst r + snd r} \<inter> fl_cover m = {}"
    using Cons.prems by (fastforce simp: separated_Cons fl_cover_set)
  moreover have "finite (fl_cover m)" by (simp add: fl_cover_set)
  ultimately show ?case
    using Cons by (simp add: card_Un_disjoint separated_Cons)
qed simp

lemma card_mphys:
  assumes "pool_inv p"
  shows "card (mphys (pool_mappings p)) = msum (pool_mappings p)"
proof -
  have wf: "ms_wf (pool_mappings p)"
    and inj: "\<And>a b x. mview (pool_mappings p) a = Some x \<Longrightarrow> mview (pool_mappings p) b = Some x \<Longrightarrow> a = b"
    using assms by (auto simp: pool_inv_def)
  have "inj_on (the \<circ> mview (pool_mappings p)) (dom (mview (pool_mappings p)))"
    using inj by (fastforce simp: inj_on_def)
  moreover have "(the \<circ> mview (pool_mappings p)) ` dom (mview (pool_mappings p)) = ran (mview (pool_mappings p))"
    by (force simp: ran_def image_iff)
  ultimately have "card (ran (mview (pool_mappings p))) = card (dom (mview (pool_mappings p)))"
    by (metis card_image)
  then show ?thesis using ran_mview [OF wf] card_dom_mview [OF wf] by simp
qed

lemma pool_bytes:
  assumes "pool_inv p"
  shows "msum (pool_mappings p) + Pool_Available p = card (pool_owned p)"
proof -
  have wf: "fl_wf (pool_free p)" and apart: "fl_cover (pool_free p) \<inter> mphys (pool_mappings p) = {}"
    using assms by (auto simp: pool_inv_def)
  have "Pool_Available p = card (fl_cover (pool_free p))"
    using Pool_Available_exact [OF wf] card_cover wf by (simp add: fl_wf_def)
  moreover have "finite (mphys (pool_mappings p))" by (simp add: mphys_def)
  moreover have "finite (fl_cover (pool_free p))" by (simp add: fl_cover_set)
  ultimately show ?thesis
    using card_mphys [OF assms] apart by (simp add: pool_owned_def card_Un_disjoint)
qed

lemma owned_bound:
  assumes "pool_sys_inv s"
  shows "card (pool_owned (ps_pool s)) \<le> PhysicalSize"
proof -
  note I = pool_sys_invD [OF assms]
  have "pool_owned (ps_pool s) \<subseteq> allocated (ps_phys s)" by (rule owned_allocated [OF I(1,8)])
  then have "pool_owned (ps_pool s) \<subseteq> {0 ..< PhysicalSize}" using pm_invD(4) [OF I(1)] by blast
  from card_mono [OF finite_atLeastLessThan this] show ?thesis by simp
qed

end
