(* ===== verification/MemoryPoolProperties.thy ===== *)
theory MemoryPoolProperties
  imports MemoryPoolSafety
begin

text \<open>
  The properties of the memory pool system calls, with a run of the calls as their witness:
  an expansion of two blocks, a reservation, a commit of both blocks and a change of the
  protection of one page.
\<close>

section \<open>A run\<close>

definition quiet_gpu :: "unit gpu_ops" where
  "quiet_gpu = \<lparr>map_memory = \<lambda>_ _ _ g. Inr g, unmap_memory = \<lambda>_ _ _ g. Inr g,
     is_mapped = \<lambda>_ _ _. True\<rparr>"

definition run_start :: "unit pool_system" where
  "run_start = pool_system_start [] [0x200000000] ()"

definition run_range :: "nat \<Rightarrow> nat \<Rightarrow> prot \<Rightarrow> range_type \<Rightarrow> vrange" where
  "run_range a n p t = \<lparr>r_start = a, r_size = n, r_offset = 0, r_protection = p,
     r_memory_type = 0, r_type = t, r_committed_from_reserved = (t = Pooled),
     r_placeholder_backed = True, r_name = ''anon''\<rparr>"

definition run_mapping :: "nat \<Rightarrow> nat \<Rightarrow> nat \<Rightarrow> pool_mapping" where
  "run_mapping a n p = \<lparr>m_vaddr = a, m_size = n, m_phys = p, m_gpu = GpuReadWrite\<rparr>"

definition run_expanded :: "unit pool_system" where
  "run_expanded =
     \<lparr>ps_phys = \<lparr>pm_physical = [(0, new_block 0 0x20000 0 True)],
        pm_free = [(0x20000, PhysicalSize - 0x20000)], pm_mappings = []\<rparr>,
      ps_pool = \<lparr>pool_free = [(0, 0x20000)], pool_expansions = [(0, 0x20000)], pool_mappings = []\<rparr>,
      ps_ranges = [], ps_committed = 0, ps_views = (\<lambda>_. None), ps_host = [],
      ps_addresses = [0x200000000], ps_calls = [], ps_gpu = ()\<rparr>"

definition run_reserved :: "unit pool_system" where
  "run_reserved = run_expanded\<lparr>ps_ranges := [run_range 0x200000000 0x200000 0 PoolReserved],
     ps_addresses := []\<rparr>"

definition run_committed :: "unit pool_system" where
  "run_committed = run_reserved\<lparr>
     ps_pool := \<lparr>pool_free = [], pool_expansions = [(0, 0x20000)],
        pool_mappings = [run_mapping 0x200000000 0x20000 0]\<rparr>,
     ps_ranges := [run_range 0x200000000 0x20000 0x33 Pooled,
        run_range 0x200020000 0x1e0000 0 PoolReserved],
     ps_committed := 0x20000,
     ps_calls := [AllocCallback 0x200000000 0x20000],
     ps_views := (\<lambda>a. if a \<in> mdom (run_mapping 0x200000000 0x20000 0)
        then Some (translate (run_mapping 0x200000000 0x20000 0) a, VmReadWrite) else None)\<rparr>"

definition run_protected :: "unit pool_system" where
  "run_protected = run_committed\<lparr>
     ps_ranges := [run_range 0x200000000 0x10000 0x33 Pooled,
        run_range 0x200010000 0x4000 0x11 Pooled, run_range 0x200014000 0xc000 0x33 Pooled,
        run_range 0x200020000 0x1e0000 0 PoolReserved],
     ps_views := (\<lambda>a. if 0x200010000 \<le> a \<and> a < 0x200014000
        then map_option (\<lambda>x. (fst x, VmRead)) (ps_views run_committed a)
        else ps_views run_committed a)\<rparr>"

lemmas range_code = VR_Add_def VR_Query_def VR_Remove_def vr_below_def LowerBound_def
  MergeAroundUnlocked_def MergeUnlocked_def RemoveUnlocked_def remove_piece_def AddPiece_def
  sub_range_def mergeable_def joined_def SameMergeKey_def VirtualRangesOverlap_def
  IsReservedRangeType_def IsPooledRangeType_def IsCommittedRangeType_def range_End_def
  U64_def sub64_def add64_def UINT64_MAX_def IsAligned_def Let_def run_range_def

lemma run_expand:
  "KernelMemoryPoolExpand 0 0x40000000 0x20000 0 True run_start = Inr (OK, Some 0, run_expanded)"
  by (simp add: KernelMemoryPoolExpand_def run_start_def pool_system_start_def POOL_PAGE_SIZE_def
      Let_def PM_Alloc_def PM_init_def om_upto_def om_above_def GetAlignedPos_def sub64_def
      U64_def PhysicalSize_def add64_def Pool_Expand_def Pool_init_def AddFreeUnlocked_def
      IsPowerOfTwo_def IsAligned_def run_expanded_def ConsumeFreeRange_def)

lemma run_reserve:
  "KernelMemoryPoolReserve rf 0 0x200000 0 0 True run_expanded
     = Inr (OK, Some 0x200000000, run_reserved)"
  by (simp add: KernelMemoryPoolReserve_def KernelReserveVirtualRange_def run_reserved_def
      run_expanded_def POOL_RESERVE_ALIGNMENT_def MAP_FIXED_def host_address_def range_code)

lemma run_decode: "DecodeMemoryProtection 0x33 = Some (VmReadWrite, GpuReadWrite)"
  "DecodeMemoryProtection 0x11 = Some (VmRead, GpuRead)"
  by (simp_all add: DecodeMemoryProtection_def Let_def prot_has_def prot_any_def prot_defs)

lemma run_commit:
  "KernelMemoryPoolCommit quiet_gpu 0x200000000 0x20000 0 0x33 run_reserved = Inr (OK, run_committed)"
  by (simp add: KernelMemoryPoolCommit_def run_committed_def run_reserved_def run_expanded_def
      POOL_COMMIT_ALIGNMENT_def prot_defs run_decode range_code VR_ConsumeReserved_def
      Pool_Allocate_def host_answer_def host_map_def MapGpuRange_def IsGpuAddressRange_def
      quiet_gpu_def run_mapping_def)
    (simp add: fun_eq_iff run_mapping_def)

lemma run_protect:
  "KernelMprotect quiet_gpu 0x200010000 0x4000 0x11 run_committed = Inr (OK, run_protected)"
  by (simp add: KernelMprotect_def page_floor_def MPROTECT_PAGE_SIZE_def run_protected_def
      run_committed_def run_reserved_def run_expanded_def run_decode range_code VR_QuerySpan_def
      protect_unmap_gpu_def GetGpuAccessMode_def UnmapGpuRange_def host_protect_def
      VR_Protect_def EditUnlocked_def edit_piece_def host_answer_def MapGpuRange_def
      IsGpuAddressRange_def quiet_gpu_def run_mapping_def)
    (simp add: fun_eq_iff run_mapping_def run_committed_def)

lemma run_started: "pool_sys_started run_start"
  by (auto simp: pool_sys_started_def run_start_def)

lemma run_steps:
  "(pool_sys_step quiet_gpu)\<^sup>*\<^sup>* run_start run_expanded"
  "(pool_sys_step quiet_gpu)\<^sup>*\<^sup>* run_start run_reserved"
  "(pool_sys_step quiet_gpu)\<^sup>*\<^sup>* run_start run_committed"
  "(pool_sys_step quiet_gpu)\<^sup>*\<^sup>* run_start run_protected"
proof -
  show 1: "(pool_sys_step quiet_gpu)\<^sup>*\<^sup>* run_start run_expanded"
    by (rule r_into_rtranclp) (rule pool_sys_step.expand [OF run_expand])
  have "addresses_fit 0x200000 run_expanded"
    by (simp add: addresses_fit_def run_expanded_def U64_def)
  then show 2: "(pool_sys_step quiet_gpu)\<^sup>*\<^sup>* run_start run_reserved"
    by (intro rtranclp.rtrancl_into_rtrancl [OF 1]) (rule pool_sys_step.reserve [OF _ _ run_reserve], simp_all)
  show 3: "(pool_sys_step quiet_gpu)\<^sup>*\<^sup>* run_start run_committed"
    by (rule rtranclp.rtrancl_into_rtrancl [OF 2]) (rule pool_sys_step.commit [OF run_commit])
  show "(pool_sys_step quiet_gpu)\<^sup>*\<^sup>* run_start run_protected"
    by (rule rtranclp.rtrancl_into_rtrancl [OF 3]) (rule pool_sys_step.protect [OF run_protect])
qed


section \<open>Properties\<close>

text \<open>
  C3. After any sequence of memory pool calls, protection changes and calls on other memory, and
  whatever the host answers, the host shows exactly the committed pool memory: an address is
  visible if and only if its range is pooled, with the protection of the range and the byte
  of direct memory the pool translates it to. No byte shows at two addresses, and none
  of them is free, in the pool or in the direct memory.
\<close>
theorem pool_system_coherent:
  assumes "pool_sys_started s0" and "(pool_sys_step ops)\<^sup>*\<^sup>* s0 s"
  shows "(ps_views s a = Some (d, m) \<longleftrightarrow> (\<exists>v gpu. view (ps_ranges s) a = Some v \<and> r_type v = Pooled
       \<and> DecodeMemoryProtection (r_protection v) = Some (m, gpu)
       \<and> mview (pool_mappings (ps_pool s)) a = Some d))
    \<and> (ps_views s a \<noteq> None \<longleftrightarrow> pooled_typed (ps_ranges s) a)
    \<and> (ps_views s a = Some (d, m) \<and> ps_views s b = Some (d, k) \<longrightarrow> a = b)
    \<and> (ps_views s a = Some (d, m) \<longrightarrow> d < PhysicalSize
         \<and> d \<notin> fl_cover (pool_free (ps_pool s)) \<and> d \<notin> free_memory (ps_phys s))"
proof -
  have inv: "pool_sys_inv s" using ps.reach_inv [OF assms] .
  note I = pool_sys_invD [OF inv]
  let ?ms = "pool_mappings (ps_pool s)"
  have wf: "ms_wf ?ms" and inj: "\<And>a b x. mview ?ms a = Some x \<Longrightarrow> mview ?ms b = Some x \<Longrightarrow> a = b"
    and apart: "mphys ?ms \<inter> fl_cover (pool_free (ps_pool s)) = {}"
    using I(2) unfolding pool_inv_def by blast+
  have dec: "DecodeMemoryProtection (r_protection v) \<noteq> None"
    if "view (ps_ranges s) b = Some v" "r_type v = Pooled" for b v
    using I(5) [OF that(1)] that(2) by (simp add: range_ok_def)
  have pooled: "\<exists>v. view (ps_ranges s) b = Some v \<and> r_type v = Pooled" if "mview ?ms b = Some x" for b x
    using I(4) [of b] that unfolding pooled_typed_def by auto
  have shows_iff: "ps_views s b = Some (x, k) \<longleftrightarrow> (\<exists>v gpu. view (ps_ranges s) b = Some v \<and> r_type v = Pooled
       \<and> DecodeMemoryProtection (r_protection v) = Some (k, gpu) \<and> mview ?ms b = Some x)" for b x k
    using pooled [of b] unfolding I(6) pool_view_def by (force split: option.splits)
  have "ps_views s a \<noteq> None \<longleftrightarrow> pooled_typed (ps_ranges s) a"
    using I(4) [of a] dec [of a] pooled [of a] unfolding I(6) pool_view_def pooled_typed_def
    by (fastforce split: option.splits)
  moreover have "d < PhysicalSize \<and> d \<notin> fl_cover (pool_free (ps_pool s)) \<and> d \<notin> free_memory (ps_phys s)"
    if "ps_views s a = Some (d, m)"
  proof -
    have "d \<in> mphys ?ms" using that shows_iff mview_in_phys [OF wf] by blast
    moreover from this have "d \<in> allocated (ps_phys s)"
      using owned_allocated [OF I(1,8)] by (auto simp: pool_owned_def)
    then have "d \<in> {0 ..< PhysicalSize}" "d \<notin> free_memory (ps_phys s)"
      using pm_invD(3,4) [OF I(1)] by blast+
    ultimately show ?thesis using apart by auto
  qed
  ultimately show ?thesis using shows_iff inj by blast
qed

theorem pool_system_coherent_witness:
  "ps_views run_protected 0x200010001 = Some (0x10001, VmRead) \<and> 0x10001 \<notin> free_memory (ps_phys run_protected)"
proof -
  have v: "ps_views run_protected 0x200010001 = Some (0x10001, VmRead)"
    by (simp add: run_protected_def run_committed_def mdom_def run_mapping_def translate_def)
  then show ?thesis
    using pool_system_coherent [OF run_started run_steps(4), of "0x200010001" "0x10001" VmRead] by blast
qed




text \<open>
  C4. A commit is a transaction over the ranges, the pool, the host and the counter: when it
  does not return \<open>OK\<close>, whatever call of the host failed, the guest sees nothing changed.
  When it does, the whole span was reserved for the pool and now shows bytes that were free
  in the pool, with the wanted protection; every other address is as before and the
  counter has grown by the length.
\<close>
theorem pool_commit_atomic:
  assumes "pool_sys_started s0" and "(pool_sys_step ops)\<^sup>*\<^sup>* s0 s"
    and "KernelMemoryPoolCommit ops addr len type prot s = Inr (r, s')"
  shows "(r \<noteq> OK \<longrightarrow> view (ps_ranges s') = view (ps_ranges s) \<and> ps_views s' = ps_views s
       \<and> ps_pool s' = ps_pool s \<and> ps_phys s' = ps_phys s \<and> ps_committed s' = ps_committed s
       \<and> ps_calls s' = ps_calls s \<and> ps_gpu s' = ps_gpu s)
    \<and> (r = OK \<longrightarrow> ps_committed s' = ps_committed s + len
       \<and> (\<forall>a\<in>{addr ..< addr + len}. (\<exists>v. view (ps_ranges s) a = Some v \<and> r_type v = PoolReserved)
            \<and> pooled_typed (ps_ranges s') a
            \<and> (\<exists>d m g. DecodeMemoryProtection prot = Some (m, g) \<and> ps_views s' a = Some (d, m)
                \<and> d \<in> fl_cover (pool_free (ps_pool s))))
       \<and> (\<forall>a. a \<notin> {addr ..< addr + len} \<longrightarrow>
            view (ps_ranges s') a = view (ps_ranges s) a \<and> ps_views s' a = ps_views s a))"
proof -
  have inv: "pool_sys_inv s" using ps.reach_inv [OF assms(1,2)] .
  note I = pool_sys_invD [OF inv]
  show ?thesis
  proof (cases "r = OK")
    case False
    then have "unchanged s s'" using Commit_spec [OF inv assms(3)] by simp
    then show ?thesis using False by (auto simp: unchanged_def)
  next
    case True
    then have com: "committed_by ops addr len type prot s s'" using Commit_spec [OF inv assms(3)] by simp
    note I' = pool_sys_invD [OF committed_inv [OF inv com]]
    obtain mode gpu ms nm ph where pos: "0 < addr" "0 < len" "addr + len < U64 - 1"
      and dec: "DecodeMemoryProtection prot = Some (mode, gpu)"
      and span: "\<forall>a\<in>{addr ..< addr + len}. view (ps_ranges s) a = Some (reserved_attr nm ph)"
      and alloc: "Pool_Allocate addr len gpu (ps_pool s) = (Some ms, ps_pool s')"
      and view': "view (ps_ranges s') = put_map addr len
            (added_attr addr 0 prot type Pooled (Some nm) True ph) (view (ps_ranges s))"
      and views': "ps_views s' = show_all mode ms (ps_views s)"
      using com unfolding committed_by_def by blast
    have in64: "addr + len < U64" using pos(3) by simp
    have "\<not> pooled_typed (ps_ranges s) a" if "a \<in> {addr ..< addr + len}" for a
      using span that by (simp add: pooled_typed_def reserved_attr_def)
    then have free: "\<forall>a\<in>{addr ..< addr + len}. mview (pool_mappings (ps_pool s)) a = None"
      using I(4) by blast
    note al = Pool_Allocate_spec [OF I(2) pos(1,2) in64 free alloc, unfolded option.case]
    have ms: "tiles addr ms" "msum ms = len" "ms_wf ms" "mphys ms \<subseteq> fl_cover (pool_free (ps_pool s))"
      "pool_mappings (ps_pool s') = pool_mappings (ps_pool s) @ ms" using al by blast+
    have tw: "mview ms a \<noteq> None \<longleftrightarrow> a \<in> {addr ..< addr + len}" for a
      using tiles_wf [OF ms(1)] ms(2,3) by (auto simp: ms_wf_def)
    have "ps_committed s' = ps_committed s + len" using I(7) I'(7) ms(2,5) by simp
    moreover have "(\<exists>v. view (ps_ranges s) a = Some v \<and> r_type v = PoolReserved)
        \<and> pooled_typed (ps_ranges s') a
        \<and> (\<exists>d m g. DecodeMemoryProtection prot = Some (m, g) \<and> ps_views s' a = Some (d, m)
            \<and> d \<in> fl_cover (pool_free (ps_pool s)))" if a: "a \<in> {addr ..< addr + len}" for a
    proof -
      obtain d where d: "mview ms a = Some d" using tw a by blast
      then have "d \<in> fl_cover (pool_free (ps_pool s))" using mview_in_phys [OF ms(3) d] ms(4) by blast
      moreover have "pooled_typed (ps_ranges s') a"
        using a by (simp add: pooled_typed_def view' put_map_def added_attr_def)
      ultimately show ?thesis
        using span a d dec by (simp add: views' show_all_def reserved_attr_def)
    qed
    moreover have "view (ps_ranges s') a = view (ps_ranges s) a \<and> ps_views s' a = ps_views s a"
      if a: "a \<notin> {addr ..< addr + len}" for a
    proof -
      have "mview ms a = None" using tw a by blast
      then show ?thesis using a by (auto simp: view' put_map_def views' show_all_def)
    qed
    ultimately show ?thesis using True by blast
  qed
qed

theorem pool_commit_atomic_witness:
  "(\<exists>d. ps_views run_committed 0x200000000 = Some (d, VmReadWrite) \<and> d \<in> {0 ..< 0x20000})
     \<and> ps_committed run_committed = 0x20000"
proof -
  have z: "ps_committed run_reserved = 0" "fl_cover (pool_free (ps_pool run_reserved)) = {0 ..< 0x20000}"
    by (simp_all add: run_reserved_def run_expanded_def)
  have a: "0x200000000 \<in> {0x200000000 ..< 0x200000000 + 0x20000 :: nat}" by simp
  note p = pool_commit_atomic [OF run_started run_steps(2) run_commit]
  then have "ps_committed run_committed = ps_committed run_reserved + 0x20000" by blast
  moreover have "\<exists>d m g. DecodeMemoryProtection 0x33 = Some (m, g)
      \<and> ps_views run_committed 0x200000000 = Some (d, m) \<and> d \<in> fl_cover (pool_free (ps_pool run_reserved))"
    using p a by blast
  ultimately show ?thesis using z run_decode by auto
qed


lemma map_pooled_quiet:
  "ps_host s = [] \<Longrightarrow> \<exists>t. map_pooled mode ms mapped s = (True, mapped @ ms, t)"
proof (induction ms arbitrary: mapped s)
  case (Cons m ms)
  obtain t where t: "host_map m mode s = (True, t)" "ps_host t = []"
    using Cons.prems by (simp add: host_map_def host_answer_def)
  show ?case using Cons.IH [OF t(2), of "mapped @ [m]"] t(1) Cons.prems by (simp add: host_answer_def)
qed simp

text \<open>
  C8. A commit succeeds when it can: inside one range reserved for the pool, with a protection that
  decodes, enough free bytes in the pool, a host that answers and a GPU side that takes the
  range, it returns \<open>OK\<close>.
\<close>
theorem pool_commit_succeeds:
  assumes "pool_sys_started s0" and "(pool_sys_step ops)\<^sup>*\<^sup>* s0 s"
    and "ps_host s = []" and "0 < addr" and "0 < len" and "IsAligned len POOL_COMMIT_ALIGNMENT"
    and "prot AND PROT_CPU_EXEC = 0" and "DecodeMemoryProtection prot = Some (mode, gpu)"
    and "q \<in> set (ps_ranges s)" and "r_type q = PoolReserved" and "r_start q \<le> addr"
    and "addr + len \<le> r_start q + r_size q" and "len \<le> Pool_Available (ps_pool s)"
    and "gpu = GpuNoAccess \<or> IsGpuAddressRange addr len
       \<and> map_memory ops addr len (gpu_access_of gpu) (ps_gpu s) = Inr g"
  shows "\<exists>s'. KernelMemoryPoolCommit ops addr len type prot s = Inr (OK, s')"
proof -
  have inv: "pool_sys_inv s" using ps.reach_inv [OF assms(1,2)] .
  note I = pool_sys_invD [OF inv]
  have ok: "vr_ok q" using assms(9) I(3) by (simp add: vr_wf_def)
  then have in64: "addr + len < U64" using assms(12) by (simp add: vr_ok_def)
  have query: "VR_Query addr 0 (ps_ranges s) = Some q"
    using assms(5,9,11,12) by (subst VR_Query_Some [OF I(3)]) (simp add: vr_dom_def)
  have "range_End addr len \<le> r_end q"
    using assms(12) in64 ok by (simp add: range_End_exact vr_ok_end)
  then have "\<exists>r\<in>set (ps_ranges s). r_type r = PoolReserved \<and> r_start r \<le> addr
      \<and> range_End addr len \<le> r_end r" using assms(9-11) by blast
  then obtain rs where con: "VR_ConsumeReserved addr len PoolReserved (ps_ranges s) = (True, rs)"
    unfolding VR_ConsumeReserved_def by simp
  note span = consume_reserved_span [OF inv query assms(10,5) con]
  have "\<not> pooled_typed (ps_ranges s) a" if "a \<in> {addr ..< addr + len}" for a
    using span(5) that by (simp add: pooled_typed_def reserved_attr_def)
  then have free: "\<forall>a\<in>{addr ..< addr + len}. mview (pool_mappings (ps_pool s)) a = None"
    using I(4) by blast
  obtain m p where alloc: "Pool_Allocate addr len gpu (ps_pool s) = (m, p)" by fastforce
  have "Pool_Available (ps_pool s) = free_bytes (pool_free (ps_pool s))"
    using I(2) by (intro Pool_Available_exact) (simp add: pool_inv_def)
  then obtain ms where ms: "m = Some ms"
    using Pool_Allocate_spec [OF I(2) assms(4,5) in64 free alloc] assms(13) by (cases m) auto
  then have wf: "ms_wf ms" using Pool_Allocate_spec [OF I(2) assms(4,5) in64 free alloc] by simp
  obtain t where t: "map_pooled mode ms [] (s\<lparr>ps_ranges := rs, ps_pool := p\<rparr>) = (True, ms, t)"
    using map_pooled_quiet [of "s\<lparr>ps_ranges := rs, ps_pool := p\<rparr>" mode ms "[]"] assms(3) by auto
  have fr: "host_frame (s\<lparr>ps_ranges := rs, ps_pool := p\<rparr>) t"
    using map_pooled_spec [OF t wf] by blast
  have tr: "ps_ranges t = rs" "ps_gpu t = ps_gpu s" using host_frameD [OF fr] by simp_all
  obtain ok' rs' where add: "VR_Add addr len 0 prot type Pooled (Some (r_name q)) True
      (r_placeholder_backed q) rs = (ok', rs')" by fastforce
  have "free_span addr len (view rs)" unfolding span(3) by (rule free_erased)
  then have "ok'" using VR_Add_spec [OF span(2) in64 add] assms(4,5) by simp
  moreover obtain u where "MapGpuRange ops addr len gpu (t\<lparr>ps_ranges := rs'\<rparr>) = Inr u"
    using assms(14) tr(2) that by (cases "gpu = GpuNoAccess") (simp_all add: MapGpuRange_def)
  ultimately show ?thesis
    using assms(4-8,10) query con alloc ms t add tr
    by (simp add: KernelMemoryPoolCommit_def Let_def)
qed

theorem pool_commit_succeeds_witness:
  "\<exists>s'. KernelMemoryPoolCommit quiet_gpu 0x200010000 0x10000 3 0x33 run_reserved = Inr (OK, s')"
proof (rule pool_commit_succeeds [OF run_started run_steps(2)])
  show "run_range 0x200000000 0x200000 0 PoolReserved \<in> set (ps_ranges run_reserved)"
    by (simp add: run_reserved_def)
  show "DecodeMemoryProtection 0x33 = Some (VmReadWrite, GpuReadWrite)" by (rule run_decode)
  show "GpuReadWrite = GpuNoAccess \<or> IsGpuAddressRange 0x200010000 0x10000
      \<and> map_memory quiet_gpu 0x200010000 0x10000 (gpu_access_of GpuReadWrite) (ps_gpu run_reserved) = Inr ()"
    by (simp add: IsGpuAddressRange_def quiet_gpu_def)
qed (simp_all add: run_reserved_def run_expanded_def run_range_def IsAligned_def POOL_COMMIT_ALIGNMENT_def
    prot_defs Pool_Available_def add64_def U64_def)






text \<open>A decommit inside one committed range is a single chunk.\<close>

lemma Decommit_single:
  assumes inv: "pool_sys_inv s" and old: "old \<in> set (ps_ranges s)" "r_type old = Pooled"
    and pos: "0 < addr" "0 < len" and al: "IsAligned len POOL_COMMIT_ALIGNMENT"
    and ins: "r_start old \<le> addr" "addr + len \<le> r_start old + r_size old"
  shows "KernelMemoryPoolDecommit ops addr len s = decommit_chunk ops addr len old s"
proof -
  note I = pool_sys_invD [OF inv]
  have ok: "vr_ok old" using old(1) I(3) by (simp add: vr_wf_def)
  then have in64: "addr + len < U64" using ins(2) by (simp add: vr_ok_def)
  have "view (ps_ranges s) a = Some (attr_at old a)" if "addr \<le> a" "a < addr + len" for a
    using that ins by (intro view_member [OF I(3) old(1)]) (auto simp: vr_dom_def)
  then have "pool_span addr (addr + len) (view (ps_ranges s))"
    using old(2) by (simp add: pool_span_def attr_at_def IsPooledRangeType_def)
  then have scan: "decommit_scan (add64 addr len) addr (ps_ranges s)"
    using decommit_scan_iff [OF I(3)] add64_exact [OF in64] by simp
  have q: "VR_Query addr 0 (ps_ranges s) = Some old"
    using old(1) ins pos by (subst VR_Query_Some [OF I(3)]) (auto simp: vr_dom_def)
  have "sub64 addr (r_start old) = addr - r_start old"
    using ins in64 by (intro sub64_exact) simp_all
  moreover have "sub64 (r_size old) (addr - r_start old) = r_size old - (addr - r_start old)"
    using ins ok by (intro sub64_exact) (simp_all add: vr_ok_def)
  ultimately have len: "decommit_length addr len old = len"
    using ins by (simp add: decommit_length_def)
  have "\<not> UINT64_MAX - addr < len" using in64 pos by (simp add: UINT64_MAX_def U64_def)
  then show ?thesis
    using pos al scan q old(2) len
    by (subst KernelMemoryPoolDecommit.simps) (simp add: Let_def)
qed

text \<open>
  C5. Commit followed by decommit of the same span: the decommit succeeds, and the views, the
  translations, the counter and the free bytes of the pool are what they were before the
  commit; so are the ranges, except that the span is backed by a placeholder from then on.
\<close>
theorem pool_commit_decommit_roundtrip:
  assumes "pool_sys_started s0" and "(pool_sys_step ops)\<^sup>*\<^sup>* s0 s"
    and "KernelMemoryPoolCommit ops addr len type prot s = Inr (OK, t)"
    and "KernelMemoryPoolDecommit ops addr len t = Inr (r, u)"
  shows "r = OK \<and> ps_views u = ps_views s \<and> ps_committed u = ps_committed s \<and> ps_phys u = ps_phys s
    \<and> mview (pool_mappings (ps_pool u)) = mview (pool_mappings (ps_pool s))
    \<and> fl_cover (pool_free (ps_pool u)) = fl_cover (pool_free (ps_pool s))
    \<and> view (ps_ranges u) = edit_map addr len (\<lambda>v. v\<lparr>r_placeholder_backed := True\<rparr>) (view (ps_ranges s))"
proof -
  have inv: "pool_sys_inv s" using ps.reach_inv [OF assms(1,2)] .
  have com: "committed_by ops addr len type prot s t" using Commit_spec [OF inv assms(3)] by simp
  have ti: "pool_sys_inv t" by (rule committed_inv [OF inv com])
  note I = pool_sys_invD [OF inv] and T = pool_sys_invD [OF ti]
  obtain mode gpu ms nm ph where pos: "0 < addr" "0 < len" "addr + len < U64 - 1" and nm: "name_ok nm"
    and span: "\<forall>a\<in>{addr ..< addr + len}. view (ps_ranges s) a = Some (reserved_attr nm ph)"
    and alloc: "Pool_Allocate addr len gpu (ps_pool s) = (Some ms, ps_pool t)"
    and view': "view (ps_ranges t) = put_map addr len
          (added_attr addr 0 prot type Pooled (Some nm) True ph) (view (ps_ranges s))"
    and ph: "ps_phys t = ps_phys s"
    using com unfolding committed_by_def by blast
  obtain q where al: "IsAligned len POOL_COMMIT_ALIGNMENT"
    and q: "q \<in> set (ps_ranges t)" "r_start q \<le> addr" "addr + len \<le> r_start q + r_size q"
    using com unfolding committed_by_def by blast
  have in64: "addr + len < U64" using pos(3) by simp
  have "\<not> pooled_typed (ps_ranges s) a" if "a \<in> {addr ..< addr + len}" for a
    using span that by (simp add: pooled_typed_def reserved_attr_def)
  then have free: "\<forall>a\<in>{addr ..< addr + len}. mview (pool_mappings (ps_pool s)) a = None"
    using I(4) by blast
  note A = Pool_Allocate_spec [OF I(2) pos(1,2) in64 free alloc, unfolded option.case]
  have "view (ps_ranges t) addr = Some (attr_at q addr)"
    using q pos by (intro view_member [OF T(3) q(1)]) (auto simp: vr_dom_def)
  then have "attr_at q addr = added_attr addr 0 prot type Pooled (Some nm) True ph addr"
    using pos by (simp add: view' put_map_def)
  then have "r_type (attr_at q addr) = Pooled" by (simp add: added_attr_def)
  then have qt: "r_type q = Pooled" by (simp add: attr_at_def)
  have "decommit_chunk ops addr len q t = Inr (r, u)"
    using assms(4) Decommit_single [OF ti q(1) qt pos(1,2) al q(2,3)] by simp
  from chunk_spec [OF ti q(1) qt pos(1,2) q(2,3) this]
  have r: "r = OK" and ui: "pool_sys_inv u" and d: "decommitted addr len t u" by blast+
  note U = pool_sys_invD [OF ui]
  have m: "mview (pool_mappings (ps_pool u)) a = mview (pool_mappings (ps_pool s)) a" for a
  proof (cases "addr \<le> a \<and> a < addr + len")
    case True
    then show ?thesis using d free unfolding decommitted_def by simp
  next
    case False
    have "tiles addr ms" "msum ms = len" "ms_wf ms" using A by blast+
    then have "mview ms a \<noteq> None \<longleftrightarrow> addr \<le> a \<and> a < addr + len"
      using tiles_wf [of addr ms] by (auto simp: ms_wf_def)
    then have "mview ms a = None" using False by blast
    moreover have "pool_mappings (ps_pool t) = pool_mappings (ps_pool s) @ ms" using A by blast
    ultimately have "mview (pool_mappings (ps_pool t)) a = mview (pool_mappings (ps_pool s)) a"
      by (simp add: mview_append split: option.splits)
    moreover have "mview (pool_mappings (ps_pool u)) a = mview (pool_mappings (ps_pool t)) a"
      using d False unfolding decommitted_def by presburger
    ultimately show ?thesis by simp
  qed
  have v: "view (ps_ranges u) a = edit_map addr len (\<lambda>v. v\<lparr>r_placeholder_backed := True\<rparr>) (view (ps_ranges s)) a" for a
  proof (cases "addr \<le> a \<and> a < addr + len")
    case True
    then have "view (ps_ranges u) a = map_option freed (view (ps_ranges t) a)"
      using d unfolding decommitted_def by presburger
    then show ?thesis
      using True span nm by (simp add: view' put_map_def edit_map_def freed_def added_attr_def reserved_attr_def name_ok_def)
  next
    case False
    then have "view (ps_ranges u) a = view (ps_ranges t) a"
      using d unfolding decommitted_def by presburger
    then show ?thesis using False by (auto simp: view' put_map_def edit_map_def)
  qed
  have "ps_views u a = ps_views s a" for a
    using m [of a] v [of a] unfolding I(6) U(6)
    by (auto simp: pool_view_def edit_map_def split: option.splits)
  moreover have "ps_committed u = ps_committed s"
    using I(2,7) U(2,7) m card_dom_mview by (metis ext pool_inv_def)
  moreover have "fl_cover (pool_free (ps_pool u)) = fl_cover (pool_free (ps_pool s))"
  proof -
    have "ps_phys u = ps_phys s" using d ph by (simp add: decommitted_def)
    then have "pool_owned (ps_pool u) = pool_owned (ps_pool s)"
      using I(8) U(8) unfolding expansions_ok_def by simp
    moreover have "mphys (pool_mappings (ps_pool u)) = mphys (pool_mappings (ps_pool s))"
      using ran_mview I(2) U(2) m by (metis ext pool_inv_def)
    moreover have "fl_cover (pool_free p) = pool_owned p - mphys (pool_mappings p)"
      if "pool_inv p" for p using that by (auto simp: pool_owned_def pool_inv_def)
    ultimately show ?thesis using I(2) U(2) by simp
  qed
  ultimately show ?thesis
    using r m v d ph by (auto simp: decommitted_def)
qed


lemma run_decommit_all:
  "\<exists>s. KernelMemoryPoolDecommit quiet_gpu 0x200000000 0x20000 run_committed = Inr (OK, s)"
proof -
  have "query_loop [run_mapping 0x200000000 0x20000 0] 0x200020000 0x200000000
     = Some [run_mapping 0x200000000 0x20000 0]"
    by (subst query_loop.simps, subst query_loop.simps)
      (simp add: run_mapping_def m_end_def add64_def sub64_def U64_def Let_def)
  note q = this [unfolded run_mapping_def]
  show ?thesis
    by (subst KernelMemoryPoolDecommit.simps, subst decommit_scan.simps, subst decommit_scan.simps)
      (simp add: run_committed_def run_reserved_def run_expanded_def POOL_COMMIT_ALIGNMENT_def
        decommit_length_def range_code decommit_chunk_def Pool_Query_def run_decode UnmapGpuRange_def
        IsGpuAddressRange_def quiet_gpu_def UnmapPooledBackingTransactional_def run_mapping_def
        host_unmap_def host_answer_def reserve_removed_def Pool_Release_def q keep_piece_def m_end_def
        AddFreeUnlocked_def readd_reserved_def)
qed

theorem pool_commit_decommit_roundtrip_witness:
  "\<exists>u. KernelMemoryPoolDecommit quiet_gpu 0x200000000 0x20000 run_committed = Inr (OK, u)
     \<and> ps_committed u = 0 \<and> fl_cover (pool_free (ps_pool u)) = {0 ..< 0x20000}
     \<and> ps_views u 0x200000000 = None"
proof -
  obtain u where u: "KernelMemoryPoolDecommit quiet_gpu 0x200000000 0x20000 run_committed = Inr (OK, u)"
    using run_decommit_all by blast
  note p = pool_commit_decommit_roundtrip [OF run_started run_steps(2) run_commit u]
  have "ps_committed run_reserved = 0" "fl_cover (pool_free (ps_pool run_reserved)) = {0 ..< 0x20000}"
    "ps_views run_reserved = (\<lambda>_. None)"
    by (simp_all add: run_reserved_def run_expanded_def)
  then show ?thesis using p u by simp
qed

text \<open>
  C9. \<open>KernelMprotect\<close> on pool memory: the host then enforces the decoded protection on every
  committed byte of the pages that the span touches, and the byte shown at an address never
  changes; other addresses keep their protection, and a refused call changes nothing.
\<close>
theorem pool_mprotect_enforced:
  assumes "pool_sys_started s0" and "(pool_sys_step ops)\<^sup>*\<^sup>* s0 s"
    and "KernelMprotect ops addr len prot s = Inr (r, s')"
  shows "(r = OK \<longrightarrow> (\<forall>a. ps_views s' a =
       (if page_floor addr \<le> a \<and> a < page_floor addr
             + page_floor (len + (addr - page_floor addr) + (MPROTECT_PAGE_SIZE - 1))
        then map_option (\<lambda>x. (fst x, fst (the (DecodeMemoryProtection prot)))) (ps_views s a)
        else ps_views s a)))
    \<and> (r \<noteq> OK \<longrightarrow> r = KERNEL_ERROR_EINVAL \<and> s' = s)"
proof -
  have inv: "pool_sys_inv s" using ps.reach_inv [OF assms(1,2)] .
  note spec = Mprotect_spec [OF inv assms(3)]
  then have inv': "pool_sys_inv s'" by blast
  note I = pool_sys_invD [OF inv] and I' = pool_sys_invD [OF inv']
  let ?v = "page_floor addr"
  let ?n = "page_floor (len + (addr - page_floor addr) + (MPROTECT_PAGE_SIZE - 1))"
  show ?thesis
  proof (cases "r = OK")
    case False
    then show ?thesis using spec by simp
  next
    case True
    then have d: "?n = 0 \<and> s' = s \<or> DecodeMemoryProtection prot \<noteq> None \<and> protected_by ?v ?n prot s s'"
      using spec by (simp add: Let_def)
    have "ps_views s' a = (if ?v \<le> a \<and> a < ?v + ?n
        then map_option (\<lambda>x. (fst x, fst (the (DecodeMemoryProtection prot)))) (ps_views s a)
        else ps_views s a)" for a
    proof (cases "?n = 0 \<and> s' = s")
      case False
      then obtain m g where dec: "DecodeMemoryProtection prot = Some (m, g)"
        and v: "view (ps_ranges s') = edit_map ?v ?n (\<lambda>k. k\<lparr>r_protection := prot\<rparr>) (view (ps_ranges s))"
        and p: "ps_pool s' = ps_pool s"
        using d unfolding protected_by_def by auto
      show ?thesis
      proof (cases "mview (pool_mappings (ps_pool s)) a")
        case None
        then show ?thesis unfolding I(6) I'(6) p by (simp add: pool_view_def split: option.splits)
      next
        case (Some x)
        then obtain k where k: "view (ps_ranges s) a = Some k" "r_type k = Pooled"
          using I(4) [of a] unfolding pooled_typed_def by auto
        then have "DecodeMemoryProtection (r_protection k) \<noteq> None"
          using I(5) [OF k(1)] by (simp add: range_ok_def)
        then show ?thesis
          using Some k dec unfolding I(6) I'(6) p by (auto simp: pool_view_def v edit_map_def)
      qed
    next
      case True
      then have "\<not> (?v \<le> a \<and> a < ?v + ?n)" "s' = s" by auto
      then show ?thesis by (simp only: if_False)
    qed
    then show ?thesis using True by simp
  qed
qed

theorem pool_mprotect_enforced_witness:
  "ps_views run_protected 0x200013fff = Some (0x13fff, VmRead)
     \<and> ps_views run_protected 0x200014000 = Some (0x14000, VmReadWrite)"
proof -
  have n: "page_floor 0x200010000 = 0x200010000"
    "page_floor (0x4000 + (0x200010000 - 0x200010000) + (MPROTECT_PAGE_SIZE - 1)) = 0x4000"
    by (simp_all add: page_floor_def MPROTECT_PAGE_SIZE_def)
  have "ps_views run_committed 0x200013fff = Some (0x13fff, VmReadWrite)"
    "ps_views run_committed 0x200014000 = Some (0x14000, VmReadWrite)"
    by (simp_all add: run_committed_def mdom_def run_mapping_def translate_def)
  then show ?thesis
    using pool_mprotect_enforced [OF run_started run_steps(3) run_protect] n run_decode(2) by simp
qed

text \<open>
  The pool branch of \<open>KernelReleaseDirectMemory\<close> never reaches its fatal exit. It succeeds
  exactly on a whole expansion none of whose bytes is mapped, and then moves those bytes from
  the pool to the free direct memory; otherwise nothing has changed.
\<close>
theorem pool_release_exact:
  assumes "pool_sys_started s0" and "(pool_sys_step ops)\<^sup>*\<^sup>* s0 s"
  shows "\<exists>r s'. KernelReleaseDirectMemory_pool start len s = Inr (r, s')
    \<and> (r = Some OK \<longleftrightarrow> 0 \<le> start \<and> (nat start, len) \<in> set (pool_expansions (ps_pool s))
         \<and> {nat start ..< nat start + len} \<inter> mphys (pool_mappings (ps_pool s)) = {})
    \<and> (if r = Some OK
       then free_memory (ps_phys s') = free_memory (ps_phys s) \<union> {nat start ..< nat start + len}
         \<and> pool_owned (ps_pool s') = pool_owned (ps_pool s) - {nat start ..< nat start + len}
       else s' = s)"
  using Release_keeps [OF ps.reach_inv [OF assms], of start len] by blast

theorem pool_release_exact_witness:
  "(\<exists>s. KernelReleaseDirectMemory_pool 0 0x20000 run_reserved = Inr (Some OK, s)
       \<and> pool_owned (ps_pool s) = {})
     \<and> (\<exists>r. KernelReleaseDirectMemory_pool 0 0x20000 run_committed = Inr (r, run_committed))"
proof -
  have a: "(nat 0, 0x20000) \<in> set (pool_expansions (ps_pool run_reserved))"
    "mphys (pool_mappings (ps_pool run_reserved)) = {}"
    "pool_owned (ps_pool run_reserved) = {0 ..< 0x20000}"
    "mphys (pool_mappings (ps_pool run_committed)) = {0 ..< 0x20000}"
    by (simp_all add: run_reserved_def run_expanded_def run_committed_def pool_owned_def run_mapping_def)
  have "{nat 0 ..< nat 0 + 0x20000} \<inter> {0 ..< 0x20000 :: nat} \<noteq> {}" by simp
  then show ?thesis
    using pool_release_exact [OF run_started run_steps(2), of 0 "0x20000"]
      pool_release_exact [OF run_started run_steps(3), of 0 "0x20000"] a
    by (auto split: if_splits)
qed



text \<open>
  A pool reservation that the host places right behind a plain reservation is refused with
  \<open>EBUSY\<close>, because the new range has merged with its neighbour, and leaves its addresses
  reserved although the caller gets no address for them.
\<close>
lemma pool_reserve_leaks:
  "\<exists>s s'. KernelReserveVirtualRange rf 0 0x200000 0 0
         (pool_system_start [] [0x200000000, 0x200200000] g) = Inr (OK, Some 0x200000000, s)
     \<and> KernelMemoryPoolReserve rf 0 0x200000 0 0 True s = Inr (KERNEL_ERROR_EBUSY, None, s')
     \<and> view (ps_ranges s) 0x200200000 = None \<and> view (ps_ranges s') 0x200200000 \<noteq> None"
  by (simp add: KernelMemoryPoolReserve_def KernelReserveVirtualRange_def pool_system_start_def
      POOL_RESERVE_ALIGNMENT_def MAP_FIXED_def host_address_def range_code vr_dom_def)

end
