(* ===== verification/Semaphore.thy ===== *)
theory Semaphore
  imports Reachability
begin

text \<open>
  \<open>class KernelSemaPrivate\<close> of \<open>gpu/src/kernel/semaphore.cpp\<close> and its system calls. The
  object's mutex makes every critical section atomic: \<open>Cancel\<close>, \<open>Signal\<close>, the destructor's
  marking of the waiters, the part of \<open>Wait\<close> up to its loop, and one turn of the loop (the
  mutex is released in between). A waiting thread is its record in \<open>m_waiting_threads\<close>,
  identified by the thread; clocks are arguments. A C++ \<open>int\<close> is an \<open>int\<close>; where its
  addition may leave the range the operation has no result, as the source has none.
\<close>

section \<open>State\<close>

datatype sema_result = SOk | STimedOut | SCanceled | SDeleted | SInvalCount

record waiting_thread =
  w_id :: nat
  w_priority :: int
  w_need :: int
  w_result :: sema_result
  w_ready :: bool

record sema =
  s_name :: string
  s_deleted :: bool
  s_waiting :: "waiting_thread list"
  s_fifo :: bool
  s_count :: int
  s_init :: int
  s_max :: int

section \<open>Operations\<close>

definition mark_all :: "sema_result \<Rightarrow> waiting_thread list \<Rightarrow> waiting_thread list" where
  "mark_all r ws = map (\<lambda>w. if w_ready w then w else w\<lparr>w_result := r, w_ready := True\<rparr>) ws"

text \<open>The destructor up to the wait for the threads to leave.\<close>

definition Sema_Destroy :: "sema \<Rightarrow> sema" where
  "Sema_Destroy s = s\<lparr>s_deleted := True, s_waiting := mark_all SDeleted (s_waiting s)\<rparr>"

definition Sema_Cancel :: "int \<Rightarrow> sema \<Rightarrow> sema_result \<times> nat option \<times> sema" where
  "Sema_Cancel set_count s =
     (if set_count > s_max s then (SInvalCount, None, s)
      else if s_deleted s then (SDeleted, None, s)
      else (SOk, Some (length (filter (\<lambda>w. \<not> w_ready w) (s_waiting s))),
            s\<lparr>s_count := (if set_count < 0 then s_init s else set_count),
              s_waiting := mark_all SCanceled (s_waiting s)\<rparr>))"

fun wake_waiters :: "int \<Rightarrow> waiting_thread list \<Rightarrow> int \<times> waiting_thread list" where
  "wake_waiters c [] = (c, [])"
| "wake_waiters c (w # ws) =
     (if \<not> w_ready w \<and> w_need w \<le> c
      then (case wake_waiters (c - w_need w) ws of
              (c', ws') \<Rightarrow> (c', w\<lparr>w_result := SOk, w_ready := True\<rparr> # ws'))
      else (case wake_waiters c ws of (c', ws') \<Rightarrow> (c', w # ws')))"

definition WakeWaiters :: "sema \<Rightarrow> sema" where
  "WakeWaiters s = (case wake_waiters (s_count s) (s_waiting s) of
     (c, ws) \<Rightarrow> s\<lparr>s_count := c, s_waiting := ws\<rparr>)"

definition Sema_Signal :: "int \<Rightarrow> sema \<Rightarrow> (sema_result \<times> sema) option" where
  "Sema_Signal n s =
     (if s_deleted s then Some (SDeleted, s)
      else if \<not> int32 (s_count s + n) then None
      else if s_count s + n > s_max s then Some (SInvalCount, s)
      else Some (SOk, WakeWaiters (s\<lparr>s_count := s_count s + n\<rparr>)))"

definition AddWaiter :: "bool \<Rightarrow> waiting_thread \<Rightarrow> waiting_thread list \<Rightarrow> waiting_thread list" where
  "AddWaiter fifo w ws =
     (if fifo then ws @ [w]
      else takeWhile (\<lambda>v. w_priority v \<le> w_priority w) ws @ w
             # dropWhile (\<lambda>v. w_priority v \<le> w_priority w) ws)"

fun RemoveWaiter :: "nat \<Rightarrow> waiting_thread list \<Rightarrow> waiting_thread list" where
  "RemoveWaiter i [] = []"
| "RemoveWaiter i (w # ws) = (if w_id w = i then ws else w # RemoveWaiter i ws)"

text \<open>
  \<open>Wait\<close> up to its loop. \<open>Inl\<close> is a return with the remaining time, \<open>Inr\<close> the state with
  the thread queued. The timeout is \<open>None\<close> for a null pointer.
\<close>

definition Sema_WaitEnter :: "nat \<Rightarrow> int \<Rightarrow> int \<Rightarrow> nat option \<Rightarrow> sema \<Rightarrow>
    (sema_result \<times> nat option \<times> sema) + sema" where
  "Sema_WaitEnter tid priority need micros s =
     (if need < 1 \<or> need > s_max s then Inl (SInvalCount, micros, s)
      else if s_deleted s then Inl (SDeleted, micros, s)
      else if s_count s \<ge> need then Inl (SOk, micros, s\<lparr>s_count := s_count s - need\<rparr>)
      else if micros = Some 0 then Inl (STimedOut, micros, s)
      else Inr (s\<lparr>s_waiting := AddWaiter (s_fifo s)
             \<lparr>w_id = tid, w_priority = (if s_fifo s then 0 else priority), w_need = need,
              w_result = STimedOut, w_ready = False\<rparr> (s_waiting s)\<rparr>))"

text \<open>
  One turn of the loop of \<open>Wait\<close> for a queued thread, with the time it has waited: leave
  with a result, or \<open>None\<close> to sleep again.
\<close>

definition Sema_WaitTurn :: "nat \<Rightarrow> nat option \<Rightarrow> nat \<Rightarrow> sema \<Rightarrow>
    (sema_result \<times> nat option \<times> sema) option" where
  "Sema_WaitTurn tid micros elapsed s =
     (case find (\<lambda>w. w_id w = tid) (s_waiting s) of
        None \<Rightarrow> None
      | Some w \<Rightarrow>
          (let s' = s\<lparr>s_waiting := RemoveWaiter tid (s_waiting s)\<rparr>
           in if w_ready w
              then Some (w_result w,
                map_option (\<lambda>m. if elapsed \<ge> m then 0 else m - elapsed) micros, s')
              else (case micros of
                  None \<Rightarrow> None
                | Some m \<Rightarrow> if elapsed \<ge> m then Some (STimedOut, Some 0, s') else None)))"

section \<open>System calls\<close>

text \<open>A null handle or name is \<open>None\<close>.\<close>

definition KernelCreateSema ::
    "string option \<Rightarrow> nat \<Rightarrow> int \<Rightarrow> int \<Rightarrow> int \<times> sema option" where
  "KernelCreateSema name attr init maxc =
     (case name of
        None \<Rightarrow> (KERNEL_ERROR_EINVAL, None)
      | Some nm \<Rightarrow>
          if attr > 2 \<or> init < 0 \<or> maxc \<le> 0 \<or> init > maxc then (KERNEL_ERROR_EINVAL, None)
          else (OK, Some \<lparr>s_name = nm, s_deleted = False, s_waiting = [], s_fifo = (attr = 1),
                          s_count = init, s_init = init, s_max = maxc\<rparr>))"

fun wait_sema_code :: "sema_result \<Rightarrow> int" where
  "wait_sema_code SOk = OK"
| "wait_sema_code SInvalCount = KERNEL_ERROR_EINVAL"
| "wait_sema_code STimedOut = KERNEL_ERROR_ETIMEDOUT"
| "wait_sema_code SCanceled = KERNEL_ERROR_ECANCELED"
| "wait_sema_code SDeleted = KERNEL_ERROR_EACCES"

text \<open>\<open>Poll\<close> is \<open>Wait\<close> with a timeout of 0, which never queues the thread.\<close>

definition Sema_Poll :: "nat \<Rightarrow> int \<Rightarrow> int \<Rightarrow> sema \<Rightarrow> sema_result \<times> sema" where
  "Sema_Poll tid priority need s =
     (case Sema_WaitEnter tid priority need (Some 0) s of
        Inl (r, m, s') \<Rightarrow> (r, s') | Inr s' \<Rightarrow> (STimedOut, s'))"

definition KernelPollSema :: "nat \<Rightarrow> int \<Rightarrow> int \<Rightarrow> sema option \<Rightarrow> int \<times> sema option" where
  "KernelPollSema tid priority need sem =
     (case sem of
        None \<Rightarrow> (KERNEL_ERROR_ESRCH, None)
      | Some s \<Rightarrow>
          (case Sema_Poll tid priority need s of
             (r, s') \<Rightarrow> (case r of SOk \<Rightarrow> OK | SInvalCount \<Rightarrow> KERNEL_ERROR_EINVAL
                            | _ \<Rightarrow> KERNEL_ERROR_EBUSY, Some s')))"

definition KernelSignalSema :: "int \<Rightarrow> sema option \<Rightarrow> (int \<times> sema option) option" where
  "KernelSignalSema n sem =
     (case sem of
        None \<Rightarrow> Some (KERNEL_ERROR_ESRCH, None)
      | Some s \<Rightarrow>
          map_option (\<lambda>(r, s'). (if r = SOk then OK else KERNEL_ERROR_EINVAL, Some s'))
            (Sema_Signal n s))"

definition KernelCancelSema :: "int \<Rightarrow> sema option \<Rightarrow> int \<times> nat option \<times> sema option" where
  "KernelCancelSema n sem =
     (case sem of
        None \<Rightarrow> (KERNEL_ERROR_ESRCH, None, None)
      | Some s \<Rightarrow>
          (case Sema_Cancel n s of
             (r, threads, s') \<Rightarrow> (if r = SOk then OK else KERNEL_ERROR_EINVAL, threads, Some s')))"

section \<open>Steps\<close>

text \<open>
  The interleavings of the calls on one semaphore, as long as the guest signals positive
  counts. A thread waits on the semaphore once at a time.
\<close>

inductive sema_step :: "sema \<Rightarrow> sema \<Rightarrow> bool" where
  signal: "Sema_Signal n s = Some (r, s') \<Longrightarrow> 0 < n \<Longrightarrow> sema_step s s'"
| cancel: "Sema_Cancel n s = (r, k, s') \<Longrightarrow> sema_step s s'"
| enter_return: "Sema_WaitEnter tid p need m s = Inl (r, m', s') \<Longrightarrow> sema_step s s'"
| enter_queue: "Sema_WaitEnter tid p need m s = Inr s' \<Longrightarrow>
    tid \<notin> w_id ` set (s_waiting s) \<Longrightarrow> sema_step s s'"
| turn: "Sema_WaitTurn tid m elapsed s = Some (r, m', s') \<Longrightarrow> sema_step s s'"
| destroy: "sema_step s (Sema_Destroy s)"

definition sema_start :: "sema \<Rightarrow> bool" where
  "sema_start s \<longleftrightarrow> (\<exists>name attr init maxc. KernelCreateSema name attr init maxc = (OK, Some s))"

section \<open>Invariant\<close>

text \<open>
  The count stays within its bounds, every thread still waiting needs more than the count,
  a thread marked ready has a final result, and a priority queue is ordered.
\<close>

definition waiter_ok :: "int \<Rightarrow> int \<Rightarrow> waiting_thread \<Rightarrow> bool" where
  "waiter_ok c maxc w \<longleftrightarrow> 1 \<le> w_need w \<and> w_need w \<le> maxc
     \<and> (\<not> w_ready w \<longrightarrow> c < w_need w) \<and> (w_ready w \<longrightarrow> w_result w \<noteq> STimedOut)"

definition sema_inv :: "sema \<Rightarrow> bool" where
  "sema_inv s \<longleftrightarrow> 0 \<le> s_count s \<and> s_count s \<le> s_max s \<and> 0 \<le> s_init s \<and> s_init s \<le> s_max s
     \<and> (\<forall>w\<in>set (s_waiting s). waiter_ok (s_count s) (s_max s) w)
     \<and> distinct (map w_id (s_waiting s))
     \<and> sorted_wrt (\<lambda>v w. w_priority v \<le> w_priority w) (s_waiting s)
     \<and> (s_fifo s \<longrightarrow> (\<forall>w\<in>set (s_waiting s). w_priority w = 0))"

lemma wake_waiters_keep:
  "wake_waiters c ws = (c', ws') \<Longrightarrow>
     map w_id ws' = map w_id ws \<and> map w_priority ws' = map w_priority ws
     \<and> map w_need ws' = map w_need ws"
  by (induction c ws arbitrary: c' ws' rule: wake_waiters.induct)
    (auto split: if_splits prod.splits)

lemma wake_waiters_ok:
  assumes "wake_waiters c ws = (c', ws')" and "0 \<le> c"
    and "\<forall>w\<in>set ws. 1 \<le> w_need w \<and> w_need w \<le> maxc \<and> (w_ready w \<longrightarrow> w_result w \<noteq> STimedOut)"
  shows "0 \<le> c' \<and> c' \<le> c \<and> (\<forall>w\<in>set ws'. waiter_ok c' maxc w)"
  using assms
proof (induction c ws arbitrary: c' ws' rule: wake_waiters.induct)
  case (2 c w ws)
  show ?case
  proof (cases "\<not> w_ready w \<and> w_need w \<le> c")
    case True
    obtain d vs where d: "wake_waiters (c - w_need w) ws = (d, vs)" by fastforce
    then have "c' = d" "ws' = w\<lparr>w_result := SOk, w_ready := True\<rparr> # vs"
      using "2.prems"(1) True by auto
    moreover have "0 \<le> d \<and> d \<le> c - w_need w \<and> (\<forall>w\<in>set vs. waiter_ok d maxc w)"
      using "2.IH"(1) [OF True d] True "2.prems"(3) by simp
    ultimately show ?thesis using "2.prems"(3) by (auto simp: waiter_ok_def)
  next
    case False
    obtain d vs where d: "wake_waiters c ws = (d, vs)" by fastforce
    then have "c' = d" "ws' = w # vs" using "2.prems"(1) False by auto
    moreover have "0 \<le> d \<and> d \<le> c \<and> (\<forall>w\<in>set vs. waiter_ok d maxc w)"
      using "2.IH"(2) [OF False d] "2.prems"(2,3) by simp
    ultimately show ?thesis using False "2.prems"(3) by (auto simp: waiter_ok_def)
  qed
qed simp

lemma sorted_map_prio:
  "sorted_wrt (\<lambda>v w. w_priority v \<le> w_priority w) ws \<longleftrightarrow> sorted (map w_priority ws)"
  by (simp add: sorted_map)

lemma mark_all_keep:
  "map w_id (mark_all r ws) = map w_id ws" "map w_priority (mark_all r ws) = map w_priority ws"
  by (auto simp: mark_all_def)

lemma mark_all_ok:
  assumes "\<forall>w\<in>set ws. waiter_ok c maxc w" and "r \<noteq> STimedOut"
  shows "\<forall>w\<in>set (mark_all r ws). waiter_ok c' maxc w"
  using assms by (auto simp: mark_all_def waiter_ok_def)

lemma RemoveWaiter_subset: "set (RemoveWaiter i ws) \<subseteq> set ws"
  by (induction ws) auto

lemma RemoveWaiter_sorted:
  "sorted_wrt P ws \<Longrightarrow> sorted_wrt P (RemoveWaiter i ws)"
  using RemoveWaiter_subset by (induction ws) fastforce+

lemma RemoveWaiter_distinct:
  "distinct (map w_id ws) \<Longrightarrow> distinct (map w_id (RemoveWaiter i ws))"
  using RemoveWaiter_subset by (induction ws) fastforce+

lemma AddWaiter_set: "set (AddWaiter fifo w ws) = insert w (set ws)"
proof -
  have "set (takeWhile P ws) \<union> set (dropWhile P ws) = set ws" for P
    by (metis set_append takeWhile_dropWhile_id)
  then show ?thesis by (auto simp: AddWaiter_def)
qed

lemma AddWaiter_distinct:
  assumes "distinct (map w_id ws)" and "w_id w \<notin> w_id ` set ws"
  shows "distinct (map w_id (AddWaiter fifo w ws))"
proof (cases fifo)
  case False
  let ?P = "\<lambda>v. w_priority v \<le> w_priority w"
  obtain xs ys where xy: "takeWhile ?P ws = xs" "dropWhile ?P ws = ys" by simp
  then have "ws = xs @ ys" by (metis takeWhile_dropWhile_id)
  moreover have "AddWaiter fifo w ws = xs @ w # ys" using False by (simp add: AddWaiter_def xy)
  ultimately show ?thesis using assms by auto
qed (use assms in \<open>simp add: AddWaiter_def\<close>)

lemma AddWaiter_sorted:
  assumes "sorted_wrt (\<lambda>v w. w_priority v \<le> w_priority w) ws"
    and "fifo \<longrightarrow> (\<forall>v\<in>set ws. w_priority v \<le> w_priority w)"
  shows "sorted_wrt (\<lambda>v w. w_priority v \<le> w_priority w) (AddWaiter fifo w ws)"
proof (cases fifo)
  case True
  then show ?thesis using assms by (simp add: AddWaiter_def sorted_wrt_append)
next
  case False
  let ?P = "\<lambda>v. w_priority v \<le> w_priority w"
  obtain xs ys where xy: "takeWhile ?P ws = xs" "dropWhile ?P ws = ys" by simp
  then have ws: "ws = xs @ ys" by (metis takeWhile_dropWhile_id)
  have low: "\<forall>v\<in>set xs. ?P v" using xy(1) by (auto dest: set_takeWhileD)
  have "\<forall>v\<in>set (dropWhile ?P ws). w_priority w \<le> w_priority v"
    using assms(1) by (induction ws) auto
  then have high: "\<forall>v\<in>set ys. w_priority w \<le> w_priority v" by (simp add: xy)
  have "AddWaiter fifo w ws = xs @ w # ys" using False by (simp add: AddWaiter_def xy)
  then show ?thesis
    using low high assms(1) ws by (auto simp: sorted_wrt_append)
qed

lemma sema_start_inv: "sema_start s \<Longrightarrow> sema_inv s"
  by (auto simp: sema_start_def KernelCreateSema_def sema_inv_def errno_defs
      split: option.splits if_splits)

lemma sema_remove_inv:
  assumes "sema_inv s" and "s' = s\<lparr>s_waiting := RemoveWaiter tid (s_waiting s)\<rparr>"
  shows "sema_inv s'"
  using assms RemoveWaiter_subset [of tid "s_waiting s"] RemoveWaiter_distinct RemoveWaiter_sorted
  by (auto simp: sema_inv_def)

lemma sema_step_inv:
  assumes "sema_inv s" and "sema_step s t"
  shows "sema_inv t"
  using assms(2)
proof (cases rule: sema_step.cases)
  case (signal n r)
  show ?thesis
  proof (cases "s_deleted s \<or> s_count s + n > s_max s")
    case True
    then have "t = s" using signal(1) by (auto simp: Sema_Signal_def split: if_splits)
    then show ?thesis using assms(1) by simp
  next
    case False
    obtain c ws where w: "wake_waiters (s_count s + n) (s_waiting s) = (c, ws)" by fastforce
    have t: "t = s\<lparr>s_count := c, s_waiting := ws\<rparr>"
      using signal(1) False w by (auto simp: Sema_Signal_def WakeWaiters_def split: if_splits)
    have "\<forall>w\<in>set (s_waiting s). 1 \<le> w_need w \<and> w_need w \<le> s_max s
        \<and> (w_ready w \<longrightarrow> w_result w \<noteq> STimedOut)"
      using assms(1) by (auto simp: sema_inv_def waiter_ok_def)
    moreover have "0 \<le> s_count s + n" using assms(1) signal(2) by (simp add: sema_inv_def)
    ultimately have ok: "0 \<le> c \<and> c \<le> s_count s + n \<and> (\<forall>w\<in>set ws. waiter_ok c (s_max s) w)"
      using wake_waiters_ok [OF w] by blast
    have keep: "map w_id ws = map w_id (s_waiting s)"
      "map w_priority ws = map w_priority (s_waiting s)"
      using wake_waiters_keep [OF w] by blast+
    have prio: "w_priority ` set ws = w_priority ` set (s_waiting s)"
      using keep(2) by (metis list.set_map)
    have "s_fifo s \<longrightarrow> (\<forall>w\<in>set ws. w_priority w = 0)"
    proof (intro impI ballI)
      fix w assume "s_fifo s" and "w \<in> set ws"
      then have "w_priority w \<in> w_priority ` set (s_waiting s)" using prio by blast
      then show "w_priority w = 0" using assms(1) \<open>s_fifo s\<close> by (auto simp: sema_inv_def)
    qed
    then show ?thesis
      using assms(1) ok keep False t
      by (auto simp: sema_inv_def sorted_map_prio)
  qed
next
  case (cancel n r k)
  show ?thesis
  proof (cases "n > s_max s \<or> s_deleted s")
    case True
    then have "t = s" using cancel by (auto simp: Sema_Cancel_def split: if_splits)
    then show ?thesis using assms(1) by simp
  next
    case False
    then have t: "t = s\<lparr>s_count := (if n < 0 then s_init s else n),
        s_waiting := mark_all SCanceled (s_waiting s)\<rparr>"
      using cancel by (auto simp: Sema_Cancel_def)
    have "\<forall>w\<in>set (mark_all SCanceled (s_waiting s)).
        waiter_ok (if n < 0 then s_init s else n) (s_max s) w"
      using assms(1) by (intro mark_all_ok) (auto simp: sema_inv_def)
    moreover have "s_fifo s \<longrightarrow> (\<forall>w\<in>set (mark_all SCanceled (s_waiting s)). w_priority w = 0)"
      using assms(1) by (auto simp: sema_inv_def mark_all_def)
    ultimately show ?thesis
      using assms(1) False t by (simp add: sema_inv_def sorted_map_prio mark_all_keep)
  qed
next
  case (enter_return tid p need m r m')
  then show ?thesis
    using assms(1)
    by (auto simp: Sema_WaitEnter_def sema_inv_def waiter_ok_def split: if_splits)
next
  case (enter_queue tid p need m)
  let ?w = "\<lparr>w_id = tid, w_priority = (if s_fifo s then 0 else p), w_need = need,
    w_result = STimedOut, w_ready = False\<rparr>"
  have t: "t = s\<lparr>s_waiting := AddWaiter (s_fifo s) ?w (s_waiting s)\<rparr>"
    and need: "1 \<le> need" "need \<le> s_max s" "s_count s < need"
    using enter_queue(1) by (auto simp: Sema_WaitEnter_def split: if_splits)
  have "waiter_ok (s_count s) (s_max s) ?w" using need by (simp add: waiter_ok_def)
  moreover have "distinct (map w_id (AddWaiter (s_fifo s) ?w (s_waiting s)))"
    using assms(1) enter_queue(2) by (intro AddWaiter_distinct) (auto simp: sema_inv_def)
  moreover have "sorted_wrt (\<lambda>v w. w_priority v \<le> w_priority w)
      (AddWaiter (s_fifo s) ?w (s_waiting s))"
    using assms(1) by (intro AddWaiter_sorted) (auto simp: sema_inv_def)
  ultimately show ?thesis
    using assms(1) t by (auto simp: sema_inv_def AddWaiter_set)
next
  case (turn tid m elapsed r m')
  then have "t = s\<lparr>s_waiting := RemoveWaiter tid (s_waiting s)\<rparr>"
    by (auto simp: Sema_WaitTurn_def Let_def split: option.splits if_splits)
  with assms(1) show ?thesis by (rule sema_remove_inv)
next
  case destroy
  have "\<forall>w\<in>set (mark_all SDeleted (s_waiting s)). waiter_ok (s_count s) (s_max s) w"
    using assms(1) by (intro mark_all_ok) (auto simp: sema_inv_def)
  moreover have "s_fifo s \<longrightarrow> (\<forall>w\<in>set (mark_all SDeleted (s_waiting s)). w_priority w = 0)"
    using assms(1) by (auto simp: sema_inv_def mark_all_def)
  ultimately show ?thesis
    using assms(1) destroy by (simp add: sema_inv_def sorted_map_prio mark_all_keep Sema_Destroy_def)
qed

interpretation sema: waiting_object sema_start sema_step sema_inv
  "\<lambda>s. {w \<in> set (s_waiting s). \<not> w_ready w}" "\<lambda>s w. w_need w \<le> s_count s"
proof unfold_locales
  fix s w assume "sema_inv s" and "w \<in> {w \<in> set (s_waiting s). \<not> w_ready w}"
  then show "\<not> w_need w \<le> s_count s" by (auto simp: sema_inv_def waiter_ok_def)
qed (fact sema_start_inv sema_step_inv)+

section \<open>Conservation\<close>

text \<open>The counts handed to the threads a call has served.\<close>

definition served :: "waiting_thread list \<Rightarrow> waiting_thread list \<Rightarrow> int" where
  "served before after =
     (\<Sum>(v, w)\<leftarrow>zip before after. if \<not> w_ready v \<and> w_ready w then w_need w else 0)"

lemma wake_waiters_conserve:
  "wake_waiters c ws = (c', ws') \<Longrightarrow> c' + served ws ws' = c"
proof (induction c ws arbitrary: c' ws' rule: wake_waiters.induct)
  case (2 c w ws)
  show ?case
  proof (cases "\<not> w_ready w \<and> w_need w \<le> c")
    case True
    obtain d vs where d: "wake_waiters (c - w_need w) ws = (d, vs)" by fastforce
    then have "c' = d" "ws' = w\<lparr>w_result := SOk, w_ready := True\<rparr> # vs"
      using "2.prems" True by auto
    then show ?thesis using "2.IH"(1) [OF True d] True by (simp add: served_def)
  next
    case False
    obtain d vs where d: "wake_waiters c ws = (d, vs)" by fastforce
    then have "c' = d" "ws' = w # vs" using "2.prems" False by auto
    then show ?thesis using "2.IH"(2) [OF False d] by (simp add: served_def)
  qed
qed (simp add: served_def)

section \<open>Properties\<close>



text \<open>
  \<open>Signal\<close> neither creates nor loses tokens: what it adds is either still in the count
  or was handed to threads it released, the queue keeps its members and their order, and
  the threads it leaves asleep all need more than what remains.
\<close>

theorem signal_conserves_tokens:
  assumes "sema_start s" and "sema_step\<^sup>*\<^sup>* s t" and "0 < n" and "Sema_Signal n t = Some (SOk, u)"
  shows "s_count u + served (s_waiting t) (s_waiting u) = s_count t + n
    \<and> map w_id (s_waiting u) = map w_id (s_waiting t)
    \<and> (\<forall>w\<in>set (s_waiting u). w_ready w \<or> s_count u < w_need w)"
proof -
  obtain c ws where w: "wake_waiters (s_count t + n) (s_waiting t) = (c, ws)" by fastforce
  then have u: "s_count u = c" "s_waiting u = ws"
    using assms(4) by (auto simp: Sema_Signal_def WakeWaiters_def split: if_splits)
  have "sema_step t u" using assms(3,4) by (intro sema_step.signal)
  then have "sema_inv u" using sema.reach_inv [OF assms(1)] assms(2) by (meson rtranclp.simps)
  then show ?thesis
    using u wake_waiters_conserve [OF w] wake_waiters_keep [OF w]
    by (auto simp: sema_inv_def waiter_ok_def)
qed

theorem signal_conserves_tokens_witness:
  "\<exists>t u. Sema_Signal 3 t = Some (SOk, u) \<and> s_count u = 1 \<and> served (s_waiting t) (s_waiting u) = 2"
proof -
  let ?s = "\<lparr>s_name = ''sem'', s_deleted = False, s_waiting = [], s_fifo = True, s_count = 0,
    s_init = 0, s_max = 4\<rparr>"
  let ?w = "\<lparr>w_id = 7, w_priority = 0, w_need = 2, w_result = STimedOut, w_ready = False\<rparr>"
  let ?t = "?s\<lparr>s_waiting := [?w]\<rparr>"
  let ?u = "?s\<lparr>s_count := 1, s_waiting := [?w\<lparr>w_result := SOk, w_ready := True\<rparr>]\<rparr>"
  have start: "sema_start ?s"
    unfolding sema_start_def
    by (intro exI [of _ "Some ''sem''"] exI [of _ 1] exI [of _ 0] exI [of _ 4])
      (simp add: KernelCreateSema_def)
  have "sema_step ?s ?t"
    by (rule sema_step.enter_queue [of 7 0 2 None]) (simp_all add: Sema_WaitEnter_def AddWaiter_def)
  then have run: "sema_step\<^sup>*\<^sup>* ?s ?t" by (rule r_into_rtranclp)
  have sig: "Sema_Signal 3 ?t = Some (SOk, ?u)"
    by (simp add: Sema_Signal_def WakeWaiters_def int32_def)
  from signal_conserves_tokens [OF start run _ sig] show ?thesis
    using sig by (intro exI [of _ ?t] exI [of _ ?u]) simp
qed

text \<open>
  \<open>Signal\<close> does not check that its argument is positive: a negative count is accepted,
  succeeds and drives the semaphore's count below zero.
\<close>

theorem signal_accepts_negative_count:
  "\<exists>s t. sema_start s \<and> Sema_Signal (-1) s = Some (SOk, t) \<and> s_count t < 0"
proof -
  let ?s = "\<lparr>s_name = ''sem'', s_deleted = False, s_waiting = [], s_fifo = False, s_count = 0,
    s_init = 0, s_max = 4\<rparr>"
  have "sema_start ?s"
    unfolding sema_start_def
    by (intro exI [of _ "Some ''sem''"] exI [of _ 2] exI [of _ 0] exI [of _ 4])
      (simp add: KernelCreateSema_def)
  moreover have "Sema_Signal (-1) ?s = Some (SOk, ?s\<lparr>s_count := -1\<rparr>)"
    by (simp add: Sema_Signal_def WakeWaiters_def int32_def)
  ultimately show ?thesis by (intro exI [of _ ?s] exI [of _ "?s\<lparr>s_count := -1\<rparr>"]) simp
qed

end
