(* ===== verification/PosixSem.thy ===== *)
theory PosixSem
  imports Reachability "HOL-Library.Word"
begin

text \<open>
  The POSIX semaphores of \<open>gpu/src/kernel/semaphore.cpp\<close>: \<open>PosixSemPrivate\<close>, the table
  \<open>g_posix_sems\<close> from guest addresses to the objects, and the calls of \<open>Libs::Posix\<close> and
  \<open>PthreadSem*\<close>. Each object mirrors its state into the 16 bytes of guest memory the guest
  passed. Every critical section is one step; sleeping releases the object's mutex.
\<close>

section \<open>State\<close>

definition POSIX_SEM_MAGIC :: nat where "POSIX_SEM_MAGIC = 0x09fa"
definition POSIX_SEM_VALUE_MAX :: int where "POSIX_SEM_VALUE_MAX = 0x7fffffff"
definition NO_FLAGS :: nat where "NO_FLAGS = 2 ^ 32 - 1"

record guest_sem =
  g_magic :: nat
  g_nameid :: nat
  g_has_waiters :: nat
  g_count :: nat
  g_flags :: nat

record posix_sem =
  p_count :: int
  p_waiters :: nat

text \<open>Guest memory and the table are maps from guest addresses; address 0 is the null pointer.\<close>

record sem_system =
  ss_guest :: "nat \<Rightarrow> guest_sem"
  ss_sems :: "nat \<rightharpoonup> posix_sem"

section \<open>Operations on one object\<close>

text \<open>\<open>static_cast<uint32_t>\<close> of the count.\<close>

definition u32 :: "int \<Rightarrow> nat" where
  "u32 x = nat (x mod 2 ^ 32)"

definition SyncGuest :: "nat \<Rightarrow> posix_sem \<Rightarrow> guest_sem \<Rightarrow> guest_sem" where
  "SyncGuest flags p g =
     (let g = g\<lparr>g_magic := POSIX_SEM_MAGIC, g_nameid := 0,
                g_has_waiters := (if p_waiters p > 0 then 1 else 0),
                g_count := u32 (p_count p)\<rparr>
      in if flags \<noteq> NO_FLAGS then g\<lparr>g_flags := flags\<rparr> else g)"

text \<open>
  \<open>Wait\<close> tests the count, and on failure the timeout, before every sleep. \<open>Inl\<close> is a
  return, \<open>Inr\<close> the object with the thread counted as asleep. A thread that comes back
  from sleep first takes itself off \<open>m_waiters\<close>.
\<close>

definition Posix_WaitTest :: "nat option \<Rightarrow> nat \<Rightarrow> posix_sem \<Rightarrow> (int \<times> posix_sem) + posix_sem" where
  "Posix_WaitTest micros elapsed p =
     (if p_count p \<le> 0
      then (case micros of
              Some m \<Rightarrow> if elapsed \<ge> m then Inl (POSIX_ETIMEDOUT, p)
                        else Inr (p\<lparr>p_waiters := p_waiters p + 1\<rparr>)
            | None \<Rightarrow> Inr (p\<lparr>p_waiters := p_waiters p + 1\<rparr>))
      else Inl (OK, p\<lparr>p_count := p_count p - 1\<rparr>))"

definition Posix_WaitResume :: "nat option \<Rightarrow> nat \<Rightarrow> posix_sem \<Rightarrow> (int \<times> posix_sem) + posix_sem" where
  "Posix_WaitResume micros elapsed p =
     Posix_WaitTest micros elapsed (p\<lparr>p_waiters := p_waiters p - 1\<rparr>)"

definition Posix_TryWait :: "posix_sem \<Rightarrow> int \<times> posix_sem" where
  "Posix_TryWait p =
     (if p_count p \<le> 0 then (POSIX_EAGAIN, p) else (OK, p\<lparr>p_count := p_count p - 1\<rparr>))"

text \<open>The overflow return of \<open>Post\<close> is the only one that does not mirror the state.\<close>

definition Posix_Post :: "posix_sem \<Rightarrow> int \<times> posix_sem" where
  "Posix_Post p =
     (if p_count p = POSIX_SEM_VALUE_MAX then (POSIX_EOVERFLOW, p)
      else (OK, p\<lparr>p_count := p_count p + 1\<rparr>))"

section \<open>The table\<close>

definition PosixToKernel :: "int \<Rightarrow> int" where
  "PosixToKernel e = (if e \<ge> 0 \<and> e \<le> 102 then e - 2147352576 else KERNEL_ERROR_EINVAL)"

definition GetSem :: "nat \<Rightarrow> sem_system \<Rightarrow> posix_sem option" where
  "GetSem a s = (if a = 0 then None else ss_sems s a)"

definition put_sem :: "nat \<Rightarrow> posix_sem \<Rightarrow> sem_system \<Rightarrow> sem_system" where
  "put_sem a p s = s\<lparr>ss_sems := (ss_sems s)(a \<mapsto> p),
     ss_guest := (ss_guest s)(a := SyncGuest NO_FLAGS p (ss_guest s a))\<rparr>"

definition SemInitImpl :: "nat \<Rightarrow> nat \<Rightarrow> nat \<Rightarrow> sem_system \<Rightarrow> int \<times> sem_system" where
  "SemInitImpl a pshared value s =
     (if a = 0 \<or> int value > POSIX_SEM_VALUE_MAX then (POSIX_EINVAL, s)
      else
        (let p = \<lparr>p_count = int value, p_waiters = 0\<rparr>
         in (OK, s\<lparr>ss_sems := (ss_sems s)(a \<mapsto> p),
                   ss_guest := (ss_guest s)(a := SyncGuest pshared p (ss_guest s a))\<rparr>)))"

definition SemDestroyImpl :: "nat \<Rightarrow> sem_system \<Rightarrow> int \<times> sem_system" where
  "SemDestroyImpl a s =
     (if a = 0 \<or> ss_sems s a = None then (POSIX_EINVAL, s)
      else (OK, s\<lparr>ss_sems := (ss_sems s)(a := None),
                  ss_guest := (ss_guest s)(a := (ss_guest s a)\<lparr>g_magic := 0, g_has_waiters := 0,
                    g_count := 0, g_flags := 0\<rparr>)\<rparr>))"

definition SemTryWaitImpl :: "nat \<Rightarrow> sem_system \<Rightarrow> int \<times> sem_system" where
  "SemTryWaitImpl a s =
     (case GetSem a s of
        None \<Rightarrow> (POSIX_EINVAL, s)
      | Some p \<Rightarrow> (case Posix_TryWait p of (r, p') \<Rightarrow> (r, put_sem a p' s)))"

definition SemPostImpl :: "nat \<Rightarrow> sem_system \<Rightarrow> int \<times> sem_system" where
  "SemPostImpl a s =
     (case GetSem a s of
        None \<Rightarrow> (POSIX_EINVAL, s)
      | Some p \<Rightarrow> (case Posix_Post p of
                     (r, p') \<Rightarrow> if r = OK then (r, put_sem a p' s) else (r, s)))"

text \<open>One step of \<open>SemTimedwaitImpl\<close>: \<open>None\<close> is a thread that goes to sleep.\<close>

definition SemWaitStep :: "(posix_sem \<Rightarrow> (int \<times> posix_sem) + posix_sem) \<Rightarrow> nat \<Rightarrow> sem_system \<Rightarrow>
    int option \<times> sem_system" where
  "SemWaitStep f a s =
     (case GetSem a s of
        None \<Rightarrow> (Some POSIX_EINVAL, s)
      | Some p \<Rightarrow> (case f p of
            Inl (r, p') \<Rightarrow> (Some r, put_sem a p' s)
          | Inr p' \<Rightarrow> (None, put_sem a p' s)))"

section \<open>Calls\<close>

text \<open>
  The \<open>sem_*\<close> calls return 0, or -1 with the error in \<open>errno\<close>; the \<open>scePthreadSem*\<close> calls
  return a kernel error.
\<close>

definition posix_return :: "int \<Rightarrow> int \<times> int option" where
  "posix_return r = (if r = OK then (0, None) else (-1, Some r))"

definition pthread_return :: "int \<Rightarrow> int" where
  "pthread_return r = (if r = OK then OK else PosixToKernel r)"

definition PthreadSemInit :: "nat \<Rightarrow> int \<Rightarrow> nat \<Rightarrow> sem_system \<Rightarrow> int \<times> sem_system" where
  "PthreadSemInit a flag value s =
     (if flag \<noteq> 0 then (KERNEL_ERROR_EINVAL, s)
      else (case SemInitImpl a 0 value s of (r, s') \<Rightarrow> (pthread_return r, s')))"

text \<open>
  \<open>AbsTimespecToMicros\<close> of a deadline against the clock's answer, in exact integers: the
  call uses 64-bit arithmetic on seconds and microseconds. C++ division truncates.
\<close>

definition tdiv :: "int \<Rightarrow> int \<Rightarrow> int" where
  "tdiv a b = (if a < 0 then - ((- a) div b) else a div b)"

definition AbsTimespecToMicros :: "int \<times> int \<Rightarrow> int \<times> int \<Rightarrow> nat option" where
  "AbsTimespecToMicros abstime now =
     (if fst abstime < 0 \<or> snd abstime < 0 \<or> snd abstime \<ge> 1000000000 then None
      else
        (let sec_delta = fst abstime - fst now;
             nsec_delta = snd abstime - snd now;
             usec_delta = sec_delta * 1000000 + tdiv nsec_delta 1000
         in if usec_delta \<le> 0 then Some 0
            else if usec_delta > 2 ^ 32 - 1 then Some (2 ^ 32 - 1)
            else Some (nat usec_delta)))"

section \<open>Steps and invariant\<close>

inductive psem_step :: "sem_system \<Rightarrow> sem_system \<Rightarrow> bool" where
  create: "SemInitImpl a pshared value s = (r, s') \<Longrightarrow> psem_step s s'"
| destroy: "SemDestroyImpl a s = (r, s') \<Longrightarrow> psem_step s s'"
| trywait: "SemTryWaitImpl a s = (r, s') \<Longrightarrow> psem_step s s'"
| post: "SemPostImpl a s = (r, s') \<Longrightarrow> psem_step s s'"
| wait_enter: "SemWaitStep (Posix_WaitTest m 0) a s = (r, s') \<Longrightarrow> psem_step s s'"
| wait_resume: "SemWaitStep (Posix_WaitResume m e) a s = (r, s') \<Longrightarrow> psem_step s s'"

definition psem_start :: "sem_system \<Rightarrow> bool" where
  "psem_start s \<longleftrightarrow> ss_sems s = (\<lambda>a. None)"

text \<open>Guest memory shows the state of every live object, whose count is a valid value.\<close>

definition mirrors :: "guest_sem \<Rightarrow> posix_sem \<Rightarrow> bool" where
  "mirrors g p \<longleftrightarrow> g_magic g = POSIX_SEM_MAGIC \<and> int (g_count g) = p_count p
     \<and> (g_has_waiters g = 1 \<longleftrightarrow> 0 < p_waiters p)"

definition psem_ok :: "posix_sem \<Rightarrow> bool" where
  "psem_ok p \<longleftrightarrow> 0 \<le> p_count p \<and> p_count p \<le> POSIX_SEM_VALUE_MAX"

definition psem_inv :: "sem_system \<Rightarrow> bool" where
  "psem_inv s \<longleftrightarrow> (\<forall>a p. ss_sems s a = Some p \<longrightarrow> psem_ok p \<and> mirrors (ss_guest s a) p)"

lemma u32_exact: "0 \<le> x \<Longrightarrow> x \<le> POSIX_SEM_VALUE_MAX \<Longrightarrow> int (u32 x) = x"
  by (simp add: u32_def POSIX_SEM_VALUE_MAX_def)

lemma SyncGuest_mirrors: "psem_ok p \<Longrightarrow> mirrors (SyncGuest flags p g) p"
  by (simp add: mirrors_def SyncGuest_def psem_ok_def u32_exact Let_def)

lemma put_sem_inv: "psem_inv s \<Longrightarrow> psem_ok p \<Longrightarrow> psem_inv (put_sem a p s)"
  by (auto simp: psem_inv_def put_sem_def SyncGuest_mirrors)

lemma psem_ops_ok:
  assumes "psem_ok p"
  shows "Posix_TryWait p = (r, p') \<Longrightarrow> psem_ok p'"
    and "Posix_Post p = (r, p') \<Longrightarrow> psem_ok p'"
    and "Posix_WaitTest m e p = Inl (r, p') \<Longrightarrow> psem_ok p'"
    and "Posix_WaitTest m e p = Inr p' \<Longrightarrow> psem_ok p'"
  using assms
  by (auto simp: psem_ok_def Posix_TryWait_def Posix_Post_def Posix_WaitTest_def
      split: if_splits option.splits)

lemma resume_ok:
  assumes "psem_ok p"
  shows "Posix_WaitResume m e p = Inl (r, p') \<Longrightarrow> psem_ok p'"
    and "Posix_WaitResume m e p = Inr p' \<Longrightarrow> psem_ok p'"
proof -
  have ok: "psem_ok (p\<lparr>p_waiters := p_waiters p - 1\<rparr>)" using assms by (simp add: psem_ok_def)
  show "Posix_WaitResume m e p = Inl (r, p') \<Longrightarrow> psem_ok p'"
    unfolding Posix_WaitResume_def by (rule psem_ops_ok(3) [OF ok])
  show "Posix_WaitResume m e p = Inr p' \<Longrightarrow> psem_ok p'"
    unfolding Posix_WaitResume_def by (rule psem_ops_ok(4) [OF ok])
qed

lemma wait_step_inv:
  assumes "psem_inv s" and "SemWaitStep f a s = (r, s')"
    and "\<And>p r p'. psem_ok p \<Longrightarrow> f p = Inl (r, p') \<Longrightarrow> psem_ok p'"
    and "\<And>p p'. psem_ok p \<Longrightarrow> f p = Inr p' \<Longrightarrow> psem_ok p'"
  shows "psem_inv s'"
proof (cases "GetSem a s")
  case None
  then show ?thesis using assms by (simp add: SemWaitStep_def)
next
  case (Some p)
  then have "psem_ok p" using assms(1) by (auto simp: GetSem_def psem_inv_def split: if_splits)
  show ?thesis
  proof (cases "f p")
    case (Inl y)
    obtain x p' where y: "y = (x, p')" by fastforce
    have "psem_ok p'" using assms(3) \<open>psem_ok p\<close> Inl y by blast
    moreover have "s' = put_sem a p' s" using assms(2) Some Inl y by (simp add: SemWaitStep_def)
    ultimately show ?thesis using put_sem_inv [OF assms(1)] by simp
  next
    case (Inr p')
    have "psem_ok p'" using assms(4) \<open>psem_ok p\<close> Inr by blast
    moreover have "s' = put_sem a p' s" using assms(2) Some Inr by (simp add: SemWaitStep_def)
    ultimately show ?thesis using put_sem_inv [OF assms(1)] by simp
  qed
qed

lemma psem_step_inv:
  assumes "psem_inv s" and "psem_step s t"
  shows "psem_inv t"
  using assms(2)
proof (cases rule: psem_step.cases)
  case (create a pshared v r)
  show ?thesis
  proof (cases "a = 0 \<or> int v > POSIX_SEM_VALUE_MAX")
    case True
    then show ?thesis using create assms(1) by (auto simp: SemInitImpl_def)
  next
    case False
    then have "psem_ok \<lparr>p_count = int v, p_waiters = 0\<rparr>" by (simp add: psem_ok_def)
    then show ?thesis using create assms(1) False
      by (auto simp: SemInitImpl_def psem_inv_def SyncGuest_mirrors Let_def split: if_splits)
  qed
next
  case (destroy a r)
  then show ?thesis using assms(1) by (auto simp: SemDestroyImpl_def psem_inv_def split: if_splits)
next
  case (trywait a r)
  show ?thesis
  proof (cases "GetSem a s")
    case (Some p)
    then have "psem_ok p" using assms(1) by (auto simp: GetSem_def psem_inv_def split: if_splits)
    then show ?thesis
      using trywait Some psem_ops_ok(1) put_sem_inv [OF assms(1)]
      by (auto simp: SemTryWaitImpl_def split: prod.splits)
  qed (use trywait assms(1) in \<open>simp add: SemTryWaitImpl_def\<close>)
next
  case (post a r)
  show ?thesis
  proof (cases "GetSem a s")
    case (Some p)
    then have "psem_ok p" using assms(1) by (auto simp: GetSem_def psem_inv_def split: if_splits)
    then show ?thesis
      using post Some psem_ops_ok(2) put_sem_inv [OF assms(1)] assms(1)
      by (auto simp: SemPostImpl_def split: prod.splits if_splits)
  qed (use post assms(1) in \<open>simp add: SemPostImpl_def\<close>)
next
  case (wait_enter m a r)
  show ?thesis
    by (rule wait_step_inv [OF assms(1) wait_enter]) (erule psem_ops_ok, assumption)+
next
  case (wait_resume m e a r)
  show ?thesis
    by (rule wait_step_inv [OF assms(1) wait_resume]) (erule resume_ok, assumption)+
qed

interpretation psem: atomic_object psem_start psem_step psem_inv
proof unfold_locales
  show "psem_inv s" if "psem_start s" for s
    using that by (simp add: psem_start_def psem_inv_def)
qed (rule psem_step_inv)

section \<open>Properties\<close>

text \<open>
  C35. Guest memory never lies about a POSIX semaphore: after every atomic step each live
  semaphore has a count between 0 and \<open>SEM_VALUE_MAX\<close>, and the guest's 16 bytes hold the
  magic number, that count and whether a thread is asleep on it.
\<close>

theorem posix_sem_mirrored:
  assumes "psem_start s" and "psem_step\<^sup>*\<^sup>* s t" and "ss_sems t a = Some p"
  shows "0 \<le> p_count p \<and> p_count p \<le> POSIX_SEM_VALUE_MAX
    \<and> g_magic (ss_guest t a) = POSIX_SEM_MAGIC \<and> int (g_count (ss_guest t a)) = p_count p
    \<and> (g_has_waiters (ss_guest t a) = 1 \<longleftrightarrow> 0 < p_waiters p)"
  using psem.reach_inv [OF assms(1,2)] assms(3)
  by (auto simp: psem_inv_def psem_ok_def mirrors_def)

theorem posix_sem_mirrored_witness:
  "\<exists>s t p. psem_start s \<and> psem_step\<^sup>*\<^sup>* s t \<and> ss_sems t 4096 = Some p
     \<and> p_count p = 3 \<and> g_count (ss_guest t 4096) = 3"
proof -
  let ?g = "\<lparr>g_magic = 0, g_nameid = 0, g_has_waiters = 0, g_count = 0, g_flags = 0\<rparr>"
  let ?s = "\<lparr>ss_guest = (\<lambda>a. ?g), ss_sems = (\<lambda>a. None)\<rparr>"
  let ?p = "\<lparr>p_count = 3, p_waiters = 0\<rparr>"
  let ?t = "\<lparr>ss_guest = (\<lambda>a. ?g)(4096 := SyncGuest 0 ?p ?g), ss_sems = (\<lambda>a. None)(4096 \<mapsto> ?p)\<rparr>"
  have start: "psem_start ?s" by (simp add: psem_start_def)
  have "psem_step ?s ?t"
    by (rule psem_step.create [of 4096 0 3 _ OK]) (simp add: SemInitImpl_def POSIX_SEM_VALUE_MAX_def Let_def)
  then have run: "psem_step\<^sup>*\<^sup>* ?s ?t" by (rule r_into_rtranclp)
  have "ss_sems ?t 4096 = Some ?p" by simp
  from posix_sem_mirrored [OF start run this]
  have "int (g_count (ss_guest ?t 4096)) = 3" by simp
  then show ?thesis using start run by (intro exI [of _ ?s] exI [of _ ?t] exI [of _ ?p]) simp
qed

lemma tdiv_thousand: "\<bar>1000 * tdiv x 1000 - x\<bar> < 1000"
proof (cases "x < 0")
  case True
  have "(- x) mod 1000 < 1000" "0 \<le> (- x) mod 1000" by simp_all
  moreover have "1000 * ((- x) div 1000) + (- x) mod 1000 = - x" by simp
  moreover have "tdiv x 1000 = - ((- x) div 1000)" using True by (simp add: tdiv_def)
  ultimately show ?thesis by linarith
next
  case False
  have "x mod 1000 < 1000" "0 \<le> x mod 1000" by simp_all
  moreover have "1000 * (x div 1000) + x mod 1000 = x" by simp
  moreover have "tdiv x 1000 = x div 1000" using False by (simp add: tdiv_def)
  ultimately show ?thesis by linarith
qed

text \<open>
  A timeout computed from an absolute deadline is within a microsecond of the time left:
  a deadline that is past gives 0, any other the distance in nanoseconds to less than 1000,
  unless it saturates at the largest 32-bit value, which it does only for deadlines that far
  away.
\<close>

theorem abs_timeout_bounds:
  assumes "AbsTimespecToMicros (sec, nsec) (now_sec, now_nsec) = Some m"
    and "left = (sec - now_sec) * 1000000000 + (nsec - now_nsec)"
  shows "m < 2 ^ 32 \<and> (if m < 2 ^ 32 - 1 then \<bar>1000 * int m - max 0 left\<bar> < 1000
      else 1000 * (2 ^ 32 - 2) < left)"
proof -
  obtain u where u: "u = (sec - now_sec) * 1000000 + tdiv (nsec - now_nsec) 1000" by simp
  have m: "int m = (if u \<le> 0 then 0 else if u > 2 ^ 32 - 1 then 2 ^ 32 - 1 else u)"
    using assms(1) u by (auto simp: AbsTimespecToMicros_def Let_def split: if_splits)
  have near: "\<bar>1000 * u - left\<bar> < 1000"
  proof -
    have "1000 * u - left = 1000 * tdiv (nsec - now_nsec) 1000 - (nsec - now_nsec)"
      unfolding u assms(2) by (simp add: algebra_simps)
    then show ?thesis using tdiv_thousand by simp
  qed
  consider "u \<le> 0" | "0 < u" "u \<le> 2 ^ 32 - 1" | "u > 2 ^ 32 - 1" by linarith
  then show ?thesis using m near by cases auto
qed

theorem abs_timeout_bounds_witness:
  "AbsTimespecToMicros (10, 500999) (9, 0) = Some 1000500
     \<and> \<bar>1000 * int 1000500 - max 0 1000500999\<bar> < 1000"
proof -
  have a: "AbsTimespecToMicros (10, 500999) (9, 0) = Some 1000500"
    by (simp add: AbsTimespecToMicros_def tdiv_def)
  have left: "(1000500999::int) = (10 - 9) * 1000000000 + (500999 - 0)" by simp
  show ?thesis using a abs_timeout_bounds [OF a left] by simp
qed

end
