(* ===== verification/EventFlag.thy ===== *)
theory EventFlag
  imports Reachability "HOL-Library.Word"
begin

text \<open>
  \<open>class KernelEventFlagPrivate\<close> of \<open>gpu/src/kernel/eventFlag.cpp\<close> and its system calls. One
  step is one critical section under the object's mutex. A thread blocked on the condition
  variable is a record; \<open>t_signaled\<close> says that a \<open>SignalAll\<close> has been issued since it went
  to sleep. \<open>m_waiting_threads\<close> is kept as the counter it is in the code.

  \<open>Cancel\<close> is two critical sections when threads are blocked, since it releases the mutex
  while it waits for them to leave.
\<close>

unbundle bit_operations_syntax

section \<open>State\<close>

type_synonym bits = "64 word"

datatype ef_result = EfOk | EfAlreadyWaiting | EfTimedOut | EfCanceled | EfDeleted

datatype clear_mode = ClearNone | ClearAll | ClearBits

datatype wait_mode = WaitAnd | WaitOr

datatype ef_status = StSet | StCanceled | StDeleted

record ef_thread =
  t_id :: nat
  t_bits :: bits
  t_mode :: wait_mode
  t_clear :: clear_mode
  t_micros :: "nat option"
  t_signaled :: bool

record eflag =
  e_status :: ef_status
  e_waiting :: int
  e_blocked :: "ef_thread list"
  e_name :: string
  e_single :: bool
  e_bits :: bits

section \<open>The mode argument\<close>

definition DecodeEventFlagWaitMode :: "32 word \<Rightarrow> exit_reason + wait_mode \<times> clear_mode" where
  "DecodeEventFlagWaitMode m =
     bindR (if m AND 0xf = 0x01 then Inr WaitAnd
            else if m AND 0xf = 0x02 then Inr WaitOr
            else Inl (Exit ''unknown mode: %u''))
       (\<lambda>wait. bindR (if m AND 0xf0 = 0x00 then Inr ClearNone
            else if m AND 0xf0 = 0x10 then Inr ClearAll
            else if m AND 0xf0 = 0x20 then Inr ClearBits
            else Inl (Exit ''unknown mode: %u''))
         (\<lambda>clear. Inr (wait, clear)))"

section \<open>Critical sections\<close>

definition satisfied :: "wait_mode \<Rightarrow> bits \<Rightarrow> bits \<Rightarrow> bool" where
  "satisfied mode flag want \<longleftrightarrow>
     mode = WaitAnd \<and> flag AND want = want \<or> mode = WaitOr \<and> flag AND want \<noteq> 0"

definition apply_clear :: "clear_mode \<Rightarrow> bits \<Rightarrow> bits \<Rightarrow> bits" where
  "apply_clear clear want flag =
     (case clear of ClearAll \<Rightarrow> 0 | ClearBits \<Rightarrow> flag AND (NOT want) | ClearNone \<Rightarrow> flag)"

text \<open>
  The test at the head of the loop of \<open>Wait\<close>: \<open>Inl\<close> is a return with the result pattern and
  the remaining time, \<open>Inr\<close> the state with the thread blocked.
\<close>

definition remaining_micros :: "nat option \<Rightarrow> nat \<Rightarrow> nat option" where
  "remaining_micros micros elapsed = map_option (\<lambda>m. if elapsed \<ge> m then 0 else m - elapsed) micros"

type_synonym ef_return = "ef_result \<times> bits \<times> nat option"

definition wait_test :: "nat \<Rightarrow> bits \<Rightarrow> wait_mode \<Rightarrow> clear_mode \<Rightarrow> nat option \<Rightarrow> nat \<Rightarrow> eflag \<Rightarrow>
    (ef_return \<times> eflag) + eflag" where
  "wait_test tid want mode clear micros elapsed e =
     (if \<not> satisfied mode (e_bits e) want
      then (if (case micros of None \<Rightarrow> False | Some m \<Rightarrow> elapsed \<ge> m)
            then Inl ((EfTimedOut, e_bits e, remaining_micros micros elapsed), e)
            else Inr (e\<lparr>e_waiting := e_waiting e + 1,
                        e_blocked := e_blocked e @ [\<lparr>t_id = tid, t_bits = want, t_mode = mode,
                          t_clear = clear, t_micros = micros, t_signaled = False\<rparr>]\<rparr>))
      else Inl ((EfOk, e_bits e, remaining_micros micros elapsed),
                e\<lparr>e_bits := apply_clear clear want (e_bits e)\<rparr>))"

definition EF_WaitEnter :: "nat \<Rightarrow> bits \<Rightarrow> wait_mode \<Rightarrow> clear_mode \<Rightarrow> nat option \<Rightarrow> eflag \<Rightarrow>
    (ef_return \<times> eflag) + eflag" where
  "EF_WaitEnter tid want mode clear micros e =
     (if e_single e \<and> e_waiting e > 0 then Inl ((EfAlreadyWaiting, 0, micros), e)
      else wait_test tid want mode clear micros 0 e)"

text \<open>
  A thread comes back from the condition variable, after a signal, a timeout or for no
  reason, and looks at the status before it tests the pattern again.
\<close>

definition EF_WaitResume :: "ef_thread \<Rightarrow> nat \<Rightarrow> eflag \<Rightarrow> (ef_return \<times> eflag) + eflag" where
  "EF_WaitResume t elapsed e =
     (let e = e\<lparr>e_waiting := e_waiting e - 1, e_blocked := remove1 t (e_blocked e)\<rparr>
      in case e_status e of
           StCanceled \<Rightarrow> Inl ((EfCanceled, e_bits e, remaining_micros (t_micros t) elapsed), e)
         | StDeleted \<Rightarrow> Inl ((EfDeleted, e_bits e, remaining_micros (t_micros t) elapsed), e)
         | StSet \<Rightarrow> wait_test (t_id t) (t_bits t) (t_mode t) (t_clear t) (t_micros t) elapsed e)"

definition signal_all :: "eflag \<Rightarrow> eflag" where
  "signal_all e = e\<lparr>e_blocked := map (\<lambda>t. t\<lparr>t_signaled := True\<rparr>) (e_blocked e)\<rparr>"

text \<open>
  \<open>Set\<close>, \<open>Clear\<close> and \<open>Cancel\<close> stop the process on a deleted flag and otherwise wait until
  the status is \<open>Set\<close>: \<open>None\<close> means that the caller is still waiting.
\<close>

definition when_set :: "(eflag \<Rightarrow> 'a) \<Rightarrow> eflag \<Rightarrow> exit_reason + 'a option" where
  "when_set f e = (case e_status e of
     StDeleted \<Rightarrow> Inl (Exit ''m_status == Status::Deleted'')
   | StCanceled \<Rightarrow> Inr None
   | StSet \<Rightarrow> Inr (Some (f e)))"

definition EF_Set :: "bits \<Rightarrow> eflag \<Rightarrow> exit_reason + eflag option" where
  "EF_Set b = when_set (\<lambda>e. signal_all (e\<lparr>e_bits := e_bits e OR b\<rparr>))"

definition EF_Clear :: "bits \<Rightarrow> eflag \<Rightarrow> exit_reason + eflag option" where
  "EF_Clear b = when_set (\<lambda>e. e\<lparr>e_bits := e_bits e AND b\<rparr>)"

definition EF_CancelBegin :: "bits \<Rightarrow> eflag \<Rightarrow> exit_reason + (int \<times> eflag) option" where
  "EF_CancelBegin b =
     when_set (\<lambda>e. (e_waiting e,
       if e_waiting e > 0 then signal_all (e\<lparr>e_status := StCanceled, e_bits := b\<rparr>)
       else signal_all (e\<lparr>e_bits := b\<rparr>)))"

text \<open>The end of the wait loop of \<open>Cancel\<close>, which leaves when no thread is waiting.\<close>

definition EF_CancelEnd :: "eflag \<Rightarrow> eflag option" where
  "EF_CancelEnd e = (if e_waiting e > 0 then None else Some (e\<lparr>e_status := StSet\<rparr>))"

text \<open>The destructor up to the wait for the threads to leave.\<close>

definition EF_Destroy :: "eflag \<Rightarrow> eflag option" where
  "EF_Destroy e = (if e_status e \<noteq> StSet then None
     else Some (signal_all (e\<lparr>e_status := StDeleted\<rparr>)))"

section \<open>System calls\<close>

text \<open>The checks of the attributes; each failure returns the same error.\<close>

definition attr_ok :: "32 word \<Rightarrow> bool" where
  "attr_ok attr \<longleftrightarrow> attr AND (NOT 0x33) = 0
     \<and> attr AND 0x0f \<in> {0x00, 0x01, 0x02} \<and> attr AND 0xf0 \<in> {0x00, 0x10, 0x20}"

definition attr_single :: "32 word \<Rightarrow> bool" where
  "attr_single attr \<longleftrightarrow> attr AND 0xf0 \<noteq> 0x20"

definition KernelCreateEventFlag ::
    "string option \<Rightarrow> 32 word \<Rightarrow> bits \<Rightarrow> bool \<Rightarrow> int \<times> eflag option" where
  "KernelCreateEventFlag name attr init_pattern has_param =
     (case name of
        None \<Rightarrow> (KERNEL_ERROR_EINVAL, None)
      | Some nm \<Rightarrow>
          if has_param \<or> \<not> attr_ok attr then (KERNEL_ERROR_EINVAL, None)
          else (OK, Some \<lparr>e_status = StSet, e_waiting = 0, e_blocked = [], e_name = nm,
                          e_single = attr_single attr, e_bits = init_pattern\<rparr>))"

text \<open>The argument checks of the waiting calls and the error codes of their results.\<close>

definition wait_args :: "bool \<Rightarrow> bits \<Rightarrow> 32 word \<Rightarrow>
    exit_reason + (int + wait_mode \<times> clear_mode)" where
  "wait_args null want m =
     (if null then Inr (Inl KERNEL_ERROR_ESRCH)
      else if want = 0 then Inr (Inl KERNEL_ERROR_EINVAL)
      else bindR (DecodeEventFlagWaitMode m) (\<lambda>d. Inr (Inr d)))"

fun wait_ef_code :: "ef_result \<Rightarrow> int" where
  "wait_ef_code EfOk = OK"
| "wait_ef_code EfAlreadyWaiting = KERNEL_ERROR_EPERM"
| "wait_ef_code EfTimedOut = KERNEL_ERROR_ETIMEDOUT"
| "wait_ef_code EfCanceled = KERNEL_ERROR_ECANCELED"
| "wait_ef_code EfDeleted = KERNEL_ERROR_EACCES"

fun poll_ef_code :: "ef_result \<Rightarrow> int" where
  "poll_ef_code EfOk = OK"
| "poll_ef_code EfAlreadyWaiting = KERNEL_ERROR_EPERM"
| "poll_ef_code EfTimedOut = KERNEL_ERROR_EBUSY"
| "poll_ef_code EfCanceled = KERNEL_ERROR_EBUSY"
| "poll_ef_code EfDeleted = KERNEL_ERROR_EBUSY"

text \<open>\<open>Poll\<close> is \<open>Wait\<close> with a timeout of 0: it never blocks.\<close>

definition KernelPollEventFlag :: "bits \<Rightarrow> 32 word \<Rightarrow> eflag option \<Rightarrow>
    exit_reason + int \<times> bits option \<times> eflag option" where
  "KernelPollEventFlag want m ef =
     bindR (wait_args (ef = None) want m) (\<lambda>a. case a of
         Inl code \<Rightarrow> Inr (code, None, ef)
       | Inr (mode, clear) \<Rightarrow>
           (case EF_WaitEnter 0 want mode clear (Some 0) (the ef) of
              Inl ((r, pat, left), e') \<Rightarrow>
                Inr (poll_ef_code r, if r = EfAlreadyWaiting then None else Some pat, Some e')
            | Inr e' \<Rightarrow> Inr (KERNEL_ERROR_EBUSY, None, Some e')))"

section \<open>Steps\<close>

inductive ef_step :: "eflag \<Rightarrow> eflag \<Rightarrow> bool" where
  enter_return: "EF_WaitEnter tid want mode clear m e = Inl (r, e') \<Longrightarrow> ef_step e e'"
| enter_block: "EF_WaitEnter tid want mode clear m e = Inr e' \<Longrightarrow> ef_step e e'"
| resume_return: "t \<in> set (e_blocked e) \<Longrightarrow> EF_WaitResume t elapsed e = Inl (r, e') \<Longrightarrow> ef_step e e'"
| resume_block: "t \<in> set (e_blocked e) \<Longrightarrow> EF_WaitResume t elapsed e = Inr e' \<Longrightarrow> ef_step e e'"
| set_bits: "EF_Set b e = Inr (Some e') \<Longrightarrow> ef_step e e'"
| clear_bits: "EF_Clear b e = Inr (Some e') \<Longrightarrow> ef_step e e'"
| cancel_begin: "EF_CancelBegin b e = Inr (Some (k, e')) \<Longrightarrow> ef_step e e'"
| cancel_end: "EF_CancelEnd e = Some e' \<Longrightarrow> e_status e = StCanceled \<Longrightarrow> ef_step e e'"
| destroy: "EF_Destroy e = Some e' \<Longrightarrow> ef_step e e'"

definition ef_start :: "eflag \<Rightarrow> bool" where
  "ef_start e \<longleftrightarrow> (\<exists>name attr pat param. KernelCreateEventFlag name attr pat param = (OK, Some e))"

section \<open>Invariant\<close>

text \<open>
  The counter counts the blocked threads, and a thread that no \<open>SignalAll\<close> has reached
  since it blocked waits for a pattern that is not there.
\<close>

definition ef_inv :: "eflag \<Rightarrow> bool" where
  "ef_inv e \<longleftrightarrow> e_waiting e = int (length (e_blocked e))
     \<and> (\<forall>t\<in>set (e_blocked e). \<not> t_signaled t \<longrightarrow> \<not> satisfied (t_mode t) (e_bits e) (t_bits t))"

lemma ef_start_inv: "ef_start e \<Longrightarrow> ef_inv e"
  by (auto simp: ef_start_def KernelCreateEventFlag_def ef_inv_def errno_defs
      split: option.splits if_splits)

lemma satisfied_mono:
  assumes "satisfied mode (flag AND b) want"
  shows "satisfied mode flag want"
proof (cases mode)
  case WaitAnd
  then have "(flag AND b) AND want = want" using assms by (simp add: satisfied_def)
  then have "flag AND want = want" by (metis and.assoc and.commute and.left_idem)
  then show ?thesis using WaitAnd by (simp add: satisfied_def)
next
  case WaitOr
  then have "(flag AND b) AND want \<noteq> 0" using assms by (simp add: satisfied_def)
  then have "flag AND want \<noteq> 0" by (metis and.assoc and.commute bit.conj_zero_right)
  then show ?thesis using WaitOr by (simp add: satisfied_def)
qed

lemma apply_clear_and: "\<exists>b. apply_clear clear want flag = flag AND b"
  by (cases clear) (auto simp: apply_clear_def intro: exI [of _ 0] exI [of _ "-1"])

lemma and_bits_inv:
  assumes "ef_inv e"
  shows "ef_inv (e\<lparr>e_bits := e_bits e AND b\<rparr>)"
proof -
  have "\<not> satisfied (t_mode t) (e_bits e AND b) (t_bits t)"
    if "t \<in> set (e_blocked e)" "\<not> t_signaled t" for t
    using that assms satisfied_mono unfolding ef_inv_def by blast
  then show ?thesis using assms by (simp add: ef_inv_def)
qed

lemma wait_test_inv:
  assumes "ef_inv e"
  shows "wait_test tid want mode clear m el e = Inl (r, e') \<Longrightarrow> ef_inv e'"
    and "wait_test tid want mode clear m el e = Inr e' \<Longrightarrow> ef_inv e'"
proof -
  obtain b where b: "apply_clear clear want (e_bits e) = e_bits e AND b"
    using apply_clear_and by blast
  show "ef_inv e'" if "wait_test tid want mode clear m el e = Inl (r, e')"
  proof -
    have "e' = e \<or> e' = e\<lparr>e_bits := e_bits e AND b\<rparr>"
      using that by (simp add: wait_test_def b split: if_splits)
    then show ?thesis using assms and_bits_inv by blast
  qed
  show "ef_inv e'" if "wait_test tid want mode clear m el e = Inr e'"
    using that assms by (auto simp: wait_test_def ef_inv_def split: if_splits)
qed

lemma remove_thread_inv:
  assumes "ef_inv e" and "t \<in> set (e_blocked e)"
  shows "ef_inv (e\<lparr>e_waiting := e_waiting e - 1, e_blocked := remove1 t (e_blocked e)\<rparr>)"
proof -
  obtain k where "length (e_blocked e) = Suc k" using assms(2) by (cases "e_blocked e") auto
  then have "int (length (remove1 t (e_blocked e))) = int (length (e_blocked e)) - 1"
    using assms(2) by (simp add: length_remove1)
  moreover have "set (remove1 t (e_blocked e)) \<subseteq> set (e_blocked e)" by (rule set_remove1_subset)
  ultimately show ?thesis using assms(1) by (auto simp: ef_inv_def)
qed

lemma signal_all_inv:
  "e_waiting e = int (length (e_blocked e)) \<Longrightarrow> ef_inv (signal_all e)"
  by (auto simp: ef_inv_def signal_all_def)

lemma when_set_Some: "when_set f e = Inr (Some x) \<longleftrightarrow> e_status e = StSet \<and> x = f e"
  by (auto simp: when_set_def split: ef_status.splits)

lemma ef_step_inv:
  assumes "ef_inv e" and "ef_step e e'"
  shows "ef_inv e'"
  using assms(2)
proof (cases rule: ef_step.cases)
  case (enter_return tid want mode clear m r)
  then show ?thesis
    using assms(1) wait_test_inv(1) [OF assms(1)] by (auto simp: EF_WaitEnter_def split: if_splits)
next
  case (enter_block tid want mode clear m)
  then show ?thesis
    using wait_test_inv(2) [OF assms(1)] by (auto simp: EF_WaitEnter_def split: if_splits)
next
  case (resume_return t elapsed r)
  note rem = remove_thread_inv [OF assms(1) resume_return(1)]
  show ?thesis
    using resume_return(2) rem wait_test_inv(1) [OF rem]
    by (auto simp: EF_WaitResume_def Let_def split: ef_status.splits)
next
  case (resume_block t elapsed)
  note rem = remove_thread_inv [OF assms(1) resume_block(1)]
  show ?thesis
    using resume_block(2) wait_test_inv(2) [OF rem]
    by (auto simp: EF_WaitResume_def Let_def split: ef_status.splits)
next
  case (set_bits b)
  then have "e' = signal_all (e\<lparr>e_bits := e_bits e OR b\<rparr>)" by (simp add: EF_Set_def when_set_Some)
  then show ?thesis using assms(1) by (simp add: signal_all_inv ef_inv_def [of e])
next
  case (clear_bits b)
  then have "e' = e\<lparr>e_bits := e_bits e AND b\<rparr>" by (simp add: EF_Clear_def when_set_Some)
  then show ?thesis using assms(1) and_bits_inv by simp
next
  case (cancel_begin b k)
  then have "e' = signal_all (e\<lparr>e_status := StCanceled, e_bits := b\<rparr>)
      \<or> e' = signal_all (e\<lparr>e_bits := b\<rparr>)"
    by (auto simp: EF_CancelBegin_def when_set_Some)
  then show ?thesis using assms(1) by (auto simp: signal_all_inv ef_inv_def [of e])
next
  case cancel_end
  then show ?thesis
    using assms(1) by (auto simp: EF_CancelEnd_def ef_inv_def split: if_splits)
next
  case destroy
  then have "e' = signal_all (e\<lparr>e_status := StDeleted\<rparr>)"
    by (simp add: EF_Destroy_def split: if_splits)
  then show ?thesis using assms(1) by (simp add: signal_all_inv ef_inv_def [of e])
qed

interpretation ef: waiting_object ef_start ef_step ef_inv
  "\<lambda>e. {t \<in> set (e_blocked e). \<not> t_signaled t}" "\<lambda>e t. satisfied (t_mode t) (e_bits e) (t_bits t)"
proof unfold_locales
  show "\<not> satisfied (t_mode t) (e_bits e) (t_bits t)"
    if "ef_inv e" "t \<in> {t \<in> set (e_blocked e). \<not> t_signaled t}" for e t
    using that by (simp add: ef_inv_def)
qed (fact ef_start_inv ef_step_inv)+

section \<open>Properties\<close>

text \<open>
  C15. No wakeup of an event flag is lost: in every reachable state the waiting counter is
  the number of blocked threads, and a blocked thread that no \<open>SignalAll\<close> has reached since
  it blocked waits for a pattern that the flag does not show.
\<close>

theorem event_flag_no_lost_wakeup:
  assumes "ef_start e" and "ef_step\<^sup>*\<^sup>* e e'"
  shows "e_waiting e' = int (length (e_blocked e'))
    \<and> (\<forall>t\<in>set (e_blocked e'). t_signaled t \<or> \<not> satisfied (t_mode t) (e_bits e') (t_bits t))"
  using ef.reach_inv [OF assms] by (auto simp: ef_inv_def)

text \<open>A shared event flag (attribute \<open>0x20\<close>) with an empty pattern.\<close>

definition sample_flag :: eflag where
  "sample_flag = \<lparr>e_status = StSet, e_waiting = 0, e_blocked = [], e_name = ''flag'',
     e_single = False, e_bits = 0\<rparr>"

lemma sample_start: "ef_start sample_flag"
  unfolding ef_start_def
  by (intro exI [of _ "Some ''flag''"] exI [of _ "0x20"] exI [of _ 0] exI [of _ False])
    (simp add: KernelCreateEventFlag_def attr_ok_def attr_single_def sample_flag_def)

definition sample_thread :: "nat \<Rightarrow> bits \<Rightarrow> ef_thread" where
  "sample_thread tid b = \<lparr>t_id = tid, t_bits = b, t_mode = WaitAnd, t_clear = ClearNone,
     t_micros = None, t_signaled = False\<rparr>"

lemma sample_blocks:
  "satisfied WaitAnd (e_bits e) b = False \<Longrightarrow> \<not> e_single e \<Longrightarrow>
     ef_step e (e\<lparr>e_waiting := e_waiting e + 1, e_blocked := e_blocked e @ [sample_thread tid b]\<rparr>)"
  by (rule ef_step.enter_block [where tid = tid and want = b and mode = WaitAnd
      and clear = ClearNone and m = None])
    (simp add: EF_WaitEnter_def wait_test_def sample_thread_def)

theorem event_flag_no_lost_wakeup_witness:
  "\<exists>e. ef_step\<^sup>*\<^sup>* sample_flag e \<and> e_waiting e = 1 \<and> length (e_blocked e) = 1"
proof -
  let ?e = "sample_flag\<lparr>e_waiting := 1, e_blocked := [sample_thread 1 1]\<rparr>"
  have "ef_step sample_flag ?e"
    using sample_blocks [of sample_flag 1 1] by (simp add: sample_flag_def satisfied_def)
  then have run: "ef_step\<^sup>*\<^sup>* sample_flag ?e" by (rule r_into_rtranclp)
  from event_flag_no_lost_wakeup [OF sample_start run] show ?thesis
    using run by (intro exI [of _ ?e]) simp
qed

text \<open>
  A wait succeeds exactly when its bits are there: it returns \<open>Ok\<close> only with a pattern
  that satisfies the mode, reports the pattern before clearing, and then clears nothing,
  everything or exactly the requested bits; any other return leaves the pattern alone.
\<close>

theorem event_flag_wait_exact:
  assumes "EF_WaitEnter tid want mode clear micros e = Inl ((r, pat, left), e')"
  shows "(r = EfOk \<longleftrightarrow> \<not> (e_single e \<and> e_waiting e > 0) \<and> satisfied mode (e_bits e) want)
    \<and> (r = EfOk \<longrightarrow> pat = e_bits e \<and> e' = e\<lparr>e_bits := apply_clear clear want (e_bits e)\<rparr>)
    \<and> (r \<noteq> EfOk \<longrightarrow> e' = e)
    \<and> (\<forall>n. bit (apply_clear clear want (e_bits e)) n \<longleftrightarrow> bit (e_bits e) n
        \<and> clear \<noteq> ClearAll \<and> (clear = ClearBits \<longrightarrow> \<not> bit want n))"
proof -
  have "bit (apply_clear clear want (e_bits e)) n \<longleftrightarrow> bit (e_bits e) n
        \<and> clear \<noteq> ClearAll \<and> (clear = ClearBits \<longrightarrow> \<not> bit want n)" for n
    using bit_imp_le_length [of "e_bits e" n]
    by (cases clear) (auto simp: apply_clear_def bit_simps)
  then show ?thesis
    using assms by (auto simp: EF_WaitEnter_def wait_test_def split: if_splits)
qed

theorem event_flag_wait_exact_witness:
  "EF_WaitEnter 1 4 WaitOr ClearBits None (sample_flag\<lparr>e_bits := 5\<rparr>)
     = Inl ((EfOk, 5, None), sample_flag\<lparr>e_bits := 1\<rparr>)
   \<and> satisfied WaitOr 5 4"
proof -
  have w: "EF_WaitEnter 1 4 WaitOr ClearBits None (sample_flag\<lparr>e_bits := 5\<rparr>)
     = Inl ((EfOk, 5, None), sample_flag\<lparr>e_bits := 1\<rparr>)"
    by (simp add: EF_WaitEnter_def wait_test_def satisfied_def apply_clear_def sample_flag_def
        remaining_micros_def)
  show ?thesis using w event_flag_wait_exact [OF w] by simp
qed


end
