(* ===== verification/EvFlag.thy ===== *)
theory EvFlag
  imports EventFlag
begin

text \<open>
  \<open>src/evflag.cpp\<close>, the event flags the system-call layer of the emulator implements itself:
  a registry of live handles over flags that are never freed, each flag a pattern under a
  mutex with a condition variable. The flag-level definitions are the critical sections of
  the calls; the calls on handles compose them with \<open>Lookup\<close>.

  A thread inside \<open>wait_for\<close> is a record; \<open>w_notified\<close> says that a \<open>notify_all\<close> has reached
  it since it went to sleep.
\<close>

section \<open>Flags\<close>

definition kErrTimeout :: int where "kErrTimeout = 0x8002003C - 2 ^ 32"
definition kErrInval :: int where "kErrInval = 0x80020016 - 2 ^ 32"
definition kErrCanceled :: int where "kErrCanceled = 0x8002005E - 2 ^ 32"

definition kWaitOr :: "32 word" where "kWaitOr = 0x02"
definition kWaitClearAll :: "32 word" where "kWaitClearAll = 0x10"
definition kWaitClearPat :: "32 word" where "kWaitClearPat = 0x20"

lemmas ev_code_defs = kErrTimeout_def kErrInval_def kErrCanceled_def
lemmas ev_mode_defs = kWaitOr_def kWaitClearAll_def kWaitClearPat_def

record ev_waiter =
  w_id :: nat
  w_bits :: bits
  w_mode :: "32 word"
  w_notified :: bool

record flag =
  fl_pattern :: bits
  fl_waiters :: int
  fl_canceled :: bool
  fl_deleted :: bool
  fl_name :: string
  fl_asleep :: "ev_waiter list"

definition Satisfied :: "bits \<Rightarrow> bits \<Rightarrow> 32 word \<Rightarrow> bool" where
  "Satisfied pattern want mode =
     (if want = 0 then True
      else if mode AND kWaitOr \<noteq> 0 then pattern AND want \<noteq> 0
      else pattern AND want = want)"

definition ApplyClear :: "flag \<Rightarrow> bits \<Rightarrow> 32 word \<Rightarrow> flag" where
  "ApplyClear f want mode =
     (if mode AND kWaitClearAll \<noteq> 0 then f\<lparr>fl_pattern := 0\<rparr>
      else if mode AND kWaitClearPat \<noteq> 0 then f\<lparr>fl_pattern := fl_pattern f AND (NOT want)\<rparr>
      else f)"

text \<open>
  \<open>WaitCapMs\<close> reads the bound of a wait from the environment once, \<open>env\<close> being the value of
  \<open>atoi\<close> on the variable if it is set; \<open>wait_ms\<close> is the time \<open>Wait\<close> really waits.
\<close>

definition WaitCapMs :: "int option \<Rightarrow> nat" where
  "WaitCapMs env = (let v = (case env of Some e \<Rightarrow> e | None \<Rightarrow> 5000)
     in nat (if v > 0 then v else 5000))"

definition wait_ms :: "nat \<Rightarrow> nat option \<Rightarrow> nat" where
  "wait_ms cap timeout_us = (case timeout_us of None \<Rightarrow> cap
     | Some us \<Rightarrow> (if us div 1000 < cap then us div 1000 else cap))"

definition wake_condition :: "flag \<Rightarrow> bits \<Rightarrow> 32 word \<Rightarrow> bool" where
  "wake_condition f want mode \<longleftrightarrow> fl_deleted f \<or> fl_canceled f \<or> Satisfied (fl_pattern f) want mode"

text \<open>\<open>notify_all\<close> on the condition variable of the flag.\<close>

definition notify_all :: "flag \<Rightarrow> flag" where
  "notify_all f = f\<lparr>fl_asleep := map (\<lambda>w. w\<lparr>w_notified := True\<rparr>) (fl_asleep f)\<rparr>"

text \<open>
  The end of \<open>Wait\<close>, after \<open>wait_for\<close> has returned \<open>ok\<close>: the code, the pattern stored
  through \<open>result\<close> and the flag.
\<close>

definition wait_end :: "bits \<Rightarrow> 32 word \<Rightarrow> bool \<Rightarrow> flag \<Rightarrow> int \<times> bits \<times> flag" where
  "wait_end want mode ok f =
     (let f = f\<lparr>fl_waiters := fl_waiters f - 1\<rparr>; pat = fl_pattern f
      in if fl_deleted f \<or> fl_canceled f then (kErrCanceled, pat, f)
         else if \<not> ok then (kErrTimeout, pat, f)
         else (OK, pat, ApplyClear f want mode))"

text \<open>
  \<open>wait_for\<close> tests the condition before it sleeps. A wait of no time returns at once with
  the value of the condition.
\<close>

definition Flag_WaitEnter :: "nat \<Rightarrow> bits \<Rightarrow> 32 word \<Rightarrow> flag \<Rightarrow> (int \<times> bits \<times> flag) + flag" where
  "Flag_WaitEnter tid want mode f =
     (let f = f\<lparr>fl_waiters := fl_waiters f + 1\<rparr>
      in if wake_condition f want mode then Inl (wait_end want mode True f)
         else Inr (f\<lparr>fl_asleep := fl_asleep f @
                [\<lparr>w_id = tid, w_bits = want, w_mode = mode, w_notified = False\<rparr>]\<rparr>))"

text \<open>
  A sleeping thread comes back, because it was notified, for no reason or because its time
  is over, and sleeps again if the condition does not hold and there is time left.
\<close>

definition Flag_WaitWake :: "ev_waiter \<Rightarrow> bool \<Rightarrow> flag \<Rightarrow> (int \<times> bits \<times> flag) + flag" where
  "Flag_WaitWake w timed_out f =
     (let f = f\<lparr>fl_asleep := remove1 w (fl_asleep f)\<rparr>
      in if wake_condition f (w_bits w) (w_mode w) then Inl (wait_end (w_bits w) (w_mode w) True f)
         else if timed_out then Inl (wait_end (w_bits w) (w_mode w) False f)
         else Inr (f\<lparr>fl_asleep := fl_asleep f @ [w\<lparr>w_notified := False\<rparr>]\<rparr>))"

definition Flag_Set :: "bits \<Rightarrow> flag \<Rightarrow> flag" where
  "Flag_Set b f = notify_all (f\<lparr>fl_pattern := fl_pattern f OR b\<rparr>)"

definition Flag_Clear :: "bits \<Rightarrow> flag \<Rightarrow> flag" where
  "Flag_Clear b f = f\<lparr>fl_pattern := fl_pattern f AND b\<rparr>"

definition Flag_Poll :: "bits \<Rightarrow> 32 word \<Rightarrow> flag \<Rightarrow> int \<times> bits \<times> flag" where
  "Flag_Poll want mode f =
     (if \<not> Satisfied (fl_pattern f) want mode then (kErrTimeout, fl_pattern f, f)
      else (OK, fl_pattern f, ApplyClear f want mode))"

definition Flag_Delete :: "flag \<Rightarrow> flag" where
  "Flag_Delete f = notify_all (f\<lparr>fl_deleted := True\<rparr>)"

text \<open>\<open>Cancel\<close> is two critical sections; other threads run between them.\<close>

definition Flag_CancelBegin :: "bits \<Rightarrow> flag \<Rightarrow> int \<times> flag" where
  "Flag_CancelBegin b f = (fl_waiters f, notify_all (f\<lparr>fl_pattern := b, fl_canceled := True\<rparr>))"

definition Flag_CancelEnd :: "flag \<Rightarrow> flag" where
  "Flag_CancelEnd f = f\<lparr>fl_canceled := False\<rparr>"

section \<open>Handles\<close>

text \<open>
  A handle is the address of its flag. \<open>new\<close> returns the address of a fresh object; flags
  that have been deleted stay in memory.
\<close>

record ev_registry =
  reg_live :: "nat set"
  reg_heap :: "nat \<rightharpoonup> flag"

definition Lookup :: "nat \<Rightarrow> ev_registry \<Rightarrow> nat option" where
  "Lookup h r = (if h = 0 then None else if h \<in> reg_live r then Some h else None)"

definition new_flag :: "string option \<Rightarrow> bits \<Rightarrow> flag" where
  "new_flag name init_pattern = \<lparr>fl_pattern = init_pattern, fl_waiters = 0, fl_canceled = False,
     fl_deleted = False, fl_name = (case name of None \<Rightarrow> [] | Some s \<Rightarrow> take 31 s), fl_asleep = []\<rparr>"

text \<open>\<open>out_null\<close> says that \<open>out_handle\<close> is null; \<open>addr\<close> is the address \<open>new\<close> returns.\<close>

definition Create :: "bool \<Rightarrow> string option \<Rightarrow> bits \<Rightarrow> nat \<Rightarrow> ev_registry \<Rightarrow>
    int \<times> nat option \<times> ev_registry" where
  "Create out_null name init_pattern addr r =
     (if out_null then (kErrInval, None, r)
      else (OK, Some addr, r\<lparr>reg_live := insert addr (reg_live r),
              reg_heap := (reg_heap r)(addr \<mapsto> new_flag name init_pattern)\<rparr>))"

definition on_flag :: "nat \<Rightarrow> (flag \<Rightarrow> 'a \<times> flag) \<Rightarrow> 'a \<Rightarrow> ev_registry \<Rightarrow> 'a \<times> ev_registry" where
  "on_flag h op fail r = (case Lookup h r of
       None \<Rightarrow> (fail, r)
     | Some a \<Rightarrow> (case reg_heap r a of
         None \<Rightarrow> (fail, r)
       | Some f \<Rightarrow> (let (x, f') = op f in (x, r\<lparr>reg_heap := (reg_heap r)(a \<mapsto> f')\<rparr>))))"

definition Delete :: "nat \<Rightarrow> ev_registry \<Rightarrow> int \<times> ev_registry" where
  "Delete h r = (let (c, r') = on_flag h (\<lambda>f. (OK, Flag_Delete f)) kErrInval r
     in (c, if c = OK then r'\<lparr>reg_live := reg_live r' - {h}\<rparr> else r'))"

definition Set :: "nat \<Rightarrow> bits \<Rightarrow> ev_registry \<Rightarrow> int \<times> ev_registry" where
  "Set h b = on_flag h (\<lambda>f. (OK, Flag_Set b f)) kErrInval"

definition Clear :: "nat \<Rightarrow> bits \<Rightarrow> ev_registry \<Rightarrow> int \<times> ev_registry" where
  "Clear h b = on_flag h (\<lambda>f. (OK, Flag_Clear b f)) kErrInval"

definition Poll :: "nat \<Rightarrow> bits \<Rightarrow> 32 word \<Rightarrow> ev_registry \<Rightarrow> (int \<times> bits option) \<times> ev_registry" where
  "Poll h want mode = on_flag h
     (\<lambda>f. case Flag_Poll want mode f of (c, pat, f') \<Rightarrow> ((c, Some pat), f')) (kErrInval, None)"

text \<open>\<open>Cancel\<close> with no other thread between its critical sections.\<close>

definition Cancel :: "nat \<Rightarrow> bits \<Rightarrow> ev_registry \<Rightarrow> (int \<times> int option) \<times> ev_registry" where
  "Cancel h b = on_flag h
     (\<lambda>f. case Flag_CancelBegin b f of (k, f') \<Rightarrow> ((OK, Some k), Flag_CancelEnd f'))
     (kErrInval, None)"

section \<open>Steps\<close>

inductive flag_step :: "flag \<Rightarrow> flag \<Rightarrow> bool" where
  enter_return: "Flag_WaitEnter tid want mode f = Inl (c, p, f') \<Longrightarrow> flag_step f f'"
| enter_sleep: "Flag_WaitEnter tid want mode f = Inr f' \<Longrightarrow> flag_step f f'"
| wake_return: "w \<in> set (fl_asleep f) \<Longrightarrow> Flag_WaitWake w late f = Inl (c, p, f') \<Longrightarrow> flag_step f f'"
| wake_sleep: "w \<in> set (fl_asleep f) \<Longrightarrow> Flag_WaitWake w late f = Inr f' \<Longrightarrow> flag_step f f'"
| set_pattern: "flag_step f (Flag_Set b f)"
| clear_pattern: "flag_step f (Flag_Clear b f)"
| poll: "Flag_Poll want mode f = (c, p, f') \<Longrightarrow> flag_step f f'"
| delete: "flag_step f (Flag_Delete f)"
| cancel_begin: "Flag_CancelBegin b f = (k, f') \<Longrightarrow> flag_step f f'"
| cancel_end: "flag_step f (Flag_CancelEnd f)"

definition flag_start :: "flag \<Rightarrow> bool" where
  "flag_start f \<longleftrightarrow> (\<exists>name pat. f = new_flag name pat)"

section \<open>Invariant\<close>

definition flag_inv :: "flag \<Rightarrow> bool" where
  "flag_inv f \<longleftrightarrow> fl_waiters f = int (length (fl_asleep f))
     \<and> (\<forall>w\<in>set (fl_asleep f). \<not> w_notified w \<longrightarrow> \<not> wake_condition f (w_bits w) (w_mode w))"

lemma Satisfied_mono:
  assumes "Satisfied (p AND b) want mode"
  shows "Satisfied p want mode"
proof -
  have "satisfied m p want" if "satisfied m (p AND b) want" for m
    using satisfied_mono [OF that] .
  from this [of WaitAnd] this [of WaitOr] show ?thesis
    using assms by (auto simp: Satisfied_def satisfied_def split: if_splits)
qed

lemma ApplyClear_and: "\<exists>b. ApplyClear f want mode = f\<lparr>fl_pattern := fl_pattern f AND b\<rparr>"
  by (auto simp: ApplyClear_def intro: exI [of _ 0] exI [of _ "-1"])

lemma and_pattern_inv:
  assumes "flag_inv f"
  shows "flag_inv (f\<lparr>fl_pattern := fl_pattern f AND b\<rparr>)"
proof -
  have "\<not> wake_condition (f\<lparr>fl_pattern := fl_pattern f AND b\<rparr>) (w_bits w) (w_mode w)"
    if "w \<in> set (fl_asleep f)" "\<not> w_notified w" for w
    using that assms Satisfied_mono by (auto simp: flag_inv_def wake_condition_def)
  then show ?thesis using assms by (simp add: flag_inv_def)
qed

lemma ApplyClear_inv: "flag_inv f \<Longrightarrow> flag_inv (ApplyClear f want mode)"
  using ApplyClear_and [of f want mode] and_pattern_inv by auto

lemma notify_all_inv:
  "fl_waiters f = int (length (fl_asleep f)) \<Longrightarrow> flag_inv (notify_all f)"
  by (auto simp: flag_inv_def notify_all_def)

lemma wait_end_inv:
  "flag_inv (f\<lparr>fl_waiters := fl_waiters f - 1\<rparr>) \<Longrightarrow> wait_end want mode ok f = (c, p, f') \<Longrightarrow> flag_inv f'"
  using ApplyClear_inv by (auto simp: wait_end_def Let_def split: if_splits)

lemma waiter_gone_inv:
  assumes "flag_inv f" and "w \<in> set (fl_asleep f)"
  shows "flag_inv (f\<lparr>fl_asleep := remove1 w (fl_asleep f), fl_waiters := fl_waiters f - 1\<rparr>)"
proof -
  obtain k where "length (fl_asleep f) = Suc k" using assms(2) by (cases "fl_asleep f") auto
  then have "int (length (remove1 w (fl_asleep f))) = int (length (fl_asleep f)) - 1"
    using assms(2) by (simp add: length_remove1)
  moreover have "set (remove1 w (fl_asleep f)) \<subseteq> set (fl_asleep f)" by (rule set_remove1_subset)
  ultimately show ?thesis using assms(1) by (auto simp: flag_inv_def wake_condition_def)
qed

lemma waiter_again_inv:
  assumes "flag_inv f" and "w \<in> set (fl_asleep f)"
    and "\<not> wake_condition f (w_bits w) (w_mode w)"
  shows "flag_inv (f\<lparr>fl_asleep := remove1 w (fl_asleep f) @ [w\<lparr>w_notified := False\<rparr>]\<rparr>)"
proof -
  note gone = waiter_gone_inv [OF assms(1,2)]
  have "int (length (remove1 w (fl_asleep f))) = fl_waiters f - 1"
    using gone by (simp add: flag_inv_def)
  then show ?thesis using gone assms(3) by (auto simp: flag_inv_def wake_condition_def)
qed

lemma flag_step_inv:
  assumes "flag_inv f" and "flag_step f f'"
  shows "flag_inv f'"
  using assms(2)
proof (cases rule: flag_step.cases)
  case (enter_return tid want mode c p)
  then have "wait_end want mode True (f\<lparr>fl_waiters := fl_waiters f + 1\<rparr>) = (c, p, f')"
    by (simp add: Flag_WaitEnter_def Let_def split: if_splits)
  then show ?thesis by (rule wait_end_inv [rotated]) (use assms(1) in simp)
next
  case (enter_sleep tid want mode)
  then show ?thesis using assms(1)
    by (auto simp: Flag_WaitEnter_def Let_def flag_inv_def wake_condition_def split: if_splits)
next
  case (wake_return w late c p)
  then have "\<exists>ok. wait_end (w_bits w) (w_mode w) ok (f\<lparr>fl_asleep := remove1 w (fl_asleep f)\<rparr>) = (c, p, f')"
    by (auto simp: Flag_WaitWake_def Let_def split: if_splits)
  then show ?thesis using waiter_gone_inv [OF assms(1) wake_return(1)]
    by (auto elim: wait_end_inv [rotated])
next
  case (wake_sleep w late)
  then have "f' = f\<lparr>fl_asleep := remove1 w (fl_asleep f) @ [w\<lparr>w_notified := False\<rparr>]\<rparr>"
      and "\<not> wake_condition f (w_bits w) (w_mode w)"
    by (auto simp: Flag_WaitWake_def Let_def wake_condition_def split: if_splits)
  then show ?thesis using waiter_again_inv [OF assms(1) wake_sleep(1)] by simp
next
  case (set_pattern b)
  then show ?thesis using assms(1) by (simp add: Flag_Set_def notify_all_inv flag_inv_def [of f])
next
  case (clear_pattern b)
  then show ?thesis using assms(1) and_pattern_inv by (simp add: Flag_Clear_def)
next
  case (poll want mode c p)
  then show ?thesis using assms(1) ApplyClear_inv by (auto simp: Flag_Poll_def split: if_splits)
next
  case delete
  then show ?thesis using assms(1) by (simp add: Flag_Delete_def notify_all_inv flag_inv_def [of f])
next
  case (cancel_begin b k)
  then show ?thesis using assms(1)
    by (auto simp: Flag_CancelBegin_def notify_all_inv flag_inv_def [of f])
next
  case cancel_end
  then show ?thesis using assms(1)
    by (auto simp: Flag_CancelEnd_def flag_inv_def wake_condition_def)
qed

lemma flag_start_inv: "flag_start f \<Longrightarrow> flag_inv f"
  by (auto simp: flag_start_def new_flag_def flag_inv_def)

interpretation evf: waiting_object flag_start flag_step flag_inv
  "\<lambda>f. {w \<in> set (fl_asleep f). \<not> w_notified w}" "\<lambda>f w. wake_condition f (w_bits w) (w_mode w)"
proof unfold_locales
  show "\<not> wake_condition f (w_bits w) (w_mode w)"
    if "flag_inv f" "w \<in> {w \<in> set (fl_asleep f). \<not> w_notified w}" for f w
    using that by (simp add: flag_inv_def)
qed (fact flag_start_inv flag_step_inv)+

section \<open>Properties\<close>

lemma low_mode_bit: "(m AND kWaitOr \<noteq> 0) = ((m AND 0xf) AND 0x02 \<noteq> (0 :: 32 word))"
  by (simp add: kWaitOr_def and.assoc)

lemma high_mode_bits:
  "(m AND kWaitClearAll \<noteq> 0) = ((m AND 0xf0) AND 0x10 \<noteq> (0 :: 32 word))"
  "(m AND kWaitClearPat \<noteq> 0) = ((m AND 0xf0) AND 0x20 \<noteq> (0 :: 32 word))"
  by (simp_all add: kWaitClearAll_def kWaitClearPat_def and.assoc)

text \<open>
  C36. The two event-flag implementations of the repository agree: for every mode that
  \<open>DecodeEventFlagWaitMode\<close> accepts and every non-empty request, \<open>Satisfied\<close> and
  \<open>ApplyClear\<close> of \<open>src/evflag.cpp\<close> decide and clear as the kernel event flag of
  \<open>gpu/src/kernel/eventFlag.cpp\<close> does.
\<close>

theorem event_flags_agree:
  assumes "DecodeEventFlagWaitMode m = Inr (mode, clear)" and "want \<noteq> 0"
  shows "Satisfied (fl_pattern f) want m = satisfied mode (fl_pattern f) want
    \<and> fl_pattern (ApplyClear f want m) = apply_clear clear want (fl_pattern f)"
proof -
  have low: "mode = WaitAnd \<and> m AND 0xf = 0x01 \<or> mode = WaitOr \<and> m AND 0xf = 0x02"
    and high: "clear = ClearNone \<and> m AND 0xf0 = 0 \<or> clear = ClearAll \<and> m AND 0xf0 = 0x10
      \<or> clear = ClearBits \<and> m AND 0xf0 = 0x20"
    using assms(1) by (auto simp: DecodeEventFlagWaitMode_def split: if_splits)
  have "(m AND kWaitOr \<noteq> 0) = (mode = WaitOr)"
    using low unfolding low_mode_bit by auto
  moreover have "(m AND kWaitClearAll \<noteq> 0) = (clear = ClearAll)"
    using high unfolding high_mode_bits by auto
  moreover have "(m AND kWaitClearPat \<noteq> 0) = (clear = ClearBits)"
    using high unfolding high_mode_bits by auto
  ultimately show ?thesis
    using assms(2) by (cases mode; cases clear)
      (simp_all add: Satisfied_def satisfied_def ApplyClear_def apply_clear_def)
qed

theorem event_flags_agree_witness:
  "DecodeEventFlagWaitMode 0x22 = Inr (WaitOr, ClearBits)
   \<and> Satisfied 6 2 0x22 \<and> fl_pattern (ApplyClear (new_flag None 6) 2 0x22) = 4"
proof -
  have d: "DecodeEventFlagWaitMode 0x22 = Inr (WaitOr, ClearBits)"
    by (simp add: DecodeEventFlagWaitMode_def)
  show ?thesis
    using d event_flags_agree [OF d, of 2 "new_flag None 6"]
    by (simp add: new_flag_def satisfied_def apply_clear_def)
qed

text \<open>
  No wakeup of a flag is lost: in every reachable state the waiter count is the number
  of sleeping threads, and a sleeping thread that no \<open>notify_all\<close> has reached neither has
  its bits in the pattern nor is cancelled or orphaned by \<open>Delete\<close>; a wait that ends
  reports \<open>OK\<close> only if its condition held.
\<close>

theorem flag_no_lost_wakeup:
  assumes "flag_start f" and "flag_step\<^sup>*\<^sup>* f f'"
  shows "fl_waiters f' = int (length (fl_asleep f'))
    \<and> (\<forall>w\<in>set (fl_asleep f'). w_notified w \<or>
        \<not> fl_deleted f' \<and> \<not> fl_canceled f' \<and> \<not> Satisfied (fl_pattern f') (w_bits w) (w_mode w))
    \<and> (\<forall>w\<in>set (fl_asleep f'). \<forall>late p f''. Flag_WaitWake w late f' = Inl (OK, p, f'') \<longrightarrow>
        p = fl_pattern f' \<and> Satisfied p (w_bits w) (w_mode w))"
proof -
  have "flag_inv f'" using evf.reach_inv [OF assms] .
  moreover have "p = fl_pattern f' \<and> Satisfied p (w_bits w) (w_mode w)"
    if "Flag_WaitWake w late f' = Inl (OK, p, f'')" for w late p f''
    using that by (auto simp: Flag_WaitWake_def wait_end_def wake_condition_def Let_def OK_def
        ev_code_defs split: if_splits)
  ultimately show ?thesis by (auto simp: flag_inv_def wake_condition_def)
qed

text \<open>A thread asleep on an empty flag.\<close>

definition one_asleep :: flag where
  "one_asleep = (new_flag None 0)\<lparr>fl_waiters := 1,
     fl_asleep := [\<lparr>w_id = 1, w_bits = 1, w_mode = 1, w_notified = False\<rparr>]\<rparr>"

lemma reach_one_asleep: "flag_start (new_flag None 0) \<and> flag_step (new_flag None 0) one_asleep"
proof
  show "flag_start (new_flag None 0)" by (auto simp: flag_start_def)
  show "flag_step (new_flag None 0) one_asleep"
    by (rule flag_step.enter_sleep [where tid = 1 and want = 1 and mode = 1])
      (simp add: Flag_WaitEnter_def wake_condition_def Satisfied_def new_flag_def one_asleep_def
        kWaitOr_def)
qed

theorem flag_no_lost_wakeup_witness:
  "flag_start (new_flag None 0) \<and> flag_step\<^sup>*\<^sup>* (new_flag None 0) one_asleep
   \<and> fl_waiters one_asleep = 1 \<and> length (fl_asleep one_asleep) = 1"
proof -
  have run: "flag_step\<^sup>*\<^sup>* (new_flag None 0) one_asleep"
    using reach_one_asleep by blast
  show ?thesis
    using run reach_one_asleep flag_no_lost_wakeup [OF conjunct1 [OF reach_one_asleep] run]
    by (simp add: one_asleep_def)
qed

text \<open>
  A cancellation can be lost: when \<open>Cancel\<close> runs both its critical sections before the
  notified thread takes the mutex, the thread finds the condition false and sleeps again,
  notified by nobody, although \<open>Cancel\<close> counted it and reported success. The kernel event
  flag drains its waiters before it leaves the cancelled state.
\<close>

theorem flag_cancel_lost:
  "\<exists>f f' w k. flag_step\<^sup>*\<^sup>* (new_flag None 0) f \<and> fl_asleep f = [w]
     \<and> Flag_CancelBegin 0 f = (k, f') \<and> k = 1
     \<and> Flag_WaitWake (w\<lparr>w_notified := True\<rparr>) False (Flag_CancelEnd f') = Inr f
     \<and> KERNEL_ERROR_ECANCELED \<noteq> kErrCanceled"
proof -
  have "flag_step\<^sup>*\<^sup>* (new_flag None 0) one_asleep" using reach_one_asleep by blast
  moreover have "Flag_CancelBegin 0 one_asleep = (1, one_asleep\<lparr>fl_canceled := True,
      fl_asleep := [(hd (fl_asleep one_asleep))\<lparr>w_notified := True\<rparr>]\<rparr>)"
    by (simp add: Flag_CancelBegin_def notify_all_def one_asleep_def new_flag_def)
  moreover have "Flag_WaitWake ((hd (fl_asleep one_asleep))\<lparr>w_notified := True\<rparr>) False
      (Flag_CancelEnd (one_asleep\<lparr>fl_canceled := True,
        fl_asleep := [(hd (fl_asleep one_asleep))\<lparr>w_notified := True\<rparr>]\<rparr>)) = Inr one_asleep"
    by (simp add: Flag_WaitWake_def Flag_CancelEnd_def wake_condition_def Satisfied_def one_asleep_def
        new_flag_def kWaitOr_def)
  moreover have "fl_asleep one_asleep = [hd (fl_asleep one_asleep)]" by (simp add: one_asleep_def)
  moreover have "KERNEL_ERROR_ECANCELED \<noteq> kErrCanceled" by (simp add: errno_defs kErrCanceled_def)
  ultimately show ?thesis by blast
qed

text \<open>
  Handles are safe: \<open>Create\<close> returns a handle that finds its flag and leaves every
  other handle alone, and after \<open>Delete\<close> every call on the handle fails with \<open>EINVAL\<close> while
  the flag itself stays in memory, deleted and with all its sleepers notified.
\<close>

theorem flag_handles:
  assumes "addr \<noteq> 0" and "addr \<notin> reg_live r" and "reg_heap r addr = None"
    and "Create False name pat addr r = (c, h, r')"
  shows "c = OK \<and> h = Some addr \<and> Lookup addr r' = Some addr
    \<and> reg_heap r' addr = Some (new_flag name pat)
    \<and> (\<forall>x. x \<noteq> addr \<longrightarrow> Lookup x r' = Lookup x r \<and> reg_heap r' x = reg_heap r x)
    \<and> (\<exists>r''. Delete addr r' = (OK, r'') \<and> (\<forall>b m. Set addr b r'' = (kErrInval, r'')
        \<and> Clear addr b r'' = (kErrInval, r'') \<and> Poll addr b m r'' = ((kErrInval, None), r'')
        \<and> Cancel addr b r'' = ((kErrInval, None), r'') \<and> Delete addr r'' = (kErrInval, r''))
        \<and> reg_heap r'' addr = Some ((new_flag name pat)\<lparr>fl_deleted := True\<rparr>))"
proof -
  have c: "c = OK" "h = Some addr"
    and r': "r' = r\<lparr>reg_live := insert addr (reg_live r),
      reg_heap := (reg_heap r)(addr \<mapsto> new_flag name pat)\<rparr>"
    using assms(4) by (auto simp: Create_def)
  obtain r'' where r'': "r'' = r'\<lparr>reg_live := reg_live r' - {addr},
      reg_heap := (reg_heap r')(addr \<mapsto> (new_flag name pat)\<lparr>fl_deleted := True\<rparr>)\<rparr>"
    by simp
  have del: "Delete addr r' = (OK, r'')"
    using assms(1) by (simp add: Delete_def on_flag_def Lookup_def r' r'' Flag_Delete_def
        notify_all_def new_flag_def)
  have gone: "Lookup addr r'' = None" by (simp add: Lookup_def r'')
  have "OK \<noteq> kErrInval" by (simp add: OK_def kErrInval_def)
  then have "Set addr b r'' = (kErrInval, r'') \<and> Clear addr b r'' = (kErrInval, r'')
      \<and> Poll addr b m r'' = ((kErrInval, None), r'') \<and> Cancel addr b r'' = ((kErrInval, None), r'')
      \<and> Delete addr r'' = (kErrInval, r'')" for b m
    using gone by (simp add: Set_def Clear_def Poll_def Cancel_def Delete_def on_flag_def)
  moreover have "reg_heap r'' addr = Some ((new_flag name pat)\<lparr>fl_deleted := True\<rparr>)"
    by (simp add: r'')
  moreover have "Lookup x r' = Lookup x r \<and> reg_heap r' x = reg_heap r x" if "x \<noteq> addr" for x
    using that by (simp add: Lookup_def r')
  moreover have "Lookup addr r' = Some addr \<and> reg_heap r' addr = Some (new_flag name pat)"
    using assms(1) by (simp add: Lookup_def r')
  ultimately show ?thesis using c del by blast
qed

theorem flag_handles_witness:
  "\<exists>r. Create False None 5 4096 \<lparr>reg_live = {}, reg_heap = Map.empty\<rparr> = (OK, Some 4096, r)
     \<and> Lookup 4096 r = Some 4096"
proof -
  let ?r0 = "\<lparr>reg_live = {}, reg_heap = Map.empty\<rparr>"
  obtain c h r where r: "Create False None 5 4096 ?r0 = (c, h, r)" by (metis prod_cases3)
  show ?thesis using flag_handles [OF _ _ _ r] r by simp
qed

end
