(* ===== verification/EventQueue.thy ===== *)
theory EventQueue
  imports Reachability "HOL-Library.Word"
begin

text \<open>
  \<open>class KernelEqueuePrivate\<close> of \<open>gpu/src/kernel/eventQueue.cpp\<close>: a list of registered events,
  at most one for each identifier and filter. A registered event carries the function
  pointers that its owner gave it; all functions the repository passes for them are the
  constructors of three datatypes, with their bodies here. \<open>deadline_ns = 0\<close> means that the
  event is not a timer. Times are those of the monotonic clock, passed by the caller.

  The abstract view of a queue is its backlog: the notifications that are waiting to be
  delivered, in order.
\<close>

unbundle bit_operations_syntax

section \<open>Events\<close>

definition EV_ADD :: "16 word" where "EV_ADD = 0x01"
definition EV_ONESHOT :: "16 word" where "EV_ONESHOT = 0x10"
definition EV_CLEAR :: "16 word" where "EV_CLEAR = 0x20"
definition EV_ERROR :: "16 word" where "EV_ERROR = 0x4000"

lemmas ev_flag_defs = EV_ADD_def EV_ONESHOT_def EV_CLEAR_def EV_ERROR_def

definition KERNEL_EVFILT_USER :: int where "KERNEL_EVFILT_USER = -11"
definition KERNEL_EVFILT_VIDEO_OUT :: int where "KERNEL_EVFILT_VIDEO_OUT = -13"
definition KERNEL_EVFILT_GRAPHICS :: int where "KERNEL_EVFILT_GRAPHICS = -14"
definition KERNEL_EVFILT_HRTIMER :: int where "KERNEL_EVFILT_HRTIMER = -15"

lemmas filter_defs = KERNEL_EVFILT_USER_def KERNEL_EVFILT_VIDEO_OUT_def
  KERNEL_EVFILT_GRAPHICS_def KERNEL_EVFILT_HRTIMER_def

record kernel_event =
  ev_ident :: "64 word"
  ev_filter :: int
  ev_flags :: "16 word"
  ev_fflags :: "32 word"
  ev_data :: "64 word"
  ev_udata :: "64 word"

datatype trigger_func = NoTrigger | UserEventTriggerFunc | AmprEventTriggerFunc
  | EopEventTriggerFunc | TriggerVideoOutEvent

datatype reset_func = NoReset | UserEventResetFunc | EopEventResetFunc | ResetVideoOutEvent

datatype delete_func = NoDelete | EopEventDeleteFunc | RemoveVideoOutEventQueue

record eq_event =
  q_triggered :: bool
  q_deadline :: nat
  q_event :: kernel_event
  q_trigger :: trigger_func
  q_reset :: reset_func
  q_delete :: delete_func
  q_pending :: "kernel_event list"

type_synonym eq_key = "64 word \<times> int"

definition event_key :: "kernel_event \<Rightarrow> eq_key" where
  "event_key ev = (ev_ident ev, ev_filter ev)"

definition q_key :: "eq_event \<Rightarrow> eq_key" where
  "q_key e = event_key (q_event e)"

section \<open>Trigger and reset functions\<close>

text \<open>
  The data of a video-out event: 12 bits of time stamp, a 4-bit counter that saturates and
  48 bits of payload. \<open>tsc\<close> is the value of \<open>KernelReadTsc\<close>.
\<close>

definition MakeVideoOutEventData :: "64 word \<Rightarrow> 64 word \<Rightarrow> 64 word \<Rightarrow> 64 word" where
  "MakeVideoOutEventData tsc current_data payload =
     (let c = drop_bit 12 current_data AND 0xf;
          counter = (if c \<noteq> 0xf then c + 1 else c);
          time = tsc AND 0xfff
      in time OR push_bit 12 counter OR push_bit 16 (payload AND 0x0000ffffffffffff))"

text \<open>\<open>deliver\<close> is the common end of the queueing trigger functions.\<close>

definition deliver :: "kernel_event \<Rightarrow> eq_event \<Rightarrow> eq_event" where
  "deliver ev e = (if q_triggered e then e\<lparr>q_pending := q_pending e @ [ev]\<rparr>
     else e\<lparr>q_event := ev, q_triggered := True\<rparr>)"

fun run_trigger :: "64 word \<Rightarrow> trigger_func \<Rightarrow> 64 word \<Rightarrow> eq_event \<Rightarrow> eq_event" where
  "run_trigger tsc NoTrigger d e = e\<lparr>q_triggered := True\<rparr>"
| "run_trigger tsc UserEventTriggerFunc d e =
     e\<lparr>q_triggered := True, q_event := (q_event e)\<lparr>ev_data := d, ev_udata := d\<rparr>\<rparr>"
| "run_trigger tsc AmprEventTriggerFunc d e = deliver ((q_event e)\<lparr>ev_data := d\<rparr>) e"
| "run_trigger tsc EopEventTriggerFunc d e =
     deliver ((q_event e)\<lparr>ev_fflags := ev_fflags (q_event e) + 1, ev_data := d\<rparr>) e"
| "run_trigger tsc TriggerVideoOutEvent d e =
     deliver ((q_event e)\<lparr>
       ev_fflags := (if ev_fflags (q_event e) < 0xf then ev_fflags (q_event e) + 1
                     else ev_fflags (q_event e)),
       ev_data := MakeVideoOutEventData tsc (ev_data (q_event e)) d\<rparr>) e"

definition clear_event :: "eq_event \<Rightarrow> eq_event" where
  "clear_event e = e\<lparr>q_triggered := False, q_event := (q_event e)\<lparr>ev_fflags := 0, ev_data := 0\<rparr>\<rparr>"

text \<open>
  The reset after a delivery: the reset function of the event, or the \<open>EV_CLEAR\<close> rule of
  \<open>GetTriggeredEvents\<close> if it has none.
\<close>

fun run_reset :: "reset_func \<Rightarrow> eq_event \<Rightarrow> eq_event" where
  "run_reset NoReset e = (if ev_flags (q_event e) AND EV_CLEAR \<noteq> 0 then clear_event e else e)"
| "run_reset UserEventResetFunc e =
     (if ev_flags (q_event e) AND EV_CLEAR \<noteq> 0 then clear_event e else e)"
| "run_reset EopEventResetFunc e = clear_event e"
| "run_reset ResetVideoOutEvent e = clear_event e"

definition pop_pending :: "eq_event \<Rightarrow> eq_event" where
  "pop_pending e = (case q_pending e of [] \<Rightarrow> e
     | p # ps \<Rightarrow> e\<lparr>q_event := p, q_pending := ps, q_triggered := True\<rparr>)"

definition oneshot :: "eq_event \<Rightarrow> bool" where
  "oneshot e \<longleftrightarrow> ev_flags (q_event e) AND EV_ONESHOT \<noteq> 0"

section \<open>Operations of the queue\<close>

fun AddEvent :: "eq_event \<Rightarrow> eq_event list \<Rightarrow> eq_event list" where
  "AddEvent ev [] = [ev]"
| "AddEvent ev (e # es) = (if q_key e = q_key ev then ev # es else e # AddEvent ev es)"

text \<open>\<open>None\<close>: no such event.\<close>

fun TriggerEvent :: "64 word \<Rightarrow> eq_key \<Rightarrow> 64 word \<Rightarrow> eq_event list \<Rightarrow> eq_event list option" where
  "TriggerEvent tsc k d [] = None"
| "TriggerEvent tsc k d (e # es) =
     (if q_key e = k then Some (run_trigger tsc (q_trigger e) d e # es)
      else map_option ((#) e) (TriggerEvent tsc k d es))"

text \<open>The deleted event is returned: its delete function is called on it before it goes.\<close>

fun DeleteEvent :: "eq_key \<Rightarrow> eq_event list \<Rightarrow> (eq_event \<times> eq_event list) option" where
  "DeleteEvent k [] = None"
| "DeleteEvent k (e # es) =
     (if q_key e = k then Some (e, es)
      else map_option (\<lambda>(x, es'). (x, e # es')) (DeleteEvent k es))"

definition TriggerExpiredTimers :: "nat \<Rightarrow> eq_event list \<Rightarrow> eq_event list" where
  "TriggerExpiredTimers now = map (\<lambda>e.
     if \<not> q_triggered e \<and> q_deadline e \<noteq> 0 \<and> q_deadline e \<le> now then e\<lparr>q_triggered := True\<rparr> else e)"

text \<open>
  The inner loop of \<open>GetTriggeredEvents\<close> with \<open>room\<close> entries left in the array: the events
  written, the event afterwards and whether it is erased.
\<close>

fun drain :: "nat \<Rightarrow> eq_event \<Rightarrow> kernel_event list \<times> eq_event \<times> bool" where
  "drain 0 e = ([], e, False)"
| "drain (Suc room) e =
     (if \<not> q_triggered e then ([], e, False)
      else if oneshot e then ([q_event e], e, True)
      else (case drain room (pop_pending (run_reset (q_reset e) e)) of
              (out, e', erase) \<Rightarrow> (q_event e # out, e', erase)))"

fun collect :: "nat \<Rightarrow> eq_event list \<Rightarrow> kernel_event list \<times> eq_event list" where
  "collect room [] = ([], [])"
| "collect room (e # es) =
     (case drain room e of (out, e', erase) \<Rightarrow>
        let kept = (if erase then [] else [e'])
        in if room \<le> length out then (out, kept @ es)
           else (case collect (room - length out) es of
                   (out', es') \<Rightarrow> (out @ out', kept @ es')))"

definition GetTriggeredEvents :: "int \<Rightarrow> nat \<Rightarrow> eq_event list \<Rightarrow>
    exit_reason + kernel_event list \<times> eq_event list" where
  "GetTriggeredEvents num now es =
     (if num < 1 then Inl (Exit ''num < 1'')
      else Inr (collect (nat num) (TriggerExpiredTimers now es)))"


definition nearest_deadline :: "eq_event list \<Rightarrow> nat" where
  "nearest_deadline es = fold (\<lambda>e n. if \<not> q_triggered e \<and> q_deadline e \<noteq> 0
     then min n (q_deadline e) else n) es UINT64_MAX"

definition GetNextTimerWaitMicros :: "nat \<Rightarrow> eq_event list \<Rightarrow> nat option" where
  "GetNextTimerWaitMicros now es =
     (let nearest = nearest_deadline es
      in if nearest = UINT64_MAX then None
         else (let remaining = (if nearest > now then nearest - now else 0);
                   rounded = max 1 (add64 remaining 999 div 1000)
               in Some (min rounded UINT32_MAX)))"

text \<open>
  One turn of the loop of \<open>WaitForEvents\<close>: \<open>Inl\<close> returns, \<open>Inr\<close> waits on the condition
  variable, without a bound (\<open>None\<close>) or for some microseconds. \<open>now\<close> is read for the timers
  and \<open>later\<close> for the wait.
\<close>

definition WaitTurn :: "nat \<Rightarrow> nat \<Rightarrow> nat \<Rightarrow> nat \<Rightarrow> nat \<Rightarrow> eq_event list \<Rightarrow>
    (kernel_event list \<times> eq_event list) + (nat option \<times> eq_event list)" where
  "WaitTurn num micros elapsed now later es =
     (case collect num (TriggerExpiredTimers now es) of (out, es') \<Rightarrow>
        if out \<noteq> [] \<or> elapsed \<ge> micros \<and> micros \<noteq> 0 then Inl (out, es')
        else (let timer = GetNextTimerWaitMicros later es'
              in if micros = 0 \<and> timer = None then Inr (None, es')
                 else (let external = (if micros \<noteq> 0 then micros - elapsed else UINT32_MAX)
                       in Inr (Some (case timer of None \<Rightarrow> external | Some t \<Rightarrow> min external t), es'))))"

section \<open>System calls\<close>

text \<open>
  The queues of the process. A handle is the address of a live queue; \<open>g_equeues\<close> lists the
  handles. \<open>None\<close> as an argument is a null pointer.
\<close>

record equeue =
  eq_name :: string
  eq_events :: "eq_event list"

record eq_world =
  g_equeues :: "nat list"
  eq_heap :: "nat \<rightharpoonup> equeue"

definition KernelCreateEqueue :: "bool \<Rightarrow> string option \<Rightarrow> nat \<Rightarrow> eq_world \<Rightarrow> int \<times> eq_world" where
  "KernelCreateEqueue out_null name addr w =
     (case name of
        None \<Rightarrow> (KERNEL_ERROR_EINVAL, w)
      | Some nm \<Rightarrow> if out_null then (KERNEL_ERROR_EINVAL, w)
          else (OK, w\<lparr>g_equeues := g_equeues w @ [addr],
                      eq_heap := (eq_heap w)(addr \<mapsto> \<lparr>eq_name = nm, eq_events = []\<rparr>)\<rparr>))"

definition set_events :: "nat \<Rightarrow> eq_event list \<Rightarrow> eq_world \<Rightarrow> eq_world" where
  "set_events h es w = (case eq_heap w h of None \<Rightarrow> w
     | Some q \<Rightarrow> w\<lparr>eq_heap := (eq_heap w)(h \<mapsto> q\<lparr>eq_events := es\<rparr>)\<rparr>)"

definition events_of :: "eq_world \<Rightarrow> nat \<Rightarrow> eq_event list" where
  "events_of w h = (case eq_heap w h of None \<Rightarrow> [] | Some q \<Rightarrow> eq_events q)"

definition KernelAddEvent :: "nat option \<Rightarrow> eq_event \<Rightarrow> eq_world \<Rightarrow> int \<times> eq_world" where
  "KernelAddEvent eq ev w = (case eq of None \<Rightarrow> (KERNEL_ERROR_EBADF, w)
     | Some h \<Rightarrow> (OK, set_events h (AddEvent ev (events_of w h)) w))"

definition KernelTriggerEvent :: "64 word \<Rightarrow> nat option \<Rightarrow> eq_key \<Rightarrow> 64 word \<Rightarrow> eq_world \<Rightarrow>
    int \<times> eq_world" where
  "KernelTriggerEvent tsc eq k d w = (case eq of None \<Rightarrow> (KERNEL_ERROR_EBADF, w)
     | Some h \<Rightarrow> (case TriggerEvent tsc k d (events_of w h) of
         None \<Rightarrow> (KERNEL_ERROR_ENOENT, w)
       | Some es \<Rightarrow> (OK, set_events h es w)))"

text \<open>The deleted event, whose delete function runs, is returned with the code.\<close>

definition KernelDeleteEvent :: "nat option \<Rightarrow> eq_key \<Rightarrow> eq_world \<Rightarrow>
    int \<times> eq_event option \<times> eq_world" where
  "KernelDeleteEvent eq k w = (case eq of None \<Rightarrow> (KERNEL_ERROR_EBADF, None, w)
     | Some h \<Rightarrow> (case DeleteEvent k (events_of w h) of
         None \<Rightarrow> (KERNEL_ERROR_ENOENT, None, w)
       | Some (e, es) \<Rightarrow> (OK, Some e, set_events h es w)))"

text \<open>The events of a deleted queue are returned: the destructor calls their delete functions.\<close>

definition KernelDeleteEqueue :: "nat option \<Rightarrow> eq_world \<Rightarrow> int \<times> eq_event list \<times> eq_world" where
  "KernelDeleteEqueue eq w = (case eq of None \<Rightarrow> (KERNEL_ERROR_EBADF, [], w)
     | Some h \<Rightarrow> (OK, events_of w h,
         w\<lparr>g_equeues := removeAll h (g_equeues w), eq_heap := (eq_heap w)(h := None)\<rparr>))"

text \<open>
  \<open>KernelWaitEqueue\<close> with a timeout of 0, and its result code for the number of events the
  other calls of \<open>WaitForEvents\<close> return.
\<close>

definition wait_equeue_code :: "kernel_event list \<Rightarrow> int" where
  "wait_equeue_code out = (if out = [] then KERNEL_ERROR_ETIMEDOUT else OK)"

definition KernelPollEqueue :: "nat option \<Rightarrow> bool \<Rightarrow> int \<Rightarrow> nat \<Rightarrow> eq_world \<Rightarrow>
    int \<times> kernel_event list \<times> eq_world" where
  "KernelPollEqueue eq ev_null num now w = (case eq of None \<Rightarrow> (KERNEL_ERROR_EBADF, [], w)
     | Some h \<Rightarrow>
        if ev_null then (KERNEL_ERROR_EFAULT, [], w)
        else (case GetTriggeredEvents num now (events_of w h) of
                Inl _ \<Rightarrow> (KERNEL_ERROR_EINVAL, [], w)
              | Inr (out, es) \<Rightarrow> (wait_equeue_code out, out, set_events h es w)))"

subsection \<open>User, timer and AMPR events\<close>

text \<open>An event as the callers build it: not triggered and with nothing pending.\<close>

definition fresh_event :: "kernel_event \<Rightarrow> nat \<Rightarrow> trigger_func \<Rightarrow> reset_func \<Rightarrow> eq_event" where
  "fresh_event ev deadline tf rf = \<lparr>q_triggered = False, q_deadline = deadline, q_event = ev,
     q_trigger = tf, q_reset = rf, q_delete = NoDelete, q_pending = []\<rparr>"

definition user_event :: "int \<Rightarrow> 16 word \<Rightarrow> 64 word \<Rightarrow> kernel_event" where
  "user_event uid flags udata = \<lparr>ev_ident = word_of_int uid, ev_filter = KERNEL_EVFILT_USER,
     ev_flags = flags, ev_fflags = 0, ev_data = 0, ev_udata = udata\<rparr>"

definition KernelAddUserEvent :: "nat option \<Rightarrow> int \<Rightarrow> eq_world \<Rightarrow> int \<times> eq_world" where
  "KernelAddUserEvent eq uid = KernelAddEvent eq
     (fresh_event (user_event uid EV_ADD 0) 0 UserEventTriggerFunc UserEventResetFunc)"

definition KernelAddUserEventEdge :: "nat option \<Rightarrow> int \<Rightarrow> eq_world \<Rightarrow> int \<times> eq_world" where
  "KernelAddUserEventEdge eq uid = KernelAddEvent eq
     (fresh_event (user_event uid (EV_ADD OR EV_CLEAR) 0) 0 UserEventTriggerFunc UserEventResetFunc)"

definition KernelTriggerUserEvent :: "64 word \<Rightarrow> nat option \<Rightarrow> int \<Rightarrow> 64 word \<Rightarrow> eq_world \<Rightarrow>
    int \<times> eq_world" where
  "KernelTriggerUserEvent tsc eq uid d = KernelTriggerEvent tsc eq (word_of_int uid, KERNEL_EVFILT_USER) d"

text \<open>Every queue of \<open>g_equeues\<close> in turn; the number says in how many the event was found.\<close>

fun trigger_all :: "64 word \<Rightarrow> eq_key \<Rightarrow> 64 word \<Rightarrow> nat list \<Rightarrow> eq_world \<Rightarrow> nat \<times> eq_world" where
  "trigger_all tsc k d [] w = (0, w)"
| "trigger_all tsc k d (h # hs) w =
     (case KernelTriggerEvent tsc (Some h) k d w of
        (c, w') \<Rightarrow> (case trigger_all tsc k d hs w' of
          (n, w'') \<Rightarrow> ((if c = OK then Suc n else n), w'')))"

definition KernelTriggerUserEventForAll :: "64 word \<Rightarrow> int \<Rightarrow> 64 word \<Rightarrow> eq_world \<Rightarrow> int \<times> eq_world" where
  "KernelTriggerUserEventForAll tsc uid d w =
     (case trigger_all tsc (word_of_int uid, KERNEL_EVFILT_USER) d (g_equeues w) w of
        (n, w') \<Rightarrow> (if n > 0 then OK else KERNEL_ERROR_ENOENT, w'))"

definition KernelDeleteUserEvent :: "nat option \<Rightarrow> int \<Rightarrow> eq_world \<Rightarrow> int \<times> eq_event option \<times> eq_world" where
  "KernelDeleteUserEvent eq uid = KernelDeleteEvent eq (word_of_int uid, KERNEL_EVFILT_USER)"

text \<open>
  A timer: the delay in nanoseconds is checked against overflow and the deadline is clamped.
  \<open>ts\<close> is the pair of seconds and nanoseconds.
\<close>

definition hrtimer_deadline :: "nat \<Rightarrow> int \<times> int \<Rightarrow> nat option" where
  "hrtimer_deadline now ts = (case ts of (sec, nsec) \<Rightarrow>
     if sec < 0 \<or> nsec < 0 \<or> nsec \<ge> 1000000000
        \<or> nat sec > (UINT64_MAX - nat nsec) div 1000000000 then None
     else (let delay = add64 (nat sec * 1000000000 mod 2 ^ 64) (nat nsec)
           in Some (if delay \<le> UINT64_MAX - now then add64 now delay else UINT64_MAX)))"

definition hrtimer_event :: "int \<Rightarrow> nat \<Rightarrow> 64 word \<Rightarrow> eq_event" where
  "hrtimer_event uid deadline udata = fresh_event
     \<lparr>ev_ident = word_of_int uid, ev_filter = KERNEL_EVFILT_HRTIMER, ev_flags = EV_ADD OR EV_ONESHOT,
      ev_fflags = 0, ev_data = 0, ev_udata = udata\<rparr> deadline NoTrigger NoReset"

definition KernelAddHRTimerEvent :: "nat option \<Rightarrow> int \<Rightarrow> (int \<times> int) option \<Rightarrow> 64 word \<Rightarrow> nat \<Rightarrow>
    eq_world \<Rightarrow> int \<times> eq_world" where
  "KernelAddHRTimerEvent eq uid ts udata now w =
     (if eq = None then (KERNEL_ERROR_EBADF, w)
      else (case ts of None \<Rightarrow> (KERNEL_ERROR_EFAULT, w)
        | Some t \<Rightarrow> (case hrtimer_deadline now t of
            None \<Rightarrow> (KERNEL_ERROR_EINVAL, w)
          | Some dl \<Rightarrow> (OK, snd (KernelAddEvent eq (hrtimer_event uid dl udata) w)))))"

definition KernelDeleteHRTimerEvent :: "nat option \<Rightarrow> int \<Rightarrow> eq_world \<Rightarrow>
    int \<times> eq_event option \<times> eq_world" where
  "KernelDeleteHRTimerEvent eq uid = KernelDeleteEvent eq (word_of_int uid, KERNEL_EVFILT_HRTIMER)"

text \<open>The AMPR calls report success also for a null queue.\<close>

definition KernelAddAmprEvent :: "nat option \<Rightarrow> int \<Rightarrow> 64 word \<Rightarrow> eq_world \<Rightarrow> int \<times> eq_world" where
  "KernelAddAmprEvent eq uid udata w = (OK, snd (KernelAddEvent eq
     (fresh_event (user_event uid (EV_ADD OR EV_CLEAR) udata) 0 AmprEventTriggerFunc UserEventResetFunc) w))"

definition KernelDeleteAmprEvent :: "nat option \<Rightarrow> int \<Rightarrow> eq_world \<Rightarrow> int \<times> eq_event option \<times> eq_world" where
  "KernelDeleteAmprEvent eq uid w =
     (case KernelDeleteEvent eq (word_of_int uid, KERNEL_EVFILT_USER) w of (_, x, w') \<Rightarrow> (OK, x, w'))"

text \<open>The getters of an event; a null pointer reads as 0.\<close>

definition event_field :: "(kernel_event \<Rightarrow> 'a::zero) \<Rightarrow> kernel_event option \<Rightarrow> 'a" where
  "event_field f ev = (case ev of None \<Rightarrow> 0 | Some e \<Rightarrow> f e)"

definition KernelGetEventError :: "kernel_event option \<Rightarrow> 32 word" where
  "KernelGetEventError ev = (case ev of None \<Rightarrow> 0
     | Some e \<Rightarrow> if ev_flags e AND EV_ERROR \<noteq> 0 then ucast (ev_data e) else 0)"

subsection \<open>Events of the video output and the graphics queues\<close>

definition AddEqEvent :: "nat option \<Rightarrow> int \<Rightarrow> 64 word \<Rightarrow> eq_world \<Rightarrow> int \<times> eq_world" where
  "AddEqEvent eq uid udata = KernelAddEvent eq
     ((fresh_event \<lparr>ev_ident = word_of_int uid, ev_filter = KERNEL_EVFILT_GRAPHICS, ev_flags = 0,
        ev_fflags = 0, ev_data = word_of_int uid, ev_udata = udata\<rparr> 0
        EopEventTriggerFunc EopEventResetFunc)\<lparr>q_delete := EopEventDeleteFunc\<rparr>)"

section \<open>Invariant\<close>

text \<open>
  Keys are unique; what an event has pending are notifications of the same event with the
  same flags, and there are none unless the event is triggered.
\<close>

definition same_source :: "kernel_event \<Rightarrow> kernel_event \<Rightarrow> bool" where
  "same_source ev p \<longleftrightarrow> event_key p = event_key ev \<and> ev_flags p = ev_flags ev"

definition event_inv :: "eq_event \<Rightarrow> bool" where
  "event_inv e \<longleftrightarrow> (q_pending e \<noteq> [] \<longrightarrow> q_triggered e)
     \<and> list_all (same_source (q_event e)) (q_pending e)"

definition eq_inv :: "eq_event list \<Rightarrow> bool" where
  "eq_inv es \<longleftrightarrow> distinct (map q_key es) \<and> (\<forall>e\<in>set es. event_inv e)"

lemma event_key_simps [simp]:
  "event_key (ev\<lparr>ev_data := d\<rparr>) = event_key ev" "event_key (ev\<lparr>ev_udata := d\<rparr>) = event_key ev"
  "event_key (ev\<lparr>ev_fflags := f\<rparr>) = event_key ev"
  by (simp_all add: event_key_def)

declare q_key_def [simp]

lemma same_source_fields [simp]:
  "same_source (ev\<lparr>ev_data := d\<rparr>) = same_source ev" "same_source (ev\<lparr>ev_udata := d\<rparr>) = same_source ev"
  "same_source (ev\<lparr>ev_fflags := f\<rparr>) = same_source ev"
  "same_source ev (ev\<lparr>ev_data := d\<rparr>)" "same_source ev (ev\<lparr>ev_fflags := f, ev_data := d\<rparr>)"
  by (simp_all add: same_source_def fun_eq_iff)

lemma same_source_trans: "same_source ev p \<Longrightarrow> same_source p = same_source ev"
  by (simp add: same_source_def fun_eq_iff)

lemma deliver_key: "event_key ev = q_key e \<Longrightarrow> q_key (deliver ev e) = q_key e"
  by (simp add: deliver_def)

lemma deliver_inv: "event_inv e \<Longrightarrow> same_source (q_event e) ev \<Longrightarrow> event_inv (deliver ev e)"
  by (auto simp: event_inv_def deliver_def)

lemma run_trigger_key: "q_key (run_trigger tsc tf d e) = q_key e"
  by (cases tf) (simp_all add: deliver_key [unfolded q_key_def])

lemma run_trigger_inv: "event_inv e \<Longrightarrow> event_inv (run_trigger tsc tf d e)"
  by (cases tf) (simp_all add: deliver_inv, simp_all add: event_inv_def)

lemma clear_event_source:
  "same_source (q_event (clear_event e)) = same_source (q_event e)"
  "q_pending (clear_event e) = q_pending e" "\<not> q_triggered (clear_event e)"
  by (simp_all add: clear_event_def)

lemma pop_source:
  assumes "list_all (same_source ev) (q_pending e)" and "same_source ev (q_event e)"
  shows "event_inv (pop_pending e) \<and> same_source ev (q_event (pop_pending e))"
proof (cases "q_pending e")
  case Nil
  then show ?thesis using assms by (simp add: pop_pending_def event_inv_def)
next
  case (Cons p ps)
  then have "list_all (same_source ev) ps" "same_source ev p" using assms(1) by simp_all
  then show ?thesis using same_source_trans by (simp add: pop_pending_def event_inv_def Cons)
qed

lemma run_reset_cases: "run_reset r e = e \<or> run_reset r e = clear_event e"
  by (cases r) auto

lemma reset_pop_source:
  assumes "event_inv e"
  shows "event_inv (pop_pending (run_reset r e)) \<and> same_source (q_event e) (q_event (pop_pending (run_reset r e)))"
proof (rule pop_source)
  show "list_all (same_source (q_event e)) (q_pending (run_reset r e))"
    using run_reset_cases [of r e] assms clear_event_source(2) [of e] by (auto simp: event_inv_def)
  show "same_source (q_event e) (q_event (run_reset r e))"
    using run_reset_cases [of r e] by (auto simp: same_source_def clear_event_def)
qed

lemma reset_pop_inv:
  "event_inv e \<Longrightarrow> event_inv (pop_pending (run_reset r e)) \<and> q_key (pop_pending (run_reset r e)) = q_key e
     \<and> ev_flags (q_event (pop_pending (run_reset r e))) = ev_flags (q_event e)"
  using reset_pop_source [of e r] by (simp add: same_source_def)

lemma drain_facts:
  "event_inv e \<Longrightarrow> drain room e = (out, e', erase) \<Longrightarrow>
     event_inv e' \<and> q_key e' = q_key e \<and> length out \<le> room \<and> list_all (same_source (q_event e)) out
     \<and> (erase \<longrightarrow> oneshot e \<and> out = [q_event e]) \<and> (\<not> q_triggered e \<longrightarrow> out = [] \<and> e' = e \<and> \<not> erase)
     \<and> (room > 0 \<and> q_triggered e \<longrightarrow> q_event e \<in> set out)
     \<and> (oneshot e \<longrightarrow> (if erase then out = [q_event e] else out = []))"
proof (induction room e arbitrary: out e' erase rule: drain.induct)
  case (1 e)
  then show ?case by simp
next
  case (2 room e)
  let ?n = "pop_pending (run_reset (q_reset e) e)"
  show ?case
  proof (cases "q_triggered e \<and> \<not> oneshot e")
    case True
    obtain o1 e1 r1 where d: "drain room ?n = (o1, e1, r1)" by (metis prod_cases3)
    note n = reset_pop_inv [OF 2(2), of "q_reset e"]
    have "\<not> oneshot ?n" using True n by (simp add: oneshot_def)
    moreover have "event_inv e1 \<and> q_key e1 = q_key ?n \<and> length o1 \<le> room
        \<and> list_all (same_source (q_event ?n)) o1 \<and> (r1 \<longrightarrow> oneshot ?n)"
      using 2(1) [OF _ _ n [THEN conjunct1] d] True by simp
    moreover have "out = q_event e # o1" "e' = e1" "erase = r1" using 2(3) True d by simp_all
    moreover have "same_source (q_event ?n) = same_source (q_event e)"
      using reset_pop_source [OF 2(2)] same_source_trans by blast
    moreover have "same_source (q_event e) (q_event e)" by (simp add: same_source_def)
    ultimately show ?thesis using True n by simp
  next
    case False
    then show ?thesis using 2(2,3) by (auto simp: same_source_def split: if_splits)
  qed
qed

lemma expired_inv: "eq_inv es \<Longrightarrow> eq_inv (TriggerExpiredTimers now es)"
proof -
  assume a: "eq_inv es"
  have "map q_key (TriggerExpiredTimers now es) = map q_key es"
    unfolding TriggerExpiredTimers_def map_map by (rule map_cong) simp_all
  moreover have "\<forall>e\<in>set (TriggerExpiredTimers now es). event_inv e"
    using a by (auto simp: eq_inv_def TriggerExpiredTimers_def event_inv_def)
  ultimately show ?thesis using a by (simp only: eq_inv_def)
qed

lemma distinct_shrink:
  "set xs \<subseteq> {a} \<Longrightarrow> distinct xs \<Longrightarrow> set ys' \<subseteq> set ys \<Longrightarrow> distinct ys' \<Longrightarrow> a \<notin> set ys \<Longrightarrow>
     distinct (xs @ ys')"
  by auto

lemma collect_keys:
  "\<forall>e\<in>set es. event_inv e \<Longrightarrow> collect room es = (out, es') \<Longrightarrow>
     set (map q_key es') \<subseteq> set (map q_key es) \<and> (\<forall>e\<in>set es'. event_inv e) \<and> length out \<le> room
     \<and> (distinct (map q_key es) \<longrightarrow> distinct (map q_key es'))
     \<and> (\<forall>x\<in>set out. event_key x \<in> q_key ` {e \<in> set es. q_triggered e})"
proof (induction es arbitrary: room out es')
  case Nil
  then show ?case by simp
next
  case (Cons e es)
  obtain o1 e1 r1 where d: "drain room e = (o1, e1, r1)" by (metis prod_cases3)
  have inv: "event_inv e" "\<forall>e\<in>set es. event_inv e" using Cons(2) by simp_all
  note f = drain_facts [OF inv(1) d]
  have "o1 = [] \<or> q_triggered e" using f by blast
  then have o1: "\<forall>x\<in>set o1. event_key x = q_key e \<and> q_triggered e"
    using f by (auto simp: list_all_iff same_source_def)
  obtain kept where kept: "kept = (if r1 then [] else [e1])" by simp
  have k: "set (map q_key kept) \<subseteq> {q_key e}" "\<forall>e\<in>set kept. event_inv e" "length kept \<le> 1"
    using f kept by simp_all
  have k': "distinct (map q_key kept)" using kept by simp
  show ?case
  proof (cases "room \<le> length o1")
    case True
    then have eq: "out = o1" "es' = kept @ es" using Cons(3) d kept by (simp_all add: Let_def)
    have "\<forall>x\<in>set o1. event_key x \<in> q_key ` {e' \<in> set (e # es). q_triggered e'}"
      using o1 by auto
    moreover have "set (map q_key (kept @ es)) \<subseteq> set (map q_key (e # es))" using k(1) by auto
    moreover have "\<forall>e\<in>set (kept @ es). event_inv e" using k(2) inv(2) by auto
    moreover have "distinct (map q_key (e # es)) \<longrightarrow> distinct (map q_key (kept @ es))"
      using distinct_shrink [OF k(1) k' order_refl, of "map q_key es"] by (simp del: q_key_def)
    moreover have "length o1 \<le> room" using f by blast
    ultimately show ?thesis unfolding eq by blast
  next
    case False
    obtain o2 es2 where c: "collect (room - length o1) es = (o2, es2)" by fastforce
    note IH = Cons(1) [OF inv(2) c]
    have eq: "out = o1 @ o2" "es' = kept @ es2"
      using Cons(3) d c False kept by (simp_all add: Let_def)
    have "length o2 \<le> room - length o1" using IH by blast
    then have "length (o1 @ o2) \<le> room" using False by simp
    moreover have "\<forall>x\<in>set (o1 @ o2). event_key x \<in> q_key ` {e' \<in> set (e # es). q_triggered e'}"
      using IH o1 by auto
    moreover have "set (map q_key (kept @ es2)) \<subseteq> set (map q_key (e # es))" using IH k by auto
    moreover have "\<forall>e\<in>set (kept @ es2). event_inv e" using IH k by auto
    moreover have "distinct (map q_key (e # es)) \<longrightarrow> distinct (map q_key (kept @ es2))"
      using distinct_shrink [OF k(1) k' IH [THEN conjunct1]] IH by (simp del: q_key_def)
    ultimately show ?thesis unfolding eq by blast
  qed
qed

lemma collect_inv: "eq_inv es \<Longrightarrow> collect room es = (out, es') \<Longrightarrow> eq_inv es'"
  using collect_keys [of es room out es'] by (simp add: eq_inv_def)

lemma AddEvent_keys: "q_key ` set (AddEvent ev es) = insert (q_key ev) (q_key ` set es)"
  by (induction es) auto

lemma AddEvent_inv: "eq_inv es \<Longrightarrow> event_inv ev \<Longrightarrow> eq_inv (AddEvent ev es)"
proof (induction es)
  case Nil
  then show ?case by (simp add: eq_inv_def)
next
  case (Cons e es)
  then have "eq_inv es" by (simp add: eq_inv_def)
  with Cons have "eq_inv (AddEvent ev es)" by simp
  then show ?case using Cons(2,3) AddEvent_keys [of ev es] by (auto simp: eq_inv_def)
qed

lemma TriggerEvent_keys: 
  "\<forall>e\<in>set es. event_inv e \<Longrightarrow> TriggerEvent tsc k d es = Some es' \<Longrightarrow>
     map q_key es' = map q_key es \<and> (\<forall>e\<in>set es'. event_inv e)"
  by (induction es arbitrary: es') (auto simp: run_trigger_inv run_trigger_key [unfolded q_key_def] split: if_splits)

lemma DeleteEvent_sub:
  "DeleteEvent k es = Some (x, es') \<Longrightarrow>
     set es' \<subseteq> set es \<and> (distinct (map q_key es) \<longrightarrow> distinct (map q_key es')) \<and> x \<in> set es
     \<and> q_key x = k"
proof (induction es arbitrary: es')
  case (Cons e es)
  show ?case
  proof (cases "q_key e = k")
    case True
    then show ?thesis using Cons(2) by auto
  next
    case False
    then obtain es2 where "DeleteEvent k es = Some (x, es2)" "es' = e # es2"
      using Cons(2) by auto
    then show ?thesis using Cons(1) [of es2] by auto
  qed
qed simp

inductive eq_step :: "eq_event list \<Rightarrow> eq_event list \<Rightarrow> bool" where
  add: "q_pending ev = [] \<Longrightarrow> eq_step es (AddEvent ev es)"
| trigger: "TriggerEvent tsc k d es = Some es' \<Longrightarrow> eq_step es es'"
| delete: "DeleteEvent k es = Some (x, es') \<Longrightarrow> eq_step es es'"
| get: "GetTriggeredEvents num now es = Inr (out, es') \<Longrightarrow> eq_step es es'"

lemma eq_step_inv:
  assumes "eq_inv es" and "eq_step es es'"
  shows "eq_inv es'"
  using assms(2)
proof (cases rule: eq_step.cases)
  case (add ev)
  then show ?thesis using AddEvent_inv [OF assms(1)] by (simp add: event_inv_def)
next
  case (trigger tsc k d)
  then show ?thesis using assms(1) TriggerEvent_keys [of es tsc k d es'] by (simp add: eq_inv_def)
next
  case (delete k x)
  then show ?thesis using assms(1) DeleteEvent_sub [OF delete] by (auto simp: eq_inv_def)
next
  case (get num now out)
  then have "collect (nat num) (TriggerExpiredTimers now es) = (out, es')"
    by (simp add: GetTriggeredEvents_def split: if_splits)
  then show ?thesis using collect_inv expired_inv [OF assms(1)] by blast
qed

interpretation eq: atomic_object "\<lambda>es. es = []" eq_step eq_inv
proof unfold_locales
  show "eq_inv es" if "es = []" for es using that by (simp add: eq_inv_def)
qed (fact eq_step_inv)

end
