(* ===== verification/EventDelivery.thy ===== *)
theory EventDelivery
  imports EventQueue
begin

text \<open>
  What the event queue of \<open>EventQueue\<close> promises its users: notifications are delivered in
  order, none twice and none lost; timers fire at their deadline, once; a waiting thread
  wakes in time for the next timer. Level-triggered user events are the exception.
\<close>

section \<open>The backlog\<close>

definition backlog :: "eq_event \<Rightarrow> kernel_event list" where
  "backlog e = (if q_triggered e then q_event e # q_pending e else [])"

text \<open>
  An event is consumed by its delivery if its reset function clears it, or if it is a
  one-shot event, which is erased.
\<close>

definition clears :: "eq_event \<Rightarrow> bool" where
  "clears e \<longleftrightarrow> q_reset e \<in> {EopEventResetFunc, ResetVideoOutEvent}
     \<or> ev_flags (q_event e) AND EV_CLEAR \<noteq> 0"

definition consumed :: "eq_event \<Rightarrow> bool" where
  "consumed e \<longleftrightarrow> (if oneshot e then q_pending e = [] else clears e)"

lemma clears_reset: "clears e \<Longrightarrow> run_reset (q_reset e) e = clear_event e"
  by (cases "q_reset e") (auto simp: clears_def)

lemma backlog_after_clear:
  assumes "event_inv e" and "q_triggered e"
  shows "backlog (pop_pending (clear_event e)) = q_pending e"
  using assms by (cases "q_pending e")
    (simp_all add: backlog_def pop_pending_def clear_event_def)

lemma consumed_after_clear:
  assumes "event_inv e" and "consumed e" and "\<not> oneshot e"
  shows "consumed (pop_pending (clear_event e)) \<and> \<not> oneshot (pop_pending (clear_event e))
    \<and> event_inv (pop_pending (clear_event e))"
proof -
  have c: "clears e" using assms(2,3) by (simp add: consumed_def)
  note n = reset_pop_inv [OF assms(1), of "q_reset e", unfolded clears_reset [OF c]]
  have "q_reset (pop_pending (clear_event e)) = q_reset e"
    by (simp add: pop_pending_def clear_event_def split: list.split)
  then show ?thesis using n c assms(3) by (simp add: consumed_def clears_def oneshot_def)
qed

lemma drain_consumed:
  assumes "event_inv e" and "consumed e" and "drain room e = (out, e', erase)"
  shows "out = take room (backlog e)
    \<and> (if erase then [] else backlog e') = drop room (backlog e)"
  using assms
proof (induction room e arbitrary: out e' erase rule: drain.induct)
  case (1 e)
  then show ?case by simp
next
  case (2 room e)
  consider "\<not> q_triggered e" | "q_triggered e" "oneshot e" | "q_triggered e" "\<not> oneshot e" by blast
  then show ?case
  proof cases
    case 1
    then show ?thesis using 2(4) by (simp add: backlog_def)
  next
    case 2
    then show ?thesis using \<open>consumed e\<close> \<open>drain (Suc room) e = _\<close>
      by (auto simp: backlog_def consumed_def)
  next
    case 3
    have r: "run_reset (q_reset e) e = clear_event e"
      using 2(3) 3(2) clears_reset by (simp add: consumed_def)
    obtain o1 e1 r1 where d: "drain room (pop_pending (clear_event e)) = (o1, e1, r1)"
      by (metis prod_cases3)
    note n = consumed_after_clear [OF 2(2,3) 3(2)]
    have eq: "out = q_event e # o1" "e' = e1" "erase = r1" using 2(4) 3 r d by simp_all
    have "o1 = take room (q_pending e) \<and> (if r1 then [] else backlog e1) = drop room (q_pending e)"
      using 2(1) [of o1 e1 r1] 3 n d r backlog_after_clear [OF 2(2) 3(1)] by simp
    then show ?thesis using eq 3(1) by (cases r1) (simp_all add: backlog_def [of e])
  qed
qed

lemma backlog_idle: "\<not> q_triggered e \<Longrightarrow> backlog e = []"
  by (simp add: backlog_def)

lemma collect_consumed:
  "\<forall>e\<in>set es. event_inv e \<and> (q_triggered e \<longrightarrow> consumed e) \<Longrightarrow> collect room es = (out, es') \<Longrightarrow>
     out = take room (concat (map backlog es))
     \<and> concat (map backlog es') = drop room (concat (map backlog es))"
proof (induction es arbitrary: room out es')
  case Nil
  then show ?case by simp
next
  case (Cons e es)
  obtain o1 e1 r1 where d: "drain room e = (o1, e1, r1)" by (metis prod_cases3)
  obtain kept where kept: "kept = (if r1 then [] else [e1])" by simp
  have "o1 = take room (backlog e) \<and> concat (map backlog kept) = drop room (backlog e)"
  proof (cases "q_triggered e")
    case True
    then have "event_inv e" "consumed e" using Cons(2) by simp_all
    from drain_consumed [OF this d] show ?thesis by (cases r1) (simp_all add: kept)
  next
    case False
    then have "drain room e = ([], e, False)" by (cases room) simp_all
    then show ?thesis using d kept False by (simp add: backlog_idle)
  qed
  then have o1: "o1 = take room (backlog e)" "concat (map backlog kept) = drop room (backlog e)"
    by simp_all
  show ?case
  proof (cases "room \<le> length o1")
    case True
    then have len: "room \<le> length (backlog e)" using o1(1) by simp
    have "out = o1" "es' = kept @ es" using Cons(3) d kept True by (simp_all add: Let_def)
    then show ?thesis using o1 len by simp
  next
    case False
    then have len: "length (backlog e) < room" "o1 = backlog e" using o1(1) by simp_all
    obtain o2 es2 where c: "collect (room - length o1) es = (o2, es2)" by fastforce
    have "out = o1 @ o2" "es' = kept @ es2" using Cons(3) d c False kept by (simp_all add: Let_def)
    then show ?thesis using Cons(1) [OF _ c] Cons(2) o1 len by simp
  qed
qed

section \<open>One-shot events\<close>

definition hits :: "eq_key \<Rightarrow> kernel_event list \<Rightarrow> kernel_event list" where
  "hits k = filter (\<lambda>x. event_key x = k)"

lemma hits_append [simp]: "hits k (xs @ ys) = hits k xs @ hits k ys"
  by (simp add: hits_def)

lemma hits_none: "k \<notin> event_key ` set xs \<Longrightarrow> hits k xs = []"
  by (auto simp: hits_def filter_empty_conv)

lemma drain_hits:
  assumes "event_inv e" and "drain room e = (out, e', erase)" and "k \<noteq> q_key e"
  shows "hits k out = [] \<and> length out \<le> room \<and> q_key e' = q_key e"
proof -
  have "list_all (same_source (q_event e)) out" "length out \<le> room" "q_key e' = q_key e"
    using drain_facts [OF assms(1,2)] by blast+
  then show ?thesis using assms(3)
    by (auto simp: hits_def filter_empty_conv list_all_iff same_source_def)
qed

lemma collect_rest_hits:
  assumes "\<forall>e\<in>set es. event_inv e" and "collect room es = (out, es')" and "k \<notin> q_key ` set es"
  shows "hits k out = [] \<and> k \<notin> q_key ` set es'"
proof -
  have "event_key x \<in> q_key ` set es" if "x \<in> set out" for x
    using collect_keys [OF assms(1,2)] that by blast
  moreover have "q_key ` set es' \<subseteq> q_key ` set es" using collect_keys [OF assms(1,2)] by simp
  ultimately show ?thesis using assms(3) by (auto intro: hits_none)
qed

lemma collect_oneshot:
  "\<forall>e\<in>set es. event_inv e \<Longrightarrow> distinct (map q_key es) \<Longrightarrow> e \<in> set es \<Longrightarrow> oneshot e \<Longrightarrow>
   collect room es = (out, es') \<Longrightarrow>
     hits (q_key e) out = [] \<and> e \<in> set es' \<and> (q_triggered e \<longrightarrow> length out = room)
     \<or> q_triggered e \<and> hits (q_key e) out = [q_event e] \<and> q_key e \<notin> q_key ` set es'"
proof (induction es arbitrary: room out es')
  case Nil
  then show ?case by simp
next
  case (Cons a es)
  obtain o1 a1 r1 where d: "drain room a = (o1, a1, r1)" by (metis prod_cases3)
  obtain o2 es2 where c: "collect (room - length o1) es = (o2, es2)" by fastforce
  have out: "out = (if room \<le> length o1 then o1 else o1 @ o2)"
    "es' = (if r1 then [] else [a1]) @ (if room \<le> length o1 then es else es2)"
    using Cons(6) d c by (cases "room \<le> length o1"; simp add: Let_def)+
  have inv: "event_inv a" "\<forall>e\<in>set es. event_inv e" using Cons(2) by simp_all
  show ?case
  proof (cases "e = a")
    case True
    then have k: "q_key e \<notin> q_key ` set es" using Cons(3) by simp
    note rest = collect_rest_hits [OF inv(2) c k]
    show ?thesis
    proof (cases "q_triggered e \<and> room > 0")
      case True': True
      then obtain n where "room = Suc n" by (cases room) auto
      then have "o1 = [q_event e]" "r1" using d True True' Cons(5) by auto
      then show ?thesis using True' rest k out by (auto simp: hits_def)
    next
      case False
      then have o1: "o1 = []" "a1 = e" "\<not> r1" using d True by (cases room; simp)+
      then have "hits (q_key e) out = [] \<and> e \<in> set es'" using out rest by (simp add: hits_def)
      moreover have "length out = room" if "q_triggered e" using False that out o1 by simp
      ultimately show ?thesis by blast
    qed
  next
    case False
    then have e: "e \<in> set es" using Cons(4) by simp
    then have k: "q_key e \<noteq> q_key a" using Cons(3) by (metis distinct.simps(2) imageI list.map(2) list.set_map)
    note a = drain_hits [OF inv(1) d k]
    show ?thesis
    proof (cases "room \<le> length o1")
      case True
      then show ?thesis using out a e by auto
    next
      case room: False
      have "hits (q_key e) o2 = [] \<and> e \<in> set es2 \<and> (q_triggered e \<longrightarrow> length o2 = room - length o1)
         \<or> q_triggered e \<and> hits (q_key e) o2 = [q_event e] \<and> q_key e \<notin> q_key ` set es2"
        using Cons(1) [OF inv(2) _ e Cons(5) c] Cons(3) by simp
      then show ?thesis
      proof (elim disjE conjE)
        assume "hits (q_key e) o2 = []" "e \<in> set es2" "q_triggered e \<longrightarrow> length o2 = room - length o1"
        then show ?thesis using out a room by auto
      next
        assume "q_triggered e" "hits (q_key e) o2 = [q_event e]" "q_key e \<notin> q_key ` set es2"
        then show ?thesis using out a room k by auto
      qed
    qed
  qed
qed

section \<open>Triggering a registered event\<close>

lemma trigger_added:
  "TriggerEvent tsc (q_key ev) d (AddEvent ev es) = Some (AddEvent (run_trigger tsc (q_trigger ev) d ev) es)"
  by (induction es) (simp_all add: run_trigger_key [unfolded q_key_def])

lemma added_backlog:
  "\<forall>e\<in>set es. \<not> q_triggered e \<Longrightarrow> concat (map backlog (AddEvent ev es)) = backlog ev"
  by (induction es) (auto simp: backlog_idle concat_eq_Nil_conv)

lemma set_AddEvent: "set (AddEvent ev es) \<subseteq> insert ev (set es)" "ev \<in> set (AddEvent ev es)"
  by (induction es) auto

fun trigger_each :: "64 word \<Rightarrow> eq_key \<Rightarrow> 64 word list \<Rightarrow> eq_event list \<Rightarrow> eq_event list option" where
  "trigger_each tsc k [] es = Some es"
| "trigger_each tsc k (d # ds) es =
     (case TriggerEvent tsc k d es of None \<Rightarrow> None | Some es' \<Rightarrow> trigger_each tsc k ds es')"

definition ampr_event :: "int \<Rightarrow> 64 word \<Rightarrow> eq_event" where
  "ampr_event i udata = fresh_event (user_event i (EV_ADD OR EV_CLEAR) udata) 0
     AmprEventTriggerFunc UserEventResetFunc"

text \<open>The AMPR event after a list of triggers.\<close>

lemma ampr_triggers:
  assumes "q_trigger ev = AmprEventTriggerFunc" and "event_inv ev"
  shows "\<exists>ev'. trigger_each tsc (q_key ev) ds (AddEvent ev es) = Some (AddEvent ev' es)
    \<and> backlog ev' = backlog ev @ map (\<lambda>d. (q_event ev)\<lparr>ev_data := d\<rparr>) ds
    \<and> (q_triggered ev' \<longrightarrow> clears ev' = clears ev \<and> oneshot ev' = oneshot ev)
    \<and> event_inv ev'"
  using assms
proof (induction ds arbitrary: ev)
  case Nil
  then show ?case by auto
next
  case (Cons d ds)
  let ?e = "run_trigger tsc (q_trigger ev) d ev"
  have e: "?e = deliver ((q_event ev)\<lparr>ev_data := d\<rparr>) ev" using Cons(2) by simp
  have q: "q_trigger ?e = AmprEventTriggerFunc" "q_key ?e = q_key ev"
    using Cons(2) e by (simp_all add: deliver_def)
  obtain ev' where ev': "trigger_each tsc (q_key ?e) ds (AddEvent ?e es) = Some (AddEvent ev' es)"
    "backlog ev' = backlog ?e @ map (\<lambda>d. (q_event ?e)\<lparr>ev_data := d\<rparr>) ds"
    "q_triggered ev' \<longrightarrow> clears ev' = clears ?e \<and> oneshot ev' = oneshot ?e"
    "event_inv ev'"
    using Cons(1) [OF q(1) run_trigger_inv [OF Cons(3)]] by blast
  have "trigger_each tsc (q_key ev) (d # ds) (AddEvent ev es) = Some (AddEvent ev' es)"
    using ev'(1) q(2) trigger_added [of tsc ev d es] by (simp del: q_key_def)
  moreover have "backlog ?e = backlog ev @ [(q_event ev)\<lparr>ev_data := d\<rparr>]"
    using Cons(3) by (auto simp: e backlog_def deliver_def event_inv_def)
  moreover have "(\<lambda>d. (q_event ?e)\<lparr>ev_data := d\<rparr>) = (\<lambda>d. (q_event ev)\<lparr>ev_data := d\<rparr>)"
    by (simp add: e deliver_def fun_eq_iff)
  moreover have "clears ?e = clears ev" "oneshot ?e = oneshot ev"
    by (simp_all add: e deliver_def clears_def oneshot_def)
  ultimately show ?case using ev' by (intro exI [of _ ev']) simp
qed

section \<open>Properties\<close>



text \<open>
  AMPR notifications are a queue: after any sequence of triggers on a freshly registered
  AMPR event the next call returns one event for each trigger, in order and with the data of
  the trigger and the user data of the registration, up to the size of the array.
\<close>

theorem ampr_events_fifo:
  assumes "eq_inv es" and "\<forall>e\<in>set es. \<not> q_triggered e \<and> q_deadline e = 0"
  shows "\<exists>es1. trigger_each tsc (q_key (ampr_event i udata)) ds (AddEvent (ampr_event i udata) es) = Some es1
    \<and> (\<forall>n. fst (collect n es1) = map (\<lambda>d. (q_event (ampr_event i udata))\<lparr>ev_data := d\<rparr>) (take n ds))"
proof -
  let ?ev = "ampr_event i udata"
  have ev: "q_trigger ?ev = AmprEventTriggerFunc" "event_inv ?ev" "backlog ?ev = []" "clears ?ev"
    "\<not> oneshot ?ev"
    by (simp_all add: ampr_event_def fresh_event_def event_inv_def backlog_def clears_def oneshot_def
        user_event_def ev_flag_defs)
  obtain ev' where ev': "trigger_each tsc (q_key ?ev) ds (AddEvent ?ev es) = Some (AddEvent ev' es)"
    "backlog ev' = map (\<lambda>d. (q_event ?ev)\<lparr>ev_data := d\<rparr>) ds" "q_triggered ev' \<longrightarrow> consumed ev'"
    "event_inv ev'"
    using ampr_triggers [OF ev(1,2), of tsc ds es] ev by (auto simp: consumed_def)
  have all: "\<forall>e\<in>set (AddEvent ev' es). event_inv e \<and> (q_triggered e \<longrightarrow> consumed e)"
    using ev'(3,4) set_AddEvent(1) [of ev' es] assms by (auto simp: eq_inv_def)
  have "fst (collect n (AddEvent ev' es)) = take n (backlog ev')" for n
    using collect_consumed [OF all, of n] added_backlog [of es ev'] assms(2)
    by (metis prod.collapse)
  then show ?thesis using ev'(1,2) by (simp add: take_map del: q_key_def)
qed

theorem ampr_events_fifo_witness:
  "\<exists>es1. trigger_each 0 (q_key (ampr_event 3 8)) [10, 20, 30] (AddEvent (ampr_event 3 8) []) = Some es1
     \<and> map ev_data (fst (collect 2 es1)) = [10, 20]"
proof -
  have idle: "eq_inv []" "\<forall>e\<in>set []. \<not> q_triggered e \<and> q_deadline e = 0"
    by (simp_all add: eq_inv_def)
  obtain es1 where
    t: "trigger_each 0 (q_key (ampr_event 3 8)) [10, 20, 30] (AddEvent (ampr_event 3 8) []) = Some es1"
    and c: "\<forall>n. fst (collect n es1)
      = map (\<lambda>d. (q_event (ampr_event 3 8))\<lparr>ev_data := d\<rparr>) (take n [10, 20, 30])"
    using ampr_events_fifo [OF idle, of 0 3 8 "[10, 20, 30]"] by (elim exE conjE) (rule that)
  have "map ev_data (fst (collect 2 es1)) = [10, 20]" using c by simp
  with t show ?thesis by (intro exI [of _ es1] conjI)
qed

section \<open>Timers\<close>

lemma hrtimer_deadline_exact:
  assumes "now \<le> UINT64_MAX"
  shows "hrtimer_deadline now (sec, nsec) =
    (if 0 \<le> sec \<and> 0 \<le> nsec \<and> nsec < 1000000000 \<and> sec * 1000000000 + nsec \<le> int UINT64_MAX
     then Some (min (now + nat (sec * 1000000000 + nsec)) UINT64_MAX) else None)"
proof (cases "0 \<le> sec \<and> 0 \<le> nsec \<and> nsec < 1000000000")
  case False
  then show ?thesis by (auto simp: hrtimer_deadline_def)
next
  case True
  then obtain s n where sn: "sec = int s" "nsec = int n" "n < 1000000000"
    by (metis nat_0_le of_nat_less_iff of_nat_numeral)
  have le: "s > (UINT64_MAX - n) div 1000000000 \<longleftrightarrow> \<not> s * 1000000000 + n \<le> UINT64_MAX"
  proof -
    have "s \<le> (UINT64_MAX - n) div 1000000000 \<longleftrightarrow> s * 1000000000 \<le> UINT64_MAX - n"
      by (simp add: less_eq_div_iff_mult_less_eq)
    then show ?thesis using sn(3) by (auto simp: UINT64_MAX_def)
  qed
  show ?thesis
  proof (cases "s * 1000000000 + n \<le> UINT64_MAX")
    case fits: True
    then have small: "s * 1000000000 + n < 2 ^ 64" by (simp add: UINT64_MAX_def)
    then have delay: "add64 (s * 1000000000 mod 2 ^ 64) n = s * 1000000000 + n"
      by (simp add: add64_def U64_def)
    have "add64 now (s * 1000000000 + n) = now + (s * 1000000000 + n)"
      if "s * 1000000000 + n \<le> UINT64_MAX - now"
      using that assms by (simp add: add64_def U64_def UINT64_MAX_def)
    then have "hrtimer_deadline now (sec, nsec) = Some (min (now + (s * 1000000000 + n)) UINT64_MAX)"
      using sn le fits delay assms by (auto simp: hrtimer_deadline_def Let_def min_def)
    moreover have "nat (sec * 1000000000 + nsec) = s * 1000000000 + n" using sn by simp
    moreover have "sec * 1000000000 + nsec \<le> int UINT64_MAX" using sn fits by linarith
    ultimately show ?thesis using True by simp
  next
    case False
    then have "\<not> sec * 1000000000 + nsec \<le> int UINT64_MAX" using sn by linarith
    moreover have "hrtimer_deadline now (sec, nsec) = None"
      using sn le False by (simp add: hrtimer_deadline_def)
    ultimately show ?thesis by simp
  qed
qed

lemma hrtimer_event_fields [simp]:
  "q_deadline (hrtimer_event uid d u) = d" "\<not> q_triggered (hrtimer_event uid d u)"
  "oneshot (hrtimer_event uid d u)" "event_inv (hrtimer_event uid d u)"
  "q_key (hrtimer_event uid d u) = (word_of_int uid, KERNEL_EVFILT_HRTIMER)"
  by (simp_all add: hrtimer_event_def fresh_event_def oneshot_def event_inv_def event_key_def
      ev_flag_defs)

text \<open>
  A high-resolution timer fires exactly once and not before its deadline: the delay is
  accepted exactly when it is a valid time that fits 64 bits, the deadline saturates, a call
  before the deadline leaves the timer in the queue, a call at or after it with room left
  returns its event once and removes it.
\<close>

theorem hrtimer_fires_once:
  assumes "eq_inv es" and "now \<le> UINT64_MAX" and "hrtimer_deadline now (sec, nsec) = Some d"
    and "d \<noteq> 0" and "GetTriggeredEvents num t (AddEvent (hrtimer_event uid d u) es) = Inr (out, es')"
  shows "d = min (now + nat (sec * 1000000000 + nsec)) UINT64_MAX
    \<and> (let k = (word_of_int uid, KERNEL_EVFILT_HRTIMER)
       in (t < d \<longrightarrow> hits k out = [] \<and> hrtimer_event uid d u \<in> set es')
        \<and> (d \<le> t \<and> int (length out) < num \<longrightarrow>
             hits k out = [q_event (hrtimer_event uid d u)] \<and> k \<notin> q_key ` set es')
        \<and> (hits k out \<noteq> [] \<longrightarrow> length (hits k out) = 1 \<and> k \<notin> q_key ` set es'))"
proof -
  let ?ev = "hrtimer_event uid d u" and ?k = "(word_of_int uid, KERNEL_EVFILT_HRTIMER)"
  let ?fire = "\<lambda>e. if \<not> q_triggered e \<and> q_deadline e \<noteq> 0 \<and> q_deadline e \<le> t
    then e\<lparr>q_triggered := True\<rparr> else e"
  let ?es = "TriggerExpiredTimers t (AddEvent ?ev es)"
  have "eq_inv ?es" using AddEvent_inv [OF assms(1)] expired_inv by (simp del: q_key_def)
  then have inv: "\<forall>e\<in>set ?es. event_inv e" "distinct (map q_key ?es)" by (simp_all add: eq_inv_def)
  have c: "collect (nat num) ?es = (out, es')" and num: "num \<ge> 1"
    using assms(5) by (simp_all add: GetTriggeredEvents_def split: if_splits)
  have fired: "?fire ?ev \<in> set ?es"
    using set_AddEvent(2) [of ?ev es] by (simp add: TriggerExpiredTimers_def del: q_key_def)
  have key: "q_key (?fire ?ev) = ?k" "oneshot (?fire ?ev)" "q_event (?fire ?ev) = q_event ?ev"
    by (simp_all add: hrtimer_event_def fresh_event_def oneshot_def event_key_def ev_flag_defs)
  have trig: "q_triggered (?fire ?ev) \<longleftrightarrow> d \<le> t" using assms(4) by simp
  have one: "hits ?k out = [] \<and> ?fire ?ev \<in> set es' \<and> (d \<le> t \<longrightarrow> length out = nat num)
     \<or> d \<le> t \<and> hits ?k out = [q_event ?ev] \<and> ?k \<notin> q_key ` set es'"
    using collect_oneshot [OF inv fired key(2) c, unfolded key trig] .
  have d: "d = min (now + nat (sec * 1000000000 + nsec)) UINT64_MAX"
    using hrtimer_deadline_exact [OF assms(2), of sec nsec] assms(3) by (simp split: if_splits)
  have early: "?fire ?ev = ?ev" if "t < d" using that by simp
  have "length out = nat num \<Longrightarrow> \<not> int (length out) < num" using num by simp
  then have timely: "hits ?k out = [q_event ?ev] \<and> ?k \<notin> q_key ` set es'"
    if "d \<le> t" "int (length out) < num" using one that by blast
  have "hits ?k out = [] \<and> ?ev \<in> set es'" if "t < d"
    using one that early [OF that] by (metis not_less)
  moreover have "length (hits ?k out) = 1 \<and> ?k \<notin> q_key ` set es'" if "hits ?k out \<noteq> []"
    using one that by (metis One_nat_def length_Cons list.size(3))
  ultimately show ?thesis unfolding Let_def using d timely by blast
qed

theorem hrtimer_fires_once_witness:
  "hrtimer_deadline 100 (1, 5) = Some 1000000105
   \<and> (\<exists>es'. GetTriggeredEvents 1 1000000105 (AddEvent (hrtimer_event 7 1000000105 9) [])
      = Inr ([q_event (hrtimer_event 7 1000000105 9)], es'))"
proof -
  have inv: "eq_inv []" and now: "100 \<le> UINT64_MAX" by (simp_all add: eq_inv_def UINT64_MAX_def)
  have d: "hrtimer_deadline 100 (1, 5) = Some 1000000105"
    using hrtimer_deadline_exact [OF now, of 1 5] by (simp add: UINT64_MAX_def)
  have g: "GetTriggeredEvents 1 1000000105 (AddEvent (hrtimer_event 7 1000000105 9) [])
      = Inr ([q_event (hrtimer_event 7 1000000105 9)], [])"
    by (simp add: GetTriggeredEvents_def TriggerExpiredTimers_def hrtimer_event_def fresh_event_def
        oneshot_def ev_flag_defs)
  have "(1000000105::nat) \<noteq> 0" by simp
  from hrtimer_fires_once [OF inv now d this g] d g show ?thesis by blast
qed

subsection \<open>Waiting for the next timer\<close>

definition armed :: "eq_event \<Rightarrow> bool" where
  "armed e \<longleftrightarrow> \<not> q_triggered e \<and> q_deadline e \<noteq> 0"

lemma nearest_fold:
  "fold (\<lambda>e n. if \<not> q_triggered e \<and> q_deadline e \<noteq> 0 then min n (q_deadline e) else n) es m \<le> m
   \<and> (\<forall>e\<in>set es. armed e \<longrightarrow>
        fold (\<lambda>e n. if \<not> q_triggered e \<and> q_deadline e \<noteq> 0 then min n (q_deadline e) else n) es m
          \<le> q_deadline e)
   \<and> (fold (\<lambda>e n. if \<not> q_triggered e \<and> q_deadline e \<noteq> 0 then min n (q_deadline e) else n) es m = m
      \<or> (\<exists>e\<in>set es. armed e \<and> q_deadline e
          = fold (\<lambda>e n. if \<not> q_triggered e \<and> q_deadline e \<noteq> 0 then min n (q_deadline e) else n) es m))"
proof (induction es arbitrary: m)
  case Nil
  then show ?case by simp
next
  case (Cons e es)
  let ?m = "if \<not> q_triggered e \<and> q_deadline e \<noteq> 0 then min m (q_deadline e) else m"
  show ?case
  proof (cases "armed e")
    case True
    then have m: "?m = min m (q_deadline e)" by (simp add: armed_def)
    show ?thesis using Cons [of "min m (q_deadline e)"] True
      by (simp only: fold_simps(2) o_apply m set_simps ball_simps bex_simps) (auto simp: min_def split: if_splits)
  next
    case False
    then have m: "?m = m" by (auto simp: armed_def)
    show ?thesis using Cons [of m] False
      by (simp only: fold_simps(2) o_apply m set_simps ball_simps bex_simps) auto
  qed
qed

lemma nearest_deadline_spec:
  "nearest_deadline es \<le> UINT64_MAX"
  "e \<in> set es \<Longrightarrow> armed e \<Longrightarrow> nearest_deadline es \<le> q_deadline e"
  "nearest_deadline es = UINT64_MAX \<or> (\<exists>e\<in>set es. armed e \<and> q_deadline e = nearest_deadline es)"
  using nearest_fold [of es UINT64_MAX] unfolding nearest_deadline_def by blast+

text \<open>
  A thread that waits for events wakes in time for the next timer: the bound computed for
  the wait is absent exactly when no timer is armed before the end of time, and otherwise
  it reaches the nearest deadline (unless it is clamped to 32 bits) without passing it by a
  whole microsecond.
\<close>

theorem timer_wait_reaches_deadline:
  assumes "\<forall>e\<in>set es. q_deadline e \<le> UINT64_MAX - 999"
  shows "(GetNextTimerWaitMicros now es = None \<longleftrightarrow> (\<forall>e\<in>set es. \<not> armed e))
    \<and> (\<forall>w. GetNextTimerWaitMicros now es = Some w \<longrightarrow> 1 \<le> w \<and> w \<le> UINT32_MAX
      \<and> (\<exists>e\<in>set es. armed e \<and> (q_deadline e \<le> now + 1000 * w \<or> w = UINT32_MAX))
      \<and> (\<forall>e\<in>set es. armed e \<and> 1 < w \<longrightarrow> now + 1000 * (w - 1) < q_deadline e))"
proof (cases "\<exists>e\<in>set es. armed e")
  case False
  then have "nearest_deadline es = UINT64_MAX" using nearest_deadline_spec(3) by blast
  then show ?thesis using False by (auto simp: GetNextTimerWaitMicros_def Let_def)
next
  case True
  then obtain e0 where e0: "e0 \<in> set es" "armed e0" by blast
  then have small: "nearest_deadline es \<le> UINT64_MAX - 999"
    using nearest_deadline_spec(2) assms le_trans by blast
  then have "nearest_deadline es \<noteq> UINT64_MAX" by (simp add: UINT64_MAX_def)
  then obtain e1 where e1: "e1 \<in> set es" "armed e1" "q_deadline e1 = nearest_deadline es"
    using nearest_deadline_spec(3) by blast
  obtain r where r: "r = nearest_deadline es - now" by simp
  have "r + 999 < 2 ^ 64" using small r by (simp add: UINT64_MAX_def)
  then have exact: "add64 r 999 = r + 999" by (simp add: add64_def U64_def)
  have wait: "GetNextTimerWaitMicros now es = Some (min (max 1 ((r + 999) div 1000)) UINT32_MAX)"
    using \<open>nearest_deadline es \<noteq> UINT64_MAX\<close> exact
    by (auto simp: GetNextTimerWaitMicros_def Let_def r)
  obtain q where q: "q = (r + 999) div 1000" "r \<le> 1000 * q" "1000 * q \<le> r + 999" by simp
  have bounds: "1 \<le> w \<and> w \<le> UINT32_MAX \<and> (nearest_deadline es \<le> now + 1000 * w \<or> w = UINT32_MAX)
      \<and> (1 < w \<longrightarrow> now + 1000 * (w - 1) < nearest_deadline es)"
    if "w = min (max 1 q) UINT32_MAX" for w
  proof -
    have "1 \<le> w" "w \<le> UINT32_MAX" using that by (simp_all add: UINT32_MAX_def)
    moreover have "w = UINT32_MAX \<or> q \<le> w" using that by linarith
    moreover have "1 < w \<longrightarrow> w \<le> q" using that by linarith
    moreover have "now + 1000 * (w - 1) < nearest_deadline es" if "1 < w" "w \<le> q"
      using that q(3) r by linarith
    moreover have "nearest_deadline es \<le> now + 1000 * w" if "q \<le> w"
      using that q(2) r by linarith
    ultimately show ?thesis by blast
  qed
  have later: "1 < w \<longrightarrow> now + 1000 * (w - 1) < q_deadline e"
    if "w = min (max 1 q) UINT32_MAX" "e \<in> set es" "armed e" for w e
    using bounds [OF that(1)] nearest_deadline_spec(2) [OF that(2,3)] by linarith
  have "1 \<le> w \<and> w \<le> UINT32_MAX
      \<and> (\<exists>e\<in>set es. armed e \<and> (q_deadline e \<le> now + 1000 * w \<or> w = UINT32_MAX))
      \<and> (\<forall>e\<in>set es. armed e \<and> 1 < w \<longrightarrow> now + 1000 * (w - 1) < q_deadline e)"
    if "GetNextTimerWaitMicros now es = Some w" for w
  proof -
    have w: "w = min (max 1 q) UINT32_MAX" using that wait q(1) by simp
    show ?thesis using bounds [OF w] later [OF w] e1 by metis
  qed
  then show ?thesis using wait True by auto
qed

theorem timer_wait_reaches_deadline_witness:
  "GetNextTimerWaitMicros 500 [hrtimer_event 7 3000 9] = Some 3 \<and> (3000::nat) \<le> 500 + 1000 * 3"
proof -
  have small: "\<forall>e\<in>set [hrtimer_event 7 3000 9]. q_deadline e \<le> UINT64_MAX - 999"
    by (simp add: UINT64_MAX_def)
  have "GetNextTimerWaitMicros 500 [hrtimer_event 7 3000 9] = Some 3"
    by (simp add: GetNextTimerWaitMicros_def nearest_deadline_def uint_max_defs add64_def U64_def)
  with timer_wait_reaches_deadline [OF small, of 500] show ?thesis by simp
qed

section \<open>Level-triggered user events\<close>

text \<open>
  A level-triggered user event floods its reader: once triggered, an event registered with
  \<open>KernelAddUserEvent\<close> fills the whole array of a call with copies of itself and stays
  triggered, so that any event registered after it is never reached.
\<close>

theorem level_event_floods:
  "\<exists>e. TriggerEvent tsc (word_of_int uid, KERNEL_EVFILT_USER) d
        [fresh_event (user_event uid EV_ADD 0) 0 UserEventTriggerFunc UserEventResetFunc, other]
        = Some [e, other]
     \<and> q_triggered e \<and> (\<forall>n. collect n [e, other] = (replicate n (q_event e), [e, other]))"
proof -
  let ?e = "(fresh_event (user_event uid EV_ADD 0) 0 UserEventTriggerFunc UserEventResetFunc)
    \<lparr>q_triggered := True, q_event := (user_event uid EV_ADD 0)\<lparr>ev_data := d, ev_udata := d\<rparr>\<rparr>"
  have trig: "TriggerEvent tsc (word_of_int uid, KERNEL_EVFILT_USER) d
        [fresh_event (user_event uid EV_ADD 0) 0 UserEventTriggerFunc UserEventResetFunc, other]
        = Some [?e, other]"
    by (simp add: fresh_event_def user_event_def event_key_def)
  have again: "pop_pending (run_reset (q_reset ?e) ?e) = ?e" and level: "\<not> oneshot ?e" "q_triggered ?e"
    by (simp_all add: fresh_event_def user_event_def pop_pending_def oneshot_def ev_flag_defs)
  have "drain n ?e = (replicate n (q_event ?e), ?e, False)" for n
  proof (induction n)
    case (Suc n)
    then show ?case using again level by (simp only: drain.simps) simp
  qed simp
  then have "collect n [?e, other] = (replicate n (q_event ?e), [?e, other])" for n
    by simp
  then show ?thesis using trig level(2) by blast
qed

end
