(* ===== verification/EventSources.thy ===== *)
theory EventSources
  imports EventDelivery
begin

text \<open>
  The sources of events that keep their own lists of event queues: the video output
  (\<open>gpu/src/graphics/presentation/videoOut.cpp\<close>) and the end-of-pipe interrupts of the render
  context (\<open>host_gpu/renderer/renderContext.cpp\<close>, \<open>sync.cpp\<close>). A queue that deletes an event
  calls the delete function of its owner, which removes the queue from the list; the owner's
  list and the events of the queues therefore have to agree. There is one video output
  (handle 1). Each call is one step; \<open>video_locks\<close> at the end is about the locks inside them.
\<close>

section \<open>State\<close>

datatype video_kind = Flip | Vblank | PreVblankStart | OutputMode

definition VIDEO_OUT_OUTPUT_MODE_DEFAULT :: "64 word" where "VIDEO_OUT_OUTPUT_MODE_DEFAULT = 1"
definition VIDEO_OUT_OUTPUT_MODE_119_88HZ :: "64 word" where "VIDEO_OUT_OUTPUT_MODE_119_88HZ = 0xF"
definition VIDEO_OUT_ERROR_INVALID_VALUE :: int where "VIDEO_OUT_ERROR_INVALID_VALUE = -2144796671"
definition VIDEO_OUT_ERROR_INVALID_ADDRESS :: int where "VIDEO_OUT_ERROR_INVALID_ADDRESS = -2144796670"
definition VIDEO_OUT_ERROR_INVALID_HANDLE :: int where "VIDEO_OUT_ERROR_INVALID_HANDLE = -2144796661"
definition VIDEO_OUT_ERROR_INVALID_EVENT_QUEUE :: int where "VIDEO_OUT_ERROR_INVALID_EVENT_QUEUE = -2144796660"
definition VIDEO_OUT_ERROR_INVALID_EVENT :: int where "VIDEO_OUT_ERROR_INVALID_EVENT = -2144796659"
definition VIDEO_OUT_ERROR_UNSUPPORTED_OUTPUT_MODE :: int where "VIDEO_OUT_ERROR_UNSUPPORTED_OUTPUT_MODE = -2144796650"
definition VIDEO_OUT_ERROR_UNAVAILABLE_OUTPUT_MODE :: int where "VIDEO_OUT_ERROR_UNAVAILABLE_OUTPUT_MODE = -2144796647"
definition VIDEO_OUT_ERROR_INVALID_OPTION :: int where "VIDEO_OUT_ERROR_INVALID_OPTION = -2144796646"

lemmas video_error_defs = VIDEO_OUT_ERROR_INVALID_VALUE_def VIDEO_OUT_ERROR_INVALID_ADDRESS_def
  VIDEO_OUT_ERROR_INVALID_HANDLE_def VIDEO_OUT_ERROR_INVALID_EVENT_QUEUE_def
  VIDEO_OUT_ERROR_INVALID_EVENT_def VIDEO_OUT_ERROR_UNSUPPORTED_OUTPUT_MODE_def
  VIDEO_OUT_ERROR_UNAVAILABLE_OUTPUT_MODE_def VIDEO_OUT_ERROR_INVALID_OPTION_def

text \<open>
  \<open>vo_queues\<close> are the four vectors that \<open>VideoOutEventQueuesFor\<close> selects from; \<open>None\<close> is the
  null pointer a removed queue leaves.
\<close>

record video_config =
  vo_opened :: bool
  vo_closing :: bool
  vo_flip_rate :: int
  vo_queues :: "video_kind \<Rightarrow> nat option list"
  vo_output_mode :: "64 word"
  vo_pre_vblank :: "64 word"
  vo_vblank :: "64 word"

record eop_entry =
  eop_eq :: nat
  eop_id :: int
  eop_count :: int

record event_world =
  es_queues :: eq_world
  es_video :: video_config
  es_eops :: "eop_entry list"

fun VideoOutEventId :: "video_kind \<Rightarrow> 64 word" where
  "VideoOutEventId Flip = 0"
| "VideoOutEventId Vblank = 1"
| "VideoOutEventId PreVblankStart = 2"
| "VideoOutEventId OutputMode = 8"

definition GetVideoOutEventKind :: "64 word \<Rightarrow> exit_reason + video_kind" where
  "GetVideoOutEventKind n =
     (if n = 0 then Inr Flip else if n = 1 then Inr Vblank else if n = 2 then Inr PreVblankStart
      else if n = 8 then Inr OutputMode else Inl (Exit ''unsupported video-out event id''))"

abbreviation video_key :: "video_kind \<Rightarrow> eq_key" where
  "video_key k \<equiv> (VideoOutEventId k, KERNEL_EVFILT_VIDEO_OUT)"

definition set_queues :: "video_kind \<Rightarrow> nat option list \<Rightarrow> video_config \<Rightarrow> video_config" where
  "set_queues k qs c = c\<lparr>vo_queues := (vo_queues c)(k := qs)\<rparr>"

section \<open>Delete functions\<close>

text \<open>The first entry for the queue becomes null; \<open>None\<close> if there is none.\<close>

fun null_entry :: "nat \<Rightarrow> nat option list \<Rightarrow> nat option list option" where
  "null_entry h [] = None"
| "null_entry h (q # qs) =
     (if q = Some h then Some (None # qs) else map_option ((#) q) (null_entry h qs))"

definition VideoOutRemoveQueue :: "nat \<Rightarrow> eq_event \<Rightarrow> video_config \<Rightarrow>
    exit_reason + video_config" where
  "VideoOutRemoveQueue h e c =
     (if ev_filter (q_event e) \<noteq> KERNEL_EVFILT_VIDEO_OUT then Inl (Exit ''not a video-out event'')
      else bindR (GetVideoOutEventKind (ev_ident (q_event e))) (\<lambda>k.
        if vo_queues c k = [] then Inl (Exit ''no event queues'')
        else (case null_entry h (vo_queues c k) of
                None \<Rightarrow> Inl (Exit ''event queue not registered'')
              | Some qs \<Rightarrow> Inr (set_queues k qs c))))"

definition GRAPHICS_EVENT_QUEUED_GRAPHICS_INTERRUPT :: int where "GRAPHICS_EVENT_QUEUED_GRAPHICS_INTERRUPT = 0"
definition GRAPHICS_EVENT_EOP :: int where "GRAPHICS_EVENT_EOP = 0x40"
definition AGC_USER_INTERRUPT_EVENT :: int where "AGC_USER_INTERRUPT_EVENT = 0x1800"

definition eop_event :: "int \<Rightarrow> bool" where
  "eop_event n \<longleftrightarrow> n = GRAPHICS_EVENT_QUEUED_GRAPHICS_INTERRUPT \<or> n = GRAPHICS_EVENT_EOP"

fun AddEopEq :: "nat \<Rightarrow> int \<Rightarrow> eop_entry list \<Rightarrow> eop_entry list" where
  "AddEopEq h n [] = [\<lparr>eop_eq = h, eop_id = n, eop_count = 1\<rparr>]"
| "AddEopEq h n (x # xs) = (if eop_eq x = h \<and> eop_id x = n
     then x\<lparr>eop_count := eop_count x + 1\<rparr> # xs else x # AddEopEq h n xs)"

fun DeleteEopEq :: "nat \<Rightarrow> int \<Rightarrow> eop_entry list \<Rightarrow> eop_entry list" where
  "DeleteEopEq h n [] = []"
| "DeleteEopEq h n (x # xs) = (if eop_eq x = h \<and> eop_id x = n
     then (let c = eop_count x - 1 in if c = 0 then xs else x\<lparr>eop_count := c\<rparr> # xs)
     else x # DeleteEopEq h n xs)"

definition EopEventDelete :: "nat \<Rightarrow> eq_event \<Rightarrow> eop_entry list \<Rightarrow> exit_reason + eop_entry list" where
  "EopEventDelete h e xs =
     (if ev_filter (q_event e) \<noteq> KERNEL_EVFILT_GRAPHICS then Inl (Exit ''not a graphics event'')
      else (let n = sint (ucast (ev_ident (q_event e)) :: 32 word)
            in Inr (if ev_ident (q_event e) = word_of_int GRAPHICS_EVENT_QUEUED_GRAPHICS_INTERRUPT
                       \<or> ev_ident (q_event e) = word_of_int GRAPHICS_EVENT_EOP
                    then DeleteEopEq h n xs else xs)))"

text \<open>The delete function of an event of queue \<open>h\<close>.\<close>

definition run_delete :: "nat \<Rightarrow> eq_event \<Rightarrow> event_world \<Rightarrow> exit_reason + event_world" where
  "run_delete h e w = (case q_delete e of
       NoDelete \<Rightarrow> Inr w
     | RemoveVideoOutEventQueue \<Rightarrow>
         bindR (VideoOutRemoveQueue h e (es_video w)) (\<lambda>c. Inr (w\<lparr>es_video := c\<rparr>))
     | EopEventDeleteFunc \<Rightarrow>
         bindR (EopEventDelete h e (es_eops w)) (\<lambda>xs. Inr (w\<lparr>es_eops := xs\<rparr>)))"

text \<open>\<open>DeleteEvent\<close> and the destructor of a queue, with the delete functions they call.\<close>

definition DeleteEventCall :: "nat option \<Rightarrow> eq_key \<Rightarrow> event_world \<Rightarrow> exit_reason + int \<times> event_world" where
  "DeleteEventCall eq k w = (case KernelDeleteEvent eq k (es_queues w) of
       (c, None, q) \<Rightarrow> Inr (c, w)
     | (c, Some e, q) \<Rightarrow> bindR (run_delete (the eq) e w) (\<lambda>w. Inr (c, w\<lparr>es_queues := q\<rparr>)))"

fun run_deletes :: "nat \<Rightarrow> eq_event list \<Rightarrow> event_world \<Rightarrow> exit_reason + event_world" where
  "run_deletes h [] w = Inr w"
| "run_deletes h (e # es) w = bindR (run_delete h e w) (run_deletes h es)"

definition DeleteEqueueCall :: "nat option \<Rightarrow> event_world \<Rightarrow> exit_reason + int \<times> event_world" where
  "DeleteEqueueCall eq w = (case KernelDeleteEqueue eq (es_queues w) of
       (c, es, q) \<Rightarrow> bindR (case eq of None \<Rightarrow> Inr w | Some h \<Rightarrow> run_deletes h es w)
                        (\<lambda>w. Inr (c, w\<lparr>es_queues := q\<rparr>)))"

section \<open>Calls of the video output\<close>

definition VideoOutGet :: "int \<Rightarrow> event_world \<Rightarrow> bool" where
  "VideoOutGet handle w \<longleftrightarrow> handle = 1 \<and> vo_opened (es_video w)"

fun TriggerVideoOutEventsLocked :: "64 word \<Rightarrow> nat option list \<Rightarrow> video_kind \<Rightarrow> 64 word \<Rightarrow> eq_world \<Rightarrow>
    exit_reason + eq_world" where
  "TriggerVideoOutEventsLocked tsc [] k d w = Inr w"
| "TriggerVideoOutEventsLocked tsc (None # qs) k d w = TriggerVideoOutEventsLocked tsc qs k d w"
| "TriggerVideoOutEventsLocked tsc (Some h # qs) k d w =
     (case KernelTriggerEvent tsc (Some h) (video_key k) d w of
        (c, w) \<Rightarrow> if c \<noteq> OK then Inl (Exit ''cannot trigger video-out event'')
                  else TriggerVideoOutEventsLocked tsc qs k d w)"

text \<open>The trigger of one kind on the current state, as the callers make it.\<close>

definition VideoTrigger :: "64 word \<Rightarrow> video_kind \<Rightarrow> 64 word \<Rightarrow> event_world \<Rightarrow> exit_reason + event_world" where
  "VideoTrigger tsc k d w =
     bindR (TriggerVideoOutEventsLocked tsc (vo_queues (es_video w) k) k d (es_queues w))
       (\<lambda>q. Inr (w\<lparr>es_queues := q\<rparr>))"

text \<open>The loop reads the vector while the delete functions it calls write to it.\<close>

fun delete_queues :: "video_kind \<Rightarrow> nat list \<Rightarrow> event_world \<Rightarrow> exit_reason + event_world" where
  "delete_queues k [] w = Inr w"
| "delete_queues k (i # is) w = (case vo_queues (es_video w) k ! i of
       None \<Rightarrow> delete_queues k is w
     | Some h \<Rightarrow> bindR (DeleteEventCall (Some h) (video_key k) w) (\<lambda>(c, w).
         if c \<noteq> OK then Inl (Exit ''cannot delete video-out event'') else delete_queues k is w))"

definition DeleteVideoOutEventsLocked :: "video_kind \<Rightarrow> event_world \<Rightarrow> exit_reason + event_world" where
  "DeleteVideoOutEventsLocked k w =
     bindR (delete_queues k [0..<length (vo_queues (es_video w) k)] w)
       (\<lambda>w. Inr (w\<lparr>es_video := set_queues k [] (es_video w)\<rparr>))"

definition video_event :: "64 word \<Rightarrow> video_kind \<Rightarrow> 64 word \<Rightarrow> 64 word \<Rightarrow> eq_event" where
  "video_event tsc k mode udata =
     (let initially_triggered = (k = OutputMode)
      in \<lparr>q_triggered = initially_triggered, q_deadline = 0,
          q_event = \<lparr>ev_ident = VideoOutEventId k, ev_filter = KERNEL_EVFILT_VIDEO_OUT, ev_flags = 0,
             ev_fflags = (if initially_triggered then 1 else 0),
             ev_data = (if initially_triggered then MakeVideoOutEventData tsc 0 mode else 0),
             ev_udata = udata\<rparr>,
          q_trigger = TriggerVideoOutEvent, q_reset = ResetVideoOutEvent,
          q_delete = RemoveVideoOutEventQueue, q_pending = []\<rparr>)"

text \<open>\<open>RegisterVideoOutEvent\<close> after it has got the configuration for its handle.\<close>

definition RegisterLocked :: "64 word \<Rightarrow> nat option \<Rightarrow> video_kind \<Rightarrow> 64 word \<Rightarrow> event_world \<Rightarrow>
    int \<times> event_world" where
  "RegisterLocked tsc eq k udata w =
     (if eq = None then (VIDEO_OUT_ERROR_INVALID_EVENT_QUEUE, w)
      else
        (let c = es_video w; queues = vo_queues c k; add_queue = (eq \<notin> set queues)
         in case KernelAddEvent eq (video_event tsc k (vo_output_mode c) udata) (es_queues w) of
              (result, q) \<Rightarrow>
                (result, w\<lparr>es_queues := q,
                   es_video := (if result = OK \<and> add_queue then set_queues k (queues @ [eq]) c else c)\<rparr>)))"

definition RegisterVideoOutEvent :: "64 word \<Rightarrow> int \<Rightarrow> nat option \<Rightarrow> video_kind \<Rightarrow> 64 word \<Rightarrow>
    event_world \<Rightarrow> int \<times> event_world" where
  "RegisterVideoOutEvent tsc handle eq k udata w =
     (if \<not> VideoOutGet handle w then (VIDEO_OUT_ERROR_INVALID_HANDLE, w)
      else RegisterLocked tsc eq k udata w)"

definition DeleteVideoOutEvent :: "int \<Rightarrow> nat option \<Rightarrow> video_kind \<Rightarrow> event_world \<Rightarrow>
    exit_reason + int \<times> event_world" where
  "DeleteVideoOutEvent handle eq k w =
     (if \<not> VideoOutGet handle w then Inr (VIDEO_OUT_ERROR_INVALID_HANDLE, w)
      else if eq = None then Inr (VIDEO_OUT_ERROR_INVALID_EVENT_QUEUE, w)
      else DeleteEventCall eq (video_key k) w)"

text \<open>
  Opening and closing, without the buffers. \<open>Open\<close> demands what \<open>Close\<close> leaves; \<open>pending\<close> is
  whether the flip queue still has requests for the output.
\<close>

definition VideoOutOpen :: "event_world \<Rightarrow> exit_reason + int \<times> event_world" where
  "VideoOutOpen w =
     (let c = es_video w
      in if vo_opened c then Inr (-1, w)
         else if vo_queues c Flip \<noteq> [] \<or> vo_queues c PreVblankStart \<noteq> [] \<or> vo_queues c Vblank \<noteq> []
           \<or> vo_queues c OutputMode \<noteq> [] \<or> vo_flip_rate c \<noteq> 0
         then Inl (Exit ''video-out was not closed properly'')
         else Inr (1, w\<lparr>es_video := c\<lparr>vo_closing := False, vo_opened := True,
             vo_output_mode := VIDEO_OUT_OUTPUT_MODE_DEFAULT, vo_pre_vblank := 0, vo_vblank := 0\<rparr>\<rparr>))"

definition VideoOutClose :: "bool \<Rightarrow> int \<Rightarrow> event_world \<Rightarrow> exit_reason + int \<times> event_world" where
  "VideoOutClose pending handle w =
     (if \<not> VideoOutGet handle w then Inr (VIDEO_OUT_ERROR_INVALID_HANDLE, w)
      else if vo_closing (es_video w) then Inl (Exit ''video-out handle is already closing'')
      else if pending then Inl (Exit ''cannot close video-out handle with pending flips'')
      else
        bindR (DeleteVideoOutEventsLocked Flip (w\<lparr>es_video := (es_video w)\<lparr>vo_opened := False, vo_closing := True\<rparr>\<rparr>)) (\<lambda>w.
        bindR (DeleteVideoOutEventsLocked PreVblankStart w) (\<lambda>w.
        bindR (DeleteVideoOutEventsLocked Vblank w) (\<lambda>w.
        bindR (DeleteVideoOutEventsLocked OutputMode w) (\<lambda>w.
          Inr (OK, w\<lparr>es_video := (es_video w)\<lparr>vo_flip_rate := 0\<rparr>\<rparr>))))))"

definition VideoOutSetFlipRate :: "int \<Rightarrow> int \<Rightarrow> event_world \<Rightarrow> int \<times> event_world" where
  "VideoOutSetFlipRate handle rate w =
     (if \<not> VideoOutGet handle w then (VIDEO_OUT_ERROR_INVALID_HANDLE, w)
      else if rate < 0 \<or> rate > 2 then (VIDEO_OUT_ERROR_INVALID_VALUE, w)
      else (OK, w\<lparr>es_video := (es_video w)\<lparr>vo_flip_rate := rate\<rparr>\<rparr>))"

text \<open>The vertical blank, the end of a flip and a change of the output mode trigger events.\<close>

definition VblankBegin :: "64 word \<Rightarrow> event_world \<Rightarrow> exit_reason + event_world" where
  "VblankBegin tsc w =
     (if \<not> vo_opened (es_video w) then Inr w
      else (let n = vo_pre_vblank (es_video w) + 1
            in VideoTrigger tsc PreVblankStart n (w\<lparr>es_video := (es_video w)\<lparr>vo_pre_vblank := n\<rparr>\<rparr>)))"

definition VblankEnd :: "64 word \<Rightarrow> event_world \<Rightarrow> exit_reason + event_world" where
  "VblankEnd tsc w =
     (if \<not> vo_opened (es_video w) then Inr w
      else (let n = vo_vblank (es_video w) + 1
            in VideoTrigger tsc Vblank n (w\<lparr>es_video := (es_video w)\<lparr>vo_vblank := n\<rparr>\<rparr>)))"

definition FlipEnd :: "64 word \<Rightarrow> 64 word \<Rightarrow> event_world \<Rightarrow> exit_reason + event_world" where
  "FlipEnd tsc flip_arg w = VideoTrigger tsc Flip flip_arg w"

definition ValidateOutputConfig :: "int \<Rightarrow> 64 word \<Rightarrow> (32 word) list option \<Rightarrow> 64 word \<Rightarrow> 64 word \<Rightarrow>
    event_world \<Rightarrow> int" where
  "ValidateOutputConfig handle mode options reserved_ptr reserved w =
     (if \<not> VideoOutGet handle w then VIDEO_OUT_ERROR_INVALID_HANDLE
      else if reserved_ptr \<noteq> 0 \<or> reserved \<noteq> 0 then VIDEO_OUT_ERROR_INVALID_VALUE
      else if (case options of None \<Rightarrow> False | Some vs \<Rightarrow> \<exists>v\<in>set vs. v \<noteq> 0) then VIDEO_OUT_ERROR_INVALID_OPTION
      else if mode \<noteq> VIDEO_OUT_OUTPUT_MODE_DEFAULT \<and> mode \<noteq> VIDEO_OUT_OUTPUT_MODE_119_88HZ
        then VIDEO_OUT_ERROR_UNSUPPORTED_OUTPUT_MODE
      else OK)"

definition VideoOutIsOutputSupported :: "nat \<Rightarrow> int \<Rightarrow> 64 word \<Rightarrow> (32 word) list option \<Rightarrow> 64 word \<Rightarrow>
    64 word \<Rightarrow> event_world \<Rightarrow> int" where
  "VideoOutIsOutputSupported frequency handle mode options reserved_ptr reserved w =
     (let result = ValidateOutputConfig handle mode options reserved_ptr reserved w
      in if result \<noteq> OK then result
         else if mode = VIDEO_OUT_OUTPUT_MODE_119_88HZ then (if frequency \<ge> 119 then 1 else 0)
         else 1)"

definition VideoOutConfigureOutput :: "64 word \<Rightarrow> nat \<Rightarrow> int \<Rightarrow> 64 word \<Rightarrow> (32 word) list option \<Rightarrow>
    64 word \<Rightarrow> 64 word \<Rightarrow> event_world \<Rightarrow> exit_reason + int \<times> event_world" where
  "VideoOutConfigureOutput tsc frequency handle mode options reserved_ptr reserved w =
     (let result = VideoOutIsOutputSupported frequency handle mode options reserved_ptr reserved w
      in if result < 0 then Inr (result, w)
         else if result = 0 then Inr (VIDEO_OUT_ERROR_UNAVAILABLE_OUTPUT_MODE, w)
         else if \<not> VideoOutGet handle w then Inr (VIDEO_OUT_ERROR_INVALID_HANDLE, w)
         else bindR (VideoTrigger tsc OutputMode mode (w\<lparr>es_video := (es_video w)\<lparr>vo_output_mode := mode\<rparr>\<rparr>))
                (\<lambda>w. Inr (OK, w)))"

text \<open>What a game reads from a delivered event.\<close>

definition VideoOutGetEventId :: "kernel_event option \<Rightarrow> int" where
  "VideoOutGetEventId ev = (case ev of None \<Rightarrow> VIDEO_OUT_ERROR_INVALID_ADDRESS
     | Some e \<Rightarrow> if ev_filter e \<noteq> KERNEL_EVFILT_VIDEO_OUT then VIDEO_OUT_ERROR_INVALID_EVENT
         else if ev_ident e = 0 \<or> ev_ident e = 1 \<or> ev_ident e = 2 \<or> ev_ident e = 8
           then sint (ucast (ev_ident e) :: 32 word)
         else VIDEO_OUT_ERROR_INVALID_EVENT)"

definition VideoOutGetEventData :: "kernel_event option \<Rightarrow> bool \<Rightarrow> int \<times> 64 word option" where
  "VideoOutGetEventData ev data_null = (case ev of None \<Rightarrow> (VIDEO_OUT_ERROR_INVALID_ADDRESS, None)
     | Some e \<Rightarrow>
        if data_null then (VIDEO_OUT_ERROR_INVALID_ADDRESS, None)
        else if ev_filter e \<noteq> KERNEL_EVFILT_VIDEO_OUT then (VIDEO_OUT_ERROR_INVALID_EVENT, None)
        else (let d = drop_bit 16 (ev_data e)
              in (OK, Some (if ev_ident e = 0 \<and> ev_data e AND 0x8000000000000000 \<noteq> 0
                            then d OR 0xffff000000000000 else d))))"

definition VideoOutGetEventCount :: "kernel_event option \<Rightarrow> int" where
  "VideoOutGetEventCount ev = (case ev of None \<Rightarrow> VIDEO_OUT_ERROR_INVALID_ADDRESS
     | Some e \<Rightarrow> if ev_filter e \<noteq> KERNEL_EVFILT_VIDEO_OUT then VIDEO_OUT_ERROR_INVALID_EVENT
         else sint (ucast (drop_bit 12 (ev_data e) AND 0xf) :: 32 word))"

section \<open>Calls of the graphics driver\<close>

definition AddEqEventCall :: "nat option \<Rightarrow> int \<Rightarrow> 64 word \<Rightarrow> event_world \<Rightarrow> int \<times> event_world" where
  "AddEqEventCall eq n udata w =
     (case eq of None \<Rightarrow> (KERNEL_ERROR_EBADF, w)
      | Some h \<Rightarrow> (case AddEqEvent eq n udata (es_queues w) of (result, q) \<Rightarrow>
          (result, w\<lparr>es_queues := q,
             es_eops := (if result = 0 \<and> eop_event n then AddEopEq h n (es_eops w) else es_eops w)\<rparr>)))"

definition DeleteEqEventCall :: "nat option \<Rightarrow> int \<Rightarrow> event_world \<Rightarrow> exit_reason + int \<times> event_world" where
  "DeleteEqEventCall eq n w =
     (if eq = None then Inr (KERNEL_ERROR_EBADF, w)
      else DeleteEventCall eq (word_of_int n, KERNEL_EVFILT_GRAPHICS) w)"

fun trigger_eops :: "64 word \<Rightarrow> 64 word \<Rightarrow> eop_entry list \<Rightarrow> eq_world \<Rightarrow> exit_reason + eq_world" where
  "trigger_eops tsc d [] w = Inr w"
| "trigger_eops tsc d (x # xs) w =
     (case KernelTriggerEvent tsc (Some (eop_eq x)) (word_of_int (eop_id x), KERNEL_EVFILT_GRAPHICS) d w of
        (c, w) \<Rightarrow> if c \<noteq> OK \<and> c \<noteq> KERNEL_ERROR_ENOENT then Inl (Exit ''cannot trigger eop event'')
                  else trigger_eops tsc d xs w)"

definition TriggerEopEvent :: "64 word \<Rightarrow> 32 word \<Rightarrow> event_world \<Rightarrow> exit_reason + event_world" where
  "TriggerEopEvent tsc context_id w =
     bindR (trigger_eops tsc (ucast context_id) (es_eops w) (es_queues w)) (\<lambda>q.
       case KernelTriggerUserEventForAll tsc AGC_USER_INTERRUPT_EVENT tsc q of
         (c, q) \<Rightarrow> if c \<noteq> OK \<and> c \<noteq> KERNEL_ERROR_ENOENT then Inl (Exit ''cannot trigger user event'')
                  else Inr (w\<lparr>es_queues := q\<rparr>))"

definition GraphicsDriverGetEqEventType :: "kernel_event option \<Rightarrow> int" where
  "GraphicsDriverGetEqEventType ev = (case ev of None \<Rightarrow> 0
     | Some e \<Rightarrow> if ev_filter e = KERNEL_EVFILT_GRAPHICS then sint (ucast (ev_ident e) :: 32 word)
         else sint (ucast (ev_data e) :: 32 word))"

definition GraphicsDriverGetEqContextId :: "kernel_event option \<Rightarrow> 32 word" where
  "GraphicsDriverGetEqContextId ev = (case ev of None \<Rightarrow> 0
     | Some e \<Rightarrow> if ev_filter e = KERNEL_EVFILT_GRAPHICS then ucast (ev_data e) else ucast (ev_ident e))"

section \<open>Agreement of the lists and the queues\<close>

text \<open>
  A well-formed event list: unique keys, and an event has the delete function of its filter.
  \<open>kinds\<close> are the video events in it, \<open>listed\<close> says that a vector of queues has each element of
  a set once.
\<close>

definition source_ok :: "eq_event \<Rightarrow> bool" where
  "source_ok e \<longleftrightarrow> event_inv e
     \<and> (ev_filter (q_event e) = KERNEL_EVFILT_VIDEO_OUT \<longrightarrow>
          (\<exists>k. ev_ident (q_event e) = VideoOutEventId k) \<and> q_delete e = RemoveVideoOutEventQueue
          \<and> q_trigger e = TriggerVideoOutEvent \<and> \<not> oneshot e)
     \<and> (q_delete e = RemoveVideoOutEventQueue \<longrightarrow> ev_filter (q_event e) = KERNEL_EVFILT_VIDEO_OUT)
     \<and> (q_delete e = EopEventDeleteFunc \<longrightarrow> ev_filter (q_event e) = KERNEL_EVFILT_GRAPHICS)"

definition sources_ok :: "eq_event list \<Rightarrow> bool" where
  "sources_ok es \<longleftrightarrow> distinct (map q_key es) \<and> list_all source_ok es"

definition kinds :: "eq_event list \<Rightarrow> video_kind set" where
  "kinds es = {k. video_key k \<in> q_key ` set es}"

definition listed :: "nat option list \<Rightarrow> nat set \<Rightarrow> bool" where
  "listed qs H \<longleftrightarrow> distinct (filter (\<lambda>q. q \<noteq> None) qs) \<and> (\<forall>h. Some h \<in> set qs \<longleftrightarrow> h \<in> H)"

definition holders :: "video_kind \<Rightarrow> eq_world \<Rightarrow> nat set" where
  "holders k q = {h. k \<in> kinds (events_of q h)}"

definition all_listed :: "(video_kind \<Rightarrow> nat option list) \<Rightarrow> (video_kind \<Rightarrow> nat set) \<Rightarrow> bool" where
  "all_listed qs G \<longleftrightarrow> (\<forall>k. listed (qs k) (G k))"

definition all_sources_ok :: "eq_world \<Rightarrow> bool" where
  "all_sources_ok q \<longleftrightarrow> (\<forall>h. sources_ok (events_of q h))"

definition agree :: "event_world \<Rightarrow> bool" where
  "agree w \<longleftrightarrow> all_sources_ok (es_queues w)
     \<and> all_listed (vo_queues (es_video w)) (\<lambda>k. holders k (es_queues w))"

lemma VideoOutEventId_inject [simp]: "VideoOutEventId k = VideoOutEventId k' \<longleftrightarrow> k = k'"
  by (cases k; cases k') simp_all

lemma GetVideoOutEventKind_Id [simp]: "GetVideoOutEventKind (VideoOutEventId k) = Inr k"
  by (cases k) (simp_all add: GetVideoOutEventKind_def)

lemma events_of_set [simp]:
  "events_of (set_events h es q) h' = (if h' = h \<and> h \<in> dom (eq_heap q) then es else events_of q h')"
  by (auto simp: events_of_def set_events_def split: option.splits)

lemma dom_set_events [simp]: "dom (eq_heap (set_events h es q)) = dom (eq_heap q)"
  by (auto simp: set_events_def split: option.splits)

lemma events_of_dead: "h \<notin> dom (eq_heap q) \<Longrightarrow> events_of q h = []"
  by (auto simp: events_of_def split: option.splits)

subsection \<open>Vectors of queues\<close>

lemma null_entry_at:
  "distinct (filter (\<lambda>q. q \<noteq> None) qs) \<Longrightarrow> i < length qs \<Longrightarrow> qs ! i = Some h \<Longrightarrow>
     null_entry h qs = Some (qs[i := None])"
proof (induction qs arbitrary: i)
  case (Cons q qs)
  show ?case
  proof (cases i)
    case (Suc j)
    then have "Some h \<in> set qs" using Cons(3,4) by (auto dest: nth_mem)
    then have "q \<noteq> Some h" using Cons(2) by auto
    moreover have "null_entry h qs = Some (qs[j := None])"
      using Cons Suc by (auto split: if_splits)
    ultimately show ?thesis using Suc by simp
  qed (use Cons in simp)
qed simp

lemma listed_null:
  "distinct (filter (\<lambda>q. q \<noteq> None) qs) \<Longrightarrow> i < length qs \<Longrightarrow> qs ! i = Some h \<Longrightarrow>
     distinct (filter (\<lambda>q. q \<noteq> None) (qs[i := None]))
     \<and> (\<forall>x. Some x \<in> set (qs[i := None]) \<longleftrightarrow> Some x \<in> set qs \<and> x \<noteq> h)"
proof (induction qs arbitrary: i)
  case (Cons q qs)
  show ?case
  proof (cases i)
    case 0
    then have "q = Some h" "Some h \<notin> set qs" using Cons(2,4) by auto
    then show ?thesis using 0 Cons(2) by auto
  next
    case (Suc j)
    have d: "distinct (filter (\<lambda>q. q \<noteq> None) qs)" using Cons(2) by (cases q) simp_all
    note IH = Cons(1) [OF d, of j]
    have j: "j < length qs" "qs ! j = Some h" using Cons(3,4) Suc by simp_all
    then have "Some h \<in> set qs" by (metis nth_mem)
    then have q: "q \<noteq> Some h" "q = None \<or> q \<notin> set qs" using Cons(2) by (auto split: if_splits)
    then show ?thesis using IH [OF j] Suc by (cases q) auto
  qed
qed simp

lemma listed_remove:
  assumes "listed qs H" and "h \<in> H"
  obtains i where "i < length qs" "qs ! i = Some h" "null_entry h qs = Some (qs[i := None])"
    "listed (qs[i := None]) (H - {h})"
proof -
  have "Some h \<in> set qs" using assms by (simp add: listed_def)
  then obtain i where i: "i < length qs" "qs ! i = Some h" by (metis in_set_conv_nth)
  have d: "distinct (filter (\<lambda>q. q \<noteq> None) qs)" using assms(1) by (simp add: listed_def)
  have "listed (qs[i := None]) (H - {h})"
    using listed_null [OF d i] assms(1) unfolding listed_def by blast
  then show thesis using that i null_entry_at [OF d i] by blast
qed

lemma listed_add: "listed qs H \<Longrightarrow> h \<notin> H \<Longrightarrow> listed (qs @ [Some h]) (insert h H)"
  by (auto simp: listed_def)

lemma listed_empty: "listed [] {}" by (simp add: listed_def)

subsection \<open>Deleting\<close>

text \<open>Deletions change the video output only by making entries null.\<close>

definition same_video :: "video_config \<Rightarrow> video_config \<Rightarrow> bool" where
  "same_video c c' \<longleftrightarrow> (\<exists>f. c' = c\<lparr>vo_queues := f\<rparr> \<and> (\<forall>k. length (f k) = length (vo_queues c k)))"

lemma same_video_refl [simp]: "same_video c c"
  unfolding same_video_def by (rule exI [of _ "vo_queues c"]) simp

lemma same_video_trans: "same_video c c' \<Longrightarrow> same_video c' c'' \<Longrightarrow> same_video c c''"
  unfolding same_video_def by auto

lemma same_video_set: "length qs = length (vo_queues c k) \<Longrightarrow> same_video c (set_queues k qs c)"
  unfolding same_video_def set_queues_def by (rule exI [of _ "(vo_queues c)(k := qs)"]) simp

lemma same_video_length: "same_video c c' \<Longrightarrow> length (vo_queues c' k) = length (vo_queues c k)"
  by (auto simp: same_video_def)

text \<open>
  The delete function of an acceptable event takes its queue off the list of its kind, if it
  is a video event, and never exits.
\<close>

lemma run_delete_listed:
  assumes ok: "source_ok e" and all: "all_listed (vo_queues (es_video w)) G"
    and mem: "\<And>k. q_key e = video_key k \<Longrightarrow> h \<in> G k"
  obtains w' where "run_delete h e w = Inr w'" "es_queues w' = es_queues w"
    "all_listed (vo_queues (es_video w')) (\<lambda>k. if q_key e = video_key k then G k - {h} else G k)"
    "same_video (es_video w) (es_video w')"
    "\<forall>k i. q_key e = video_key k \<longrightarrow> i < length (vo_queues (es_video w) k) \<longrightarrow>
       vo_queues (es_video w) k ! i = Some h \<longrightarrow> vo_queues (es_video w') k = (vo_queues (es_video w) k)[i := None]"
proof (cases "ev_filter (q_event e) = KERNEL_EVFILT_VIDEO_OUT")
  case True
  then obtain k where k: "ev_ident (q_event e) = VideoOutEventId k" and del: "q_delete e = RemoveVideoOutEventQueue"
    using ok by (auto simp: source_ok_def)
  have key: "q_key e = video_key j \<longleftrightarrow> j = k" for j using True k by (auto simp: event_key_def)
  let ?qs = "vo_queues (es_video w) k"
  have l: "listed ?qs (G k)" using all by (simp add: all_listed_def)
  obtain i where i: "i < length ?qs" "?qs ! i = Some h" "null_entry h ?qs = Some (?qs[i := None])"
    "listed (?qs[i := None]) (G k - {h})"
    using listed_remove [OF l mem] key by blast
  let ?w = "w\<lparr>es_video := set_queues k (?qs[i := None]) (es_video w)\<rparr>"
  have "run_delete h e w = Inr ?w"
    using i True k del by (auto simp: run_delete_def VideoOutRemoveQueue_def)
  moreover have "all_listed (vo_queues (es_video ?w)) (\<lambda>j. if q_key e = video_key j then G j - {h} else G j)"
    using all i(4) unfolding all_listed_def key by (simp add: set_queues_def)
  moreover have "vo_queues (es_video ?w) k = ?qs[j := None]" if "j < length ?qs" "?qs ! j = Some h" for j
    using null_entry_at [OF _ that] i(3) l by (simp add: listed_def set_queues_def)
  ultimately show thesis
    by (intro that [of ?w]) (auto simp: key intro: same_video_set simp del: q_key_def)
next
  case False
  then have "q_delete e \<noteq> RemoveVideoOutEventQueue" using ok unfolding source_ok_def by blast
  moreover have "q_delete e = EopEventDeleteFunc \<longrightarrow> ev_filter (q_event e) = KERNEL_EVFILT_GRAPHICS"
    using ok unfolding source_ok_def by blast
  ultimately have "run_delete h e w \<in> (\<lambda>xs. Inr (w\<lparr>es_eops := xs\<rparr>)) ` {es_eops w, DeleteEopEq h
      (sint (ucast (ev_ident (q_event e)) :: 32 word)) (es_eops w)}"
    by (cases "q_delete e") (simp_all add: run_delete_def EopEventDelete_def Let_def)
  then have "\<exists>xs. run_delete h e w = Inr (w\<lparr>es_eops := xs\<rparr>)" by blast
  then obtain xs where "run_delete h e w = Inr (w\<lparr>es_eops := xs\<rparr>)" ..
  moreover have "q_key e \<noteq> video_key k" for k using False by (auto simp: event_key_def)
  ultimately show thesis using all
    by (intro that [of "w\<lparr>es_eops := xs\<rparr>"]) (auto simp del: q_key_def)
qed

lemma sources_ok_delete:
  assumes "sources_ok es" and "DeleteEvent k es = Some (e, es')"
  shows "source_ok e \<and> q_key e = k \<and> sources_ok es' \<and> kinds es' = {j \<in> kinds es. video_key j \<noteq> k}"
  using assms
proof (induction es arbitrary: es')
  case (Cons x es)
  show ?case
  proof (cases "q_key x = k")
    case True
    then have "kinds es = {j \<in> kinds (x # es). video_key j \<noteq> k}"
      using Cons(2) by (auto simp: kinds_def sources_ok_def simp del: q_key_def)
    then show ?thesis using Cons(2,3) True by (simp add: sources_ok_def del: q_key_def)
  next
    case False
    then obtain es2 where es2: "DeleteEvent k es = Some (e, es2)" "es' = x # es2"
      using Cons(3) by (auto simp del: q_key_def)
    have "sources_ok es" using Cons(2) by (simp add: sources_ok_def)
    note IH = Cons(1) [OF this es2(1)]
    have "set es2 \<subseteq> set es" using DeleteEvent_sub [OF es2(1)] by blast
    then have "q_key x \<notin> q_key ` set es2" using Cons(2) by (auto simp: sources_ok_def simp del: q_key_def)
    then show ?thesis using IH Cons(2) False es2(2)
      by (auto simp: sources_ok_def kinds_def simp del: q_key_def)
  qed
qed simp

lemma DeleteEvent_present: "k \<in> q_key ` set es \<longleftrightarrow> (\<exists>x. DeleteEvent k es = Some x)"
  by (induction es) auto

lemma TriggerEvent_present: "k \<in> q_key ` set es \<longleftrightarrow> (\<exists>x. TriggerEvent tsc k d es = Some x)"
  by (induction es) auto

text \<open>Deleting an event of a live queue, with its delete function, never exits.\<close>

lemma DeleteEventCall_agree:
  assumes inv: "agree w" and live: "h \<in> dom (eq_heap (es_queues w))"
  obtains c w' where "DeleteEventCall (Some h) key w = Inr (c, w')" "agree w'"
    "\<And>h'. events_of (es_queues w') h' = (if h' = h then case DeleteEvent key (events_of (es_queues w) h) of
        None \<Rightarrow> events_of (es_queues w) h | Some (e, es) \<Rightarrow> es else events_of (es_queues w) h')"
    "dom (eq_heap (es_queues w')) = dom (eq_heap (es_queues w))"
    "same_video (es_video w) (es_video w')"
    "\<And>k i. key = video_key k \<Longrightarrow> i < length (vo_queues (es_video w) k) \<Longrightarrow>
       vo_queues (es_video w) k ! i = Some h \<Longrightarrow>
       c = OK \<and> vo_queues (es_video w') k = (vo_queues (es_video w) k)[i := None]"
proof (cases "DeleteEvent key (events_of (es_queues w) h)")
  case None
  have "k \<notin> kinds (events_of (es_queues w) h)" if "key = video_key k" for k
    using None DeleteEvent_present [of key] that by (auto simp: kinds_def simp del: q_key_def)
  then have no: "Some h \<notin> set (vo_queues (es_video w) k)" if "key = video_key k" for k
    using inv that by (auto simp: agree_def all_listed_def listed_def holders_def)
  show thesis
  proof (rule that)
    show "DeleteEventCall (Some h) key w = Inr (KERNEL_ERROR_ENOENT, w)"
      using None by (simp add: DeleteEventCall_def KernelDeleteEvent_def)
    show "same_video (es_video w) (es_video w)" by simp
    show "KERNEL_ERROR_ENOENT = OK \<and> vo_queues (es_video w) k = (vo_queues (es_video w) k)[i := None]"
      if "key = video_key k" "i < length (vo_queues (es_video w) k)" "vo_queues (es_video w) k ! i = Some h" for k i
      using no [OF that(1)] that(2,3) by (metis nth_mem)
  qed (use inv None in \<open>simp_all add: inv\<close>)
next
  case (Some x)
  then obtain e es where del: "DeleteEvent key (events_of (es_queues w) h) = Some (e, es)" by (cases x) simp
  have ok: "sources_ok (events_of (es_queues w) h')" for h' using inv by (simp add: agree_def all_sources_ok_def)
  note d = sources_ok_delete [OF ok del]
  have all: "all_listed (vo_queues (es_video w)) (\<lambda>k. holders k (es_queues w))" using inv by (simp add: agree_def)
  have mem: "h \<in> holders k (es_queues w)" if "q_key e = video_key k" for k
    using DeleteEvent_present [of key "events_of (es_queues w) h"] del d that
    by (auto simp: holders_def kinds_def simp del: q_key_def)
  from d have "source_ok e" by simp
  from run_delete_listed [OF this all mem] obtain w' where w': "run_delete h e w = Inr w'" "es_queues w' = es_queues w"
    "all_listed (vo_queues (es_video w')) (\<lambda>k. if q_key e = video_key k then holders k (es_queues w) - {h} else holders k (es_queues w))"
    "same_video (es_video w) (es_video w')"
    "\<forall>k i. q_key e = video_key k \<longrightarrow> i < length (vo_queues (es_video w) k) \<longrightarrow>
       vo_queues (es_video w) k ! i = Some h \<longrightarrow> vo_queues (es_video w') k = (vo_queues (es_video w) k)[i := None]"
    by blast
  let ?q = "set_events h es (es_queues w)"
  have "holders k ?q = (if q_key e = video_key k then holders k (es_queues w) - {h} else holders k (es_queues w))" for k
    using d live by (auto simp: holders_def simp del: q_key_def)
  then have "agree (w'\<lparr>es_queues := ?q\<rparr>)"
    using w'(3) ok d by (simp add: agree_def all_sources_ok_def del: q_key_def)
  moreover have "DeleteEventCall (Some h) key w = Inr (OK, w'\<lparr>es_queues := ?q\<rparr>)"
    using del w'(1) by (simp add: DeleteEventCall_def KernelDeleteEvent_def)
  ultimately show thesis using live w'(4,5) d del
    by (intro that [of OK "w'\<lparr>es_queues := ?q\<rparr>"]) (simp_all del: q_key_def)
qed

text \<open>The destructor of a queue takes it off every list.\<close>

lemma kinds_Cons: "kinds (e # es) = {k. q_key e = video_key k} \<union> kinds es"
  by (auto simp: kinds_def simp del: q_key_def)

lemma run_deletes_listed:
  assumes "sources_ok es" and "all_listed (vo_queues (es_video w)) (\<lambda>k. if k \<in> kinds es then insert h (G k) else G k)"
    and "\<And>k. h \<notin> G k"
  shows "\<exists>w'. run_deletes h es w = Inr w' \<and> es_queues w' = es_queues w
    \<and> all_listed (vo_queues (es_video w')) G \<and> (same_video (es_video w) (es_video w'))"
  using assms(1,2)
proof (induction es arbitrary: w)
  case Nil
  then show ?case by (simp add: kinds_def)
next
  case (Cons e es)
  let ?G = "\<lambda>es k. if k \<in> kinds es then insert h (G k) else G k"
  have e: "source_ok e" and es: "sources_ok es" and out: "q_key e \<notin> q_key ` set es"
    using Cons(2) by (simp_all add: sources_ok_def)
  have mem: "h \<in> ?G (e # es) k" if "q_key e = video_key k" for k
    using that by (simp add: kinds_Cons del: q_key_def)
  from run_delete_listed [OF e Cons(3) mem] obtain w1 where w1: "run_delete h e w = Inr w1"
    "es_queues w1 = es_queues w"
    and l1: "all_listed (vo_queues (es_video w1)) (\<lambda>k. if q_key e = video_key k then ?G (e # es) k - {h} else ?G (e # es) k)"
    and v1: "same_video (es_video w) (es_video w1)"
    and "\<forall>k i. q_key e = video_key k \<longrightarrow> i < length (vo_queues (es_video w) k) \<longrightarrow>
       vo_queues (es_video w) k ! i = Some h \<longrightarrow> vo_queues (es_video w1) k = (vo_queues (es_video w) k)[i := None]" .
  have "(\<lambda>k. if q_key e = video_key k then ?G (e # es) k - {h} else ?G (e # es) k) = ?G es"
  proof
    fix k show "(if q_key e = video_key k then ?G (e # es) k - {h} else ?G (e # es) k) = ?G es k"
      using out assms(3) [of k] by (auto simp: kinds_Cons kinds_def simp del: q_key_def)
  qed
  with l1 Cons(1) [OF es] obtain w' where w': "run_deletes h es w1 = Inr w'" "es_queues w' = es_queues w1"
    "all_listed (vo_queues (es_video w')) G" "same_video (es_video w1) (es_video w')"
    by metis
  have "same_video (es_video w) (es_video w')" using same_video_trans [OF v1 w'(4)] .
  then show ?case using w1 w' by simp
qed

lemma DeleteEqueueCall_agree:
  assumes inv: "agree w"
  obtains w' where "DeleteEqueueCall (Some h) w = Inr (OK, w')" "agree w'"
    "\<And>k. Some h \<notin> set (vo_queues (es_video w') k)" "same_video (es_video w) (es_video w')"
    "eq_heap (es_queues w') = (eq_heap (es_queues w))(h := None)"
proof -
  let ?es = "events_of (es_queues w) h"
  let ?G = "\<lambda>k. holders k (es_queues w) - {h}"
  have ok: "sources_ok (events_of (es_queues w) h')" for h' using inv by (simp add: agree_def all_sources_ok_def)
  have "(\<lambda>k. holders k (es_queues w)) = (\<lambda>k. if k \<in> kinds ?es then insert h (?G k) else ?G k)"
    by (rule ext) (auto simp: holders_def)
  then have "all_listed (vo_queues (es_video w)) (\<lambda>k. if k \<in> kinds ?es then insert h (?G k) else ?G k)"
    using inv by (simp add: agree_def)
  from run_deletes_listed [OF ok this] obtain w1 where w1: "run_deletes h ?es w = Inr w1"
    "es_queues w1 = es_queues w" "all_listed (vo_queues (es_video w1)) ?G"
    "same_video (es_video w) (es_video w1)" by auto
  let ?q = "(es_queues w)\<lparr>g_equeues := removeAll h (g_equeues (es_queues w)), eq_heap := (eq_heap (es_queues w))(h := None)\<rparr>"
  let ?w = "w1\<lparr>es_queues := ?q\<rparr>"
  have ev: "events_of ?q h' = (if h' = h then [] else events_of (es_queues w) h')" for h'
    by (simp add: events_of_def)
  have "holders k ?q = ?G k" for k by (auto simp: holders_def ev kinds_def)
  then have "agree ?w" using w1(3) ok by (simp add: agree_def all_sources_ok_def ev sources_ok_def)
  moreover have "Some h \<notin> set (vo_queues (es_video ?w) k)" for k
    using w1(3) by (simp add: all_listed_def listed_def)
  moreover have "DeleteEqueueCall (Some h) w = Inr (OK, ?w)"
    using w1(1) by (simp add: DeleteEqueueCall_def KernelDeleteEqueue_def)
  ultimately show thesis using w1(4) by (intro that [of ?w]) simp_all
qed

text \<open>Deleting the events of every queue in a list leaves it with null entries only.\<close>

lemma delete_queues_agree:
  assumes "agree w" and "\<And>h. Some h \<in> set (vo_queues (es_video w) k) \<Longrightarrow> h \<in> dom (eq_heap (es_queues w))"
    and "set is \<subseteq> {..<length (vo_queues (es_video w) k)}"
  shows "\<exists>w'. delete_queues k is w = Inr w' \<and> agree w'
    \<and> (same_video (es_video w) (es_video w'))
    \<and> length (vo_queues (es_video w') k) = length (vo_queues (es_video w) k)
    \<and> (\<forall>i<length (vo_queues (es_video w) k). i \<in> set is \<or> vo_queues (es_video w) k ! i = None
          \<longrightarrow> vo_queues (es_video w') k ! i = None)"
  using assms
proof (induction "is" arbitrary: w)
  case Nil
  then show ?case by simp
next
  case (Cons i "is")
  let ?qs = "vo_queues (es_video w) k"
  have i: "i < length ?qs" and rest: "set is \<subseteq> {..<length ?qs}" using Cons(4) by auto
  show ?case
  proof (cases "?qs ! i")
    case None
    then show ?thesis using Cons(1) [OF Cons(2,3) rest] by auto
  next
    case (Some h)
    have live: "h \<in> dom (eq_heap (es_queues w))" using Cons(3) [of h] i Some by (metis nth_mem)
    from DeleteEventCall_agree [OF Cons(2) live, of "video_key k"] obtain c w1 where
      w1: "DeleteEventCall (Some h) (video_key k) w = Inr (c, w1)" "agree w1"
      "dom (eq_heap (es_queues w1)) = dom (eq_heap (es_queues w))"
      "same_video (es_video w) (es_video w1)"
      and at: "\<And>j i. video_key k = video_key j \<Longrightarrow> i < length (vo_queues (es_video w) j) \<Longrightarrow>
         vo_queues (es_video w) j ! i = Some h \<Longrightarrow>
         c = OK \<and> vo_queues (es_video w1) j = (vo_queues (es_video w) j)[i := None]"
      by metis
    have c: "c = OK" and qs: "vo_queues (es_video w1) k = ?qs[i := None]" using at [of k i] i Some by simp_all
    have dom1: "h' \<in> dom (eq_heap (es_queues w1))" if "Some h' \<in> set (vo_queues (es_video w1) k)" for h'
      using that Cons(3) [of h'] set_update_subset_insert [of ?qs i None] unfolding qs w1(3) by auto
    have len: "set is \<subseteq> {..<length (vo_queues (es_video w1) k)}" using rest qs by simp
    from Cons(1) [OF w1(2) dom1 len] obtain w' where w': "delete_queues k is w1 = Inr w'" "agree w'"
      "same_video (es_video w1) (es_video w')"
      "length (vo_queues (es_video w') k) = length (vo_queues (es_video w1) k)"
      "\<forall>i<length (vo_queues (es_video w1) k). i \<in> set is \<or> vo_queues (es_video w1) k ! i = None
          \<longrightarrow> vo_queues (es_video w') k ! i = None" by blast
    have "same_video (es_video w) (es_video w')" using same_video_trans [OF w1(4) w'(3)] .
    moreover have "\<forall>j<length ?qs. j \<in> set (i # is) \<or> ?qs ! j = None \<longrightarrow> vo_queues (es_video w') k ! j = None"
    proof (intro allI impI)
      fix j assume j: "j < length ?qs" "j \<in> set (i # is) \<or> ?qs ! j = None"
      then have "j \<in> set is \<or> ?qs[i := None] ! j = None" by (cases "j = i") auto
      moreover have "j < length (vo_queues (es_video w1) k)" using j(1) qs by simp
      ultimately show "vo_queues (es_video w') k ! j = None" using w'(5) unfolding qs by blast
    qed
    ultimately show ?thesis using w1(1) w'(1,2,4) c Some qs by simp
  qed
qed

lemma listed_live:
  assumes "agree w" and "Some h \<in> set (vo_queues (es_video w) k)"
  shows "h \<in> dom (eq_heap (es_queues w))"
proof (rule ccontr)
  assume "h \<notin> dom (eq_heap (es_queues w))"
  then have "h \<notin> holders k (es_queues w)" using events_of_dead [of h "es_queues w"]
    by (simp add: holders_def kinds_def)
  moreover have "listed (vo_queues (es_video w) k) (holders k (es_queues w))"
    using assms(1) by (simp add: agree_def all_listed_def)
  ultimately show False using assms(2) by (simp add: listed_def)
qed

lemma DeleteVideoOutEventsLocked_agree:
  assumes inv: "agree w"
  obtains w' f where "DeleteVideoOutEventsLocked k w = Inr w'" "agree w'"
    "es_video w' = (es_video w)\<lparr>vo_queues := f\<rparr>" "f k = []"
    "\<forall>j. vo_queues (es_video w) j = [] \<longrightarrow> f j = []"
proof -
  let ?qs = "vo_queues (es_video w) k"
  have "set [0..<length ?qs] \<subseteq> {..<length ?qs}" by auto
  from delete_queues_agree [OF inv _ this] listed_live [OF inv] obtain w1 where
    w1: "delete_queues k [0..<length ?qs] w = Inr w1" "agree w1" "same_video (es_video w) (es_video w1)"
    "length (vo_queues (es_video w1) k) = length ?qs" "\<forall>i<length ?qs. vo_queues (es_video w1) k ! i = None"
    by auto
  obtain f where f: "es_video w1 = (es_video w)\<lparr>vo_queues := f\<rparr>" "\<And>j. length (f j) = length (vo_queues (es_video w) j)"
    using w1(3) by (auto simp: same_video_def)
  let ?w = "w1\<lparr>es_video := set_queues k [] (es_video w1)\<rparr>"
  have "listed (vo_queues (es_video w1) k) (holders k (es_queues w1))"
    using w1(2) by (simp add: agree_def all_listed_def)
  moreover have "Some h \<notin> set (vo_queues (es_video w1) k)" for h
    using w1(4,5) by (auto simp: in_set_conv_nth)
  ultimately have "holders k (es_queues w1) = {}" by (auto simp: listed_def)
  then have "agree ?w" using w1(2) listed_empty by (simp add: agree_def all_listed_def set_queues_def)
  moreover have "DeleteVideoOutEventsLocked k w = Inr ?w"
    using w1(1) by (simp add: DeleteVideoOutEventsLocked_def)
  moreover have "\<forall>j. vo_queues (es_video w) j = [] \<longrightarrow> (f(k := [])) j = []"
  proof (intro allI impI)
    fix j assume "vo_queues (es_video w) j = []"
    then show "(f(k := [])) j = []" using f(2) [of j] by simp
  qed
  ultimately show thesis using f(1) by (intro that [of ?w "f(k := [])"]) (simp_all add: set_queues_def)
qed

subsection \<open>Steps that delete and add no video event\<close>

declare q_key_def [simp del]

definition quiet :: "eq_world \<Rightarrow> eq_world \<Rightarrow> bool" where
  "quiet q q' \<longleftrightarrow> (\<forall>h. sources_ok (events_of q h) \<longrightarrow>
     sources_ok (events_of q' h) \<and> kinds (events_of q' h) = kinds (events_of q h))"

lemma quiet_refl [simp]: "quiet q q" by (simp add: quiet_def)

lemma quiet_trans: "quiet q q' \<Longrightarrow> quiet q' q'' \<Longrightarrow> quiet q q''" by (simp add: quiet_def)

lemma quiet_agree:
  assumes "agree w" and "quiet (es_queues w) q"
  shows "agree (w\<lparr>es_queues := q\<rparr>)"
proof -
  have "sources_ok (events_of (es_queues w) h)" for h using assms(1) by (simp add: agree_def all_sources_ok_def)
  then have "sources_ok (events_of q h)" "kinds (events_of q h) = kinds (events_of (es_queues w) h)" for h
    using assms(2) by (simp_all add: quiet_def)
  then show ?thesis using assms(1) by (simp add: agree_def all_sources_ok_def holders_def)
qed

lemma quiet_set:
  "(sources_ok (events_of q h) \<Longrightarrow> sources_ok es \<and> kinds es = kinds (events_of q h)) \<Longrightarrow>
     quiet q (set_events h es q)"
  by (simp add: quiet_def)

lemma source_ok_same:
  assumes "source_ok e" and "event_inv e'" and "q_key e' = q_key e"
    and "q_delete e' = q_delete e" and "q_trigger e' = q_trigger e" and "oneshot e' = oneshot e"
  shows "source_ok e'"
proof -
  have eqs: "ev_filter (q_event e') = ev_filter (q_event e)" "ev_ident (q_event e') = ev_ident (q_event e)"
    using assms(3) by (simp_all add: event_key_def q_key_def)
  show ?thesis using assms(1,2) unfolding source_ok_def eqs assms(4-6) by blast
qed

lemma run_trigger_source:
  assumes "source_ok e"
  shows "source_ok (run_trigger tsc tf d e)"
proof (rule source_ok_same [OF assms])
  show "event_inv (run_trigger tsc tf d e)"
    using assms run_trigger_inv unfolding source_ok_def by blast
  show "q_key (run_trigger tsc tf d e) = q_key e" by (rule run_trigger_key)
  show "q_delete (run_trigger tsc tf d e) = q_delete e" by (cases tf) (simp_all add: deliver_def)
  show "q_trigger (run_trigger tsc tf d e) = q_trigger e" by (cases tf) (simp_all add: deliver_def)
  show "oneshot (run_trigger tsc tf d e) = oneshot e" by (cases tf) (simp_all add: deliver_def oneshot_def)
qed

lemma TriggerEvent_sources:
  "sources_ok es \<Longrightarrow> TriggerEvent tsc k d es = Some es' \<Longrightarrow> sources_ok es' \<and> map q_key es' = map q_key es"
proof (induction es arbitrary: es')
  case (Cons e es)
  show ?case
  proof (cases "q_key e = k")
    case True
    then have "es' = run_trigger tsc (q_trigger e) d e # es" using Cons(3) by (simp)
    then show ?thesis using Cons(2) run_trigger_source run_trigger_key [of tsc "q_trigger e" d e]
      by (simp add: sources_ok_def)
  next
    case False
    then obtain es2 where es2: "TriggerEvent tsc k d es = Some es2" "es' = e # es2"
      using Cons(3) by (auto)
    have "sources_ok es" using Cons(2) by (simp add: sources_ok_def)
    from Cons(1) [OF this es2(1)] have IH: "sources_ok es2" "map q_key es2 = map q_key es" by blast+
    have "set (map q_key es2) = set (map q_key es)" using IH(2) by (rule arg_cong)
    then show ?thesis using IH Cons(2) es2(2) by (simp add: sources_ok_def)
  qed
qed simp

lemma kinds_keys: "map q_key es' = map q_key es \<Longrightarrow> kinds es' = kinds es"
  unfolding kinds_def by (metis (mono_tags) list.set_map)

lemma quiet_trigger:
  assumes "KernelTriggerEvent tsc eq k d q = (c, q')"
  shows "quiet q q'"
proof (cases "q' = q")
  case False
  then obtain h es where "TriggerEvent tsc k d (events_of q h) = Some es" and q': "q' = set_events h es q"
    using assms by (auto simp: KernelTriggerEvent_def split: option.splits)
  then have "sources_ok (events_of q h) \<Longrightarrow> sources_ok es \<and> kinds es = kinds (events_of q h)"
    using TriggerEvent_sources kinds_keys by metis
  then show ?thesis unfolding q' by (rule quiet_set)
qed simp

lemma quiet_trigger_all: "trigger_all tsc k d hs q = (n, q') \<Longrightarrow> quiet q q'"
proof (induction hs arbitrary: q n)
  case (Cons h hs)
  obtain c q1 where 1: "KernelTriggerEvent tsc (Some h) k d q = (c, q1)" by fastforce
  then obtain m where 2: "trigger_all tsc k d hs q1 = (m, q')"
    using Cons(2) by (auto split: prod.splits)
  show ?case by (rule quiet_trans [OF quiet_trigger [OF 1] Cons(1) [OF 2]])
qed simp

lemma AddEvent_sources:
  "sources_ok es \<Longrightarrow> source_ok ev \<Longrightarrow>
     sources_ok (AddEvent ev es) \<and> kinds (AddEvent ev es) = {k. q_key ev = video_key k} \<union> kinds es"
proof (induction es)
  case Nil
  then show ?case by (simp add: sources_ok_def kinds_Cons)
next
  case (Cons e es)
  have "sources_ok es" using Cons(2) by (simp add: sources_ok_def)
  note IH = Cons(1) [OF this Cons(3)]
  show ?case
  proof (cases "q_key e = q_key ev")
    case True
    then show ?thesis using Cons(2,3) by (auto simp: sources_ok_def kinds_Cons)
  next
    case False
    then show ?thesis using IH Cons(2) AddEvent_keys [of ev es]
      by (auto simp: sources_ok_def kinds_Cons)
  qed
qed

lemma quiet_add:
  assumes "source_ok ev" and "ev_filter (q_event ev) \<noteq> KERNEL_EVFILT_VIDEO_OUT"
    and "KernelAddEvent eq ev q = (c, q')"
  shows "quiet q q'"
proof -
  have "q_key ev \<noteq> video_key k" for k using assms(2) by (auto simp: event_key_def q_key_def)
  then have add: "sources_ok es \<Longrightarrow> sources_ok (AddEvent ev es) \<and> kinds (AddEvent ev es) = kinds es" for es
    using AddEvent_sources [OF _ assms(1)] by simp
  then show ?thesis using assms(3) quiet_set [OF add]
    by (auto simp: KernelAddEvent_def split: option.splits)
qed

lemma drain_source:
  "drain room e = (out, e', erase) \<Longrightarrow> source_ok e \<Longrightarrow>
     source_ok e' \<and> q_key e' = q_key e \<and> (erase \<longrightarrow> oneshot e)"
proof (induction room e arbitrary: out e' erase rule: drain.induct)
  case (2 room e)
  show ?case
  proof (cases "q_triggered e \<and> \<not> oneshot e")
    case True
    let ?e = "pop_pending (run_reset (q_reset e) e)"
    obtain o1 e1 r1 where d: "drain room ?e = (o1, e1, r1)" by (metis prod_cases3)
    then have e1: "e' = e1" "erase = r1" using 2(2) True by simp_all
    have inv: "event_inv e" using 2(3) by (simp only: source_ok_def)
    note facts = reset_pop_inv [OF inv, of "q_reset e"]
    have one: "oneshot ?e = oneshot e" using facts by (simp add: oneshot_def)
    have del: "q_delete ?e = q_delete e" "q_trigger ?e = q_trigger e"
      using run_reset_cases [of "q_reset e" e] by (auto simp: pop_pending_def clear_event_def split: list.splits)
    from facts have "event_inv ?e" "q_key ?e = q_key e" by blast+
    then have "source_ok ?e" using source_ok_same [OF 2(3)] del one by blast
    then show ?thesis using 2(1) [OF _ _ d] True facts one unfolding e1 by (simp)
  next
    case False
    then have "e' = e \<and> (erase \<longrightarrow> oneshot e)" using 2(2) by (auto split: if_splits)
    then show ?thesis using 2(3) by blast
  qed
qed simp

lemma collect_sources:
  assumes "sources_ok es" and "collect room es = (out, es')"
  shows "sources_ok es' \<and> kinds es' = kinds es"
proof -
  have "list_all source_ok es' \<and> kinds es' = kinds es" if "list_all source_ok es" "collect room es = (out, es')"
    for es room out es' using that
  proof (induction es arbitrary: room out es')
    case (Cons e es)
    obtain o1 e1 r1 where d: "drain room e = (o1, e1, r1)" by (metis prod_cases3)
    obtain o2 es2 where c: "collect (room - length o1) es = (o2, es2)" by fastforce
    have e: "source_ok e" and es: "list_all source_ok es" using Cons(2) by simp_all
    note e1 = drain_source [OF d e] and IH = Cons(1) [OF es c]
    have gone: "q_key e \<noteq> video_key k" if "r1" for k
      using e1 that e by (auto simp: source_ok_def event_key_def q_key_def)
    obtain kept where kept: "kept = (if r1 then [] else [e1])" by simp
    have "es' = kept @ es \<or> es' = kept @ es2"
      using Cons(3) d c kept by (auto simp: Let_def split: if_splits)
    moreover have "list_all source_ok kept" "kinds (kept @ xs) = kinds (e # xs)" for xs
      using e1 gone kept by (auto simp: kinds_Cons)
    ultimately show ?case using IH es by (auto simp: kinds_Cons)
  qed simp
  moreover have "\<forall>e\<in>set es. event_inv e" using assms(1) by (auto simp: sources_ok_def source_ok_def list_all_iff)
  then have "distinct (map q_key es) \<longrightarrow> distinct (map q_key es')" using collect_keys assms(2) by blast
  ultimately show ?thesis using assms unfolding sources_ok_def by blast
qed

subsection \<open>Triggers\<close>

lemma present_trigger:
  assumes "k \<in> kinds (events_of q h)"
  obtains es where "TriggerEvent tsc (video_key k) d (events_of q h) = Some es"
    "KernelTriggerEvent tsc (Some h) (video_key k) d q = (OK, set_events h es q)"
proof -
  from assms obtain es where "TriggerEvent tsc (video_key k) d (events_of q h) = Some es"
    using TriggerEvent_present unfolding kinds_def by blast
  then show thesis by (intro that) (simp_all add: KernelTriggerEvent_def)
qed

lemma TriggerVideoOutEventsLocked_ok:
  assumes "all_sources_ok q" and "\<And>h. Some h \<in> set qs \<Longrightarrow> k \<in> kinds (events_of q h)"
    and "distinct (filter (\<lambda>q. q \<noteq> None) qs)"
  shows "\<exists>q'. TriggerVideoOutEventsLocked tsc qs k d q = Inr q' \<and> quiet q q'
    \<and> (\<forall>h. events_of q' h = (if Some h \<in> set qs
          then the (TriggerEvent tsc (video_key k) d (events_of q h)) else events_of q h))"
  using assms
proof (induction qs arbitrary: q)
  case (Cons x qs)
  show ?case
  proof (cases x)
    case None
    then show ?thesis using Cons(1) [OF Cons(2)] Cons(3,4) by simp
  next
    case (Some h)
    have k: "k \<in> kinds (events_of q h)" using Cons(3) Some by simp
    obtain es where es: "TriggerEvent tsc (video_key k) d (events_of q h) = Some es"
      "KernelTriggerEvent tsc (Some h) (video_key k) d q = (OK, set_events h es q)"
      by (rule present_trigger [OF k])
    let ?q = "set_events h es q"
    have quiet: "quiet q ?q" by (rule quiet_trigger [OF es(2)])
    have live: "h \<in> dom (eq_heap q)"
      using k events_of_dead [of h q] by (force simp: kinds_def)
    have out: "Some h \<notin> set qs" using Cons(4) Some by auto
    have ok: "all_sources_ok ?q" using Cons(2) quiet by (simp add: all_sources_ok_def quiet_def)
    have mem: "k \<in> kinds (events_of ?q h')" if "Some h' \<in> set qs" for h'
      using Cons(3) [of h'] that out by auto
    have "distinct (filter (\<lambda>q. q \<noteq> None) qs)" using Cons(4) by (auto split: if_splits)
    from Cons(1) [OF ok mem this] obtain q' where q': "TriggerVideoOutEventsLocked tsc qs k d ?q = Inr q'"
      "quiet ?q q'" "\<forall>h'. events_of q' h' = (if Some h' \<in> set qs
          then the (TriggerEvent tsc (video_key k) d (events_of ?q h')) else events_of ?q h')" by blast
    have "events_of q' h' = (if Some h' \<in> set (x # qs)
          then the (TriggerEvent tsc (video_key k) d (events_of q h')) else events_of q h')" for h'
      using q'(3) es(1) live out Some by auto
    then show ?thesis using Some es(2) q'(1) quiet_trans [OF quiet q'(2)] by simp
  qed
qed simp

lemma agree_listed: "agree w \<Longrightarrow> listed (vo_queues (es_video w) k) (holders k (es_queues w))"
  by (simp add: agree_def all_listed_def)

lemma VideoTrigger_ok:
  assumes "agree w"
  obtains q where "VideoTrigger tsc k d w = Inr (w\<lparr>es_queues := q\<rparr>)" "quiet (es_queues w) q"
    "\<And>h. events_of q h = (if Some h \<in> set (vo_queues (es_video w) k)
       then the (TriggerEvent tsc (video_key k) d (events_of (es_queues w) h)) else events_of (es_queues w) h)"
proof -
  have l: "listed (vo_queues (es_video w) k) (holders k (es_queues w))" by (rule agree_listed [OF assms])
  have "all_sources_ok (es_queues w)" using assms by (simp add: agree_def)
  moreover have "k \<in> kinds (events_of (es_queues w) h)" if "Some h \<in> set (vo_queues (es_video w) k)" for h
    using l that by (simp add: listed_def holders_def)
  moreover have "distinct (filter (\<lambda>q. q \<noteq> None) (vo_queues (es_video w) k))" using l by (simp add: listed_def)
  ultimately obtain q where q: "TriggerVideoOutEventsLocked tsc (vo_queues (es_video w) k) k d (es_queues w) = Inr q"
    "quiet (es_queues w) q" "\<forall>h. events_of q h = (if Some h \<in> set (vo_queues (es_video w) k)
       then the (TriggerEvent tsc (video_key k) d (events_of (es_queues w) h)) else events_of (es_queues w) h)"
    using TriggerVideoOutEventsLocked_ok by blast
  show thesis
  proof (rule that)
    show "VideoTrigger tsc k d w = Inr (w\<lparr>es_queues := q\<rparr>)" using q(1) by (simp add: VideoTrigger_def)
    show "quiet (es_queues w) q" by (rule q(2))
  qed (rule q(3) [rule_format])
qed

lemma trigger_eops_ok: "\<exists>q'. trigger_eops tsc d xs q = Inr q' \<and> quiet q q'"
proof (induction xs arbitrary: q)
  case (Cons x xs)
  obtain c q1 where 1: "KernelTriggerEvent tsc (Some (eop_eq x)) (word_of_int (eop_id x), KERNEL_EVFILT_GRAPHICS) d q = (c, q1)"
    by fastforce
  then have "c = OK \<or> c = KERNEL_ERROR_ENOENT" by (auto simp: KernelTriggerEvent_def split: option.splits)
  moreover obtain q' where "trigger_eops tsc d xs q1 = Inr q'" "quiet q1 q'" using Cons by blast
  ultimately show ?case using 1 quiet_trans [OF quiet_trigger [OF 1]] by auto
qed simp

lemma TriggerEopEvent_ok:
  obtains q where "TriggerEopEvent tsc c w = Inr (w\<lparr>es_queues := q\<rparr>)" "quiet (es_queues w) q"
proof -
  obtain q1 where q1: "trigger_eops tsc (ucast c) (es_eops w) (es_queues w) = Inr q1" "quiet (es_queues w) q1"
    using trigger_eops_ok by blast
  obtain n q2 where q2: "trigger_all tsc (word_of_int AGC_USER_INTERRUPT_EVENT, KERNEL_EVFILT_USER) tsc (g_equeues q1) q1 = (n, q2)"
    by fastforce
  have "TriggerEopEvent tsc c w = Inr (w\<lparr>es_queues := q2\<rparr>)"
    using q1 q2 by (simp add: TriggerEopEvent_def KernelTriggerUserEventForAll_def)
  then show thesis using that quiet_trans [OF q1(2) quiet_trigger_all [OF q2]] by blast
qed

lemma expired_sources:
  "sources_ok es \<Longrightarrow> sources_ok (TriggerExpiredTimers now es) \<and> kinds (TriggerExpiredTimers now es) = kinds es"
proof -
  assume ok: "sources_ok es"
  have keys: "map q_key (TriggerExpiredTimers now es) = map q_key es"
    unfolding TriggerExpiredTimers_def map_map by (rule map_cong) (simp_all add: q_key_def)
  have "source_ok (e\<lparr>q_triggered := True\<rparr>)" if "source_ok e" for e
  proof (rule source_ok_same [OF that])
    show "event_inv (e\<lparr>q_triggered := True\<rparr>)" using that unfolding source_ok_def event_inv_def by simp
  qed (simp_all add: q_key_def oneshot_def)
  then have "list_all source_ok (TriggerExpiredTimers now es)"
    using ok by (auto simp: sources_ok_def TriggerExpiredTimers_def list_all_iff)
  then show ?thesis using ok keys kinds_keys [OF keys] by (simp add: sources_ok_def)
qed

lemma quiet_poll:
  assumes "KernelPollEqueue eq False num now q = (c, out, q')"
  shows "quiet q q'"
proof (cases "q' = q")
  case False
  then obtain h es where get: "GetTriggeredEvents num now (events_of q h) = Inr (out, es)"
    and q': "q' = set_events h es q"
    using assms by (auto simp: KernelPollEqueue_def split: option.splits sum.splits)
  have "sources_ok (events_of q h) \<Longrightarrow> sources_ok es \<and> kinds es = kinds (events_of q h)"
    using get expired_sources [of "events_of q h" now] collect_sources
    by (auto simp: GetTriggeredEvents_def split: if_splits)
  then show ?thesis unfolding q' by (rule quiet_set)
qed simp

section \<open>Steps\<close>

text \<open>Handles that a call passes are those of live queues; the other events have no delete function.\<close>

inductive event_step :: "event_world \<Rightarrow> event_world \<Rightarrow> bool" where
  create: "KernelCreateEqueue False (Some nm) a (es_queues w) = (c, q) \<Longrightarrow> a \<notin> dom (eq_heap (es_queues w)) \<Longrightarrow>
    event_step w (w\<lparr>es_queues := q\<rparr>)"
| delete_queue: "h \<in> dom (eq_heap (es_queues w)) \<Longrightarrow> DeleteEqueueCall (Some h) w = Inr (c, w') \<Longrightarrow> event_step w w'"
| add: "q_delete ev = NoDelete \<Longrightarrow> q_pending ev = [] \<Longrightarrow>
    ev_filter (q_event ev) \<notin> {KERNEL_EVFILT_VIDEO_OUT, KERNEL_EVFILT_GRAPHICS} \<Longrightarrow>
    KernelAddEvent (Some h) ev (es_queues w) = (c, q) \<Longrightarrow> event_step w (w\<lparr>es_queues := q\<rparr>)"
| trigger: "KernelTriggerEvent tsc eq k d (es_queues w) = (c, q) \<Longrightarrow> event_step w (w\<lparr>es_queues := q\<rparr>)"
| poll: "KernelPollEqueue eq False num now (es_queues w) = (c, out, q) \<Longrightarrow> event_step w (w\<lparr>es_queues := q\<rparr>)"
| delete: "h \<in> dom (eq_heap (es_queues w)) \<Longrightarrow> DeleteEventCall (Some h) key w = Inr (c, w') \<Longrightarrow> event_step w w'"
| register: "h \<in> dom (eq_heap (es_queues w)) \<Longrightarrow> RegisterVideoOutEvent tsc handle (Some h) k udata w = (c, w') \<Longrightarrow>
    event_step w w'"
| delete_video: "h \<in> dom (eq_heap (es_queues w)) \<Longrightarrow> DeleteVideoOutEvent handle (Some h) k w = Inr (c, w') \<Longrightarrow>
    event_step w w'"
| open_video: "VideoOutOpen w = Inr (c, w') \<Longrightarrow> event_step w w'"
| close_video: "VideoOutClose False handle w = Inr (c, w') \<Longrightarrow> event_step w w'"
| flip_rate: "VideoOutSetFlipRate handle rate w = (c, w') \<Longrightarrow> event_step w w'"
| vblank_begin: "VblankBegin tsc w = Inr w' \<Longrightarrow> event_step w w'"
| vblank_end: "VblankEnd tsc w = Inr w' \<Longrightarrow> event_step w w'"
| flip_end: "FlipEnd tsc flip_arg w = Inr w' \<Longrightarrow> event_step w w'"
| configure: "VideoOutConfigureOutput tsc frequency handle mode opts p r w = Inr (c, w') \<Longrightarrow> event_step w w'"
| add_eq: "AddEqEventCall (Some h) n udata w = (c, w') \<Longrightarrow> event_step w w'"
| eop: "TriggerEopEvent tsc ctx w = Inr w' \<Longrightarrow> event_step w w'"

definition event_start :: "event_world \<Rightarrow> bool" where
  "event_start w \<longleftrightarrow> eq_heap (es_queues w) = Map.empty \<and> \<not> vo_opened (es_video w)
     \<and> vo_flip_rate (es_video w) = 0 \<and> (\<forall>k. vo_queues (es_video w) k = [])"

definition life_ok :: "video_config \<Rightarrow> bool" where
  "life_ok c \<longleftrightarrow> (vo_opened c \<longrightarrow> \<not> vo_closing c)
     \<and> (\<not> vo_opened c \<longrightarrow> vo_flip_rate c = 0 \<and> (\<forall>k. vo_queues c k = []))"

definition sources_inv :: "event_world \<Rightarrow> bool" where
  "sources_inv w \<longleftrightarrow> agree w \<and> life_ok (es_video w)"

lemma life_ok_same: "life_ok c \<Longrightarrow> same_video c c' \<Longrightarrow> life_ok c'"
  by (auto simp: life_ok_def same_video_def)

lemma sources_inv_quiet: "sources_inv w \<Longrightarrow> quiet (es_queues w) q \<Longrightarrow> sources_inv (w\<lparr>es_queues := q\<rparr>)"
  using quiet_agree by (simp add: sources_inv_def)

lemma agree_video:
  "agree w \<Longrightarrow> vo_queues c = vo_queues (es_video w) \<Longrightarrow> agree (w\<lparr>es_video := c\<rparr>)"
  by (simp add: agree_def)

lemma event_start_inv: "event_start w \<Longrightarrow> sources_inv w"
proof -
  assume start: "event_start w"
  then have "events_of (es_queues w) h = []" for h by (simp add: events_of_def event_start_def)
  then show "sources_inv w" using start listed_empty
    by (simp add: sources_inv_def agree_def all_sources_ok_def all_listed_def sources_ok_def
        holders_def kinds_def life_ok_def event_start_def)
qed

text \<open>Every call that can exit returns, and keeps the invariant.\<close>

lemma delete_kind:
  assumes "agree w" and "es_video w = c\<lparr>vo_queues := g\<rparr>"
  obtains w' f where "DeleteVideoOutEventsLocked k w = Inr w'" "agree w'"
    "es_video w' = c\<lparr>vo_queues := f\<rparr>" "f k = []" "\<forall>j. g j = [] \<longrightarrow> f j = []"
proof -
  obtain w' f where w': "DeleteVideoOutEventsLocked k w = Inr w'" "agree w'"
    "es_video w' = (es_video w)\<lparr>vo_queues := f\<rparr>" "f k = []"
    "\<forall>j. vo_queues (es_video w) j = [] \<longrightarrow> f j = []"
    using DeleteVideoOutEventsLocked_agree [OF assms(1), of k] .
  have "es_video w' = c\<lparr>vo_queues := f\<rparr>" using w'(3) assms(2) by simp
  moreover have "\<forall>j. g j = [] \<longrightarrow> f j = []" using w'(5) assms(2) by simp
  ultimately show thesis using w'(1,2,4) that by blast
qed

lemma VideoOutClose_ok:
  assumes inv: "sources_inv w"
  obtains c w' where "VideoOutClose False handle w = Inr (c, w')" "sources_inv w'"
    "VideoOutGet handle w \<Longrightarrow> c = OK \<and> \<not> vo_opened (es_video w')"
proof (cases "VideoOutGet handle w")
  case False
  then show thesis using inv by (intro that [of VIDEO_OUT_ERROR_INVALID_HANDLE w]) (simp_all add: VideoOutClose_def)
next
  case True
  let ?c = "(es_video w)\<lparr>vo_opened := False, vo_closing := True\<rparr>"
  let ?g = "vo_queues (es_video w)"
  have "agree (w\<lparr>es_video := ?c\<rparr>)" "es_video (w\<lparr>es_video := ?c\<rparr>) = ?c\<lparr>vo_queues := ?g\<rparr>"
    using inv by (simp_all add: sources_inv_def agree_video)
  from delete_kind [OF this, of Flip] obtain w1 f1 where
    1: "DeleteVideoOutEventsLocked Flip (w\<lparr>es_video := ?c\<rparr>) = Inr w1" "agree w1"
    "es_video w1 = ?c\<lparr>vo_queues := f1\<rparr>" "f1 Flip = []" "\<forall>j. ?g j = [] \<longrightarrow> f1 j = []" .
  from delete_kind [OF 1(2,3), of PreVblankStart] obtain w2 f2 where
    2: "DeleteVideoOutEventsLocked PreVblankStart w1 = Inr w2" "agree w2"
    "es_video w2 = ?c\<lparr>vo_queues := f2\<rparr>" "f2 PreVblankStart = []" "\<forall>j. f1 j = [] \<longrightarrow> f2 j = []" .
  from delete_kind [OF 2(2,3), of Vblank] obtain w3 f3 where
    3: "DeleteVideoOutEventsLocked Vblank w2 = Inr w3" "agree w3"
    "es_video w3 = ?c\<lparr>vo_queues := f3\<rparr>" "f3 Vblank = []" "\<forall>j. f2 j = [] \<longrightarrow> f3 j = []" .
  from delete_kind [OF 3(2,3), of OutputMode] obtain w4 f4 where
    4: "DeleteVideoOutEventsLocked OutputMode w3 = Inr w4" "agree w4"
    "es_video w4 = ?c\<lparr>vo_queues := f4\<rparr>" "f4 OutputMode = []" "\<forall>j. f3 j = [] \<longrightarrow> f4 j = []" .
  let ?w = "w4\<lparr>es_video := (es_video w4)\<lparr>vo_flip_rate := 0\<rparr>\<rparr>"
  have "f4 k = []" for k using 1(4) 2(4,5) 3(4,5) 4(4,5) by (cases k) simp_all
  then have "sources_inv ?w" using 4(2,3) by (simp add: sources_inv_def life_ok_def agree_video)
  moreover have "\<not> vo_closing (es_video w)"
    using inv True by (simp add: sources_inv_def life_ok_def VideoOutGet_def)
  then have "VideoOutClose False handle w = Inr (OK, ?w)"
    using True 1(1) 2(1) 3(1) 4(1) by (simp add: VideoOutClose_def)
  ultimately show thesis using 4(3) by (intro that [of OK ?w]) simp_all
qed

lemma VideoOutOpen_ok:
  assumes inv: "sources_inv w"
  obtains c w' where "VideoOutOpen w = Inr (c, w')" "sources_inv w'"
proof (cases "vo_opened (es_video w)")
  case True
  then show thesis using inv by (intro that [of "-1" w]) (simp_all add: VideoOutOpen_def)
next
  case False
  let ?c = "(es_video w)\<lparr>vo_closing := False, vo_opened := True,
     vo_output_mode := VIDEO_OUT_OUTPUT_MODE_DEFAULT, vo_pre_vblank := 0, vo_vblank := 0\<rparr>"
  have "vo_queues (es_video w) k = []" for k using inv False by (simp add: sources_inv_def life_ok_def)
  moreover have "vo_flip_rate (es_video w) = 0" using inv False by (simp add: sources_inv_def life_ok_def)
  ultimately have "VideoOutOpen w = Inr (1, w\<lparr>es_video := ?c\<rparr>)" using False by (simp add: VideoOutOpen_def)
  moreover have "sources_inv (w\<lparr>es_video := ?c\<rparr>)"
    using inv by (simp add: sources_inv_def agree_video life_ok_def)
  ultimately show thesis by (rule that)
qed

lemma DeleteEventCall_ok:
  assumes inv: "sources_inv w" and live: "h \<in> dom (eq_heap (es_queues w))"
  obtains c w' where "DeleteEventCall (Some h) key w = Inr (c, w')" "sources_inv w'"
proof -
  have "agree w" using inv by (simp add: sources_inv_def)
  from DeleteEventCall_agree [OF this live, of key] obtain c w' where
    "DeleteEventCall (Some h) key w = Inr (c, w')" "agree w'" "same_video (es_video w) (es_video w')"
    by metis
  moreover from this(3) have "life_ok (es_video w')" using inv life_ok_same unfolding sources_inv_def by blast
  ultimately show thesis using that by (simp add: sources_inv_def)
qed

lemma DeleteEqueueCall_ok:
  assumes "sources_inv w"
  obtains w' where "DeleteEqueueCall (Some h) w = Inr (OK, w')" "sources_inv w'"
    "\<And>k. Some h \<notin> set (vo_queues (es_video w') k)"
proof -
  have "agree w" using assms by (simp add: sources_inv_def)
  from DeleteEqueueCall_agree [OF this, of h] obtain w' where "DeleteEqueueCall (Some h) w = Inr (OK, w')"
    "agree w'" "\<And>k. Some h \<notin> set (vo_queues (es_video w') k)" "same_video (es_video w) (es_video w')"
    by metis
  moreover from this(4) have "life_ok (es_video w')" using assms life_ok_same unfolding sources_inv_def by blast
  ultimately show thesis using that by (simp add: sources_inv_def)
qed

lemma VideoTrigger_inv:
  assumes "sources_inv w"
  obtains w' where "VideoTrigger tsc k d w = Inr w'" "sources_inv w'"
proof -
  have "agree w" using assms by (simp add: sources_inv_def)
  from VideoTrigger_ok [OF this, of tsc k d] obtain q where
    "VideoTrigger tsc k d w = Inr (w\<lparr>es_queues := q\<rparr>)" "quiet (es_queues w) q" by metis
  then show thesis using sources_inv_quiet [OF assms] that by blast
qed

lemma sources_inv_video:
  "sources_inv w \<Longrightarrow> vo_queues c = vo_queues (es_video w) \<Longrightarrow> vo_opened c = vo_opened (es_video w) \<Longrightarrow>
     vo_closing c = vo_closing (es_video w) \<Longrightarrow> vo_flip_rate c = vo_flip_rate (es_video w) \<Longrightarrow>
     sources_inv (w\<lparr>es_video := c\<rparr>)"
  by (simp add: sources_inv_def agree_video life_ok_def)

lemma VblankBegin_ok:
  assumes "sources_inv w"
  obtains w' where "VblankBegin tsc w = Inr w'" "sources_inv w'"
proof (cases "vo_opened (es_video w)")
  case True
  have "sources_inv (w\<lparr>es_video := (es_video w)\<lparr>vo_pre_vblank := vo_pre_vblank (es_video w) + 1\<rparr>\<rparr>)"
    by (rule sources_inv_video [OF assms]) simp_all
  from VideoTrigger_inv [OF this] True that show thesis by (metis VblankBegin_def)
qed (use assms that in \<open>simp add: VblankBegin_def\<close>)

lemma VblankEnd_ok:
  assumes "sources_inv w"
  obtains w' where "VblankEnd tsc w = Inr w'" "sources_inv w'"
proof (cases "vo_opened (es_video w)")
  case True
  have "sources_inv (w\<lparr>es_video := (es_video w)\<lparr>vo_vblank := vo_vblank (es_video w) + 1\<rparr>\<rparr>)"
    by (rule sources_inv_video [OF assms]) simp_all
  from VideoTrigger_inv [OF this] True that show thesis by (metis VblankEnd_def)
qed (use assms that in \<open>simp add: VblankEnd_def\<close>)

lemma VideoOutConfigureOutput_ok:
  assumes "sources_inv w"
  obtains c w' where "VideoOutConfigureOutput tsc freq handle mode opts p r w = Inr (c, w')" "sources_inv w'"
proof -
  have "sources_inv (w\<lparr>es_video := (es_video w)\<lparr>vo_output_mode := mode\<rparr>\<rparr>)"
    by (rule sources_inv_video [OF assms]) simp_all
  from VideoTrigger_inv [OF this, of tsc OutputMode mode] obtain w1 where
    "VideoTrigger tsc OutputMode mode (w\<lparr>es_video := (es_video w)\<lparr>vo_output_mode := mode\<rparr>\<rparr>) = Inr w1" "sources_inv w1" .
  then have "\<exists>c w'. VideoOutConfigureOutput tsc freq handle mode opts p r w = Inr (c, w') \<and> sources_inv w'"
    using assms by (simp add: VideoOutConfigureOutput_def Let_def)
  then show thesis using that by blast
qed

lemma RegisterLocked_agree:
  assumes inv: "agree w" and live: "h \<in> dom (eq_heap (es_queues w))"
    and reg: "RegisterLocked tsc (Some h) k udata w = (c, w')"
  shows "agree w' \<and> c = OK \<and> (\<exists>f. es_video w' = (es_video w)\<lparr>vo_queues := f\<rparr>)"
proof -
  let ?ev = "video_event tsc k (vo_output_mode (es_video w)) udata"
  let ?qs = "vo_queues (es_video w) k"
  let ?q = "set_events h (AddEvent ?ev (events_of (es_queues w) h)) (es_queues w)"
  have key: "q_key ?ev = video_key j \<longleftrightarrow> j = k" for j
    by (auto simp: video_event_def Let_def q_key_def event_key_def)
  have "source_ok ?ev"
    unfolding source_ok_def video_event_def Let_def
    by (auto simp: event_inv_def oneshot_def filter_defs)
  then have ev: "sources_ok (events_of (es_queues w) h) \<Longrightarrow> sources_ok (AddEvent ?ev (events_of (es_queues w) h))
      \<and> kinds (AddEvent ?ev (events_of (es_queues w) h)) = insert k (kinds (events_of (es_queues w) h))"
    using AddEvent_sources [of "events_of (es_queues w) h" ?ev] by (auto simp: key)
  have ok: "sources_ok (events_of (es_queues w) h')" for h' using inv by (simp add: agree_def all_sources_ok_def)
  have hold: "holders j ?q = (if j = k then insert h (holders j (es_queues w)) else holders j (es_queues w))" for j
    using ev [OF ok] live by (auto simp: holders_def)
  have l: "listed (vo_queues (es_video w) j) (holders j (es_queues w))" for j by (rule agree_listed [OF inv])
  have w': "es_queues w' = ?q" "c = OK"
    "es_video w' = (if Some h \<in> set ?qs then es_video w else set_queues k (?qs @ [Some h]) (es_video w))"
    using reg by (auto simp: RegisterLocked_def Let_def KernelAddEvent_def)
  have "all_listed (vo_queues (es_video w')) (\<lambda>j. holders j ?q)"
  proof (cases "Some h \<in> set ?qs")
    case True
    then have "h \<in> holders k (es_queues w)" using l [of k] by (simp add: listed_def)
    then show ?thesis using True l w'(3) by (simp add: all_listed_def hold insert_absorb)
  next
    case False
    then have "h \<notin> holders k (es_queues w)" using l [of k] by (simp add: listed_def)
    then show ?thesis using False l w'(3) listed_add [OF l] by (simp add: all_listed_def hold set_queues_def)
  qed
  moreover have "all_sources_ok ?q" using ok ev [OF ok] by (simp add: all_sources_ok_def)
  moreover have "\<exists>f. es_video w' = (es_video w)\<lparr>vo_queues := f\<rparr>"
  proof (cases "Some h \<in> set ?qs")
    case True
    then have "es_video w' = (es_video w)\<lparr>vo_queues := vo_queues (es_video w)\<rparr>" using w'(3) by simp
    then show ?thesis by blast
  qed (use w'(3) in \<open>auto simp: set_queues_def\<close>)
  ultimately show ?thesis using w' by (simp add: agree_def)
qed

lemma event_step_inv:
  assumes inv: "sources_inv w" and step: "event_step w w'"
  shows "sources_inv w'"
  using step
proof (cases rule: event_step.cases)
  case (create nm a c q)
  have "q = (es_queues w)\<lparr>g_equeues := g_equeues (es_queues w) @ [a],
      eq_heap := (eq_heap (es_queues w))(a \<mapsto> \<lparr>eq_name = nm, eq_events = []\<rparr>)\<rparr>"
    using create(2) by (simp add: KernelCreateEqueue_def)
  then have "events_of q h = events_of (es_queues w) h" for h
    using create(3) by (auto simp: events_of_def split: option.splits)
  then show ?thesis unfolding create(1) by (intro sources_inv_quiet [OF inv]) (simp add: quiet_def)
next
  case (delete_queue h c)
  then show ?thesis using DeleteEqueueCall_ok [OF inv, of h] by (metis Inr_inject prod.inject)
next
  case (add ev h c q)
  have ev: "source_ok ev" using add(2-4) by (simp add: source_ok_def event_inv_def)
  show ?thesis unfolding add(1)
    by (rule sources_inv_quiet [OF inv quiet_add [OF ev _ add(5)]]) (use add(4) in simp)
next
  case (trigger tsc eq k d c q)
  show ?thesis unfolding trigger(1) by (rule sources_inv_quiet [OF inv quiet_trigger [OF trigger(2)]])
next
  case (poll eq num now c out q)
  show ?thesis unfolding poll(1) by (rule sources_inv_quiet [OF inv quiet_poll [OF poll(2)]])
next
  case (delete h key c)
  from DeleteEventCall_ok [OF inv delete(1), of key] obtain c2 w2 where
    "DeleteEventCall (Some h) key w = Inr (c2, w2)" "sources_inv w2" .
  then show ?thesis using delete(2) by simp
next
  case (register h tsc handle k udata c)
  show ?thesis
  proof (cases "VideoOutGet handle w")
    case True
    then have reg: "RegisterLocked tsc (Some h) k udata w = (c, w')"
      using register(2) by (simp add: RegisterVideoOutEvent_def)
    have "agree w" using inv by (simp add: sources_inv_def)
    from RegisterLocked_agree [OF this register(1) reg] True inv
    show ?thesis by (auto simp: sources_inv_def life_ok_def VideoOutGet_def)
  next
    case False
    then show ?thesis using register(2) inv by (simp add: RegisterVideoOutEvent_def)
  qed
next
  case (delete_video h handle k c)
  show ?thesis
  proof (cases "VideoOutGet handle w")
    case True
    from DeleteEventCall_ok [OF inv delete_video(1), of "video_key k"] obtain c2 w2 where
      "DeleteEventCall (Some h) (video_key k) w = Inr (c2, w2)" "sources_inv w2" .
    then show ?thesis using delete_video(2) True by (simp add: DeleteVideoOutEvent_def)
  next
    case False
    then show ?thesis using delete_video(2) inv by (simp add: DeleteVideoOutEvent_def)
  qed
next
  case (open_video c)
  then show ?thesis using VideoOutOpen_ok [OF inv] by (metis Inr_inject prod.inject)
next
  case (close_video handle c)
  then show ?thesis using VideoOutClose_ok [OF inv, of handle] by (metis Inr_inject prod.inject)
next
  case (flip_rate handle rate c)
  then show ?thesis using inv
    by (auto simp: VideoOutSetFlipRate_def VideoOutGet_def sources_inv_def agree_video life_ok_def split: if_splits)
next
  case (vblank_begin tsc)
  then show ?thesis using VblankBegin_ok [OF inv, of tsc] by (metis Inr_inject)
next
  case (vblank_end tsc)
  then show ?thesis using VblankEnd_ok [OF inv, of tsc] by (metis Inr_inject)
next
  case (flip_end tsc flip_arg)
  then show ?thesis using VideoTrigger_inv [OF inv, of tsc Flip flip_arg] by (metis FlipEnd_def Inr_inject)
next
  case (configure tsc frequency handle mode opts p r c)
  from VideoOutConfigureOutput_ok [OF inv, of tsc frequency handle mode opts p r] obtain c2 w2 where
    "VideoOutConfigureOutput tsc frequency handle mode opts p r w = Inr (c2, w2)" "sources_inv w2" .
  then show ?thesis using configure by simp
next
  case (add_eq h n udata c)
  obtain q where q: "AddEqEvent (Some h) n udata (es_queues w) = (OK, q)"
    by (simp add: AddEqEvent_def KernelAddEvent_def)
  have "quiet (es_queues w) q"
    by (rule quiet_add [OF _ _ q [unfolded AddEqEvent_def]])
      (simp_all add: source_ok_def fresh_event_def event_inv_def filter_defs)
  note sources_inv_quiet [OF inv this]
  moreover have "es_video w' = es_video w" "es_queues w' = q"
    using add_eq q by (auto simp: AddEqEventCall_def)
  ultimately show ?thesis by (simp add: sources_inv_def agree_def)
next
  case (eop tsc ctx)
  from TriggerEopEvent_ok [of tsc ctx w] obtain q where
    "TriggerEopEvent tsc ctx w = Inr (w\<lparr>es_queues := q\<rparr>)" "quiet (es_queues w) q" .
  then show ?thesis using eop sources_inv_quiet [OF inv] by simp
qed

interpretation es: atomic_object event_start event_step sources_inv
  by unfold_locales (rule event_start_inv, assumption, rule event_step_inv)

section \<open>The data of a video event\<close>

lemma event_masks: "(0xf::64 word) = mask 4" "(0xfff::64 word) = mask 12" "(0xffffffffffff::64 word) = mask 48"
  "(0xffff000000000000::64 word) = push_bit 48 (mask 16)" "(0x8000000000000000::64 word) = push_bit 63 1"
  by (simp_all add: mask_eq_exp_minus_1 push_bit_eq_mult)

lemma event_counter:
  fixes c :: "64 word"
  assumes "c = x AND 0xf"
  shows "(if c \<noteq> 0xf then c + 1 else c) = of_nat (min 15 (unat c + 1))"
    and "(if c \<noteq> 0xf then c + 1 else c) \<le> 0xf"
proof -
  have "unat c \<le> 15" using assms word_and_le1 [of x "0xf"] by (simp add: word_le_nat_alt and.commute)
  moreover have "unat c \<noteq> 15" if "c \<noteq> 0xf"
    using that by (auto simp: word_unat_eq_iff)
  ultimately have "min 15 (unat c + 1) = unat c + 1" if "c \<noteq> 0xf" using that by simp
  then show "(if c \<noteq> 0xf then c + 1 else c) = of_nat (min 15 (unat c + 1))" by simp
  moreover obtain m where m: "m = min 15 (unat c + 1)" by simp
  moreover from m have "m \<le> 15" by simp
  then have "(of_nat m :: 64 word) \<le> 0xf"
    by (simp add: word_le_nat_alt unsigned_of_nat take_bit_nat_eq_self)
  ultimately show "(if c \<noteq> 0xf then c + 1 else c) \<le> 0xf" by simp
qed

lemma small_bit: "(c::64 word) \<le> 0xf \<Longrightarrow> bit c n \<Longrightarrow> n < 4"
proof -
  assume "c \<le> 0xf" "bit c n"
  then have "take_bit 4 c = c" by (simp add: word_unat_eq_iff unsigned_take_bit_eq take_bit_nat_eq_self word_le_nat_alt)
  then show "n < 4" using \<open>bit c n\<close> by (metis bit_take_bit_iff)
qed

lemma make_data:
  obtains c where "MakeVideoOutEventData tsc cur p = take_bit 12 tsc OR push_bit 12 c OR push_bit 16 (take_bit 48 p)"
    "c \<le> 0xf" "c = of_nat (min 15 (unat (drop_bit 12 cur AND 0xf) + 1))"
proof (rule that)
  let ?c = "drop_bit 12 cur AND 0xf"
  show "MakeVideoOutEventData tsc cur p = take_bit 12 tsc OR push_bit 12 (if ?c \<noteq> 0xf then ?c + 1 else ?c) OR push_bit 16 (take_bit 48 p)"
    unfolding MakeVideoOutEventData_def Let_def event_masks(2,3) take_bit_eq_mask ..
qed (rule event_counter [OF refl])+

lemma event_payload: "drop_bit 16 (MakeVideoOutEventData tsc cur p) = take_bit 48 p"
proof -
  obtain c where c: "MakeVideoOutEventData tsc cur p = take_bit 12 tsc OR push_bit 12 c OR push_bit 16 (take_bit 48 p)"
    "c \<le> 0xf" using make_data .
  show ?thesis
  proof (rule bit_word_eqI)
    fix n assume "n < LENGTH(64)"
    then show "bit (drop_bit 16 (MakeVideoOutEventData tsc cur p)) n = bit (take_bit 48 p) n"
      using small_bit [OF c(2), of "4 + n"] unfolding c(1) by (auto simp: bit_simps)
  qed
qed

lemma event_count_word: "drop_bit 12 (MakeVideoOutEventData tsc cur p) AND 0xf = of_nat (min 15 (unat (drop_bit 12 cur AND 0xf) + 1))"
proof -
  obtain c where c: "MakeVideoOutEventData tsc cur p = take_bit 12 tsc OR push_bit 12 c OR push_bit 16 (take_bit 48 p)"
    "c \<le> 0xf" "c = of_nat (min 15 (unat (drop_bit 12 cur AND 0xf) + 1))" using make_data .
  have "drop_bit 12 (MakeVideoOutEventData tsc cur p) AND 0xf = c"
  proof (rule bit_word_eqI)
    fix n assume "n < LENGTH(64)"
    then show "bit (drop_bit 12 (MakeVideoOutEventData tsc cur p) AND 0xf) n = bit c n"
      using small_bit [OF c(2), of n] unfolding c(1) event_masks by (auto simp: bit_simps)
  qed
  then show ?thesis using c(3) by simp
qed

lemma event_payload_signed:
  assumes "-(2^47) \<le> sint p" and "sint p < 2^47"
  shows "(let d = drop_bit 16 (MakeVideoOutEventData tsc cur p)
    in if MakeVideoOutEventData tsc cur p AND 0x8000000000000000 \<noteq> 0 then d OR 0xffff000000000000 else d) = p"
proof -
  have s: "signed_take_bit 47 (sint p) = sint p" using assms by (simp add: signed_take_bit_int_eq_self)
  have bits: "bit p n = bit p 47" if "47 \<le> n" "n < 64" for n
  proof -
    have "bit (sint p) n = bit (signed_take_bit 47 (sint p)) n" using s by simp
    also have "\<dots> = bit (sint p) 47" using that(1) by (simp add: bit_signed_take_bit_iff min_def)
    finally have "bit (sint p) n = bit (sint p) 47" .
    then show ?thesis using that by (simp add: bit_sint_iff)
  qed
  have neg: "MakeVideoOutEventData tsc cur p AND 0x8000000000000000 \<noteq> 0 \<longleftrightarrow> bit p 47"
  proof -
    have "MakeVideoOutEventData tsc cur p AND 0x8000000000000000 \<noteq> 0 \<longleftrightarrow> bit (MakeVideoOutEventData tsc cur p) 63"
      using and_exp_eq_0_iff_not_bit [of "MakeVideoOutEventData tsc cur p" 63] by simp
    also have "\<dots> \<longleftrightarrow> bit (drop_bit 16 (MakeVideoOutEventData tsc cur p)) 47" by (simp add: bit_drop_bit_eq)
    finally show ?thesis by (simp add: event_payload bit_simps)
  qed
  have eq: "(let d = drop_bit 16 (MakeVideoOutEventData tsc cur p)
      in if MakeVideoOutEventData tsc cur p AND 0x8000000000000000 \<noteq> 0 then d OR 0xffff000000000000 else d)
      = (if bit p 47 then take_bit 48 p OR push_bit 48 (mask 16) else take_bit 48 p)"
    unfolding Let_def neg event_payload event_masks(4) by simp
  show ?thesis unfolding eq
  proof (rule bit_word_eqI)
    fix n assume n: "n < LENGTH(64)"
    show "bit (if bit p 47 then take_bit 48 p OR push_bit 48 (mask 16) else take_bit 48 p) n = bit p n"
      using bits [of n] n by (cases "n < 48") (auto simp: bit_simps)
  qed
qed

section \<open>Properties\<close>


lemma TriggerEvent_video:
  "distinct (map q_key es) \<Longrightarrow> e \<in> set es \<Longrightarrow>
     \<exists>es'. TriggerEvent tsc (q_key e) d es = Some es' \<and> run_trigger tsc (q_trigger e) d e \<in> set es'"
  by (induction es) auto

text \<open>
  A trigger of the video output reaches every queue in which the event is registered
  exactly once, and no other: it appends one notification to the backlog of the event, with
  the data made from the trigger's argument and a count that saturates at 15.
\<close>
theorem video_trigger_delivers:
  assumes "event_start w0" and "event_step\<^sup>*\<^sup>* w0 w"
  shows "\<exists>w'. VideoTrigger tsc k d w = Inr w'
    \<and> (\<forall>h. Some h \<in> set (vo_queues (es_video w) k) \<longleftrightarrow> video_key k \<in> q_key ` set (events_of (es_queues w) h))
    \<and> (\<forall>h. Some h \<notin> set (vo_queues (es_video w) k) \<longrightarrow> events_of (es_queues w') h = events_of (es_queues w) h)
    \<and> (\<forall>h. \<forall>e\<in>set (events_of (es_queues w) h). q_key e = video_key k \<longrightarrow>
         (\<exists>e'\<in>set (events_of (es_queues w') h). q_key e' = video_key k
           \<and> backlog e' = backlog e @ [(q_event e)\<lparr>
               ev_fflags := (if ev_fflags (q_event e) < 0xf then ev_fflags (q_event e) + 1
                             else ev_fflags (q_event e)),
               ev_data := MakeVideoOutEventData tsc (ev_data (q_event e)) d\<rparr>]))"
proof -
  have agree: "agree w" using es.reach_inv [OF assms] by (simp add: sources_inv_def)
  from VideoTrigger_ok [OF agree, of tsc k d] obtain q where
    q: "VideoTrigger tsc k d w = Inr (w\<lparr>es_queues := q\<rparr>)"
    and ev: "\<And>h. events_of q h = (if Some h \<in> set (vo_queues (es_video w) k)
       then the (TriggerEvent tsc (video_key k) d (events_of (es_queues w) h)) else events_of (es_queues w) h)"
    by metis
  have l: "Some h \<in> set (vo_queues (es_video w) k) \<longleftrightarrow> video_key k \<in> q_key ` set (events_of (es_queues w) h)" for h
    using agree_listed [OF agree, of k] by (simp add: listed_def holders_def kinds_def)
  have sent: "\<exists>e'\<in>set (events_of q h). q_key e' = video_key k \<and> backlog e' = backlog e @ [(q_event e)\<lparr>
               ev_fflags := (if ev_fflags (q_event e) < 0xf then ev_fflags (q_event e) + 1
                             else ev_fflags (q_event e)),
               ev_data := MakeVideoOutEventData tsc (ev_data (q_event e)) d\<rparr>]"
    if e: "e \<in> set (events_of (es_queues w) h)" and key: "q_key e = video_key k" for h e
  proof -
    have ok: "sources_ok (events_of (es_queues w) h)" using agree by (simp add: agree_def all_sources_ok_def)
    then have "source_ok e" using e by (auto simp: sources_ok_def list_all_iff)
    moreover have "ev_filter (q_event e) = KERNEL_EVFILT_VIDEO_OUT"
      using key by (simp add: q_key_def event_key_def)
    ultimately have trig: "q_trigger e = TriggerVideoOutEvent" and inv: "event_inv e"
      unfolding source_ok_def by blast+
    have "Some h \<in> set (vo_queues (es_video w) k)" unfolding l by (rule image_eqI [OF _ e]) (simp add: key)
    moreover obtain es' where "TriggerEvent tsc (q_key e) d (events_of (es_queues w) h) = Some es'"
      and mem: "run_trigger tsc (q_trigger e) d e \<in> set es'"
      using TriggerEvent_video [OF _ e] ok by (auto simp: sources_ok_def)
    ultimately have es': "events_of q h = es'" unfolding ev key by simp
    show ?thesis
    proof (intro bexI [of _ "run_trigger tsc (q_trigger e) d e"] conjI)
      show "run_trigger tsc (q_trigger e) d e \<in> set (events_of q h)" using mem es' by simp
      show "q_key (run_trigger tsc (q_trigger e) d e) = video_key k" by (simp only: run_trigger_key key)
    qed (use inv in \<open>auto simp: trig deliver_def backlog_def event_inv_def\<close>)
  qed
  show ?thesis
  proof (intro exI conjI)
    show "VideoTrigger tsc k d w = Inr (w\<lparr>es_queues := q\<rparr>)" by (rule q)
    show "\<forall>h. Some h \<in> set (vo_queues (es_video w) k) \<longleftrightarrow> video_key k \<in> q_key ` set (events_of (es_queues w) h)"
      using l by blast
    show "\<forall>h. Some h \<notin> set (vo_queues (es_video w) k) \<longrightarrow>
        events_of (es_queues (w\<lparr>es_queues := q\<rparr>)) h = events_of (es_queues w) h"
      using ev by simp
  qed (use sent in simp)
qed

text \<open>
  What a game reads from a video event is what the trigger put in: the argument of a flip
  if it fits in 48 bits with its sign, the counter of vertical blanks if it fits in 48 bits,
  and as count the number of triggers since the last delivery, at most 15.
\<close>
theorem video_event_data_roundtrip:
  assumes "ev_filter ev = KERNEL_EVFILT_VIDEO_OUT" and "ev_data ev = MakeVideoOutEventData tsc old p"
  shows "(ev_ident ev = VideoOutEventId Flip \<and> - (2 ^ 47) \<le> sint p \<and> sint p < 2 ^ 47 \<longrightarrow>
        VideoOutGetEventData (Some ev) False = (OK, Some p))
    \<and> (ev_ident ev \<noteq> VideoOutEventId Flip \<and> unat p < 2 ^ 48 \<longrightarrow>
        VideoOutGetEventData (Some ev) False = (OK, Some p))
    \<and> VideoOutGetEventCount (Some ev)
        = min 15 (VideoOutGetEventCount (Some (ev\<lparr>ev_data := old\<rparr>)) + 1)"
proof (intro conjI impI)
  assume "ev_ident ev = VideoOutEventId Flip \<and> - (2 ^ 47) \<le> sint p \<and> sint p < 2 ^ 47"
  then show "VideoOutGetEventData (Some ev) False = (OK, Some p)"
    using event_payload_signed [of p tsc old, unfolded Let_def] assms
    by (simp add: VideoOutGetEventData_def Let_def)
next
  assume h: "ev_ident ev \<noteq> VideoOutEventId Flip \<and> unat p < 2 ^ 48"
  then have "take_bit 48 p = p" by (simp add: word_unat_eq_iff unsigned_take_bit_eq take_bit_nat_eq_self)
  then show "VideoOutGetEventData (Some ev) False = (OK, Some p)"
    using h assms by (simp add: VideoOutGetEventData_def event_payload)
next
  let ?c = "drop_bit 12 old AND 0xf :: 64 word"
  have small: "sint (ucast w :: 32 word) = int n" if "w = of_nat n" "n \<le> 15" for w :: "64 word" and n
    using that by (simp add: sint_uint unsigned_ucast_eq unsigned_of_nat signed_take_bit_int_eq_self take_bit_nat_eq_self take_bit_int_eq_self)
  obtain n where n: "n = unat ?c" by simp
  have "n \<le> 15" using word_and_le1 [of "drop_bit 12 old" "0xf"] n by (simp add: word_le_nat_alt and.commute)
  moreover have "?c = of_nat n" using n by simp
  ultimately have "sint (ucast ?c :: 32 word) = int n" by (intro small)
  moreover have "sint (ucast (drop_bit 12 (MakeVideoOutEventData tsc old p) AND 0xf) :: 32 word) = int (min 15 (n + 1))"
    unfolding n by (rule small [OF event_count_word]) simp
  ultimately show "VideoOutGetEventCount (Some ev) = min 15 (VideoOutGetEventCount (Some (ev\<lparr>ev_data := old\<rparr>)) + 1)"
    using assms by (simp add: VideoOutGetEventCount_def)
qed

section \<open>What the calls do not exclude\<close>

text \<open>
  \<open>RegisterVideoOutEvent\<close> gets its configuration before it takes the mutex, and does not look at
  it again: if the output is closed in between, the queue ends up in the list of a closed output.
\<close>

text \<open>
  A registration that overlaps with closing makes the next opening of the video output
  exit: after \<open>Close\<close>, the rest of \<open>RegisterVideoOutEvent\<close> reports success and leaves a queue in
  the list, and \<open>Open\<close> exits if there is one.
\<close>
theorem register_during_close_exits:
  assumes "event_start w0" and "event_step\<^sup>*\<^sup>* w0 w" and "VideoOutGet handle w"
    and "h \<in> dom (eq_heap (es_queues w))"
  shows "\<exists>w1 w2. VideoOutClose False handle w = Inr (OK, w1)
    \<and> RegisterLocked tsc (Some h) k udata w1 = (OK, w2) \<and> is_exit (VideoOutOpen w2)"
proof -
  obtain c w1 where w1: "VideoOutClose False handle w = Inr (c, w1)" "sources_inv w1"
    "c = OK \<and> \<not> vo_opened (es_video w1)"
    using VideoOutClose_ok [OF es.reach_inv [OF assms(1,2)], of handle] assms(3) by metis
  obtain c2 w2 where w2: "RegisterLocked tsc (Some h) k udata w1 = (c2, w2)" by fastforce
  have empty: "vo_queues (es_video w1) j = []" for j using w1(2,3) by (simp add: sources_inv_def life_ok_def)
  have "c2 = OK" "vo_opened (es_video w2) = vo_opened (es_video w1)" "vo_queues (es_video w2) k = [Some h]"
    using w2 empty [of k] by (auto simp: RegisterLocked_def Let_def KernelAddEvent_def set_queues_def)
  then have "is_exit (VideoOutOpen w2)" using w1(3) by (cases k) (simp_all add: VideoOutOpen_def is_exit_def)
  then show ?thesis using w1(1,3) w2 \<open>c2 = OK\<close> by blast
qed

definition no_sources :: event_world where
  "no_sources = \<lparr>es_queues = \<lparr>g_equeues = [], eq_heap = Map.empty\<rparr>,
     es_video = \<lparr>vo_opened = False, vo_closing = False, vo_flip_rate = 0, vo_queues = (\<lambda>_. []),
       vo_output_mode = 0, vo_pre_vblank = 0, vo_vblank = 0\<rparr>, es_eops = []\<rparr>"

definition one_queue :: event_world where
  "one_queue = no_sources\<lparr>es_queues := snd (KernelCreateEqueue False (Some ''q'') 1 (es_queues no_sources))\<rparr>"

definition eop_twice :: event_world where
  "eop_twice = snd (AddEqEventCall (Some 1) GRAPHICS_EVENT_EOP 0
     (snd (AddEqEventCall (Some 1) GRAPHICS_EVENT_EOP 0 one_queue)))"

lemma no_sources_start: "event_start no_sources"
  by (simp add: event_start_def no_sources_def)

lemma one_queue_step: "event_step no_sources one_queue"
proof -
  have "KernelCreateEqueue False (Some ''q'') 1 (es_queues no_sources) = (OK, es_queues one_queue)"
    by (simp add: KernelCreateEqueue_def one_queue_def)
  from event_step.create [OF this] show ?thesis by (simp add: one_queue_def no_sources_def)
qed

lemma eop_twice_reachable: "event_step\<^sup>*\<^sup>* no_sources eop_twice"
proof -
  let ?w = "snd (AddEqEventCall (Some 1) GRAPHICS_EVENT_EOP 0 one_queue)"
  have "event_step one_queue ?w" by (rule event_step.add_eq) (rule prod.collapse [symmetric])
  moreover have "event_step ?w eop_twice"
    unfolding eop_twice_def by (rule event_step.add_eq) (rule prod.collapse [symmetric])
  ultimately show ?thesis using one_queue_step by (meson converse_rtranclp_into_rtranclp rtranclp.rtrancl_refl)
qed

lemmas source_example_defs = no_sources_def one_queue_def eop_twice_def AddEqEventCall_def AddEqEvent_def
  KernelAddEvent_def KernelCreateEqueue_def events_of_def set_events_def eop_event_def fresh_event_def
  q_key_def event_key_def

text \<open>
  \<open>AddEqEvent\<close> counts a queue once for each call, but the queue keeps one event and deletes it
  once.
\<close>

text \<open>
  An end-of-pipe registration can outlive its queue: there is a reachable state in which
  the list of the render context names a queue that has been deleted, so the next interrupt
  triggers an event on freed memory.
\<close>
theorem eop_entry_outlives_queue:
  "\<exists>w0 w. event_start w0 \<and> event_step\<^sup>*\<^sup>* w0 w
     \<and> (\<exists>x. x \<in> set (es_eops w) \<and> eop_eq x \<notin> dom (eq_heap (es_queues w)))"
proof -
  have live: "1 \<in> dom (eq_heap (es_queues eop_twice))" and eops: "es_eops eop_twice = [\<lparr>eop_eq = 1, eop_id = 0x40, eop_count = 2\<rparr>]"
    by (simp_all add: source_example_defs OK_def GRAPHICS_EVENT_EOP_def)
  obtain w1 where w1: "DeleteEventCall (Some 1) (word_of_int GRAPHICS_EVENT_EOP, KERNEL_EVFILT_GRAPHICS) eop_twice = Inr (OK, w1)"
    and eops1: "es_eops w1 = [\<lparr>eop_eq = 1, eop_id = 0x40, eop_count = 1\<rparr>]" and ev1: "events_of (es_queues w1) 1 = []"
    by (simp add: DeleteEventCall_def KernelDeleteEvent_def run_delete_def EopEventDelete_def
        source_example_defs OK_def GRAPHICS_EVENT_EOP_def filter_defs GRAPHICS_EVENT_QUEUED_GRAPHICS_INTERRUPT_def)
  have s1: "event_step eop_twice w1" by (rule event_step.delete [OF live w1])
  obtain w2 where w2: "DeleteEqueueCall (Some 1) w1 = Inr (OK, w2)" "es_eops w2 = es_eops w1"
    "1 \<notin> dom (eq_heap (es_queues w2))"
    using ev1 by (simp add: DeleteEqueueCall_def KernelDeleteEqueue_def)
  have "dom (eq_heap (es_queues w1)) = dom (eq_heap (es_queues eop_twice))"
    by (metis DeleteEventCall_agree Inr_inject Pair_inject es.reach_inv eop_twice_reachable live
        no_sources_start sources_inv_def w1)
  then have "event_step w1 w2" using event_step.delete_queue [OF _ w2(1)] live by simp
  then have "event_step\<^sup>*\<^sup>* no_sources w2" using eop_twice_reachable s1 by simp
  moreover have "\<exists>x. x \<in> set (es_eops w2) \<and> eop_eq x \<notin> dom (eq_heap (es_queues w2))"
    using w2(2,3) eops1 by simp
  ultimately show ?thesis using no_sources_start by blast
qed

section \<open>Locks\<close>









section \<open>Witnesses\<close>

definition open_video :: event_world where
  "open_video = one_queue\<lparr>es_video := (es_video one_queue)\<lparr>vo_closing := False, vo_opened := True,
     vo_output_mode := VIDEO_OUT_OUTPUT_MODE_DEFAULT, vo_pre_vblank := 0, vo_vblank := 0\<rparr>\<rparr>"

definition flip_listener :: event_world where
  "flip_listener = snd (RegisterVideoOutEvent 0 1 (Some 1) Flip 5 open_video)"

lemma flip_listener_reachable: "event_step\<^sup>*\<^sup>* no_sources flip_listener"
proof -
  have "VideoOutOpen one_queue = Inr (1, open_video)"
    by (simp add: VideoOutOpen_def open_video_def one_queue_def no_sources_def Let_def)
  then have 1: "event_step one_queue open_video" by (rule event_step.open_video)
  have "1 \<in> dom (eq_heap (es_queues open_video))"
    by (simp add: open_video_def one_queue_def no_sources_def KernelCreateEqueue_def)
  then have "event_step open_video flip_listener"
    unfolding flip_listener_def by (rule event_step.register) (rule prod.collapse [symmetric])
  then show ?thesis using one_queue_step 1 by (meson converse_rtranclp_into_rtranclp rtranclp.rtrancl_refl)
qed

lemmas listener_defs = flip_listener_def open_video_def RegisterVideoOutEvent_def RegisterLocked_def
  Let_def VideoOutGet_def set_queues_def video_event_def OK_def source_example_defs

lemma flip_listener_state:
  "vo_queues (es_video flip_listener) Flip = [Some 1]" "1 \<in> dom (eq_heap (es_queues flip_listener))"
  "VideoOutGet 1 flip_listener"
  by (simp_all add: listener_defs)


lemma video_trigger_delivers_witness:
  "\<exists>w'. VideoTrigger 0 Flip 9 flip_listener = Inr w'
     \<and> (\<exists>e\<in>set (events_of (es_queues w') 1). q_key e = video_key Flip \<and> length (backlog e) = 1)"
proof -
  obtain e where e: "events_of (es_queues flip_listener) 1 = [e]" "q_key e = video_key Flip" "backlog e = []"
    by (simp add: listener_defs backlog_def)
  from video_trigger_delivers [OF no_sources_start flip_listener_reachable, of 0 Flip 9] e
  show ?thesis by fastforce
qed

lemma video_event_data_roundtrip_witness:
  "VideoOutGetEventData (Some \<lparr>ev_ident = 0, ev_filter = KERNEL_EVFILT_VIDEO_OUT, ev_flags = 0, ev_fflags = 1,
     ev_data = MakeVideoOutEventData 77 0 (- 5), ev_udata = 0\<rparr>) False = (OK, Some (- 5))"
  using video_event_data_roundtrip [of "\<lparr>ev_ident = 0, ev_filter = KERNEL_EVFILT_VIDEO_OUT, ev_flags = 0,
      ev_fflags = 1, ev_data = MakeVideoOutEventData 77 0 (- 5), ev_udata = 0\<rparr>" 77 0 "- 5"] by simp

lemma register_during_close_exits_witness:
  "\<exists>w1 w2. VideoOutClose False 1 flip_listener = Inr (OK, w1)
    \<and> RegisterLocked 0 (Some 1) Flip 0 w1 = (OK, w2) \<and> is_exit (VideoOutOpen w2)"
  by (rule register_during_close_exits [OF no_sources_start flip_listener_reachable flip_listener_state(3,2)])

end
