(* ===== verification/FlipQueue.thy ===== *)
theory FlipQueue
  imports Reachability MemoryProtection
begin

text \<open>
  \<open>class FlipQueue\<close> of \<open>gpu/src/graphics/presentation/videoOut.cpp\<close>: the requests to show a
  buffer on the screen. Game threads reserve requests, recorder threads prepare a frame for
  them in two critical sections with the recording between, the GPU completes them, and one
  presenter thread shows them in \<open>Flip\<close>, which is four critical sections. The definitions are
  the critical sections; the step relation interleaves them and keeps for each thread where
  it is. A configuration is named by its handle; \<open>flip_status\<close> is the part of it that the
  queue updates. Clock values are arguments.
\<close>

section \<open>State\<close>

datatype flip_source = Cpu | GpuEop

datatype request_state = RqReserved | RqRecording | RqReady | RqPresenting

record flip_request =
  fr_id :: nat
  fr_cfg :: nat
  fr_index :: int
  fr_arg :: "64 word"
  fr_ptc :: nat
  fr_source :: flip_source
  fr_state :: request_state
  fr_frame :: "nat option"

record flip_status =
  fs_count :: nat
  fs_processTime :: nat
  fs_ptc :: nat
  fs_submit_ptc :: nat
  fs_arg :: "64 word"
  fs_current :: int
  fs_pending :: int
  fs_gc :: int

record flip_queue =
  fq_requests :: "flip_request list"
  fq_cpu :: "flip_request list"
  fq_processing :: bool
  fq_next :: nat
  fq_status :: "nat \<Rightarrow> flip_status"

definition VIDEO_OUT_FLIP_QUEUE_CAPACITY :: nat where "VIDEO_OUT_FLIP_QUEUE_CAPACITY = 16"
definition VIDEO_OUT_BUFFER_INDEX_BLACK :: int where "VIDEO_OUT_BUFFER_INDEX_BLACK = -2"
definition VIDEO_OUT_BUFFER_INDEX_BLANK :: int where "VIDEO_OUT_BUFFER_INDEX_BLANK = -1"
definition VIDEO_OUT_BUFFER_NUM_MAX :: int where "VIDEO_OUT_BUFFER_NUM_MAX = 16"

definition IsValidBufferIndex :: "int \<Rightarrow> bool" where
  "IsValidBufferIndex i \<longleftrightarrow> i \<ge> VIDEO_OUT_BUFFER_INDEX_BLACK \<and> i < VIDEO_OUT_BUFFER_NUM_MAX"

definition IsSpecialBufferIndex :: "int \<Rightarrow> bool" where
  "IsSpecialBufferIndex i \<longleftrightarrow> i = VIDEO_OUT_BUFFER_INDEX_BLANK \<or> i = VIDEO_OUT_BUFFER_INDEX_BLACK"

definition IsValidFlipMode :: "int \<Rightarrow> bool" where
  "IsValidFlipMode m \<longleftrightarrow> m \<ge> 1 \<and> m \<le> 4"

definition IsFlipDue :: "int \<Rightarrow> nat \<Rightarrow> bool" where
  "IsFlipDue flip_rate vblanks =
     (let interval = flip_rate + 1 in interval \<le> 1 \<or> vblanks mod nat interval = 0)"

section \<open>Critical sections\<close>

definition fq_total :: "flip_queue \<Rightarrow> nat" where
  "fq_total q = length (fq_requests q) + length (fq_cpu q)"

definition update_status :: "nat \<Rightarrow> (flip_status \<Rightarrow> flip_status) \<Rightarrow> flip_queue \<Rightarrow> flip_queue" where
  "update_status cfg f q = q\<lparr>fq_status := (fq_status q)(cfg := f (fq_status q cfg))\<rparr>"


definition find_request :: "nat \<Rightarrow> flip_request list \<Rightarrow> flip_request option" where
  "find_request i rs = find (\<lambda>r. fr_id r = i) rs"

text \<open>The update of the request an iterator points to: the first one with its identifier.\<close>

fun update_request :: "nat \<Rightarrow> (flip_request \<Rightarrow> flip_request) \<Rightarrow> flip_request list \<Rightarrow>
    flip_request list" where
  "update_request i f [] = []"
| "update_request i f (r # rs) = (if fr_id r = i then f r # rs else r # update_request i f rs)"


text \<open>
  The choice of the surface to show: \<open>buffers\<close> are the registered surfaces and \<open>written\<close>
  whether the GPU has written one. \<open>None\<close> shows a blank frame.
\<close>

definition PrepareSource :: "bool \<Rightarrow> (int \<Rightarrow> bool) \<Rightarrow> (int \<Rightarrow> nat option) \<Rightarrow> (nat \<Rightarrow> bool) \<Rightarrow> int \<Rightarrow>
    exit_reason + nat option" where
  "PrepareSource closing unregistering buffers written index =
     (if closing then Inl (Exit ''cannot prepare flip for a closing video-out'')
      else if IsSpecialBufferIndex index then Inr (buffers 0)
      else if unregistering index then Inl (Exit ''cannot prepare flip from an unavailable surface'')
      else
        (let source = buffers index;
             is_written = (case source of None \<Rightarrow> False | Some s \<Rightarrow> written s)
         in Inr (if (source = None \<or> index \<noteq> 0 \<and> \<not> is_written) \<and> buffers 0 \<noteq> None
                 then buffers 0 else source)))"


definition FQ_NextCpu :: "flip_queue \<Rightarrow> exit_reason + nat" where
  "FQ_NextCpu q = (case fq_cpu q of
       [] \<Rightarrow> Inl (Exit ''CPU flip preparation has no accepted request'')
     | r # rs \<Rightarrow> Inr (fr_id r))"


text \<open>The tests of the waiting calls; \<open>True\<close> is a thread that goes on waiting.\<close>

definition FQ_SubmitSlotBusy :: "flip_queue \<Rightarrow> exit_reason + bool" where
  "FQ_SubmitSlotBusy q =
     (if fq_total q \<ge> VIDEO_OUT_FLIP_QUEUE_CAPACITY
      then (if fq_requests q = [] then Inl (Exit ''video-out queue is saturated by CPU flips'')
            else Inr True)
      else Inr False)"

definition FQ_HasRequest :: "nat \<Rightarrow> int \<Rightarrow> flip_queue \<Rightarrow> bool" where
  "FQ_HasRequest cfg index q \<longleftrightarrow>
     (\<exists>r\<in>set (fq_requests q) \<union> set (fq_cpu q). fr_cfg r = cfg \<and> fr_index r = index)"

definition FQ_HasPending :: "nat \<Rightarrow> int \<Rightarrow> int \<Rightarrow> flip_queue \<Rightarrow> exit_reason + bool" where
  "FQ_HasPending cfg start_index n q =
     (if n \<le> 0 \<or> start_index > (2 ^ 31 - 1) - n
      then Inl (Exit ''invalid video-out pending-flip query range'')
      else Inr (\<exists>r\<in>set (fq_requests q) \<union> set (fq_cpu q).
             fr_cfg r = cfg \<and> fr_index r \<ge> start_index \<and> fr_index r < start_index + n))"





section \<open>Threads\<close>




section \<open>Invariant\<close>


definition gc_count :: "nat \<Rightarrow> flip_request list \<Rightarrow> int" where
  "gc_count cfg rs = int (length (filter (\<lambda>r. fr_source r = GpuEop \<and> fr_cfg r = cfg) rs))"








lemma length_update_request [simp]: "length (update_request i f rs) = length rs"
  by (induction rs) auto


lemma update_request_map:
  "distinct (map fr_id rs) \<Longrightarrow>
     update_request i f rs = map (\<lambda>r. if fr_id r = i then f r else r) rs"
proof (induction rs)
  case (Cons r rs)
  have "map (\<lambda>r. if fr_id r = i then f r else r) rs = rs" if "fr_id r = i"
  proof -
    have "i \<notin> fr_id ` set rs" using Cons(2) that by simp
    then show ?thesis by (intro map_idI) (metis imageI)
  qed
  then show ?case using Cons by simp
qed simp


lemma find_request_None: "find_request i rs = None \<longleftrightarrow> i \<notin> fr_id ` set rs"
  by (auto simp: find_request_def find_None_iff)


lemma gc_count_simps [simp]:
  "gc_count cfg [] = 0" "gc_count cfg (xs @ ys) = gc_count cfg xs + gc_count cfg ys"
  "gc_count cfg (r # rs) = (if fr_source r = GpuEop \<and> fr_cfg r = cfg then 1 else 0) + gc_count cfg rs"
  by (simp_all add: gc_count_def)

lemma gc_count_remove1:
  "r \<in> set rs \<Longrightarrow> gc_count cfg (remove1 r rs)
     = gc_count cfg rs - (if fr_source r = GpuEop \<and> fr_cfg r = cfg then 1 else 0)"
  by (induction rs) auto


lemma update_status_simps [simp]:
  "fq_requests (update_status cfg f q) = fq_requests q" "fq_cpu (update_status cfg f q) = fq_cpu q"
  "fq_processing (update_status cfg f q) = fq_processing q" "fq_next (update_status cfg f q) = fq_next q"
  "fq_total (update_status cfg f q) = fq_total q"
  "fq_status (update_status cfg f q) = (fq_status q)(cfg := f (fq_status q cfg))"
  by (simp_all add: update_status_def fq_total_def)




text \<open>
  An update in place that keeps the identity of a request and leaves an acceptable one keeps
  the invariant of the queue; the threads' views survive if the request is not at the
  presenter and stays what its recorder expects.
\<close>

definition keeps_identity :: "(flip_request \<Rightarrow> flip_request) \<Rightarrow> bool" where
  "keeps_identity f \<longleftrightarrow> (\<forall>r. fr_id (f r) = fr_id r \<and> fr_source (f r) = fr_source r \<and> fr_cfg (f r) = fr_cfg r)"





section \<open>The steps keep the invariant\<close>



lemma keeps_identities [simp]:
  "keeps_identity (\<lambda>r. r\<lparr>fr_state := s\<rparr>)" "keeps_identity (\<lambda>r. r\<lparr>fr_frame := f\<rparr>)"
  by (simp_all add: keeps_identity_def)




















section \<open>Properties\<close>



section \<open>Witnesses\<close>









end
