(* ===== verification/ResourceMutex.thy ===== *)
theory ResourceMutex
  imports Reachability
begin

text \<open>
  \<open>class ResourceMutex\<close> of \<open>renderer/resourceMutex.cpp\<close>: the lock the GPU caches and the fault
  handling share. Its two owner fields are kept under \<open>m_state\<close>, so each block that holds
  \<open>m_state\<close> is one function here, and taking or releasing \<open>m_resource\<close> is another.
\<close>

section \<open>The object\<close>

record resource_mutex =
  res_held :: "nat option"
  res_owner :: "nat option"
  res_fault_owner :: "nat option"

definition res_new :: resource_mutex where
  "res_new = \<lparr>res_held = None, res_owner = None, res_fault_owner = None\<rparr>"

definition lock_check :: "nat \<Rightarrow> resource_mutex \<Rightarrow> exit_reason + unit" where
  "lock_check th m =
     (if res_owner m = Some th then Inl (Exit ''recursive resource transaction'')
      else if res_fault_owner m = Some th
      then Inl (Exit ''resource transaction re-entered from a page-fault callback'')
      else Inr ())"

definition lock_publish :: "nat \<Rightarrow> resource_mutex \<Rightarrow> exit_reason + resource_mutex" where
  "lock_publish th m =
     (if res_owner m \<noteq> None then Inl (Exit ''resource mutex acquired with a stale owner'')
      else Inr (m\<lparr>res_owner := Some th\<rparr>))"

definition unlock_clear :: "nat \<Rightarrow> resource_mutex \<Rightarrow> exit_reason + resource_mutex" where
  "unlock_clear th m =
     (if res_owner m \<noteq> Some th then Inl (Exit ''resource transaction released without ownership'')
      else Inr (m\<lparr>res_owner := None\<rparr>))"

definition IsOwnedByCurrentThread :: "nat \<Rightarrow> resource_mutex \<Rightarrow> bool" where
  "IsOwnedByCurrentThread th m \<longleftrightarrow> res_owner m = Some th"

text \<open>\<open>BeginFault\<close> up to its call of \<open>lock\<close>: \<open>True\<close> when the thread owns the resource already.\<close>

definition fault_check :: "nat \<Rightarrow> resource_mutex \<Rightarrow> exit_reason + bool \<times> resource_mutex" where
  "fault_check th m =
     (if res_fault_owner m = Some th then Inl (Exit ''nested resource page-fault transaction'')
      else if res_owner m = Some th then Inr (True, m\<lparr>res_fault_owner := Some th\<rparr>)
      else Inr (False, m))"

definition fault_publish :: "nat \<Rightarrow> resource_mutex \<Rightarrow> exit_reason + resource_mutex" where
  "fault_publish th m =
     (if res_owner m \<noteq> Some th \<or> res_fault_owner m \<noteq> None
      then Inl (Exit ''resource fault transaction acquired inconsistent ownership'')
      else Inr (m\<lparr>res_fault_owner := Some th\<rparr>))"

definition fault_clear :: "nat \<Rightarrow> resource_mutex \<Rightarrow> exit_reason + resource_mutex" where
  "fault_clear th m =
     (if res_fault_owner m \<noteq> Some th \<or> res_owner m \<noteq> Some th
      then Inl (Exit ''resource page-fault transaction ended with inconsistent ownership'')
      else Inr (m\<lparr>res_fault_owner := None\<rparr>))"

definition res_destroy :: "resource_mutex \<Rightarrow> exit_reason + unit" where
  "res_destroy m =
     (if res_owner m \<noteq> None \<or> res_fault_owner m \<noteq> None
      then Inl (Exit ''ResourceMutex destroyed with an active owner or fault transaction'')
      else Inr ())"

section \<open>Threads\<close>

text \<open>
  Where a thread is: \<open>Acquiring f\<close> waits for \<open>m_resource\<close> and \<open>Acquired f\<close> has it but is not the
  owner yet, \<open>f\<close> when it came from \<open>BeginFault\<close>; \<open>FaultOwned\<close> has called \<open>lock\<close> inside
  \<open>BeginFault\<close>; \<open>InFault p\<close> handles a fault, \<open>p\<close> when it owned the resource before;
  \<open>Releasing\<close> is between the two halves of \<open>unlock\<close>.
\<close>

datatype res_pc = Outside | Acquiring bool | Acquired bool | FaultOwned | Inside | InFault bool
  | EndingFault | Releasing

record res_world =
  rw_mutex :: resource_mutex
  rw_pc :: "nat \<Rightarrow> res_pc"

definition res_move :: "nat \<Rightarrow> res_pc \<Rightarrow> resource_mutex \<Rightarrow> res_world \<Rightarrow> res_world" where
  "res_move th pc m w = \<lparr>rw_mutex = m, rw_pc = (rw_pc w)(th := pc)\<rparr>"

text \<open>
  One thread runs one block. A thread locks and faults from \<open>Outside\<close>, unlocks and faults from
  \<open>Inside\<close>, and ends the fault it began.
\<close>

inductive res_step :: "res_world \<Rightarrow> res_world \<Rightarrow> bool" where
  lock: "rw_pc w th = Outside \<Longrightarrow> lock_check th (rw_mutex w) = Inr () \<Longrightarrow>
    res_step w (res_move th (Acquiring False) (rw_mutex w) w)"
| acquire: "rw_pc w th = Acquiring f \<Longrightarrow> res_held (rw_mutex w) = None \<Longrightarrow>
    res_step w (res_move th (Acquired f) ((rw_mutex w)\<lparr>res_held := Some th\<rparr>) w)"
| own: "rw_pc w th = Acquired f \<Longrightarrow> lock_publish th (rw_mutex w) = Inr m \<Longrightarrow>
    res_step w (res_move th (if f then FaultOwned else Inside) m w)"
| begin_fault: "rw_pc w th = Outside \<or> rw_pc w th = Inside \<Longrightarrow> fault_check th (rw_mutex w) = Inr (True, m) \<Longrightarrow>
    res_step w (res_move th (InFault True) m w)"
| begin_fault_lock: "rw_pc w th = Outside \<or> rw_pc w th = Inside \<Longrightarrow> fault_check th (rw_mutex w) = Inr (False, m) \<Longrightarrow>
    lock_check th m = Inr () \<Longrightarrow> res_step w (res_move th (Acquiring True) m w)"
| own_fault: "rw_pc w th = FaultOwned \<Longrightarrow> fault_publish th (rw_mutex w) = Inr m \<Longrightarrow>
    res_step w (res_move th (InFault False) m w)"
| end_fault: "rw_pc w th = InFault p \<Longrightarrow> fault_clear th (rw_mutex w) = Inr m \<Longrightarrow>
    res_step w (res_move th (if p then Inside else EndingFault) m w)"
| unlock: "rw_pc w th = Inside \<or> rw_pc w th = EndingFault \<Longrightarrow> unlock_clear th (rw_mutex w) = Inr m \<Longrightarrow>
    res_step w (res_move th Releasing m w)"
| release: "rw_pc w th = Releasing \<Longrightarrow>
    res_step w (res_move th Outside ((rw_mutex w)\<lparr>res_held := None\<rparr>) w)"

definition res_start :: "res_world \<Rightarrow> bool" where
  "res_start w \<longleftrightarrow> w = \<lparr>rw_mutex = res_new, rw_pc = (\<lambda>_. Outside)\<rparr>"

section \<open>The invariant\<close>

text \<open>What the place of a thread says about the fields.\<close>

definition holding :: "res_pc \<Rightarrow> bool" where
  "holding pc \<longleftrightarrow> (case pc of Outside \<Rightarrow> False | Acquiring _ \<Rightarrow> False | _ \<Rightarrow> True)"

definition owning :: "res_pc \<Rightarrow> bool" where
  "owning pc \<longleftrightarrow> (case pc of FaultOwned \<Rightarrow> True | Inside \<Rightarrow> True | InFault _ \<Rightarrow> True | EndingFault \<Rightarrow> True
     | _ \<Rightarrow> False)"

definition faulting :: "res_pc \<Rightarrow> bool" where
  "faulting pc \<longleftrightarrow> (case pc of InFault _ \<Rightarrow> True | _ \<Rightarrow> False)"

definition res_inv :: "res_world \<Rightarrow> bool" where
  "res_inv w \<longleftrightarrow> (\<forall>th. (res_held (rw_mutex w) = Some th \<longleftrightarrow> holding (rw_pc w th))
     \<and> (res_owner (rw_mutex w) = Some th \<longleftrightarrow> owning (rw_pc w th))
     \<and> (res_fault_owner (rw_mutex w) = Some th \<longleftrightarrow> faulting (rw_pc w th)))"

lemma res_invD:
  assumes "res_inv w"
  shows "res_held (rw_mutex w) = Some th \<longleftrightarrow> holding (rw_pc w th)"
    and "res_owner (rw_mutex w) = Some th \<longleftrightarrow> owning (rw_pc w th)"
    and "res_fault_owner (rw_mutex w) = Some th \<longleftrightarrow> faulting (rw_pc w th)"
  using assms by (simp_all add: res_inv_def)

lemma pc_kinds: "faulting pc \<Longrightarrow> owning pc" "owning pc \<Longrightarrow> holding pc"
  by (auto simp: holding_def owning_def faulting_def split: res_pc.splits)

lemma res_inv_start: "res_start w \<Longrightarrow> res_inv w"
  by (simp add: res_start_def res_inv_def res_new_def holding_def owning_def faulting_def)

text \<open>A step of one thread, with what it makes of the three fields.\<close>

lemma res_inv_move:
  assumes inv: "res_inv w"
    and held: "res_held m = (if holding pc then Some th else if holding (rw_pc w th) then None else res_held (rw_mutex w))"
    and owner: "res_owner m = (if owning pc then Some th else if owning (rw_pc w th) then None else res_owner (rw_mutex w))"
    and fault: "res_fault_owner m = (if faulting pc then Some th else if faulting (rw_pc w th) then None else res_fault_owner (rw_mutex w))"
    and free: "holding pc \<Longrightarrow> holding (rw_pc w th) \<or> res_held (rw_mutex w) = None"
  shows "res_inv (res_move th pc m w)"
proof -
  note D = res_invD [OF inv]
  have alone: "\<not> holding (rw_pc w u)" if "holding pc \<or> holding (rw_pc w th)" and "u \<noteq> th" for u
    using that free D(1) [of u] D(1) [of th] by auto
  have "(res_held m = Some u \<longleftrightarrow> holding (((rw_pc w)(th := pc)) u))
      \<and> (res_owner m = Some u \<longleftrightarrow> owning (((rw_pc w)(th := pc)) u))
      \<and> (res_fault_owner m = Some u \<longleftrightarrow> faulting (((rw_pc w)(th := pc)) u))" for u
  proof (cases "u = th")
    case True
    then show ?thesis using held owner fault D [of th] by auto
  next
    case False
    then show ?thesis using held owner fault D [of u] alone [OF _ False] pc_kinds by auto
  qed
  then show ?thesis by (simp add: res_inv_def res_move_def)
qed

lemmas block_defs = lock_check_def lock_publish_def unlock_clear_def fault_check_def fault_publish_def
  fault_clear_def

lemmas pc_defs = holding_def owning_def faulting_def

lemma res_inv_step:
  assumes inv: "res_inv w" and step: "res_step w w'"
  shows "res_inv w'"
proof -
  note D = res_invD [OF inv]
  show ?thesis using step
  proof cases
    case (lock th)
    show ?thesis unfolding lock(1)
      by (rule res_inv_move [OF inv]) (simp_all add: lock pc_defs)
  next
    case (acquire th f)
    show ?thesis unfolding acquire(1)
      by (rule res_inv_move [OF inv]) (simp_all add: acquire pc_defs)
  next
    case (own th f m)
    then show ?thesis unfolding own(1)
      using D [of th] by (intro res_inv_move [OF inv]) (auto simp: block_defs pc_defs split: if_splits)
  next
    case (begin_fault th m)
    then show ?thesis unfolding begin_fault(1)
      using D [of th] by (intro res_inv_move [OF inv]) (auto simp: block_defs pc_defs split: if_splits)
  next
    case (begin_fault_lock th m)
    then show ?thesis unfolding begin_fault_lock(1)
      using D [of th] by (intro res_inv_move [OF inv]) (auto simp: block_defs pc_defs split: if_splits)
  next
    case (own_fault th m)
    then show ?thesis unfolding own_fault(1)
      using D [of th] by (intro res_inv_move [OF inv]) (auto simp: block_defs pc_defs split: if_splits)
  next
    case (end_fault th p m)
    then show ?thesis unfolding end_fault(1)
      using D [of th] by (intro res_inv_move [OF inv]) (auto simp: block_defs pc_defs split: if_splits)
  next
    case (unlock th m)
    then show ?thesis unfolding unlock(1)
      using D [of th] by (intro res_inv_move [OF inv]) (auto simp: block_defs pc_defs split: if_splits)
  next
    case (release th)
    then show ?thesis unfolding release(1)
      using D [of th] by (intro res_inv_move [OF inv]) (auto simp: block_defs pc_defs split: if_splits)
  qed
qed

interpretation res: atomic_object res_start res_step res_inv
  by unfold_locales (auto intro: res_inv_start res_inv_step)

section \<open>Exclusion and progress\<close>

lemma one_holder: "res_inv w \<Longrightarrow> holding (rw_pc w th) \<Longrightarrow> holding (rw_pc w u) \<Longrightarrow> u = th"
  using res_invD(1) [of w th] res_invD(1) [of w u] by simp

lemma blocks_succeed:
  assumes "res_inv w"
  shows "rw_pc w th = Acquired f \<Longrightarrow> \<exists>m. lock_publish th (rw_mutex w) = Inr m"
    and "rw_pc w th = FaultOwned \<Longrightarrow> \<exists>m. fault_publish th (rw_mutex w) = Inr m"
    and "rw_pc w th = InFault p \<Longrightarrow> \<exists>m. fault_clear th (rw_mutex w) = Inr m"
    and "rw_pc w th = Inside \<or> rw_pc w th = EndingFault \<Longrightarrow> \<exists>m. unlock_clear th (rw_mutex w) = Inr m"
    and "rw_pc w th = Outside \<Longrightarrow> lock_check th (rw_mutex w) = Inr () \<and> fault_check th (rw_mutex w) = Inr (False, rw_mutex w)"
    and "rw_pc w th = Inside \<Longrightarrow> \<exists>m. fault_check th (rw_mutex w) = Inr (True, m)"
proof -
  note D = res_invD [OF assms]
  have free: "res_owner (rw_mutex w) = None" if "holding (rw_pc w th)" "\<not> owning (rw_pc w th)"
    using that D(2) one_holder [OF assms that(1)] pc_kinds(2) by (metis not_Some_eq)
  have calm: "res_fault_owner (rw_mutex w) = None" if "holding (rw_pc w th)" "\<not> faulting (rw_pc w th)"
    using that D(3) one_holder [OF assms that(1)] pc_kinds by (metis not_Some_eq)
  show "\<exists>m. lock_publish th (rw_mutex w) = Inr m" if "rw_pc w th = Acquired f"
    using free that by (simp add: block_defs pc_defs)
  show "\<exists>m. fault_publish th (rw_mutex w) = Inr m" if "rw_pc w th = FaultOwned"
    using calm D(2) [of th] that by (simp add: block_defs pc_defs)
  show "\<exists>m. fault_clear th (rw_mutex w) = Inr m" if "rw_pc w th = InFault p"
    using D(2,3) [of th] that by (simp add: block_defs pc_defs)
  show "\<exists>m. unlock_clear th (rw_mutex w) = Inr m" if "rw_pc w th = Inside \<or> rw_pc w th = EndingFault"
    using D(2) [of th] that by (auto simp: block_defs pc_defs)
  show "lock_check th (rw_mutex w) = Inr () \<and> fault_check th (rw_mutex w) = Inr (False, rw_mutex w)"
    if "rw_pc w th = Outside"
    using D(2,3) [of th] that by (simp add: block_defs pc_defs)
  show "\<exists>m. fault_check th (rw_mutex w) = Inr (True, m)" if "rw_pc w th = Inside"
    using D(2,3) [of th] that by (simp add: block_defs pc_defs)
qed



text \<open>
  C31. Progress. As long as a thread is inside or on its way into a transaction, some thread can
  run its next block: waiting for the resource never deadlocks.
\<close>

theorem resource_mutex_progress:
  assumes "res_start w0" and "res_step\<^sup>*\<^sup>* w0 w" and "rw_pc w th \<noteq> Outside"
  shows "\<exists>u w'. rw_pc w u \<noteq> Outside \<and> rw_pc w' u \<noteq> rw_pc w u \<and> res_step w w'"
proof -
  have inv: "res_inv w" by (rule res.reach_inv [OF assms(1,2)])
  note ok = blocks_succeed [OF inv]
  have moved: "\<exists>w'. rw_pc w' u \<noteq> rw_pc w u \<and> res_step w w'"
    if "res_step w (res_move u pc m w)" "pc \<noteq> rw_pc w u" for u pc m
    by (rule exI [of _ "res_move u pc m w"]) (use that in \<open>simp add: res_move_def\<close>)
  have holder: "\<exists>w'. rw_pc w' u \<noteq> rw_pc w u \<and> res_step w w'" if h: "holding (rw_pc w u)" for u
  proof (cases "rw_pc w u")
    case (Acquired f)
    then obtain m where "lock_publish u (rw_mutex w) = Inr m" using ok(1) by blast
    then show ?thesis using moved [OF res_step.own [OF Acquired]] Acquired by simp
  next
    case FaultOwned
    then obtain m where "fault_publish u (rw_mutex w) = Inr m" using ok(2) by blast
    then show ?thesis using moved [OF res_step.own_fault [OF FaultOwned]] FaultOwned by simp
  next
    case (InFault p)
    then obtain m where "fault_clear u (rw_mutex w) = Inr m" using ok(3) by blast
    then show ?thesis using moved [OF res_step.end_fault [OF InFault]] InFault by simp
  next
    case Releasing
    then show ?thesis using moved [OF res_step.release [OF Releasing]] by simp
  next
    case Inside
    then obtain m where "unlock_clear u (rw_mutex w) = Inr m" using ok(4) by blast
    then show ?thesis using moved [OF res_step.unlock [OF disjI1 [OF Inside]]] Inside by simp
  next
    case EndingFault
    then obtain m where "unlock_clear u (rw_mutex w) = Inr m" using ok(4) by blast
    then show ?thesis using moved [OF res_step.unlock [OF disjI2 [OF EndingFault]]] EndingFault by simp
  qed (use h in \<open>simp_all add: holding_def\<close>)
  show ?thesis
  proof (cases "res_held (rw_mutex w)")
    case (Some u)
    then have u: "holding (rw_pc w u)" using res_invD(1) [OF inv] by simp
    then have "rw_pc w u \<noteq> Outside" by (auto simp: holding_def)
    then show ?thesis using holder [OF u] by blast
  next
    case None
    then have "\<not> holding (rw_pc w th)" using res_invD(1) [OF inv, of th] by simp
    then obtain f where f: "rw_pc w th = Acquiring f"
      using assms(3) by (auto simp: holding_def split: res_pc.splits)
    then obtain w' where "rw_pc w' th \<noteq> rw_pc w th" "res_step w w'"
      using moved [OF res_step.acquire [OF f None]] by auto
    then show ?thesis using assms(3) by blast
  qed
qed

theorem resource_mutex_progress_witness:
  "\<exists>w u w'. res_step\<^sup>*\<^sup>* \<lparr>rw_mutex = res_new, rw_pc = (\<lambda>_. Outside)\<rparr> w \<and> rw_pc w 1 = Acquiring False
    \<and> rw_pc w u \<noteq> Outside \<and> res_step w w'"
proof -
  let ?start = "\<lparr>rw_mutex = res_new, rw_pc = (\<lambda>_. Outside)\<rparr>"
  have step: "res_step ?start (res_move 1 (Acquiring False) res_new ?start)"
    using res_step.lock [of ?start 1] by (simp add: lock_check_def res_new_def)
  have start: "res_start ?start" by (simp add: res_start_def)
  have at: "rw_pc (res_move 1 (Acquiring False) res_new ?start) 1 = Acquiring False" by (simp add: res_move_def)
  then show ?thesis
    using resource_mutex_progress [OF start r_into_rtranclp [of res_step, OF step], of 1] r_into_rtranclp [of res_step, OF step] by auto
qed

end
