(* ===== verification/RegionManager.thy ===== *)
theory RegionManager
  imports PageManager
begin

text \<open>
  \<open>class RegionManager\<close> of \<open>graphics/host_gpu/regionManager.h\<close>: for each page of a 4 MiB region,
  whether the CPU or the GPU holds data the other side has not seen, whether the CPU may
  write the page without a fault, whether a fault on it is being resolved and whether it is
  tracked at all. Every method runs under the region's spin lock. The bit sets are functions
  on the page index inside the region.
\<close>

section \<open>Data\<close>

datatype dirty_source = CpuSide | GpuSide

datatype cpu_fault_action = Untracked | Continue | Download

type_synonym region_bits = "nat \<Rightarrow> bool"

record region =
  rg_addr :: nat
  rg_cpu :: region_bits
  rg_gpu :: region_bits
  rg_writable :: region_bits
  rg_pending :: region_bits
  rg_tracked :: region_bits

definition new_region :: "nat \<Rightarrow> exit_reason + region" where
  "new_region addr =
     (if addr mod REGION_SIZE \<noteq> 0 then Inl (Exit ''invalid region tracking manager construction'')
      else Inr \<lparr>rg_addr = addr, rg_cpu = (\<lambda>_. True), rg_gpu = (\<lambda>_. False),
                rg_writable = (\<lambda>_. True), rg_pending = (\<lambda>_. False), rg_tracked = (\<lambda>_. False)\<rparr>)"

definition GetBits :: "dirty_source \<Rightarrow> region \<Rightarrow> region_bits" where
  "GetBits src r = (case src of CpuSide \<Rightarrow> rg_cpu r | GpuSide \<Rightarrow> rg_gpu r)"

definition PutBits :: "dirty_source \<Rightarrow> region_bits \<Rightarrow> region \<Rightarrow> region" where
  "PutBits src bits r = (case src of CpuSide \<Rightarrow> r\<lparr>rg_cpu := bits\<rparr> | GpuSide \<Rightarrow> r\<lparr>rg_gpu := bits\<rparr>)"

definition set_bits :: "nat \<Rightarrow> nat \<Rightarrow> bool \<Rightarrow> region_bits \<Rightarrow> region_bits" where
  "set_bits start stop v bits = (\<lambda>i. if start \<le> i \<and> i < stop then v else bits i)"

definition xor_bits :: "region_bits \<Rightarrow> region_bits \<Rightarrow> region_bits" where
  "xor_bits a b = (\<lambda>i. a i \<noteq> b i)"

definition GetPageRange :: "nat \<Rightarrow> nat \<Rightarrow> region \<Rightarrow> exit_reason + nat \<times> nat" where
  "GetPageRange vaddr n r =
     (if n = 0 \<or> vaddr < rg_addr r \<or> vaddr \<ge> rg_addr r + REGION_SIZE
         \<or> n > rg_addr r + REGION_SIZE - vaddr
      then Inl (Exit ''range lies outside its tracking region'')
      else (let offset = vaddr - rg_addr r
            in Inr (offset div PAGE_SIZE, (offset + n + PAGE_SIZE - 1) div PAGE_SIZE)))"

section \<open>Walking a bit set\<close>

text \<open>
  The loop of \<open>ForEachRange\<close> from \<open>page\<close> on: skip the clear bits, then run over the set ones.
\<close>

definition skip_while :: "(nat \<Rightarrow> bool) \<Rightarrow> nat \<Rightarrow> nat" where
  "skip_while f page = page + length (takeWhile f [page ..< REGION_PAGES])"

lemma skip_while_facts:
  assumes "page \<le> REGION_PAGES"
  shows "page \<le> skip_while f page" and "skip_while f page \<le> REGION_PAGES"
    and "\<And>i. page \<le> i \<Longrightarrow> i < skip_while f page \<Longrightarrow> f i"
    and "skip_while f page < REGION_PAGES \<Longrightarrow> \<not> f (skip_while f page)"
proof -
  let ?l = "[page ..< REGION_PAGES]" and ?k = "length (takeWhile f [page ..< REGION_PAGES])"
  have "?k \<le> length ?l" by (rule length_takeWhile_le)
  then show "skip_while f page \<le> REGION_PAGES" "page \<le> skip_while f page"
    using assms by (simp_all add: skip_while_def)
  show "f i" if "page \<le> i" "i < skip_while f page" for i
  proof -
    have k: "i - page < ?k" using that by (simp add: skip_while_def)
    then have "takeWhile f ?l ! (i - page) = ?l ! (i - page)" by (rule takeWhile_nth)
    moreover have "i - page < length ?l" using k \<open>?k \<le> length ?l\<close> by simp
    ultimately have "takeWhile f ?l ! (i - page) = i" using that(1) by simp
    moreover have "takeWhile f ?l ! (i - page) \<in> set (takeWhile f ?l)" using k by (rule nth_mem)
    ultimately show ?thesis using set_takeWhileD by metis
  qed
  show "\<not> f (skip_while f page)" if "skip_while f page < REGION_PAGES"
  proof -
    have "?k < length ?l" using that by (simp add: skip_while_def)
    then have "\<not> f (?l ! ?k)" by (rule nth_length_takeWhile)
    then show ?thesis using that by (simp add: skip_while_def)
  qed
qed

function bit_runs :: "region_bits \<Rightarrow> nat \<Rightarrow> (nat \<times> nat) list" where
  "bit_runs bits page =
     (if page < REGION_PAGES then
        (let start = skip_while (\<lambda>i. \<not> bits i) page; stop = skip_while bits start
         in if start \<noteq> stop then (start, stop) # bit_runs bits stop else [])
      else [])"
  by pat_completeness auto

termination
proof (relation "measure (\<lambda>(bits, page). REGION_PAGES - page)")
  fix bits :: region_bits and page start stop
  assume page: "page < REGION_PAGES" and start: "start = skip_while (\<lambda>i. \<not> bits i) page"
    and stop: "stop = skip_while bits start" and "start \<noteq> stop"
  have "page \<le> start" "start \<le> REGION_PAGES"
    using skip_while_facts(1,2) [of page "\<lambda>i. \<not> bits i"] page start by auto
  moreover from this have "start < stop"
    using skip_while_facts(1) [of start bits] stop \<open>start \<noteq> stop\<close> by simp
  ultimately show "((bits, stop), bits, page) \<in> measure (\<lambda>(bits, page). REGION_PAGES - page)"
    using page by auto
qed simp

declare bit_runs.simps [simp del]

text \<open>The run is empty only at the end of the region, where the source's loop ends too.\<close>

definition ForEachRange :: "region_bits \<Rightarrow> region \<Rightarrow> (nat \<times> nat) list" where
  "ForEachRange bits r =
     map (\<lambda>(start, stop). (rg_addr r + start * PAGE_SIZE, (stop - start) * PAGE_SIZE))
       (bit_runs bits 0)"

definition ApplyProtection :: "nat \<Rightarrow> region_bits \<Rightarrow> bool \<Rightarrow> region \<Rightarrow> page_manager \<Rightarrow>
    exit_reason + page_manager" where
  "ApplyProtection th changed track r =
     foldR (\<lambda>(vaddr, n). UpdatePageWatchers th track vaddr n WatchWrite) (ForEachRange changed r)"

definition ApplyGpuProtection :: "nat \<Rightarrow> region_bits \<Rightarrow> bool \<Rightarrow> watch_mode \<Rightarrow> region \<Rightarrow>
    page_manager \<Rightarrow> exit_reason + page_manager" where
  "ApplyGpuProtection th changed track mode r =
     foldR (\<lambda>(vaddr, n). UpdatePageWatchers th track vaddr n mode) (ForEachRange changed r)"

section \<open>The methods\<close>

definition Track :: "nat \<Rightarrow> nat \<Rightarrow> region \<Rightarrow> exit_reason + region" where
  "Track vaddr n r = bindR (GetPageRange vaddr n r)
     (\<lambda>(s, e). Inr (r\<lparr>rg_tracked := set_bits s e True (rg_tracked r)\<rparr>))"

definition Untrack :: "nat \<Rightarrow> nat \<Rightarrow> region \<Rightarrow> exit_reason + region" where
  "Untrack vaddr n r = bindR (GetPageRange vaddr n r)
     (\<lambda>(s, e). Inr (r\<lparr>rg_tracked := set_bits s e False (rg_tracked r)\<rparr>))"

definition IsModified :: "dirty_source \<Rightarrow> nat \<Rightarrow> nat \<Rightarrow> region \<Rightarrow> exit_reason + bool" where
  "IsModified src offset n r = bindR (GetPageRange (rg_addr r + offset) n r)
     (\<lambda>(s, e). Inr (list_ex (GetBits src r) [s ..< e]))"

definition IsFullyModified :: "dirty_source \<Rightarrow> nat \<Rightarrow> nat \<Rightarrow> region \<Rightarrow> exit_reason + bool" where
  "IsFullyModified src offset n r = bindR (GetPageRange (rg_addr r + offset) n r)
     (\<lambda>(s, e). Inr (list_all (GetBits src r) [s ..< e]))"

definition ChangeState :: "dirty_source \<Rightarrow> bool \<Rightarrow> nat \<Rightarrow> nat \<Rightarrow> region \<Rightarrow>
    exit_reason + region_bits \<times> region" where
  "ChangeState src enable vaddr n r = bindR (GetPageRange vaddr n r) (\<lambda>(s, e).
     if src = CpuSide \<and> enable \<and> list_ex (\<lambda>i. rg_gpu r i \<or> rg_pending r i) [s ..< e]
     then Inl (Exit ''CPU dirty state conflicts with GPU dirty or pending fault state'')
     else if src = GpuSide \<and> enable \<and> list_ex (\<lambda>i. rg_cpu r i \<or> rg_pending r i) [s ..< e]
     then Inl (Exit ''GPU dirty state conflicts with CPU dirty or pending fault state'')
     else
       (let bits = set_bits s e enable (GetBits src r);
            changed = xor_bits (GetBits src r) bits;
            r' = PutBits src bits r
        in case src of
             CpuSide \<Rightarrow> Inr (xor_bits (rg_cpu r') (rg_writable r'), r'\<lparr>rg_writable := rg_cpu r'\<rparr>)
           | GpuSide \<Rightarrow> Inr (changed, r')))"

text \<open>
  The first loop of \<open>BeginCpuFault\<close>: \<open>Inr False\<close> is its early return, when a fault on a page
  is already pending.
\<close>

fun begin_fault_scan :: "region \<Rightarrow> bool \<Rightarrow> nat list \<Rightarrow> exit_reason + bool" where
  "begin_fault_scan r tracked [] = Inr True"
| "begin_fault_scan r tracked (i # is) =
     (if rg_tracked r i \<noteq> tracked
      then Inl (Exit ''CPU fault spans mixed tracked and untracked pages'')
      else if rg_pending r i then Inr False
      else if rg_cpu r i \<noteq> rg_writable r i
              \<or> rg_gpu r i \<and> (rg_cpu r i \<or> rg_writable r i)
      then Inl (Exit ''inconsistent CPU fault page state'')
      else begin_fault_scan r tracked is)"

definition RM_BeginCpuFault :: "nat \<Rightarrow> nat \<Rightarrow> fault_access \<Rightarrow> region \<Rightarrow>
    exit_reason + cpu_fault_action \<times> region" where
  "RM_BeginCpuFault vaddr n a r =
     (if a \<noteq> FaultRead \<and> a \<noteq> FaultWrite
      then Inl (Exit ''unsupported CPU fault access while beginning ownership transfer'')
      else bindR (GetPageRange vaddr n r) (\<lambda>(s, e).
        let tracked = rg_tracked r s
        in bindR (begin_fault_scan r tracked [s ..< e]) (\<lambda>fresh.
          if \<not> fresh \<or> \<not> tracked then Inr (Untracked, r)
          else
            (let gpu = rg_gpu r s; writable = rg_writable r s
             in if list_ex (\<lambda>i. rg_gpu r i \<noteq> gpu \<or> rg_writable r i \<noteq> writable) [Suc s ..< e]
                then Inl (Exit ''CPU fault spans pages with incompatible dirty or writable state'')
                else
                  (let r' = (if \<not> gpu \<and> a = FaultWrite
                             then r\<lparr>rg_cpu := set_bits s e True (rg_cpu r),
                                    rg_writable := set_bits s e True (rg_writable r)\<rparr>
                             else r)
                   in Inr (if gpu then Download else Continue,
                           r'\<lparr>rg_pending := set_bits s e True (rg_pending r')\<rparr>))))))"

definition complete_fault_turn :: "fault_access \<Rightarrow> bool \<Rightarrow> nat \<Rightarrow> region \<Rightarrow> exit_reason + region" where
  "complete_fault_turn a downloaded i r =
     (if rg_gpu r i \<noteq> downloaded
      then Inl (Exit ''CPU fault download result disagrees with GPU dirty state'')
      else
        bindR (if rg_gpu r i
               then (let r = r\<lparr>rg_gpu := (rg_gpu r)(i := False)\<rparr>
                     in case a of
                          FaultRead \<Rightarrow> Inr r
                        | FaultWrite \<Rightarrow> Inr (r\<lparr>rg_cpu := (rg_cpu r)(i := True),
                                             rg_writable := (rg_writable r)(i := True)\<rparr>)
                        | _ \<Rightarrow> Inl (Exit ''unsupported CPU fault access after GPU download''))
               else Inr r)
          (\<lambda>r. Inr (r\<lparr>rg_pending := (rg_pending r)(i := False)\<rparr>)))"

definition RM_CompleteCpuFault :: "nat \<Rightarrow> nat \<Rightarrow> fault_access \<Rightarrow> bool \<Rightarrow> region \<Rightarrow>
    exit_reason + bool \<times> region" where
  "RM_CompleteCpuFault vaddr n a downloaded r = bindR (GetPageRange vaddr n r) (\<lambda>(s, e).
     if \<not> list_all (rg_pending r) [s ..< e] then Inr (False, r)
     else bindR (foldR (complete_fault_turn a downloaded) [s ..< e] r) (\<lambda>r. Inr (True, r)))"

definition HasPendingFault :: "nat \<Rightarrow> nat \<Rightarrow> region \<Rightarrow> exit_reason + bool" where
  "HasPendingFault vaddr n r = bindR (GetPageRange vaddr n r)
     (\<lambda>(s, e). Inr (list_ex (rg_pending r) [s ..< e]))"

fun virtual_write_scan :: "region \<Rightarrow> nat list \<Rightarrow> exit_reason + bool" where
  "virtual_write_scan r [] = Inr True"
| "virtual_write_scan r (i # is) =
     (if \<not> rg_pending r i then Inr False
      else if \<not> rg_gpu r i
      then Inl (Exit ''virtual GPU write completion found a non-GPU-dirty page'')
      else virtual_write_scan r is)"

definition CompleteVirtualGpuWrite :: "nat \<Rightarrow> nat \<Rightarrow> region \<Rightarrow> exit_reason + bool \<times> region" where
  "CompleteVirtualGpuWrite vaddr n r = bindR (GetPageRange vaddr n r) (\<lambda>(s, e).
     bindR (virtual_write_scan r [s ..< e]) (\<lambda>all_pending.
       if \<not> all_pending then Inr (False, r)
       else Inr (True, r\<lparr>rg_gpu := set_bits s e False (rg_gpu r),
                         rg_cpu := set_bits s e True (rg_cpu r),
                         rg_writable := set_bits s e True (rg_writable r),
                         rg_pending := set_bits s e False (rg_pending r)\<rparr>)))"

text \<open>
  \<open>ForEachModifiedRange\<close>: the ranges its callback is called with, in order, the bits it
  returns, and the region and page manager it leaves.
\<close>

definition ForEachModifiedRange :: "nat \<Rightarrow> dirty_source \<Rightarrow> bool \<Rightarrow> nat \<Rightarrow> nat \<Rightarrow>
    region \<times> page_manager \<Rightarrow>
    exit_reason + (nat \<times> nat) list \<times> region_bits \<times> region \<times> page_manager" where
  "ForEachModifiedRange th src clear vaddr n = (\<lambda>(r, pm).
     bindR (GetPageRange vaddr n r) (\<lambda>(s, e).
       let mask = (\<lambda>i. s \<le> i \<and> i < e \<and> GetBits src r i \<and> \<not> (src = CpuSide \<and> rg_pending r i));
           r' = (if clear then PutBits src (\<lambda>i. GetBits src r i \<and> \<not> mask i) r else r)
       in if src = CpuSide \<and> clear
          then
            (let changed = xor_bits (rg_cpu r') (rg_writable r');
                 r' = r'\<lparr>rg_writable := rg_cpu r'\<rparr>
             in bindR (ApplyProtection th changed True r' pm)
                  (\<lambda>pm. Inr (ForEachRange mask r', changed, r', pm)))
          else Inr (ForEachRange mask r', if clear then mask else (\<lambda>_. False), r', pm)))"

section \<open>The runs cover the set bits exactly once\<close>

definition run_pages :: "nat \<times> nat \<Rightarrow> nat set" where
  "run_pages r = {fst r ..< snd r}"

lemma bit_runs_spec:
  "page \<le> REGION_PAGES \<Longrightarrow>
     (\<Union>r\<in>set (bit_runs bits page). run_pages r) = {i. page \<le> i \<and> i < REGION_PAGES \<and> bits i}
     \<and> (\<forall>r\<in>set (bit_runs bits page). page \<le> fst r \<and> fst r < snd r \<and> snd r \<le> REGION_PAGES)
     \<and> sorted_wrt (\<lambda>a b. snd a \<le> fst b) (bit_runs bits page)"
proof (induction bits page rule: bit_runs.induct)
  case (1 bits page)
  show ?case
  proof (cases "page < REGION_PAGES")
    case False
    then have "bit_runs bits page = []" by (simp add: bit_runs.simps)
    then show ?thesis using False by auto
  next
    case True
    define start where "start = skip_while (\<lambda>i. \<not> bits i) page"
    define stop where "stop = skip_while bits start"
    have st: "page \<le> start" "start \<le> REGION_PAGES" "\<And>i. page \<le> i \<Longrightarrow> i < start \<Longrightarrow> \<not> bits i"
      "start < REGION_PAGES \<Longrightarrow> bits start"
      using skip_while_facts [where page = page and f = "\<lambda>i. \<not> bits i"] True
      unfolding start_def by auto
    have sp: "start \<le> stop" "stop \<le> REGION_PAGES" "\<And>i. start \<le> i \<Longrightarrow> i < stop \<Longrightarrow> bits i"
      "stop < REGION_PAGES \<Longrightarrow> \<not> bits stop"
      using skip_while_facts [where page = start and f = bits] st(2) unfolding stop_def by auto
    have eq: "bit_runs bits page = (if start \<noteq> stop then (start, stop) # bit_runs bits stop else [])"
      using True by (subst bit_runs.simps) (simp add: start_def stop_def Let_def)
    show ?thesis
    proof (cases "start = stop")
      case True
      then have "start = REGION_PAGES" using st sp by (metis le_neq_implies_less)
      then have "\<not> bits i" if "page \<le> i" "i < REGION_PAGES" for i using that st(3) by simp
      then show ?thesis using eq True by auto
    next
      case False
      note IH = "1.IH" [OF True start_def stop_def False sp(2)]
      have "{i. page \<le> i \<and> i < REGION_PAGES \<and> bits i}
          = {start ..< stop} \<union> {i. stop \<le> i \<and> i < REGION_PAGES \<and> bits i}"
        using st sp by (auto simp: not_le dest: leI)
      then have "(\<Union>r\<in>set (bit_runs bits page). run_pages r)
          = {i. page \<le> i \<and> i < REGION_PAGES \<and> bits i}"
        using IH False eq by (simp add: run_pages_def)
      moreover have "start < stop" using False sp(1) by simp
      moreover have "\<forall>r\<in>set (bit_runs bits page). page \<le> fst r \<and> fst r < snd r \<and> snd r \<le> REGION_PAGES"
      proof
        fix r assume "r \<in> set (bit_runs bits page)"
        then consider "r = (start, stop)" | "r \<in> set (bit_runs bits stop)"
          using eq False by auto
        then show "page \<le> fst r \<and> fst r < snd r \<and> snd r \<le> REGION_PAGES"
        proof cases
          case 1
          then show ?thesis using st sp \<open>start < stop\<close> by simp
        next
          case 2
          then have "stop \<le> fst r \<and> fst r < snd r \<and> snd r \<le> REGION_PAGES" using IH by blast
          then show ?thesis using st sp by simp
        qed
      qed
      moreover have "sorted_wrt (\<lambda>a b. snd a \<le> fst b) (bit_runs bits page)"
        using IH False eq by simp
      ultimately show ?thesis by blast
    qed
  qed
qed

text \<open>The page numbers of the set bits.\<close>

definition bit_pages :: "region \<Rightarrow> region_bits \<Rightarrow> nat set" where
  "bit_pages r bits = {p. \<exists>i < REGION_PAGES. bits i \<and> p = rg_addr r div PAGE_SIZE + i}"

definition range_pages :: "nat \<times> nat \<Rightarrow> nat set" where
  "range_pages a = set (page_list (fst a) (snd a))"

definition region_placed :: "region \<Rightarrow> bool" where
  "region_placed r \<longleftrightarrow> rg_addr r mod REGION_SIZE = 0 \<and> rg_addr r + REGION_SIZE \<le> ADDRESS_SIZE"

lemma region_placed_page:
  "region_placed r \<Longrightarrow> rg_addr r = rg_addr r div PAGE_SIZE * PAGE_SIZE"
proof -
  assume "region_placed r"
  then have "REGION_SIZE dvd rg_addr r" by (simp add: region_placed_def mod_eq_0_iff_dvd)
  moreover have "PAGE_SIZE dvd REGION_SIZE" by (simp add: REGION_SIZE_def PAGE_SIZE_def)
  ultimately have "PAGE_SIZE dvd rg_addr r" by (rule dvd_trans [rotated])
  then show ?thesis by simp
qed

lemma ForEachRange_spec:
  assumes "region_placed r"
  shows "(\<Union>a\<in>set (ForEachRange bits r). range_pages a) = bit_pages r bits"
    and "sorted_wrt (\<lambda>a b. range_pages a \<inter> range_pages b = {}) (ForEachRange bits r)"
    and "\<not> (rg_addr r = 0 \<and> bits 0) \<Longrightarrow> \<forall>a\<in>set (ForEachRange bits r). ValidRange (fst a) (snd a)"
proof -
  define b where "b = rg_addr r div PAGE_SIZE"
  have addr: "rg_addr r = b * PAGE_SIZE" using region_placed_page [OF assms] by (simp add: b_def)
  let ?f = "\<lambda>(s, e). (rg_addr r + s * PAGE_SIZE, (e - s) * PAGE_SIZE)"
  have fe: "ForEachRange bits r = map ?f (bit_runs bits 0)" by (simp add: ForEachRange_def)
  note runs = bit_runs_spec [of 0 bits, OF le0]
  have pages: "range_pages (?f x) = (\<lambda>i. b + i) ` run_pages x"
    if x: "x \<in> set (bit_runs bits 0)" for x
  proof -
    obtain s e where se: "x = (s, e)" by (cases x)
    have lt: "s < e" using runs x se by auto
    have "b * PAGE_SIZE + s * PAGE_SIZE = (b + s) * PAGE_SIZE" by (simp add: add_mult_distrib)
    then have "(b * PAGE_SIZE + s * PAGE_SIZE) div PAGE_SIZE = b + s" by (simp add: PAGE_SIZE_def)
    moreover have "b * PAGE_SIZE + s * PAGE_SIZE + (e - s) * PAGE_SIZE - 1
        = (b + e - 1) * PAGE_SIZE + (PAGE_SIZE - 1)"
    proof -
      obtain k where "e = s + Suc k" using lt less_imp_Suc_add by (metis add_Suc_right)
      then show ?thesis by (simp add: PAGE_SIZE_def algebra_simps)
    qed
    moreover have "((b + e - 1) * PAGE_SIZE + (PAGE_SIZE - 1)) div PAGE_SIZE = b + e - 1"
      by (simp add: PAGE_SIZE_def)
    ultimately have "range_pages (?f x) = {p. b + s \<le> p \<and> p \<le> b + e - 1}"
      by (simp add: range_pages_def set_page_list se addr)
    also have "\<dots> = {b + s ..< b + e}" using lt by auto
    also have "\<dots> = (\<lambda>i. b + i) ` {s ..< e}" by (simp add: add.commute)
    finally show ?thesis by (simp add: run_pages_def se)
  qed
  show "(\<Union>a\<in>set (ForEachRange bits r). range_pages a) = bit_pages r bits"
  proof -
    have "(\<Union>a\<in>set (ForEachRange bits r). range_pages a)
        = (\<lambda>i. b + i) ` (\<Union>x\<in>set (bit_runs bits 0). run_pages x)"
      unfolding fe using pages by auto
    also have "\<dots> = bit_pages r bits" using runs by (auto simp: bit_pages_def b_def)
    finally show ?thesis .
  qed
  have disj: "run_pages x \<inter> run_pages y = {}" if "snd x \<le> fst y" for x y
    using that by (auto simp: run_pages_def)
  show "sorted_wrt (\<lambda>a b. range_pages a \<inter> range_pages b = {}) (ForEachRange bits r)"
    unfolding fe sorted_wrt_map
  proof (rule sorted_wrt_mono_rel [OF _ conjunct2 [OF conjunct2 [OF runs]]])
    fix x y
    assume xy: "x \<in> set (bit_runs bits 0)" "y \<in> set (bit_runs bits 0)" "snd x \<le> fst y"
    show "range_pages (?f x) \<inter> range_pages (?f y) = {}"
      unfolding pages [OF xy(1)] pages [OF xy(2)] using disj [OF xy(3)] by auto
  qed
  assume zero: "\<not> (rg_addr r = 0 \<and> bits 0)"
  show "\<forall>a\<in>set (ForEachRange bits r). ValidRange (fst a) (snd a)"
  proof
    fix a assume "a \<in> set (ForEachRange bits r)"
    then obtain s e where se: "(s, e) \<in> set (bit_runs bits 0)" "a = ?f (s, e)"
      unfolding fe by auto
    then have lt: "s < e" "e \<le> REGION_PAGES" using runs by auto
    have "s \<in> {i. 0 \<le> i \<and> i < REGION_PAGES \<and> bits i}"
      using runs se(1) lt(1) unfolding run_pages_def by (metis (no_types, lifting) UN_I atLeastLessThan_iff
        fst_conv le_refl snd_conv)
    then have "rg_addr r + s * PAGE_SIZE \<noteq> 0" using zero by (auto simp: PAGE_SIZE_def)
    moreover have "rg_addr r + s * PAGE_SIZE + (e - s) * PAGE_SIZE \<le> ADDRESS_SIZE"
    proof -
      have "s * PAGE_SIZE + (e - s) * PAGE_SIZE = e * PAGE_SIZE"
        using lt(1) add_mult_distrib [of s "e - s" PAGE_SIZE] by simp
      also have "\<dots> \<le> REGION_SIZE" using lt(2) by (simp add: REGION_SIZE_def REGION_PAGES_def PAGE_SIZE_def)
      finally show ?thesis using assms by (simp add: region_placed_def)
    qed
    ultimately show "ValidRange (fst a) (snd a)"
      using lt(1) by (simp add: se(2) ValidRange_def PAGE_SIZE_def) linarith
  qed
qed

section \<open>Adding and removing watchers on disjoint ranges\<close>

definition pages_of :: "(nat \<times> nat) list \<Rightarrow> nat set" where
  "pages_of rs = (\<Union>a\<in>set rs. range_pages a)"

lemma pages_of_simps [simp]: "pages_of [] = {}" "pages_of (a # rs) = range_pages a \<union> pages_of rs"
  by (simp_all add: pages_of_def)

lemma bump_Un: "A \<inter> B = {} \<Longrightarrow> bump mode m A p + bump mode m B p = bump mode m (A \<union> B) p"
  by (auto simp: bump_def)

lemma committable_kept: "committable can h \<Longrightarrow> host_kept h h' \<Longrightarrow> committable can h'"
  by (auto simp: committable_def host_kept_def)

lemma watchers_bump: "watchers mode pg = (case mode of WatchWrite \<Rightarrow> write_watchers pg
    | WatchReadWrite \<Rightarrow> access_watchers pg)"
  by (cases mode) (simp_all add: watchers_def)

lemma watch_ranges:
  assumes "sorted_wrt (\<lambda>a b. range_pages a \<inter> range_pages b = {}) rs"
    and "\<forall>a\<in>set rs. ValidRange (fst a) (snd a)" and "pm_ok pm" and "\<not> pm_in_fault pm th"
    and "\<forall>p\<in>pages_of rs. \<not> is_resolving pm p \<and> watchers mode (pm_page pm p) < UINT32_MAX
      \<and> (watched (pm_page pm p) \<or> committable (pm_can_commit pm p) (pm_host pm p))"
  shows "\<exists>pm'. foldR (\<lambda>(vaddr, n). UpdatePageWatchers th True vaddr n mode) rs pm = Inr pm'
    \<and> pages_change pm pm' (\<lambda>p. wwatch pm p + bump mode WatchWrite (pages_of rs) p)
        (\<lambda>p. awatch pm p + bump mode WatchReadWrite (pages_of rs) p)
        (is_resolving pm) (writer pm)"
  using assms
proof (induction rs arbitrary: pm)
  case Nil
  then show ?case using pages_change_refl [of pm] by (simp add: bump_def)
next
  case (Cons a rs)
  obtain v n where a: "a = (v, n)" by (cases a)
  have disj: "range_pages a \<inter> pages_of rs = {}" using Cons.prems(1) by (auto simp: pages_of_def)
  have "ValidRange v n" using Cons.prems(2) a by simp
  moreover have "\<not> is_resolving pm p \<and> watchers mode (pm_page pm p) < UINT32_MAX
      \<and> (watched (pm_page pm p) \<or> committable (pm_can_commit pm p) (pm_host pm p))"
    if "p \<in> set (page_list v n)" for p
    using that Cons.prems(5) by (simp add: range_pages_def a)
  ultimately obtain u where u: "UpdatePageWatchers th True v n mode pm = Inr u"
    "pages_change pm u (\<lambda>p. wwatch pm p + bump mode WatchWrite (set (page_list v n)) p)
        (\<lambda>p. awatch pm p + bump mode WatchReadWrite (set (page_list v n)) p)
        (is_resolving pm) (writer pm)"
    using UpdatePageWatchers_track [OF Cons.prems(3,4), of v n mode] by blast
  note ch = pages_changeD [OF u(2)]
  have fault: "\<not> pm_in_fault u th" using ch(2) Cons.prems(4) by (simp add: later_def)
  have rest: "\<not> is_resolving u p \<and> watchers mode (pm_page u p) < UINT32_MAX
      \<and> (watched (pm_page u p) \<or> committable (pm_can_commit u p) (pm_host u p))"
    if p: "p \<in> pages_of rs" for p
  proof -
    have "p \<notin> set (page_list v n)" using p disj by (auto simp: range_pages_def a)
    then have eqs: "wwatch u p = wwatch pm p" "awatch u p = awatch pm p"
      "is_resolving u p = is_resolving pm p"
      using ch(3-5) by (simp_all add: bump_def fun_eq_iff)
    have "watchers mode (pm_page u p) = watchers mode (pm_page pm p)"
      using eqs by (cases mode) (simp_all add: watchers_def)
    moreover have "watched (pm_page u p) = watched (pm_page pm p)" using eqs by (simp add: watched_def)
    moreover note eqs(3)
    moreover have "pm_can_commit u p = pm_can_commit pm p" using ch(2) by (simp add: later_def)
    moreover have "committable (pm_can_commit pm p) (pm_host pm p) \<Longrightarrow>
        committable (pm_can_commit pm p) (pm_host u p)"
      using ch(8) committable_kept by blast
    moreover have "p \<in> pages_of (a # rs)" using p by simp
    ultimately show ?thesis using bspec [OF Cons.prems(5), of p] by auto
  qed
  obtain w where w: "foldR (\<lambda>(vaddr, n). UpdatePageWatchers th True vaddr n mode) rs u = Inr w"
    "pages_change u w (\<lambda>p. wwatch u p + bump mode WatchWrite (pages_of rs) p)
        (\<lambda>p. awatch u p + bump mode WatchReadWrite (pages_of rs) p) (is_resolving u) (writer u)"
    using Cons.IH [OF _ _ ch(1) fault] Cons.prems(1,2) rest by auto
  have "pages_change pm w (\<lambda>p. wwatch pm p + bump mode WatchWrite (pages_of (a # rs)) p)
      (\<lambda>p. awatch pm p + bump mode WatchReadWrite (pages_of (a # rs)) p) (is_resolving pm) (writer pm)"
  proof -
    have "wwatch u p + bump mode WatchWrite (pages_of rs) p
        = wwatch pm p + bump mode WatchWrite (pages_of (a # rs)) p"
      "awatch u p + bump mode WatchReadWrite (pages_of rs) p
        = awatch pm p + bump mode WatchReadWrite (pages_of (a # rs)) p" for p
      using ch(3,4) bump_Un [OF disj] by (simp_all add: fun_eq_iff range_pages_def a)
    then show ?thesis using pages_change_trans [OF u(2) w(2)] ch(5,6) by simp
  qed
  then show ?case using u(1) w(1) a by auto
qed

lemma unwatch_ranges:
  assumes "sorted_wrt (\<lambda>a b. range_pages a \<inter> range_pages b = {}) rs"
    and "\<forall>a\<in>set rs. ValidRange (fst a) (snd a)" and "pm_ok pm" and "\<not> pm_in_fault pm th"
    and "\<forall>p\<in>pages_of rs. 0 < watchers mode (pm_page pm p) \<and> (writer pm p = 0 \<or> writer pm p = th)"
  shows "\<exists>pm'. foldR (\<lambda>(vaddr, n). UpdatePageWatchers th False vaddr n mode) rs pm = Inr pm'
    \<and> pages_change pm pm' (\<lambda>p. wwatch pm p - bump mode WatchWrite (pages_of rs) p)
        (\<lambda>p. awatch pm p - bump mode WatchReadWrite (pages_of rs) p)
        (is_resolving pm) (writer pm)"
  using assms
proof (induction rs arbitrary: pm)
  case Nil
  then show ?case using pages_change_refl [of pm] by (simp add: bump_def)
next
  case (Cons a rs)
  obtain v n where a: "a = (v, n)" by (cases a)
  have disj: "range_pages a \<inter> pages_of rs = {}" using Cons.prems(1) by (auto simp: pages_of_def)
  have "ValidRange v n" using Cons.prems(2) a by simp
  moreover have "0 < watchers mode (pm_page pm p) \<and> (writer pm p = 0 \<or> writer pm p = th)"
    if "p \<in> set (page_list v n)" for p
    using that Cons.prems(5) by (simp add: range_pages_def a)
  ultimately obtain u where u: "UpdatePageWatchers th False v n mode pm = Inr u"
    "pages_change pm u (\<lambda>p. wwatch pm p - bump mode WatchWrite (set (page_list v n)) p)
        (\<lambda>p. awatch pm p - bump mode WatchReadWrite (set (page_list v n)) p)
        (is_resolving pm) (writer pm)"
    using UpdatePageWatchers_untrack [OF Cons.prems(3,4), of v n mode] by blast
  note ch = pages_changeD [OF u(2)]
  have fault: "\<not> pm_in_fault u th" using ch(2) Cons.prems(4) by (simp add: later_def)
  have rest: "0 < watchers mode (pm_page u p) \<and> (writer u p = 0 \<or> writer u p = th)"
    if p: "p \<in> pages_of rs" for p
  proof -
    have "p \<notin> set (page_list v n)" using p disj by (auto simp: range_pages_def a)
    then have "wwatch u p = wwatch pm p" "awatch u p = awatch pm p" "writer u p = writer pm p"
      using ch(3,4,6) by (simp_all add: bump_def fun_eq_iff)
    then show ?thesis using Cons.prems(5) p by (cases mode) (auto simp: watchers_def)
  qed
  obtain w where w: "foldR (\<lambda>(vaddr, n). UpdatePageWatchers th False vaddr n mode) rs u = Inr w"
    "pages_change u w (\<lambda>p. wwatch u p - bump mode WatchWrite (pages_of rs) p)
        (\<lambda>p. awatch u p - bump mode WatchReadWrite (pages_of rs) p) (is_resolving u) (writer u)"
    using Cons.IH [OF _ _ ch(1) fault] Cons.prems(1,2) rest by auto
  have "pages_change pm w (\<lambda>p. wwatch pm p - bump mode WatchWrite (pages_of (a # rs)) p)
      (\<lambda>p. awatch pm p - bump mode WatchReadWrite (pages_of (a # rs)) p) (is_resolving pm) (writer pm)"
  proof -
    have "wwatch u p - bump mode WatchWrite (pages_of rs) p
        = wwatch pm p - bump mode WatchWrite (pages_of (a # rs)) p"
      "awatch u p - bump mode WatchReadWrite (pages_of rs) p
        = awatch pm p - bump mode WatchReadWrite (pages_of (a # rs)) p" for p
      using ch(3,4) bump_Un [OF disj, of mode WatchWrite p] bump_Un [OF disj, of mode WatchReadWrite p]
      by (simp_all add: fun_eq_iff range_pages_def a)
    then show ?thesis using pages_change_trans [OF u(2) w(2)] ch(5,6) by simp
  qed
  then show ?case using u(1) w(1) a by auto
qed

text \<open>The watchers of the pages of a bit set.\<close>

lemma watch_bits:
  assumes "region_placed r" and "\<not> (rg_addr r = 0 \<and> bits 0)" and "pm_ok pm"
    and "\<not> pm_in_fault pm th"
    and "\<forall>p\<in>bit_pages r bits. \<not> is_resolving pm p \<and> watchers mode (pm_page pm p) < UINT32_MAX
      \<and> (watched (pm_page pm p) \<or> committable (pm_can_commit pm p) (pm_host pm p))"
  shows "\<exists>pm'. ApplyGpuProtection th bits True mode r pm = Inr pm'
    \<and> pages_change pm pm' (\<lambda>p. wwatch pm p + bump mode WatchWrite (bit_pages r bits) p)
        (\<lambda>p. awatch pm p + bump mode WatchReadWrite (bit_pages r bits) p)
        (is_resolving pm) (writer pm)"
  unfolding ApplyGpuProtection_def
  using watch_ranges [OF ForEachRange_spec(2,3) [OF assms(1)], of bits pm th mode] assms
    ForEachRange_spec(1) [OF assms(1), of bits] unfolding pages_of_def by simp

lemma unwatch_bits:
  assumes "region_placed r" and "\<not> (rg_addr r = 0 \<and> bits 0)" and "pm_ok pm"
    and "\<not> pm_in_fault pm th"
    and "\<forall>p\<in>bit_pages r bits. 0 < watchers mode (pm_page pm p) \<and> (writer pm p = 0 \<or> writer pm p = th)"
  shows "\<exists>pm'. ApplyGpuProtection th bits False mode r pm = Inr pm'
    \<and> pages_change pm pm' (\<lambda>p. wwatch pm p - bump mode WatchWrite (bit_pages r bits) p)
        (\<lambda>p. awatch pm p - bump mode WatchReadWrite (bit_pages r bits) p)
        (is_resolving pm) (writer pm)"
  unfolding ApplyGpuProtection_def
  using unwatch_ranges [OF ForEachRange_spec(2,3) [OF assms(1)], of bits pm th mode] assms
    ForEachRange_spec(1) [OF assms(1), of bits] unfolding pages_of_def by simp

section \<open>Runs are maximal\<close>

lemma bit_runs_maximal:
  "page \<le> REGION_PAGES \<Longrightarrow> x \<in> set (bit_runs bits page) \<Longrightarrow>
     (fst x = page \<or> \<not> bits (fst x - 1)) \<and> (snd x = REGION_PAGES \<or> \<not> bits (snd x)) \<and> bits (fst x)"
proof (induction bits page rule: bit_runs.induct)
  case (1 bits page)
  have page: "page < REGION_PAGES" using "1.prems" by (auto simp: bit_runs.simps split: if_splits)
  define start where "start = skip_while (\<lambda>i. \<not> bits i) page"
  define stop where "stop = skip_while bits start"
  have eq: "bit_runs bits page = (if start \<noteq> stop then (start, stop) # bit_runs bits stop else [])"
    using page by (subst bit_runs.simps) (simp add: start_def stop_def Let_def)
  then have ne: "start \<noteq> stop" using "1.prems"(2) by auto
  note st = skip_while_facts [where f = "\<lambda>i. \<not> bits i", OF less_imp_le [OF page], folded start_def]
  note sp = skip_while_facts [where f = bits, OF st(2), folded stop_def]
  have first: "start = page \<or> \<not> bits (start - 1)" using st(1) st(3) [of "start - 1"] by force
  have last: "stop = REGION_PAGES \<or> \<not> bits stop" using sp(2,4) by force
  have set: "bits start" using sp(1,3) ne by simp
  from "1.prems"(2) consider "x = (start, stop)" | "x \<in> set (bit_runs bits stop)"
    unfolding eq using ne by auto
  then show ?case
  proof cases
    case 1
    then show ?thesis using first last set by simp
  next
    case 2
    note IH = "1.IH" [OF page start_def stop_def ne sp(2) 2]
    have "fst x < snd x \<and> snd x \<le> REGION_PAGES" using bit_runs_spec [OF sp(2), of bits] 2 by blast
    then have "fst x \<noteq> stop" using IH last by auto
    then show ?thesis using IH by blast
  qed
qed

text \<open>
  Walking a bit set. The ranges \<open>ForEachRange\<close> calls its function with cover exactly the pages
  whose bit is set, each page once and in increasing order, and every range is as long as
  possible: a call of the operating system is made once per run of pages, never per page.
\<close>

theorem for_each_range_exact:
  assumes "region_placed r"
  shows "(\<Union>a\<in>set (ForEachRange bits r). range_pages a) = bit_pages r bits
    \<and> sorted_wrt (\<lambda>a b. fst a + snd a < fst b) (ForEachRange bits r)
    \<and> (\<forall>x\<in>set (bit_runs bits 0). (fst x = 0 \<or> \<not> bits (fst x - 1)) \<and> (snd x = REGION_PAGES \<or> \<not> bits (snd x)))"
proof -
  let ?f = "\<lambda>(s, e). (rg_addr r + s * PAGE_SIZE, (e - s) * PAGE_SIZE)"
  note runs = bit_runs_spec [of 0 bits, OF le0] and max = bit_runs_maximal [OF le0, of _ bits]
  have "sorted_wrt (\<lambda>a b. fst a + snd a < fst b) (map ?f (bit_runs bits 0))"
    unfolding sorted_wrt_map
  proof (rule sorted_wrt_mono_rel [OF _ conjunct2 [OF conjunct2 [OF runs]]])
    fix x y
    assume xy: "x \<in> set (bit_runs bits 0)" "y \<in> set (bit_runs bits 0)" "snd x \<le> fst y"
    have "fst x < snd x" "fst y < snd y" "snd y \<le> REGION_PAGES" using runs xy by blast+
    moreover have "snd x \<noteq> fst y" using max [OF xy(1)] max [OF xy(2)] calculation by auto
    ultimately have "fst x * PAGE_SIZE + (snd x - fst x) * PAGE_SIZE < fst y * PAGE_SIZE"
      using xy(3) by (simp add: PAGE_SIZE_def)
    then show "fst (?f x) + snd (?f x) < fst (?f y)" by (simp add: split_beta)
  qed
  then have "sorted_wrt (\<lambda>a b. fst a + snd a < fst b) (ForEachRange bits r)" by (simp add: ForEachRange_def)
  then show ?thesis using ForEachRange_spec(1) [OF assms, of bits] max by blast
qed

theorem for_each_range_exact_witness:
  "\<exists>r. new_region REGION_SIZE = Inr r
    \<and> (\<Union>a\<in>set (ForEachRange (\<lambda>i. i = 3 \<or> i = 4) r). range_pages a) = {1027, 1028}"
proof -
  let ?bits = "\<lambda>i::nat. i = 3 \<or> i = 4"
  define r where "r = \<lparr>rg_addr = REGION_SIZE, rg_cpu = (\<lambda>_. True), rg_gpu = (\<lambda>_. False),
    rg_writable = (\<lambda>_. True), rg_pending = (\<lambda>_. False), rg_tracked = (\<lambda>_. False)\<rparr>"
  have "new_region REGION_SIZE = Inr r" by (simp add: new_region_def r_def)
  moreover have placed: "region_placed r" by (simp add: region_placed_def r_def REGION_SIZE_def ADDRESS_SIZE_def)
  have pages: "bit_pages r ?bits = {1027, 1028}"
  proof -
    have base: "rg_addr r div PAGE_SIZE = 1024" by (simp add: r_def REGION_SIZE_def PAGE_SIZE_def)
    have "3 < REGION_PAGES" "4 < REGION_PAGES" by (simp_all add: REGION_PAGES_def)
    then have "bit_pages r ?bits = {1024 + 3, 1024 + 4}" unfolding bit_pages_def base by blast
    then show ?thesis by simp
  qed
  moreover have "(\<Union>a\<in>set (ForEachRange ?bits r). range_pages a) = {1027, 1028}"
    using conjunct1 [OF for_each_range_exact [OF placed, of ?bits]] unfolding pages .
  ultimately show ?thesis by blast
qed

section \<open>The two protection routines\<close>

lemma ApplyProtection_eq: "ApplyProtection th bits track r = ApplyGpuProtection th bits track WatchWrite r"
  by (simp add: ApplyProtection_def ApplyGpuProtection_def)

end
