(* ===== verification/MemoryTracker.thy ===== *)
theory MemoryTracker
  imports RegionManager
begin

text \<open>
  \<open>class MemoryTracker\<close> of \<open>graphics/host_gpu/memoryTracker.h\<close> and \<open>memoryTracker.cpp\<close>: the regions
  of one GPU cache and the operations the cache marks, uploads, downloads and forgets memory
  with. The methods hold the tracker's mutex and the locks of the regions they visit; the
  callbacks, which only move bytes, are the lists of ranges they are called with.
\<close>

section \<open>Data\<close>

record tracker =
  tk_regions :: "nat \<Rightarrow> region option"
  tk_mode :: watch_mode

definition tracker_start :: "watch_mode \<Rightarrow> tracker" where
  "tracker_start mode = \<lparr>tk_regions = (\<lambda>_. None), tk_mode = mode\<rparr>"

definition REGION_COUNT :: nat where "REGION_COUNT = ADDRESS_SIZE div REGION_SIZE"

text \<open>
  The pieces \<open>Iterate\<close> cuts a range into: region index, offset in the region, bytes. The guard
  on the offset always holds, it starts as a remainder and is 0 afterwards.
\<close>

function chunks :: "nat \<Rightarrow> nat \<Rightarrow> nat \<Rightarrow> (nat \<times> nat \<times> nat) list" where
  "chunks index offset remaining =
     (if remaining = 0 \<or> REGION_SIZE \<le> offset then []
      else (let bytes = min (REGION_SIZE - offset) remaining
            in (index, offset, bytes) # chunks (Suc index) 0 (remaining - bytes)))"
  by pat_completeness auto
termination
  by (relation "measure (\<lambda>(index, offset, remaining). remaining)") auto

declare chunks.simps [simp del]

definition range_chunks :: "nat \<Rightarrow> nat \<Rightarrow> (nat \<times> nat \<times> nat) list" where
  "range_chunks vaddr n = chunks (vaddr div REGION_SIZE) (vaddr mod REGION_SIZE) n"

definition TrackerRegion :: "bool \<Rightarrow> nat \<Rightarrow> tracker \<Rightarrow> exit_reason + region option" where
  "TrackerRegion create index t =
     (case tk_regions t index of
        Some r \<Rightarrow> Inr (Some r)
      | None \<Rightarrow> if create then bindR (new_region (index * REGION_SIZE)) (\<lambda>r. Inr (Some r))
                else Inr None)"

text \<open>One turn of \<open>Iterate\<close> with a body that changes the region and the page manager.\<close>

definition on_region :: "bool \<Rightarrow>
    (region \<Rightarrow> nat \<Rightarrow> nat \<Rightarrow> page_manager \<Rightarrow> exit_reason + region \<times> page_manager) \<Rightarrow>
    nat \<times> nat \<times> nat \<Rightarrow> tracker \<times> page_manager \<Rightarrow> exit_reason + tracker \<times> page_manager" where
  "on_region create f = (\<lambda>(index, offset, bytes) (t, pm).
     bindR (TrackerRegion create index t) (\<lambda>found.
       case found of
         None \<Rightarrow> Inr (t, pm)
       | Some r \<Rightarrow> bindR (f r offset bytes pm) (\<lambda>(r', pm').
           Inr (t\<lparr>tk_regions := (tk_regions t)(index \<mapsto> r')\<rparr>, pm'))))"

definition Iterate :: "bool \<Rightarrow>
    (region \<Rightarrow> nat \<Rightarrow> nat \<Rightarrow> page_manager \<Rightarrow> exit_reason + region \<times> page_manager) \<Rightarrow>
    nat \<Rightarrow> nat \<Rightarrow> tracker \<times> page_manager \<Rightarrow> exit_reason + tracker \<times> page_manager" where
  "Iterate create f vaddr n s =
     (if \<not> ValidRange vaddr n then Inl (Exit ''invalid memory tracker range'')
      else foldR (on_region create f) (range_chunks vaddr n) s)"

text \<open>\<open>Iterate\<close> with a predicate: it stops at the first region where the predicate holds.\<close>

fun any_chunk :: "bool \<Rightarrow> (region \<Rightarrow> nat \<Rightarrow> nat \<Rightarrow> exit_reason + bool) \<Rightarrow>
    (nat \<times> nat \<times> nat) list \<Rightarrow> tracker \<Rightarrow> exit_reason + bool \<times> tracker" where
  "any_chunk create q [] t = Inr (False, t)"
| "any_chunk create q ((index, offset, bytes) # cs) t =
     bindR (TrackerRegion create index t) (\<lambda>found.
       case found of
         None \<Rightarrow> any_chunk create q cs t
       | Some r \<Rightarrow>
           (let t' = t\<lparr>tk_regions := (tk_regions t)(index \<mapsto> r)\<rparr>
            in bindR (q r offset bytes) (\<lambda>b.
                 if b then Inr (True, t') else any_chunk create q cs t')))"

definition RequireMapped :: "nat \<Rightarrow> nat \<Rightarrow> nat \<Rightarrow> page_manager \<Rightarrow> exit_reason + unit" where
  "RequireMapped th vaddr n pm =
     (if \<not> ValidRange vaddr n then Inl (Exit ''invalid memory tracker range'')
      else if \<not> IsMapped th vaddr n pm then Inl (Exit ''memory tracker range is not mapped'')
      else Inr ())"

section \<open>The methods\<close>

definition IsRegionModified :: "nat \<Rightarrow> dirty_source \<Rightarrow> nat \<Rightarrow> nat \<Rightarrow> tracker \<times> page_manager \<Rightarrow>
    exit_reason + bool \<times> tracker" where
  "IsRegionModified th src vaddr n = (\<lambda>(t, pm). bindR (RequireMapped th vaddr n pm) (\<lambda>_.
     any_chunk (src = CpuSide) (\<lambda>r offset bytes. IsModified src offset bytes r)
       (range_chunks vaddr n) t))"

definition mark_cpu_region :: "nat \<Rightarrow> region \<Rightarrow> nat \<Rightarrow> nat \<Rightarrow> page_manager \<Rightarrow>
    exit_reason + region \<times> page_manager" where
  "mark_cpu_region th r offset bytes pm =
     bindR (ChangeState CpuSide True (rg_addr r + offset) bytes r) (\<lambda>(changed, r').
       bindR (ApplyProtection th changed False r' pm) (\<lambda>pm'. Inr (r', pm')))"

definition MarkRegionAsCpuModified :: "nat \<Rightarrow> nat \<Rightarrow> nat \<Rightarrow> tracker \<times> page_manager \<Rightarrow>
    exit_reason + tracker \<times> page_manager" where
  "MarkRegionAsCpuModified th vaddr n s = bindR (RequireMapped th vaddr n (snd s)) (\<lambda>_.
     Iterate True (mark_cpu_region th) vaddr n s)"

definition mark_gpu_region :: "nat \<Rightarrow> watch_mode \<Rightarrow> region \<Rightarrow> nat \<Rightarrow> nat \<Rightarrow> page_manager \<Rightarrow>
    exit_reason + region \<times> page_manager" where
  "mark_gpu_region th mode r offset bytes pm =
     bindR (ChangeState GpuSide True (rg_addr r + offset) bytes r) (\<lambda>(changed, r').
       bindR (ApplyGpuProtection th changed True mode r' pm) (\<lambda>pm'. Inr (r', pm')))"

definition MarkRegionAsGpuModified :: "nat \<Rightarrow> nat \<Rightarrow> nat \<Rightarrow> tracker \<times> page_manager \<Rightarrow>
    exit_reason + tracker \<times> page_manager" where
  "MarkRegionAsGpuModified th vaddr n s = bindR (RequireMapped th vaddr n (snd s)) (\<lambda>_.
     Iterate True (mark_gpu_region th (tk_mode (fst s))) vaddr n s)"

definition unmark_gpu_region :: "nat \<Rightarrow> watch_mode \<Rightarrow> region \<Rightarrow> nat \<Rightarrow> nat \<Rightarrow> page_manager \<Rightarrow>
    exit_reason + region \<times> page_manager" where
  "unmark_gpu_region th mode r offset bytes pm =
     bindR (IsFullyModified GpuSide offset bytes r) (\<lambda>all.
       if \<not> all then Inl (Exit ''cannot clear partially GPU-dirty tracking range'')
       else
         bindR (ChangeState GpuSide False (rg_addr r + offset) bytes r) (\<lambda>(changed, r').
           bindR (ApplyGpuProtection th changed False mode r' pm) (\<lambda>pm'. Inr (r', pm'))))"

definition UnmarkRegionAsGpuModified :: "nat \<Rightarrow> nat \<Rightarrow> nat \<Rightarrow> tracker \<times> page_manager \<Rightarrow>
    exit_reason + tracker \<times> page_manager" where
  "UnmarkRegionAsGpuModified th vaddr n s = bindR (RequireMapped th vaddr n (snd s)) (\<lambda>_.
     Iterate True (unmark_gpu_region th (tk_mode (fst s))) vaddr n s)"

definition untrack_region :: "nat \<Rightarrow> region \<Rightarrow> nat \<Rightarrow> nat \<Rightarrow> page_manager \<Rightarrow>
    exit_reason + region \<times> page_manager" where
  "untrack_region th r offset bytes pm =
     bindR (ChangeState CpuSide True (rg_addr r + offset) bytes r) (\<lambda>(changed, r').
       bindR (ApplyProtection th changed False r' pm) (\<lambda>pm'.
         bindR (Untrack (rg_addr r' + offset) bytes r') (\<lambda>r''. Inr (r'', pm'))))"

definition UntrackMemory :: "nat \<Rightarrow> nat \<Rightarrow> nat \<Rightarrow> tracker \<times> page_manager \<Rightarrow>
    exit_reason + tracker \<times> page_manager" where
  "UntrackMemory th vaddr n = (\<lambda>(t, pm).
     bindR (RequireMapped th vaddr n pm) (\<lambda>_.
       bindR (any_chunk False (\<lambda>r offset bytes. IsModified GpuSide offset bytes r)
                (range_chunks vaddr n) t) (\<lambda>(dirty, _).
         if dirty then Inl (Exit ''cannot untrack GPU-dirty memory'')
         else Iterate False (untrack_region th) vaddr n (t, pm))))"

definition TrackerUnmapMemory :: "nat \<Rightarrow> nat \<Rightarrow> nat \<Rightarrow> tracker \<times> page_manager \<Rightarrow>
    exit_reason + tracker \<times> page_manager" where
  "TrackerUnmapMemory th vaddr n s = bindR (UntrackMemory th vaddr n s) (\<lambda>(t, pm).
     bindR (OnGpuUnmap th vaddr n AccessReadWrite pm) (\<lambda>pm'. Inr (t, pm')))"

text \<open>
  \<open>ForEachDownloadRange\<close>: all regions are checked for pending faults before anything is
  cleared; the ranges are those the callback sees.
\<close>

definition no_pending_region :: "region \<Rightarrow> nat \<Rightarrow> nat \<Rightarrow> page_manager \<Rightarrow>
    exit_reason + region \<times> page_manager" where
  "no_pending_region r offset bytes pm =
     bindR (HasPendingFault (rg_addr r + offset) bytes r) (\<lambda>b.
       if b then Inl (Exit ''GPU download synchronization raced a pending CPU fault'')
       else Inr (r, pm))"

definition download_region :: "nat \<Rightarrow> watch_mode \<Rightarrow> region \<Rightarrow> nat \<Rightarrow> nat \<Rightarrow> page_manager \<Rightarrow>
    exit_reason + region \<times> page_manager" where
  "download_region th mode r offset bytes pm =
     bindR (ForEachModifiedRange th GpuSide True (rg_addr r + offset) bytes (r, pm))
       (\<lambda>(_, changed, r', pm'). bindR (ApplyGpuProtection th changed False mode r' pm')
         (\<lambda>pm''. Inr (r', pm'')))"

definition region_ranges :: "dirty_source \<Rightarrow> tracker \<Rightarrow> nat \<times> nat \<times> nat \<Rightarrow> (nat \<times> nat) list" where
  "region_ranges src t = (\<lambda>(index, offset, bytes).
     case tk_regions t index of
       None \<Rightarrow> []
     | Some r \<Rightarrow> (case GetPageRange (rg_addr r + offset) bytes r of
          Inl _ \<Rightarrow> []
        | Inr (s, e) \<Rightarrow> ForEachRange (\<lambda>i. s \<le> i \<and> i < e \<and> GetBits src r i
            \<and> \<not> (src = CpuSide \<and> rg_pending r i)) r))"

definition ForEachDownloadRange :: "nat \<Rightarrow> bool \<Rightarrow> nat \<Rightarrow> nat \<Rightarrow> tracker \<times> page_manager \<Rightarrow>
    exit_reason + (nat \<times> nat) list \<times> tracker \<times> page_manager" where
  "ForEachDownloadRange th clear vaddr n s =
     bindR (RequireMapped th vaddr n (snd s)) (\<lambda>_.
       bindR (Iterate False no_pending_region vaddr n s) (\<lambda>s.
         let ranges = concat (map (region_ranges GpuSide (fst s)) (range_chunks vaddr n))
         in bindR (if clear then Iterate False (download_region th (tk_mode (fst s))) vaddr n s
                   else Inr s) (\<lambda>s'. Inr (ranges, s'))))"

definition upload_region :: "nat \<Rightarrow> region \<Rightarrow> nat \<Rightarrow> nat \<Rightarrow> page_manager \<Rightarrow>
    exit_reason + region \<times> page_manager" where
  "upload_region th r offset bytes pm =
     bindR (Track (rg_addr r + offset) bytes r) (\<lambda>r'.
       bindR (ForEachModifiedRange th CpuSide True (rg_addr r' + offset) bytes (r', pm))
         (\<lambda>(_, _, r'', pm'). Inr (r'', pm')))"

definition ForEachUploadRange :: "nat \<Rightarrow> nat \<Rightarrow> nat \<Rightarrow> bool \<Rightarrow> tracker \<times> page_manager \<Rightarrow>
    exit_reason + (nat \<times> nat) list \<times> tracker \<times> page_manager" where
  "ForEachUploadRange th vaddr n is_written s =
     bindR (RequireMapped th vaddr n (snd s)) (\<lambda>_.
       bindR (Iterate True (\<lambda>r _ _ pm. Inr (r, pm)) vaddr n s) (\<lambda>s.
         let ranges = concat (map (region_ranges CpuSide (fst s)) (range_chunks vaddr n))
         in bindR (Iterate False (upload_region th) vaddr n s) (\<lambda>s.
              bindR (if is_written then Iterate False (mark_gpu_region th (tk_mode (fst s))) vaddr n s
                     else Inr s) (\<lambda>s. Inr (ranges, s)))))"

text \<open>\<open>BeginCpuFault\<close> and \<open>CompleteCpuFault\<close> thread the action found so far through \<open>Iterate\<close>.\<close>

fun begin_fault_chunks :: "fault_access \<Rightarrow> (nat \<times> nat \<times> nat) list \<Rightarrow> cpu_fault_action \<Rightarrow> tracker \<Rightarrow>
    exit_reason + cpu_fault_action \<times> tracker" where
  "begin_fault_chunks a [] action t = Inr (action, t)"
| "begin_fault_chunks a ((index, offset, bytes) # cs) action t =
     (case tk_regions t index of
        None \<Rightarrow> begin_fault_chunks a cs action t
      | Some r \<Rightarrow>
          if action \<noteq> Untracked then Inl (Exit ''CPU fault spans multiple tracked regions'')
          else bindR (RM_BeginCpuFault (rg_addr r + offset) bytes a r) (\<lambda>(action', r').
            begin_fault_chunks a cs action' (t\<lparr>tk_regions := (tk_regions t)(index \<mapsto> r')\<rparr>)))"

definition BeginCpuFault :: "nat \<Rightarrow> nat \<Rightarrow> fault_access \<Rightarrow> tracker \<Rightarrow>
    exit_reason + cpu_fault_action \<times> tracker" where
  "BeginCpuFault vaddr n a t =
     (if \<not> ValidRange vaddr n then Inl (Exit ''invalid memory tracker range'')
      else begin_fault_chunks a (range_chunks vaddr n) Untracked t)"

fun complete_fault_chunks :: "(nat \<Rightarrow> nat \<Rightarrow> region \<Rightarrow> exit_reason + bool \<times> region) \<Rightarrow> string \<Rightarrow>
    (nat \<times> nat \<times> nat) list \<Rightarrow> bool \<Rightarrow> tracker \<Rightarrow> exit_reason + bool \<times> tracker" where
  "complete_fault_chunks f msg [] found t = Inr (found, t)"
| "complete_fault_chunks f msg ((index, offset, bytes) # cs) found t =
     (case tk_regions t index of
        None \<Rightarrow> complete_fault_chunks f msg cs found t
      | Some r \<Rightarrow>
          if found then Inl (Exit msg)
          else bindR (f (rg_addr r + offset) bytes r) (\<lambda>(found', r').
            complete_fault_chunks f msg cs found' (t\<lparr>tk_regions := (tk_regions t)(index \<mapsto> r')\<rparr>)))"

definition CompleteCpuFault :: "nat \<Rightarrow> nat \<Rightarrow> fault_access \<Rightarrow> bool \<Rightarrow> tracker \<Rightarrow>
    exit_reason + bool \<times> tracker" where
  "CompleteCpuFault vaddr n a downloaded t =
     (if \<not> ValidRange vaddr n then Inl (Exit ''invalid memory tracker range'')
      else complete_fault_chunks (\<lambda>v m. RM_CompleteCpuFault v m a downloaded)
             ''CPU fault completion spans multiple tracked regions'' (range_chunks vaddr n) False t)"

definition virtual_gpu_write_invalidate :: "fault_access \<Rightarrow> nat \<Rightarrow> nat \<Rightarrow> tracker \<Rightarrow>
    exit_reason + bool \<times> tracker" where
  "virtual_gpu_write_invalidate a vaddr n t =
     (if \<not> ValidRange vaddr n then Inl (Exit ''invalid memory tracker range'')
      else bindR (any_chunk False (\<lambda>r offset bytes. IsModified GpuSide offset bytes r)
                    (range_chunks vaddr n) t) (\<lambda>(modified, _).
        if \<not> modified then Inr (False, t)
        else bindR (BeginCpuFault vaddr n FaultWrite t) (\<lambda>(action, t').
          if a \<noteq> FaultWrite \<or> action \<noteq> Download
          then Inl (Exit ''virtual GPU write fault requires write access to GPU-dirty memory'')
          else Inr (True, t'))))"

definition virtual_gpu_write_complete :: "fault_access \<Rightarrow> nat \<Rightarrow> nat \<Rightarrow> tracker \<Rightarrow>
    exit_reason + bool \<times> tracker" where
  "virtual_gpu_write_complete a vaddr n t =
     (if a \<noteq> FaultWrite then Inl (Exit ''virtual GPU write completion requires write access'')
      else if \<not> ValidRange vaddr n then Inl (Exit ''invalid memory tracker range'')
      else complete_fault_chunks CompleteVirtualGpuWrite
             ''virtual GPU write fault spans multiple tracked regions'' (range_chunks vaddr n)
             False t)"

datatype page_fault_phase = PhaseInvalidate | PhaseComplete | PhaseRelease

definition InvalidateRegion :: "page_fault_phase \<Rightarrow> nat \<Rightarrow> nat \<Rightarrow> tracker \<Rightarrow>
    exit_reason + bool \<times> tracker" where
  "InvalidateRegion phase vaddr n t =
     (case phase of
        PhaseRelease \<Rightarrow> Inr (True, t)
      | PhaseInvalidate \<Rightarrow> bindR (BeginCpuFault vaddr n FaultWrite t) (\<lambda>(action, t').
          if action = Download
          then Inl (Exit ''generic region invalidation cannot download GPU-dirty memory'')
          else Inr (action = Continue, t'))
      | PhaseComplete \<Rightarrow> CompleteCpuFault vaddr n FaultWrite False t)"

section \<open>The bits of one page\<close>

record page_bits =
  b_cpu :: bool
  b_gpu :: bool
  b_writable :: bool
  b_pending :: bool
  b_tracked :: bool

definition rbits :: "region \<Rightarrow> nat \<Rightarrow> page_bits" where
  "rbits r i = \<lparr>b_cpu = rg_cpu r i, b_gpu = rg_gpu r i, b_writable = rg_writable r i,
     b_pending = rg_pending r i, b_tracked = rg_tracked r i\<rparr>"

definition default_bits :: page_bits where
  "default_bits = \<lparr>b_cpu = True, b_gpu = False, b_writable = True, b_pending = False,
     b_tracked = False\<rparr>"

text \<open>
  The consistent combinations: writable without a fault exactly when the CPU already counts
  as the owner of new data, never both owners, and clean only where tracked.
\<close>

definition bits_ok :: "page_bits \<Rightarrow> bool" where
  "bits_ok b \<longleftrightarrow> b_writable b = b_cpu b \<and> \<not> (b_gpu b \<and> b_cpu b) \<and> (b_cpu b \<or> b_tracked b)"

text \<open>The watchers one tracker holds on a page with these bits.\<close>

definition write_share :: "watch_mode \<Rightarrow> page_bits \<Rightarrow> nat" where
  "write_share mode b = (if b_writable b then 0 else 1)
     + (if mode = WatchWrite \<and> b_gpu b then 1 else 0)"

definition access_share :: "watch_mode \<Rightarrow> page_bits \<Rightarrow> nat" where
  "access_share mode b = (if mode = WatchReadWrite \<and> b_gpu b then 1 else 0)"

text \<open>
  \<open>pm_good\<close>: the invariant of the page manager, and the operating system commits what it is
  asked to. \<open>region_inv\<close>: outside \<open>X\<close> the page manager counts the shares of this region's
  tracker and \<open>ow\<close>, \<open>oa\<close> watchers of others.
\<close>

definition pm_good :: "page_manager \<Rightarrow> bool" where
  "pm_good pm \<longleftrightarrow> pm_ok pm \<and> (\<forall>p. committable (pm_can_commit pm p) (pm_host pm p))"

definition base_page :: "region \<Rightarrow> nat" where
  "base_page r = rg_addr r div PAGE_SIZE"

definition few :: "(nat \<Rightarrow> nat) \<Rightarrow> bool" where
  "few w \<longleftrightarrow> (\<forall>p. w p \<le> 16)"

definition region_inv :: "watch_mode \<Rightarrow> (nat \<Rightarrow> nat) \<Rightarrow> (nat \<Rightarrow> nat) \<Rightarrow> nat set \<Rightarrow> region \<Rightarrow>
    page_manager \<Rightarrow> bool" where
  "region_inv mode ow oa X r pm \<longleftrightarrow> (\<forall>i < REGION_PAGES. bits_ok (rbits r i)
     \<and> (base_page r + i \<notin> X \<longrightarrow>
          wwatch pm (base_page r + i) = ow (base_page r + i) + write_share mode (rbits r i)
          \<and> awatch pm (base_page r + i) = oa (base_page r + i) + access_share mode (rbits r i)))"

text \<open>What an operation on one region leaves alone.\<close>

definition outside_same :: "nat set \<Rightarrow> region \<Rightarrow> page_manager \<Rightarrow> page_manager \<Rightarrow> bool" where
  "outside_same X r pm pm' \<longleftrightarrow> pm_good pm' \<and> later pm pm'
     \<and> (\<forall>p. is_resolving pm' p = is_resolving pm p \<and> writer pm' p = writer pm p
           \<and> same_rest (pm_page pm p) (pm_page pm' p))
     \<and> (\<forall>p. p \<in> X \<or> \<not> (base_page r \<le> p \<and> p < base_page r + REGION_PAGES) \<longrightarrow>
           wwatch pm' p = wwatch pm p \<and> awatch pm' p = awatch pm p)"

lemma pages_change_good:
  assumes "pages_change pm pm' w a (is_resolving pm) (writer pm)" and "pm_good pm"
  shows "pm_good pm'"
  using assms pages_changeD [OF assms(1)] unfolding pm_good_def later_def
  by (metis committable_kept)

lemma bit_pages_iff: "base_page r + i \<in> bit_pages r bits \<longleftrightarrow> i < REGION_PAGES \<and> bits i"
  by (auto simp: bit_pages_def base_page_def)

lemma bit_pages_base: "p \<in> bit_pages r bits \<Longrightarrow> base_page r \<le> p \<and> p < base_page r + REGION_PAGES"
  by (auto simp: bit_pages_def base_page_def)

lemma bit_pages_cong: "rg_addr r' = rg_addr r \<Longrightarrow> bit_pages r' bits = bit_pages r bits"
  by (simp add: bit_pages_def)

text \<open>Adding watchers for the bits \<open>d\<close> while the region goes from \<open>r\<close> to \<open>r'\<close>.\<close>

lemma region_watch:
  assumes inv: "region_inv mode ow oa X r pm" and good: "pm_good pm" and "\<not> pm_in_fault pm th"
    and placed: "region_placed r" and addr: "rg_addr r' = rg_addr r"
    and few: "few ow" "few oa"
    and zero: "\<not> (rg_addr r = 0 \<and> d 0)"
    and pages: "\<And>i. i < REGION_PAGES \<Longrightarrow> d i \<Longrightarrow> base_page r + i \<notin> X
      \<and> \<not> is_resolving pm (base_page r + i)"
    and bits: "\<And>i. i < REGION_PAGES \<Longrightarrow> bits_ok (rbits r' i)
      \<and> write_share mode (rbits r' i) = write_share mode (rbits r i)
          + (if wm = WatchWrite \<and> d i then 1 else 0)
      \<and> access_share mode (rbits r' i) = access_share mode (rbits r i)
          + (if wm = WatchReadWrite \<and> d i then 1 else 0)"
  shows "\<exists>pm'. ApplyGpuProtection th d True wm r' pm = Inr pm'
    \<and> region_inv mode ow oa X r' pm' \<and> outside_same X r pm pm'"
proof -
  have base: "base_page r' = base_page r" using addr by (simp add: base_page_def)
  have low: "watchers wm (pm_page pm p) < UINT32_MAX"
    if i: "i < REGION_PAGES" "p = base_page r + i" "p \<notin> X" for p i
  proof -
    have "wwatch pm p = ow p + write_share mode (rbits r i)"
      "awatch pm p = oa p + access_share mode (rbits r i)"
      using inv i by (auto simp: region_inv_def)
    moreover have "write_share mode (rbits r i) \<le> 2" "access_share mode (rbits r i) \<le> 1"
      by (auto simp: write_share_def access_share_def)
    moreover have "ow p \<le> 16" "oa p \<le> 16" using few by (simp_all add: few_def)
    ultimately show ?thesis by (cases wm) (auto simp: watchers_def UINT32_MAX_def)
  qed
  have "\<forall>p\<in>bit_pages r' d. \<not> is_resolving pm p \<and> watchers wm (pm_page pm p) < UINT32_MAX
      \<and> (watched (pm_page pm p) \<or> committable (pm_can_commit pm p) (pm_host pm p))"
  proof
    fix p assume "p \<in> bit_pages r' d"
    then obtain i where i: "i < REGION_PAGES" "d i" "p = base_page r + i"
      using base by (auto simp: bit_pages_def base_page_def)
    then show "\<not> is_resolving pm p \<and> watchers wm (pm_page pm p) < UINT32_MAX
      \<and> (watched (pm_page pm p) \<or> committable (pm_can_commit pm p) (pm_host pm p))"
      using pages [OF i(1,2)] low [OF i(1,3)] good by (auto simp: pm_good_def)
  qed
  moreover have "region_placed r'" "\<not> (rg_addr r' = 0 \<and> d 0)"
    using placed addr zero by (simp_all add: region_placed_def)
  moreover have "pm_ok pm" using good by (simp add: pm_good_def)
  ultimately obtain pm' where pm': "ApplyGpuProtection th d True wm r' pm = Inr pm'"
    "pages_change pm pm' (\<lambda>p. wwatch pm p + bump wm WatchWrite (bit_pages r' d) p)
        (\<lambda>p. awatch pm p + bump wm WatchReadWrite (bit_pages r' d) p)
        (is_resolving pm) (writer pm)"
    using watch_bits [of r' d pm th wm] assms(3) by blast
  note ch = pages_changeD [OF pm'(2)]
  have "region_inv mode ow oa X r' pm'"
    unfolding region_inv_def
  proof (intro allI impI conjI)
    fix i assume i: "i < REGION_PAGES"
    show "bits_ok (rbits r' i)" using bits [OF i] by simp
    assume X: "base_page r' + i \<notin> X"
    have in_d: "base_page r + i \<in> bit_pages r' d \<longleftrightarrow> d i"
      using bit_pages_iff [of r' i d] base i by simp
    show "wwatch pm' (base_page r' + i) = ow (base_page r' + i) + write_share mode (rbits r' i)"
      using inv i X bits [OF i] fun_cong [OF ch(3), of "base_page r + i"] in_d
      unfolding region_inv_def base by (auto simp: bump_def)
    show "awatch pm' (base_page r' + i) = oa (base_page r' + i) + access_share mode (rbits r' i)"
      using inv i X bits [OF i] fun_cong [OF ch(4), of "base_page r + i"] in_d
      unfolding region_inv_def base by (auto simp: bump_def)
  qed
  moreover have "outside_same X r pm pm'"
    unfolding outside_same_def
  proof (intro conjI allI impI)
    show "pm_good pm'" using pages_change_good [OF pm'(2) good] .
    fix p assume p: "p \<in> X \<or> \<not> (base_page r \<le> p \<and> p < base_page r + REGION_PAGES)"
    have "p \<notin> bit_pages r' d"
    proof
      assume "p \<in> bit_pages r' d"
      then obtain i where "i < REGION_PAGES" "d i" "p = base_page r + i"
        using base by (auto simp: bit_pages_def base_page_def)
      then show False using pages [of i] p by auto
    qed
    then show "wwatch pm' p = wwatch pm p" "awatch pm' p = awatch pm p"
      using fun_cong [OF ch(3), of p] fun_cong [OF ch(4), of p] by (simp_all add: bump_def)
  qed (use ch fun_cong [OF ch(5)] fun_cong [OF ch(6)] in simp_all)
  ultimately show ?thesis using pm'(1) by blast
qed

lemma region_unwatch:
  assumes inv: "region_inv mode ow oa X r pm" and good: "pm_good pm" and "\<not> pm_in_fault pm th"
    and placed: "region_placed r" and addr: "rg_addr r' = rg_addr r"
    and zero: "\<not> (rg_addr r = 0 \<and> d 0)"
    and pages: "\<And>i. i < REGION_PAGES \<Longrightarrow> d i \<Longrightarrow> base_page r + i \<notin> X
      \<and> (writer pm (base_page r + i) = 0 \<or> writer pm (base_page r + i) = th)"
    and bits: "\<And>i. i < REGION_PAGES \<Longrightarrow> bits_ok (rbits r' i)
      \<and> write_share mode (rbits r i) = write_share mode (rbits r' i)
          + (if wm = WatchWrite \<and> d i then 1 else 0)
      \<and> access_share mode (rbits r i) = access_share mode (rbits r' i)
          + (if wm = WatchReadWrite \<and> d i then 1 else 0)"
  shows "\<exists>pm'. ApplyGpuProtection th d False wm r' pm = Inr pm'
    \<and> region_inv mode ow oa X r' pm' \<and> outside_same X r pm pm'"
proof -
  have base: "base_page r' = base_page r" using addr by (simp add: base_page_def)
  have "\<forall>p\<in>bit_pages r' d. 0 < watchers wm (pm_page pm p) \<and> (writer pm p = 0 \<or> writer pm p = th)"
  proof
    fix p assume "p \<in> bit_pages r' d"
    then obtain i where i: "i < REGION_PAGES" "d i" "p = base_page r + i"
      using base by (auto simp: bit_pages_def base_page_def)
    have "wwatch pm p = ow p + write_share mode (rbits r i)"
      "awatch pm p = oa p + access_share mode (rbits r i)"
      using inv i pages [OF i(1,2)] by (auto simp: region_inv_def)
    then show "0 < watchers wm (pm_page pm p) \<and> (writer pm p = 0 \<or> writer pm p = th)"
      using pages [OF i(1,2)] bits [OF i(1)] i by (cases wm) (auto simp: watchers_def)
  qed
  moreover have "region_placed r'" "\<not> (rg_addr r' = 0 \<and> d 0)"
    using placed addr zero by (simp_all add: region_placed_def)
  moreover have "pm_ok pm" using good by (simp add: pm_good_def)
  ultimately obtain pm' where pm': "ApplyGpuProtection th d False wm r' pm = Inr pm'"
    "pages_change pm pm' (\<lambda>p. wwatch pm p - bump wm WatchWrite (bit_pages r' d) p)
        (\<lambda>p. awatch pm p - bump wm WatchReadWrite (bit_pages r' d) p)
        (is_resolving pm) (writer pm)"
    using unwatch_bits [of r' d pm th wm] assms(3) by blast
  note ch = pages_changeD [OF pm'(2)]
  have "region_inv mode ow oa X r' pm'"
    unfolding region_inv_def
  proof (intro allI impI conjI)
    fix i assume i: "i < REGION_PAGES"
    show "bits_ok (rbits r' i)" using bits [OF i] by simp
    assume X: "base_page r' + i \<notin> X"
    have in_d: "base_page r + i \<in> bit_pages r' d \<longleftrightarrow> d i"
      using bit_pages_iff [of r' i d] base i by simp
    show "wwatch pm' (base_page r' + i) = ow (base_page r' + i) + write_share mode (rbits r' i)"
      using inv i X bits [OF i] fun_cong [OF ch(3), of "base_page r + i"] in_d
      unfolding region_inv_def base by (auto simp: bump_def)
    show "awatch pm' (base_page r' + i) = oa (base_page r' + i) + access_share mode (rbits r' i)"
      using inv i X bits [OF i] fun_cong [OF ch(4), of "base_page r + i"] in_d
      unfolding region_inv_def base by (auto simp: bump_def)
  qed
  moreover have "outside_same X r pm pm'"
    unfolding outside_same_def
  proof (intro conjI allI impI)
    show "pm_good pm'" using pages_change_good [OF pm'(2) good] .
    fix p assume p: "p \<in> X \<or> \<not> (base_page r \<le> p \<and> p < base_page r + REGION_PAGES)"
    have "p \<notin> bit_pages r' d"
    proof
      assume "p \<in> bit_pages r' d"
      then obtain i where "i < REGION_PAGES" "d i" "p = base_page r + i"
        using base by (auto simp: bit_pages_def base_page_def)
      then show False using pages [of i] p by auto
    qed
    then show "wwatch pm' p = wwatch pm p" "awatch pm' p = awatch pm p"
      using fun_cong [OF ch(3), of p] fun_cong [OF ch(4), of p] by (simp_all add: bump_def)
  qed (use ch fun_cong [OF ch(5)] fun_cong [OF ch(6)] in simp_all)
  ultimately show ?thesis using pm'(1) by blast
qed

section \<open>The bodies of the loops over regions\<close>

lemma GetPageRange_bound:
  assumes "GetPageRange vaddr n r = Inr (s, e)"
  shows "s < e" and "e \<le> REGION_PAGES"
proof -
  have v: "rg_addr r \<le> vaddr" "0 < n" "vaddr - rg_addr r + n \<le> REGION_SIZE"
    and se: "s = (vaddr - rg_addr r) div PAGE_SIZE"
      "e = (vaddr - rg_addr r + n + PAGE_SIZE - 1) div PAGE_SIZE"
    using assms by (auto simp: GetPageRange_def Let_def split: if_splits)
  have "(vaddr - rg_addr r) div PAGE_SIZE < (vaddr - rg_addr r + PAGE_SIZE) div PAGE_SIZE"
    by (simp add: PAGE_SIZE_def)
  also have "\<dots> \<le> e" unfolding se using v(2) by (intro div_le_mono) simp
  finally show "s < e" unfolding se .
  have "e \<le> (REGION_SIZE + PAGE_SIZE - 1) div PAGE_SIZE"
    unfolding se using v(3) by (intro div_le_mono) simp
  also have "\<dots> = REGION_PAGES" by (simp add: REGION_SIZE_def PAGE_SIZE_def REGION_PAGES_def)
  finally show "e \<le> REGION_PAGES" .
qed

lemma GetPageRange_cong: "rg_addr u = rg_addr r \<Longrightarrow> GetPageRange v n u = GetPageRange v n r"
  by (simp add: GetPageRange_def)

definition region_pre :: "nat \<Rightarrow> watch_mode \<Rightarrow> (nat \<Rightarrow> nat) \<Rightarrow> (nat \<Rightarrow> nat) \<Rightarrow> nat set \<Rightarrow> region \<Rightarrow>
    page_manager \<Rightarrow> nat \<Rightarrow> nat \<Rightarrow> bool" where
  "region_pre th mode ow oa X r pm s e \<longleftrightarrow> region_inv mode ow oa X r pm \<and> pm_good pm
     \<and> \<not> pm_in_fault pm th \<and> region_placed r \<and> few ow \<and> few oa
     \<and> (\<forall>i. s \<le> i \<and> i < e \<longrightarrow> base_page r + i \<notin> X \<and> \<not> rg_pending r i)
     \<and> \<not> (rg_addr r = 0 \<and> s = 0)"

definition region_step :: "watch_mode \<Rightarrow> (nat \<Rightarrow> nat) \<Rightarrow> (nat \<Rightarrow> nat) \<Rightarrow> nat set \<Rightarrow> region \<Rightarrow>
    page_manager \<Rightarrow> nat \<Rightarrow> nat \<Rightarrow> (page_bits \<Rightarrow> page_bits) \<Rightarrow> region \<Rightarrow> page_manager \<Rightarrow> bool" where
  "region_step mode ow oa X r pm s e g r' pm' \<longleftrightarrow> rg_addr r' = rg_addr r
     \<and> (\<forall>i < REGION_PAGES. rbits r' i = (if s \<le> i \<and> i < e then g (rbits r i) else rbits r i))
     \<and> region_inv mode ow oa X r' pm' \<and> outside_same X r pm pm'"

definition own_cpu :: "page_bits \<Rightarrow> page_bits" where
  "own_cpu b = b\<lparr>b_cpu := True, b_writable := True\<rparr>"

definition own_gpu :: "page_bits \<Rightarrow> page_bits" where
  "own_gpu b = b\<lparr>b_gpu := True\<rparr>"

definition drop_gpu :: "page_bits \<Rightarrow> page_bits" where
  "drop_gpu b = b\<lparr>b_gpu := False\<rparr>"

definition forget :: "page_bits \<Rightarrow> page_bits" where
  "forget b = b\<lparr>b_cpu := True, b_writable := True, b_tracked := False\<rparr>"

definition clean :: "page_bits \<Rightarrow> page_bits" where
  "clean b = b\<lparr>b_cpu := False, b_writable := False, b_tracked := True\<rparr>"

named_theorems bits_simps \<open>unfolding bits, shares and changes of bits\<close>

declare rbits_def [bits_simps] bits_ok_def [bits_simps] write_share_def [bits_simps]
  access_share_def [bits_simps] own_cpu_def [bits_simps] own_gpu_def [bits_simps]
  drop_gpu_def [bits_simps] forget_def [bits_simps] clean_def [bits_simps]
  set_bits_def [bits_simps] xor_bits_def [bits_simps] GetBits_def [bits_simps]
  PutBits_def [bits_simps]

lemma region_inv_bits: "region_inv mode ow oa X r pm \<Longrightarrow> i < REGION_PAGES \<Longrightarrow> bits_ok (rbits r i)"
  by (simp add: region_inv_def)

lemma list_ex_upt: "list_ex P [s ..< e] \<longleftrightarrow> (\<exists>i. s \<le> i \<and> i < e \<and> P i)"
  by (auto simp: list_ex_iff)

lemma list_all_upt: "list_all P [s ..< e] \<longleftrightarrow> (\<forall>i. s \<le> i \<and> i < e \<longrightarrow> P i)"
  by (auto simp: list_all_iff)

lemma mark_cpu_region_spec:
  assumes range: "GetPageRange (rg_addr r + offset) bytes r = Inr (s, e)"
    and pre: "region_pre th mode ow oa X r pm s e"
    and own: "\<And>i. s \<le> i \<Longrightarrow> i < e \<Longrightarrow> \<not> rg_gpu r i
      \<and> (writer pm (base_page r + i) = 0 \<or> writer pm (base_page r + i) = th)"
  shows "\<exists>r' pm'. mark_cpu_region th r offset bytes pm = Inr (r', pm')
    \<and> region_step mode ow oa X r pm s e own_cpu r' pm'"
proof -
  note bound = GetPageRange_bound [OF range]
  have inv: "region_inv mode ow oa X r pm" using pre by (simp add: region_pre_def)
  let ?r = "r\<lparr>rg_cpu := set_bits s e True (rg_cpu r), rg_writable := set_bits s e True (rg_cpu r)\<rparr>"
  let ?d = "xor_bits (set_bits s e True (rg_cpu r)) (rg_writable r)"
  have state: "ChangeState CpuSide True (rg_addr r + offset) bytes r = Inr (?d, ?r)"
    using range pre own
    by (auto simp: ChangeState_def list_ex_upt region_pre_def GetBits_def PutBits_def Let_def)
  have d: "?d i \<longleftrightarrow> s \<le> i \<and> i < e \<and> \<not> rg_writable r i" if "i < REGION_PAGES" for i
    using region_inv_bits [OF inv that] by (auto simp: bits_simps)
  have "\<exists>pm'. ApplyGpuProtection th ?d False WatchWrite ?r pm = Inr pm'
    \<and> region_inv mode ow oa X ?r pm' \<and> outside_same X r pm pm'"
  proof (rule region_unwatch [OF inv])
    fix i assume i: "i < REGION_PAGES"
    show "bits_ok (rbits ?r i)
      \<and> write_share mode (rbits r i) = write_share mode (rbits ?r i)
          + (if WatchWrite = WatchWrite \<and> ?d i then 1 else 0)
      \<and> access_share mode (rbits r i) = access_share mode (rbits ?r i)
          + (if WatchWrite = WatchReadWrite \<and> ?d i then 1 else 0)"
      unfolding d [OF i] using region_inv_bits [OF inv i] own [of i] by (auto simp: bits_simps)
  next
    fix i assume i: "i < REGION_PAGES" "?d i"
    then have "s \<le> i" "i < e" using d [OF i(1)] by auto
    then show "base_page r + i \<notin> X
      \<and> (writer pm (base_page r + i) = 0 \<or> writer pm (base_page r + i) = th)"
      using pre own by (auto simp: region_pre_def)
  next
    show "\<not> (rg_addr r = 0 \<and> ?d 0)" using d [of 0] pre by (auto simp: region_pre_def REGION_PAGES_def)
  qed (use pre in \<open>simp_all add: region_pre_def\<close>)
  then obtain pm' where "ApplyGpuProtection th ?d False WatchWrite ?r pm = Inr pm'"
    "region_inv mode ow oa X ?r pm'" "outside_same X r pm pm'" by blast
  moreover have "rbits ?r i = (if s \<le> i \<and> i < e then own_cpu (rbits r i) else rbits r i)"
    if "i < REGION_PAGES" for i
    using region_inv_bits [OF inv that] by (auto simp: bits_simps)
  ultimately show ?thesis
    unfolding mark_cpu_region_def state region_step_def ApplyProtection_eq by auto
qed

lemma mark_gpu_region_spec:
  assumes range: "GetPageRange (rg_addr r + offset) bytes r = Inr (s, e)"
    and pre: "region_pre th mode ow oa X r pm s e"
    and own: "\<And>i. s \<le> i \<Longrightarrow> i < e \<Longrightarrow> \<not> rg_cpu r i \<and> \<not> is_resolving pm (base_page r + i)"
  shows "\<exists>r' pm'. mark_gpu_region th mode r offset bytes pm = Inr (r', pm')
    \<and> region_step mode ow oa X r pm s e own_gpu r' pm'"
proof -
  note bound = GetPageRange_bound [OF range]
  have inv: "region_inv mode ow oa X r pm" using pre by (simp add: region_pre_def)
  let ?r = "r\<lparr>rg_gpu := set_bits s e True (rg_gpu r)\<rparr>"
  let ?d = "xor_bits (rg_gpu r) (set_bits s e True (rg_gpu r))"
  have state: "ChangeState GpuSide True (rg_addr r + offset) bytes r = Inr (?d, ?r)"
    using range pre own
    by (auto simp: ChangeState_def list_ex_upt region_pre_def GetBits_def PutBits_def Let_def)
  have d: "?d i \<longleftrightarrow> s \<le> i \<and> i < e \<and> \<not> rg_gpu r i" for i by (auto simp: bits_simps)
  have "\<exists>pm'. ApplyGpuProtection th ?d True mode ?r pm = Inr pm'
    \<and> region_inv mode ow oa X ?r pm' \<and> outside_same X r pm pm'"
  proof (rule region_watch [OF inv])
    fix i assume i: "i < REGION_PAGES"
    show "bits_ok (rbits ?r i)
      \<and> write_share mode (rbits ?r i) = write_share mode (rbits r i)
          + (if mode = WatchWrite \<and> ?d i then 1 else 0)
      \<and> access_share mode (rbits ?r i) = access_share mode (rbits r i)
          + (if mode = WatchReadWrite \<and> ?d i then 1 else 0)"
      unfolding d using region_inv_bits [OF inv i] own [of i] by (auto simp: bits_simps)
  next
    fix i assume i: "i < REGION_PAGES" "?d i"
    then have "s \<le> i" "i < e" using d by auto
    then show "base_page r + i \<notin> X \<and> \<not> is_resolving pm (base_page r + i)"
      using pre own by (auto simp: region_pre_def)
  next
    show "\<not> (rg_addr r = 0 \<and> ?d 0)" using d [of 0] pre by (auto simp: region_pre_def)
  qed (use pre in \<open>simp_all add: region_pre_def\<close>)
  then obtain pm' where "ApplyGpuProtection th ?d True mode ?r pm = Inr pm'"
    "region_inv mode ow oa X ?r pm'" "outside_same X r pm pm'" by blast
  moreover have "rbits ?r i = (if s \<le> i \<and> i < e then own_gpu (rbits r i) else rbits r i)" for i
    by (auto simp: bits_simps)
  ultimately show ?thesis unfolding mark_gpu_region_def state region_step_def by auto
qed

text \<open>Dropping the GPU's ownership of a part \<open>D\<close> of the pages, as two operations do it.\<close>

lemma drop_gpu_step:
  assumes pre: "region_pre th mode ow oa X r pm s e"
    and own: "\<And>i. s \<le> i \<Longrightarrow> i < e \<Longrightarrow>
      writer pm (base_page r + i) = 0 \<or> writer pm (base_page r + i) = th"
    and d: "\<And>i. i < REGION_PAGES \<Longrightarrow> d i \<longleftrightarrow> s \<le> i \<and> i < e \<and> rg_gpu r i"
    and r': "r' = r\<lparr>rg_gpu := b\<rparr>" and b: "\<And>i. i < REGION_PAGES \<Longrightarrow> b i \<longleftrightarrow> rg_gpu r i \<and> \<not> (s \<le> i \<and> i < e)"
  shows "\<exists>pm'. ApplyGpuProtection th d False mode r' pm = Inr pm'
    \<and> region_step mode ow oa X r pm s e drop_gpu r' pm'"
proof -
  have inv: "region_inv mode ow oa X r pm" using pre by (simp add: region_pre_def)
  have "\<exists>pm'. ApplyGpuProtection th d False mode r' pm = Inr pm'
    \<and> region_inv mode ow oa X r' pm' \<and> outside_same X r pm pm'"
  proof (rule region_unwatch [OF inv])
    fix i assume i: "i < REGION_PAGES"
    show "bits_ok (rbits r' i)
      \<and> write_share mode (rbits r i) = write_share mode (rbits r' i)
          + (if mode = WatchWrite \<and> d i then 1 else 0)
      \<and> access_share mode (rbits r i) = access_share mode (rbits r' i)
          + (if mode = WatchReadWrite \<and> d i then 1 else 0)"
      using region_inv_bits [OF inv i] d [OF i] b [OF i] unfolding r' by (auto simp: bits_simps)
  next
    fix i assume i: "i < REGION_PAGES" "d i"
    then have "s \<le> i" "i < e" using d by auto
    then show "base_page r + i \<notin> X
      \<and> (writer pm (base_page r + i) = 0 \<or> writer pm (base_page r + i) = th)"
      using pre own by (auto simp: region_pre_def)
  next
    show "\<not> (rg_addr r = 0 \<and> d 0)" using d [of 0] pre by (auto simp: region_pre_def REGION_PAGES_def)
  qed (use pre r' in \<open>simp_all add: region_pre_def\<close>)
  moreover have "rbits r' i = (if s \<le> i \<and> i < e then drop_gpu (rbits r i) else rbits r i)"
    if "i < REGION_PAGES" for i using b [OF that] by (auto simp: bits_simps r')
  ultimately show ?thesis using r' unfolding region_step_def by auto
qed

lemma unmark_gpu_region_spec:
  assumes range: "GetPageRange (rg_addr r + offset) bytes r = Inr (s, e)"
    and pre: "region_pre th mode ow oa X r pm s e"
    and own: "\<And>i. s \<le> i \<Longrightarrow> i < e \<Longrightarrow> rg_gpu r i
      \<and> (writer pm (base_page r + i) = 0 \<or> writer pm (base_page r + i) = th)"
  shows "\<exists>r' pm'. unmark_gpu_region th mode r offset bytes pm = Inr (r', pm')
    \<and> region_step mode ow oa X r pm s e drop_gpu r' pm'"
proof -
  let ?b = "set_bits s e False (rg_gpu r)"
  have state: "ChangeState GpuSide False (rg_addr r + offset) bytes r
      = Inr (xor_bits (rg_gpu r) ?b, r\<lparr>rg_gpu := ?b\<rparr>)"
    using range by (simp add: ChangeState_def GetBits_def PutBits_def Let_def)
  have full: "IsFullyModified GpuSide offset bytes r = Inr True"
    using range own by (simp add: IsFullyModified_def GetBits_def list_all_upt)
  have "\<exists>pm'. ApplyGpuProtection th (xor_bits (rg_gpu r) ?b) False mode (r\<lparr>rg_gpu := ?b\<rparr>) pm = Inr pm'
    \<and> region_step mode ow oa X r pm s e drop_gpu (r\<lparr>rg_gpu := ?b\<rparr>) pm'"
    by (rule drop_gpu_step [OF pre, where b = ?b]) (use own in \<open>auto simp: bits_simps\<close>)
  then show ?thesis using state full by (auto simp: unmark_gpu_region_def)
qed

lemma download_region_spec:
  assumes range: "GetPageRange (rg_addr r + offset) bytes r = Inr (s, e)"
    and pre: "region_pre th mode ow oa X r pm s e"
    and own: "\<And>i. s \<le> i \<Longrightarrow> i < e \<Longrightarrow>
      writer pm (base_page r + i) = 0 \<or> writer pm (base_page r + i) = th"
  shows "\<exists>r' pm'. download_region th mode r offset bytes pm = Inr (r', pm')
    \<and> region_step mode ow oa X r pm s e drop_gpu r' pm'"
proof -
  let ?m = "\<lambda>i. s \<le> i \<and> i < e \<and> rg_gpu r i"
  let ?r = "r\<lparr>rg_gpu := (\<lambda>i. rg_gpu r i \<and> \<not> ?m i)\<rparr>"
  have state: "ForEachModifiedRange th GpuSide True (rg_addr r + offset) bytes (r, pm)
      = Inr (ForEachRange ?m ?r, ?m, ?r, pm)"
    using range by (simp add: ForEachModifiedRange_def GetBits_def PutBits_def Let_def)
  have "\<exists>pm'. ApplyGpuProtection th ?m False mode ?r pm = Inr pm'
    \<and> region_step mode ow oa X r pm s e drop_gpu ?r pm'"
    by (rule drop_gpu_step [OF pre, where b = "\<lambda>i. rg_gpu r i \<and> \<not> ?m i"]) (use own in auto)
  then show ?thesis using state by (auto simp: download_region_def)
qed

lemma untrack_region_spec:
  assumes range: "GetPageRange (rg_addr r + offset) bytes r = Inr (s, e)"
    and pre: "region_pre th mode ow oa X r pm s e"
    and own: "\<And>i. s \<le> i \<Longrightarrow> i < e \<Longrightarrow> \<not> rg_gpu r i
      \<and> (writer pm (base_page r + i) = 0 \<or> writer pm (base_page r + i) = th)"
  shows "\<exists>r' pm'. untrack_region th r offset bytes pm = Inr (r', pm')
    \<and> region_step mode ow oa X r pm s e forget r' pm'"
proof -
  obtain u pm' where u: "mark_cpu_region th r offset bytes pm = Inr (u, pm')"
    "region_step mode ow oa X r pm s e own_cpu u pm'"
    using mark_cpu_region_spec [OF range pre own] by blast
  then obtain changed where st: "ChangeState CpuSide True (rg_addr r + offset) bytes r = Inr (changed, u)"
    "ApplyProtection th changed False u pm = Inr pm'"
    by (auto simp: mark_cpu_region_def bindR_eq_Inr)
  have addr: "rg_addr u = rg_addr r" using u(2) by (simp add: region_step_def)
  then have range': "GetPageRange (rg_addr u + offset) bytes u = Inr (s, e)"
    using range GetPageRange_cong [of u r] by simp
  let ?u = "u\<lparr>rg_tracked := set_bits s e False (rg_tracked u)\<rparr>"
  have bits: "rbits ?u i = (if s \<le> i \<and> i < e then forget (rbits r i) else rbits r i)"
    if i: "i < REGION_PAGES" for i
  proof -
    have "rbits u i = (if s \<le> i \<and> i < e then own_cpu (rbits r i) else rbits r i)"
      using u(2) i by (simp add: region_step_def)
    then show ?thesis by (auto simp: bits_simps split: if_splits)
  qed
  have "region_inv mode ow oa X ?u pm'"
    unfolding region_inv_def
  proof (intro allI impI conjI)
    fix i assume i: "i < REGION_PAGES"
    have inv: "region_inv mode ow oa X u pm'" and inv0: "region_inv mode ow oa X r pm"
      using u(2) pre by (simp_all add: region_step_def region_pre_def)
    have ub: "rbits u i = (if s \<le> i \<and> i < e then own_cpu (rbits r i) else rbits r i)"
      using u(2) i by (simp add: region_step_def)
    show "bits_ok (rbits ?u i)"
      unfolding bits [OF i] using region_inv_bits [OF inv i] region_inv_bits [OF inv0 i] own [of i]
      by (auto simp: bits_simps)
    have "write_share mode (rbits ?u i) = write_share mode (rbits u i)"
      "access_share mode (rbits ?u i) = access_share mode (rbits u i)"
      by (auto simp: bits_simps)
    moreover have "base_page ?u = base_page u" by (simp add: base_page_def)
    moreover assume "base_page ?u + i \<notin> X"
    ultimately show "wwatch pm' (base_page ?u + i) = ow (base_page ?u + i) + write_share mode (rbits ?u i)"
      "awatch pm' (base_page ?u + i) = oa (base_page ?u + i) + access_share mode (rbits ?u i)"
      using inv i by (simp_all add: region_inv_def)
  qed
  then have "region_step mode ow oa X r pm s e forget ?u pm'"
    using u(2) bits addr by (simp add: region_step_def)
  moreover have "untrack_region th r offset bytes pm = Inr (?u, pm')"
    using st range' addr by (simp add: untrack_region_def Untrack_def)
  ultimately show ?thesis by blast
qed

lemma upload_region_spec:
  assumes range: "GetPageRange (rg_addr r + offset) bytes r = Inr (s, e)"
    and pre: "region_pre th mode ow oa X r pm s e"
    and own: "\<And>i. s \<le> i \<Longrightarrow> i < e \<Longrightarrow> \<not> is_resolving pm (base_page r + i)"
  shows "\<exists>r' pm'. upload_region th r offset bytes pm = Inr (r', pm')
    \<and> region_step mode ow oa X r pm s e clean r' pm'"
proof -
  have inv: "region_inv mode ow oa X r pm" using pre by (simp add: region_pre_def)
  let ?u = "r\<lparr>rg_tracked := set_bits s e True (rg_tracked r)\<rparr>"
  let ?m = "\<lambda>i. s \<le> i \<and> i < e \<and> rg_cpu r i \<and> \<not> rg_pending r i"
  let ?c = "\<lambda>i. rg_cpu r i \<and> \<not> ?m i"
  let ?r = "?u\<lparr>rg_cpu := ?c, rg_writable := ?c\<rparr>"
  let ?d = "xor_bits ?c (rg_writable r)"
  have d: "?d i \<longleftrightarrow> s \<le> i \<and> i < e \<and> rg_cpu r i" if "i < REGION_PAGES" for i
    using region_inv_bits [OF inv that] pre by (auto simp: bits_simps region_pre_def)
  have "\<exists>pm'. ApplyGpuProtection th ?d True WatchWrite ?r pm = Inr pm'
    \<and> region_inv mode ow oa X ?r pm' \<and> outside_same X r pm pm'"
  proof (rule region_watch [OF inv])
    fix i assume i: "i < REGION_PAGES"
    have np: "s \<le> i \<Longrightarrow> i < e \<Longrightarrow> \<not> rg_pending r i" using pre by (simp add: region_pre_def)
    show "bits_ok (rbits ?r i)
      \<and> write_share mode (rbits ?r i) = write_share mode (rbits r i)
          + (if WatchWrite = WatchWrite \<and> ?d i then 1 else 0)
      \<and> access_share mode (rbits ?r i) = access_share mode (rbits r i)
          + (if WatchWrite = WatchReadWrite \<and> ?d i then 1 else 0)"
      unfolding d [OF i] using region_inv_bits [OF inv i] np by (auto simp: bits_simps)
  next
    fix i assume i: "i < REGION_PAGES" "?d i"
    then have "s \<le> i" "i < e" using d by auto
    then show "base_page r + i \<notin> X \<and> \<not> is_resolving pm (base_page r + i)"
      using pre own by (auto simp: region_pre_def)
  next
    show "\<not> (rg_addr r = 0 \<and> ?d 0)" using d [of 0] pre by (auto simp: region_pre_def REGION_PAGES_def)
  qed (use pre in \<open>simp_all add: region_pre_def\<close>)
  then obtain pm' where pm': "ApplyGpuProtection th ?d True WatchWrite ?r pm = Inr pm'"
    "region_inv mode ow oa X ?r pm'" "outside_same X r pm pm'" by blast
  have run: "upload_region th r offset bytes pm = Inr (?r, pm')"
    using range pm'(1)
    by (simp add: upload_region_def Track_def ForEachModifiedRange_def GetBits_def PutBits_def Let_def
        ApplyProtection_eq GetPageRange_def split: if_splits)
  have "rbits ?r i = (if s \<le> i \<and> i < e then clean (rbits r i) else rbits r i)"
    if i: "i < REGION_PAGES" for i
  proof -
    have np: "s \<le> i \<Longrightarrow> i < e \<Longrightarrow> \<not> rg_pending r i" using pre by (simp add: region_pre_def)
    show ?thesis using region_inv_bits [OF inv i] np by (auto simp: bits_simps)
  qed
  then have "region_step mode ow oa X r pm s e clean ?r pm'"
    using pm' by (simp add: region_step_def)
  then show ?thesis using run by blast
qed

section \<open>The pieces of a range\<close>

fun chunk_ok :: "nat \<times> nat \<times> nat \<Rightarrow> bool" where
  "chunk_ok (index, offset, bytes) \<longleftrightarrow> 0 < bytes \<and> offset + bytes \<le> REGION_SIZE"

fun chunk_pages :: "nat \<times> nat \<times> nat \<Rightarrow> nat set" where
  "chunk_pages (index, offset, bytes) = {p. index * REGION_PAGES + offset div PAGE_SIZE \<le> p
     \<and> p < index * REGION_PAGES + (offset + bytes + PAGE_SIZE - 1) div PAGE_SIZE}"

lemma REGION_SIZE_eq: "REGION_SIZE = REGION_PAGES * PAGE_SIZE"
  by (simp add: REGION_SIZE_def REGION_PAGES_def PAGE_SIZE_def)

lemma chunk_pages_list:
  assumes "0 < bytes"
  shows "chunk_pages (index, offset, bytes) = set (page_list (index * REGION_SIZE + offset) bytes)"
proof -
  have a: "(index * REGION_SIZE + offset) div PAGE_SIZE = index * REGION_PAGES + offset div PAGE_SIZE"
    by (simp add: REGION_SIZE_eq PAGE_SIZE_def)
  have b: "index * REGION_SIZE + offset + bytes - 1 = index * REGION_SIZE + (offset + bytes - 1)"
    using assms by simp
  have c: "(index * REGION_SIZE + (offset + bytes - 1)) div PAGE_SIZE
      = index * REGION_PAGES + (offset + bytes - 1) div PAGE_SIZE"
    by (simp add: REGION_SIZE_eq PAGE_SIZE_def)
  have d: "offset + bytes + PAGE_SIZE - 1 = (offset + bytes - 1) + PAGE_SIZE" using assms by simp
  have "(offset + bytes + PAGE_SIZE - 1) div PAGE_SIZE = Suc ((offset + bytes - 1) div PAGE_SIZE)"
    unfolding d by (simp add: PAGE_SIZE_def)
  then show ?thesis unfolding set_page_list a b c by (auto simp: less_Suc_eq_le)
qed

lemma page_list_split:
  assumes "0 < k" and "0 < n" and "(a + k) mod PAGE_SIZE = 0"
  shows "set (page_list a k) \<union> set (page_list (a + k) n) = set (page_list a (k + n))"
    and "set (page_list a k) \<inter> set (page_list (a + k) n) = {}"
proof -
  obtain q where q: "a + k = q * PAGE_SIZE"
    using assms(3) by (metis mod_eq_0_iff_dvd dvd_def mult.commute)
  have "0 < q" using q assms(1) by (cases q) auto
  then have "(a + k - 1) div PAGE_SIZE = q - 1"
    unfolding q by (cases q) (simp_all add: PAGE_SIZE_def)
  moreover have "(a + k) div PAGE_SIZE = q" unfolding q by (simp add: PAGE_SIZE_def)
  moreover have "a div PAGE_SIZE \<le> q - 1"
    using calculation(1) assms(1) by (metis Nat.add_diff_assoc Suc_leI One_nat_def div_le_mono le_add1)
  moreover have "a + (k + n) - 1 = a + k + n - 1" by simp
  moreover have "q \<le> (a + k + n - 1) div PAGE_SIZE"
    using calculation(2) assms(2) by (metis Nat.add_diff_assoc Suc_leI One_nat_def div_le_mono le_add1)
  ultimately show "set (page_list a k) \<union> set (page_list (a + k) n) = set (page_list a (k + n))"
    "set (page_list a k) \<inter> set (page_list (a + k) n) = {}"
    using \<open>0 < q\<close> unfolding set_page_list by auto
qed

lemma chunks_spec:
  "offset < REGION_SIZE \<Longrightarrow>
     (\<forall>c\<in>set (chunks index offset remaining). chunk_ok c \<and> index \<le> fst c
        \<and> fst c * REGION_SIZE < index * REGION_SIZE + offset + remaining)
     \<and> sorted_wrt (\<lambda>a b. fst a < fst b) (chunks index offset remaining)
     \<and> (\<Union>c\<in>set (chunks index offset remaining). chunk_pages c)
        = (if remaining = 0 then {} else set (page_list (index * REGION_SIZE + offset) remaining))"
proof (induction index offset remaining rule: chunks.induct)
  case (1 index offset remaining)
  show ?case
  proof (cases "remaining = 0")
    case True
    then show ?thesis by (simp add: chunks.simps)
  next
    case False
    define bytes where "bytes = min (REGION_SIZE - offset) remaining"
    have b: "0 < bytes" "offset + bytes \<le> REGION_SIZE" "bytes \<le> remaining"
      using False "1.prems" by (auto simp: bytes_def)
    have eq: "chunks index offset remaining
        = (index, offset, bytes) # chunks (Suc index) 0 (remaining - bytes)"
      using False "1.prems" by (subst chunks.simps) (simp add: bytes_def Let_def)
    have "(0::nat) < REGION_SIZE" by (simp add: REGION_SIZE_def)
    then have IH: "(\<forall>c\<in>set (chunks (Suc index) 0 (remaining - bytes)). chunk_ok c \<and> Suc index \<le> fst c
        \<and> fst c * REGION_SIZE < Suc index * REGION_SIZE + 0 + (remaining - bytes))
     \<and> sorted_wrt (\<lambda>a b. fst a < fst b) (chunks (Suc index) 0 (remaining - bytes))
     \<and> (\<Union>c\<in>set (chunks (Suc index) 0 (remaining - bytes)). chunk_pages c)
        = (if remaining - bytes = 0 then {}
           else set (page_list (Suc index * REGION_SIZE + 0) (remaining - bytes)))"
      using "1.IH" [of bytes] False "1.prems" by (simp add: bytes_def)
    have full: "offset + bytes = REGION_SIZE" if "remaining - bytes \<noteq> 0"
      using that "1.prems" by (auto simp: bytes_def min_def split: if_splits)
    have union: "(\<Union>c\<in>set (chunks index offset remaining). chunk_pages c)
        = set (page_list (index * REGION_SIZE + offset) remaining)"
    proof (cases "remaining - bytes = 0")
      case True
      then have "remaining = bytes" using b(3) by simp
      then show ?thesis using IH eq True chunk_pages_list [OF b(1), of index offset] by simp
    next
      case False
      have pos: "index * REGION_SIZE + offset + bytes = Suc index * REGION_SIZE" using full [OF False] by simp
      then have "(index * REGION_SIZE + offset + bytes) mod PAGE_SIZE = 0"
        unfolding REGION_SIZE_eq mult.assoc [symmetric] by (simp only: mod_mult_self2_is_0)
      then have "set (page_list (index * REGION_SIZE + offset) bytes)
          \<union> set (page_list (index * REGION_SIZE + offset + bytes) (remaining - bytes))
          = set (page_list (index * REGION_SIZE + offset) (bytes + (remaining - bytes)))"
        using b(1) False by (intro page_list_split) simp_all
      then show ?thesis
        using IH eq False chunk_pages_list [OF b(1), of index offset] b(3) pos
        by (simp del: chunk_pages.simps mult_Suc)
    qed
    have "fst c * REGION_SIZE < index * REGION_SIZE + offset + remaining \<and> chunk_ok c \<and> index \<le> fst c"
      if c: "c \<in> set (chunks index offset remaining)" for c
    proof (cases "c = (index, offset, bytes)")
      case True
      then show ?thesis using b by simp
    next
      case False
      then have m: "c \<in> set (chunks (Suc index) 0 (remaining - bytes))" using c eq by simp
      then have ne: "remaining - bytes \<noteq> 0" by (auto simp: chunks.simps)
      have "fst c * REGION_SIZE < Suc index * REGION_SIZE + (remaining - bytes)"
        "chunk_ok c" "Suc index \<le> fst c" using IH m by auto
      then show ?thesis using full [OF ne] b(3) by simp
    qed
    moreover have "sorted_wrt (\<lambda>a b. fst a < fst b) (chunks index offset remaining)"
      using IH eq by (auto simp: less_eq_Suc_le)
    ultimately show ?thesis using union False by simp
  qed
qed

lemma range_chunks_spec:
  assumes "ValidRange vaddr n"
  shows "\<And>c. c \<in> set (range_chunks vaddr n) \<Longrightarrow> chunk_ok c \<and> fst c < REGION_COUNT"
    and "sorted_wrt (\<lambda>a b. fst a < fst b) (range_chunks vaddr n)"
    and "(\<Union>c\<in>set (range_chunks vaddr n). chunk_pages c) = set (page_list vaddr n)"
proof -
  have "vaddr mod REGION_SIZE < REGION_SIZE" by (simp add: REGION_SIZE_def)
  note spec = chunks_spec [OF this, of "vaddr div REGION_SIZE" n]
  have v: "vaddr div REGION_SIZE * REGION_SIZE + vaddr mod REGION_SIZE = vaddr" by simp
  have n: "n \<noteq> 0" "vaddr + n \<le> ADDRESS_SIZE" using assms by (auto simp: ValidRange_def)
  show "sorted_wrt (\<lambda>a b. fst a < fst b) (range_chunks vaddr n)"
    "(\<Union>c\<in>set (range_chunks vaddr n). chunk_pages c) = set (page_list vaddr n)"
    using spec n v by (simp_all add: range_chunks_def)
  show "chunk_ok c \<and> fst c < REGION_COUNT" if "c \<in> set (range_chunks vaddr n)" for c
  proof -
    have "chunk_ok c" "fst c * REGION_SIZE < ADDRESS_SIZE"
      using spec that n v by (auto simp: range_chunks_def)
    then show ?thesis by (simp add: REGION_COUNT_def REGION_SIZE_def ADDRESS_SIZE_def)
  qed
qed

end
