(* ===== verification/TrackerInvariant.thy ===== *)
theory TrackerInvariant
  imports MemoryTracker
begin

text \<open>
  The operations of \<open>MemoryTracker\<close> as functions on the bits of single pages, and the invariant
  that ties the bits of a tracker to the watchers of the page manager. \<open>ow\<close> and \<open>oa\<close> are the
  watchers the other trackers hold, \<open>X\<close> the pages a fault is being resolved on, which no
  other operation may touch meanwhile.
\<close>

section \<open>The bits of a tracker\<close>

definition tbits :: "tracker \<Rightarrow> nat \<Rightarrow> page_bits" where
  "tbits t p = (case tk_regions t (p div REGION_PAGES) of
     None \<Rightarrow> default_bits | Some r \<Rightarrow> rbits r (p mod REGION_PAGES))"

definition tk_ok :: "tracker \<Rightarrow> bool" where
  "tk_ok t \<longleftrightarrow> (\<forall>i r. tk_regions t i = Some r \<longrightarrow> rg_addr r = i * REGION_SIZE \<and> i < REGION_COUNT)"

definition tracker_inv :: "(nat \<Rightarrow> nat) \<Rightarrow> (nat \<Rightarrow> nat) \<Rightarrow> nat set \<Rightarrow> tracker \<Rightarrow> page_manager \<Rightarrow> bool" where
  "tracker_inv ow oa X t pm \<longleftrightarrow> tk_ok t \<and> (\<forall>p. bits_ok (tbits t p)
     \<and> (p \<notin> X \<longrightarrow> wwatch pm p = ow p + write_share (tk_mode t) (tbits t p)
               \<and> awatch pm p = oa p + access_share (tk_mode t) (tbits t p)))"

lemma tbits_region:
  "tk_regions t k = Some r \<Longrightarrow> i < REGION_PAGES \<Longrightarrow> tbits t (k * REGION_PAGES + i) = rbits r i"
  by (simp add: tbits_def)

lemma default_bits_region:
  "rbits \<lparr>rg_addr = a, rg_cpu = (\<lambda>_. True), rg_gpu = (\<lambda>_. False), rg_writable = (\<lambda>_. True),
     rg_pending = (\<lambda>_. False), rg_tracked = (\<lambda>_. False)\<rparr> i = default_bits"
  by (simp add: rbits_def default_bits_def)

lemma base_page_index: "rg_addr r = k * REGION_SIZE \<Longrightarrow> base_page r = k * REGION_PAGES"
  by (simp add: base_page_def REGION_SIZE_eq PAGE_SIZE_def)

lemma region_placed_index:
  "rg_addr r = k * REGION_SIZE \<Longrightarrow> k < REGION_COUNT \<Longrightarrow> region_placed r"
  by (simp add: region_placed_def REGION_COUNT_def REGION_SIZE_def ADDRESS_SIZE_def)

lemma tracker_region_inv:
  assumes "tracker_inv ow oa X t pm" and "tk_regions t k = Some r"
  shows "region_inv (tk_mode t) ow oa X r pm"
proof -
  have base: "base_page r = k * REGION_PAGES"
    using assms by (auto simp: tracker_inv_def tk_ok_def intro: base_page_index)
  show ?thesis
    unfolding region_inv_def base
  proof (intro allI impI conjI)
    fix i assume "i < REGION_PAGES"
    note b = tbits_region [OF assms(2) this]
    show "bits_ok (rbits r i)" using assms(1) b unfolding tracker_inv_def by metis
    assume "k * REGION_PAGES + i \<notin> X"
    then show "wwatch pm (k * REGION_PAGES + i)
        = ow (k * REGION_PAGES + i) + write_share (tk_mode t) (rbits r i)"
      "awatch pm (k * REGION_PAGES + i)
        = oa (k * REGION_PAGES + i) + access_share (tk_mode t) (rbits r i)"
      using assms(1) b unfolding tracker_inv_def by metis+
  qed
qed

section \<open>One region\<close>

text \<open>
  \<open>body_spec\<close>: the body \<open>f\<close> of a loop over regions replaces the bits of every page by \<open>g\<close> of
  them when \<open>Q\<close> holds of the page: its resolver flag, its backing writer and its bits.
\<close>

definition body_spec :: "nat \<Rightarrow> watch_mode \<Rightarrow>
    (region \<Rightarrow> nat \<Rightarrow> nat \<Rightarrow> page_manager \<Rightarrow> exit_reason + region \<times> page_manager) \<Rightarrow>
    (page_bits \<Rightarrow> page_bits) \<Rightarrow> (bool \<Rightarrow> nat \<Rightarrow> page_bits \<Rightarrow> bool) \<Rightarrow> bool" where
  "body_spec th mode f g Q \<longleftrightarrow> (\<forall>ow oa X r pm offset bytes s e.
     GetPageRange (rg_addr r + offset) bytes r = Inr (s, e) \<longrightarrow>
     region_pre th mode ow oa X r pm s e \<longrightarrow>
     (\<forall>i. s \<le> i \<and> i < e \<longrightarrow> Q (is_resolving pm (base_page r + i)) (writer pm (base_page r + i)) (rbits r i)) \<longrightarrow>
     (\<exists>r' pm'. f r offset bytes pm = Inr (r', pm') \<and> region_step mode ow oa X r pm s e g r' pm'))"

definition not_reserved :: "nat \<Rightarrow> nat \<Rightarrow> bool" where
  "not_reserved th w \<longleftrightarrow> w = 0 \<or> w = th"

lemma body_specs:
  "body_spec th mode (mark_cpu_region th) own_cpu (\<lambda>res w b. \<not> b_gpu b \<and> not_reserved th w)"
  "body_spec th mode (mark_gpu_region th mode) own_gpu (\<lambda>res w b. \<not> b_cpu b \<and> \<not> res)"
  "body_spec th mode (unmark_gpu_region th mode) drop_gpu (\<lambda>res w b. b_gpu b \<and> not_reserved th w)"
  "body_spec th mode (download_region th mode) drop_gpu (\<lambda>res w b. not_reserved th w)"
  "body_spec th mode (untrack_region th) forget (\<lambda>res w b. \<not> b_gpu b \<and> not_reserved th w)"
  "body_spec th mode (upload_region th) clean (\<lambda>res w b. \<not> res)"
  unfolding body_spec_def not_reserved_def
  using mark_cpu_region_spec mark_gpu_region_spec unmark_gpu_region_spec download_region_spec
    untrack_region_spec upload_region_spec
  by (auto simp: rbits_def)

text \<open>The effect of an operation on a set of pages of the tracker.\<close>

definition tracker_step :: "(nat \<Rightarrow> nat) \<Rightarrow> (nat \<Rightarrow> nat) \<Rightarrow> nat set \<Rightarrow> tracker \<times> page_manager \<Rightarrow>
    nat set \<Rightarrow> (page_bits \<Rightarrow> page_bits) \<Rightarrow> tracker \<times> page_manager \<Rightarrow> bool" where
  "tracker_step ow oa X s P g s' \<longleftrightarrow> (case s of (t, pm) \<Rightarrow> case s' of (t', pm') \<Rightarrow>
     tk_mode t' = tk_mode t
     \<and> (\<forall>p. tbits t' p = (if p \<in> P then g (tbits t p) else tbits t p))
     \<and> (\<forall>k. tk_regions t k \<noteq> None \<longrightarrow> tk_regions t' k \<noteq> None)
     \<and> tracker_inv ow oa X t' pm' \<and> pm_good pm' \<and> later pm pm'
     \<and> (\<forall>p. is_resolving pm' p = is_resolving pm p \<and> writer pm' p = writer pm p
           \<and> same_rest (pm_page pm p) (pm_page pm' p))
     \<and> (\<forall>p\<in>X. wwatch pm' p = wwatch pm p \<and> awatch pm' p = awatch pm p))"

lemma tracker_step_trans:
  assumes "tracker_step ow oa X s P g s'" and "tracker_step ow oa X s' R g s''"
    and "P \<inter> R = {}"
  shows "tracker_step ow oa X s (P \<union> R) g s''"
proof -
  obtain t pm t' pm' t'' pm'' where e: "s = (t, pm)" "s' = (t', pm')" "s'' = (t'', pm'')"
    by (metis surj_pair)
  have "tbits t'' p = (if p \<in> P \<union> R then g (tbits t p) else tbits t p)" for p
    using assms unfolding tracker_step_def e by (cases "p \<in> P"; cases "p \<in> R") auto
  moreover have "later pm pm''" using assms unfolding tracker_step_def e by (auto intro: later_trans)
  moreover have "same_rest (pm_page pm p) (pm_page pm'' p)" for p
    using assms unfolding tracker_step_def e same_rest_def by auto
  ultimately show ?thesis using assms unfolding tracker_step_def e by auto
qed

lemma region_to_tracker:
  assumes inv: "tracker_inv ow oa X t pm" and k: "k < REGION_COUNT" and addr: "rg_addr r = k * REGION_SIZE"
    and bits: "\<And>i. i < REGION_PAGES \<Longrightarrow> tbits t (k * REGION_PAGES + i) = rbits r i"
    and step: "region_step (tk_mode t) ow oa X r pm s e g r' pm'"
  shows "tracker_step ow oa X (t, pm) {p. k * REGION_PAGES + s \<le> p \<and> p < k * REGION_PAGES + e
      \<and> p < k * REGION_PAGES + REGION_PAGES} g (t\<lparr>tk_regions := (tk_regions t)(k \<mapsto> r')\<rparr>, pm')"
proof -
  let ?t = "t\<lparr>tk_regions := (tk_regions t)(k \<mapsto> r')\<rparr>"
  let ?P = "{p. k * REGION_PAGES + s \<le> p \<and> p < k * REGION_PAGES + e
      \<and> p < k * REGION_PAGES + REGION_PAGES}"
  have base: "base_page r = k * REGION_PAGES" "base_page r' = k * REGION_PAGES"
    using addr step by (auto simp: region_step_def intro: base_page_index)
  have inside: "tbits ?t (k * REGION_PAGES + i) = rbits r' i" if "i < REGION_PAGES" for i
    using that by (simp add: tbits_def)
  have outside: "tbits ?t p = tbits t p" if "p div REGION_PAGES \<noteq> k" for p
    using that by (simp add: tbits_def)
  have split: "\<exists>i < REGION_PAGES. p = k * REGION_PAGES + i" if "p div REGION_PAGES = k" for p
    using that by (intro exI [of _ "p mod REGION_PAGES"]) (auto simp: REGION_PAGES_def)
  have pages: "tbits ?t p = (if p \<in> ?P then g (tbits t p) else tbits t p)" for p
  proof (cases "p div REGION_PAGES = k")
    case True
    then obtain i where i: "i < REGION_PAGES" "p = k * REGION_PAGES + i" using split by blast
    have "rbits r' i = (if s \<le> i \<and> i < e then g (rbits r i) else rbits r i)"
      using step i(1) by (simp add: region_step_def)
    then show ?thesis using i inside [OF i(1)] bits [OF i(1)] by auto
  next
    case False
    then have "p \<notin> ?P" by (auto simp: REGION_PAGES_def)
    then show ?thesis unfolding if_not_P [OF \<open>p \<notin> ?P\<close>] by (intro outside False)
  qed
  have tk: "tk_ok ?t" using inv addr k step by (auto simp: tracker_inv_def tk_ok_def region_step_def)
  have "bits_ok (tbits ?t p) \<and> (p \<notin> X \<longrightarrow>
      wwatch pm' p = ow p + write_share (tk_mode t) (tbits ?t p)
      \<and> awatch pm' p = oa p + access_share (tk_mode t) (tbits ?t p))" for p
  proof (cases "p div REGION_PAGES = k")
    case True
    then obtain i where i: "i < REGION_PAGES" "p = k * REGION_PAGES + i" using split by blast
    then show ?thesis
      using step inside [OF i(1)] base unfolding region_step_def region_inv_def by auto
  next
    case False
    then have "\<not> (base_page r \<le> p \<and> p < base_page r + REGION_PAGES)"
      unfolding base by (auto simp: REGION_PAGES_def)
    then have "wwatch pm' p = wwatch pm p" "awatch pm' p = awatch pm p"
      using step by (simp_all add: region_step_def outside_same_def)
    then show ?thesis using inv outside [OF False] by (simp add: tracker_inv_def)
  qed
  then have "tracker_inv ow oa X ?t pm'" using tk by (simp add: tracker_inv_def)
  then show ?thesis
    using pages step unfolding tracker_step_def region_step_def outside_same_def by auto
qed

section \<open>All regions of a range\<close>

text \<open>What every operation on a range needs of the state.\<close>

definition ready :: "nat \<Rightarrow> (nat \<Rightarrow> nat) \<Rightarrow> (nat \<Rightarrow> nat) \<Rightarrow> nat set \<Rightarrow> tracker \<Rightarrow> page_manager \<Rightarrow> bool" where
  "ready th ow oa X t pm \<longleftrightarrow> tracker_inv ow oa X t pm \<and> pm_good pm \<and> \<not> pm_in_fault pm th
     \<and> few ow \<and> few oa"

lemma ready_step:
  assumes "ready th ow oa X t pm" and "tracker_step ow oa X (t, pm) P g (t', pm')"
  shows "ready th ow oa X t' pm'"
  using assms by (auto simp: ready_def tracker_step_def later_def)

lemma step_refl:
  assumes "ready th ow oa X t pm" and "\<And>p. p \<in> P \<Longrightarrow> g (tbits t p) = tbits t p"
  shows "tracker_step ow oa X (t, pm) P g (t, pm)"
  using assms by (auto simp: ready_def tracker_step_def same_rest_def)

definition pages_ready :: "nat set \<Rightarrow> nat set \<Rightarrow> (bool \<Rightarrow> nat \<Rightarrow> page_bits \<Rightarrow> bool) \<Rightarrow>
    tracker \<Rightarrow> page_manager \<Rightarrow> bool" where
  "pages_ready X P Q t pm \<longleftrightarrow> 0 \<notin> P \<and> P \<inter> X = {} \<and> (\<forall>p\<in>P. \<not> b_pending (tbits t p)
     \<and> Q (is_resolving pm p) (writer pm p) (tbits t p))"

lemma chunk_pages_region:
  assumes "chunk_ok (k, offset, bytes)" and "rg_addr r = k * REGION_SIZE"
  obtains s e where "GetPageRange (rg_addr r + offset) bytes r = Inr (s, e)" "e \<le> REGION_PAGES"
    "chunk_pages (k, offset, bytes) = {p. k * REGION_PAGES + s \<le> p \<and> p < k * REGION_PAGES + e
      \<and> p < k * REGION_PAGES + REGION_PAGES}"
proof -
  have range: "GetPageRange (rg_addr r + offset) bytes r
      = Inr (offset div PAGE_SIZE, (offset + bytes + PAGE_SIZE - 1) div PAGE_SIZE)"
    using assms by (auto simp: GetPageRange_def)
  note bound = GetPageRange_bound [OF range]
  show ?thesis
  proof (rule that [OF range bound(2)])
    show "chunk_pages (k, offset, bytes) = {p. k * REGION_PAGES + offset div PAGE_SIZE \<le> p
        \<and> p < k * REGION_PAGES + (offset + bytes + PAGE_SIZE - 1) div PAGE_SIZE
        \<and> p < k * REGION_PAGES + REGION_PAGES}"
      using bound(2) by auto
  qed
qed

lemma chunk_pages_div:
  assumes "chunk_ok c" and "p \<in> chunk_pages c"
  shows "p div REGION_PAGES = fst c"
proof -
  obtain k offset bytes where c: "c = (k, offset, bytes)" by (cases c)
  have "(offset + bytes + PAGE_SIZE - 1) div PAGE_SIZE \<le> (REGION_SIZE + PAGE_SIZE - 1) div PAGE_SIZE"
    using assms(1) c by (intro div_le_mono diff_le_mono add_le_mono) simp_all
  also have "\<dots> = REGION_PAGES" by (simp add: REGION_SIZE_def PAGE_SIZE_def REGION_PAGES_def)
  finally have "k * REGION_PAGES \<le> p \<and> p < k * REGION_PAGES + REGION_PAGES"
    using assms(2) c by auto
  then show ?thesis using c by (auto simp: REGION_PAGES_def)
qed

lemma on_region_some:
  assumes spec: "body_spec th (tk_mode t) f g Q" and rdy: "ready th ow oa X t pm"
    and ok: "chunk_ok (k, offset, bytes)" and k: "k < REGION_COUNT"
    and addr: "rg_addr r = k * REGION_SIZE"
    and bits: "\<And>i. i < REGION_PAGES \<Longrightarrow> tbits t (k * REGION_PAGES + i) = rbits r i"
    and pages: "pages_ready X (chunk_pages (k, offset, bytes)) Q t pm"
  shows "\<exists>r' pm'. f r offset bytes pm = Inr (r', pm')
    \<and> tracker_step ow oa X (t, pm) (chunk_pages (k, offset, bytes)) g
        (t\<lparr>tk_regions := (tk_regions t)(k \<mapsto> r')\<rparr>, pm')"
proof -
  obtain s e where se: "GetPageRange (rg_addr r + offset) bytes r = Inr (s, e)" "e \<le> REGION_PAGES"
    "chunk_pages (k, offset, bytes) = {p. k * REGION_PAGES + s \<le> p \<and> p < k * REGION_PAGES + e
      \<and> p < k * REGION_PAGES + REGION_PAGES}"
    using chunk_pages_region [OF ok addr] by blast
  note bound = GetPageRange_bound [OF se(1)]
  have base: "base_page r = k * REGION_PAGES" using addr by (rule base_page_index)
  have inv: "tracker_inv ow oa X t pm" using rdy by (simp add: ready_def)
  have "region_inv (tk_mode t) ow oa X r pm"
    unfolding region_inv_def base
  proof (intro allI impI conjI)
    fix i assume i: "i < REGION_PAGES"
    show "bits_ok (rbits r i)" using inv bits [OF i] unfolding tracker_inv_def by metis
    assume "k * REGION_PAGES + i \<notin> X"
    then show "wwatch pm (k * REGION_PAGES + i)
        = ow (k * REGION_PAGES + i) + write_share (tk_mode t) (rbits r i)"
      "awatch pm (k * REGION_PAGES + i)
        = oa (k * REGION_PAGES + i) + access_share (tk_mode t) (rbits r i)"
      using inv bits [OF i] unfolding tracker_inv_def by metis+
  qed
  moreover have in_chunk: "k * REGION_PAGES + i \<in> chunk_pages (k, offset, bytes) \<and> i < REGION_PAGES"
    if "s \<le> i" "i < e" for i
    using that se(2,3) by simp
  have "\<not> rg_pending r i \<and> base_page r + i \<notin> X" if i: "s \<le> i" "i < e" for i
  proof -
    have "\<not> b_pending (tbits t (k * REGION_PAGES + i))" "k * REGION_PAGES + i \<notin> X"
      using pages in_chunk [OF i] unfolding pages_ready_def by blast+
    then show ?thesis using bits [of i] in_chunk [OF i] base by (simp add: rbits_def)
  qed
  moreover have "\<not> (rg_addr r = 0 \<and> s = 0)"
  proof
    assume z: "rg_addr r = 0 \<and> s = 0"
    then have "k = 0" using addr by (simp add: REGION_SIZE_def)
    then have "0 \<in> chunk_pages (k, offset, bytes)" using in_chunk [of 0] z bound(1) by simp
    then show False using pages by (simp add: pages_ready_def)
  qed
  ultimately have pre: "region_pre th (tk_mode t) ow oa X r pm s e"
    using rdy region_placed_index [OF addr k] by (simp add: region_pre_def ready_def)
  have "Q (is_resolving pm (base_page r + i)) (writer pm (base_page r + i)) (rbits r i)"
    if i: "s \<le> i" "i < e" for i
    using pages in_chunk [OF i] bits [of i] unfolding pages_ready_def base by metis
  then obtain r' pm' where f: "f r offset bytes pm = Inr (r', pm')"
    "region_step (tk_mode t) ow oa X r pm s e g r' pm'"
    using spec se(1) pre unfolding body_spec_def by blast
  show ?thesis using f region_to_tracker [OF inv k addr bits f(2)] se(3) by auto
qed

lemma on_region_spec:
  assumes spec: "body_spec th (tk_mode t) f g Q" and rdy: "ready th ow oa X t pm"
    and ok: "chunk_ok c" and k: "fst c < REGION_COUNT"
    and pages: "pages_ready X (chunk_pages c) Q t pm"
    and reg: "create \<or> tk_regions t (fst c) \<noteq> None \<or> g default_bits = default_bits"
  shows "\<exists>t' pm'. on_region create f c (t, pm) = Inr (t', pm')
    \<and> tracker_step ow oa X (t, pm) (chunk_pages c) g (t', pm')"
proof -
  obtain k offset bytes where c: "c = (k, offset, bytes)" by (cases c)
  show ?thesis
  proof (cases "tk_regions t k")
    case (Some r)
    have addr: "rg_addr r = k * REGION_SIZE"
      using rdy Some by (auto simp: ready_def tracker_inv_def tk_ok_def)
    have bits: "tbits t (k * REGION_PAGES + i) = rbits r i" if "i < REGION_PAGES" for i
      using Some that by (rule tbits_region)
    have "\<exists>r' pm'. f r offset bytes pm = Inr (r', pm')
        \<and> tracker_step ow oa X (t, pm) (chunk_pages (k, offset, bytes)) g
            (t\<lparr>tk_regions := (tk_regions t)(k \<mapsto> r')\<rparr>, pm')"
      by (rule on_region_some [OF spec rdy _ _ addr bits]) (use ok k pages c in \<open>simp_all del: chunk_pages.simps\<close>)
    then show ?thesis using Some unfolding c by (auto simp: on_region_def TrackerRegion_def simp del: chunk_pages.simps)
  next
    case None
    show ?thesis
    proof (cases create)
      case True
      let ?r = "\<lparr>rg_addr = k * REGION_SIZE, rg_cpu = (\<lambda>_. True), rg_gpu = (\<lambda>_. False),
        rg_writable = (\<lambda>_. True), rg_pending = (\<lambda>_. False), rg_tracked = (\<lambda>_. False)\<rparr>"
      have new: "new_region (k * REGION_SIZE) = Inr ?r" by (simp add: new_region_def)
      have "tbits t (k * REGION_PAGES + i) = rbits ?r i" if "i < REGION_PAGES" for i
        unfolding default_bits_region using None that by (simp add: tbits_def)
      then have "\<exists>r' pm'. f ?r offset bytes pm = Inr (r', pm')
        \<and> tracker_step ow oa X (t, pm) (chunk_pages (k, offset, bytes)) g
            (t\<lparr>tk_regions := (tk_regions t)(k \<mapsto> r')\<rparr>, pm')"
        by (intro on_region_some [OF spec rdy, where r = ?r]) (use ok k pages c in \<open>simp_all del: chunk_pages.simps\<close>)
      then show ?thesis using None True new unfolding c
        by (auto simp: on_region_def TrackerRegion_def simp del: chunk_pages.simps)
    next
      case False
      then have g: "g default_bits = default_bits" using reg None c by simp
      have "tbits t p = default_bits" if p: "p \<in> chunk_pages c" for p
        using chunk_pages_div [OF ok p] None c by (simp add: tbits_def)
      then have "tracker_step ow oa X (t, pm) (chunk_pages c) g (t, pm)"
        using g by (intro step_refl [OF rdy]) simp
      then show ?thesis using None c False by (simp add: on_region_def TrackerRegion_def del: chunk_pages.simps)
    qed
  qed
qed

lemma pages_ready_step:
  assumes "pages_ready X R Q t pm" and "tracker_step ow oa X (t, pm) P g (t', pm')" and "P \<inter> R = {}"
  shows "pages_ready X R Q t' pm'"
proof -
  have "tbits t' p = tbits t p" "is_resolving pm' p = is_resolving pm p" "writer pm' p = writer pm p"
    if p: "p \<in> R" for p
  proof -
    have "p \<notin> P" using p assms(3) by blast
    then show "tbits t' p = tbits t p" "is_resolving pm' p = is_resolving pm p"
      "writer pm' p = writer pm p"
      using assms(2) by (simp_all add: tracker_step_def)
  qed
  then show ?thesis using assms(1) by (simp add: pages_ready_def)
qed

lemma chunks_loop:
  assumes "body_spec th mode f g Q"
    and "sorted_wrt (\<lambda>a b. fst a < fst b) cs"
    and "\<And>c. c \<in> set cs \<Longrightarrow> chunk_ok c \<and> fst c < REGION_COUNT"
    and "tk_mode t = mode" and "ready th ow oa X t pm"
    and "pages_ready X (\<Union>c\<in>set cs. chunk_pages c) Q t pm"
    and "create \<or> (\<forall>c\<in>set cs. tk_regions t (fst c) \<noteq> None) \<or> g default_bits = default_bits"
  shows "\<exists>t' pm'. foldR (on_region create f) cs (t, pm) = Inr (t', pm')
    \<and> tracker_step ow oa X (t, pm) (\<Union>c\<in>set cs. chunk_pages c) g (t', pm')"
  using assms(2-)
proof (induction cs arbitrary: t pm)
  case Nil
  then show ?case using step_refl [of th ow oa X t pm "{}" g] by simp
next
  case (Cons c cs)
  have disj: "chunk_pages c \<inter> (\<Union>c\<in>set cs. chunk_pages c) = {}"
  proof -
    have "fst c \<noteq> fst d" if "d \<in> set cs" for d using Cons.prems(1) that by auto
    then show ?thesis using chunk_pages_div Cons.prems(2) by (metis (no_types, lifting) UN_E disjoint_iff
      list.set_intros(1,2))
  qed
  have "chunk_ok c" "fst c < REGION_COUNT" using Cons.prems(2) by simp_all
  moreover have "pages_ready X (chunk_pages c) Q t pm"
    using Cons.prems(5) unfolding pages_ready_def by auto
  moreover have "create \<or> tk_regions t (fst c) \<noteq> None \<or> g default_bits = default_bits"
    using Cons.prems(6) by auto
  ultimately obtain t1 pm1 where s1: "on_region create f c (t, pm) = Inr (t1, pm1)"
    "tracker_step ow oa X (t, pm) (chunk_pages c) g (t1, pm1)"
    using on_region_spec [OF assms(1) [folded Cons.prems(3)] Cons.prems(4)] by blast
  have "tk_mode t1 = mode" "\<And>k. tk_regions t k \<noteq> None \<Longrightarrow> tk_regions t1 k \<noteq> None"
    using s1(2) Cons.prems(3) by (simp_all add: tracker_step_def)
  moreover have "pages_ready X (\<Union>c\<in>set cs. chunk_pages c) Q t1 pm1"
  proof (rule pages_ready_step [OF _ s1(2) disj])
    show "pages_ready X (\<Union>c\<in>set cs. chunk_pages c) Q t pm"
      using Cons.prems(5) unfolding pages_ready_def by auto
  qed
  ultimately obtain t2 pm2 where s2: "foldR (on_region create f) cs (t1, pm1) = Inr (t2, pm2)"
    "tracker_step ow oa X (t1, pm1) (\<Union>c\<in>set cs. chunk_pages c) g (t2, pm2)"
    using Cons.IH [of t1 pm1] Cons.prems(1,2,6) ready_step [OF Cons.prems(4) s1(2)]
    by (metis (no_types, lifting) list.set_intros(2) sorted_wrt.simps(2))
  show ?case using s1(1) s2(1) tracker_step_trans [OF s1(2) s2(2) disj] by simp
qed

lemma Iterate_spec:
  assumes "body_spec th mode f g Q" and "tk_mode t = mode"
    and "ValidRange vaddr n" and "ready th ow oa X t pm"
    and "pages_ready X (set (page_list vaddr n)) Q t pm"
    and "create \<or> (\<forall>c\<in>set (range_chunks vaddr n). tk_regions t (fst c) \<noteq> None)
      \<or> g default_bits = default_bits"
  shows "\<exists>t' pm'. Iterate create f vaddr n (t, pm) = Inr (t', pm')
    \<and> tracker_step ow oa X (t, pm) (set (page_list vaddr n)) g (t', pm')"
  using chunks_loop [OF assms(1) range_chunks_spec(2) [OF assms(3)] range_chunks_spec(1) [OF assms(3)]
      assms(2,4), of create] assms(3,5,6) range_chunks_spec(3) [OF assms(3)]
  by (simp add: Iterate_def)

section \<open>The operations of a tracker\<close>

lemma RequireMapped_ready: "ready th ow oa X t pm \<Longrightarrow> ValidRange vaddr n \<Longrightarrow>
    RequireMapped th vaddr n pm = Inr ()"
  by (simp add: RequireMapped_def ready_def IsMapped_def)

lemma MarkRegionAsCpuModified_spec:
  assumes "ready th ow oa X t pm" and "ValidRange vaddr n"
    and "pages_ready X (set (page_list vaddr n)) (\<lambda>res w b. \<not> b_gpu b \<and> not_reserved th w) t pm"
  shows "\<exists>t' pm'. MarkRegionAsCpuModified th vaddr n (t, pm) = Inr (t', pm')
    \<and> tracker_step ow oa X (t, pm) (set (page_list vaddr n)) own_cpu (t', pm')"
  using Iterate_spec [OF body_specs(1) refl assms(2,1,3), of True] RequireMapped_ready [OF assms(1,2)]
  by (simp add: MarkRegionAsCpuModified_def)

lemma MarkRegionAsGpuModified_spec:
  assumes "ready th ow oa X t pm" and "ValidRange vaddr n"
    and "pages_ready X (set (page_list vaddr n)) (\<lambda>res w b. \<not> b_cpu b \<and> \<not> res) t pm"
  shows "\<exists>t' pm'. MarkRegionAsGpuModified th vaddr n (t, pm) = Inr (t', pm')
    \<and> tracker_step ow oa X (t, pm) (set (page_list vaddr n)) own_gpu (t', pm')"
  using Iterate_spec [OF body_specs(2) refl assms(2,1,3), of True] RequireMapped_ready [OF assms(1,2)]
  by (simp add: MarkRegionAsGpuModified_def)

lemma UnmarkRegionAsGpuModified_spec:
  assumes "ready th ow oa X t pm" and "ValidRange vaddr n"
    and "pages_ready X (set (page_list vaddr n)) (\<lambda>res w b. b_gpu b \<and> not_reserved th w) t pm"
  shows "\<exists>t' pm'. UnmarkRegionAsGpuModified th vaddr n (t, pm) = Inr (t', pm')
    \<and> tracker_step ow oa X (t, pm) (set (page_list vaddr n)) drop_gpu (t', pm')"
  using Iterate_spec [OF body_specs(3) refl assms(2,1,3), of True] RequireMapped_ready [OF assms(1,2)]
  by (simp add: UnmarkRegionAsGpuModified_def)

definition src_bit :: "dirty_source \<Rightarrow> page_bits \<Rightarrow> bool" where
  "src_bit src b = (case src of CpuSide \<Rightarrow> b_cpu b | GpuSide \<Rightarrow> b_gpu b)"

lemma IsModified_chunk:
  assumes "chunk_ok (k, offset, bytes)" and "rg_addr r = k * REGION_SIZE"
    and "\<And>i. i < REGION_PAGES \<Longrightarrow> tbits t (k * REGION_PAGES + i) = rbits r i"
  shows "IsModified src offset bytes r
    = Inr (\<exists>p\<in>chunk_pages (k, offset, bytes). src_bit src (tbits t p))"
proof -
  obtain s e where se: "GetPageRange (rg_addr r + offset) bytes r = Inr (s, e)" "e \<le> REGION_PAGES"
    "chunk_pages (k, offset, bytes) = {p. k * REGION_PAGES + s \<le> p \<and> p < k * REGION_PAGES + e
      \<and> p < k * REGION_PAGES + REGION_PAGES}"
    using chunk_pages_region [OF assms(1,2)] by blast
  have bit: "GetBits src r i = src_bit src (tbits t (k * REGION_PAGES + i))" if "i < REGION_PAGES" for i
    using assms(3) [OF that] by (cases src) (simp_all add: GetBits_def src_bit_def rbits_def)
  have "(\<exists>i. s \<le> i \<and> i < e \<and> GetBits src r i)
      \<longleftrightarrow> (\<exists>p\<in>chunk_pages (k, offset, bytes). src_bit src (tbits t p))" (is "?L \<longleftrightarrow> ?R")
  proof
    assume ?L
    then obtain i where i: "s \<le> i" "i < e" "GetBits src r i" by blast
    then have "k * REGION_PAGES + i \<in> chunk_pages (k, offset, bytes)" using se(2,3) by simp
    moreover have "src_bit src (tbits t (k * REGION_PAGES + i))" using i bit [of i] se(2) by simp
    ultimately show ?R by blast
  next
    assume ?R
    then obtain p where p: "k * REGION_PAGES + s \<le> p" "p < k * REGION_PAGES + e" "src_bit src (tbits t p)"
      using se(3) by auto
    then have "s \<le> p - k * REGION_PAGES" "p - k * REGION_PAGES < e"
      "k * REGION_PAGES + (p - k * REGION_PAGES) = p" by simp_all
    then show ?L using p(3) bit [of "p - k * REGION_PAGES"] se(2) by auto
  qed
  then show ?thesis using se(1) by (simp add: IsModified_def list_ex_upt)
qed

lemma any_chunk_spec:
  assumes "tk_ok t" and "\<And>c. c \<in> set cs \<Longrightarrow> chunk_ok c \<and> fst c < REGION_COUNT"
    and "create \<or> src = GpuSide"
  shows "\<exists>t'. any_chunk create (\<lambda>r offset bytes. IsModified src offset bytes r) cs t
      = Inr (\<exists>p\<in>(\<Union>c\<in>set cs. chunk_pages c). src_bit src (tbits t p), t')
    \<and> tbits t' = tbits t \<and> tk_ok t' \<and> tk_mode t' = tk_mode t \<and> (\<not> create \<longrightarrow> t' = t)"
  using assms(1,2)
proof (induction cs arbitrary: t)
  case (Cons c cs)
  obtain k offset bytes where c: "c = (k, offset, bytes)" by (cases c)
  have ok: "chunk_ok (k, offset, bytes)" "k < REGION_COUNT" using Cons.prems(2) [of c] c by simp_all
  have rest: "\<And>d. d \<in> set cs \<Longrightarrow> chunk_ok d \<and> fst d < REGION_COUNT" using Cons.prems(2) by simp
  let ?q = "\<lambda>r offset bytes. IsModified src offset bytes r"
  consider (some) r where "TrackerRegion create k t = Inr (Some r)" "rg_addr r = k * REGION_SIZE"
      "\<And>i. i < REGION_PAGES \<Longrightarrow> tbits t (k * REGION_PAGES + i) = rbits r i"
      "\<not> create \<Longrightarrow> tk_regions t k = Some r"
    | (none) "TrackerRegion create k t = Inr None" "tk_regions t k = None" "src = GpuSide"
  proof (cases "tk_regions t k")
    case (Some r)
    moreover have "rg_addr r = k * REGION_SIZE" using Cons.prems(1) Some by (simp add: tk_ok_def)
    ultimately show thesis
      using that(1) [of r] tbits_region [OF Some] by (simp add: TrackerRegion_def)
  next
    case None
    show thesis
    proof (cases create)
      case True
      let ?r = "\<lparr>rg_addr = k * REGION_SIZE, rg_cpu = (\<lambda>_. True), rg_gpu = (\<lambda>_. False),
        rg_writable = (\<lambda>_. True), rg_pending = (\<lambda>_. False), rg_tracked = (\<lambda>_. False)\<rparr>"
      have "tbits t (k * REGION_PAGES + i) = rbits ?r i" if "i < REGION_PAGES" for i
        unfolding default_bits_region using None that by (simp add: tbits_def)
      then show thesis using that(1) [of ?r] None True by (simp add: TrackerRegion_def new_region_def)
    next
      case False
      then show thesis using that(2) None assms(3) by (simp add: TrackerRegion_def)
    qed
  qed
  then show ?case
  proof cases
    case (some r)
    let ?t = "t\<lparr>tk_regions := (tk_regions t)(k \<mapsto> r)\<rparr>"
    have same: "tbits ?t = tbits t"
    proof
      fix p
      show "tbits ?t p = tbits t p"
      proof (cases "p div REGION_PAGES = k")
        case True
        have "p mod REGION_PAGES < REGION_PAGES" by (simp add: REGION_PAGES_def)
        moreover have "k * REGION_PAGES + p mod REGION_PAGES = p" using True by auto
        ultimately show ?thesis using some(3) [of "p mod REGION_PAGES"] True by (simp add: tbits_def)
      qed (simp add: tbits_def)
    qed
    have tk: "tk_ok ?t" using Cons.prems(1) some(2) ok(2) by (simp add: tk_ok_def)
    have triv: "\<not> create \<Longrightarrow> ?t = t" using some(4) by (simp add: fun_upd_idem)
    have q: "IsModified src offset bytes r = Inr (\<exists>p\<in>chunk_pages (k, offset, bytes). src_bit src (tbits t p))"
      using ok(1) some(2,3) by (rule IsModified_chunk)
    obtain t' where t': "any_chunk create ?q cs ?t
        = Inr (\<exists>p\<in>(\<Union>c\<in>set cs. chunk_pages c). src_bit src (tbits ?t p), t')"
      "tbits t' = tbits ?t" "tk_ok t'" "tk_mode t' = tk_mode ?t" "\<not> create \<longrightarrow> t' = ?t"
      using Cons.IH [OF tk rest] by blast
    show ?thesis
    proof (cases "\<exists>p\<in>chunk_pages (k, offset, bytes). src_bit src (tbits t p)")
      case True
      then have "any_chunk create ?q (c # cs) t = Inr (True, ?t)" using some(1) q c by (simp add: Let_def)
      moreover have "\<exists>p\<in>(\<Union>c\<in>set (c # cs). chunk_pages c). src_bit src (tbits t p)"
        using True c by auto
      ultimately show ?thesis using same tk triv by auto
    next
      case False
      then have "any_chunk create ?q (c # cs) t
          = Inr (\<exists>p\<in>(\<Union>c\<in>set cs. chunk_pages c). src_bit src (tbits t p), t')"
        using some(1) q c t'(1) same by (simp add: Let_def del: chunk_pages.simps)
      moreover have "(\<exists>p\<in>(\<Union>c\<in>set (c # cs). chunk_pages c). src_bit src (tbits t p))
          \<longleftrightarrow> (\<exists>p\<in>(\<Union>c\<in>set cs. chunk_pages c). src_bit src (tbits t p))"
        using False c by (auto simp del: chunk_pages.simps)
      ultimately show ?thesis using t'(2-5) same triv by auto
    qed
  next
    case none
    have "tbits t p = default_bits" if "p \<in> chunk_pages c" for p
      using chunk_pages_div [of c p] that none(2) ok c by (simp add: tbits_def del: chunk_pages.simps)
    then have "(\<exists>p\<in>(\<Union>c\<in>set (c # cs). chunk_pages c). src_bit src (tbits t p))
        \<longleftrightarrow> (\<exists>p\<in>(\<Union>c\<in>set cs. chunk_pages c). src_bit src (tbits t p))"
      using none(3) by (auto simp: src_bit_def default_bits_def simp del: chunk_pages.simps)
    then show ?thesis using Cons.IH [OF Cons.prems(1) rest] none(1) c by simp
  qed
qed simp

end
