(* ===== verification/TrackerOps.thy ===== *)
theory TrackerOps
  imports TrackerInvariant
begin

text \<open>
  What the remaining methods of \<open>MemoryTracker\<close> do to the bits of the pages: forgetting,
  downloading and uploading a range, with the ranges their callbacks are called with.
\<close>

section \<open>Composing effects\<close>

lemma tracker_step_then:
  assumes "tracker_step ow oa X s P g s'" and "tracker_step ow oa X s' P h s''"
  shows "tracker_step ow oa X s P (\<lambda>b. h (g b)) s''"
proof -
  obtain t pm t' pm' t'' pm'' where e: "s = (t, pm)" "s' = (t', pm')" "s'' = (t'', pm'')"
    by (metis surj_pair)
  have "later pm pm''" using assms unfolding tracker_step_def e by (auto intro: later_trans)
  moreover have "same_rest (pm_page pm p) (pm_page pm'' p)" for p
    using assms unfolding tracker_step_def e same_rest_def by auto
  ultimately show ?thesis using assms unfolding tracker_step_def e by auto
qed

lemma tracker_step_cong:
  assumes "tracker_step ow oa X s P g s'" and "\<And>p. p \<in> P \<Longrightarrow> h (tbits (fst s) p) = g (tbits (fst s) p)"
  shows "tracker_step ow oa X s P h s'"
  using assms unfolding tracker_step_def by (auto split: prod.splits)

lemma pages_ready_after:
  assumes "pages_ready X P Q t pm" and "tracker_step ow oa X (t, pm) P g (t', pm')"
    and "\<And>res w b. Q res w b \<Longrightarrow> \<not> b_pending b \<Longrightarrow> R res w (g b) \<and> \<not> b_pending (g b)"
  shows "pages_ready X P R t' pm'"
  using assms unfolding pages_ready_def tracker_step_def by auto

lemma region_step_refl:
  "region_pre th mode ow oa X r pm s e \<Longrightarrow> region_step mode ow oa X r pm s e (\<lambda>b. b) r pm"
  by (simp add: region_step_def region_pre_def outside_same_def same_rest_def)

lemma keep_bodies:
  "body_spec th mode (\<lambda>r _ _ pm. Inr (r, pm)) (\<lambda>b. b) (\<lambda>_ _ _. True)"
  "body_spec th mode no_pending_region (\<lambda>b. b) (\<lambda>_ _ _. True)"
proof -
  show "body_spec th mode (\<lambda>r _ _ pm. Inr (r, pm)) (\<lambda>b. b) (\<lambda>_ _ _. True)"
    unfolding body_spec_def using region_step_refl by blast
  have "no_pending_region r offset bytes pm = Inr (r, pm)"
    if "GetPageRange (rg_addr r + offset) bytes r = Inr (s, e)"
      "region_pre th mode ow oa X r pm s e" for r offset bytes pm s e ow oa X
    using that by (auto simp: no_pending_region_def HasPendingFault_def region_pre_def list_ex_upt)
  then show "body_spec th mode no_pending_region (\<lambda>b. b) (\<lambda>_ _ _. True)"
    unfolding body_spec_def by (metis region_step_refl)
qed

lemma created_regions:
  assumes "foldR (on_region True f) cs s = Inr s'" and "c \<in> set cs \<or> tk_regions (fst s) (fst c) \<noteq> None"
  shows "tk_regions (fst s') (fst c) \<noteq> None"
  using assms
proof (induction cs arbitrary: s)
  case (Cons d cs)
  obtain t pm where s: "s = (t, pm)" by (cases s)
  obtain k offset bytes where d: "d = (k, offset, bytes)" by (cases d)
  obtain s1 where s1: "on_region True f d s = Inr s1" "foldR (on_region True f) cs s1 = Inr s'"
    using Cons.prems(1) by (auto simp: bindR_eq_Inr)
  have "\<exists>r u. s1 = (t\<lparr>tk_regions := (tk_regions t)(k \<mapsto> r)\<rparr>, u)"
    using s1(1) unfolding s d
    by (auto simp: on_region_def TrackerRegion_def bindR_eq_Inr split: option.splits; metis)
  then have "tk_regions (fst s1) k \<noteq> None"
    "\<And>j. tk_regions t j \<noteq> None \<Longrightarrow> tk_regions (fst s1) j \<noteq> None" by auto
  then show ?case using Cons.IH [OF s1(2)] Cons.prems(2) unfolding s d by auto
qed simp

section \<open>Forgetting a range\<close>

lemma UntrackMemory_spec:
  assumes "ready th ow oa X t pm" and "ValidRange vaddr n"
    and "pages_ready X (set (page_list vaddr n)) (\<lambda>res w b. \<not> b_gpu b \<and> not_reserved th w) t pm"
  shows "\<exists>t' pm'. UntrackMemory th vaddr n (t, pm) = Inr (t', pm')
    \<and> tracker_step ow oa X (t, pm) (set (page_list vaddr n)) forget (t', pm')"
proof -
  have "tk_ok t" using assms(1) by (simp add: ready_def tracker_inv_def)
  then obtain u where "any_chunk False (\<lambda>r offset bytes. IsModified GpuSide offset bytes r)
      (range_chunks vaddr n) t = Inr (\<exists>p\<in>(\<Union>c\<in>set (range_chunks vaddr n). chunk_pages c).
        src_bit GpuSide (tbits t p), u)"
    using any_chunk_spec [where create = False and src = GpuSide, OF _ range_chunks_spec(1) [OF assms(2)]]
    by blast
  moreover have "\<not> (\<exists>p\<in>(\<Union>c\<in>set (range_chunks vaddr n). chunk_pages c). src_bit GpuSide (tbits t p))"
    using assms(3) unfolding range_chunks_spec(3) [OF assms(2)]
    by (auto simp: pages_ready_def src_bit_def)
  ultimately have dirty: "any_chunk False (\<lambda>r offset bytes. IsModified GpuSide offset bytes r)
      (range_chunks vaddr n) t = Inr (False, u)" by simp
  have "forget default_bits = default_bits" by (simp add: forget_def default_bits_def)
  then show ?thesis
    using Iterate_spec [OF body_specs(5) refl assms(2,1,3), of False] RequireMapped_ready [OF assms(1,2)] dirty
    by (simp add: UntrackMemory_def)
qed

section \<open>The ranges of the callbacks\<close>

definition listed_pages :: "dirty_source \<Rightarrow> tracker \<Rightarrow> nat set \<Rightarrow> nat set" where
  "listed_pages src t P = {p \<in> P. src_bit src (tbits t p) \<and> \<not> (src = CpuSide \<and> b_pending (tbits t p))}"

lemma region_ranges_pages:
  assumes "tk_ok t" and "chunk_ok c" and "fst c < REGION_COUNT"
    and "tk_regions t (fst c) \<noteq> None \<or> src = GpuSide"
  shows "(\<Union>a\<in>set (region_ranges src t c). range_pages a) = listed_pages src t (chunk_pages c)"
proof -
  obtain k offset bytes where c: "c = (k, offset, bytes)" by (cases c)
  show ?thesis
  proof (cases "tk_regions t k")
    case None
    have "tbits t p = default_bits" if "p \<in> chunk_pages c" for p
      using chunk_pages_div [OF assms(2) that] None c by (simp add: tbits_def)
    then have "listed_pages src t (chunk_pages c) = {}"
      using assms(4) None c by (auto simp: listed_pages_def src_bit_def default_bits_def simp del: chunk_pages.simps)
    then show ?thesis using None c by (simp add: region_ranges_def del: chunk_pages.simps)
  next
    case (Some r)
    have addr: "rg_addr r = k * REGION_SIZE" using assms(1) Some by (simp add: tk_ok_def)
    have ok: "chunk_ok (k, offset, bytes)" using assms(2) c by simp
    obtain s e where se: "GetPageRange (rg_addr r + offset) bytes r = Inr (s, e)" "e \<le> REGION_PAGES"
      "chunk_pages (k, offset, bytes) = {p. k * REGION_PAGES + s \<le> p \<and> p < k * REGION_PAGES + e
        \<and> p < k * REGION_PAGES + REGION_PAGES}"
      using chunk_pages_region [OF ok addr] by blast
    let ?m = "\<lambda>i. s \<le> i \<and> i < e \<and> GetBits src r i \<and> \<not> (src = CpuSide \<and> rg_pending r i)"
    have bit: "GetBits src r i = src_bit src (tbits t (k * REGION_PAGES + i))"
      "rg_pending r i = b_pending (tbits t (k * REGION_PAGES + i))" if "i < REGION_PAGES" for i
      using tbits_region [OF Some that] by (cases src; simp add: GetBits_def src_bit_def rbits_def)+
    have base: "rg_addr r div PAGE_SIZE = k * REGION_PAGES"
      using base_page_index [OF addr] by (simp add: base_page_def)
    have "region_placed r" using addr assms(3) c by (intro region_placed_index) simp_all
    then have "(\<Union>a\<in>set (ForEachRange ?m r). range_pages a) = bit_pages r ?m"
      by (rule ForEachRange_spec(1))
    also have "\<dots> = listed_pages src t (chunk_pages (k, offset, bytes))"
    proof (intro set_eqI iffI)
      fix p assume "p \<in> bit_pages r ?m"
      then obtain i where i: "i < REGION_PAGES" "?m i" "p = k * REGION_PAGES + i"
        using base by (auto simp: bit_pages_def)
      then show "p \<in> listed_pages src t (chunk_pages (k, offset, bytes))"
        using bit [OF i(1)] se(3) by (simp add: listed_pages_def)
    next
      fix p assume p: "p \<in> listed_pages src t (chunk_pages (k, offset, bytes))"
      define i where "i = p - k * REGION_PAGES"
      have i: "i < REGION_PAGES" "s \<le> i" "i < e" "p = k * REGION_PAGES + i"
      proof -
        have "k * REGION_PAGES + s \<le> p" "p < k * REGION_PAGES + e" "p < k * REGION_PAGES + REGION_PAGES"
          using p unfolding se(3) listed_pages_def by simp_all
        then show "i < REGION_PAGES" "s \<le> i" "i < e" "p = k * REGION_PAGES + i"
          unfolding i_def by linarith+
      qed
      then show "p \<in> bit_pages r ?m"
        using p bit [OF i(1)] base by (auto simp: listed_pages_def bit_pages_def)
    qed
    finally show ?thesis using Some se(1) unfolding c by (simp add: region_ranges_def del: chunk_pages.simps)
  qed
qed

lemma all_ranges_pages:
  assumes "tk_ok t" and "ValidRange vaddr n"
    and "(\<forall>c\<in>set (range_chunks vaddr n). tk_regions t (fst c) \<noteq> None) \<or> src = GpuSide"
  shows "(\<Union>a\<in>set (concat (map (region_ranges src t) (range_chunks vaddr n))). range_pages a)
    = listed_pages src t (set (page_list vaddr n))"
proof -
  have "(\<Union>a\<in>set (concat (map (region_ranges src t) (range_chunks vaddr n))). range_pages a)
      = (\<Union>c\<in>set (range_chunks vaddr n). listed_pages src t (chunk_pages c))"
  proof -
    have "(\<Union>a\<in>set (region_ranges src t c). range_pages a) = listed_pages src t (chunk_pages c)"
      if "c \<in> set (range_chunks vaddr n)" for c
      using range_chunks_spec(1) [OF assms(2) that] assms(3) that
      by (intro region_ranges_pages [OF assms(1)]) auto
    then show ?thesis by (simp del: chunk_pages.simps add: UN_UN_flatten)
  qed
  also have "\<dots> = listed_pages src t (\<Union>c\<in>set (range_chunks vaddr n). chunk_pages c)"
    by (auto simp: listed_pages_def simp del: chunk_pages.simps)
  finally show ?thesis using range_chunks_spec(3) [OF assms(2)] by simp
qed

section \<open>Downloads and uploads\<close>

lemma ForEachDownloadRange_spec:
  assumes "ready th ow oa X t pm" and "ValidRange vaddr n"
    and "pages_ready X (set (page_list vaddr n)) (\<lambda>res w b. not_reserved th w) t pm"
  shows "\<exists>ranges t' pm'. ForEachDownloadRange th True vaddr n (t, pm) = Inr (ranges, t', pm')
    \<and> tracker_step ow oa X (t, pm) (set (page_list vaddr n)) drop_gpu (t', pm')
    \<and> (\<Union>a\<in>set ranges. range_pages a) = {p \<in> set (page_list vaddr n). b_gpu (tbits t p)}"
proof -
  let ?P = "set (page_list vaddr n)"
  have rdy0: "pages_ready X ?P (\<lambda>_ _ _. True) t pm" using assms(3) by (simp add: pages_ready_def)
  obtain t1 pm1 where s1: "Iterate False no_pending_region vaddr n (t, pm) = Inr (t1, pm1)"
    "tracker_step ow oa X (t, pm) ?P (\<lambda>b. b) (t1, pm1)"
    using Iterate_spec [OF keep_bodies(2) refl assms(2,1) rdy0, of False] by blast
  have bits: "tbits t1 = tbits t" and ok: "tk_ok t1"
    using s1(2) by (auto simp: tracker_step_def tracker_inv_def)
  have rdy1: "ready th ow oa X t1 pm1" using ready_step [OF assms(1) s1(2)] .
  have pr1: "pages_ready X ?P (\<lambda>res w b. not_reserved th w) t1 pm1"
    by (rule pages_ready_after [OF assms(3) s1(2)]) simp
  have "drop_gpu default_bits = default_bits" by (simp add: drop_gpu_def default_bits_def)
  then obtain t2 pm2 where s2: "Iterate False (download_region th (tk_mode t1)) vaddr n (t1, pm1) = Inr (t2, pm2)"
    "tracker_step ow oa X (t1, pm1) ?P drop_gpu (t2, pm2)"
    using Iterate_spec [OF body_specs(4) refl assms(2) rdy1 pr1, of False] by blast
  have "(\<Union>a\<in>set (concat (map (region_ranges GpuSide t1) (range_chunks vaddr n))). range_pages a)
      = {p \<in> ?P. b_gpu (tbits t p)}"
    using all_ranges_pages [OF ok assms(2), of GpuSide] bits by (simp add: listed_pages_def src_bit_def)
  then show ?thesis
    using s1(1) s2(1) tracker_step_then [OF s1(2) s2(2)] RequireMapped_ready [OF assms(1,2)]
    by (simp add: ForEachDownloadRange_def Let_def)
qed

lemma ForEachUploadRange_spec:
  assumes "ready th ow oa X t pm" and "ValidRange vaddr n"
    and "pages_ready X (set (page_list vaddr n)) (\<lambda>res w b. \<not> res) t pm"
  shows "\<exists>ranges t' pm'. ForEachUploadRange th vaddr n is_written (t, pm) = Inr (ranges, t', pm')
    \<and> tracker_step ow oa X (t, pm) (set (page_list vaddr n))
        (\<lambda>b. if is_written then own_gpu (clean b) else clean b) (t', pm')
    \<and> (\<Union>a\<in>set ranges. range_pages a) = {p \<in> set (page_list vaddr n). b_cpu (tbits t p)}"
proof -
  let ?P = "set (page_list vaddr n)"
  have rdy0: "pages_ready X ?P (\<lambda>_ _ _. True) t pm" using assms(3) by (simp add: pages_ready_def)
  obtain t1 pm1 where s1: "Iterate True (\<lambda>r _ _ pm. Inr (r, pm)) vaddr n (t, pm) = Inr (t1, pm1)"
    "tracker_step ow oa X (t, pm) ?P (\<lambda>b. b) (t1, pm1)"
    using Iterate_spec [OF keep_bodies(1) refl assms(2,1) rdy0, of True] by blast
  have reg1: "tk_regions t1 (fst c) \<noteq> None" if "c \<in> set (range_chunks vaddr n)" for c
    using created_regions [of "\<lambda>r _ _ pm. Inr (r, pm)" "range_chunks vaddr n" "(t, pm)" "(t1, pm1)" c]
      s1(1) assms(2) that by (simp add: Iterate_def)
  have bits: "tbits t1 = tbits t" and ok: "tk_ok t1"
    using s1(2) by (auto simp: tracker_step_def tracker_inv_def)
  have rdy1: "ready th ow oa X t1 pm1" using ready_step [OF assms(1) s1(2)] .
  have pr1: "pages_ready X ?P (\<lambda>res w b. \<not> res) t1 pm1"
    by (rule pages_ready_after [OF assms(3) s1(2)]) simp
  obtain t2 pm2 where s2: "Iterate False (upload_region th) vaddr n (t1, pm1) = Inr (t2, pm2)"
    "tracker_step ow oa X (t1, pm1) ?P clean (t2, pm2)"
    using Iterate_spec [OF body_specs(6) refl assms(2) rdy1 pr1, of False] reg1 by blast
  note s12 = tracker_step_then [OF s1(2) s2(2)]
  have "listed_pages CpuSide t1 ?P = {p \<in> ?P. b_cpu (tbits t p)}"
    using assms(3) bits by (auto simp: listed_pages_def src_bit_def pages_ready_def)
  then have ranges: "(\<Union>a\<in>set (concat (map (region_ranges CpuSide t1) (range_chunks vaddr n))). range_pages a)
      = {p \<in> ?P. b_cpu (tbits t p)}"
    using all_ranges_pages [OF ok assms(2), of CpuSide] reg1 by simp
  have run: "ForEachUploadRange th vaddr n is_written (t, pm)
      = bindR (if is_written then Iterate False (mark_gpu_region th (tk_mode t2)) vaddr n (t2, pm2)
               else Inr (t2, pm2))
          (\<lambda>s. Inr (concat (map (region_ranges CpuSide t1) (range_chunks vaddr n)), s))"
    using s1(1) s2(1) RequireMapped_ready [OF assms(1,2)] by (simp add: ForEachUploadRange_def Let_def)
  show ?thesis
  proof (cases is_written)
    case False
    then show ?thesis using run s12 ranges by simp
  next
    case True
    have rdy2: "ready th ow oa X t2 pm2" using ready_step [OF rdy1 s2(2)] .
    have pr2: "pages_ready X ?P (\<lambda>res w b. \<not> b_cpu b \<and> \<not> res) t2 pm2"
      using pages_ready_after [OF pr1 s2(2)] by (simp add: clean_def)
    have "tk_regions t2 (fst c) \<noteq> None" if "c \<in> set (range_chunks vaddr n)" for c
      using reg1 [OF that] s2(2) by (simp add: tracker_step_def)
    then obtain t3 pm3 where s3: "Iterate False (mark_gpu_region th (tk_mode t2)) vaddr n (t2, pm2)
        = Inr (t3, pm3)" "tracker_step ow oa X (t2, pm2) ?P own_gpu (t3, pm3)"
      using Iterate_spec [OF body_specs(2) refl assms(2) rdy2 pr2, of False] by blast
    then show ?thesis using run True tracker_step_then [OF s12 s3(2)] ranges by simp
  qed
qed

end
