(* ===== verification/TrackerFaults.thy ===== *)
theory TrackerFaults
  imports TrackerOps
begin

text \<open>
  The fault callbacks of \<open>MemoryTracker\<close> on the one page a fault hits: what they answer and what
  they do to the bits of the page.
\<close>

section \<open>Setting the bits of one page\<close>

definition page_set :: "tracker \<Rightarrow> nat \<Rightarrow> page_bits \<Rightarrow> tracker \<Rightarrow> bool" where
  "page_set t p b t' \<longleftrightarrow> tk_mode t' = tk_mode t \<and> tk_ok t'
     \<and> (\<forall>q. tbits t' q = (if q = p then b else tbits t q))"

lemma page_set_region:
  assumes "tk_ok t" and "tk_regions t (p div REGION_PAGES) = Some r" and "rg_addr r' = rg_addr r"
    and "\<And>i. i < REGION_PAGES \<Longrightarrow> rbits r' i = (if i = p mod REGION_PAGES then b else rbits r i)"
  shows "page_set t p b (t\<lparr>tk_regions := (tk_regions t)(p div REGION_PAGES \<mapsto> r')\<rparr>)"
proof -
  let ?t = "t\<lparr>tk_regions := (tk_regions t)(p div REGION_PAGES \<mapsto> r')\<rparr>"
  have bits: "tbits ?t q = (if q = p then b else tbits t q)" for q
  proof (cases "q div REGION_PAGES = p div REGION_PAGES")
    case True
    then have "tbits ?t q = rbits r' (q mod REGION_PAGES)" "tbits t q = rbits r (q mod REGION_PAGES)"
      using assms(2) by (simp_all add: tbits_def)
    moreover have "q mod REGION_PAGES < REGION_PAGES" by (simp add: REGION_PAGES_def)
    moreover have "q mod REGION_PAGES = p mod REGION_PAGES \<longleftrightarrow> q = p"
      using True by (metis div_mult_mod_eq)
    ultimately show ?thesis using assms(4) by simp
  next
    case False
    then have "q \<noteq> p" by auto
    then show ?thesis using False by (simp add: tbits_def)
  qed
  have "tk_ok ?t"
    using assms(1-3) unfolding tk_ok_def by (auto split: if_splits)
  then show ?thesis using bits by (simp add: page_set_def)
qed

lemma page_set_refl: "tk_ok t \<Longrightarrow> tbits t p = b \<Longrightarrow> page_set t p b t"
  by (simp add: page_set_def)

lemma page_set_trans: "page_set t p b t' \<Longrightarrow> page_set t' p b' t'' \<Longrightarrow> page_set t p b' t''"
  by (simp add: page_set_def)

lemma page_set_bits: "page_set t p b t' \<Longrightarrow> tbits t' p = b"
  by (simp add: page_set_def)

section \<open>The page of a fault\<close>

lemma fault_chunk:
  assumes "0 < v" and "v < ADDRESS_SIZE"
  shows "ValidRange v 1" and "range_chunks v 1 = [(v div REGION_SIZE, v mod REGION_SIZE, 1)]"
    and "set (page_list v 1) = {v div PAGE_SIZE}"
proof -
  show "ValidRange v 1" using assms by (simp add: ValidRange_def)
  have "v mod REGION_SIZE < REGION_SIZE" by (simp add: REGION_SIZE_def)
  then have one: "min (REGION_SIZE - v mod REGION_SIZE) 1 = 1" by simp
  have nil: "chunks (Suc (v div REGION_SIZE)) 0 0 = []" by (subst chunks.simps) simp
  show "range_chunks v 1 = [(v div REGION_SIZE, v mod REGION_SIZE, 1)]"
    using one nil \<open>v mod REGION_SIZE < REGION_SIZE\<close> unfolding range_chunks_def
    by (subst chunks.simps) (simp add: Let_def)
  show "set (page_list v 1) = {v div PAGE_SIZE}" by (auto simp: set_page_list)
qed

lemma fault_page:
  shows "v div PAGE_SIZE div REGION_PAGES = v div REGION_SIZE"
    and "v div PAGE_SIZE mod REGION_PAGES = v mod REGION_SIZE div PAGE_SIZE"
proof -
  show "v div PAGE_SIZE div REGION_PAGES = v div REGION_SIZE"
    by (simp add: REGION_SIZE_eq div_mult2_eq mult.commute)
  have "v mod (PAGE_SIZE * REGION_PAGES) = PAGE_SIZE * (v div PAGE_SIZE mod REGION_PAGES) + v mod PAGE_SIZE"
    by (rule mod_mult2_eq)
  moreover have "v mod PAGE_SIZE < PAGE_SIZE" by (simp add: PAGE_SIZE_def)
  ultimately show "v div PAGE_SIZE mod REGION_PAGES = v mod REGION_SIZE div PAGE_SIZE"
    by (simp add: REGION_SIZE_eq mult.commute PAGE_SIZE_def)
qed

lemma fault_page_range:
  assumes "rg_addr r = v div REGION_SIZE * REGION_SIZE"
  shows "GetPageRange (rg_addr r + v mod REGION_SIZE) 1 r
    = Inr (v div PAGE_SIZE mod REGION_PAGES, Suc (v div PAGE_SIZE mod REGION_PAGES))"
proof -
  have "v mod REGION_SIZE < REGION_SIZE" by (simp add: REGION_SIZE_def)
  moreover have "(v mod REGION_SIZE + 1 + PAGE_SIZE - 1) div PAGE_SIZE = Suc (v mod REGION_SIZE div PAGE_SIZE)"
    by (simp add: PAGE_SIZE_def)
  ultimately show ?thesis unfolding fault_page(2) by (auto simp: GetPageRange_def Let_def)
qed

text \<open>The region of a fault, and the bits of its page.\<close>

lemma fault_region:
  assumes "tk_ok t" and "tk_regions t (v div REGION_SIZE) = Some r"
  shows "rg_addr r = v div REGION_SIZE * REGION_SIZE"
    and "tbits t (v div PAGE_SIZE) = rbits r (v div PAGE_SIZE mod REGION_PAGES)"
  using assms by (simp_all add: tk_ok_def tbits_def fault_page(1))

lemma no_fault_region:
  "tk_regions t (v div REGION_SIZE) = None \<Longrightarrow> tbits t (v div PAGE_SIZE) = default_bits"
  by (simp add: tbits_def fault_page(1))

section \<open>What the callbacks do to the page\<close>

definition begin_bits :: "fault_access \<Rightarrow> page_bits \<Rightarrow> page_bits" where
  "begin_bits a b = (if \<not> b_tracked b then b
     else (if \<not> b_gpu b \<and> a = FaultWrite then own_cpu b else b)\<lparr>b_pending := True\<rparr>)"

definition begin_action :: "page_bits \<Rightarrow> cpu_fault_action" where
  "begin_action b = (if \<not> b_tracked b then Untracked else if b_gpu b then Download else Continue)"

definition complete_bits :: "fault_access \<Rightarrow> page_bits \<Rightarrow> page_bits" where
  "complete_bits a b = (if b_gpu b
     then (if a = FaultWrite then own_cpu (drop_gpu b) else drop_gpu b) else b)\<lparr>b_pending := False\<rparr>"

lemma BeginCpuFault_page:
  assumes "tk_ok t" and "0 < v" and "v < ADDRESS_SIZE" and "a = FaultRead \<or> a = FaultWrite"
    and b: "tbits t (v div PAGE_SIZE) = b" "bits_ok b" "\<not> b_pending b"
  shows "\<exists>t'. BeginCpuFault v 1 a t = Inr (begin_action b, t')
    \<and> page_set t (v div PAGE_SIZE) (begin_bits a b) t'"
proof (cases "tk_regions t (v div REGION_SIZE)")
  case None
  then have "b = default_bits" using no_fault_region b(1) by simp
  then show ?thesis using None fault_chunk [OF assms(2,3)] page_set_refl [OF assms(1) b(1)]
    by (simp add: BeginCpuFault_def begin_bits_def begin_action_def default_bits_def)
next
  case (Some r)
  let ?i = "v div PAGE_SIZE mod REGION_PAGES"
  note reg = fault_region [OF assms(1) Some]
  note range = fault_page_range [OF reg(1)]
  have bits: "rg_cpu r ?i = b_cpu b" "rg_gpu r ?i = b_gpu b" "rg_writable r ?i = b_writable b"
    "rg_pending r ?i = b_pending b" "rg_tracked r ?i = b_tracked b"
    using reg(2) b(1) by (auto simp: rbits_def)
  have scan: "begin_fault_scan r (rg_tracked r ?i) [?i ..< Suc ?i] = Inr True"
    using bits b(2,3) by (simp add: bits_ok_def)
  show ?thesis
  proof (cases "b_tracked b")
    case False
    then have "RM_BeginCpuFault (rg_addr r + v mod REGION_SIZE) 1 a r = Inr (Untracked, r)"
      using range scan bits assms(4) by (auto simp: RM_BeginCpuFault_def Let_def)
    moreover have "t\<lparr>tk_regions := (tk_regions t)(v div REGION_SIZE \<mapsto> r)\<rparr> = t"
      using Some by (simp add: fun_upd_idem)
    ultimately show ?thesis
      using Some fault_chunk [OF assms(2,3)] page_set_refl [OF assms(1) b(1)] False
      by (simp add: BeginCpuFault_def begin_bits_def begin_action_def)
  next
    case True
    define u where "u = (if \<not> rg_gpu r ?i \<and> a = FaultWrite
       then r\<lparr>rg_cpu := set_bits ?i (Suc ?i) True (rg_cpu r),
              rg_writable := set_bits ?i (Suc ?i) True (rg_writable r)\<rparr> else r)"
    define r' where "r' = u\<lparr>rg_pending := set_bits ?i (Suc ?i) True (rg_pending u)\<rparr>"
    have run: "RM_BeginCpuFault (rg_addr r + v mod REGION_SIZE) 1 a r = Inr (begin_action b, r')"
      using range scan bits assms(4) True
      by (auto simp: RM_BeginCpuFault_def Let_def begin_action_def r'_def u_def)
    have "rg_addr r' = rg_addr r" by (simp add: r'_def u_def)
    moreover have "rbits r' i = (if i = ?i then begin_bits a b else rbits r i)" for i
      using bits True reg(2) b(1)
      by (auto simp: r'_def u_def begin_bits_def own_cpu_def rbits_def set_bits_def)
    ultimately have "page_set t (v div PAGE_SIZE) (begin_bits a b)
        (t\<lparr>tk_regions := (tk_regions t)(v div PAGE_SIZE div REGION_PAGES \<mapsto> r')\<rparr>)"
      using Some by (intro page_set_region [OF assms(1)]) (simp_all add: fault_page(1))
    then show ?thesis using run Some fault_chunk [OF assms(2,3)]
      by (simp add: BeginCpuFault_def fault_page(1))
  qed
qed

lemma CompleteCpuFault_page:
  assumes "tk_ok t" and "0 < v" and "v < ADDRESS_SIZE" and "a = FaultRead \<or> a = FaultWrite"
    and b: "tbits t (v div PAGE_SIZE) = b" and "b_pending b \<Longrightarrow> b_gpu b = downloaded"
  shows "\<exists>t'. CompleteCpuFault v 1 a downloaded t = Inr (b_pending b, t')
    \<and> page_set t (v div PAGE_SIZE) (if b_pending b then complete_bits a b else b) t'"
proof (cases "tk_regions t (v div REGION_SIZE)")
  case None
  then have "b = default_bits" using no_fault_region b by simp
  then show ?thesis using None fault_chunk [OF assms(2,3)] page_set_refl [OF assms(1) b]
    by (simp add: CompleteCpuFault_def default_bits_def)
next
  case (Some r)
  let ?i = "v div PAGE_SIZE mod REGION_PAGES"
  note reg = fault_region [OF assms(1) Some]
  note range = fault_page_range [OF reg(1)]
  have bits: "rg_cpu r ?i = b_cpu b" "rg_gpu r ?i = b_gpu b" "rg_writable r ?i = b_writable b"
    "rg_pending r ?i = b_pending b" "rg_tracked r ?i = b_tracked b"
    using reg(2) b by (auto simp: rbits_def)
  show ?thesis
  proof (cases "b_pending b")
    case False
    then have "RM_CompleteCpuFault (rg_addr r + v mod REGION_SIZE) 1 a downloaded r = Inr (False, r)"
      using range bits by (simp add: RM_CompleteCpuFault_def)
    moreover have "t\<lparr>tk_regions := (tk_regions t)(v div REGION_SIZE \<mapsto> r)\<rparr> = t"
      using Some by (simp add: fun_upd_idem)
    ultimately show ?thesis
      using Some fault_chunk [OF assms(2,3)] page_set_refl [OF assms(1) b] False
      by (simp add: CompleteCpuFault_def)
  next
    case True
    define u where "u = (if rg_gpu r ?i then
       (if a = FaultWrite then r\<lparr>rg_gpu := (rg_gpu r)(?i := False), rg_cpu := (rg_cpu r)(?i := True),
            rg_writable := (rg_writable r)(?i := True)\<rparr> else r\<lparr>rg_gpu := (rg_gpu r)(?i := False)\<rparr>)
       else r)"
    define r' where "r' = u\<lparr>rg_pending := (rg_pending u)(?i := False)\<rparr>"
    have "complete_fault_turn a downloaded ?i r = Inr r'"
      using bits assms(4,6) True by (auto simp: complete_fault_turn_def r'_def u_def Let_def)
    then have run: "RM_CompleteCpuFault (rg_addr r + v mod REGION_SIZE) 1 a downloaded r = Inr (True, r')"
      using range bits True by (simp add: RM_CompleteCpuFault_def)
    have "rg_addr r' = rg_addr r" by (simp add: r'_def u_def)
    moreover have "rbits r' i = (if i = ?i then complete_bits a b else rbits r i)" for i
      using bits reg(2) b
      by (auto simp: r'_def u_def complete_bits_def own_cpu_def drop_gpu_def rbits_def)
    ultimately have "page_set t (v div PAGE_SIZE) (complete_bits a b)
        (t\<lparr>tk_regions := (tk_regions t)(v div PAGE_SIZE div REGION_PAGES \<mapsto> r')\<rparr>)"
      using Some by (intro page_set_region [OF assms(1)]) (simp_all add: fault_page(1))
    then show ?thesis using run Some fault_chunk [OF assms(2,3)] True
      by (simp add: CompleteCpuFault_def fault_page(1))
  qed
qed

lemma virtual_gpu_write_invalidate_page:
  assumes "tk_ok t" and "0 < v" and "v < ADDRESS_SIZE"
    and b: "tbits t (v div PAGE_SIZE) = b" "bits_ok b" "\<not> b_pending b"
  shows "\<exists>t'. virtual_gpu_write_invalidate FaultWrite v 1 t = Inr (b_gpu b, t')
    \<and> page_set t (v div PAGE_SIZE) (if b_gpu b then begin_bits FaultWrite b else b) t'"
proof -
  note chunk = fault_chunk [OF assms(2,3)]
  obtain u where "any_chunk False (\<lambda>r offset bytes. IsModified GpuSide offset bytes r)
      (range_chunks v 1) t = Inr (\<exists>p\<in>(\<Union>c\<in>set (range_chunks v 1). chunk_pages c).
        src_bit GpuSide (tbits t p), u)"
    using any_chunk_spec [where create = False and src = GpuSide, OF assms(1) range_chunks_spec(1) [OF chunk(1)]]
    by blast
  then have scan: "any_chunk False (\<lambda>r offset bytes. IsModified GpuSide offset bytes r)
      (range_chunks v 1) t = Inr (b_gpu b, u)"
    unfolding range_chunks_spec(3) [OF chunk(1)] chunk(3) using b(1) by (simp add: src_bit_def)
  show ?thesis
  proof (cases "b_gpu b")
    case False
    then show ?thesis using scan chunk(1) page_set_refl [OF assms(1) b(1)]
      by (simp add: virtual_gpu_write_invalidate_def)
  next
    case True
    then have "begin_action b = Download" using b(2) by (auto simp: begin_action_def bits_ok_def)
    then show ?thesis using scan chunk(1) True BeginCpuFault_page [OF assms(1-3) _ b, of FaultWrite]
      by (auto simp: virtual_gpu_write_invalidate_def)
  qed
qed

lemma virtual_gpu_write_complete_page:
  assumes "tk_ok t" and "0 < v" and "v < ADDRESS_SIZE"
    and b: "tbits t (v div PAGE_SIZE) = b" and "b_pending b \<Longrightarrow> b_gpu b"
  shows "\<exists>t'. virtual_gpu_write_complete FaultWrite v 1 t = Inr (b_pending b, t')
    \<and> page_set t (v div PAGE_SIZE) (if b_pending b then complete_bits FaultWrite b else b) t'"
proof (cases "tk_regions t (v div REGION_SIZE)")
  case None
  then have "b = default_bits" using no_fault_region b by simp
  then show ?thesis using None fault_chunk [OF assms(2,3)] page_set_refl [OF assms(1) b]
    by (simp add: virtual_gpu_write_complete_def default_bits_def)
next
  case (Some r)
  let ?i = "v div PAGE_SIZE mod REGION_PAGES"
  note reg = fault_region [OF assms(1) Some]
  note range = fault_page_range [OF reg(1)]
  have bits: "rg_gpu r ?i = b_gpu b" "rg_pending r ?i = b_pending b"
    using reg(2) b by (auto simp: rbits_def)
  show ?thesis
  proof (cases "b_pending b")
    case False
    then have "CompleteVirtualGpuWrite (rg_addr r + v mod REGION_SIZE) 1 r = Inr (False, r)"
      using range bits by (simp add: CompleteVirtualGpuWrite_def)
    moreover have "t\<lparr>tk_regions := (tk_regions t)(v div REGION_SIZE \<mapsto> r)\<rparr> = t"
      using Some by (simp add: fun_upd_idem)
    ultimately show ?thesis
      using Some fault_chunk [OF assms(2,3)] page_set_refl [OF assms(1) b] False
      by (simp add: virtual_gpu_write_complete_def)
  next
    case True
    define r' where "r' = r\<lparr>rg_gpu := set_bits ?i (Suc ?i) False (rg_gpu r),
       rg_cpu := set_bits ?i (Suc ?i) True (rg_cpu r),
       rg_writable := set_bits ?i (Suc ?i) True (rg_writable r),
       rg_pending := set_bits ?i (Suc ?i) False (rg_pending r)\<rparr>"
    have run: "CompleteVirtualGpuWrite (rg_addr r + v mod REGION_SIZE) 1 r = Inr (True, r')"
      using range bits True assms(5) by (simp add: CompleteVirtualGpuWrite_def r'_def)
    have "rg_addr r' = rg_addr r" by (simp add: r'_def)
    moreover have "rbits r' i = (if i = ?i then complete_bits FaultWrite b else rbits r i)" for i
      using reg(2) b assms(5) True
      by (auto simp: r'_def complete_bits_def own_cpu_def drop_gpu_def rbits_def set_bits_def)
    ultimately have "page_set t (v div PAGE_SIZE) (complete_bits FaultWrite b)
        (t\<lparr>tk_regions := (tk_regions t)(v div PAGE_SIZE div REGION_PAGES \<mapsto> r')\<rparr>)"
      using Some by (intro page_set_region [OF assms(1)]) (simp_all add: fault_page(1))
    then show ?thesis using run Some fault_chunk [OF assms(2,3)] True
      by (simp add: virtual_gpu_write_complete_def fault_page(1))
  qed
qed

text \<open>Beginning and completing a fault in one tracker.\<close>

definition fault_bits :: "fault_access \<Rightarrow> page_bits \<Rightarrow> page_bits" where
  "fault_bits a b = (if b_tracked b then complete_bits a (begin_bits a b) else b)"

lemma fault_bits_cases:
  assumes "bits_ok b" and "\<not> b_pending b"
  shows "bits_ok (fault_bits a b)" and "\<not> b_pending (fault_bits a b)" and "\<not> b_gpu (fault_bits a b)"
    and "a = FaultWrite \<Longrightarrow> b_cpu (fault_bits a b)"
    and "a \<noteq> FaultWrite \<Longrightarrow> b_cpu (fault_bits a b) = b_cpu b"
    and "b_pending (begin_bits a b) = b_tracked b" and "b_gpu (begin_bits a b) = b_gpu b"
    and "b_tracked (begin_bits a b) = b_tracked b"
  using assms
  by (auto simp: fault_bits_def complete_bits_def begin_bits_def own_cpu_def drop_gpu_def bits_ok_def)

end
