(* ===== verification/DirtyTracking.thy ===== *)
theory DirtyTracking
  imports TrackerFaults
begin

text \<open>
  The three users of the page manager together: the trackers of the buffer cache, of the images
  and of the image metadata (\<open>renderer/bufferCache.cpp\<close>, \<open>renderer/textureCache.cpp\<close>), the
  workers that read GPU data back during a fault, and \<open>GpuResourceManager\<close>, which passes a
  fault to all of them. \<open>ResourceMutex\<close> serialises the fault handling and the operations of
  the caches, so each is one step here. Moving bytes between guest memory and the GPU is left
  out: the model keeps who owns the newest bytes of a page.
\<close>

section \<open>Data\<close>

datatype readback_state = RbUninitialized | RbInitRequested | RbIdle | RbClaimed | RbRequested
  | RbReady | RbInstalled | RbCompleted | RbStopping | RbStopped

record readback =
  rb_state :: readback_state
  rb_access :: fault_access
  rb_vaddr :: nat
  rb_size :: nat

text \<open>
  \<open>gm_fault_owner\<close> is the thread that holds \<open>m_fault_mutex\<close> of the texture cache. The buffer
  worker starts prepared: \<open>ObtainBuffer\<close> prepares it before a buffer becomes GPU-dirty.
\<close>

record gpu_memory =
  gm_pages :: page_manager
  gm_buffer :: tracker
  gm_texture :: tracker
  gm_metadata :: tracker
  gm_buffer_readback :: readback
  gm_image_readback :: readback
  gm_fault_owner :: "nat option"

definition idle_readback :: readback where
  "idle_readback = \<lparr>rb_state = RbIdle, rb_access = FaultUnknown, rb_vaddr = 0, rb_size = 0\<rparr>"

definition gm_start :: "(nat \<Rightarrow> host_page) \<Rightarrow> (nat \<Rightarrow> bool) \<Rightarrow> gpu_memory" where
  "gm_start host can = \<lparr>gm_pages = PM_start host can, gm_buffer = tracker_start WatchReadWrite,
     gm_texture = tracker_start WatchReadWrite, gm_metadata = tracker_start WatchWrite,
     gm_buffer_readback = idle_readback, gm_image_readback = idle_readback,
     gm_fault_owner = None\<rparr>"

text \<open>
  What the fault path asks of code outside the model: the range of the image that
  \<open>FindGpuReadbackPageCandidateLocked\<close> finds for an address, and the worker's thread.
\<close>

record fault_env =
  fe_image :: "nat \<Rightarrow> (nat \<times> nat) option"
  fe_worker :: nat

section \<open>The readback workers\<close>

text \<open>
  In the states of another thread's request the source waits for \<open>Idle\<close>; the fault path is
  serialised, so this does not arise, and the model marks it as an error of its own.
\<close>

definition RequestReadback :: "fault_access \<Rightarrow> nat \<Rightarrow> nat \<Rightarrow> readback \<Rightarrow> exit_reason + readback" where
  "RequestReadback a v n rb =
     (if rb_state rb = RbUninitialized \<or> rb_state rb = RbInitRequested
      then Inl (Exit ''unsafe readback request context'')
      else if rb_state rb = RbStopping \<or> rb_state rb = RbStopped
      then Inl (Exit ''readback requested while worker is stopping'')
      else if rb_state rb \<noteq> RbIdle then Inl (Exit ''waits for the readback of another thread'')
      else Inr (rb\<lparr>rb_state := RbRequested, rb_access := a, rb_vaddr := v, rb_size := n\<rparr>))"

definition readback_idle :: "readback \<Rightarrow> bool" where
  "readback_idle rb \<longleftrightarrow> rb_state rb = RbUninitialized \<or> rb_state rb = RbInitRequested
     \<or> rb_state rb = RbIdle \<or> rb_state rb = RbStopping \<or> rb_state rb = RbStopped"

text \<open>\<open>Complete\<close> and \<open>Release\<close> up to their effect on the tracker: \<open>False\<close> when nothing is active.\<close>

definition CompleteReadback :: "fault_access \<Rightarrow> nat \<Rightarrow> nat \<Rightarrow> readback \<Rightarrow> exit_reason + bool \<times> readback" where
  "CompleteReadback a v n rb =
     (if readback_idle rb then Inr (False, rb)
      else if rb_state rb \<noteq> RbReady then Inl (Exit ''active readback has invalid completion state'')
      else if rb_access rb \<noteq> a \<or> rb_vaddr rb \<noteq> v \<or> rb_size rb \<noteq> n
      then Inl (Exit ''mismatched active readback completion'')
      else Inr (True, rb\<lparr>rb_state := RbInstalled\<rparr>))"

definition ReadbackIsReady :: "fault_access \<Rightarrow> nat \<Rightarrow> nat \<Rightarrow> readback \<Rightarrow> bool" where
  "ReadbackIsReady a v n rb \<longleftrightarrow> rb_state rb = RbReady \<and> rb_access rb = a \<and> rb_vaddr rb = v \<and> rb_size rb = n"

definition ReleaseReadback :: "fault_access \<Rightarrow> nat \<Rightarrow> nat \<Rightarrow> readback \<Rightarrow> exit_reason + bool \<times> readback" where
  "ReleaseReadback a v n rb =
     (if readback_idle rb then Inr (False, rb)
      else if rb_state rb \<noteq> RbInstalled then Inl (Exit ''active readback has invalid release state'')
      else if rb_access rb \<noteq> a \<or> rb_vaddr rb \<noteq> v \<or> rb_size rb \<noteq> n
      then Inl (Exit ''mismatched active readback release'')
      else Inr (True, rb\<lparr>rb_state := RbCompleted\<rparr>))"

text \<open>
  The turn of the image worker before \<open>Ready\<close>: the whole image is downloaded, so the GPU gives up
  the rest of it; the page of the fault is left to the fault.
\<close>

definition image_worker_ready :: "fault_env \<Rightarrow> nat \<times> nat \<Rightarrow> gpu_memory \<Rightarrow> exit_reason + gpu_memory" where
  "image_worker_ready env img w =
     (let rb = gm_image_readback w; v = rb_vaddr rb; th = fe_worker env;
          fault_page = PageStart v; page_end = fault_page + PAGE_SIZE;
          (addr, size) = img; target_end = addr + size
      in bindR (IsRegionModified th GpuSide v (rb_size rb) (gm_texture w, gm_pages w)) (\<lambda>(dirty, t).
         if \<not> dirty then Inl (Exit ''readback fault page is not GPU-modified'')
         else
           bindR (if fault_page > addr
                  then ForEachDownloadRange th True addr (fault_page - addr) (t, gm_pages w)
                  else Inr ([], t, gm_pages w)) (\<lambda>(_, t, pm).
           bindR (if page_end < target_end
                  then ForEachDownloadRange th True page_end (target_end - page_end) (t, pm)
                  else Inr ([], t, pm)) (\<lambda>(_, t, pm).
             Inr (w\<lparr>gm_texture := t, gm_pages := pm, gm_image_readback := rb\<lparr>rb_state := RbReady\<rparr>\<rparr>)))))"

text \<open>Its turn after \<open>Completed\<close>.\<close>

definition image_worker_done :: "fault_env \<Rightarrow> nat \<times> nat \<Rightarrow> gpu_memory \<Rightarrow> exit_reason + gpu_memory" where
  "image_worker_done env img w =
     bindR (IsRegionModified (fe_worker env) GpuSide (fst img) (snd img) (gm_texture w, gm_pages w))
       (\<lambda>(dirty, t).
          if dirty then Inl (Exit ''completed image readback retained GPU ownership'')
          else Inr (w\<lparr>gm_texture := t,
                      gm_image_readback := (gm_image_readback w)\<lparr>rb_state := RbIdle\<rparr>\<rparr>))"

section \<open>The buffer cache\<close>

definition BufferInvalidate :: "fault_access \<Rightarrow> nat \<Rightarrow> nat \<Rightarrow> gpu_memory \<Rightarrow>
    exit_reason + bool \<times> gpu_memory" where
  "BufferInvalidate a v n w =
     (if n = 0 \<or> n > PageStart v + PAGE_SIZE - v then Inl (Exit ''invalid page-fault range'')
      else bindR (BeginCpuFault v n a (gm_buffer w)) (\<lambda>(action, t).
        let w = w\<lparr>gm_buffer := t\<rparr>
        in if action \<noteq> Download then Inr (action = Continue, w)
           else bindR (RequestReadback a v n (gm_buffer_readback w)) (\<lambda>rb.
             Inr (True, w\<lparr>gm_buffer_readback := rb\<lparr>rb_state := RbReady\<rparr>\<rparr>))))"

definition BufferComplete :: "fault_access \<Rightarrow> nat \<Rightarrow> nat \<Rightarrow> gpu_memory \<Rightarrow>
    exit_reason + bool \<times> gpu_memory" where
  "BufferComplete a v n w =
     (if n = 0 \<or> n > PageStart v + PAGE_SIZE - v then Inl (Exit ''invalid page-fault range'')
      else bindR (CompleteReadback a v n (gm_buffer_readback w)) (\<lambda>(active, rb).
        bindR (CompleteCpuFault v n a active (gm_buffer w)) (\<lambda>(done, t).
          if active \<and> \<not> done then Inl (Exit ''failed to complete downloaded CPU fault'')
          else Inr (done, w\<lparr>gm_buffer := t, gm_buffer_readback := rb\<rparr>))))"

definition BufferRelease :: "fault_access \<Rightarrow> nat \<Rightarrow> nat \<Rightarrow> gpu_memory \<Rightarrow>
    exit_reason + bool \<times> gpu_memory" where
  "BufferRelease a v n w =
     (if n = 0 \<or> n > PageStart v + PAGE_SIZE - v then Inl (Exit ''invalid page-fault range'')
      else bindR (ReleaseReadback a v n (gm_buffer_readback w)) (\<lambda>(active, rb).
        Inr (True, w\<lparr>gm_buffer_readback := (if active then rb\<lparr>rb_state := RbIdle\<rparr> else rb)\<rparr>)))"

section \<open>The texture cache\<close>

definition TextureInvalidate :: "fault_env \<Rightarrow> nat \<Rightarrow> fault_access \<Rightarrow> nat \<Rightarrow> nat \<Rightarrow> gpu_memory \<Rightarrow>
    exit_reason + bool \<times> gpu_memory" where
  "TextureInvalidate env th a v n w =
     (if a \<noteq> FaultRead \<and> a \<noteq> FaultWrite then Inl (Exit ''unsupported page-fault access'')
      else if gm_fault_owner w \<noteq> None then Inl (Exit ''recursive page-fault invalidation'')
      else
        bindR (if a = FaultWrite then virtual_gpu_write_invalidate a v n (gm_metadata w)
               else Inr (False, gm_metadata w)) (\<lambda>(metadata, tm).
          let w = w\<lparr>gm_fault_owner := Some th, gm_metadata := tm\<rparr>
          in case fe_image env v of
               None \<Rightarrow>
                 bindR (BeginCpuFault v n a (gm_texture w)) (\<lambda>(action, t).
                   if action = Download
                   then Inl (Exit ''generic region invalidation cannot download GPU-dirty memory'')
                   else Inr (metadata \<or> action \<noteq> Untracked, w\<lparr>gm_texture := t\<rparr>))
             | Some img \<Rightarrow>
                 bindR (RequestReadback a v n (gm_image_readback w)) (\<lambda>rb.
                 bindR (image_worker_ready env img (w\<lparr>gm_image_readback := rb\<rparr>)) (\<lambda>w.
                 bindR (BeginCpuFault v n a (gm_texture w)) (\<lambda>(action, t).
                   if action \<noteq> Download
                   then Inl (Exit ''downloaded image did not retain the active fault page tracking'')
                   else Inr (metadata \<or> action \<noteq> Untracked, w\<lparr>gm_texture := t\<rparr>))))))"

definition TextureComplete :: "nat \<Rightarrow> fault_access \<Rightarrow> nat \<Rightarrow> nat \<Rightarrow> gpu_memory \<Rightarrow>
    exit_reason + bool \<times> gpu_memory" where
  "TextureComplete th a v n w =
     (if a \<noteq> FaultRead \<and> a \<noteq> FaultWrite then Inl (Exit ''unsupported page-fault access'')
      else if gm_fault_owner w \<noteq> Some th
      then Inl (Exit ''page-fault phase has no matching invalidation'')
      else
        bindR (if a = FaultWrite then virtual_gpu_write_complete a v n (gm_metadata w)
               else Inr (False, gm_metadata w)) (\<lambda>(metadata, tm).
        bindR (CompleteCpuFault v n a (ReadbackIsReady a v n (gm_image_readback w)) (gm_texture w))
          (\<lambda>(image, t).
        bindR (CompleteReadback a v n (gm_image_readback w)) (\<lambda>(readback, rb).
          if readback \<and> \<not> image
          then Inl (Exit ''image readback completed without a matching tracker fault'')
          else Inr (metadata \<or> image \<or> readback,
                    w\<lparr>gm_metadata := tm, gm_texture := t, gm_image_readback := rb\<rparr>)))))"

definition TextureRelease :: "fault_env \<Rightarrow> nat \<Rightarrow> fault_access \<Rightarrow> nat \<Rightarrow> nat \<Rightarrow> gpu_memory \<Rightarrow>
    exit_reason + bool \<times> gpu_memory" where
  "TextureRelease env th a v n w =
     (if a \<noteq> FaultRead \<and> a \<noteq> FaultWrite then Inl (Exit ''unsupported page-fault access'')
      else if gm_fault_owner w \<noteq> Some th
      then Inl (Exit ''page-fault phase has no matching invalidation'')
      else
        bindR (ReleaseReadback a v n (gm_image_readback w)) (\<lambda>(active, rb).
          let w = w\<lparr>gm_image_readback := rb\<rparr>
          in bindR (case fe_image env v of
                      Some img \<Rightarrow> if active then image_worker_done env img w else Inr w
                    | None \<Rightarrow> Inr w)
               (\<lambda>w. Inr (True, w\<lparr>gm_fault_owner := None\<rparr>))))"

section \<open>Faults\<close>

definition set_in_fault :: "nat \<Rightarrow> bool \<Rightarrow> gpu_memory \<Rightarrow> gpu_memory" where
  "set_in_fault th b w =
     w\<lparr>gm_pages := (gm_pages w)\<lparr>pm_in_fault := (pm_in_fault (gm_pages w))(th := b)\<rparr>\<rparr>"

text \<open>The callback of the page manager runs with \<open>g_in_fault_resolution\<close> set.\<close>

definition fault_callback :: "nat \<Rightarrow> (gpu_memory \<Rightarrow> exit_reason + bool \<times> gpu_memory) \<Rightarrow>
    (gpu_memory \<Rightarrow> exit_reason + bool \<times> gpu_memory) \<Rightarrow> gpu_memory \<Rightarrow>
    exit_reason + bool \<times> gpu_memory" where
  "fault_callback th buffers images w =
     bindR (buffers (set_in_fault th True w)) (\<lambda>(buffer_handled, w).
     bindR (images w) (\<lambda>(image_handled, w).
       Inr (buffer_handled \<or> image_handled, set_in_fault th False w)))"

text \<open>
  \<open>PageManager::HandleFault\<close>: \<open>Some b\<close> is its answer, \<open>None\<close> says that another thread resolves the
  page and this one goes on waiting for it.
\<close>

definition HandleFault :: "fault_env \<Rightarrow> nat \<Rightarrow> fault_access \<Rightarrow> nat \<Rightarrow> gpu_memory \<Rightarrow>
    exit_reason + bool option \<times> gpu_memory" where
  "HandleFault env th a v w =
     bindR (fault_turn_at th False a v (gm_pages w)) (\<lambda>(turn, pm).
       let w = w\<lparr>gm_pages := pm\<rparr>; p = v div PAGE_SIZE
       in case turn of
            FaultDone b \<Rightarrow> Inr (Some b, w)
          | FaultWait \<Rightarrow> Inr (None, w)
          | FaultClaim \<Rightarrow>
              bindR (fault_callback th (BufferInvalidate a v 1) (TextureInvalidate env th a v 1) w)
                (\<lambda>(handled, w).
              bindR (after_invalidate handled p (gm_pages w)) (\<lambda>_.
              bindR (fault_callback th (BufferComplete a v 1) (TextureComplete th a v 1) w)
                (\<lambda>(completed, w).
              bindR (on_page (complete_page completed a) p (gm_pages w)) (\<lambda>pm.
              bindR (fault_callback th (BufferRelease a v 1) (TextureRelease env th a v 1)
                       (w\<lparr>gm_pages := pm\<rparr>)) (\<lambda>(released, w).
                if \<not> released then Inl (Exit ''fault release callback failed'')
                else Inr (Some True, w)))))))"

definition GRM_HandleFault :: "fault_env \<Rightarrow> nat \<Rightarrow> fault_access \<Rightarrow> nat \<Rightarrow> gpu_memory \<Rightarrow>
    exit_reason + bool option \<times> gpu_memory" where
  "GRM_HandleFault env th a v w =
     (if \<not> IsMapped th v 1 (gm_pages w) then Inr (Some False, w) else HandleFault env th a v w)"

section \<open>The operations of the caches\<close>

datatype gpu_cache = BufferSide | TextureSide | MetadataSide

definition get_tracker :: "gpu_cache \<Rightarrow> gpu_memory \<Rightarrow> tracker" where
  "get_tracker c w = (case c of BufferSide \<Rightarrow> gm_buffer w | TextureSide \<Rightarrow> gm_texture w
     | MetadataSide \<Rightarrow> gm_metadata w)"

definition put_tracker :: "gpu_cache \<Rightarrow> tracker \<times> page_manager \<Rightarrow> gpu_memory \<Rightarrow> gpu_memory" where
  "put_tracker c s w = (case c of
       BufferSide \<Rightarrow> w\<lparr>gm_buffer := fst s, gm_pages := snd s\<rparr>
     | TextureSide \<Rightarrow> w\<lparr>gm_texture := fst s, gm_pages := snd s\<rparr>
     | MetadataSide \<Rightarrow> w\<lparr>gm_metadata := fst s, gm_pages := snd s\<rparr>)"

definition on_tracker :: "gpu_cache \<Rightarrow>
    (tracker \<times> page_manager \<Rightarrow> exit_reason + tracker \<times> page_manager) \<Rightarrow> gpu_memory \<Rightarrow>
    exit_reason + gpu_memory" where
  "on_tracker c f w = bindR (f (get_tracker c w, gm_pages w)) (\<lambda>s. Inr (put_tracker c s w))"

text \<open>The methods of \<open>MemoryTracker\<close> the caches call on a range, their callbacks left out.\<close>

datatype cache_op = MarkCpu | MarkGpu | UnmarkGpu | Forget | DownloadAll | UploadAll bool

fun cache_op_run :: "nat \<Rightarrow> cache_op \<Rightarrow> nat \<Rightarrow> nat \<Rightarrow> tracker \<times> page_manager \<Rightarrow>
    exit_reason + tracker \<times> page_manager" where
  "cache_op_run th MarkCpu v n s = MarkRegionAsCpuModified th v n s"
| "cache_op_run th MarkGpu v n s = MarkRegionAsGpuModified th v n s"
| "cache_op_run th UnmarkGpu v n s = UnmarkRegionAsGpuModified th v n s"
| "cache_op_run th Forget v n s = UntrackMemory th v n s"
| "cache_op_run th DownloadAll v n s = bindR (ForEachDownloadRange th True v n s) (\<lambda>(_, s). Inr s)"
| "cache_op_run th (UploadAll is_written) v n s =
     bindR (ForEachUploadRange th v n is_written s) (\<lambda>(_, s). Inr s)"

text \<open>Discarding metadata (\<open>RetireSampledTargetAliases\<close>, \<open>PrepareBufferImageWrite\<close>).\<close>

definition RetireMetadata :: "nat \<Rightarrow> bool \<Rightarrow> nat \<Rightarrow> nat \<Rightarrow> gpu_memory \<Rightarrow> exit_reason + gpu_memory" where
  "RetireMetadata th gpu_modified v n w =
     bindR (if gpu_modified
            then on_tracker MetadataSide (cache_op_run th DownloadAll v n) w
            else Inr w)
       (on_tracker MetadataSide (cache_op_run th Forget v n))"

text \<open>
  \<open>ReserveBackingWrites\<close>: the page ranges of the dirty ranges, merged where they touch; \<open>start\<close>
  is 0 while nothing is collected.
\<close>

fun merge_writes :: "(nat \<times> nat) list \<Rightarrow> nat \<Rightarrow> nat \<Rightarrow> (nat \<times> nat) list" where
  "merge_writes [] start stop = [(start, stop - start)]"
| "merge_writes ((addr, n) # rs) start stop =
     (let page_begin = addr div PAGE_SIZE * PAGE_SIZE;
          page_end = (addr + n + PAGE_SIZE - 1) div PAGE_SIZE * PAGE_SIZE
      in if start \<noteq> 0 \<and> page_begin > stop
         then (start, stop - start) # merge_writes rs page_begin page_end
         else if start = 0 then merge_writes rs page_begin page_end
         else merge_writes rs start (max stop page_end))"

definition ReserveBackingWrites :: "(nat \<times> nat) list \<Rightarrow> exit_reason + (nat \<times> nat) list" where
  "ReserveBackingWrites ranges =
     (if ranges = [] then Inl (Exit ''cannot reserve empty backing-write ranges'')
      else if list_ex (\<lambda>(addr, n). addr = 0 \<or> n = 0 \<or> n > UINT64_MAX - addr
             \<or> addr + n > UINT64_MAX - (PAGE_SIZE - 1)) ranges
      then Inl (Exit ''invalid backing-write range'')
      else Inr (merge_writes ranges 0 0))"

text \<open>
  \<open>FlushGpuModifiedToBacking\<close> for one buffer with its dirty ranges: the pages are reserved, the
  GPU data is written to the backing memory, and the CPU owns the buffer again. The
  reservations end when the vector of them goes out of scope.
\<close>

definition FlushBuffer :: "nat \<Rightarrow> (nat \<times> nat) list \<Rightarrow> nat \<Rightarrow> nat \<Rightarrow> gpu_memory \<Rightarrow>
    exit_reason + gpu_memory" where
  "FlushBuffer th ranges start bytes w =
     bindR (ReserveBackingWrites ranges) (\<lambda>writes.
     bindR (foldR (\<lambda>(v, n). BeginBackingWrite th v n) writes (gm_pages w)) (\<lambda>pm.
     bindR (ForEachDownloadRange th True start bytes (gm_buffer w, pm)) (\<lambda>(_, s).
     bindR (MarkRegionAsCpuModified th start bytes s) (\<lambda>(t, pm).
     bindR (foldR (\<lambda>(v, n). EndBackingWrite th v n) writes pm) (\<lambda>pm.
       Inr (w\<lparr>gm_buffer := t, gm_pages := pm\<rparr>))))))"

end
