(* ===== verification/DirtyInvariant.thy ===== *)
theory DirtyInvariant
  imports DirtyTracking Reachability
begin

text \<open>
  The invariant of the page manager with its three trackers: the watchers on every page are
  exactly the ones the trackers hold, so the host protection of a page says who owns its newest
  bytes. Every operation of the caches keeps it.
\<close>

section \<open>The invariant\<close>

definition cache_mode :: "gpu_cache \<Rightarrow> watch_mode" where
  "cache_mode c = (if c = MetadataSide then WatchWrite else WatchReadWrite)"

abbreviation cbits :: "gpu_cache \<Rightarrow> gpu_memory \<Rightarrow> nat \<Rightarrow> page_bits" where
  "cbits c w p \<equiv> tbits (get_tracker c w) p"

definition held_write :: "gpu_cache \<Rightarrow> gpu_memory \<Rightarrow> nat \<Rightarrow> nat" where
  "held_write c w p = write_share (cache_mode c) (cbits c w p)"

definition held_access :: "gpu_cache \<Rightarrow> gpu_memory \<Rightarrow> nat \<Rightarrow> nat" where
  "held_access c w p = access_share (cache_mode c) (cbits c w p)"

definition others :: "gpu_cache \<Rightarrow> (gpu_cache \<Rightarrow> nat) \<Rightarrow> nat" where
  "others c f = (case c of BufferSide \<Rightarrow> f TextureSide + f MetadataSide
     | TextureSide \<Rightarrow> f BufferSide + f MetadataSide
     | MetadataSide \<Rightarrow> f BufferSide + f TextureSide)"

definition all_caches :: "(gpu_cache \<Rightarrow> nat) \<Rightarrow> nat" where
  "all_caches f = f BufferSide + f TextureSide + f MetadataSide"

text \<open>
  A metadata page is either the CPU's or the GPU's: metadata is only ever uploaded to be
  written.
\<close>

definition cache_ok :: "gpu_cache \<Rightarrow> gpu_memory \<Rightarrow> bool" where
  "cache_ok c w \<longleftrightarrow> tk_ok (get_tracker c w) \<and> tk_mode (get_tracker c w) = cache_mode c
     \<and> (\<forall>p. bits_ok (cbits c w p) \<and> \<not> b_pending (cbits c w p)
           \<and> (c = MetadataSide \<longrightarrow> b_writable (cbits c w p) \<or> b_gpu (cbits c w p)))"

definition page_counted :: "gpu_memory \<Rightarrow> nat \<Rightarrow> bool" where
  "page_counted w p \<longleftrightarrow> wwatch (gm_pages w) p = all_caches (\<lambda>c. held_write c w p)
     \<and> awatch (gm_pages w) p = all_caches (\<lambda>c. held_access c w p)"

definition quiet_pages :: "gpu_memory \<Rightarrow> bool" where
  "quiet_pages w \<longleftrightarrow> pm_good (gm_pages w) \<and> (\<forall>th. \<not> pm_in_fault (gm_pages w) th)
     \<and> (\<forall>p. \<not> is_resolving (gm_pages w) p \<and> writer (gm_pages w) p = 0)"

definition quiet_workers :: "gpu_memory \<Rightarrow> bool" where
  "quiet_workers w \<longleftrightarrow> rb_state (gm_buffer_readback w) = RbIdle
     \<and> rb_state (gm_image_readback w) = RbIdle \<and> gm_fault_owner w = None"

definition dirty_inv :: "gpu_memory \<Rightarrow> bool" where
  "dirty_inv w \<longleftrightarrow> (\<forall>c. cache_ok c w) \<and> (\<forall>p. page_counted w p) \<and> quiet_pages w \<and> quiet_workers w"

lemma all_others: "all_caches f = others c f + f c"
  by (cases c) (simp_all add: all_caches_def others_def)

lemma share_bounds: "write_share m b \<le> 8" "access_share m b \<le> 8"
  by (simp_all add: write_share_def access_share_def)

lemma others_few: "few (\<lambda>p. others c (\<lambda>d. held_write d w p))" "few (\<lambda>p. others c (\<lambda>d. held_access d w p))"
proof -
  have le: "held_write d w p \<le> 8" "held_access d w p \<le> 8" for d p
    by (simp_all add: held_write_def held_access_def share_bounds)
  have bound: "others c f \<le> 16" if "\<And>d. f d \<le> 8" for f
    using that [of BufferSide] that [of TextureSide] that [of MetadataSide]
    unfolding others_def by (cases c) simp_all
  show "few (\<lambda>p. others c (\<lambda>d. held_write d w p))"
    unfolding few_def by (intro allI bound le(1))
  show "few (\<lambda>p. others c (\<lambda>d. held_access d w p))"
    unfolding few_def by (intro allI bound le(2))
qed

section \<open>From one tracker to all\<close>

abbreviation owc :: "gpu_cache \<Rightarrow> gpu_memory \<Rightarrow> nat \<Rightarrow> nat" where
  "owc c w \<equiv> \<lambda>p. others c (\<lambda>d. held_write d w p)"

abbreviation oac :: "gpu_cache \<Rightarrow> gpu_memory \<Rightarrow> nat \<Rightarrow> nat" where
  "oac c w \<equiv> \<lambda>p. others c (\<lambda>d. held_access d w p)"

lemma get_put [simp]: "get_tracker c (put_tracker c s w) = fst s" "gm_pages (put_tracker c s w) = snd s"
  "d \<noteq> c \<Longrightarrow> get_tracker d (put_tracker c s w) = get_tracker d w"
  "gm_buffer_readback (put_tracker c s w) = gm_buffer_readback w"
  "gm_image_readback (put_tracker c s w) = gm_image_readback w"
  "gm_fault_owner (put_tracker c s w) = gm_fault_owner w"
  by (cases c; cases d; simp add: get_tracker_def put_tracker_def; fail)+

lemma others_put [simp]: "others c (\<lambda>d. held_write d (put_tracker c s w) p) = others c (\<lambda>d. held_write d w p)"
  "others c (\<lambda>d. held_access d (put_tracker c s w) p) = others c (\<lambda>d. held_access d w p)"
  by (cases c; simp add: others_def held_write_def held_access_def; fail)+

lemma dirty_inv_ready:
  assumes "dirty_inv w"
  shows "ready th (owc c w) (oac c w) X (get_tracker c w) (gm_pages w)"
proof -
  have ok: "cache_ok c w" and counted: "\<And>p. page_counted w p" and pages: "quiet_pages w"
    using assms by (simp_all add: dirty_inv_def)
  have "tracker_inv (owc c w) (oac c w) X (get_tracker c w) (gm_pages w)"
    using ok counted
    unfolding tracker_inv_def cache_ok_def page_counted_def all_others [where c = c] held_write_def held_access_def
    by simp
  then show ?thesis using pages others_few by (simp add: ready_def quiet_pages_def)
qed

lemma dirty_inv_pages:
  assumes "dirty_inv w" and "0 \<notin> P" and "\<And>p. p \<in> P \<Longrightarrow> Q False 0 (cbits c w p)"
  shows "pages_ready {} P Q (get_tracker c w) (gm_pages w)"
  using assms by (simp add: pages_ready_def dirty_inv_def cache_ok_def quiet_pages_def)

lemma dirty_inv_step:
  assumes inv: "dirty_inv w"
    and step: "tracker_step (owc c w) (oac c w) {} (get_tracker c w, gm_pages w) P g s"
    and keep: "\<And>b. b_pending (g b) = b_pending b"
    and meta: "\<And>p. c = MetadataSide \<Longrightarrow> p \<in> P \<Longrightarrow> b_writable (g (cbits c w p)) \<or> b_gpu (g (cbits c w p))"
  shows "dirty_inv (put_tracker c s w)"
proof -
  obtain t' pm' where s: "s = (t', pm')" by (cases s)
  let ?w = "put_tracker c s w"
  have bits: "tbits t' p = (if p \<in> P then g (cbits c w p) else cbits c w p)" for p
    using step s by (simp add: tracker_step_def)
  have tinv: "tracker_inv (owc c w) (oac c w) {} t' pm'" and mode: "tk_mode t' = cache_mode c"
    using step s inv by (simp_all add: tracker_step_def dirty_inv_def cache_ok_def)
  have "cache_ok d ?w" for d
  proof (cases "d = c")
    case True
    have "bits_ok (tbits t' p) \<and> \<not> b_pending (tbits t' p)
        \<and> (c = MetadataSide \<longrightarrow> b_writable (tbits t' p) \<or> b_gpu (tbits t' p))" for p
    proof (intro conjI impI)
      show "bits_ok (tbits t' p)" using tinv by (simp add: tracker_inv_def)
      show "\<not> b_pending (tbits t' p)"
        using bits [of p] keep inv by (simp add: dirty_inv_def cache_ok_def)
      assume "c = MetadataSide"
      then show "b_writable (tbits t' p) \<or> b_gpu (tbits t' p)"
        using bits [of p] meta [of p] inv by (simp add: dirty_inv_def cache_ok_def)
    qed
    then show ?thesis using True tinv mode s by (simp add: cache_ok_def tracker_inv_def)
  next
    case False
    have "cache_ok d w" using inv by (simp add: dirty_inv_def)
    then show ?thesis unfolding cache_ok_def get_put(3) [OF False] .
  qed
  moreover have "page_counted ?w p" for p
    using tinv mode s unfolding page_counted_def all_others [where c = c] tracker_inv_def
    by (simp add: held_write_def [where c = c] held_access_def [where c = c])
  moreover have "quiet_pages ?w"
    using step s inv by (simp add: tracker_step_def dirty_inv_def quiet_pages_def later_def)
  moreover have "quiet_workers ?w" using inv by (simp add: dirty_inv_def quiet_workers_def)
  ultimately show ?thesis by (simp add: dirty_inv_def)
qed

lemma dirty_inv_start: "(\<And>p. committable (can p) (host p)) \<Longrightarrow> dirty_inv (gm_start host can)"
  by (simp add: dirty_inv_def gm_start_def cache_ok_def page_counted_def quiet_pages_def quiet_workers_def
      get_tracker_def tracker_start_def tk_ok_def tbits_def default_bits_def bits_ok_def cache_mode_def
      all_caches_def held_write_def held_access_def write_share_def access_share_def PM_start_def
      fresh_page_def pm_good_def pm_ok_def page_ok_fresh [unfolded fresh_page_def] slot_def idle_readback_def watched_def
      split: gpu_cache.splits)

section \<open>The operations on a range\<close>

text \<open>What an operation asks of the pages, and what it does to their bits.\<close>

fun op_guard :: "cache_op \<Rightarrow> page_bits \<Rightarrow> bool" where
  "op_guard MarkCpu b = (\<not> b_gpu b)"
| "op_guard MarkGpu b = (\<not> b_cpu b)"
| "op_guard UnmarkGpu b = b_gpu b"
| "op_guard Forget b = (\<not> b_gpu b)"
| "op_guard DownloadAll b = True"
| "op_guard (UploadAll is_written) b = True"

fun op_bits :: "cache_op \<Rightarrow> page_bits \<Rightarrow> page_bits" where
  "op_bits MarkCpu = own_cpu"
| "op_bits MarkGpu = own_gpu"
| "op_bits UnmarkGpu = drop_gpu"
| "op_bits Forget = forget"
| "op_bits DownloadAll = drop_gpu"
| "op_bits (UploadAll is_written) = (\<lambda>b. if is_written then own_gpu (clean b) else clean b)"

lemma op_bits_pending: "b_pending (op_bits op b) = b_pending b"
  by (cases op) (simp_all add: own_cpu_def own_gpu_def drop_gpu_def forget_def clean_def)

lemma pages_ready_mono:
  assumes "pages_ready X P Q t pm" and "\<And>res w b. Q res w b \<Longrightarrow> R res w b"
  shows "pages_ready X P R t pm"
  using assms by (simp add: pages_ready_def)

lemma cache_op_run_spec:
  assumes rdy: "ready th ow oa X t pm" and range: "ValidRange v n"
    and pages: "pages_ready X (set (page_list v n)) (\<lambda>res w b. op_guard op b \<and> \<not> res \<and> not_reserved th w) t pm"
  shows "\<exists>s. cache_op_run th op v n (t, pm) = Inr s
    \<and> tracker_step ow oa X (t, pm) (set (page_list v n)) (op_bits op) s"
proof (cases op)
  case MarkCpu
  have "pages_ready X (set (page_list v n)) (\<lambda>res w b. \<not> b_gpu b \<and> not_reserved th w) t pm"
    by (rule pages_ready_mono [OF pages]) (simp add: MarkCpu)
  from MarkRegionAsCpuModified_spec [OF rdy range this] show ?thesis unfolding MarkCpu by auto
next
  case MarkGpu
  have "pages_ready X (set (page_list v n)) (\<lambda>res w b. \<not> b_cpu b \<and> \<not> res) t pm"
    by (rule pages_ready_mono [OF pages]) (simp add: MarkGpu)
  from MarkRegionAsGpuModified_spec [OF rdy range this] show ?thesis unfolding MarkGpu by auto
next
  case UnmarkGpu
  have "pages_ready X (set (page_list v n)) (\<lambda>res w b. b_gpu b \<and> not_reserved th w) t pm"
    by (rule pages_ready_mono [OF pages]) (simp add: UnmarkGpu)
  from UnmarkRegionAsGpuModified_spec [OF rdy range this] show ?thesis unfolding UnmarkGpu by auto
next
  case Forget
  have "pages_ready X (set (page_list v n)) (\<lambda>res w b. \<not> b_gpu b \<and> not_reserved th w) t pm"
    by (rule pages_ready_mono [OF pages]) (simp add: Forget)
  from UntrackMemory_spec [OF rdy range this] show ?thesis unfolding Forget by auto
next
  case DownloadAll
  have "pages_ready X (set (page_list v n)) (\<lambda>res w b. not_reserved th w) t pm"
    by (rule pages_ready_mono [OF pages]) simp
  from ForEachDownloadRange_spec [OF rdy range this] show ?thesis unfolding DownloadAll by auto
next
  case (UploadAll is_written)
  have "pages_ready X (set (page_list v n)) (\<lambda>res w b. \<not> res) t pm"
    by (rule pages_ready_mono [OF pages]) simp
  from ForEachUploadRange_spec [OF rdy range this, of is_written] show ?thesis unfolding UploadAll by auto
qed

text \<open>
  A range that touches page 0 ends the process as soon as a watcher changes there, although
  \<open>ValidateRange\<close> accepts it; the operations below stay above it.
\<close>

definition op_range :: "nat \<Rightarrow> nat \<Rightarrow> bool" where
  "op_range v n \<longleftrightarrow> ValidRange v n \<and> PAGE_SIZE \<le> v"

lemma op_rangeD: "op_range v n \<Longrightarrow> ValidRange v n" "op_range v n \<Longrightarrow> 0 \<notin> set (page_list v n)"
  by (auto simp: op_range_def set_page_list PAGE_SIZE_def)

text \<open>The bits of cache \<open>c\<close> changed by \<open>g\<close> on the pages \<open>P\<close>, nothing else did.\<close>

definition cache_effect :: "gpu_cache \<Rightarrow> nat set \<Rightarrow> (page_bits \<Rightarrow> page_bits) \<Rightarrow> gpu_memory \<Rightarrow>
    gpu_memory \<Rightarrow> bool" where
  "cache_effect c P g w w' \<longleftrightarrow> dirty_inv w'
     \<and> (\<forall>p. cbits c w' p = (if p \<in> P then g (cbits c w p) else cbits c w p))
     \<and> (\<forall>d p. d \<noteq> c \<longrightarrow> cbits d w' p = cbits d w p)"

lemma put_effect:
  assumes "dirty_inv w"
    and "tracker_step (owc c w) (oac c w) {} (get_tracker c w, gm_pages w) P g s"
    and "\<And>b. b_pending (g b) = b_pending b"
    and "\<And>p. c = MetadataSide \<Longrightarrow> p \<in> P \<Longrightarrow> b_writable (g (cbits c w p)) \<or> b_gpu (g (cbits c w p))"
  shows "cache_effect c P g w (put_tracker c s w)"
  using assms(2) dirty_inv_step [OF assms] unfolding cache_effect_def tracker_step_def
  by (auto split: prod.splits)

lemma cache_op_effect:
  assumes inv: "dirty_inv w" and range: "op_range v n"
    and guard: "\<forall>p\<in>set (page_list v n). op_guard op (cbits c w p)"
    and meta: "c = MetadataSide \<Longrightarrow> op = UploadAll True"
  shows "\<exists>w'. on_tracker c (cache_op_run th op v n) w = Inr w'
    \<and> cache_effect c (set (page_list v n)) (op_bits op) w w'"
proof -
  have "pages_ready {} (set (page_list v n)) (\<lambda>res w b. op_guard op b \<and> \<not> res \<and> not_reserved th w)
      (get_tracker c w) (gm_pages w)"
    using guard op_rangeD(2) [OF range] by (intro dirty_inv_pages [OF inv]) (simp_all add: not_reserved_def)
  then obtain s where s: "cache_op_run th op v n (get_tracker c w, gm_pages w) = Inr s"
    "tracker_step (owc c w) (oac c w) {} (get_tracker c w, gm_pages w) (set (page_list v n)) (op_bits op) s"
    using cache_op_run_spec [OF dirty_inv_ready [OF inv] op_rangeD(1) [OF range]] by blast
  have "cache_effect c (set (page_list v n)) (op_bits op) w (put_tracker c s w)"
  proof (rule put_effect [OF inv s(2) op_bits_pending])
    fix p assume "c = MetadataSide"
    then show "b_writable (op_bits op (cbits c w p)) \<or> b_gpu (op_bits op (cbits c w p))"
      using meta by (simp add: own_gpu_def)
  qed
  then show ?thesis using s(1) by (simp add: on_tracker_def)
qed

lemma RetireMetadata_effect:
  assumes inv: "dirty_inv w" and range: "op_range v n"
    and guard: "gpu_modified \<or> (\<forall>p\<in>set (page_list v n). \<not> b_gpu (cbits MetadataSide w p))"
  shows "\<exists>w'. RetireMetadata th gpu_modified v n w = Inr w'
    \<and> cache_effect MetadataSide (set (page_list v n)) (\<lambda>b. forget (drop_gpu b)) w w'"
proof -
  let ?c = MetadataSide and ?P = "set (page_list v n)"
  have rdy: "ready th (owc ?c w) (oac ?c w) {} (get_tracker ?c w) (gm_pages w)"
    by (rule dirty_inv_ready [OF inv])
  have pages: "pages_ready {} ?P (\<lambda>res w b. True \<and> \<not> res \<and> not_reserved th w) (get_tracker ?c w) (gm_pages w)"
    using op_rangeD(2) [OF range] by (intro dirty_inv_pages [OF inv]) (simp_all add: not_reserved_def)
  have "\<exists>s. (if gpu_modified then cache_op_run th DownloadAll v n (get_tracker ?c w, gm_pages w)
        else Inr (get_tracker ?c w, gm_pages w)) = Inr s
    \<and> tracker_step (owc ?c w) (oac ?c w) {} (get_tracker ?c w, gm_pages w) ?P drop_gpu s"
  proof (cases gpu_modified)
    case True
    then show ?thesis
      using cache_op_run_spec [OF rdy op_rangeD(1) [OF range], of DownloadAll] pages by simp
  next
    case False
    then have "drop_gpu (cbits ?c w p) = cbits ?c w p" if "p \<in> ?P" for p
      using guard that by (simp add: drop_gpu_def)
    then show ?thesis using False step_refl [OF rdy] by simp
  qed
  then obtain t pm where s1: "(if gpu_modified then cache_op_run th DownloadAll v n (get_tracker ?c w, gm_pages w)
        else Inr (get_tracker ?c w, gm_pages w)) = Inr (t, pm)"
    "tracker_step (owc ?c w) (oac ?c w) {} (get_tracker ?c w, gm_pages w) ?P drop_gpu (t, pm)"
    by auto
  have "pages_ready {} ?P (\<lambda>res w b. op_guard Forget b \<and> \<not> res \<and> not_reserved th w) t pm"
    by (rule pages_ready_after [OF pages s1(2)]) (simp add: drop_gpu_def)
  then obtain s2 where s2: "cache_op_run th Forget v n (t, pm) = Inr s2"
    "tracker_step (owc ?c w) (oac ?c w) {} (t, pm) ?P (op_bits Forget) s2"
    using cache_op_run_spec [OF ready_step [OF rdy s1(2)] op_rangeD(1) [OF range]] by blast
  have step: "tracker_step (owc ?c w) (oac ?c w) {} (get_tracker ?c w, gm_pages w) ?P
      (\<lambda>b. forget (drop_gpu b)) s2"
    using tracker_step_then [OF s1(2) s2(2)] by simp
  have twice: "put_tracker ?c s2 (put_tracker ?c (t, pm) w) = put_tracker ?c s2 w"
    by (simp add: put_tracker_def)
  have same: "put_tracker ?c (get_tracker ?c w, gm_pages w) w = w"
    by (simp add: put_tracker_def get_tracker_def)
  have "RetireMetadata th gpu_modified v n w = Inr (put_tracker ?c s2 w)"
    using s1(1) s2(1) twice same
    by (cases gpu_modified) (simp_all add: RetireMetadata_def on_tracker_def del: cache_op_run.simps)
  moreover have "cache_effect ?c ?P (\<lambda>b. forget (drop_gpu b)) w (put_tracker ?c s2 w)"
    by (rule put_effect [OF inv step]) (simp_all add: forget_def drop_gpu_def)
  ultimately show ?thesis by blast
qed

end
