(* ===== verification/BackingFlush.thy ===== *)
theory BackingFlush
  imports DirtyInvariant
begin

text \<open>
  Flushing a GPU-dirty buffer to guest memory under backing-write reservations: the merged
  reservations cover exactly the pages of the dirty ranges, every step is possible, and the
  invariant holds again afterwards.
\<close>

section \<open>Reservations\<close>

definition all_pages :: "(nat \<times> nat) list \<Rightarrow> nat set" where
  "all_pages ws = (\<Union>x\<in>set ws. range_pages x)"

lemma all_pages_simps [simp]: "all_pages [] = {}" "all_pages (x # ws) = range_pages x \<union> all_pages ws"
  by (simp_all add: all_pages_def)

definition writes_ok :: "(nat \<times> nat) list \<Rightarrow> bool" where
  "writes_ok ws \<longleftrightarrow> (\<forall>x\<in>set ws. ValidRange (fst x) (snd x))
     \<and> sorted_wrt (\<lambda>x y. range_pages x \<inter> range_pages y = {}) ws"

lemma writes_ok_Cons:
  assumes "writes_ok (x # ws)"
  shows "ValidRange (fst x) (snd x)" and "writes_ok ws" and "range_pages x \<inter> all_pages ws = {}"
  using assms by (auto simp: writes_ok_def all_pages_def)

lemma writes_ok_ConsI:
  "ValidRange (fst x) (snd x) \<Longrightarrow> writes_ok ws \<Longrightarrow> range_pages x \<inter> all_pages ws = {} \<Longrightarrow> writes_ok (x # ws)"
  by (auto simp: writes_ok_def all_pages_def)

lemma begin_writes:
  assumes "pm_ok pm" and "\<not> pm_in_fault pm th" and "th \<noteq> 0" and "writes_ok ws"
    and "\<And>p. p \<in> all_pages ws \<Longrightarrow> \<not> is_resolving pm p \<and> 0 < awatch pm p"
  shows "\<exists>pm'. foldR (\<lambda>(v, n). BeginBackingWrite th v n) ws pm = Inr pm'
    \<and> pages_change pm pm' (wwatch pm) (awatch pm) (\<lambda>p. p \<in> all_pages ws \<or> is_resolving pm p)
        (\<lambda>p. if p \<in> all_pages ws then th else writer pm p)"
  using assms
proof (induction ws arbitrary: pm)
  case Nil
  then show ?case using pages_change_refl by simp
next
  case (Cons x ws)
  obtain v n where x: "x = (v, n)" by (cases x)
  note ok = writes_ok_Cons [OF Cons.prems(4)]
  obtain pm1 where pm1: "BeginBackingWrite th v n pm = Inr pm1"
    "pages_change pm pm1 (wwatch pm) (awatch pm)
        (\<lambda>p. p \<in> set (page_list v n) \<or> is_resolving pm p)
        (\<lambda>p. if p \<in> set (page_list v n) then th else writer pm p)"
    using BeginBackingWrite_spec [OF Cons.prems(1,2), of v n] ok(1) Cons.prems(3,5) x
    by (auto simp: range_pages_def)
  note ch = pages_changeD [OF pm1(2)]
  have "\<not> is_resolving pm1 p \<and> 0 < awatch pm1 p" if p: "p \<in> all_pages ws" for p
  proof -
    have "p \<notin> set (page_list v n)" using p ok(3) x by (auto simp: range_pages_def)
    then show ?thesis using Cons.prems(5) [of p] p fun_cong [OF ch(4), of p] fun_cong [OF ch(5), of p]
      by simp
  qed
  moreover have "\<not> pm_in_fault pm1 th" using ch(2) Cons.prems(2) by (simp add: later_def)
  ultimately obtain pm2 where pm2: "foldR (\<lambda>(v, n). BeginBackingWrite th v n) ws pm1 = Inr pm2"
    "pages_change pm1 pm2 (wwatch pm1) (awatch pm1) (\<lambda>p. p \<in> all_pages ws \<or> is_resolving pm1 p)
        (\<lambda>p. if p \<in> all_pages ws then th else writer pm1 p)"
    using Cons.IH [OF ch(1)] Cons.prems(3) ok(2) by blast
  have r: "(\<lambda>p. p \<in> all_pages ws \<or> is_resolving pm1 p) = (\<lambda>p. p \<in> all_pages (x # ws) \<or> is_resolving pm p)"
    by (rule ext) (use fun_cong [OF ch(5)] x in \<open>auto simp: range_pages_def\<close>)
  have b: "(\<lambda>p. if p \<in> all_pages ws then th else writer pm1 p)
      = (\<lambda>p. if p \<in> all_pages (x # ws) then th else writer pm p)"
    by (rule ext) (use fun_cong [OF ch(6)] x in \<open>auto simp: range_pages_def\<close>)
  have "pages_change pm pm2 (wwatch pm) (awatch pm) (\<lambda>p. p \<in> all_pages (x # ws) \<or> is_resolving pm p)
      (\<lambda>p. if p \<in> all_pages (x # ws) then th else writer pm p)"
    using pages_change_trans [OF pm1(2) pm2(2)] unfolding r b ch(3,4) .
  then show ?case using pm1(1) pm2(1) x by simp
qed

lemma end_writes:
  assumes "pm_ok pm" and "\<not> pm_in_fault pm th" and "th \<noteq> 0" and "writes_ok ws"
    and "\<And>p. p \<in> all_pages ws \<Longrightarrow> writer pm p = th"
  shows "\<exists>pm'. foldR (\<lambda>(v, n). EndBackingWrite th v n) ws pm = Inr pm'
    \<and> pages_change pm pm' (wwatch pm) (awatch pm) (\<lambda>p. p \<notin> all_pages ws \<and> is_resolving pm p)
        (\<lambda>p. if p \<in> all_pages ws then 0 else writer pm p)"
  using assms
proof (induction ws arbitrary: pm)
  case Nil
  then show ?case using pages_change_refl by simp
next
  case (Cons x ws)
  obtain v n where x: "x = (v, n)" by (cases x)
  note ok = writes_ok_Cons [OF Cons.prems(4)]
  obtain pm1 where pm1: "EndBackingWrite th v n pm = Inr pm1"
    "pages_change pm pm1 (wwatch pm) (awatch pm)
        (\<lambda>p. p \<notin> set (page_list v n) \<and> is_resolving pm p)
        (\<lambda>p. if p \<in> set (page_list v n) then 0 else writer pm p)"
    using EndBackingWrite_spec [OF Cons.prems(1,2), of v n] ok(1) Cons.prems(3,5) x
    by (auto simp: range_pages_def)
  note ch = pages_changeD [OF pm1(2)]
  have "writer pm1 p = th" if p: "p \<in> all_pages ws" for p
  proof -
    have "p \<notin> set (page_list v n)" using p ok(3) x by (auto simp: range_pages_def)
    then show ?thesis using Cons.prems(5) [of p] p fun_cong [OF ch(6), of p] by simp
  qed
  moreover have "\<not> pm_in_fault pm1 th" using ch(2) Cons.prems(2) by (simp add: later_def)
  ultimately obtain pm2 where pm2: "foldR (\<lambda>(v, n). EndBackingWrite th v n) ws pm1 = Inr pm2"
    "pages_change pm1 pm2 (wwatch pm1) (awatch pm1) (\<lambda>p. p \<notin> all_pages ws \<and> is_resolving pm1 p)
        (\<lambda>p. if p \<in> all_pages ws then 0 else writer pm1 p)"
    using Cons.IH [OF ch(1)] Cons.prems(3) ok(2) by blast
  have r: "(\<lambda>p. p \<notin> all_pages ws \<and> is_resolving pm1 p) = (\<lambda>p. p \<notin> all_pages (x # ws) \<and> is_resolving pm p)"
    by (rule ext) (use fun_cong [OF ch(5)] x in \<open>auto simp: range_pages_def\<close>)
  have b: "(\<lambda>p. if p \<in> all_pages ws then 0 else writer pm1 p)
      = (\<lambda>p. if p \<in> all_pages (x # ws) then 0 else writer pm p)"
    by (rule ext) (use fun_cong [OF ch(6)] x in \<open>auto simp: range_pages_def\<close>)
  have "pages_change pm pm2 (wwatch pm) (awatch pm) (\<lambda>p. p \<notin> all_pages (x # ws) \<and> is_resolving pm p)
      (\<lambda>p. if p \<in> all_pages (x # ws) then 0 else writer pm p)"
    using pages_change_trans [OF pm1(2) pm2(2)] unfolding r b ch(3,4) .
  then show ?case using pm1(1) pm2(1) x by simp
qed

section \<open>Merging the dirty ranges\<close>

text \<open>The dirty ranges of a buffer come sorted out of a \<open>RangeSet\<close>.\<close>

definition dirty_ranges :: "(nat \<times> nat) list \<Rightarrow> bool" where
  "dirty_ranges rs \<longleftrightarrow> rs \<noteq> [] \<and> (\<forall>r\<in>set rs. op_range (fst r) (snd r))
     \<and> sorted_wrt (\<lambda>a b. fst a + snd a \<le> fst b) rs"

definition page_span :: "nat \<Rightarrow> nat \<Rightarrow> nat \<times> nat" where
  "page_span s e = (s * PAGE_SIZE, e * PAGE_SIZE - s * PAGE_SIZE)"

lemma page_span_pages:
  assumes "s < e"
  shows "range_pages (page_span s e) = {s ..< e}"
proof -
  obtain k where k: "e = Suc k" "s \<le> k" using assms by (cases e) auto
  have "s * PAGE_SIZE + (e * PAGE_SIZE - s * PAGE_SIZE) - 1 = k * PAGE_SIZE + (PAGE_SIZE - 1)"
    using k by (simp add: PAGE_SIZE_def)
  moreover have "(k * PAGE_SIZE + (PAGE_SIZE - 1)) div PAGE_SIZE = k" by (simp add: PAGE_SIZE_def)
  moreover have "s * PAGE_SIZE div PAGE_SIZE = s" by (simp add: PAGE_SIZE_def)
  ultimately have "range_pages (page_span s e) = {p. s \<le> p \<and> p \<le> k}"
    unfolding range_pages_def set_page_list page_span_def fst_conv snd_conv by metis
  also have "\<dots> = {s ..< e}" unfolding k(1) by auto
  finally show ?thesis .
qed

lemma page_span_valid:
  assumes "0 < s" and "s < e" and "e * PAGE_SIZE \<le> ADDRESS_SIZE"
  shows "ValidRange (fst (page_span s e)) (snd (page_span s e))"
proof -
  have "s * PAGE_SIZE < e * PAGE_SIZE" using assms by (simp add: PAGE_SIZE_def)
  moreover have "0 < s * PAGE_SIZE" using assms by (simp add: PAGE_SIZE_def)
  ultimately have "s * PAGE_SIZE < ADDRESS_SIZE" "e * PAGE_SIZE - s * PAGE_SIZE \<le> ADDRESS_SIZE - s * PAGE_SIZE"
    "e * PAGE_SIZE - s * PAGE_SIZE \<noteq> 0" "s * PAGE_SIZE \<noteq> 0"
    using assms(3) by linarith+
  then show ?thesis unfolding ValidRange_def page_span_def fst_conv snd_conv by linarith
qed

text \<open>The first and the last page of a range, as the loop rounds them.\<close>

lemma range_ends:
  assumes "op_range a n"
  shows "(a + n + PAGE_SIZE - 1) div PAGE_SIZE = Suc ((a + n - 1) div PAGE_SIZE)"
    and "range_pages (a, n) = {a div PAGE_SIZE ..< Suc ((a + n - 1) div PAGE_SIZE)}"
    and "0 < a div PAGE_SIZE" and "a div PAGE_SIZE < Suc ((a + n - 1) div PAGE_SIZE)"
    and "Suc ((a + n - 1) div PAGE_SIZE) * PAGE_SIZE \<le> ADDRESS_SIZE"
proof -
  have n: "0 < n" "a + n \<le> ADDRESS_SIZE" "PAGE_SIZE \<le> a"
    using assms by (auto simp: op_range_def ValidRange_def)
  have "a + n + PAGE_SIZE - 1 = (a + n - 1) + PAGE_SIZE" using n by simp
  then show "(a + n + PAGE_SIZE - 1) div PAGE_SIZE = Suc ((a + n - 1) div PAGE_SIZE)"
    by (simp add: PAGE_SIZE_def)
  show "range_pages (a, n) = {a div PAGE_SIZE ..< Suc ((a + n - 1) div PAGE_SIZE)}"
    by (auto simp: range_pages_def set_page_list)
  show "0 < a div PAGE_SIZE" using n(3) by (simp add: PAGE_SIZE_def div_greater_zero_iff)
  show "a div PAGE_SIZE < Suc ((a + n - 1) div PAGE_SIZE)"
    using n(1) by (simp add: less_Suc_eq_le div_le_mono)
  have "(a + n - 1) div PAGE_SIZE < ADDRESS_SIZE div PAGE_SIZE"
  proof -
    have "a + n - 1 < ADDRESS_SIZE div PAGE_SIZE * PAGE_SIZE"
      using n by (simp add: PAGE_SIZE_def ADDRESS_SIZE_def)
    then show ?thesis by (rule less_mult_imp_div_less)
  qed
  then have "Suc ((a + n - 1) div PAGE_SIZE) * PAGE_SIZE \<le> ADDRESS_SIZE div PAGE_SIZE * PAGE_SIZE"
    by (intro mult_le_mono1) simp
  then show "Suc ((a + n - 1) div PAGE_SIZE) * PAGE_SIZE \<le> ADDRESS_SIZE"
    by (simp add: PAGE_SIZE_def ADDRESS_SIZE_def)
qed

lemma merge_writes_spec:
  assumes "s < e" and "0 < s" and "e * PAGE_SIZE \<le> ADDRESS_SIZE"
    and "\<forall>r\<in>set rs. op_range (fst r) (snd r) \<and> s \<le> fst r div PAGE_SIZE"
    and "sorted_wrt (\<lambda>a b. fst a + snd a \<le> fst b) rs"
  shows "all_pages (merge_writes rs (s * PAGE_SIZE) (e * PAGE_SIZE)) = {s ..< e} \<union> all_pages rs
    \<and> writes_ok (merge_writes rs (s * PAGE_SIZE) (e * PAGE_SIZE))"
  using assms
proof (induction rs arbitrary: s e)
  case Nil
  have "merge_writes [] (s * PAGE_SIZE) (e * PAGE_SIZE) = [page_span s e]" by (simp add: page_span_def)
  then show ?case using page_span_pages [OF Nil(1)] page_span_valid [OF Nil(2,1,3)]
    by (simp add: writes_ok_def)
next
  case (Cons r rs)
  obtain a n where r: "r = (a, n)" by (cases r)
  define b l where "b = a div PAGE_SIZE" and "l = Suc ((a + n - 1) div PAGE_SIZE)"
  have op: "op_range a n" and sb: "s \<le> b" using Cons.prems(4) r by (simp_all add: b_def)
  note ends = range_ends [OF op, folded b_def l_def]
  have later: "b \<le> fst q div PAGE_SIZE" if "q \<in> set rs" for q
  proof -
    have "a \<le> fst q" using Cons.prems(5) r that by auto
    then show ?thesis unfolding b_def by (rule div_le_mono)
  qed
  have rest: "\<forall>r\<in>set rs. op_range (fst r) (snd r)" "sorted_wrt (\<lambda>a b. fst a + snd a \<le> fst b) rs"
    using Cons.prems(4,5) by simp_all
  have s0: "s * PAGE_SIZE \<noteq> 0" using Cons.prems(2) by (simp add: PAGE_SIZE_def)
  have gt: "b * PAGE_SIZE > e * PAGE_SIZE \<longleftrightarrow> e < b" by (simp add: PAGE_SIZE_def)
  show ?case
  proof (cases "e < b")
    case True
    have eq: "merge_writes (r # rs) (s * PAGE_SIZE) (e * PAGE_SIZE)
        = page_span s e # merge_writes rs (b * PAGE_SIZE) (l * PAGE_SIZE)"
      using True s0 gt ends(1) r by (simp add: page_span_def b_def [symmetric] Let_def)
    have IH: "all_pages (merge_writes rs (b * PAGE_SIZE) (l * PAGE_SIZE)) = {b ..< l} \<union> all_pages rs
        \<and> writes_ok (merge_writes rs (b * PAGE_SIZE) (l * PAGE_SIZE))"
      using rest later by (intro Cons.IH [OF ends(4,3,5)]) auto
    have "p \<ge> b" if "p \<in> all_pages (merge_writes rs (b * PAGE_SIZE) (l * PAGE_SIZE))" for p
    proof -
      have "p \<ge> b" if "q \<in> set rs" "p \<in> range_pages q" for q
      proof -
        have "op_range (fst q) (snd q)" using rest(1) that(1) by simp
        from range_ends(2) [OF this] have "fst q div PAGE_SIZE \<le> p" using that(2) by simp
        then show ?thesis using later [OF that(1)] by simp
      qed
      then show ?thesis using IH that by (auto simp: all_pages_def)
    qed
    then have "{s ..< e} \<inter> all_pages (merge_writes rs (b * PAGE_SIZE) (l * PAGE_SIZE)) = {}"
      using True by fastforce
    then have "writes_ok (page_span s e # merge_writes rs (b * PAGE_SIZE) (l * PAGE_SIZE))"
      using IH page_span_pages [OF Cons.prems(1)] page_span_valid [OF Cons.prems(2,1,3)]
      by (intro writes_ok_ConsI) simp_all
    then show ?thesis unfolding eq using IH page_span_pages [OF Cons.prems(1)] ends(2) r by simp
  next
    case False
    have mx: "max (e * PAGE_SIZE) (l * PAGE_SIZE) = max e l * PAGE_SIZE" by (simp add: max_def PAGE_SIZE_def)
    have eq: "merge_writes (r # rs) (s * PAGE_SIZE) (e * PAGE_SIZE)
        = merge_writes rs (s * PAGE_SIZE) (max e l * PAGE_SIZE)"
      using False s0 gt ends(1) r mx by (simp add: b_def [symmetric] Let_def)
    have IH: "all_pages (merge_writes rs (s * PAGE_SIZE) (max e l * PAGE_SIZE))
          = {s ..< max e l} \<union> all_pages rs
        \<and> writes_ok (merge_writes rs (s * PAGE_SIZE) (max e l * PAGE_SIZE))"
    proof (intro Cons.IH Cons.prems(2) rest(2))
      show "s < max e l" using Cons.prems(1) by simp
      show "max e l * PAGE_SIZE \<le> ADDRESS_SIZE" using Cons.prems(3) ends(5) by (simp add: max_def)
      show "\<forall>r\<in>set rs. op_range (fst r) (snd r) \<and> s \<le> fst r div PAGE_SIZE"
        using rest(1) later sb by (meson order_trans)
    qed
    moreover have "{s ..< max e l} = {s ..< e} \<union> {b ..< l}" using False sb by auto
    ultimately show ?thesis unfolding eq using ends(2) r by auto
  qed
qed

lemma ReserveBackingWrites_spec:
  assumes "dirty_ranges rs"
  obtains ws where "ReserveBackingWrites rs = Inr ws" "writes_ok ws" "all_pages ws = all_pages rs"
proof -
  obtain a n qs where rs: "rs = (a, n) # qs" using assms by (cases rs) (auto simp: dirty_ranges_def)
  have op: "op_range a n" using assms rs by (simp add: dirty_ranges_def)
  define b l where "b = a div PAGE_SIZE" and "l = Suc ((a + n - 1) div PAGE_SIZE)"
  note ends = range_ends [OF op, folded b_def l_def]
  have eq: "merge_writes rs 0 0 = merge_writes qs (b * PAGE_SIZE) (l * PAGE_SIZE)"
    using ends(1) rs by (simp add: b_def [symmetric] Let_def)
  have "\<forall>r\<in>set qs. op_range (fst r) (snd r) \<and> b \<le> fst r div PAGE_SIZE"
    using assms rs by (auto simp: dirty_ranges_def b_def intro!: div_le_mono)
  then have spec: "all_pages (merge_writes rs 0 0) = all_pages rs \<and> writes_ok (merge_writes rs 0 0)"
    using merge_writes_spec [OF ends(4,3,5), of qs] assms ends(2) rs unfolding eq by (simp add: dirty_ranges_def)
  have "\<not> (\<lambda>(addr, n). addr = 0 \<or> n = 0 \<or> n > UINT64_MAX - addr
      \<or> addr + n > UINT64_MAX - (PAGE_SIZE - 1)) r" if "r \<in> set rs" for r
    using assms that
    by (auto simp: dirty_ranges_def op_range_def ValidRange_def ADDRESS_SIZE_def UINT64_MAX_def PAGE_SIZE_def
        split: prod.splits dest!: bspec)
  then have "\<not> list_ex (\<lambda>(addr, n). addr = 0 \<or> n = 0 \<or> n > UINT64_MAX - addr
      \<or> addr + n > UINT64_MAX - (PAGE_SIZE - 1)) rs"
    unfolding list_ex_iff by blast
  then have "ReserveBackingWrites rs = Inr (merge_writes rs 0 0)"
    using rs by (simp add: ReserveBackingWrites_def)
  then show thesis using that spec by blast
qed

section \<open>The flush\<close>

lemma ready_change:
  assumes "ready th ow oa X t pm" and "pages_change pm pm' (wwatch pm) (awatch pm) r b"
  shows "ready th ow oa X t pm'"
proof -
  note ch = pages_changeD [OF assms(2)]
  have "pm_good pm'"
    using assms(1) ch unfolding ready_def pm_good_def later_def by (metis committable_kept)
  then show ?thesis
    using assms(1) ch(2) fun_cong [OF ch(3)] fun_cong [OF ch(4)]
    by (simp add: ready_def tracker_inv_def later_def)
qed

lemma FlushBuffer_effect:
  assumes inv: "dirty_inv w" and range: "op_range v n" and "th \<noteq> 0" and rs: "dirty_ranges rs"
    and dirty: "\<forall>p\<in>all_pages rs. b_gpu (cbits BufferSide w p)"
  shows "\<exists>w'. FlushBuffer th rs v n w = Inr w'
    \<and> cache_effect BufferSide (set (page_list v n)) (\<lambda>b. own_cpu (drop_gpu b)) w w'"
proof -
  let ?c = BufferSide and ?P = "set (page_list v n)" and ?t = "gm_buffer w" and ?pm = "gm_pages w"
  have t: "get_tracker ?c w = ?t" by (simp add: get_tracker_def)
  obtain ws where ws: "ReserveBackingWrites rs = Inr ws" "writes_ok ws" "all_pages ws = all_pages rs"
    using ReserveBackingWrites_spec [OF rs] by blast
  have rdy: "ready th (owc ?c w) (oac ?c w) {} ?t ?pm" using dirty_inv_ready [OF inv, where c = ?c] t by simp
  have free: "\<not> is_resolving ?pm p" "writer ?pm p = 0" for p
    using inv by (simp_all add: dirty_inv_def quiet_pages_def)
  have "\<not> is_resolving ?pm p \<and> 0 < awatch ?pm p" if p: "p \<in> all_pages ws" for p
  proof -
    have "b_gpu (cbits ?c w p)" using dirty p ws(3) by blast
    then have "0 < held_access ?c w p" by (simp add: held_access_def access_share_def cache_mode_def)
    moreover have "page_counted w p" using inv by (simp add: dirty_inv_def)
    ultimately show ?thesis using free by (simp add: page_counted_def all_caches_def)
  qed
  then obtain pm1 where pm1: "foldR (\<lambda>(v, n). BeginBackingWrite th v n) ws ?pm = Inr pm1"
    "pages_change ?pm pm1 (wwatch ?pm) (awatch ?pm) (\<lambda>p. p \<in> all_pages ws \<or> is_resolving ?pm p)
        (\<lambda>p. if p \<in> all_pages ws then th else writer ?pm p)"
    using begin_writes [of ?pm th ws] rdy assms(3) ws(2) by (auto simp: ready_def pm_good_def)
  note ch1 = pages_changeD [OF pm1(2)]
  have rdy1: "ready th (owc ?c w) (oac ?c w) {} ?t pm1" by (rule ready_change [OF rdy pm1(2)])
  have w1: "writer pm1 p = (if p \<in> all_pages ws then th else 0)"
    "is_resolving pm1 p \<longleftrightarrow> p \<in> all_pages ws" for p
    using fun_cong [OF ch1(5), of p] fun_cong [OF ch1(6), of p] free by simp_all
  have pages1: "pages_ready {} ?P (\<lambda>res w b. not_reserved th w) ?t pm1"
    using op_rangeD(2) [OF range] w1(1) inv t
    by (auto simp: pages_ready_def not_reserved_def dirty_inv_def cache_ok_def dest: spec [of _ ?c])
  obtain xs t2 pm2 where s2: "ForEachDownloadRange th True v n (?t, pm1) = Inr (xs, t2, pm2)"
    "tracker_step (owc ?c w) (oac ?c w) {} (?t, pm1) ?P drop_gpu (t2, pm2)"
    using ForEachDownloadRange_spec [OF rdy1 op_rangeD(1) [OF range] pages1] by blast
  have rdy2: "ready th (owc ?c w) (oac ?c w) {} t2 pm2" by (rule ready_step [OF rdy1 s2(2)])
  have "pages_ready {} ?P (\<lambda>res w b. \<not> b_gpu b \<and> not_reserved th w) t2 pm2"
    by (rule pages_ready_after [OF pages1 s2(2)]) (simp add: drop_gpu_def)
  then obtain t3 pm3 where s3: "MarkRegionAsCpuModified th v n (t2, pm2) = Inr (t3, pm3)"
    "tracker_step (owc ?c w) (oac ?c w) {} (t2, pm2) ?P own_cpu (t3, pm3)"
    using MarkRegionAsCpuModified_spec [OF rdy2 op_rangeD(1) [OF range]] by blast
  note s13 = tracker_step_then [OF s2(2) s3(2)]
  have rdy3: "ready th (owc ?c w) (oac ?c w) {} t3 pm3" by (rule ready_step [OF rdy2 s3(2)])
  have w3: "writer pm3 p = writer pm1 p" "is_resolving pm3 p = is_resolving pm1 p" for p
    using s13 by (simp_all add: tracker_step_def)
  obtain pm4 where pm4: "foldR (\<lambda>(v, n). EndBackingWrite th v n) ws pm3 = Inr pm4"
    "pages_change pm3 pm4 (wwatch pm3) (awatch pm3) (\<lambda>p. p \<notin> all_pages ws \<and> is_resolving pm3 p)
        (\<lambda>p. if p \<in> all_pages ws then 0 else writer pm3 p)"
    using end_writes [of pm3 th ws] rdy3 assms(3) ws(2) w1 w3 by (auto simp: ready_def pm_good_def)
  note ch4 = pages_changeD [OF pm4(2)]
  have rdy4: "ready th (owc ?c w) (oac ?c w) {} t3 pm4" by (rule ready_change [OF rdy3 pm4(2)])
  have "tracker_step (owc ?c w) (oac ?c w) {} (?t, ?pm) ?P (\<lambda>b. own_cpu (drop_gpu b)) (t3, pm4)"
  proof -
    have same: "is_resolving pm4 p = is_resolving ?pm p" "writer pm4 p = writer ?pm p" for p
      using fun_cong [OF ch4(5), of p] fun_cong [OF ch4(6), of p] w1 w3 free by simp_all
    have "same_rest (pm_page ?pm p) (pm_page pm4 p)" for p
      using ch1(7) [of p] ch4(7) [of p] s13 by (simp add: tracker_step_def same_rest_def)
    moreover have "later ?pm pm4"
      using ch1(2) ch4(2) s13 by (auto simp: tracker_step_def intro: later_trans)
    ultimately show ?thesis using s13 rdy4 same by (simp add: tracker_step_def ready_def)
  qed
  then have "cache_effect ?c ?P (\<lambda>b. own_cpu (drop_gpu b)) w (put_tracker ?c (t3, pm4) w)"
    using t by (intro put_effect [OF inv]) (simp_all add: own_cpu_def drop_gpu_def)
  moreover have "FlushBuffer th rs v n w = Inr (put_tracker ?c (t3, pm4) w)"
    using ws(1) pm1(1) s2(1) s3(1) pm4(1) by (simp add: FlushBuffer_def put_tracker_def)
  ultimately show ?thesis by blast
qed

end
