(* ===== verification/FaultHandling.thy ===== *)
theory FaultHandling
  imports BackingFlush
begin

text \<open>
  A fault from the moment its page is claimed until it is released: what each phase of the
  buffer cache and the texture cache answers and leaves, and that the invariant holds again
  at the end, with the access that faulted now permitted.
\<close>

section \<open>The image worker\<close>

lemma page_start: "PageStart v = v div PAGE_SIZE * PAGE_SIZE" "PageStart v + PAGE_SIZE = Suc (v div PAGE_SIZE) * PAGE_SIZE"
  by (simp_all add: PageStart_def)

lemma span_pages_low:
  assumes "op_range a n" and "a div PAGE_SIZE < p"
  shows "op_range a (p * PAGE_SIZE - a) \<or> ADDRESS_SIZE < p * PAGE_SIZE"
    and "range_pages (a, p * PAGE_SIZE - a) = {a div PAGE_SIZE ..< p}" and "a < p * PAGE_SIZE"
proof -
  have lt: "a < p * PAGE_SIZE" using assms(2) by (simp add: PAGE_SIZE_def div_less_iff_less_mult)
  then show "a < p * PAGE_SIZE" .
  show "op_range a (p * PAGE_SIZE - a) \<or> ADDRESS_SIZE < p * PAGE_SIZE"
    using assms(1) lt by (auto simp: op_range_def ValidRange_def)
  obtain k where k: "p = Suc k" using assms(2) by (cases p) auto
  have "a + (p * PAGE_SIZE - a) - 1 = k * PAGE_SIZE + (PAGE_SIZE - 1)"
    using lt k by (simp add: PAGE_SIZE_def)
  moreover have "(k * PAGE_SIZE + (PAGE_SIZE - 1)) div PAGE_SIZE = k" by (simp add: PAGE_SIZE_def)
  ultimately have "range_pages (a, p * PAGE_SIZE - a) = {q. a div PAGE_SIZE \<le> q \<and> q \<le> k}"
    unfolding range_pages_def set_page_list fst_conv snd_conv by metis
  also have "\<dots> = {a div PAGE_SIZE ..< p}" unfolding k by auto
  finally show "range_pages (a, p * PAGE_SIZE - a) = {a div PAGE_SIZE ..< p}" .
qed

lemma span_pages_high:
  assumes "op_range a n" and "p * PAGE_SIZE < a + n" and "0 < p"
  shows "op_range (p * PAGE_SIZE) (a + n - p * PAGE_SIZE)"
    and "range_pages (p * PAGE_SIZE, a + n - p * PAGE_SIZE) = {p ..< Suc ((a + n - 1) div PAGE_SIZE)}"
proof -
  have "PAGE_SIZE \<le> p * PAGE_SIZE" "0 < p * PAGE_SIZE" using assms(3) by (simp_all add: PAGE_SIZE_def)
  moreover have "a + n \<le> ADDRESS_SIZE" using assms(1) by (auto simp: op_range_def ValidRange_def)
  ultimately show "op_range (p * PAGE_SIZE) (a + n - p * PAGE_SIZE)"
    using assms(2) unfolding op_range_def ValidRange_def by linarith
  have "p * PAGE_SIZE + (a + n - p * PAGE_SIZE) - 1 = a + n - 1" using assms(2) by simp
  moreover have "p * PAGE_SIZE div PAGE_SIZE = p" by (simp add: PAGE_SIZE_def)
  ultimately have "range_pages (p * PAGE_SIZE, a + n - p * PAGE_SIZE) = {q. p \<le> q \<and> q \<le> (a + n - 1) div PAGE_SIZE}"
    unfolding range_pages_def set_page_list fst_conv snd_conv by metis
  also have "\<dots> = {p ..< Suc ((a + n - 1) div PAGE_SIZE)}" by auto
  finally show "range_pages (p * PAGE_SIZE, a + n - p * PAGE_SIZE) = {p ..< Suc ((a + n - 1) div PAGE_SIZE)}" .
qed

lemma interval_without: "a \<le> p \<Longrightarrow> p < l \<Longrightarrow> {a ..< p} \<union> {Suc p ..< l} = {a ..< l} - {p::nat}"
  by auto

text \<open>Downloading a range or nothing at all.\<close>

lemma download_step:
  assumes "ready th ow oa X t pm" and "cond \<Longrightarrow> op_range a n"
    and "cond \<Longrightarrow> range_pages (a, n) = P" and "\<not> cond \<Longrightarrow> P = {}" and "P \<inter> X = {}"
    and "\<And>p. p \<in> P \<Longrightarrow> \<not> b_pending (tbits t p) \<and> writer pm p = 0"
  shows "\<exists>xs t' pm'. (if cond then ForEachDownloadRange th True a n (t, pm) else Inr ([], t, pm)) = Inr (xs, t', pm')
    \<and> tracker_step ow oa X (t, pm) P drop_gpu (t', pm')"
proof (cases cond)
  case True
  have P: "P = set (page_list a n)" using assms(3) [OF True] by (simp add: range_pages_def)
  have "pages_ready X (set (page_list a n)) (\<lambda>res w b. not_reserved th w) t pm"
    using assms(5,6) op_rangeD(2) [OF assms(2) [OF True]] unfolding P
    by (auto simp: pages_ready_def not_reserved_def)
  then show ?thesis
    using ForEachDownloadRange_spec [OF assms(1) op_rangeD(1) [OF assms(2) [OF True]]] True P by auto
next
  case False
  then show ?thesis using step_refl [OF assms(1), of P] assms(4) by simp
qed

lemma any_gpu_page:
  assumes "tk_ok t" and "\<not> pm_in_fault pm th" and "ValidRange v n"
  shows "IsRegionModified th GpuSide v n (t, pm)
    = Inr (\<exists>p\<in>set (page_list v n). b_gpu (tbits t p), t)"
proof -
  obtain u where "any_chunk False (\<lambda>r offset bytes. IsModified GpuSide offset bytes r)
      (range_chunks v n) t = Inr (\<exists>p\<in>(\<Union>c\<in>set (range_chunks v n). chunk_pages c).
        src_bit GpuSide (tbits t p), u)" "u = t"
    using any_chunk_spec [where create = False and src = GpuSide, OF assms(1) range_chunks_spec(1) [OF assms(3)]]
    by blast
  then show ?thesis using assms(2,3) unfolding range_chunks_spec(3) [OF assms(3)]
    by (simp add: IsRegionModified_def src_bit_def RequireMapped_def IsMapped_def)
qed

text \<open>The pages of the image other than the page of the fault.\<close>

definition image_rest :: "fault_env \<Rightarrow> nat \<Rightarrow> nat set" where
  "image_rest env v = (case fe_image env v of None \<Rightarrow> {} | Some img \<Rightarrow> range_pages img - {v div PAGE_SIZE})"

lemma image_worker_ready_spec:
  assumes v: "0 < v" "v < ADDRESS_SIZE" and img: "fe_image env v = Some (a, n)" "op_range a n"
    "v div PAGE_SIZE \<in> range_pages (a, n)"
    and rdy: "ready (fe_worker env) ow oa {v div PAGE_SIZE} (gm_texture w) (gm_pages w)"
    and free: "\<And>p. \<not> b_pending (tbits (gm_texture w) p) \<and> writer (gm_pages w) p = 0"
    and gpu: "b_gpu (tbits (gm_texture w) (v div PAGE_SIZE))"
    and rb: "gm_image_readback w = \<lparr>rb_state = RbRequested, rb_access = acc, rb_vaddr = v, rb_size = 1\<rparr>"
  shows "\<exists>t pm. image_worker_ready env (a, n) w = Inr (w\<lparr>gm_texture := t, gm_pages := pm,
      gm_image_readback := \<lparr>rb_state = RbReady, rb_access = acc, rb_vaddr = v, rb_size = 1\<rparr>\<rparr>)
    \<and> tracker_step ow oa {v div PAGE_SIZE} (gm_texture w, gm_pages w) (image_rest env v) drop_gpu (t, pm)"
proof -
  let ?p = "v div PAGE_SIZE" and ?th = "fe_worker env" and ?t = "gm_texture w" and ?pm = "gm_pages w"
  define l where "l = Suc ((a + n - 1) div PAGE_SIZE)"
  have pages: "range_pages (a, n) = {a div PAGE_SIZE ..< l}" unfolding l_def by (rule range_ends(2) [OF img(2)])
  have p: "a div PAGE_SIZE \<le> ?p" "?p < l" using img(3) unfolding pages by simp_all
  have top: "?p * PAGE_SIZE < ADDRESS_SIZE" using v(2) by (simp add: PAGE_SIZE_def)
  have lo: "PageStart v > a \<longleftrightarrow> a div PAGE_SIZE < ?p"
    unfolding page_start by (simp add: PAGE_SIZE_def div_less_iff_less_mult)
  have hi: "PageStart v + PAGE_SIZE < a + n \<longleftrightarrow> Suc ?p < l"
  proof -
    have "0 < n" using img(2) by (auto simp: op_range_def ValidRange_def)
    then have "Suc ?p * PAGE_SIZE < a + n \<longleftrightarrow> Suc ?p * PAGE_SIZE \<le> a + n - 1" by auto
    also have "\<dots> \<longleftrightarrow> Suc ?p \<le> (a + n - 1) div PAGE_SIZE" by (simp add: PAGE_SIZE_def less_eq_div_iff_mult_less_eq)
    finally show ?thesis unfolding page_start(2) l_def less_Suc_eq_le .
  qed
  have chk: "IsRegionModified ?th GpuSide v 1 (?t, ?pm) = Inr (True, ?t)"
    using any_gpu_page [OF _ _ fault_chunk(1) [OF v], of ?t ?pm ?th] rdy gpu fault_chunk(3) [OF v]
    by (simp add: ready_def tracker_inv_def)
  obtain xs1 t1 pm1 where d1: "(if PageStart v > a then ForEachDownloadRange ?th True a (PageStart v - a) (?t, ?pm)
      else Inr ([], ?t, ?pm)) = Inr (xs1, t1, pm1)"
    "tracker_step ow oa {?p} (?t, ?pm) {a div PAGE_SIZE ..< ?p} drop_gpu (t1, pm1)"
  proof -
    have "\<exists>xs t' pm'. (if PageStart v > a then ForEachDownloadRange ?th True a (PageStart v - a) (?t, ?pm)
        else Inr ([], ?t, ?pm)) = Inr (xs, t', pm')
      \<and> tracker_step ow oa {?p} (?t, ?pm) {a div PAGE_SIZE ..< ?p} drop_gpu (t', pm')"
    proof (rule download_step [OF rdy])
      assume c: "PageStart v > a"
      then have lt: "a div PAGE_SIZE < ?p" using lo by simp
      show "op_range a (PageStart v - a)"
        using span_pages_low(1) [OF img(2) lt] top unfolding page_start by auto
      show "range_pages (a, PageStart v - a) = {a div PAGE_SIZE ..< ?p}"
        using span_pages_low(2) [OF img(2) lt] unfolding page_start .
    qed (use lo free in auto)
    then show thesis using that by blast
  qed
  have rdy1: "ready ?th ow oa {?p} t1 pm1" by (rule ready_step [OF rdy d1(2)])
  have free1: "\<not> b_pending (tbits t1 q) \<and> writer pm1 q = 0" for q
    using d1(2) free by (simp add: tracker_step_def drop_gpu_def)
  obtain xs2 t2 pm2 where d2: "(if PageStart v + PAGE_SIZE < a + n
      then ForEachDownloadRange ?th True (PageStart v + PAGE_SIZE) (a + n - (PageStart v + PAGE_SIZE)) (t1, pm1)
      else Inr ([], t1, pm1)) = Inr (xs2, t2, pm2)"
    "tracker_step ow oa {?p} (t1, pm1) {Suc ?p ..< l} drop_gpu (t2, pm2)"
  proof -
    have "\<exists>xs t' pm'. (if PageStart v + PAGE_SIZE < a + n
        then ForEachDownloadRange ?th True (PageStart v + PAGE_SIZE) (a + n - (PageStart v + PAGE_SIZE)) (t1, pm1)
        else Inr ([], t1, pm1)) = Inr (xs, t', pm')
      \<and> tracker_step ow oa {?p} (t1, pm1) {Suc ?p ..< l} drop_gpu (t', pm')"
    proof (rule download_step [OF rdy1])
      assume c: "PageStart v + PAGE_SIZE < a + n"
      show "op_range (PageStart v + PAGE_SIZE) (a + n - (PageStart v + PAGE_SIZE))"
        using span_pages_high(1) [OF img(2) c [unfolded page_start(2)]] unfolding page_start(2) by simp
      show "range_pages (PageStart v + PAGE_SIZE, a + n - (PageStart v + PAGE_SIZE)) = {Suc ?p ..< l}"
        using span_pages_high(2) [OF img(2) c [unfolded page_start(2)]] unfolding page_start(2) l_def by simp
    qed (use hi free1 in auto)
    then show thesis using that by blast
  qed
  have "{a div PAGE_SIZE ..< ?p} \<union> {Suc ?p ..< l} = image_rest env v"
    unfolding image_rest_def img(1) option.case pages by (rule interval_without [OF p])
  moreover have "{a div PAGE_SIZE ..< ?p} \<inter> {Suc ?p ..< l} = {}" by (auto simp del: div_less)
  ultimately have "tracker_step ow oa {?p} (?t, ?pm) (image_rest env v) drop_gpu (t2, pm2)"
    using tracker_step_trans [OF d1(2) d2(2)] by simp
  moreover have "image_worker_ready env (a, n) w = Inr (w\<lparr>gm_texture := t2, gm_pages := pm2,
      gm_image_readback := \<lparr>rb_state = RbReady, rb_access = acc, rb_vaddr = v, rb_size = 1\<rparr>\<rparr>)"
    using chk d1(1) d2(1) rb by (simp add: image_worker_ready_def Let_def cong: if_cong split del: if_split)
  ultimately show ?thesis by blast
qed

section \<open>The phases in the buffer cache\<close>

definition readback_for :: "readback_state \<Rightarrow> fault_access \<Rightarrow> nat \<Rightarrow> readback" where
  "readback_for s a v = \<lparr>rb_state = s, rb_access = a, rb_vaddr = v, rb_size = 1\<rparr>"

lemma readback_for_simps [simp]:
  "rb_state (readback_for s a v) = s" "rb_access (readback_for s a v) = a"
  "rb_vaddr (readback_for s a v) = v" "rb_size (readback_for s a v) = 1"
  "(readback_for s a v)\<lparr>rb_state := s'\<rparr> = readback_for s' a v"
  by (simp_all add: readback_for_def)

lemma request_idle:
  "rb_state rb = RbIdle \<Longrightarrow> RequestReadback a v 1 rb = Inr (readback_for RbRequested a v)"
  by (cases rb) (simp add: RequestReadback_def readback_for_def)

lemma complete_ready:
  "CompleteReadback a v 1 (readback_for RbReady a v) = Inr (True, readback_for RbInstalled a v)"
  "ReadbackIsReady a v 1 (readback_for RbReady a v)"
  "ReleaseReadback a v 1 (readback_for RbInstalled a v) = Inr (True, readback_for RbCompleted a v)"
  by (simp_all add: CompleteReadback_def ReadbackIsReady_def ReleaseReadback_def readback_idle_def)

lemma complete_idle:
  "rb_state rb = RbIdle \<Longrightarrow> CompleteReadback a v 1 rb = Inr (False, rb)"
  "rb_state rb = RbIdle \<Longrightarrow> \<not> ReadbackIsReady a v 1 rb"
  "rb_state rb = RbIdle \<Longrightarrow> ReleaseReadback a v 1 rb = Inr (False, rb)"
  by (simp_all add: CompleteReadback_def ReadbackIsReady_def ReleaseReadback_def readback_idle_def)

lemma one_page_fault: "\<not> (1 = (0::nat) \<or> 1 > PageStart v + PAGE_SIZE - v)"
proof -
  have "v < PageStart v + PAGE_SIZE"
    unfolding page_start(2) by (metis dividend_less_div_times mult.commute mult_Suc PAGE_SIZE_def zero_less_numeral)
  then show ?thesis by simp
qed

text \<open>\<open>rb\<close> is the idle record of the worker before the fault.\<close>

definition readback_at :: "readback_state \<Rightarrow> bool \<Rightarrow> fault_access \<Rightarrow> nat \<Rightarrow> readback \<Rightarrow> readback" where
  "readback_at s active a v rb = (if active then readback_for s a v else rb)"

lemma BufferInvalidate_spec:
  assumes "tk_ok (gm_buffer w)" and v: "0 < v" "v < ADDRESS_SIZE" and a: "a = FaultRead \<or> a = FaultWrite"
    and b: "tbits (gm_buffer w) (v div PAGE_SIZE) = b" "bits_ok b" "\<not> b_pending b"
    and rb: "rb_state (gm_buffer_readback w) = RbIdle"
  shows "\<exists>t. BufferInvalidate a v 1 w = Inr (b_tracked b, w\<lparr>gm_buffer := t,
      gm_buffer_readback := readback_at RbReady (b_gpu b) a v (gm_buffer_readback w)\<rparr>)
    \<and> page_set (gm_buffer w) (v div PAGE_SIZE) (begin_bits a b) t"
proof -
  obtain t where t: "BeginCpuFault v 1 a (gm_buffer w) = Inr (begin_action b, t)"
    "page_set (gm_buffer w) (v div PAGE_SIZE) (begin_bits a b) t"
    using BeginCpuFault_page [OF assms(1) v a b] by blast
  have tracked: "b_gpu b \<Longrightarrow> b_tracked b" using b(2) by (auto simp: bits_ok_def)
  show ?thesis
    using t one_page_fault [of v] request_idle [OF rb] tracked
    by (cases "b_gpu b"; cases "b_tracked b")
      (auto simp: BufferInvalidate_def begin_action_def readback_at_def)
qed

lemma complete_begun:
  assumes "tk_ok t" and v: "0 < v" "v < ADDRESS_SIZE" and a: "a = FaultRead \<or> a = FaultWrite"
    and b: "tbits t (v div PAGE_SIZE) = begin_bits a b" "bits_ok b" "\<not> b_pending b"
  shows "\<exists>t'. CompleteCpuFault v 1 a (b_gpu b) t = Inr (b_tracked b, t')
    \<and> page_set t (v div PAGE_SIZE) (fault_bits a b) t'"
proof -
  note fb = fault_bits_cases [OF b(2,3)]
  have "(if b_pending (begin_bits a b) then complete_bits a (begin_bits a b) else begin_bits a b)
      = fault_bits a b"
    unfolding fb(6) by (simp add: fault_bits_def begin_bits_def)
  moreover have "\<exists>t'. CompleteCpuFault v 1 a (b_gpu b) t = Inr (b_pending (begin_bits a b), t')
      \<and> page_set t (v div PAGE_SIZE) (if b_pending (begin_bits a b)
          then complete_bits a (begin_bits a b) else begin_bits a b) t'"
    by (rule CompleteCpuFault_page [OF assms(1) v a b(1)]) (rule fb(7))
  ultimately show ?thesis by (simp only: fb(6))
qed

lemma BufferComplete_spec:
  assumes "tk_ok (gm_buffer w)" and v: "0 < v" "v < ADDRESS_SIZE" and a: "a = FaultRead \<or> a = FaultWrite"
    and b: "tbits (gm_buffer w) (v div PAGE_SIZE) = begin_bits a b" "bits_ok b" "\<not> b_pending b"
    and rb: "gm_buffer_readback w = readback_at RbReady (b_gpu b) a v rb" "rb_state rb = RbIdle"
  shows "\<exists>t. BufferComplete a v 1 w = Inr (b_tracked b, w\<lparr>gm_buffer := t,
      gm_buffer_readback := readback_at RbInstalled (b_gpu b) a v rb\<rparr>)
    \<and> page_set (gm_buffer w) (v div PAGE_SIZE) (fault_bits a b) t"
proof -
  obtain t where t: "CompleteCpuFault v 1 a (b_gpu b) (gm_buffer w) = Inr (b_tracked b, t)"
    "page_set (gm_buffer w) (v div PAGE_SIZE) (fault_bits a b) t"
    using complete_begun [OF assms(1) v a b] by blast
  have tracked: "b_gpu b \<Longrightarrow> b_tracked b" using b(2) by (auto simp: bits_ok_def)
  have "CompleteReadback a v 1 (gm_buffer_readback w)
      = Inr (b_gpu b, readback_at RbInstalled (b_gpu b) a v rb)"
    using rb complete_ready(1) complete_idle(1) by (simp add: readback_at_def)
  then show ?thesis using t one_page_fault [of v] tracked by (auto simp: BufferComplete_def)
qed

lemma BufferRelease_spec:
  assumes "gm_buffer_readback w = readback_at RbInstalled active a v rb" "rb_state rb = RbIdle"
  shows "BufferRelease a v 1 w
    = Inr (True, w\<lparr>gm_buffer_readback := readback_at RbIdle active a v rb\<rparr>)"
  using assms complete_ready(3) complete_idle(3) one_page_fault [of v]
  by (auto simp: BufferRelease_def readback_at_def)

section \<open>The phases in the texture cache\<close>

text \<open>
  \<open>env_ok\<close>: the image cache and its tracker agree on whether the page holds GPU data, the image
  found covers the page, and the worker is not the thread that faulted.
\<close>

definition env_ok :: "fault_env \<Rightarrow> nat \<Rightarrow> nat \<Rightarrow> tracker \<Rightarrow> bool" where
  "env_ok env th v t \<longleftrightarrow> fe_worker env \<noteq> th
     \<and> (case fe_image env v of
          None \<Rightarrow> \<not> b_gpu (tbits t (v div PAGE_SIZE))
        | Some img \<Rightarrow> b_gpu (tbits t (v div PAGE_SIZE)) \<and> op_range (fst img) (snd img)
            \<and> v div PAGE_SIZE \<in> range_pages img)"

definition begun_metadata :: "fault_access \<Rightarrow> page_bits \<Rightarrow> page_bits" where
  "begun_metadata a b = (if a = FaultWrite \<and> b_gpu b then begin_bits a b else b)"

definition faulted_metadata :: "fault_access \<Rightarrow> page_bits \<Rightarrow> page_bits" where
  "faulted_metadata a b = (if a = FaultWrite \<and> b_gpu b then fault_bits a b else b)"

lemma metadata_invalidate:
  assumes "tk_ok t" and v: "0 < v" "v < ADDRESS_SIZE"
    and b: "tbits t (v div PAGE_SIZE) = b" "bits_ok b" "\<not> b_pending b"
  shows "\<exists>t'. (if a = FaultWrite then virtual_gpu_write_invalidate a v 1 t else Inr (False, t))
      = Inr (a = FaultWrite \<and> b_gpu b, t')
    \<and> page_set t (v div PAGE_SIZE) (begun_metadata a b) t'"
proof (cases "a = FaultWrite")
  case True
  then show ?thesis using virtual_gpu_write_invalidate_page [OF assms(1) v b]
    by (cases "b_gpu b") (simp_all add: begun_metadata_def)
next
  case False
  then show ?thesis using page_set_refl [OF assms(1) b(1)] by (simp add: begun_metadata_def)
qed

lemma metadata_complete:
  assumes "tk_ok t" and v: "0 < v" "v < ADDRESS_SIZE"
    and b: "tbits t (v div PAGE_SIZE) = begun_metadata a b" "bits_ok b" "\<not> b_pending b"
  shows "\<exists>t'. (if a = FaultWrite then virtual_gpu_write_complete a v 1 t else Inr (False, t))
      = Inr (a = FaultWrite \<and> b_gpu b, t')
    \<and> page_set t (v div PAGE_SIZE) (faulted_metadata a b) t'"
proof (cases "a = FaultWrite")
  case True
  note fb = fault_bits_cases [OF b(2,3)]
  have gpu: "b_gpu b \<Longrightarrow> b_tracked b" using b(2) by (auto simp: bits_ok_def)
  have pend: "b_pending (begun_metadata a b) = b_gpu b"
    using True b(3) fb(6) gpu by (simp add: begun_metadata_def)
  have "b_pending (begun_metadata a b) \<Longrightarrow> b_gpu (begun_metadata a b)"
    using pend fb(7) True by (simp add: begun_metadata_def)
  then obtain t' where "virtual_gpu_write_complete FaultWrite v 1 t = Inr (b_gpu b, t')"
    "page_set t (v div PAGE_SIZE) (if b_gpu b then complete_bits FaultWrite (begun_metadata a b)
       else begun_metadata a b) t'"
    using virtual_gpu_write_complete_page [OF assms(1) v b(1)] pend by auto
  moreover have "(if b_gpu b then complete_bits FaultWrite (begun_metadata a b) else begun_metadata a b)
      = faulted_metadata a b"
    using True gpu by (simp add: begun_metadata_def faulted_metadata_def fault_bits_def)
  ultimately show ?thesis using True by auto
next
  case False
  then show ?thesis using page_set_refl [OF assms(1) b(1)]
    by (simp add: begun_metadata_def faulted_metadata_def)
qed

lemma TextureInvalidate_spec:
  assumes v: "0 < v" "v < ADDRESS_SIZE" and a: "a = FaultRead \<or> a = FaultWrite"
    and env: "env_ok env th v (gm_texture w)" and owner: "gm_fault_owner w = None"
    and rb: "rb_state (gm_image_readback w) = RbIdle" and tm: "tk_ok (gm_metadata w)"
    and bm: "tbits (gm_metadata w) (v div PAGE_SIZE) = bm" "bits_ok bm" "\<not> b_pending bm"
    and bt: "tbits (gm_texture w) (v div PAGE_SIZE) = bt" "bits_ok bt"
    and free: "\<And>p. \<not> b_pending (tbits (gm_texture w) p) \<and> writer (gm_pages w) p = 0"
    and rdy: "ready (fe_worker env) ow oa {v div PAGE_SIZE} (gm_texture w) (gm_pages w)"
  shows "\<exists>t1 t tm pm. TextureInvalidate env th a v 1 w
      = Inr ((a = FaultWrite \<and> b_gpu bm) \<or> b_tracked bt,
          w\<lparr>gm_fault_owner := Some th, gm_metadata := tm, gm_texture := t, gm_pages := pm,
            gm_image_readback := readback_at RbReady (b_gpu bt) a v (gm_image_readback w)\<rparr>)
    \<and> page_set (gm_metadata w) (v div PAGE_SIZE) (begun_metadata a bm) tm
    \<and> tracker_step ow oa {v div PAGE_SIZE} (gm_texture w, gm_pages w) (image_rest env v) drop_gpu (t1, pm)
    \<and> page_set t1 (v div PAGE_SIZE) (begin_bits a bt) t"
proof -
  let ?p = "v div PAGE_SIZE"
  obtain tm where tm': "(if a = FaultWrite then virtual_gpu_write_invalidate a v 1 (gm_metadata w)
        else Inr (False, gm_metadata w)) = Inr (a = FaultWrite \<and> b_gpu bm, tm)"
    "page_set (gm_metadata w) ?p (begun_metadata a bm) tm"
    using metadata_invalidate [OF tm v bm, of a] by blast
  let ?w = "w\<lparr>gm_fault_owner := Some th, gm_metadata := tm\<rparr>"
  have pend: "\<not> b_pending bt" using free bt(1) by blast
  have tracked: "b_gpu bt \<Longrightarrow> b_tracked bt" using bt(2) by (auto simp: bits_ok_def)
  have tok: "tk_ok (gm_texture w)" using rdy by (simp add: ready_def tracker_inv_def)
  show ?thesis
  proof (cases "fe_image env v")
    case None
    then have gpu: "\<not> b_gpu bt" using env bt(1) by (simp add: env_ok_def)
    obtain t where t: "BeginCpuFault v 1 a (gm_texture w) = Inr (begin_action bt, t)"
      "page_set (gm_texture w) ?p (begin_bits a bt) t"
      using BeginCpuFault_page [OF tok v a bt pend] by blast
    have act: "begin_action bt \<noteq> Download" "begin_action bt = Untracked \<longleftrightarrow> \<not> b_tracked bt"
      using gpu by (simp_all add: begin_action_def)
    have run: "TextureInvalidate env th a v 1 w = Inr ((a = FaultWrite \<and> b_gpu bm) \<or> b_tracked bt,
          w\<lparr>gm_fault_owner := Some th, gm_metadata := tm, gm_texture := t, gm_pages := gm_pages w,
            gm_image_readback := readback_at RbReady (b_gpu bt) a v (gm_image_readback w)\<rparr>)"
      using tm'(1) None t(1) gpu a owner
      by (auto simp: TextureInvalidate_def Let_def act readback_at_def)
    have "tracker_step ow oa {?p} (gm_texture w, gm_pages w) (image_rest env v) drop_gpu
        (gm_texture w, gm_pages w)"
      using None by (intro step_refl [OF rdy]) (simp add: image_rest_def)
    then show ?thesis using run tm'(2) t(2) by blast
  next
    case (Some img)
    obtain ia n where img: "img = (ia, n)" by (cases img)
    have e: "op_range ia n" "?p \<in> range_pages (ia, n)" "b_gpu bt"
      using env bt(1) Some img by (simp_all add: env_ok_def)
    let ?u = "?w\<lparr>gm_image_readback := readback_for RbRequested a v\<rparr>"
    obtain t1 pm where t1: "image_worker_ready env (ia, n) ?u = Inr (?u\<lparr>gm_texture := t1, gm_pages := pm,
        gm_image_readback := readback_for RbReady a v\<rparr>)"
      "tracker_step ow oa {?p} (gm_texture w, gm_pages w) (image_rest env v) drop_gpu (t1, pm)"
      using image_worker_ready_spec [OF v Some [unfolded img] e(1,2), of ow oa ?u a] rdy free bt(1) e(3)
      by (auto simp: readback_for_def)
    have "?p \<notin> image_rest env v" using Some by (simp add: image_rest_def)
    then have b1: "tbits t1 ?p = bt" "tk_ok t1"
      using t1(2) bt(1) by (simp_all add: tracker_step_def tracker_inv_def)
    obtain t where t: "BeginCpuFault v 1 a t1 = Inr (begin_action bt, t)"
      "page_set t1 ?p (begin_bits a bt) t"
      using BeginCpuFault_page [OF b1(2) v a b1(1) bt(2) pend] by blast
    have "begin_action bt = Download" using e(3) tracked by (simp add: begin_action_def)
    then have "TextureInvalidate env th a v 1 w = Inr ((a = FaultWrite \<and> b_gpu bm) \<or> b_tracked bt,
          w\<lparr>gm_fault_owner := Some th, gm_metadata := tm, gm_texture := t, gm_pages := pm,
            gm_image_readback := readback_at RbReady (b_gpu bt) a v (gm_image_readback w)\<rparr>)"
      using tm'(1) Some img t(1) t1(1) a owner request_idle [OF rb] e(3) tracked
      by (auto simp: TextureInvalidate_def Let_def readback_at_def)
    then show ?thesis using tm'(2) t1(2) t(2) by blast
  qed
qed

lemma TextureComplete_spec:
  assumes v: "0 < v" "v < ADDRESS_SIZE" and a: "a = FaultRead \<or> a = FaultWrite"
    and owner: "gm_fault_owner w = Some th" and ok: "tk_ok (gm_metadata w)" "tk_ok (gm_texture w)"
    and bm: "tbits (gm_metadata w) (v div PAGE_SIZE) = begun_metadata a bm" "bits_ok bm" "\<not> b_pending bm"
    and bt: "tbits (gm_texture w) (v div PAGE_SIZE) = begin_bits a bt" "bits_ok bt" "\<not> b_pending bt"
    and rb: "gm_image_readback w = readback_at RbReady (b_gpu bt) a v rb" "rb_state rb = RbIdle"
  shows "\<exists>t tm. TextureComplete th a v 1 w = Inr ((a = FaultWrite \<and> b_gpu bm) \<or> b_tracked bt,
      w\<lparr>gm_metadata := tm, gm_texture := t,
        gm_image_readback := readback_at RbInstalled (b_gpu bt) a v rb\<rparr>)
    \<and> page_set (gm_metadata w) (v div PAGE_SIZE) (faulted_metadata a bm) tm
    \<and> page_set (gm_texture w) (v div PAGE_SIZE) (fault_bits a bt) t"
proof -
  obtain tm where tm: "(if a = FaultWrite then virtual_gpu_write_complete a v 1 (gm_metadata w)
        else Inr (False, gm_metadata w)) = Inr (a = FaultWrite \<and> b_gpu bm, tm)"
    "page_set (gm_metadata w) (v div PAGE_SIZE) (faulted_metadata a bm) tm"
    using metadata_complete [OF ok(1) v bm] by blast
  obtain t where t: "CompleteCpuFault v 1 a (b_gpu bt) (gm_texture w) = Inr (b_tracked bt, t)"
    "page_set (gm_texture w) (v div PAGE_SIZE) (fault_bits a bt) t"
    using complete_begun [OF ok(2) v a bt] by blast
  have tracked: "b_gpu bt \<Longrightarrow> b_tracked bt" using bt(2) by (auto simp: bits_ok_def)
  have "ReadbackIsReady a v 1 (gm_image_readback w) = b_gpu bt"
    "CompleteReadback a v 1 (gm_image_readback w) = Inr (b_gpu bt, readback_at RbInstalled (b_gpu bt) a v rb)"
    using rb complete_ready(1,2) complete_idle(1,2) by (simp_all add: readback_at_def)
  then have "TextureComplete th a v 1 w = Inr ((a = FaultWrite \<and> b_gpu bm) \<or> b_tracked bt,
      w\<lparr>gm_metadata := tm, gm_texture := t,
        gm_image_readback := readback_at RbInstalled (b_gpu bt) a v rb\<rparr>)"
    using a owner tm(1) t(1) tracked by (auto simp: TextureComplete_def)
  then show ?thesis using tm(2) t(2) by blast
qed

lemma TextureRelease_spec:
  assumes a: "a = FaultRead \<or> a = FaultWrite" and owner: "gm_fault_owner w = Some th"
    and rb: "gm_image_readback w = readback_at RbInstalled active a v rb" "rb_state rb = RbIdle"
    and img: "active \<longleftrightarrow> fe_image env v \<noteq> None"
    and clear: "\<And>img. fe_image env v = Some img \<Longrightarrow> ValidRange (fst img) (snd img)
      \<and> (\<forall>p\<in>range_pages img. \<not> b_gpu (tbits (gm_texture w) p))"
    and ok: "tk_ok (gm_texture w)" and fault: "\<not> pm_in_fault (gm_pages w) (fe_worker env)"
  shows "TextureRelease env th a v 1 w = Inr (True, w\<lparr>gm_fault_owner := None,
      gm_image_readback := readback_at RbIdle active a v rb\<rparr>)"
proof (cases "fe_image env v")
  case None
  then show ?thesis using a owner rb img complete_idle(3) [OF rb(2)]
    by (simp add: TextureRelease_def Let_def readback_at_def)
next
  case (Some i)
  obtain ia n where i: "i = (ia, n)" by (cases i)
  have "IsRegionModified (fe_worker env) GpuSide ia n (gm_texture w, gm_pages w)
      = Inr (False, gm_texture w)"
    using any_gpu_page [OF ok fault, of ia n] clear [OF Some] i by (simp add: range_pages_def)
  then show ?thesis using a owner rb img Some i complete_ready(3)
    by (simp add: TextureRelease_def Let_def readback_at_def image_worker_done_def)
qed

section \<open>The whole fault\<close>

text \<open>What a resolved fault does to the bits of the three trackers.\<close>

definition fault_effect :: "fault_env \<Rightarrow> fault_access \<Rightarrow> nat \<Rightarrow> gpu_memory \<Rightarrow> gpu_memory \<Rightarrow> bool" where
  "fault_effect env a v w w' \<longleftrightarrow> (\<forall>q.
     cbits BufferSide w' q = (if q = v div PAGE_SIZE then fault_bits a (cbits BufferSide w q)
        else cbits BufferSide w q)
   \<and> cbits TextureSide w' q = (if q = v div PAGE_SIZE then fault_bits a (cbits TextureSide w q)
        else if q \<in> image_rest env v then drop_gpu (cbits TextureSide w q) else cbits TextureSide w q)
   \<and> cbits MetadataSide w' q = (if q = v div PAGE_SIZE then faulted_metadata a (cbits MetadataSide w q)
        else cbits MetadataSide w q))"

lemma get_simps: "get_tracker BufferSide w = gm_buffer w" "get_tracker TextureSide w = gm_texture w"
  "get_tracker MetadataSide w = gm_metadata w"
  by (simp_all add: get_tracker_def)

lemma cache_bits:
  assumes "dirty_inv w"
  shows "bits_ok (cbits c w p)" and "\<not> b_pending (cbits c w p)" and "tk_ok (get_tracker c w)"
    and "b_gpu (cbits c w p) \<Longrightarrow> b_tracked (cbits c w p)"
    and "\<not> b_writable (cbits c w p) \<Longrightarrow> b_tracked (cbits c w p)"
    and "\<not> b_writable (cbits MetadataSide w p) \<Longrightarrow> b_gpu (cbits MetadataSide w p)"
proof -
  have c: "cache_ok c w" and m: "cache_ok MetadataSide w" using assms by (simp_all add: dirty_inv_def)
  show "tk_ok (get_tracker c w)" using c by (simp add: cache_ok_def)
  show b: "bits_ok (cbits c w p)" "\<not> b_pending (cbits c w p)" using c by (simp_all add: cache_ok_def)
  then show "b_gpu (cbits c w p) \<Longrightarrow> b_tracked (cbits c w p)"
    "\<not> b_writable (cbits c w p) \<Longrightarrow> b_tracked (cbits c w p)" by (auto simp: bits_ok_def)
  show "\<not> b_writable (cbits MetadataSide w p) \<Longrightarrow> b_gpu (cbits MetadataSide w p)"
    using m by (auto simp: cache_ok_def)
qed

text \<open>A page with watchers has a tracker that answers the fault.\<close>

lemma fault_answered:
  assumes inv: "dirty_inv w" and "watched (pm_page (gm_pages w) p)" and a: "a = FaultRead \<or> a = FaultWrite"
    and read: "a = FaultRead \<Longrightarrow> 0 < awatch (gm_pages w) p"
  shows "b_tracked (cbits BufferSide w p) \<or> (a = FaultWrite \<and> b_gpu (cbits MetadataSide w p))
    \<or> b_tracked (cbits TextureSide w p)"
proof -
  have counted: "page_counted w p" using inv by (simp add: dirty_inv_def)
  note bits = cache_bits [OF inv]
  have acc: "b_gpu (cbits BufferSide w p) \<or> b_gpu (cbits TextureSide w p)" if "0 < awatch (gm_pages w) p"
    using that counted
    by (auto simp: page_counted_def all_caches_def held_access_def access_share_def cache_mode_def split: if_splits)
  show ?thesis
  proof (cases "0 < awatch (gm_pages w) p")
    case True
    then show ?thesis using acc bits(4) by blast
  next
    case False
    then have "a = FaultWrite" "0 < wwatch (gm_pages w) p"
      using a read assms(2) by (auto simp: watched_def)
    then have "\<not> b_writable (cbits BufferSide w p) \<or> \<not> b_writable (cbits TextureSide w p)
        \<or> \<not> b_writable (cbits MetadataSide w p) \<or> b_gpu (cbits MetadataSide w p)"
      using counted
      by (auto simp: page_counted_def all_caches_def held_write_def write_share_def cache_mode_def split: if_splits)
    then show ?thesis using bits(5,6) \<open>a = FaultWrite\<close> by blast
  qed
qed

text \<open>The watchers that remain are those the trackers still hold.\<close>

lemma faulted_shares:
  assumes "bits_ok b" and "\<not> b_pending b"
  shows "a = FaultWrite \<Longrightarrow> write_share m (fault_bits a b) = 0" and "access_share m (fault_bits a b) = 0"
    and "a = FaultRead \<Longrightarrow> write_share WatchReadWrite (fault_bits a b) = write_share WatchReadWrite b"
  using assms
  by (auto simp: fault_bits_def complete_bits_def begin_bits_def own_cpu_def drop_gpu_def bits_ok_def
      write_share_def access_share_def)

lemma faulted_metadata_shares:
  assumes "bits_ok b" and "\<not> b_pending b" and "\<not> b_writable b \<Longrightarrow> b_gpu b"
  shows "a = FaultWrite \<Longrightarrow> write_share WatchWrite (faulted_metadata a b) = 0"
    and "access_share WatchWrite (faulted_metadata a b) = 0"
    and "a = FaultRead \<Longrightarrow> faulted_metadata a b = b"
    and "bits_ok (faulted_metadata a b)" and "\<not> b_pending (faulted_metadata a b)"
    and "b_writable (faulted_metadata a b) \<or> b_gpu (faulted_metadata a b)"
proof -
  have gpu: "b_writable (fault_bits FaultWrite b)"
    using fault_bits_cases(1,4) [OF assms(1,2), of FaultWrite] by (simp add: bits_ok_def)
  show "write_share WatchWrite (faulted_metadata a b) = 0" if "a = FaultWrite"
  proof (cases "b_gpu b")
    case True
    then show ?thesis using faulted_shares(1) [OF assms(1,2) that] that by (simp add: faulted_metadata_def)
  next
    case False
    then show ?thesis using assms(3) by (auto simp: faulted_metadata_def write_share_def)
  qed
  show "access_share WatchWrite (faulted_metadata a b) = 0" by (simp add: access_share_def)
  show "a = FaultRead \<Longrightarrow> faulted_metadata a b = b" by (simp add: faulted_metadata_def)
  show "bits_ok (faulted_metadata a b)" "\<not> b_pending (faulted_metadata a b)"
    using fault_bits_cases(1,2) [OF assms(1,2)] assms(1,2) by (simp_all add: faulted_metadata_def)
  show "b_writable (faulted_metadata a b) \<or> b_gpu (faulted_metadata a b)"
    using gpu assms(3) by (auto simp: faulted_metadata_def)
qed

lemma ready_claimed:
  assumes inv: "dirty_inv w" and "th' \<noteq> th" and "page_ok (pg, pm_host (gm_pages w) p)"
    and "FindRegion p (gm_pages w)"
  shows "ready th' (owc c w) (oac c w) {p} (get_tracker c w)
    ((gm_pages w)\<lparr>pm_page := (pm_page (gm_pages w))(p := pg), pm_in_fault := (pm_in_fault (gm_pages w))(th := True)\<rparr>)"
proof -
  have "ready th' (owc c w) (oac c w) {p} (get_tracker c w) (gm_pages w)" by (rule dirty_inv_ready [OF inv])
  then show ?thesis using assms(2-)
    by (auto simp: ready_def tracker_inv_def pm_good_def pm_ok_def slot_def FindRegion_def)
qed

text \<open>
  The state between two phases: the page of the fault is resolving, its bits went through \<open>fb\<close>
  in the buffer and the image tracker and through \<open>fm\<close> in the metadata tracker, its watchers
  are those from before the fault, and everywhere else the watchers are counted.
\<close>

definition fault_phase :: "fault_env \<Rightarrow> fault_access \<Rightarrow> nat \<Rightarrow> nat \<Rightarrow> readback_state \<Rightarrow>
    (page_bits \<Rightarrow> page_bits) \<Rightarrow> (page_bits \<Rightarrow> page_bits) \<Rightarrow> gpu_memory \<Rightarrow> gpu_memory \<Rightarrow> bool" where
  "fault_phase env a v th st fb fm w u \<longleftrightarrow>
     (\<forall>c. tk_ok (get_tracker c u) \<and> tk_mode (get_tracker c u) = cache_mode c)
     \<and> (\<forall>q. cbits BufferSide u q = (if q = v div PAGE_SIZE then fb (cbits BufferSide w q)
           else cbits BufferSide w q))
     \<and> (\<forall>q. cbits TextureSide u q = (if q = v div PAGE_SIZE then fb (cbits TextureSide w q)
           else if q \<in> image_rest env v then drop_gpu (cbits TextureSide w q) else cbits TextureSide w q))
     \<and> (\<forall>q. cbits MetadataSide u q = (if q = v div PAGE_SIZE then fm (cbits MetadataSide w q)
           else cbits MetadataSide w q))
     \<and> pm_good (gm_pages u) \<and> (\<forall>t. \<not> pm_in_fault (gm_pages u) t)
     \<and> FindRegion (v div PAGE_SIZE) (gm_pages u)
     \<and> (\<forall>q. (is_resolving (gm_pages u) q \<longleftrightarrow> q = v div PAGE_SIZE) \<and> writer (gm_pages u) q = 0)
     \<and> wwatch (gm_pages u) (v div PAGE_SIZE) = wwatch (gm_pages w) (v div PAGE_SIZE)
     \<and> awatch (gm_pages u) (v div PAGE_SIZE) = awatch (gm_pages w) (v div PAGE_SIZE)
     \<and> (\<forall>q. q \<noteq> v div PAGE_SIZE \<longrightarrow>
           wwatch (gm_pages u) q = owc TextureSide w q + write_share WatchReadWrite (cbits TextureSide u q)
           \<and> awatch (gm_pages u) q = oac TextureSide w q + access_share WatchReadWrite (cbits TextureSide u q))
     \<and> gm_buffer_readback u = readback_at st (b_gpu (cbits BufferSide w (v div PAGE_SIZE))) a v (gm_buffer_readback w)
     \<and> gm_image_readback u = readback_at st (b_gpu (cbits TextureSide w (v div PAGE_SIZE))) a v (gm_image_readback w)
     \<and> gm_fault_owner u = Some th"

lemma fault_phaseD:
  assumes "fault_phase env a v th st fb fm w u"
  shows "tk_ok (get_tracker c u)" "tk_mode (get_tracker c u) = cache_mode c"
    and "cbits BufferSide u q = (if q = v div PAGE_SIZE then fb (cbits BufferSide w q)
           else cbits BufferSide w q)"
    and "cbits TextureSide u q = (if q = v div PAGE_SIZE then fb (cbits TextureSide w q)
           else if q \<in> image_rest env v then drop_gpu (cbits TextureSide w q) else cbits TextureSide w q)"
    and "cbits MetadataSide u q = (if q = v div PAGE_SIZE then fm (cbits MetadataSide w q)
           else cbits MetadataSide w q)"
    and "pm_good (gm_pages u)" "\<not> pm_in_fault (gm_pages u) t" "FindRegion (v div PAGE_SIZE) (gm_pages u)"
    and "is_resolving (gm_pages u) q \<longleftrightarrow> q = v div PAGE_SIZE" "writer (gm_pages u) q = 0"
    and "wwatch (gm_pages u) (v div PAGE_SIZE) = wwatch (gm_pages w) (v div PAGE_SIZE)"
    and "awatch (gm_pages u) (v div PAGE_SIZE) = awatch (gm_pages w) (v div PAGE_SIZE)"
    and "q \<noteq> v div PAGE_SIZE \<Longrightarrow>
           wwatch (gm_pages u) q = owc TextureSide w q + write_share WatchReadWrite (cbits TextureSide u q)
           \<and> awatch (gm_pages u) q = oac TextureSide w q + access_share WatchReadWrite (cbits TextureSide u q)"
    and "gm_buffer_readback u = readback_at st (b_gpu (cbits BufferSide w (v div PAGE_SIZE))) a v (gm_buffer_readback w)"
    and "gm_image_readback u = readback_at st (b_gpu (cbits TextureSide w (v div PAGE_SIZE))) a v (gm_image_readback w)"
    and "gm_fault_owner u = Some th"
  using assms unfolding fault_phase_def by blast+

lemma pm_good_in_fault [simp]: "pm_good (pm\<lparr>pm_in_fault := f\<rparr>) = pm_good pm"
  by (simp add: pm_good_def pm_ok_def slot_def FindRegion_def)

lemma FindRegion_in_fault [simp]: "FindRegion p (pm\<lparr>pm_in_fault := f\<rparr>) = FindRegion p pm"
  by (simp add: FindRegion_def)

lemma set_in_fault_simps [simp]:
  "get_tracker c (set_in_fault th b w) = get_tracker c w"
  "gm_pages (set_in_fault th b w) = (gm_pages w)\<lparr>pm_in_fault := (pm_in_fault (gm_pages w))(th := b)\<rparr>"
  "gm_buffer_readback (set_in_fault th b w) = gm_buffer_readback w"
  "gm_image_readback (set_in_fault th b w) = gm_image_readback w"
  "gm_fault_owner (set_in_fault th b w) = gm_fault_owner w"
  by (simp_all add: set_in_fault_def get_tracker_def split: gpu_cache.splits)

lemma all_cachesI: "P BufferSide \<Longrightarrow> P TextureSide \<Longrightarrow> P MetadataSide \<Longrightarrow> \<forall>c. P c"
  by (metis gpu_cache.exhaust)

lemma fault_invalidated:
  assumes inv: "dirty_inv w" and v: "0 < v" "v < ADDRESS_SIZE" and a: "a = FaultRead \<or> a = FaultWrite"
    and env: "env_ok env th v (gm_texture w)" and region: "FindRegion (v div PAGE_SIZE) (gm_pages w)"
    and watch: "watched (pm_page (gm_pages w) (v div PAGE_SIZE))"
      "a = FaultRead \<Longrightarrow> 0 < awatch (gm_pages w) (v div PAGE_SIZE)"
    and pg: "pg = (pm_page (gm_pages w) (v div PAGE_SIZE))\<lparr>resolving := True, resolving_read_write := rw\<rparr>"
    and ok: "page_ok (pg, pm_host (gm_pages w) (v div PAGE_SIZE))"
  shows "\<exists>u. fault_callback th (BufferInvalidate a v 1) (TextureInvalidate env th a v 1)
      (w\<lparr>gm_pages := (gm_pages w)\<lparr>pm_page := (pm_page (gm_pages w))(v div PAGE_SIZE := pg)\<rparr>\<rparr>) = Inr (True, u)
    \<and> fault_phase env a v th RbReady (begin_bits a) (begun_metadata a) w u"
proof -
  let ?p = "v div PAGE_SIZE" and ?wk = "fe_worker env" and ?pm = "gm_pages w"
  define bb bt bm where "bb = cbits BufferSide w ?p" and "bt = cbits TextureSide w ?p"
    and "bm = cbits MetadataSide w ?p"
  note bits = cache_bits [OF inv]
  have bb: "tbits (gm_buffer w) ?p = bb" "bits_ok bb" "\<not> b_pending bb"
    and bt: "tbits (gm_texture w) ?p = bt" "bits_ok bt" "\<not> b_pending bt"
    and bm: "tbits (gm_metadata w) ?p = bm" "bits_ok bm" "\<not> b_pending bm"
    using bits(1,2) [of BufferSide ?p] bits(1,2) [of TextureSide ?p] bits(1,2) [of MetadataSide ?p]
    by (simp_all add: bb_def bt_def bm_def get_simps)
  have tk: "tk_ok (gm_buffer w)" "tk_ok (gm_texture w)" "tk_ok (gm_metadata w)"
    using bits(3) [of BufferSide] bits(3) [of TextureSide] bits(3) [of MetadataSide] by (simp_all add: get_simps)
  have mode: "tk_mode (get_tracker c w) = cache_mode c" for c using inv by (simp add: dirty_inv_def cache_ok_def)
  have workers: "rb_state (gm_buffer_readback w) = RbIdle" "rb_state (gm_image_readback w) = RbIdle"
    "gm_fault_owner w = None" using inv by (simp_all add: dirty_inv_def quiet_workers_def)
  have calm: "\<not> is_resolving ?pm q" "writer ?pm q = 0" "\<not> pm_in_fault ?pm th'" for q th'
    using inv by (simp_all add: dirty_inv_def quiet_pages_def)
  define pm1 where "pm1 = ?pm\<lparr>pm_page := (pm_page ?pm)(?p := pg),
      pm_in_fault := (pm_in_fault ?pm)(th := True)\<rparr>"
  have rdy1: "ready ?wk (owc TextureSide w) (oac TextureSide w) {?p} (gm_texture w) pm1"
    using ready_claimed [OF inv _ ok region, where c = TextureSide] env
    by (simp add: pm1_def get_simps env_ok_def)
  have w1: "writer pm1 q = 0" "is_resolving pm1 q \<longleftrightarrow> q = ?p" "wwatch pm1 q = wwatch ?pm q"
    "awatch pm1 q = awatch ?pm q" for q
    using calm by (simp_all add: pm1_def pg)
  let ?w1 = "set_in_fault th True (w\<lparr>gm_pages := ?pm\<lparr>pm_page := (pm_page ?pm)(?p := pg)\<rparr>\<rparr>)"
  have pages1: "gm_pages ?w1 = pm1" by (simp add: set_in_fault_def pm1_def)
  obtain tb where tb: "BufferInvalidate a v 1 ?w1 = Inr (b_tracked bb, ?w1\<lparr>gm_buffer := tb,
      gm_buffer_readback := readback_at RbReady (b_gpu bb) a v (gm_buffer_readback w)\<rparr>)"
    "page_set (gm_buffer w) ?p (begin_bits a bb) tb"
    using BufferInvalidate_spec [of ?w1, OF _ v a _ bb(2,3)] tk(1) bb(1) workers(1)
    by (auto simp: set_in_fault_def)
  let ?w2 = "?w1\<lparr>gm_buffer := tb,
      gm_buffer_readback := readback_at RbReady (b_gpu bb) a v (gm_buffer_readback w)\<rparr>"
  obtain t1 tt tm pm2 where ti: "TextureInvalidate env th a v 1 ?w2
      = Inr ((a = FaultWrite \<and> b_gpu bm) \<or> b_tracked bt,
          ?w2\<lparr>gm_fault_owner := Some th, gm_metadata := tm, gm_texture := tt, gm_pages := pm2,
            gm_image_readback := readback_at RbReady (b_gpu bt) a v (gm_image_readback w)\<rparr>)"
    "page_set (gm_metadata w) ?p (begun_metadata a bm) tm"
    "tracker_step (owc TextureSide w) (oac TextureSide w) {?p} (gm_texture w, pm1) (image_rest env v) drop_gpu (t1, pm2)"
    "page_set t1 ?p (begin_bits a bt) tt"
  proof -
    have "\<exists>t1 t tm pm. TextureInvalidate env th a v 1 ?w2
      = Inr ((a = FaultWrite \<and> b_gpu bm) \<or> b_tracked bt,
          ?w2\<lparr>gm_fault_owner := Some th, gm_metadata := tm, gm_texture := t, gm_pages := pm,
            gm_image_readback := readback_at RbReady (b_gpu bt) a v (gm_image_readback ?w2)\<rparr>)
      \<and> page_set (gm_metadata ?w2) ?p (begun_metadata a bm) tm
      \<and> tracker_step (owc TextureSide w) (oac TextureSide w) {?p} (gm_texture ?w2, gm_pages ?w2) (image_rest env v) drop_gpu (t1, pm)
      \<and> page_set t1 ?p (begin_bits a bt) t"
    proof (rule TextureInvalidate_spec [OF v a])
      show "\<not> b_pending (tbits (gm_texture ?w2) q) \<and> writer (gm_pages ?w2) q = 0" for q
        using bits(2) [of TextureSide q] w1(1) pages1 by (simp add: set_in_fault_def get_simps)
    qed (use env workers tk bm bt rdy1 pages1 in \<open>simp_all add: set_in_fault_def\<close>)
    then show thesis using that pages1 by (auto simp: set_in_fault_def)
  qed
  let ?u = "set_in_fault th False (?w2\<lparr>gm_fault_owner := Some th, gm_metadata := tm, gm_texture := tt,
      gm_pages := pm2, gm_image_readback := readback_at RbReady (b_gpu bt) a v (gm_image_readback w)\<rparr>)"
  have "b_tracked bb \<or> (a = FaultWrite \<and> b_gpu bm) \<or> b_tracked bt"
    using fault_answered [OF inv watch(1) a watch(2)] by (simp add: bb_def bt_def bm_def)
  then have "fault_callback th (BufferInvalidate a v 1) (TextureInvalidate env th a v 1)
      (w\<lparr>gm_pages := ?pm\<lparr>pm_page := (pm_page ?pm)(?p := pg)\<rparr>\<rparr>) = Inr (True, ?u)"
    using tb(1) ti(1) by (simp add: fault_callback_def)
  moreover have "fault_phase env a v th RbReady (begin_bits a) (begun_metadata a) w ?u"
  proof -
    define u where "u = ?u"
    have get: "get_tracker BufferSide u = tb" "get_tracker TextureSide u = tt" "get_tracker MetadataSide u = tm"
      by (simp_all add: u_def get_simps)
    have pages: "gm_pages u = pm2\<lparr>pm_in_fault := (pm_in_fault pm2)(th := False)\<rparr>" by (simp add: u_def)
    have step: "later pm1 pm2" "pm_good pm2" "tk_mode t1 = tk_mode (gm_texture w)"
      "\<And>q. is_resolving pm2 q = is_resolving pm1 q \<and> writer pm2 q = writer pm1 q"
      "\<And>q. tbits t1 q = (if q \<in> image_rest env v then drop_gpu (tbits (gm_texture w) q) else tbits (gm_texture w) q)"
      "wwatch pm2 ?p = wwatch pm1 ?p" "awatch pm2 ?p = awatch pm1 ?p"
      "tracker_inv (owc TextureSide w) (oac TextureSide w) {?p} t1 pm2"
      using ti(3) by (simp_all add: tracker_step_def)
    have same: "tbits tt q = tbits t1 q" if "q \<noteq> ?p" for q using ti(4) that by (simp add: page_set_def)
    have tmode: "tk_mode t1 = WatchReadWrite" using step(3) mode [of TextureSide] by (simp add: get_simps cache_mode_def)
    have "fault_phase env a v th RbReady (begin_bits a) (begun_metadata a) w u"
      unfolding fault_phase_def
    proof (intro conjI allI impI)
      fix c
      show "tk_ok (get_tracker c u)" "tk_mode (get_tracker c u) = cache_mode c"
        using tb(2) ti(2,4) tmode mode [of BufferSide] mode [of MetadataSide] get
        by (cases c; simp add: page_set_def get_simps cache_mode_def)+
    next
      fix q
      show "cbits BufferSide u q = (if q = ?p then begin_bits a (cbits BufferSide w q) else cbits BufferSide w q)"
        using tb(2) get by (simp add: page_set_def get_simps bb_def)
      show "cbits TextureSide u q = (if q = ?p then begin_bits a (cbits TextureSide w q)
           else if q \<in> image_rest env v then drop_gpu (cbits TextureSide w q) else cbits TextureSide w q)"
        using ti(4) step(5) get by (simp add: page_set_def get_simps bt_def)
      show "cbits MetadataSide u q = (if q = ?p then begun_metadata a (cbits MetadataSide w q) else cbits MetadataSide w q)"
        using ti(2) get by (simp add: page_set_def get_simps bm_def)
      show "(is_resolving (gm_pages u) q) = (q = ?p)" "writer (gm_pages u) q = 0"
        using step(4) w1 pages by simp_all
      assume "q \<noteq> ?p"
      then show "wwatch (gm_pages u) q = owc TextureSide w q + write_share WatchReadWrite (cbits TextureSide u q)"
        "awatch (gm_pages u) q = oac TextureSide w q + access_share WatchReadWrite (cbits TextureSide u q)"
        using step(8) tmode same [of q] pages get by (simp_all add: tracker_inv_def)
    next
      show "pm_good (gm_pages u)" using step(2) pages by simp
      show "FindRegion ?p (gm_pages u)" using step(1) region pages by (simp add: later_def pm1_def FindRegion_def)
      show "wwatch (gm_pages u) ?p = wwatch (gm_pages w) ?p" "awatch (gm_pages u) ?p = awatch (gm_pages w) ?p"
        using step(6,7) w1(3,4) pages by simp_all
      show "\<not> pm_in_fault (gm_pages u) t" for t
        using step(1) calm(3) pages by (simp add: later_def pm1_def)
    qed (simp_all add: u_def bb_def bt_def)
    then show ?thesis by (simp add: u_def)
  qed
  ultimately show ?thesis by blast
qed

lemma fault_completed:
  assumes inv: "dirty_inv w" and v: "0 < v" "v < ADDRESS_SIZE" and a: "a = FaultRead \<or> a = FaultWrite"
    and phase: "fault_phase env a v th RbReady (begin_bits a) (begun_metadata a) w u"
    and answered: "b_tracked (cbits BufferSide w (v div PAGE_SIZE))
      \<or> (a = FaultWrite \<and> b_gpu (cbits MetadataSide w (v div PAGE_SIZE)))
      \<or> b_tracked (cbits TextureSide w (v div PAGE_SIZE))"
  shows "\<exists>u'. fault_callback th (BufferComplete a v 1) (TextureComplete th a v 1) u = Inr (True, u')
    \<and> fault_phase env a v th RbInstalled (fault_bits a) (faulted_metadata a) w u'"
proof -
  let ?p = "v div PAGE_SIZE"
  define bb bt bm where "bb = cbits BufferSide w ?p" and "bt = cbits TextureSide w ?p"
    and "bm = cbits MetadataSide w ?p"
  note bits = cache_bits [OF inv] and ph = fault_phaseD [OF phase]
  have ok: "bits_ok bb" "\<not> b_pending bb" "bits_ok bt" "\<not> b_pending bt" "bits_ok bm" "\<not> b_pending bm"
    using bits(1,2) by (simp_all add: bb_def bt_def bm_def del: get_simps)
  have now: "tbits (gm_buffer u) ?p = begin_bits a bb" "tbits (gm_texture u) ?p = begin_bits a bt"
    "tbits (gm_metadata u) ?p = begun_metadata a bm"
    using ph(3-5) [of ?p] by (simp_all add: bb_def bt_def bm_def get_simps)
  have tk: "tk_ok (gm_buffer u)" "tk_ok (gm_texture u)" "tk_ok (gm_metadata u)"
    using ph(1) [of BufferSide] ph(1) [of TextureSide] ph(1) [of MetadataSide] by (simp_all add: get_simps)
  have idle: "rb_state (gm_buffer_readback w) = RbIdle" "rb_state (gm_image_readback w) = RbIdle"
    using inv by (simp_all add: dirty_inv_def quiet_workers_def)
  let ?u = "set_in_fault th True u"
  have fields: "gm_buffer ?u = gm_buffer u" "gm_texture ?u = gm_texture u" "gm_metadata ?u = gm_metadata u"
    by (simp_all add: set_in_fault_def)
  obtain tb where tb: "BufferComplete a v 1 ?u = Inr (b_tracked bb, ?u\<lparr>gm_buffer := tb,
      gm_buffer_readback := readback_at RbInstalled (b_gpu bb) a v (gm_buffer_readback w)\<rparr>)"
    "page_set (gm_buffer u) ?p (fault_bits a bb) tb"
    using BufferComplete_spec [of ?u, OF _ v a _ ok(1,2) _ idle(1)] tk(1) now(1) ph(14)
    by (auto simp: fields bb_def)
  let ?u2 = "?u\<lparr>gm_buffer := tb,
      gm_buffer_readback := readback_at RbInstalled (b_gpu bb) a v (gm_buffer_readback w)\<rparr>"
  obtain tt tm where tt: "TextureComplete th a v 1 ?u2 = Inr ((a = FaultWrite \<and> b_gpu bm) \<or> b_tracked bt,
      ?u2\<lparr>gm_metadata := tm, gm_texture := tt,
        gm_image_readback := readback_at RbInstalled (b_gpu bt) a v (gm_image_readback w)\<rparr>)"
    "page_set (gm_metadata u) ?p (faulted_metadata a bm) tm" "page_set (gm_texture u) ?p (fault_bits a bt) tt"
    using TextureComplete_spec [of v a ?u2 th bm bt, OF v a _ _ _ _ ok(5,6) _ ok(3,4) _ idle(2)] tk now ph(15,16)
    by (auto simp: fields bt_def)
  define u' where "u' = set_in_fault th False (?u2\<lparr>gm_metadata := tm, gm_texture := tt,
        gm_image_readback := readback_at RbInstalled (b_gpu bt) a v (gm_image_readback w)\<rparr>)"
  have "fault_callback th (BufferComplete a v 1) (TextureComplete th a v 1) u = Inr (True, u')"
    using tb(1) tt(1) answered by (simp add: fault_callback_def u'_def bb_def bt_def bm_def)
  moreover have get: "get_tracker BufferSide u' = tb" "get_tracker TextureSide u' = tt"
    "get_tracker MetadataSide u' = tm" by (simp_all add: u'_def get_simps)
  have pages: "gm_pages u' = gm_pages u"
    using ph(7) [of th] by (simp add: u'_def fun_upd_idem)
  have "fault_phase env a v th RbInstalled (fault_bits a) (faulted_metadata a) w u'"
    unfolding fault_phase_def
  proof (intro conjI allI impI)
    fix c
    show "tk_ok (get_tracker c u')" "tk_mode (get_tracker c u') = cache_mode c"
      using tb(2) tt(2,3) ph(2) [of BufferSide] ph(2) [of TextureSide] ph(2) [of MetadataSide] get
      by (cases c; simp add: page_set_def get_simps)+
  next
    fix q
    show "cbits BufferSide u' q = (if q = ?p then fault_bits a (cbits BufferSide w q) else cbits BufferSide w q)"
      using tb(2) ph(3) [of q] get by (simp add: page_set_def get_simps bb_def)
    show "cbits TextureSide u' q = (if q = ?p then fault_bits a (cbits TextureSide w q)
         else if q \<in> image_rest env v then drop_gpu (cbits TextureSide w q) else cbits TextureSide w q)"
      using tt(3) ph(4) [of q] get by (simp add: page_set_def get_simps bt_def)
    show "cbits MetadataSide u' q = (if q = ?p then faulted_metadata a (cbits MetadataSide w q)
         else cbits MetadataSide w q)"
      using tt(2) ph(5) [of q] get by (simp add: page_set_def get_simps bm_def)
    assume "q \<noteq> ?p"
    then show "wwatch (gm_pages u') q = owc TextureSide w q + write_share WatchReadWrite (cbits TextureSide u' q)"
      "awatch (gm_pages u') q = oac TextureSide w q + access_share WatchReadWrite (cbits TextureSide u' q)"
      using ph(13) [of q] tt(3) pages get by (simp_all add: page_set_def get_simps)
  qed (use ph pages in \<open>simp_all add: u'_def bb_def bt_def\<close>)
  ultimately show ?thesis by blast
qed

text \<open>The watchers of every page are those the trackers hold again once the page is opened.\<close>

lemma fault_counted:
  assumes inv: "dirty_inv w" and a: "a = FaultRead \<or> a = FaultWrite" and effect: "fault_effect env a v w u"
    and here: "wwatch (gm_pages u) (v div PAGE_SIZE) = (if a = FaultRead then wwatch (gm_pages w) (v div PAGE_SIZE) else 0)"
      "awatch (gm_pages u) (v div PAGE_SIZE) = 0"
    and there: "\<And>q. q \<noteq> v div PAGE_SIZE \<Longrightarrow>
           wwatch (gm_pages u) q = owc TextureSide w q + write_share WatchReadWrite (cbits TextureSide u q)
           \<and> awatch (gm_pages u) q = oac TextureSide w q + access_share WatchReadWrite (cbits TextureSide u q)"
  shows "page_counted u q"
proof (cases "q = v div PAGE_SIZE")
  case False
  then have "cbits BufferSide u q = cbits BufferSide w q" "cbits MetadataSide u q = cbits MetadataSide w q"
    using effect by (simp_all add: fault_effect_def)
  then show ?thesis using there [OF False]
    by (simp add: page_counted_def all_caches_def held_write_def held_access_def others_def cache_mode_def)
next
  case True
  note bits = cache_bits(1,2) [OF inv]
  have now: "cbits BufferSide u q = fault_bits a (cbits BufferSide w q)"
    "cbits TextureSide u q = fault_bits a (cbits TextureSide w q)"
    "cbits MetadataSide u q = faulted_metadata a (cbits MetadataSide w q)"
    using effect True by (simp_all add: fault_effect_def)
  note fs = faulted_shares [OF bits] and ms = faulted_metadata_shares [OF bits cache_bits(6) [OF inv]]
  have "page_counted w q" using inv by (simp add: dirty_inv_def)
  then show ?thesis using a here True now fs ms
    by (auto simp: page_counted_def all_caches_def held_write_def held_access_def cache_mode_def)
qed

lemma fault_finished:
  assumes inv: "dirty_inv w" and a: "a = FaultRead \<or> a = FaultWrite"
    and env: "env_ok env th v (gm_texture w)"
    and phase: "fault_phase env a v th RbInstalled (fault_bits a) (faulted_metadata a) w u"
    and watch: "watched (pm_page (gm_pages w) (v div PAGE_SIZE))"
      "a = FaultRead \<Longrightarrow> 0 < awatch (gm_pages w) (v div PAGE_SIZE)"
  shows "\<exists>pm' u'. on_page (complete_page True a) (v div PAGE_SIZE) (gm_pages u) = Inr pm'
    \<and> fault_callback th (BufferRelease a v 1) (TextureRelease env th a v 1) (u\<lparr>gm_pages := pm'\<rparr>) = Inr (True, u')
    \<and> dirty_inv u' \<and> AllowsAccess (pm_host (gm_pages u') (v div PAGE_SIZE)) a \<and> fault_effect env a v w u'"
proof -
  let ?p = "v div PAGE_SIZE" and ?pm = "gm_pages u"
  note ph = fault_phaseD [OF phase] and bits = cache_bits [OF inv]
  have seen: "watched (pm_page ?pm ?p)" "a = FaultRead \<Longrightarrow> 0 < awatch ?pm ?p"
    using watch ph(11,12) by (simp_all add: watched_def)
  have "page_ok (pm_page ?pm ?p, pm_host ?pm ?p)" using ph(6) by (simp add: pm_good_def pm_ok_page)
  then obtain pg' h' where c: "complete_page True a (pm_page ?pm ?p, pm_host ?pm ?p) = Inr (pg', h')"
    "page_ok (pg', h')" "write_watchers pg' = (if a = FaultRead then wwatch ?pm ?p else 0)"
    "access_watchers pg' = 0" "\<not> resolving pg'" "backing_writer pg' = 0" "host_kept (pm_host ?pm ?p) h'"
    "AllowsAccess h' a"
    using complete_page_spec [of "pm_page ?pm ?p" "pm_host ?pm ?p" a] ph(9,10) [of ?p] a seen by blast
  define pm' where "pm' = ?pm\<lparr>pm_page := (pm_page ?pm)(?p := pg'), pm_host := (pm_host ?pm)(?p := h')\<rparr>"
  have run: "on_page (complete_page True a) ?p ?pm = Inr pm'" using c(1) by (simp add: on_page_def pm'_def)
  have good: "pm_good pm'"
    using ph(6) c(2) ph(8) committable_kept [OF _ c(7)] by (auto simp: pm_good_def pm_ok_def pm'_def slot_def FindRegion_def)
  let ?u = "set_in_fault th True (u\<lparr>gm_pages := pm'\<rparr>)"
  have idle: "rb_state (gm_buffer_readback w) = RbIdle" "rb_state (gm_image_readback w) = RbIdle"
    using inv by (simp_all add: dirty_inv_def quiet_workers_def)
  define gb gt where "gb = b_gpu (cbits BufferSide w ?p)" and "gt = b_gpu (cbits TextureSide w ?p)"
  let ?u2 = "?u\<lparr>gm_buffer_readback := readback_at RbIdle gb a v (gm_buffer_readback w)\<rparr>"
  have b: "BufferRelease a v 1 ?u = Inr (True, ?u2)"
    using BufferRelease_spec [of ?u gb a v "gm_buffer_readback w"] ph(14) idle(1) by (simp add: gb_def)
  have clean: "\<not> b_gpu (tbits (gm_texture u) q)" if "fe_image env v = Some img" "q \<in> range_pages img" for img q
  proof (cases "q = ?p")
    case True
    then show ?thesis
      using ph(4) [of q] fault_bits_cases(3) [OF bits(1,2) [of TextureSide ?p]] by (simp add: get_simps)
  next
    case False
    then show ?thesis using ph(4) [of q] that by (simp add: get_simps image_rest_def drop_gpu_def)
  qed
  have "TextureRelease env th a v 1 ?u2 = Inr (True, ?u2\<lparr>gm_fault_owner := None,
      gm_image_readback := readback_at RbIdle gt a v (gm_image_readback w)\<rparr>)"
  proof (rule TextureRelease_spec [OF a])
    show "gt \<longleftrightarrow> fe_image env v \<noteq> None" using env by (auto simp: env_ok_def gt_def get_simps split: option.splits)
    show "ValidRange (fst img) (snd img) \<and> (\<forall>p\<in>range_pages img. \<not> b_gpu (tbits (gm_texture ?u2) p))"
      if "fe_image env v = Some img" for img
      using that clean [OF that] env by (auto simp: env_ok_def op_range_def set_in_fault_def)
    show "tk_ok (gm_texture ?u2)" using ph(1) [of TextureSide] by (simp add: get_simps set_in_fault_def)
    show "\<not> pm_in_fault (gm_pages ?u2) (fe_worker env)"
      using env ph(7) [of "fe_worker env"] by (simp add: env_ok_def pm'_def)
  qed (use ph(15,16) idle(2) in \<open>simp_all add: gt_def\<close>)
  moreover define u' where "u' = set_in_fault th False (?u2\<lparr>gm_fault_owner := None,
      gm_image_readback := readback_at RbIdle gt a v (gm_image_readback w)\<rparr>)"
  ultimately have release: "fault_callback th (BufferRelease a v 1) (TextureRelease env th a v 1)
      (u\<lparr>gm_pages := pm'\<rparr>) = Inr (True, u')"
    using b by (simp add: fault_callback_def)
  have get: "get_tracker c u' = get_tracker c u" for c
    by (cases c) (simp_all add: u'_def get_simps set_in_fault_def)
  have pages: "gm_pages u' = pm'"
    using ph(7) [of th] by (simp add: u'_def pm'_def fun_upd_idem)
  have effect: "fault_effect env a v w u'"
    unfolding fault_effect_def get using ph(3-5) by blast
  have "cache_ok c u'" for c
  proof -
    have "bits_ok (cbits c u' q) \<and> \<not> b_pending (cbits c u' q)
        \<and> (c = MetadataSide \<longrightarrow> b_writable (cbits c u' q) \<or> b_gpu (cbits c u' q))" for q
      using effect bits(1,2) [of c q] fault_bits_cases(1,2) [OF bits(1,2)]
        faulted_metadata_shares(4-6) [OF bits(1,2,6)] bits(6) [of q]
      by (cases c) (auto simp: fault_effect_def drop_gpu_def bits_ok_def)
    then show ?thesis using ph(1,2) get by (simp add: cache_ok_def)
  qed
  moreover have "page_counted u' q" for q
  proof (rule fault_counted [OF inv a effect])
    show "wwatch (gm_pages u') ?p = (if a = FaultRead then wwatch (gm_pages w) ?p else 0)"
      "awatch (gm_pages u') ?p = 0"
      using c(3,4) ph(11) pages by (simp_all add: pm'_def)
    show "wwatch (gm_pages u') q = owc TextureSide w q + write_share WatchReadWrite (cbits TextureSide u' q)
        \<and> awatch (gm_pages u') q = oac TextureSide w q + access_share WatchReadWrite (cbits TextureSide u' q)"
      if "q \<noteq> ?p" for q
      using ph(13) [OF that] that pages get by (simp add: pm'_def)
  qed
  moreover have "quiet_pages u'"
    using good c(5,6) ph(7,9,10) pages by (simp add: quiet_pages_def pm'_def)
  moreover have "quiet_workers u'" using idle by (simp add: quiet_workers_def u'_def readback_at_def)
  ultimately have "dirty_inv u'" by (simp add: dirty_inv_def)
  moreover have "AllowsAccess (pm_host (gm_pages u') ?p) a" using c(8) pages by (simp add: pm'_def)
  ultimately show ?thesis using run release effect by blast
qed

lemma HandleFault_spec:
  assumes inv: "dirty_inv w" and v: "0 < v" "v < ADDRESS_SIZE" and a: "a = FaultRead \<or> a = FaultWrite"
    and env: "env_ok env th v (gm_texture w)"
  shows "\<exists>b w'. GRM_HandleFault env th a v w = Inr (Some b, w') \<and> dirty_inv w'
    \<and> (b \<longleftrightarrow> FindRegion (v div PAGE_SIZE) (gm_pages w)
          \<and> AllowsAccess (pm_host (gm_pages w') (v div PAGE_SIZE)) a)
    \<and> (watched (pm_page (gm_pages w) (v div PAGE_SIZE)) \<longrightarrow> b)
    \<and> ((\<forall>c. get_tracker c w' = get_tracker c w) \<or> fault_effect env a v w w')"
proof -
  let ?p = "v div PAGE_SIZE" and ?pm = "gm_pages w"
  have good: "pm_good ?pm" "\<not> pm_in_fault ?pm th" "\<not> is_resolving ?pm ?p"
    using inv by (simp_all add: dirty_inv_def quiet_pages_def)
  have mapped: "IsMapped th v 1 ?pm" using fault_chunk(1) [OF v] good(2) by (simp add: IsMapped_def)
  have page: "page_ok (pm_page ?pm ?p, pm_host ?pm ?p)" using good(1) by (simp add: pm_good_def pm_ok_page)
  show ?thesis
  proof (cases "FindRegion ?p ?pm")
    case False
    then have "\<not> watched (pm_page ?pm ?p)" using good(1) by (auto simp: pm_good_def pm_ok_def)
    moreover have "GRM_HandleFault env th a v w = Inr (Some False, w)"
      using False mapped good(2) by (simp add: GRM_HandleFault_def HandleFault_def fault_turn_at_def)
    ultimately show ?thesis using inv False by blast
  next
    case True
    have turn: "fault_turn_at th False a v ?pm = bindR (fault_loop th False a (pm_page ?pm ?p) (pm_host ?pm ?p))
        (\<lambda>(t, pg). Inr (t, ?pm\<lparr>pm_page := (pm_page ?pm)(?p := pg)\<rparr>))"
      using True v(2) good(2) by (simp add: fault_turn_at_def Let_def)
    consider (finished) b pg where "fault_loop th False a (pm_page ?pm ?p) (pm_host ?pm ?p) = Inr (FaultDone b, pg)"
        "b = AllowsAccess (pm_host ?pm ?p) a" "watched (pm_page ?pm ?p) \<longrightarrow> b"
        "page_ok (pg, pm_host ?pm ?p)" "write_watchers pg = wwatch ?pm ?p" "access_watchers pg = awatch ?pm ?p"
        "\<not> resolving pg" "backing_writer pg = writer ?pm ?p"
      | (claim) pg where "watched (pm_page ?pm ?p)" "a = FaultRead \<longrightarrow> 0 < awatch ?pm ?p"
        "pg = (pm_page ?pm ?p)\<lparr>resolving := True, resolving_read_write := awatch ?pm ?p \<noteq> 0\<rparr>"
        "fault_loop th False a (pm_page ?pm ?p) (pm_host ?pm ?p) = Inr (FaultClaim, pg)"
        "page_ok (pg, pm_host ?pm ?p)"
      using fault_loop_spec [OF page good(3) a, of th] by blast
    then show ?thesis
    proof cases
      case (finished b pg)
      let ?w = "w\<lparr>gm_pages := ?pm\<lparr>pm_page := (pm_page ?pm)(?p := pg)\<rparr>\<rparr>"
      have run: "GRM_HandleFault env th a v w = Inr (Some b, ?w)"
        using mapped turn finished(1) by (simp add: GRM_HandleFault_def HandleFault_def Let_def)
      have get: "get_tracker c ?w = get_tracker c w" for c by (cases c) (simp_all add: get_simps)
      have "cache_ok c ?w" for c using inv get by (simp add: dirty_inv_def cache_ok_def)
      moreover have "page_counted ?w q" for q
        using inv get finished(5,6) by (simp add: dirty_inv_def page_counted_def held_write_def held_access_def)
      moreover have "quiet_pages ?w"
        using inv finished(4,7,8) True
        by (auto simp: dirty_inv_def quiet_pages_def pm_good_def pm_ok_def slot_def FindRegion_def)
      moreover have "quiet_workers ?w" using inv by (simp add: dirty_inv_def quiet_workers_def)
      ultimately have "dirty_inv ?w" by (simp add: dirty_inv_def)
      then show ?thesis using run finished(2,3) True get by (intro exI [of _ b] exI [of _ ?w]) simp
    next
      case (claim pg)
      let ?w = "w\<lparr>gm_pages := ?pm\<lparr>pm_page := (pm_page ?pm)(?p := pg)\<rparr>\<rparr>"
      obtain u where u: "fault_callback th (BufferInvalidate a v 1) (TextureInvalidate env th a v 1) ?w = Inr (True, u)"
        "fault_phase env a v th RbReady (begin_bits a) (begun_metadata a) w u"
        using fault_invalidated [OF inv v a env True claim(1) _ claim(3,5)] claim(2) by blast
      have ans: "b_tracked (cbits BufferSide w ?p) \<or> (a = FaultWrite \<and> b_gpu (cbits MetadataSide w ?p))
          \<or> b_tracked (cbits TextureSide w ?p)"
        using fault_answered [OF inv claim(1) a] claim(2) by blast
      obtain u' where u': "fault_callback th (BufferComplete a v 1) (TextureComplete th a v 1) u = Inr (True, u')"
        "fault_phase env a v th RbInstalled (fault_bits a) (faulted_metadata a) w u'"
        using fault_completed [OF inv v a u(2) ans] by blast
      obtain pm' w' where w': "on_page (complete_page True a) ?p (gm_pages u') = Inr pm'"
        "fault_callback th (BufferRelease a v 1) (TextureRelease env th a v 1) (u'\<lparr>gm_pages := pm'\<rparr>) = Inr (True, w')"
        "dirty_inv w'" "AllowsAccess (pm_host (gm_pages w') ?p) a" "fault_effect env a v w w'"
        using fault_finished [OF inv a env u'(2) claim(1)] claim(2) by blast
      have "after_invalidate True ?p (gm_pages u) = Inr (gm_pages u)"
        using fault_phaseD(9) [OF u(2), of ?p] by (simp add: after_invalidate_def)
      then have "GRM_HandleFault env th a v w = Inr (Some True, w')"
        using mapped turn claim(4) u(1) u'(1) w'(1,2)
        by (simp add: GRM_HandleFault_def HandleFault_def Let_def)
      then show ?thesis using w'(3-5) True by blast
    qed
  qed
qed

end
