(* ===== verification/DirtySafety.thy ===== *)
theory DirtySafety
  imports FaultHandling
begin

text \<open>
  The operations of the GPU caches, the mapping calls and the faults of the guest's threads as
  one step relation, and what follows for the guest: no write of the CPU is missed, no read
  of the CPU sees stale bytes, and every fault the trackers caused is resolved.
\<close>

section \<open>Mapping\<close>

definition counts :: "page_state \<Rightarrow> nat \<times> nat \<times> nat" where
  "counts pg = (mappings pg, gpu_read_mappings pg, gpu_write_mappings pg)"

definition same_watch :: "page_state \<times> host_page \<Rightarrow> page_state \<times> host_page \<Rightarrow> bool" where
  "same_watch s s' \<longleftrightarrow> snd s' = snd s \<and> write_watchers (fst s') = write_watchers (fst s)
     \<and> access_watchers (fst s') = access_watchers (fst s) \<and> resolving (fst s') = resolving (fst s)
     \<and> backing_writer (fst s') = backing_writer (fst s) \<and> (page_ok s \<longrightarrow> page_ok s')"

lemma same_watch_refl: "same_watch s s"
  by (simp add: same_watch_def)

lemma page_ok_fewer_late:
  assumes "page_ok (pg, h)" and "original_protection pg' = original_protection pg"
    and "write_watchers pg' = write_watchers pg" and "access_watchers pg' = access_watchers pg"
    and "resolving pg' = resolving pg" and "backing_writer pg' = backing_writer pg"
    and "late_read_pending pg' \<Longrightarrow> late_read_pending pg" and "late_write_pending pg' \<Longrightarrow> late_write_pending pg"
  shows "page_ok (pg', h)"
proof -
  have "watched pg' = watched pg" "WatcherProtection pg' = WatcherProtection pg"
    using assms(2-4) by (simp_all add: watched_def WatcherProtection_def)
  then show ?thesis using assms unfolding page_ok_def by (simp only: prod.case) blast
qed

lemma same_watchI:
  assumes "s = (pg, h)" and "s' = (pg', h)" and "original_protection pg' = original_protection pg"
    and "write_watchers pg' = write_watchers pg" and "access_watchers pg' = access_watchers pg"
    and "resolving pg' = resolving pg" and "backing_writer pg' = backing_writer pg"
    and "late_read_pending pg' \<Longrightarrow> late_read_pending pg" and "late_write_pending pg' \<Longrightarrow> late_write_pending pg"
  shows "same_watch s s'"
  using assms page_ok_fewer_late [OF _ assms(3-9)] by (simp add: same_watch_def)

lemma map_page_watch:
  assumes "map_page a s = Inr s'"
  shows "same_watch s s'"
proof -
  obtain pg h where s: "s = (pg, h)" by (cases s)
  show ?thesis using assms unfolding s map_page_def
    by (cases "resolving pg \<or> mappings pg = UINT32_MAX \<or> gpu_reads a \<and> gpu_read_mappings pg = UINT32_MAX
      \<or> gpu_writes a \<and> gpu_write_mappings pg = UINT32_MAX") (simp, auto intro!: same_watchI)
qed

lemma unmap_page_watch:
  assumes "unmap_page a s = Inr s'"
  shows "same_watch s s'"
proof -
  obtain pg h where s: "s = (pg, h)" by (cases s)
  show ?thesis using assms unfolding s unmap_page_def Let_def prod.case
    by (auto intro!: same_watchI split: if_split_asm)
qed

lemma OnGpuMap_watch:
  assumes "OnGpuMap th v n a pm = Inr pm'"
  shows "\<And>p. same_watch (slot pm p) (slot pm' p)" and "later pm pm'"
proof -
  have run: "foldR (\<lambda>p pm. on_page (map_page a) p (GetOrCreateRegion p pm)) (page_list v n) pm = Inr pm'"
    using assms by (auto simp: OnGpuMap_def bindR_eq_Inr split: if_splits)
  note pages = foldR_pages [OF map_turn later_refl distinct_page_list run]
  show "later pm pm'" using pages by blast
  show "same_watch (slot pm p) (slot pm' p)" for p
    using pages map_page_watch [of a "slot pm p" "slot pm' p"] same_watch_refl
    by (cases "p \<in> set (page_list v n)") auto
qed

lemma OnGpuUnmap_watch:
  assumes "OnGpuUnmap th v n a pm = Inr pm'"
  shows "\<And>p. same_watch (slot pm p) (slot pm' p)" and "later pm pm'"
proof -
  have run: "foldR (known_step ''unmapping unknown page'' (unmap_page a)) (page_list v n) pm = Inr pm'"
    using assms by (auto simp: OnGpuUnmap_def bindR_eq_Inr split: if_splits)
  note pages = foldR_pages [OF known_turn later_refl distinct_page_list run]
  show "later pm pm'" using pages by blast
  show "same_watch (slot pm p) (slot pm' p)" for p
    using pages unmap_page_watch [of a "slot pm p" "slot pm' p"] same_watch_refl
    by (cases "p \<in> set (page_list v n)") auto
qed

lemma dirty_inv_same_watch:
  assumes inv: "dirty_inv w" and same: "\<And>p. same_watch (slot (gm_pages w) p) (slot pm' p)"
    and later: "later (gm_pages w) pm'"
  shows "dirty_inv (w\<lparr>gm_pages := pm'\<rparr>)"
proof -
  let ?w = "w\<lparr>gm_pages := pm'\<rparr>" and ?pm = "gm_pages w"
  have get: "get_tracker c ?w = get_tracker c w" for c by (cases c) (simp_all add: get_simps)
  have eq: "pm_host pm' p = pm_host ?pm p" "wwatch pm' p = wwatch ?pm p" "awatch pm' p = awatch ?pm p"
    "is_resolving pm' p = is_resolving ?pm p" "writer pm' p = writer ?pm p" for p
    using same [of p] unfolding same_watch_def slot_def fst_conv snd_conv by blast+
  have ok: "page_ok (slot ?pm p) \<Longrightarrow> page_ok (slot pm' p)" for p
    using same [of p] unfolding same_watch_def by blast
  have "pm_good ?pm" using inv by (simp add: dirty_inv_def quiet_pages_def)
  moreover have "pm_ok ?pm \<Longrightarrow> pm_ok pm'"
    using ok eq later by (simp add: pm_ok_def later_def watched_def)
  ultimately have "pm_good pm'" using eq later by (simp add: pm_good_def later_def)
  then have "quiet_pages ?w" using inv eq later by (simp add: dirty_inv_def quiet_pages_def later_def)
  moreover have "cache_ok c ?w" for c using inv get by (simp add: dirty_inv_def cache_ok_def)
  moreover have "page_counted ?w p" for p
    using inv get eq by (simp add: dirty_inv_def page_counted_def held_write_def held_access_def)
  moreover have "quiet_workers ?w" using inv by (simp add: dirty_inv_def quiet_workers_def)
  ultimately show ?thesis by (simp add: dirty_inv_def)
qed

section \<open>The step relation\<close>

text \<open>
  The premises on bits are obligations of the callers: the code ends the process where one is
  violated. Metadata is only cleared, that is uploaded to be written, and discarded.
\<close>

inductive gm_step :: "gpu_memory \<Rightarrow> gpu_memory \<Rightarrow> bool" where
  cache: "c \<noteq> MetadataSide \<Longrightarrow> op_range v n \<Longrightarrow> \<forall>p\<in>set (page_list v n). op_guard op (cbits c w p) \<Longrightarrow>
    on_tracker c (cache_op_run th op v n) w = Inr w' \<Longrightarrow> gm_step w w'"
| clear_metadata: "op_range v n \<Longrightarrow>
    on_tracker MetadataSide (cache_op_run th (UploadAll True) v n) w = Inr w' \<Longrightarrow> gm_step w w'"
| retire_metadata: "op_range v n \<Longrightarrow>
    gpu_modified \<or> (\<forall>p\<in>set (page_list v n). \<not> b_gpu (cbits MetadataSide w p)) \<Longrightarrow>
    RetireMetadata th gpu_modified v n w = Inr w' \<Longrightarrow> gm_step w w'"
| flush: "op_range v n \<Longrightarrow> th \<noteq> 0 \<Longrightarrow> dirty_ranges rs \<Longrightarrow>
    \<forall>p\<in>all_pages rs. b_gpu (cbits BufferSide w p) \<Longrightarrow>
    FlushBuffer th rs v n w = Inr w' \<Longrightarrow> gm_step w w'"
| map_memory: "OnGpuMap th v n a (gm_pages w) = Inr pm' \<Longrightarrow> gm_step w (w\<lparr>gm_pages := pm'\<rparr>)"
| unmap_memory: "OnGpuUnmap th v n a (gm_pages w) = Inr pm' \<Longrightarrow> gm_step w (w\<lparr>gm_pages := pm'\<rparr>)"
| fault: "0 < v \<Longrightarrow> v < ADDRESS_SIZE \<Longrightarrow> a = FaultRead \<or> a = FaultWrite \<Longrightarrow>
    env_ok env th v (gm_texture w) \<Longrightarrow> GRM_HandleFault env th a v w = Inr (Some b, w') \<Longrightarrow>
    gm_step w w'"

definition gm_startup :: "gpu_memory \<Rightarrow> bool" where
  "gm_startup w \<longleftrightarrow> (\<exists>host can. (\<forall>p. committable (can p) (host p)) \<and> w = gm_start host can)"

lemma gm_step_inv:
  assumes "dirty_inv w" and "gm_step w w'"
  shows "dirty_inv w'"
  using assms(2)
proof cases
  case (cache c v n op th)
  then show ?thesis
    using cache_op_effect [OF assms(1) cache(2,3), of th] by (auto simp: cache_effect_def)
next
  case (clear_metadata v n th)
  then show ?thesis
    using cache_op_effect [OF assms(1) clear_metadata(1), of "UploadAll True" MetadataSide th]
    by (auto simp: cache_effect_def)
next
  case (retire_metadata v n gpu_modified th)
  then show ?thesis
    using RetireMetadata_effect [OF assms(1) retire_metadata(1,2), of th] by (auto simp: cache_effect_def)
next
  case (flush v n th rs)
  then show ?thesis using FlushBuffer_effect [OF assms(1) flush(1-4)] by (auto simp: cache_effect_def)
next
  case (map_memory th v n a pm')
  then show ?thesis using dirty_inv_same_watch [OF assms(1)] OnGpuMap_watch by blast
next
  case (unmap_memory th v n a pm')
  then show ?thesis using dirty_inv_same_watch [OF assms(1)] OnGpuUnmap_watch by blast
next
  case (fault v a env th b)
  then show ?thesis using HandleFault_spec [OF assms(1) fault(1-4)] by auto
qed

interpretation gm: atomic_object gm_startup gm_step dirty_inv
  by unfold_locales (auto simp: gm_startup_def intro: dirty_inv_start gm_step_inv)

section \<open>Who may touch a page\<close>

lemma write_allowed:
  assumes inv: "dirty_inv w" and "AllowsAccess (pm_host (gm_pages w) p) FaultWrite"
  shows "b_cpu (cbits c w p)"
proof -
  have ok: "page_ok (pm_page (gm_pages w) p, pm_host (gm_pages w) p)" "writer (gm_pages w) p = 0"
    using inv by (simp_all add: dirty_inv_def quiet_pages_def pm_good_def pm_ok_page)
  then have "\<not> watched (pm_page (gm_pages w) p)"
    using assms(2) by (auto simp: page_ok_def AllowsAccess_def WatcherProtection_def watched_def split: if_splits)
  moreover have "page_counted w p" using inv by (simp add: dirty_inv_def)
  ultimately have "held_write c w p = 0"
    by (cases c) (simp_all add: page_counted_def watched_def all_caches_def)
  then have "b_writable (cbits c w p)" by (simp add: held_write_def write_share_def split: if_splits)
  then show ?thesis using cache_bits(1) [OF inv, of c p] by (simp add: bits_ok_def)
qed

lemma read_allowed:
  assumes inv: "dirty_inv w" and "AllowsAccess (pm_host (gm_pages w) p) FaultRead" and "c \<noteq> MetadataSide"
  shows "\<not> b_gpu (cbits c w p)"
proof -
  have ok: "page_ok (pm_page (gm_pages w) p, pm_host (gm_pages w) p)" "writer (gm_pages w) p = 0"
    using inv by (simp_all add: dirty_inv_def quiet_pages_def pm_good_def pm_ok_page)
  then have "awatch (gm_pages w) p = 0"
    using assms(2) by (auto simp: page_ok_def AllowsAccess_def WatcherProtection_def watched_def split: if_splits)
  moreover have "page_counted w p" using inv by (simp add: dirty_inv_def)
  ultimately have "held_access c w p = 0"
    by (cases c) (simp_all add: page_counted_def all_caches_def)
  then show ?thesis using assms(3) by (simp add: held_access_def access_share_def cache_mode_def split: if_splits)
qed

end
