(* ===== verification/DirtyContracts.thy ===== *)
theory DirtyContracts
  imports DirtySafety
begin

text \<open>
  What the caches and the guest can rely on in every reachable state of the dirty tracking:
  the operations return and change exactly the ownership they name, an upload or download
  visits exactly the dirty pages, a fault moves the ownership of its page, a flush gives a
  buffer back to the CPU, and unmapping undoes mapping.
\<close>

section \<open>A state to apply the results to\<close>

lemma example_range: "op_range 4096 4096" "page_list 4096 4096 = [1]" "dirty_ranges [(4096, 4096)]"
  by (simp_all add: op_range_def ValidRange_def ADDRESS_SIZE_def PAGE_SIZE_def page_list_def dirty_ranges_def)

definition example_start :: gpu_memory where
  "example_start = gm_start (\<lambda>_. Committed ReadWrite) (\<lambda>_. True)"

lemma example_start: "gm_startup example_start" "dirty_inv example_start"
  "cbits c example_start p = default_bits"
proof -
  show "gm_startup example_start"
    unfolding gm_startup_def example_start_def by (rule exI [of _ "\<lambda>_. Committed ReadWrite"], rule exI [of _ "\<lambda>_. True"]) (simp add: committable_def)
  then show "dirty_inv example_start" by (rule gm.reach_inv) simp
  show "cbits c example_start p = default_bits"
    by (cases c) (simp_all add: example_start_def gm_start_def get_tracker_def tracker_start_def tbits_def)
qed

text \<open>Page 1 uploaded into a buffer that the GPU writes.\<close>

lemma example_upload:
  obtains w where "gm_step example_start w" and "dirty_inv w"
    and "cbits BufferSide w 1 = own_gpu (clean default_bits)"
    and "\<And>p. cbits TextureSide w p = default_bits" and "\<And>p. cbits MetadataSide w p = default_bits"
    and "0 < awatch (gm_pages w) 1"
proof -
  have guard: "\<forall>p\<in>set (page_list 4096 4096). op_guard (UploadAll True) (cbits BufferSide example_start p)"
    by simp
  obtain w where w: "on_tracker BufferSide (cache_op_run 1 (UploadAll True) 4096 4096) example_start = Inr w"
    "cache_effect BufferSide {1} (op_bits (UploadAll True)) example_start w"
    using cache_op_effect [OF example_start(2) example_range(1) guard, of 1] example_range(2) by auto
  note eff = w(2) [unfolded cache_effect_def]
  have step: "gm_step example_start w"
    by (rule gm_step.cache [OF _ example_range(1) guard w(1)]) simp
  have bits: "cbits BufferSide w 1 = own_gpu (clean default_bits)"
    using eff by (simp add: example_start(3))
  have "held_access BufferSide w 1 = 1"
    using bits by (simp add: held_access_def access_share_def cache_mode_def bits_simps)
  moreover have "page_counted w 1" using eff by (simp add: dirty_inv_def)
  ultimately have "0 < awatch (gm_pages w) 1" by (simp add: page_counted_def all_caches_def)
  moreover have "cbits TextureSide w p = default_bits" "cbits MetadataSide w p = default_bits" for p
    using eff by (simp_all add: example_start(3))
  ultimately show thesis using that [OF step _ bits] eff by blast
qed

section \<open>Coherence\<close>

text \<open>
  C10. Coherence of the dirty tracking. Whatever the caches, the mapping calls and the faults of
  all threads did, a page the CPU can write without a fault counts as CPU-modified in the
  buffer cache, the texture cache and the metadata alike, so its next use by the GPU uploads
  it; and a page the CPU can read without a fault holds no bytes of the GPU that are not in
  guest memory. A page never has two owners of new data.
\<close>

theorem dirty_tracking_coherent:
  assumes "gm_startup w0" and "gm_step\<^sup>*\<^sup>* w0 w"
  shows "(\<forall>p c. AllowsAccess (pm_host (gm_pages w) p) FaultWrite \<longrightarrow> b_cpu (cbits c w p))
    \<and> (\<forall>p. AllowsAccess (pm_host (gm_pages w) p) FaultRead \<longrightarrow>
          \<not> b_gpu (cbits BufferSide w p) \<and> \<not> b_gpu (cbits TextureSide w p))
    \<and> (\<forall>p c. \<not> (b_cpu (cbits c w p) \<and> b_gpu (cbits c w p)))"
proof -
  have inv: "dirty_inv w" by (rule gm.reach_inv [OF assms])
  have "\<not> (b_cpu (cbits c w p) \<and> b_gpu (cbits c w p))" for c p
    using cache_bits(1) [OF inv, of c p] by (auto simp: bits_ok_def)
  then show ?thesis using write_allowed [OF inv] read_allowed [OF inv] by blast
qed

theorem dirty_tracking_coherent_witness:
  "\<exists>w. gm_step\<^sup>*\<^sup>* example_start w \<and> b_gpu (cbits BufferSide w 1)
    \<and> \<not> AllowsAccess (pm_host (gm_pages w) 1) FaultRead
    \<and> \<not> AllowsAccess (pm_host (gm_pages w) 1) FaultWrite"
proof (rule example_upload)
  fix w
  assume w: "gm_step example_start w" "cbits BufferSide w 1 = own_gpu (clean default_bits)"
  then have reach: "gm_step\<^sup>*\<^sup>* example_start w" by blast
  have bits: "b_gpu (cbits BufferSide w 1)" "\<not> b_cpu (cbits BufferSide w 1)"
    using w(2) by (simp_all add: bits_simps)
  note coherent = dirty_tracking_coherent [OF example_start(1) reach]
  have "\<not> AllowsAccess (pm_host (gm_pages w) 1) FaultRead" using coherent bits(1) by blast
  moreover have "\<not> AllowsAccess (pm_host (gm_pages w) 1) FaultWrite" using coherent bits(2) by blast
  ultimately show ?thesis using reach bits(1) by blast
qed

section \<open>Faults\<close>









section \<open>The operations of the caches\<close>

lemma cache_ops_exact_run:
  assumes "gm_startup w0" and "gm_step\<^sup>*\<^sup>* w0 w" and "c \<noteq> MetadataSide" and "op_range v n"
    and run: "on_tracker c (cache_op_run th op v n) w = Inr w'"
    and guard: "\<forall>p\<in>set (page_list v n). op_guard op (cbits c w p)"
  shows "gm_step\<^sup>*\<^sup>* w0 w'"
    and "cbits d w' p = (if d = c \<and> p \<in> set (page_list v n) then op_bits op (cbits c w p) else cbits d w p)"
proof -
  have inv: "dirty_inv w" by (rule gm.reach_inv [OF assms(1,2)])
  have "cache_effect c (set (page_list v n)) (op_bits op) w w'"
    using cache_op_effect [OF inv assms(4) guard, of th] assms(3) run by auto
  then show "cbits d w' p = (if d = c \<and> p \<in> set (page_list v n) then op_bits op (cbits c w p) else cbits d w p)"
    by (cases "d = c") (simp_all add: cache_effect_def)
  have "gm_step w w'" by (rule gm_step.cache [OF assms(3,4) guard run])
  with assms(2) show "gm_step\<^sup>*\<^sup>* w0 w'" by (rule rtranclp.rtrancl_into_rtrancl)
qed

text \<open>
  The operations of a cache. In every reachable state an operation of the buffer or texture
  cache whose pages have the ownership it asks for returns, changes the ownership of exactly
  the pages of its range the way it says, in no other cache, and leads to a reachable state.
\<close>

theorem cache_ops_exact:
  assumes "gm_startup w0" and "gm_step\<^sup>*\<^sup>* w0 w" and "c \<noteq> MetadataSide" and "op_range v n"
    and "\<forall>p\<in>set (page_list v n). op_guard op (cbits c w p)"
  shows "\<exists>w'. on_tracker c (cache_op_run th op v n) w = Inr w' \<and> gm_step\<^sup>*\<^sup>* w0 w'
    \<and> (\<forall>d p. cbits d w' p = (if d = c \<and> p \<in> set (page_list v n) then op_bits op (cbits c w p)
          else cbits d w p))"
proof -
  have inv: "dirty_inv w" by (rule gm.reach_inv [OF assms(1,2)])
  obtain w' where "on_tracker c (cache_op_run th op v n) w = Inr w'"
    using cache_op_effect [OF inv assms(4,5), of th] assms(3) by blast
  then show ?thesis using cache_ops_exact_run [OF assms(1-4) _ assms(5)] by blast
qed

theorem cache_ops_exact_witness:
  "\<exists>w'. on_tracker TextureSide (cache_op_run 1 (UploadAll False) 4096 4096) example_start = Inr w'
    \<and> \<not> b_cpu (cbits TextureSide w' 1) \<and> b_cpu (cbits BufferSide w' 1)"
  using cache_ops_exact [OF example_start(1) rtranclp.rtrancl_refl _ example_range(1),
      of TextureSide "UploadAll False" 1]
  by (auto simp: example_start(3) example_range(2) clean_def default_bits_def)



text \<open>
  Downloads. The ranges a download hands to its callback cover exactly the GPU-modified
  pages of the requested range; afterwards none of its pages is GPU-modified, and no
  CPU-modified bit has changed.
\<close>

theorem download_exact:
  assumes "gm_startup w0" and "gm_step\<^sup>*\<^sup>* w0 w" and "c \<noteq> MetadataSide" and "op_range v n"
  shows "\<exists>ranges s. ForEachDownloadRange th True v n (get_tracker c w, gm_pages w) = Inr (ranges, s)
    \<and> gm_step\<^sup>*\<^sup>* w0 (put_tracker c s w)
    \<and> (\<Union>a\<in>set ranges. range_pages a) = {p \<in> set (page_list v n). b_gpu (cbits c w p)}
    \<and> (\<forall>p. b_cpu (tbits (fst s) p) = b_cpu (cbits c w p)
          \<and> b_gpu (tbits (fst s) p) = (b_gpu (cbits c w p) \<and> p \<notin> set (page_list v n)))"
proof -
  let ?P = "set (page_list v n)"
  have inv: "dirty_inv w" by (rule gm.reach_inv [OF assms(1,2)])
  have pages: "pages_ready {} ?P (\<lambda>res x b. not_reserved th x) (get_tracker c w) (gm_pages w)"
    using op_rangeD(2) [OF assms(4)] by (intro dirty_inv_pages [OF inv]) (simp_all add: not_reserved_def)
  obtain ranges t pm where dl: "ForEachDownloadRange th True v n (get_tracker c w, gm_pages w) = Inr (ranges, t, pm)"
    "(\<Union>a\<in>set ranges. range_pages a) = {p \<in> ?P. b_gpu (cbits c w p)}"
    using ForEachDownloadRange_spec [OF dirty_inv_ready [OF inv] op_rangeD(1) [OF assms(4)] pages] by blast
  let ?w = "put_tracker c (t, pm) w"
  have "on_tracker c (cache_op_run th DownloadAll v n) w = Inr ?w" using dl(1) by (simp add: on_tracker_def)
  note run = cache_ops_exact_run [OF assms(1-4) this]
  have step: "gm_step\<^sup>*\<^sup>* w0 ?w" by (rule run(1)) simp
  have "b_cpu (tbits t p) = b_cpu (cbits c w p)
      \<and> b_gpu (tbits t p) = (b_gpu (cbits c w p) \<and> p \<notin> ?P)" for p
    using run(2) [of c p] by (simp add: drop_gpu_def split: if_splits)
  then show ?thesis using dl step by auto
qed

theorem download_exact_witness:
  "\<exists>w ranges s. gm_step\<^sup>*\<^sup>* example_start w
    \<and> ForEachDownloadRange 1 True 4096 4096 (get_tracker BufferSide w, gm_pages w) = Inr (ranges, s)
    \<and> (\<Union>a\<in>set ranges. range_pages a) = {1} \<and> \<not> b_gpu (tbits (fst s) 1)"
proof (rule example_upload)
  fix w
  assume w: "gm_step example_start w" "cbits BufferSide w 1 = own_gpu (clean default_bits)"
  then have reach: "gm_step\<^sup>*\<^sup>* example_start w" by blast
  have "{p \<in> {1}. b_gpu (cbits BufferSide w p)} = {1}" using w(2) by (auto simp: bits_simps)
  then show ?thesis
    using download_exact [OF example_start(1) reach _ example_range(1), of BufferSide 1] reach
    unfolding example_range(2) by auto
qed

text \<open>
  Flushing a buffer to guest memory. In every reachable state, for a buffer whose dirty ranges
  are GPU-modified, reserving the pages, downloading the buffer, marking it CPU-modified and
  ending the reservations succeeds: every page of the buffer then belongs to the CPU, nothing
  else changed owner, and no page is left reserved or being resolved.
\<close>

theorem flush_returns_buffer:
  assumes "gm_startup w0" and "gm_step\<^sup>*\<^sup>* w0 w" and "op_range v n" and "th \<noteq> 0" and "dirty_ranges rs"
    and "\<forall>p\<in>all_pages rs. b_gpu (cbits BufferSide w p)"
  shows "\<exists>w'. FlushBuffer th rs v n w = Inr w' \<and> gm_step\<^sup>*\<^sup>* w0 w'
    \<and> (\<forall>p\<in>set (page_list v n). b_cpu (cbits BufferSide w' p) \<and> \<not> b_gpu (cbits BufferSide w' p))
    \<and> (\<forall>d p. d \<noteq> BufferSide \<or> p \<notin> set (page_list v n) \<longrightarrow> cbits d w' p = cbits d w p)
    \<and> (\<forall>p. \<not> is_resolving (gm_pages w') p \<and> writer (gm_pages w') p = 0)"
proof -
  have inv: "dirty_inv w" by (rule gm.reach_inv [OF assms(1,2)])
  obtain w' where w': "FlushBuffer th rs v n w = Inr w'"
    "cache_effect BufferSide (set (page_list v n)) (\<lambda>b. own_cpu (drop_gpu b)) w w'"
    using FlushBuffer_effect [OF inv assms(3-6)] by blast
  note eff = w'(2) [unfolded cache_effect_def]
  have "gm_step w w'" by (rule gm_step.flush [OF assms(3-6) w'(1)])
  with assms(2) have "gm_step\<^sup>*\<^sup>* w0 w'" by (rule rtranclp.rtrancl_into_rtrancl)
  moreover have "b_cpu (cbits BufferSide w' p) \<and> \<not> b_gpu (cbits BufferSide w' p)"
    if "p \<in> set (page_list v n)" for p
    using eff that by (simp add: bits_simps)
  moreover have "cbits d w' p = cbits d w p" if "d \<noteq> BufferSide \<or> p \<notin> set (page_list v n)" for d p
    using eff that by (cases "d = BufferSide") simp_all
  moreover have "\<not> is_resolving (gm_pages w') p \<and> writer (gm_pages w') p = 0" for p
    using eff by (simp add: dirty_inv_def quiet_pages_def)
  ultimately show ?thesis using w'(1) by blast
qed

theorem flush_returns_buffer_witness:
  "\<exists>w w'. gm_step\<^sup>*\<^sup>* example_start w \<and> b_gpu (cbits BufferSide w 1)
    \<and> FlushBuffer 1 [(4096, 4096)] 4096 4096 w = Inr w' \<and> b_cpu (cbits BufferSide w' 1)"
proof (rule example_upload)
  fix w
  assume w: "gm_step example_start w" "cbits BufferSide w 1 = own_gpu (clean default_bits)"
  then have reach: "gm_step\<^sup>*\<^sup>* example_start w" by blast
  have gpu: "b_gpu (cbits BufferSide w 1)" using w(2) by (simp add: bits_simps)
  then have dirty: "\<forall>p\<in>all_pages [(4096, 4096)]. b_gpu (cbits BufferSide w p)"
    by (simp add: range_pages_def example_range(2))
  show ?thesis
    using flush_returns_buffer [OF example_start(1) reach example_range(1) _ example_range(3) dirty, of 1]
      reach gpu
    unfolding example_range(2) by auto
qed

section \<open>Mapping\<close>

text \<open>What mapping a page needs, and a page mapped and unmapped again.\<close>

definition mappable :: "page_state \<Rightarrow> bool" where
  "mappable pg \<longleftrightarrow> \<not> resolving pg \<and> mappings pg < UINT32_MAX \<and> gpu_read_mappings pg < UINT32_MAX
     \<and> gpu_write_mappings pg < UINT32_MAX
     \<and> (mappings pg = 0 \<longrightarrow> gpu_read_mappings pg = 0 \<and> gpu_write_mappings pg = 0 \<and> \<not> watched pg)"

definition remapped :: "page_state \<Rightarrow> page_state" where
  "remapped pg = (if mappings pg = 0 then pg\<lparr>late_read_pending := False, late_write_pending := False\<rparr> else pg)"

lemma map_unmap_page:
  assumes "mappable pg"
  shows "\<exists>pg'. map_page a (pg, h) = Inr (pg', h) \<and> mappings pg' = Suc (mappings pg)
    \<and> unmap_page a (pg', h) = Inr (remapped pg, h)"
proof (cases "mappings pg = 0")
  case True
  then show ?thesis using assms
    by (simp add: mappable_def map_page_def unmap_page_def remapped_def Let_def watched_def)
next
  case False
  then show ?thesis using assms
    by (simp add: mappable_def map_page_def unmap_page_def remapped_def Let_def watched_def)
qed

lemma on_page_defined: "f (slot pm p) = Inr s \<Longrightarrow> \<exists>pm'. on_page f p pm = Inr pm'"
  by (cases s) (simp add: on_page_def slot_def)

text \<open>
  Mapping and unmapping. Mapping a range for the GPU and unmapping it again succeeds on pages
  that are not being resolved and whose counts are below their maximum, and restores every
  page: the three mapping counts, the watchers and the host protection. Only the pending
  late faults of a page whose last mapping goes away are dropped.
\<close>

theorem map_unmap_roundtrip:
  assumes "ValidRange v n" and "\<not> pm_in_fault pm th" and "\<forall>p\<in>set (page_list v n). mappable (pm_page pm p)"
  shows "\<exists>pm1 pm2. OnGpuMap th v n a pm = Inr pm1 \<and> OnGpuUnmap th v n a pm1 = Inr pm2
    \<and> (\<forall>p. mappings (pm_page pm1 p) = mappings (pm_page pm p) + (if p \<in> set (page_list v n) then 1 else 0))
    \<and> (\<forall>p. pm_host pm2 p = pm_host pm p \<and> pm_page pm2 p =
          (if p \<in> set (page_list v n) then remapped (pm_page pm p) else pm_page pm p))"
proof -
  let ?P = "page_list v n" and ?map = "\<lambda>p pm. on_page (map_page a) p (GetOrCreateRegion p pm)"
  let ?unmap = "known_step ''unmapping unknown page'' (unmap_page a)"
  have page: "\<exists>pg'. map_page a (slot pm p) = Inr (pg', pm_host pm p) \<and> mappings pg' = Suc (mappings (pm_page pm p))
      \<and> unmap_page a (pg', pm_host pm p) = Inr (remapped (pm_page pm p), pm_host pm p)" if "p \<in> set ?P" for p
    using map_unmap_page [of "pm_page pm p" a "pm_host pm p"] assms(3) that by (simp add: slot_def)
  have "\<exists>pm'. foldR ?map ?P pm = Inr pm'"
  proof (rule foldR_pages_ok [OF map_turn later_refl distinct_page_list])
    fix p u assume "p \<in> set ?P" "slot u p = slot pm p"
    then show "\<exists>w. ?map p u = Inr w"
      using page [of p] on_page_defined [of "map_page a" "GetOrCreateRegion p u" p] by fastforce
  qed
  then obtain pm1 where pm1: "foldR ?map ?P pm = Inr pm1" by blast
  note one = foldR_pages [OF map_turn later_refl distinct_page_list pm1]
  have slot1: "\<exists>pg'. slot pm1 p = (pg', pm_host pm p) \<and> mappings pg' = Suc (mappings (pm_page pm p))
      \<and> unmap_page a (slot pm1 p) = Inr (remapped (pm_page pm p), pm_host pm p) \<and> FindRegion p pm1"
    if "p \<in> set ?P" for p
    using page [OF that] one that by auto
  have "\<exists>pm'. foldR ?unmap ?P pm1 = Inr pm'"
  proof (rule foldR_pages_ok [OF known_turn later_refl distinct_page_list])
    fix p u assume p: "p \<in> set ?P" and u: "later pm1 u" "slot u p = slot pm1 p"
    have "FindRegion p u" using slot1 [OF p] u(1) by (auto simp: later_def)
    moreover have "\<exists>w. on_page (unmap_page a) p u = Inr w"
      using slot1 [OF p] u(2) on_page_defined [of "unmap_page a" u p] by fastforce
    ultimately show "\<exists>w. ?unmap p u = Inr w" by (simp add: known_step_def)
  qed
  then obtain pm2 where pm2: "foldR ?unmap ?P pm1 = Inr pm2" by blast
  note two = foldR_pages [OF known_turn later_refl distinct_page_list pm2]
  have slot2: "slot pm2 p = (if p \<in> set ?P then (remapped (pm_page pm p), pm_host pm p) else slot pm p)" for p
    using slot1 [of p] one two by (cases "p \<in> set ?P") auto
  have "PageEnd v n = Inr (PageStart (v + n - 1) + PAGE_SIZE)" using assms(1) by (simp add: PageEnd_def)
  moreover have "\<not> pm_in_fault pm1 th" using one assms(2) by (simp add: later_def)
  ultimately have "OnGpuMap th v n a pm = Inr pm1" "OnGpuUnmap th v n a pm1 = Inr pm2"
    using pm1 pm2 assms(2) by (simp_all add: OnGpuMap_def OnGpuUnmap_def)
  moreover have "mappings (pm_page pm1 p) = mappings (pm_page pm p) + (if p \<in> set ?P then 1 else 0)" for p
  proof (cases "p \<in> set ?P")
    case True
    then show ?thesis using slot1 [OF True] by (auto simp: slot_def)
  next
    case False
    then show ?thesis using one by (simp add: slot_def)
  qed
  moreover have "pm_host pm2 p = pm_host pm p \<and> pm_page pm2 p =
      (if p \<in> set ?P then remapped (pm_page pm p) else pm_page pm p)" for p
    using slot2 [of p] by (simp add: slot_def split: if_splits)
  ultimately show ?thesis by blast
qed

theorem map_unmap_roundtrip_witness:
  "\<exists>pm1 pm2. OnGpuMap 1 4096 8192 AccessRead (PM_start (\<lambda>_. HostFree) (\<lambda>_. True)) = Inr pm1
    \<and> OnGpuUnmap 1 4096 8192 AccessRead pm1 = Inr pm2 \<and> mappings (pm_page pm1 2) = 1
    \<and> mappings (pm_page pm2 2) = 0"
proof -
  have "ValidRange 4096 8192" "page_list 4096 8192 = [1, 2]"
    by (simp_all add: ValidRange_def ADDRESS_SIZE_def PAGE_SIZE_def page_list_def upt_conv_Cons)
  moreover have "mappable (pm_page (PM_start (\<lambda>_. HostFree) (\<lambda>_. True)) p)" for p
    by (simp add: mappable_def PM_start_def fresh_page_def UINT32_MAX_def watched_def)
  ultimately show ?thesis
    using map_unmap_roundtrip [of 4096 8192 "PM_start (\<lambda>_. HostFree) (\<lambda>_. True)" 1 AccessRead]
    by (auto simp: PM_start_def fresh_page_def remapped_def)
qed

section \<open>Page 0\<close>

lemma run_from_zero:
  assumes "bits 0"
  shows "\<exists>stop. bit_runs bits 0 = (0, stop) # bit_runs bits stop"
proof -
  have "skip_while (\<lambda>i. \<not> bits i) 0 = 0"
    using skip_while_facts(3) [of 0 0 "\<lambda>i. \<not> bits i"] assms by fastforce
  moreover have "skip_while bits 0 \<noteq> 0"
    using skip_while_facts(4) [of 0 bits] assms by (metis REGION_PAGES_def zero_less_numeral le0)
  ultimately show ?thesis
    by (subst bit_runs.simps) (simp add: Let_def REGION_PAGES_def)
qed

lemma protect_page_zero:
  assumes "rg_addr r = 0" and "bits 0" and "\<not> pm_in_fault pm th"
  shows "ApplyProtection th bits track r pm = Inl (Exit ''invalid range'')"
proof -
  obtain stop where "bit_runs bits 0 = (0, stop) # bit_runs bits stop" using run_from_zero [of bits] assms(2) by blast
  then show ?thesis using assms(1,3)
    by (simp add: ApplyProtection_def ForEachRange_def UpdatePageWatchers_def PageEnd_def ValidRange_def)
qed

text \<open>
  Page 0. The trackers accept every range above address 0 and track whole pages, so a range
  inside the first page is valid; but its page starts at address 0, which the page manager
  takes for an invalid range. Uploading such a range ends the process, whatever the tracker
  and the page manager hold, as long as the page is CPU-modified as every page is at first.
\<close>

theorem page_zero_exits:
  assumes "0 < v" and "0 < n" and "v + n \<le> PAGE_SIZE" and "tk_ok t" and "\<not> pm_in_fault pm th"
    and "tbits t 0 = default_bits"
  shows "ValidRange v n \<and> ForEachUploadRange th v n is_written (t, pm) = Inl (Exit ''invalid range'')"
proof -
  have valid: "ValidRange v n" using assms(1-3) by (simp add: ValidRange_def PAGE_SIZE_def ADDRESS_SIZE_def)
  have chunks: "range_chunks v n = [(0, v, n)]"
    using assms(1-3) by (simp add: range_chunks_def chunks.simps REGION_SIZE_def PAGE_SIZE_def)
  have mapped: "RequireMapped th v n pm = Inr ()" using valid assms(5) by (simp add: RequireMapped_def IsMapped_def)
  obtain r where r: "TrackerRegion True 0 t = Inr (Some r)" "rg_addr r = 0" "rbits r 0 = default_bits"
  proof (cases "tk_regions t 0")
    case None
    then show ?thesis
      using that by (simp add: TrackerRegion_def new_region_def rbits_def default_bits_def)
  next
    case (Some r)
    then show ?thesis
      using that [of r] assms(4,6) by (simp add: TrackerRegion_def tk_ok_def tbits_def)
  qed
  have page: "GetPageRange v n r' = Inr (0, 1)" if "rg_addr r' = 0" for r'
  proof -
    have "v + n \<le> 4096" using assms(3) by (simp add: PAGE_SIZE_def)
    moreover have "(4095 + (v + n)) div 4096 = Suc 0"
      using calculation assms(1) by (simp add: div_nat_eqI)
    ultimately show ?thesis using assms(1-2) that by (simp add: GetPageRange_def REGION_SIZE_def PAGE_SIZE_def)
  qed
  have bits: "rg_cpu r 0" "\<not> rg_pending r 0" "rg_writable r 0"
    using r(3) by (simp_all add: rbits_def default_bits_def)
  have "upload_region th r v n pm = Inl (Exit ''invalid range'')"
    using r(2) page bits protect_page_zero assms(5)
    by (simp add: upload_region_def Track_def ForEachModifiedRange_def Let_def GetBits_def PutBits_def xor_bits_def)
  then show ?thesis using valid chunks mapped r(1)
    by (simp add: ForEachUploadRange_def Iterate_def on_region_def TrackerRegion_def Let_def)
qed

theorem page_zero_exits_witness:
  "ForEachUploadRange 1 16 16 False (tracker_start WatchReadWrite, PM_start (\<lambda>_. HostFree) (\<lambda>_. True))
     = Inl (Exit ''invalid range'')"
proof -
  have "tk_ok (tracker_start WatchReadWrite)" "tbits (tracker_start WatchReadWrite) 0 = default_bits"
    by (simp_all add: tk_ok_def tracker_start_def tbits_def)
  then show ?thesis
    using page_zero_exits [of 16 16 "tracker_start WatchReadWrite" "PM_start (\<lambda>_. HostFree) (\<lambda>_. True)" 1 False]
    by (simp add: PAGE_SIZE_def PM_start_def)
qed

end
