(* ===== verification/PthreadMutex.thy ===== *)
theory PthreadMutex
  imports Reachability "HOL-Library.Word"
begin

text \<open>
  The mutexes of guest threads, \<open>gpu/src/kernel/pthread.cpp\<close>: \<open>PthreadMutexPrivate\<close>,
  \<open>NativeMutexLock\<close>, \<open>NativeMutexTrylock\<close>, \<open>NativeMutexUnlock\<close>, \<open>NativeMutexLockRecurse\<close> and
  the system calls on them. An operation is split where it sleeps: each function is one
  critical section of the host mutex \<open>m\<close> of the object. A sleeping thread looks again after at
  most \<open>SIGNAL_APC_POLL_MICROS\<close>, so a turn of its loop may happen at any time; that the
  deadline of a timed call has passed is an argument of the turn. The object exists already
  (\<open>CreateObject\<close> makes it on first use), and signal handlers of the guest do not run.
\<close>

section \<open>State\<close>

type_synonym thread = nat

definition UINT32_MAX :: nat where
  "UINT32_MAX = 2 ^ 32 - 1"

text \<open>The error numbers of the host that the operations return, and \<open>OK\<close>.\<close>

datatype native_result =
  NOk | NEagain | NEdeadlk | NEtimedout | NEbusy | NEperm | NEinval

record pmutex =
  mx_owner :: "thread option"
  mx_count :: nat
  mx_type :: int

definition mutex_new :: "int \<Rightarrow> pmutex" where
  "mutex_new type = \<lparr>mx_owner = None, mx_count = 0, mx_type = type\<rparr>"

definition KERNEL_PTHREAD_MUTEX_ERRORCHECK :: int where "KERNEL_PTHREAD_MUTEX_ERRORCHECK = 1"
definition KERNEL_PTHREAD_MUTEX_RECURSIVE :: int where "KERNEL_PTHREAD_MUTEX_RECURSIVE = 2"
definition KERNEL_PTHREAD_MUTEX_NORMAL :: int where "KERNEL_PTHREAD_MUTEX_NORMAL = 3"
definition KERNEL_PTHREAD_MUTEX_ADAPTIVE :: int where "KERNEL_PTHREAD_MUTEX_ADAPTIVE = 4"

text \<open>\<open>PthreadMutexattrSettype\<close>: the type of the attribute, unless it is refused.\<close>

definition PthreadMutexattrSettype :: "int \<Rightarrow> int \<Rightarrow> int \<times> int" where
  "PthreadMutexattrSettype type old =
     (if type \<in> {KERNEL_PTHREAD_MUTEX_ERRORCHECK, KERNEL_PTHREAD_MUTEX_RECURSIVE,
                 KERNEL_PTHREAD_MUTEX_NORMAL, KERNEL_PTHREAD_MUTEX_ADAPTIVE}
      then (OK, type) else (KERNEL_ERROR_EINVAL, old))"

text \<open>
  \<open>PthreadMutexInitNamed\<close>: the type comes from the static initialiser (\<open>CreateObject\<close> passes 4
  for an adaptive one, else 0), from the attribute, or from the default attribute.
\<close>

definition PthreadMutexInitNamed :: "int \<Rightarrow> int option \<Rightarrow> int \<Rightarrow> pmutex" where
  "PthreadMutexInitNamed static_type attr default_type =
     mutex_new (if static_type \<noteq> 0 then snd (PthreadMutexattrSettype static_type 0)
                else case attr of None \<Rightarrow> default_type | Some type \<Rightarrow> type)"

section \<open>Operations\<close>

text \<open>
  \<open>NativeMutexLock\<close> up to its first sleep: it returns, or sleeps until the mutex is free, or, as
  the owner with a timeout, until the time is up. \<open>None\<close> is no timeout.
\<close>

datatype lock_enter =
  Returns native_result pmutex
| Waits
| WaitsAsOwner

definition Mutex_Enter :: "thread \<Rightarrow> nat option \<Rightarrow> pmutex \<Rightarrow> lock_enter" where
  "Mutex_Enter self timeout m =
     (if mx_owner m = Some self then
        (if mx_type m = 2 then
           (if mx_count m = UINT32_MAX then Returns NEagain m
            else Returns NOk (m\<lparr>mx_count := mx_count m + 1\<rparr>))
         else (case timeout of
                 Some us \<Rightarrow> if us > 0 then WaitsAsOwner else Returns NEtimedout m
               | None \<Rightarrow> Returns NEdeadlk m))
      else if mx_owner m = None
      then Returns NOk (m\<lparr>mx_owner := Some self, mx_count := 1\<rparr>)
      else if timeout = Some 0 then Returns NEtimedout m
      else Waits)"

text \<open>A turn of the waiting loop; \<open>None\<close> is another sleep.\<close>

definition Mutex_Turn :: "thread \<Rightarrow> bool \<Rightarrow> pmutex \<Rightarrow> (native_result \<times> pmutex) option" where
  "Mutex_Turn self expired m =
     (if mx_owner m = None then Some (NOk, m\<lparr>mx_owner := Some self, mx_count := 1\<rparr>)
      else if expired then Some (NEtimedout, m) else None)"

definition NativeMutexTrylock :: "thread \<Rightarrow> pmutex \<Rightarrow> native_result \<times> pmutex" where
  "NativeMutexTrylock self m =
     (if mx_owner m = Some self then
        (if mx_type m = 2 then
           (if mx_count m = UINT32_MAX then (NEagain, m)
            else (NOk, m\<lparr>mx_count := mx_count m + 1\<rparr>))
         else (NEbusy, m))
      else if mx_owner m \<noteq> None then (NEbusy, m)
      else (NOk, m\<lparr>mx_owner := Some self, mx_count := 1\<rparr>))"

text \<open>
  The second result is what \<open>recurse\<close> receives; \<open>all\<close> says that the pointer is not null, so that
  every lock of the owner is given up.
\<close>

definition NativeMutexUnlock :: "thread \<Rightarrow> bool \<Rightarrow> pmutex \<Rightarrow> native_result \<times> nat option \<times> pmutex" where
  "NativeMutexUnlock self all m =
     (if mx_owner m \<noteq> Some self then (NEperm, None, m)
      else
        (let recurse = (if all then Some (mx_count m) else None);
             m = (if all then m\<lparr>mx_count := 1\<rparr> else m)
         in if mx_type m = 2 \<and> mx_count m > 1
            then (NOk, recurse, m\<lparr>mx_count := mx_count m - 1\<rparr>)
            else (NOk, recurse, m\<lparr>mx_owner := None, mx_count := 0\<rparr>)))"

text \<open>What \<open>NativeMutexLockRecurse\<close> does after \<open>NativeMutexLock\<close> has returned.\<close>

definition restore_count :: "nat \<Rightarrow> native_result \<times> pmutex \<Rightarrow> native_result \<times> pmutex" where
  "restore_count recurse x =
     (if fst x = NOk then (NOk, (snd x)\<lparr>mx_count := max recurse 1\<rparr>) else x)"

section \<open>Results of the system calls\<close>

fun lock_code :: "native_result \<Rightarrow> int" where
  "lock_code NOk = OK"
| "lock_code NEagain = KERNEL_ERROR_EAGAIN"
| "lock_code NEdeadlk = KERNEL_ERROR_EDEADLK"
| "lock_code _ = KERNEL_ERROR_EINVAL"

fun trylock_code :: "native_result \<Rightarrow> int" where
  "trylock_code NOk = OK"
| "trylock_code NEagain = KERNEL_ERROR_EAGAIN"
| "trylock_code NEbusy = KERNEL_ERROR_EBUSY"
| "trylock_code _ = KERNEL_ERROR_EINVAL"

fun timedlock_code :: "native_result \<Rightarrow> int" where
  "timedlock_code NOk = OK"
| "timedlock_code NEtimedout = KERNEL_ERROR_ETIMEDOUT"
| "timedlock_code NEagain = KERNEL_ERROR_EAGAIN"
| "timedlock_code NEdeadlk = KERNEL_ERROR_EDEADLK"
| "timedlock_code _ = KERNEL_ERROR_EINVAL"

fun unlock_code :: "native_result \<Rightarrow> int" where
  "unlock_code NOk = OK"
| "unlock_code NEperm = KERNEL_ERROR_EPERM"
| "unlock_code _ = KERNEL_ERROR_EINVAL"

text \<open>\<open>PthreadMutexDestroy\<close>; \<open>None\<close> is a null pointer, in the argument and afterwards.\<close>

definition PthreadMutexDestroy :: "pmutex option \<Rightarrow> int \<times> pmutex option" where
  "PthreadMutexDestroy m = (case m of
       None \<Rightarrow> (KERNEL_ERROR_EINVAL, None)
     | Some x \<Rightarrow> if mx_owner x = None then (OK, None) else (KERNEL_ERROR_EBUSY, Some x))"

text \<open>
  \<open>pthread_mutex_timedlock\<close>: the relative timeout for an absolute time and the time of the clock,
  both in seconds and nanoseconds; \<open>None\<close> is \<open>EINVAL\<close>, also for a null pointer.
\<close>

definition pthread_mutex_timedlock_usec :: "(int \<times> int) option \<Rightarrow> int \<times> int \<Rightarrow> int option" where
  "pthread_mutex_timedlock_usec abstime now = (case abstime of
       None \<Rightarrow> None
     | Some (tv_sec, tv_nsec) \<Rightarrow>
         if tv_sec < 0 \<or> tv_nsec < 0 \<or> tv_nsec \<ge> 1000000000 then None
         else
           (let sec_delta = tv_sec - fst now;
                nsec_delta = tv_nsec - snd now;
                (sec_delta, nsec_delta) = (if nsec_delta < 0 then (sec_delta - 1, nsec_delta + 1000000000)
                                           else (sec_delta, nsec_delta))
            in if sec_delta > 0 \<or> sec_delta = 0 \<and> nsec_delta > 0
               then (let usec = (if sec_delta > int UINT32_MAX div 1000000 then int UINT32_MAX
                                 else sec_delta * 1000000)
                     in Some (min (int UINT32_MAX) (usec + nsec_delta div 1000)))
               else Some 0))"

section \<open>What an operation does to the locks of a thread\<close>

text \<open>The number of locks a thread has.\<close>

definition locks :: "pmutex \<Rightarrow> thread \<Rightarrow> nat" where
  "locks m t = (if mx_owner m = Some t then mx_count m else 0)"

definition mutex_ok :: "pmutex \<Rightarrow> bool" where
  "mutex_ok m \<longleftrightarrow> (mx_owner m = None \<longleftrightarrow> mx_count m = 0) \<and> mx_count m \<le> UINT32_MAX
     \<and> (mx_type m \<noteq> 2 \<longrightarrow> mx_count m \<le> 1)"

lemma mutex_ok_new: "mutex_ok (mutex_new type)"
  by (simp add: mutex_ok_def mutex_new_def)

lemma UINT32_MAX_pos [simp]: "Suc 0 \<le> UINT32_MAX" "0 < UINT32_MAX"
  by (simp_all add: UINT32_MAX_def)

lemma locks_exclusive: "0 < locks m t \<Longrightarrow> 0 < locks m u \<Longrightarrow> t = u"
  by (auto simp: locks_def split: if_splits)

text \<open>An acquisition adds one lock to the thread when it succeeds, and changes nothing otherwise.\<close>

definition acquired :: "thread \<Rightarrow> native_result \<Rightarrow> pmutex \<Rightarrow> pmutex \<Rightarrow> bool" where
  "acquired t r m m' \<longleftrightarrow> mutex_ok m' \<and> mx_type m' = mx_type m
     \<and> (if r = NOk then locks m' = (locks m)(t := locks m t + 1) else m' = m)"

lemma acquired_free:
  "mutex_ok m \<Longrightarrow> mx_owner m = None \<Longrightarrow> acquired t NOk m (m\<lparr>mx_owner := Some t, mx_count := 1\<rparr>)"
  by (auto simp: acquired_def mutex_ok_def locks_def fun_eq_iff)

lemma acquired_again:
  "mutex_ok m \<Longrightarrow> mx_owner m = Some t \<Longrightarrow> mx_type m = 2 \<Longrightarrow> mx_count m \<noteq> UINT32_MAX \<Longrightarrow>
     acquired t NOk m (m\<lparr>mx_count := mx_count m + 1\<rparr>)"
  by (auto simp: acquired_def mutex_ok_def locks_def fun_eq_iff)

lemma acquired_not: "mutex_ok m \<Longrightarrow> r \<noteq> NOk \<Longrightarrow> acquired t r m m"
  by (simp add: acquired_def)

lemma Mutex_Enter_spec:
  assumes "mutex_ok m"
  shows "case Mutex_Enter t timeout m of
      Returns r m' \<Rightarrow> acquired t r m m'
    | Waits \<Rightarrow> locks m t = 0 \<and> mx_owner m \<noteq> None
    | WaitsAsOwner \<Rightarrow> 0 < locks m t"
proof -
  have "0 < locks m t" if "mx_owner m = Some t" using assms that by (simp add: mutex_ok_def locks_def)
  then show ?thesis
    using assms acquired_free acquired_again acquired_not
    by (auto simp: Mutex_Enter_def locks_def split: option.splits)
qed

lemma Mutex_Turn_spec:
  "mutex_ok m \<Longrightarrow> Mutex_Turn t expired m = Some (r, m') \<Longrightarrow> acquired t r m m'"
  using acquired_free acquired_not by (auto simp: Mutex_Turn_def split: if_splits)

lemma Trylock_spec:
  "mutex_ok m \<Longrightarrow> NativeMutexTrylock t m = (r, m') \<Longrightarrow> acquired t r m m'"
  using acquired_free acquired_again acquired_not
  by (auto simp: NativeMutexTrylock_def split: if_splits)

lemma Unlock_spec:
  assumes "mutex_ok m" and "NativeMutexUnlock t all m = (r, recurse, m')"
  shows "mutex_ok m' \<and> mx_type m' = mx_type m \<and> (r = NOk \<longleftrightarrow> 0 < locks m t)
    \<and> (if r = NOk then locks m' = (locks m)(t := if all then 0 else locks m t - 1)
         \<and> recurse = (if all then Some (locks m t) else None)
       else r = NEperm \<and> m' = m)"
  using assms
  by (auto simp: NativeMutexUnlock_def mutex_ok_def locks_def Let_def fun_eq_iff split: if_splits)

section \<open>Timeouts\<close>

lemma timeout_cases:
  fixes sd nd q :: int
  assumes "0 \<le> q" and "q < 1000000" and "\<not> 0 < nd \<Longrightarrow> q = 0"
  shows "(if sd > 0 \<or> sd = 0 \<and> nd > 0
      then min 4294967295 ((if sd > 4294 then 4294967295 else sd * 1000000) + q) else 0)
    = min 4294967295 (max 0 (sd * 1000000 + q))"
proof -
  consider "sd < 0" | "sd = 0" | "0 < sd" "sd \<le> 4294" | "4294 < sd" by linarith
  then show ?thesis
  proof cases
    case 1
    then have "sd * 1000000 + q \<le> 0" using assms(2) by linarith
    then show ?thesis using 1 by simp
  next
    case 2
    then show ?thesis using assms by (cases "0 < nd") simp_all
  next
    case 3
    then have "0 \<le> sd * 1000000 + q" using assms(1) by linarith
    then show ?thesis using 3 by simp
  next
    case 4
    then have "4294967295 \<le> sd * 1000000 + q" using assms(1) by linarith
    then show ?thesis using 4 assms(1) by simp
  qed
qed

text \<open>
  C37. The relative timeout of \<open>pthread_mutex_timedlock\<close> is exact: the whole microseconds from now to
  the absolute time, at most the largest 32-bit number and 0 for a time that has passed. A time is
  refused just when it is not a valid one.
\<close>

theorem timedlock_timeout_exact:
  assumes "0 \<le> now_nsec" and "now_nsec < 1000000000"
  shows "pthread_mutex_timedlock_usec (Some (sec, nsec)) (now_sec, now_nsec) =
     (if 0 \<le> sec \<and> 0 \<le> nsec \<and> nsec < 1000000000
      then Some (min (int UINT32_MAX)
             (max 0 (((sec - now_sec) * 1000000000 + (nsec - now_nsec)) div 1000)))
      else None)"
proof (cases "0 \<le> sec \<and> 0 \<le> nsec \<and> nsec < 1000000000")
  case True
  have U: "int UINT32_MAX = 4294967295" by (simp add: UINT32_MAX_def)
  define sd where "sd = (if nsec - now_nsec < 0 then sec - now_sec - 1 else sec - now_sec)"
  define nd where "nd = (if nsec - now_nsec < 0 then nsec - now_nsec + 1000000000 else nsec - now_nsec)"
  have nd: "0 \<le> nd" "nd < 1000000000" using True assms by (auto simp: nd_def)
  have total: "(sec - now_sec) * 1000000000 + (nsec - now_nsec) = nd + sd * 1000000 * 1000"
    by (simp add: sd_def nd_def)
  have d: "((sec - now_sec) * 1000000000 + (nsec - now_nsec)) div 1000 = sd * 1000000 + nd div 1000"
    unfolding total by simp
  have q: "0 \<le> nd div 1000" "nd div 1000 < 1000000" using nd by auto
  have "pthread_mutex_timedlock_usec (Some (sec, nsec)) (now_sec, now_nsec) =
      (if sd > 0 \<or> sd = 0 \<and> nd > 0
       then Some (min 4294967295 ((if sd > 4294967295 div 1000000 then 4294967295 else sd * 1000000) + nd div 1000))
       else Some 0)"
  proof -
    have "(if nsec - now_nsec < 0 then (sec - now_sec - 1, nsec - now_nsec + 1000000000)
        else (sec - now_sec, nsec - now_nsec)) = (sd, nd)" by (simp only: sd_def nd_def split: if_splits) simp
    moreover have "\<not> (sec < 0 \<or> nsec < 0 \<or> nsec \<ge> 1000000000)" using True by auto
    ultimately show ?thesis
      by (simp only: pthread_mutex_timedlock_usec_def option.case prod.case fst_conv snd_conv Let_def U
          if_False min.commute split: if_splits)
  qed
  then have r: "pthread_mutex_timedlock_usec (Some (sec, nsec)) (now_sec, now_nsec) =
      Some (if sd > 0 \<or> sd = 0 \<and> nd > 0
       then min 4294967295 ((if sd > 4294 then 4294967295 else sd * 1000000) + nd div 1000) else 0)"
    by simp
  have zero: "\<not> 0 < nd \<Longrightarrow> nd div 1000 = 0" using nd by simp
  show ?thesis
    unfolding d U r if_P [OF True] by (rule arg_cong [where f = Some, OF timeout_cases [OF q zero]])
next
  case False
  then have "sec < 0 \<or> nsec < 0 \<or> nsec \<ge> 1000000000" by linarith
  then show ?thesis
    using False by (simp only: pthread_mutex_timedlock_usec_def option.case prod.case if_True if_False)
qed

theorem timedlock_timeout_exact_witness:
  "pthread_mutex_timedlock_usec (Some (12, 500)) (10, 999999600) = Some 1000000"
  using timedlock_timeout_exact [of 999999600 12 500 10] by (simp add: UINT32_MAX_def)

end
