(* ===== verification/PthreadCond.thy ===== *)
theory PthreadCond
  imports PthreadMutex
begin

text \<open>
  The condition variables of guest threads and the threads that use them with mutexes,
  \<open>gpu/src/kernel/pthread.cpp\<close>: \<open>PthreadCondPrivate\<close>, the helpers on its waiters, and the
  system calls. A step is a call of a running thread, or a turn of a call that sleeps. Each step
  is one critical section: entering a wait holds \<open>m\<close> of the condition variable from
  \<open>CondAddWaiter\<close> to the sleep, and only the owner changes the mutex it then unlocks;
  \<open>NativeMutexLockRecurse\<close> writes the count of a mutex its thread owns. The sequence numbers are
  64 bits wide and count wake-ups; they are not followed to their wrap-around.
\<close>

section \<open>State\<close>

record pcond =
  cd_sequence :: nat
  cd_waiters :: "thread list"

text \<open>What \<open>PthreadPrivate\<close> holds for condition variables: \<open>cond_sequence\<close> and \<open>waiting_cond\<close>.\<close>

record cond_thread =
  th_sequence :: nat
  th_waiting :: "nat option"

text \<open>
  Where a thread is: outside the calls, in \<open>NativeMutexLock\<close> waiting for a mutex (with a timeout
  or without, or as its owner), in the loop of a wait with the values it has read and whether the
  wait has a deadline, or after the loop, with the result, about to lock again (not yet entered,
  or asleep).
\<close>

datatype place =
  Running
| InLock nat bool
| InLockOwn nat
| InCond nat nat nat nat nat bool
| InRelock nat nat native_result bool bool

record sync =
  mutexes :: "nat \<Rightarrow> pmutex"
  conds :: "nat \<Rightarrow> pcond"
  threads :: "thread \<Rightarrow> cond_thread"
  places :: "thread \<Rightarrow> place"

abbreviation set_mutex :: "nat \<Rightarrow> pmutex \<Rightarrow> sync \<Rightarrow> sync" where
  "set_mutex i m w \<equiv> w\<lparr>mutexes := (mutexes w)(i := m)\<rparr>"

abbreviation set_place :: "thread \<Rightarrow> place \<Rightarrow> sync \<Rightarrow> sync" where
  "set_place t p w \<equiv> w\<lparr>places := (places w)(t := p)\<rparr>"

section \<open>The waiters of a condition variable\<close>

definition CondAddWaiter :: "nat \<Rightarrow> thread \<Rightarrow> sync \<Rightarrow> sync" where
  "CondAddWaiter c t w = w
     \<lparr>threads := (threads w)(t := (threads w t)\<lparr>th_waiting := Some c\<rparr>),
      conds := (conds w)(c := (conds w c)\<lparr>cd_waiters := cd_waiters (conds w c) @ [t]\<rparr>)\<rparr>"

definition forget_waiting :: "nat \<Rightarrow> cond_thread \<Rightarrow> cond_thread" where
  "forget_waiting c th = (if th_waiting th = Some c then th\<lparr>th_waiting := None\<rparr> else th)"

definition CondRemoveWaiter :: "nat \<Rightarrow> thread \<Rightarrow> sync \<Rightarrow> bool \<times> sync" where
  "CondRemoveWaiter c t w =
     (if t \<notin> set (cd_waiters (conds w c)) then (False, w)
      else (True, w
        \<lparr>conds := (conds w)(c := (conds w c)\<lparr>cd_waiters := remove1 t (cd_waiters (conds w c))\<rparr>),
         threads := (threads w)(t := forget_waiting c (threads w t))\<rparr>))"

text \<open>\<open>None\<close> is the null thread, for the first waiter.\<close>

definition CondWakeWaiter :: "nat \<Rightarrow> thread option \<Rightarrow> sync \<Rightarrow> bool \<times> sync" where
  "CondWakeWaiter c thread w =
     (if thread = None \<and> cd_waiters (conds w c) = [] then (False, w)
      else
        (let t = (case thread of None \<Rightarrow> hd (cd_waiters (conds w c)) | Some u \<Rightarrow> u)
         in if t \<notin> set (cd_waiters (conds w c)) then (False, w)
            else (True, w
              \<lparr>conds := (conds w)(c := (conds w c)\<lparr>cd_waiters := remove1 t (cd_waiters (conds w c))\<rparr>),
               threads := (threads w)(t := (forget_waiting c (threads w t))
                 \<lparr>th_sequence := th_sequence (threads w t) + 1\<rparr>)\<rparr>)))"

definition CondClearWaiters :: "nat \<Rightarrow> sync \<Rightarrow> sync" where
  "CondClearWaiters c w = w
     \<lparr>threads := (\<lambda>t. if t \<in> set (cd_waiters (conds w c)) then forget_waiting c (threads w t)
                      else threads w t),
      conds := (conds w)(c := (conds w c)\<lparr>cd_waiters := []\<rparr>)\<rparr>"

section \<open>Signals\<close>

definition PthreadCondBroadcast :: "nat \<Rightarrow> sync \<Rightarrow> sync" where
  "PthreadCondBroadcast c w =
     (if cd_waiters (conds w c) = [] then w
      else CondClearWaiters c (w\<lparr>conds := (conds w)
             (c := (conds w c)\<lparr>cd_sequence := cd_sequence (conds w c) + 1\<rparr>)\<rparr>))"

definition PthreadCondSignal :: "nat \<Rightarrow> sync \<Rightarrow> sync" where
  "PthreadCondSignal c w = snd (CondWakeWaiter c None w)"

definition PthreadCondSignalto :: "nat \<Rightarrow> thread option \<Rightarrow> sync \<Rightarrow> int \<times> sync" where
  "PthreadCondSignalto c thread w =
     (case thread of None \<Rightarrow> (KERNEL_ERROR_EINVAL, w)
      | Some u \<Rightarrow> (OK, snd (CondWakeWaiter c (Some u) w)))"

section \<open>Waits\<close>

fun cond_code :: "bool \<Rightarrow> native_result \<Rightarrow> int" where
  "cond_code timed NOk = OK"
| "cond_code timed NEtimedout = (if timed then KERNEL_ERROR_ETIMEDOUT else KERNEL_ERROR_EINVAL)"
| "cond_code timed NEperm = KERNEL_ERROR_EPERM"
| "cond_code timed _ = KERNEL_ERROR_EINVAL"

text \<open>
  The waits up to their loop. \<open>usec\<close> is \<open>None\<close> where there is no relative timeout; a timeout of 0
  leaves at once. The result of the call, or \<open>None\<close> while it goes on.
\<close>

definition Cond_Enter :: "thread \<Rightarrow> nat \<Rightarrow> nat \<Rightarrow> bool \<Rightarrow> nat option \<Rightarrow> sync \<Rightarrow> int option \<times> sync" where
  "Cond_Enter self c m timed usec w =
     (if mx_owner (mutexes w m) \<noteq> Some self then (Some KERNEL_ERROR_EPERM, w)
      else
        (let sequence = cd_sequence (conds w c);
             thread_sequence = th_sequence (threads w self);
             w1 = CondAddWaiter c self w
         in case NativeMutexUnlock self True (mutexes w1 m) of
              (r, recurse, m') \<Rightarrow>
                if r \<noteq> NOk
                then (Some (if r = NEperm then KERNEL_ERROR_EPERM else KERNEL_ERROR_EINVAL),
                      snd (CondRemoveWaiter c self w1))
                else
                  (let w2 = set_mutex m m' w1
                   in if usec = Some 0
                      then (None, set_place self (InRelock m (the recurse) NEtimedout timed False)
                              (snd (CondRemoveWaiter c self w2)))
                      else (None, set_place self
                              (InCond c m sequence thread_sequence (the recurse) timed) w2))))"

definition PthreadCondWait :: "thread \<Rightarrow> nat \<Rightarrow> nat \<Rightarrow> sync \<Rightarrow> int option \<times> sync" where
  "PthreadCondWait self c m w = Cond_Enter self c m False None w"

definition PthreadCondTimedwait :: "thread \<Rightarrow> nat \<Rightarrow> nat \<Rightarrow> nat \<Rightarrow> sync \<Rightarrow> int option \<times> sync" where
  "PthreadCondTimedwait self c m usec w = Cond_Enter self c m True (Some usec) w"

text \<open>\<open>valid\<close> is what \<open>NativeCondDeadlineFromAbs\<close> returns for the absolute time.\<close>

definition PthreadCondTimedwaitAbs :: "thread \<Rightarrow> nat \<Rightarrow> nat \<Rightarrow> bool \<Rightarrow> sync \<Rightarrow> int option \<times> sync" where
  "PthreadCondTimedwaitAbs self c m valid w =
     (if \<not> valid then (Some KERNEL_ERROR_EINVAL, w) else Cond_Enter self c m True None w)"

text \<open>A thread in the loop of its wait may leave it: \<open>ready\<close> of the source.\<close>

definition cond_ready :: "sync \<Rightarrow> thread \<Rightarrow> nat \<Rightarrow> nat \<Rightarrow> nat \<Rightarrow> bool" where
  "cond_ready w t c sequence thread_sequence \<longleftrightarrow>
     cd_sequence (conds w c) \<noteq> sequence \<or> th_sequence (threads w t) \<noteq> thread_sequence"

text \<open>A turn of the loop and what follows it.\<close>

definition Cond_Turn :: "thread \<Rightarrow> bool \<Rightarrow> nat \<Rightarrow> nat \<Rightarrow> nat \<Rightarrow> nat \<Rightarrow> nat \<Rightarrow> bool \<Rightarrow> sync \<Rightarrow> sync" where
  "Cond_Turn self expired c m sequence thread_sequence recurse timed w =
     (let ready = cond_ready w self c sequence thread_sequence
      in if ready \<or> timed \<and> expired
         then set_place self (InRelock m recurse (if ready then NOk else NEtimedout) timed False)
                (snd (CondRemoveWaiter c self w))
         else w)"

text \<open>The end of a wait: \<open>NativeMutexLockRecurse\<close>, and the result.\<close>

definition Relock_Return :: "thread \<Rightarrow> nat \<Rightarrow> nat \<Rightarrow> native_result \<Rightarrow> bool \<Rightarrow>
    native_result \<times> pmutex \<Rightarrow> sync \<Rightarrow> int option \<times> sync" where
  "Relock_Return self m recurse result timed locked w =
     (case restore_count recurse locked of
        (lock_result, m') \<Rightarrow>
          (Some (cond_code timed (if result = NOk then lock_result else result)),
           set_place self Running (set_mutex m m' w)))"

definition Relock_Turn :: "thread \<Rightarrow> nat \<Rightarrow> nat \<Rightarrow> native_result \<Rightarrow> bool \<Rightarrow> bool \<Rightarrow> sync \<Rightarrow>
    int option \<times> sync" where
  "Relock_Turn self m recurse result timed entered w =
     (if entered then
        (case Mutex_Turn self False (mutexes w m) of
           None \<Rightarrow> (None, w)
         | Some locked \<Rightarrow> Relock_Return self m recurse result timed locked w)
      else
        (case Mutex_Enter self None (mutexes w m) of
           Returns r m' \<Rightarrow> Relock_Return self m recurse result timed (r, m') w
         | _ \<Rightarrow> (None, set_place self (InRelock m recurse result timed True) w)))"

section \<open>Mutex calls\<close>

definition Lock_Enter :: "thread \<Rightarrow> nat \<Rightarrow> nat option \<Rightarrow> sync \<Rightarrow> int option \<times> sync" where
  "Lock_Enter self m usec w =
     (let code = (if usec = None then lock_code else timedlock_code)
      in case Mutex_Enter self usec (mutexes w m) of
           Returns r m' \<Rightarrow> (Some (code r), set_mutex m m' w)
         | Waits \<Rightarrow> (None, set_place self (InLock m (usec \<noteq> None)) w)
         | WaitsAsOwner \<Rightarrow> (None, set_place self (InLockOwn m) w))"

definition PthreadMutexLock :: "thread \<Rightarrow> nat \<Rightarrow> sync \<Rightarrow> int option \<times> sync" where
  "PthreadMutexLock self m w = Lock_Enter self m None w"

definition PthreadMutexTimedlock :: "thread \<Rightarrow> nat \<Rightarrow> nat \<Rightarrow> sync \<Rightarrow> int option \<times> sync" where
  "PthreadMutexTimedlock self m usec w = Lock_Enter self m (Some usec) w"

definition PthreadMutexTrylock :: "thread \<Rightarrow> nat \<Rightarrow> sync \<Rightarrow> int option \<times> sync" where
  "PthreadMutexTrylock self m w =
     (case NativeMutexTrylock self (mutexes w m) of
        (r, m') \<Rightarrow> (Some (trylock_code r), set_mutex m m' w))"

definition PthreadMutexUnlock :: "thread \<Rightarrow> nat \<Rightarrow> sync \<Rightarrow> int option \<times> sync" where
  "PthreadMutexUnlock self m w =
     (case NativeMutexUnlock self False (mutexes w m) of
        (r, _, m') \<Rightarrow> (Some (unlock_code r), set_mutex m m' w))"

text \<open>A turn of a lock that sleeps: of the loop, or of the owner's wait for its time.\<close>

definition Lock_Turn :: "thread \<Rightarrow> bool \<Rightarrow> nat \<Rightarrow> bool \<Rightarrow> sync \<Rightarrow> int option \<times> sync" where
  "Lock_Turn self expired m timed w =
     (case Mutex_Turn self (timed \<and> expired) (mutexes w m) of
        None \<Rightarrow> (None, w)
      | Some (r, m') \<Rightarrow> (Some ((if timed then timedlock_code else lock_code) r),
                          set_place self Running (set_mutex m m' w)))"

section \<open>Threads\<close>

datatype sync_call =
  MutexLock nat
| MutexTimedlock nat nat
| MutexTrylock nat
| MutexUnlock nat
| CondWait nat nat
| CondTimedwait nat nat nat
| CondTimedwaitAbs nat nat bool
| CondSignal nat
| CondSignalto nat "thread option"
| CondBroadcast nat

fun run_call :: "thread \<Rightarrow> sync_call \<Rightarrow> sync \<Rightarrow> int option \<times> sync" where
  "run_call t (MutexLock m) w = PthreadMutexLock t m w"
| "run_call t (MutexTimedlock m us) w = PthreadMutexTimedlock t m us w"
| "run_call t (MutexTrylock m) w = PthreadMutexTrylock t m w"
| "run_call t (MutexUnlock m) w = PthreadMutexUnlock t m w"
| "run_call t (CondWait c m) w = PthreadCondWait t c m w"
| "run_call t (CondTimedwait c m us) w = PthreadCondTimedwait t c m us w"
| "run_call t (CondTimedwaitAbs c m valid) w = PthreadCondTimedwaitAbs t c m valid w"
| "run_call t (CondSignal c) w = (Some OK, PthreadCondSignal c w)"
| "run_call t (CondSignalto c u) w = (case PthreadCondSignalto c u w of (r, w') \<Rightarrow> (Some r, w'))"
| "run_call t (CondBroadcast c) w = (Some OK, PthreadCondBroadcast c w)"

text \<open>A turn of the thread in the call it is in; \<open>expired\<close> says that its deadline has passed.\<close>

definition turn :: "thread \<Rightarrow> bool \<Rightarrow> sync \<Rightarrow> int option \<times> sync" where
  "turn t expired w =
     (case places w t of
        Running \<Rightarrow> (None, w)
      | InLock m timed \<Rightarrow> Lock_Turn t expired m timed w
      | InLockOwn m \<Rightarrow> (if expired then (Some (timedlock_code NEtimedout), set_place t Running w)
                         else (None, w))
      | InCond c m sq tsq recurse timed \<Rightarrow>
          (None, Cond_Turn t expired c m sq tsq recurse timed w)
      | InRelock m recurse result timed entered \<Rightarrow>
          Relock_Turn t m recurse result timed entered w)"

text \<open>A step of thread \<open>t\<close>, with the result when its call returns.\<close>

inductive sync_step :: "thread \<Rightarrow> int option \<Rightarrow> sync \<Rightarrow> sync \<Rightarrow> bool" where
  Call: "places w t = Running \<Longrightarrow> run_call t call w = (r, w') \<Longrightarrow> sync_step t r w w'"
| Turn: "places w t \<noteq> Running \<Longrightarrow> turn t expired w = (r, w') \<Longrightarrow> sync_step t r w w'"

definition sync_start :: "sync \<Rightarrow> bool" where
  "sync_start w \<longleftrightarrow> (\<forall>i. \<exists>type. mutexes w i = mutex_new type)
     \<and> (\<forall>c. conds w c = \<lparr>cd_sequence = 0, cd_waiters = []\<rparr>)
     \<and> (\<forall>t. threads w t = \<lparr>th_sequence = 0, th_waiting = None\<rparr>)
     \<and> (\<forall>t. places w t = Running)"

end
