(* ===== verification/PthreadSafety.thy ===== *)
theory PthreadSafety
  imports PthreadCond
begin

text \<open>
  The invariant of threads, mutexes and condition variables: the waiters of a condition variable
  are the threads in the loop of a wait on it that nothing has woken; a thread in a wait does not
  own the mutex of the wait, and knows how often it had locked it.
\<close>

section \<open>The condition variables\<close>

fun in_cond :: "place \<Rightarrow> (nat \<times> nat \<times> nat) option" where
  "in_cond (InCond c m sq tsq recurse timed) = Some (c, sq, tsq)"
| "in_cond _ = None"

text \<open>The condition variable a thread waits for, while nothing has woken it.\<close>

definition waiting_for :: "sync \<Rightarrow> thread \<Rightarrow> nat option" where
  "waiting_for w t = (case in_cond (places w t) of
       Some (c, sq, tsq) \<Rightarrow> if cond_ready w t c sq tsq then None else Some c
     | None \<Rightarrow> None)"

definition cond_inv :: "sync \<Rightarrow> bool" where
  "cond_inv w \<longleftrightarrow> (\<forall>c. distinct (cd_waiters (conds w c)))
     \<and> (\<forall>c t. t \<in> set (cd_waiters (conds w c)) \<longleftrightarrow> waiting_for w t = Some c)
     \<and> (\<forall>t. th_waiting (threads w t) = waiting_for w t)
     \<and> (\<forall>t c sq tsq. in_cond (places w t) = Some (c, sq, tsq) \<longrightarrow>
          sq \<le> cd_sequence (conds w c) \<and> tsq \<le> th_sequence (threads w t))"

lemma cond_inv_same:
  assumes "cond_inv w" and "conds w' = conds w" and "threads w' = threads w"
    and "\<And>t. in_cond (places w' t) = in_cond (places w t)"
  shows "cond_inv w'" and "waiting_for w' = waiting_for w"
proof -
  show "waiting_for w' = waiting_for w"
    by (rule ext) (simp add: waiting_for_def cond_ready_def assms(2-4) cong: option.case_cong)
  then show "cond_inv w'" using assms by (simp add: cond_inv_def)
qed

lemma waiting_for_Running [simp]: "places w t = Running \<Longrightarrow> waiting_for w t = None"
  by (simp add: waiting_for_def)

lemma waiters_iff: "cond_inv w \<Longrightarrow> t \<in> set (cd_waiters (conds w c)) \<longleftrightarrow> waiting_for w t = Some c"
  by (simp add: cond_inv_def)

text \<open>Entering a wait adds the thread to the end of the waiters.\<close>

lemma cond_inv_enter:
  assumes inv: "cond_inv w" and run: "places w t = Running"
    and w': "w' = set_place t (InCond c m (cd_sequence (conds w c)) (th_sequence (threads w t)) recurse timed)
                (set_mutex m m' (CondAddWaiter c t w))"
  shows "cond_inv w'" and "waiting_for w' = (waiting_for w)(t := Some c)"
proof -
  show wf: "waiting_for w' = (waiting_for w)(t := Some c)"
    unfolding w' by (auto simp: waiting_for_def cond_ready_def CondAddWaiter_def fun_eq_iff
        split: option.splits)
  have "t \<notin> set (cd_waiters (conds w i))" for i using inv run by (simp add: cond_inv_def)
  then show "cond_inv w'"
    using inv wf unfolding cond_inv_def by (auto simp: w' CondAddWaiter_def)
qed

text \<open>A thread that is added and removed again leaves no trace.\<close>

lemma Remove_Add:
  assumes "cond_inv w" and "places w t = Running"
  shows "snd (CondRemoveWaiter c t ((CondAddWaiter c t w)\<lparr>mutexes := M\<rparr>)) = w\<lparr>mutexes := M\<rparr>"
    and "snd (CondRemoveWaiter c t (CondAddWaiter c t w)) = w"
proof -
  have *: "t \<notin> set (cd_waiters (conds w c))" "th_waiting (threads w t) = None"
    using assms by (simp_all add: cond_inv_def)
  then have "remove1 t (cd_waiters (conds w c) @ [t]) = cd_waiters (conds w c)"
    by (simp add: remove1_append)
  moreover have "(threads w t)\<lparr>th_waiting := None\<rparr> = threads w t" using * by (cases "threads w t") simp
  ultimately show "snd (CondRemoveWaiter c t ((CondAddWaiter c t w)\<lparr>mutexes := M\<rparr>)) = w\<lparr>mutexes := M\<rparr>"
    and "snd (CondRemoveWaiter c t (CondAddWaiter c t w)) = w"
    by (simp_all add: CondRemoveWaiter_def CondAddWaiter_def forget_waiting_def)
qed

text \<open>A thread that leaves the loop is no waiter any more.\<close>

lemma cond_inv_leave:
  assumes inv: "cond_inv w" and at: "places w t = InCond c m sq tsq recurse timed"
    and p: "in_cond p = None"
    and w': "w' = set_place t p (snd (CondRemoveWaiter c t w))"
  shows "cond_inv w'" and "waiting_for w' = (waiting_for w)(t := None)" and "mutexes w' = mutexes w"
proof -
  show wf: "waiting_for w' = (waiting_for w)(t := None)"
    unfolding w' using p by (auto simp: waiting_for_def cond_ready_def CondRemoveWaiter_def
        forget_waiting_def fun_eq_iff split: option.splits)
  have wt: "waiting_for w t \<in> {None, Some c}" using at by (simp add: waiting_for_def)
  have dist: "\<forall>i. distinct (cd_waiters (conds w i))"
    and mem: "\<forall>i u. u \<in> set (cd_waiters (conds w i)) \<longleftrightarrow> waiting_for w u = Some i"
    and th: "\<forall>u. th_waiting (threads w u) = waiting_for w u"
    using inv by (simp_all add: cond_inv_def)
  have mem': "u \<in> set (cd_waiters (conds w' i)) \<longleftrightarrow> waiting_for w' u = Some i" for i u
    using mem dist wt unfolding wf by (auto simp: w' CondRemoveWaiter_def)
  have th': "th_waiting (threads w' u) = waiting_for w' u" for u
    using mem th wt unfolding wf by (auto simp: w' CondRemoveWaiter_def forget_waiting_def)
  have dist': "distinct (cd_waiters (conds w' i))" for i
    using dist by (auto simp: w' CondRemoveWaiter_def)
  have "sq \<le> cd_sequence (conds w' c) \<and> tsq \<le> th_sequence (threads w' u)"
    if "in_cond (places w' u) = Some (c, sq, tsq)" for u c sq tsq
    using inv that p unfolding cond_inv_def
    by (auto simp: w' CondRemoveWaiter_def forget_waiting_def split: if_splits)
  then show "cond_inv w'" using mem' th' dist' by (auto simp: cond_inv_def)
  show "mutexes w' = mutexes w" by (simp add: w' CondRemoveWaiter_def)
qed

text \<open>Waking one thread.\<close>

definition woken :: "thread option \<Rightarrow> thread list \<Rightarrow> thread option" where
  "woken u ws = (case u of None \<Rightarrow> (case ws of [] \<Rightarrow> None | t # _ \<Rightarrow> Some t)
                 | Some t \<Rightarrow> if t \<in> set ws then Some t else None)"

lemma woken_in: "woken u ws = Some t \<Longrightarrow> t \<in> set ws"
  by (auto simp: woken_def split: option.splits list.splits if_splits)

lemma Wake_none: "woken u (cd_waiters (conds w c)) = None \<Longrightarrow> CondWakeWaiter c u w = (False, w)"
  by (auto simp: CondWakeWaiter_def woken_def split: option.splits list.splits if_splits)

lemma Wake_some:
  "woken u (cd_waiters (conds w c)) = Some t \<Longrightarrow> CondWakeWaiter c u w = (True, w
     \<lparr>conds := (conds w)(c := (conds w c)\<lparr>cd_waiters := remove1 t (cd_waiters (conds w c))\<rparr>),
      threads := (threads w)(t := (forget_waiting c (threads w t))
        \<lparr>th_sequence := th_sequence (threads w t) + 1\<rparr>)\<rparr>)"
  by (auto simp: CondWakeWaiter_def woken_def Let_def split: option.splits list.splits if_splits)

lemma cond_inv_wake:
  assumes inv: "cond_inv w" and t: "woken u (cd_waiters (conds w c)) = Some t"
    and w': "w' = snd (CondWakeWaiter c u w)"
  shows "cond_inv w'" and "waiting_for w' = (waiting_for w)(t := None)"
    and "places w' = places w" and "mutexes w' = mutexes w"
proof -
  note w'' = w' [unfolded Wake_some [OF t]]
  have dist: "\<forall>i. distinct (cd_waiters (conds w i))"
    and mem: "\<forall>i u. u \<in> set (cd_waiters (conds w i)) \<longleftrightarrow> waiting_for w u = Some i"
    and th: "\<forall>u. th_waiting (threads w u) = waiting_for w u"
    and sq: "\<forall>u i sq tsq. in_cond (places w u) = Some (i, sq, tsq) \<longrightarrow>
          sq \<le> cd_sequence (conds w i) \<and> tsq \<le> th_sequence (threads w u)"
    using inv by (simp_all add: cond_inv_def)
  have wt: "waiting_for w t = Some c" using mem woken_in [OF t] by blast
  have "cond_ready w' t i a b" if "in_cond (places w t) = Some (i, a, b)" for i a b
  proof -
    have "b \<le> th_sequence (threads w t)" using sq that by blast
    then show ?thesis by (simp add: w'' cond_ready_def)
  qed
  then show wf: "waiting_for w' = (waiting_for w)(t := None)"
    by (auto simp: waiting_for_def cond_ready_def w'' forget_waiting_def fun_eq_iff split: option.splits)
  have mem': "v \<in> set (cd_waiters (conds w' i)) \<longleftrightarrow> waiting_for w' v = Some i" for i v
    using mem dist wt unfolding wf by (auto simp: w'')
  have th': "th_waiting (threads w' v) = waiting_for w' v" for v
    using th wt unfolding wf by (auto simp: w'' forget_waiting_def)
  have dist': "distinct (cd_waiters (conds w' i))" for i using dist by (simp add: w'')
  have "a \<le> cd_sequence (conds w' i) \<and> b \<le> th_sequence (threads w' v)"
    if "in_cond (places w' v) = Some (i, a, b)" for v i a b
    using sq that by (fastforce simp: w'')
  then show "cond_inv w'" using mem' th' dist' by (auto simp: cond_inv_def)
  show "places w' = places w" "mutexes w' = mutexes w" by (simp_all add: w'')
qed

text \<open>Waking all of them.\<close>

lemma cond_inv_broadcast:
  assumes inv: "cond_inv w" and w': "w' = PthreadCondBroadcast c w"
  shows "cond_inv w'" and "waiting_for w' = (\<lambda>t. if waiting_for w t = Some c then None else waiting_for w t)"
    and "places w' = places w" and "mutexes w' = mutexes w"
proof -
  have dist: "\<forall>i. distinct (cd_waiters (conds w i))"
    and mem: "\<forall>i u. u \<in> set (cd_waiters (conds w i)) \<longleftrightarrow> waiting_for w u = Some i"
    and th: "\<forall>u. th_waiting (threads w u) = waiting_for w u"
    and sq: "\<forall>u i sq tsq. in_cond (places w u) = Some (i, sq, tsq) \<longrightarrow>
          sq \<le> cd_sequence (conds w i) \<and> tsq \<le> th_sequence (threads w u)"
    using inv by (simp_all add: cond_inv_def)
  have empty: "waiting_for w t \<noteq> Some c" if "cd_waiters (conds w c) = []" for t
    using mem [rule_format, of t c] that by simp
  show wf: "waiting_for w' = (\<lambda>t. if waiting_for w t = Some c then None else waiting_for w t)"
  proof (cases "cd_waiters (conds w c) = []")
    case True
    then have "waiting_for w t \<noteq> Some c" for t using empty by blast
    then show ?thesis using True by (simp add: w' PthreadCondBroadcast_def fun_eq_iff)
  next
    case False
    show ?thesis
    proof (rule ext)
      fix t
      show "waiting_for w' t = (if waiting_for w t = Some c then None else waiting_for w t)"
      proof (cases "in_cond (places w t)")
        case None
        then show ?thesis using False
          by (simp add: w' PthreadCondBroadcast_def CondClearWaiters_def waiting_for_def)
      next
        case (Some x)
        obtain i a b where x: "x = (i, a, b)" by (cases x)
        have "a \<le> cd_sequence (conds w i)" using sq Some x by blast
        then show ?thesis using False Some x
          by (auto simp: w' PthreadCondBroadcast_def CondClearWaiters_def waiting_for_def
              cond_ready_def forget_waiting_def)
      qed
    qed
  qed
  have mem': "v \<in> set (cd_waiters (conds w' i)) \<longleftrightarrow> waiting_for w' v = Some i" for i v
    using mem [rule_format, of v i] empty [of v] unfolding wf
    by (auto simp: w' PthreadCondBroadcast_def CondClearWaiters_def)
  have th': "th_waiting (threads w' v) = waiting_for w' v" for v
    using mem [rule_format, of v c] th [rule_format, of v] empty [of v] unfolding wf
    by (auto simp: w' PthreadCondBroadcast_def CondClearWaiters_def forget_waiting_def)
  have dist': "distinct (cd_waiters (conds w' i))" for i
    using dist by (auto simp: w' PthreadCondBroadcast_def CondClearWaiters_def)
  have "a \<le> cd_sequence (conds w' i) \<and> b \<le> th_sequence (threads w' v)"
    if "in_cond (places w' v) = Some (i, a, b)" for v i a b
    using sq [rule_format, of v i a b] that
    by (auto simp: w' PthreadCondBroadcast_def CondClearWaiters_def forget_waiting_def split: if_splits)
  then show "cond_inv w'" using mem' th' dist' by (auto simp: cond_inv_def)
  show "places w' = places w" "mutexes w' = mutexes w"
    by (simp_all add: w' PthreadCondBroadcast_def CondClearWaiters_def)
qed

end
