(* ===== verification/PthreadSteps.thy ===== *)
theory PthreadSteps
  imports PthreadSafety
begin

text \<open>
  The invariant of the threads and their steps: each step keeps the locks of every other thread,
  and a wait ends with the locks it began with.
\<close>

section \<open>The mutexes\<close>

text \<open>A thread that has given up \<open>r\<close> locks of the mutex and will take them again.\<close>

definition resting :: "pmutex \<Rightarrow> thread \<Rightarrow> nat \<Rightarrow> bool" where
  "resting m t r \<longleftrightarrow> locks m t = 0 \<and> 1 \<le> r \<and> r \<le> UINT32_MAX \<and> (mx_type m \<noteq> 2 \<longrightarrow> r = 1)"

fun place_ok :: "(nat \<Rightarrow> pmutex) \<Rightarrow> thread \<Rightarrow> place \<Rightarrow> bool" where
  "place_ok M t Running = True"
| "place_ok M t (InLock m timed) = (locks (M m) t = 0)"
| "place_ok M t (InLockOwn m) = (0 < locks (M m) t)"
| "place_ok M t (InCond c m sq tsq r timed) = resting (M m) t r"
| "place_ok M t (InRelock m r result timed entered) =
     (resting (M m) t r \<and> (result = NOk \<or> result = NEtimedout \<and> timed))"

definition mutex_inv :: "sync \<Rightarrow> bool" where
  "mutex_inv w \<longleftrightarrow> (\<forall>i. mutex_ok (mutexes w i)) \<and> (\<forall>t. place_ok (mutexes w) t (places w t))"

definition sync_inv :: "sync \<Rightarrow> bool" where
  "sync_inv w \<longleftrightarrow> cond_inv w \<and> mutex_inv w"

text \<open>The mutexes keep their types, and every other thread its locks.\<close>

definition own_locks :: "thread \<Rightarrow> (nat \<Rightarrow> pmutex) \<Rightarrow> (nat \<Rightarrow> pmutex) \<Rightarrow> bool" where
  "own_locks t M M' \<longleftrightarrow> (\<forall>i. mutex_ok (M' i) \<and> mx_type (M' i) = mx_type (M i)
     \<and> (\<forall>u. u \<noteq> t \<longrightarrow> locks (M' i) u = locks (M i) u))"

lemma own_locks_refl: "mutex_inv w \<Longrightarrow> own_locks t (mutexes w) (mutexes w)"
  by (simp add: own_locks_def mutex_inv_def)

lemma own_locks_upd:
  assumes "mutex_inv w" and "mutex_ok m'" and "mx_type m' = mx_type (mutexes w i)"
    and "\<And>u. u \<noteq> t \<Longrightarrow> locks m' u = locks (mutexes w i) u"
  shows "own_locks t (mutexes w) ((mutexes w)(i := m'))"
  using assms by (simp add: own_locks_def mutex_inv_def)

lemma place_ok_own:
  assumes "own_locks t M M'" and "u \<noteq> t"
  shows "place_ok M' u p = place_ok M u p"
  using assms by (cases p) (simp_all add: own_locks_def resting_def)

text \<open>What the step of a thread does to the rest.\<close>

definition steps_ok :: "thread \<Rightarrow> sync \<Rightarrow> sync \<Rightarrow> bool" where
  "steps_ok t w w' \<longleftrightarrow> sync_inv w' \<and> own_locks t (mutexes w) (mutexes w')
     \<and> (\<forall>u. u \<noteq> t \<longrightarrow> places w' u = places w u
          \<and> (waiting_for w' u = waiting_for w u \<or> waiting_for w' u = None))"

lemma steps_okI:
  assumes "sync_inv w" and "cond_inv w'" and own: "own_locks t (mutexes w) (mutexes w')"
    and "\<And>u. u \<noteq> t \<Longrightarrow> places w' u = places w u" and "place_ok (mutexes w') t (places w' t)"
    and "\<And>u. u \<noteq> t \<Longrightarrow> waiting_for w' u = waiting_for w u \<or> waiting_for w' u = None"
  shows "steps_ok t w w'"
proof -
  have "place_ok (mutexes w') u (places w' u)" for u
    using assms place_ok_own [OF own] by (cases "u = t") (simp_all add: sync_inv_def mutex_inv_def)
  then show ?thesis using assms by (simp add: steps_ok_def sync_inv_def mutex_inv_def own_locks_def)
qed

lemma acquired_own:
  assumes "mutex_inv w" and "acquired t r (mutexes w i) m'"
  shows "own_locks t (mutexes w) ((mutexes w)(i := m'))"
  using assms by (intro own_locks_upd) (auto simp: acquired_def split: if_splits)

lemma sync_invD:
  assumes "sync_inv w"
  shows "cond_inv w" and "mutex_inv w" and "mutex_ok (mutexes w i)"
    and "place_ok (mutexes w) t (places w t)"
  using assms by (simp_all add: sync_inv_def mutex_inv_def)

text \<open>A step that leaves the condition variables alone, and the place of its thread not in a wait.\<close>

lemma steps_ok_mutex:
  assumes inv: "sync_inv w" and out: "in_cond (places w t) = None" and p: "in_cond p = None"
    and w': "w' = set_place t p (set_mutex i m' w)"
    and own: "own_locks t (mutexes w) ((mutexes w)(i := m'))"
    and ok: "place_ok ((mutexes w)(i := m')) t p"
  shows "steps_ok t w w'"
proof (rule steps_okI [OF inv])
  note same = cond_inv_same [OF sync_invD(1) [OF inv], of w']
  show "cond_inv w'" by (rule same(1)) (simp_all add: w' out p)
  have "waiting_for w' = waiting_for w" by (rule same(2)) (simp_all add: w' out p)
  then show "waiting_for w' u = waiting_for w u \<or> waiting_for w' u = None" for u by simp
qed (simp_all add: w' own ok)

lemma steps_ok_run:
  assumes inv: "sync_inv w" and run: "places w t = Running" and w': "w' = set_mutex i m' w"
    and own: "own_locks t (mutexes w) ((mutexes w)(i := m'))"
  shows "steps_ok t w w'"
proof (rule steps_okI [OF inv])
  note same = cond_inv_same [OF sync_invD(1) [OF inv], of w']
  show "cond_inv w'" by (rule same(1)) (simp_all add: w')
  have "waiting_for w' = waiting_for w" by (rule same(2)) (simp_all add: w')
  then show "waiting_for w' u = waiting_for w u \<or> waiting_for w' u = None" for u by simp
qed (simp_all add: w' own run)

lemma steps_ok_refl: "sync_inv w \<Longrightarrow> steps_ok t w w"
  by (simp add: steps_ok_def own_locks_refl sync_invD)

section \<open>Locking and unlocking\<close>

lemma Lock_Enter_ok:
  assumes inv: "sync_inv w" and run: "places w t = Running" and c: "Lock_Enter t m us w = (r, w')"
  shows "steps_ok t w w'"
proof -
  note mi = sync_invD(2) [OF inv]
  have spec: "case Mutex_Enter t us (mutexes w m) of
      Returns r m' \<Rightarrow> acquired t r (mutexes w m) m'
    | Waits \<Rightarrow> locks (mutexes w m) t = 0 \<and> mx_owner (mutexes w m) \<noteq> None
    | WaitsAsOwner \<Rightarrow> 0 < locks (mutexes w m) t"
    by (rule Mutex_Enter_spec [OF sync_invD(3) [OF inv]])
  show ?thesis
  proof (cases "Mutex_Enter t us (mutexes w m)")
    case (Returns x m')
    then have "w' = set_mutex m m' w" using c by (simp add: Lock_Enter_def Let_def)
    moreover have "acquired t x (mutexes w m) m'" using spec Returns by simp
    ultimately show ?thesis using steps_ok_run [OF inv run] acquired_own [OF mi] by blast
  next
    case Waits
    then have w': "w' = set_place t (InLock m (us \<noteq> None)) (set_mutex m (mutexes w m) w)"
      using c by (simp add: Lock_Enter_def Let_def)
    show ?thesis using spec Waits own_locks_refl [OF mi]
      by (intro steps_ok_mutex [OF inv _ _ w']) (simp_all add: run)
  next
    case WaitsAsOwner
    then have w': "w' = set_place t (InLockOwn m) (set_mutex m (mutexes w m) w)"
      using c by (simp add: Lock_Enter_def Let_def)
    show ?thesis using spec WaitsAsOwner own_locks_refl [OF mi]
      by (intro steps_ok_mutex [OF inv _ _ w']) (simp_all add: run)
  qed
qed

lemma Trylock_ok:
  assumes inv: "sync_inv w" and run: "places w t = Running"
    and c: "PthreadMutexTrylock t m w = (r, w')"
  shows "steps_ok t w w'"
proof -
  obtain x m' where x: "NativeMutexTrylock t (mutexes w m) = (x, m')" by (cases "NativeMutexTrylock t (mutexes w m)")
  then have w': "w' = set_mutex m m' w" using c by (simp add: PthreadMutexTrylock_def)
  show ?thesis
    by (rule steps_ok_run [OF inv run w'
          acquired_own [OF sync_invD(2) [OF inv] Trylock_spec [OF sync_invD(3) [OF inv] x]]])
qed

lemma Unlock_own:
  assumes inv: "sync_inv w" and u: "NativeMutexUnlock t all (mutexes w m) = (x, recurse, m')"
  shows "own_locks t (mutexes w) ((mutexes w)(m := m'))"
  using Unlock_spec [OF sync_invD(3) [OF inv] u]
  by (intro own_locks_upd [OF sync_invD(2) [OF inv]]) (auto split: if_splits)

lemma Unlock_ok:
  assumes inv: "sync_inv w" and run: "places w t = Running"
    and c: "PthreadMutexUnlock t m w = (r, w')"
  shows "steps_ok t w w'"
proof -
  obtain x y m' where x: "NativeMutexUnlock t False (mutexes w m) = (x, y, m')"
    by (cases "NativeMutexUnlock t False (mutexes w m)")
  then have w': "w' = set_mutex m m' w" using c by (simp add: PthreadMutexUnlock_def)
  show ?thesis by (rule steps_ok_run [OF inv run w' Unlock_own [OF inv x]])
qed

lemma Lock_Turn_ok:
  assumes inv: "sync_inv w" and at: "places w t = InLock m timed"
    and c: "Lock_Turn t expired m timed w = (r, w')"
  shows "steps_ok t w w'"
proof (cases "Mutex_Turn t (timed \<and> expired) (mutexes w m)")
  case None
  then show ?thesis using c inv by (simp add: Lock_Turn_def steps_ok_refl)
next
  case (Some y)
  obtain x m' where y: "y = (x, m')" by (cases y)
  then have w': "w' = set_place t Running (set_mutex m m' w)" using Some c by (simp add: Lock_Turn_def)
  show ?thesis
    by (rule steps_ok_mutex [OF inv _ _ w' acquired_own [OF sync_invD(2) [OF inv]
            Mutex_Turn_spec [OF sync_invD(3) [OF inv] Some [unfolded y]]]]) (simp_all add: at)
qed

section \<open>Waiting\<close>

text \<open>Entering: refused, or the thread has given up all its locks and remembers how many.\<close>

fun in_wait :: "nat \<Rightarrow> nat \<Rightarrow> bool \<Rightarrow> place \<Rightarrow> bool" where
  "in_wait m r timed (InCond c i sq tsq recurse timd) = (i = m \<and> recurse = r \<and> timd = timed)"
| "in_wait m r timed (InRelock i recurse result timd entered) = (i = m \<and> recurse = r \<and> timd = timed)"
| "in_wait m r timed _ = False"

lemma Cond_Enter_ok:
  assumes inv: "sync_inv w" and run: "places w t = Running"
    and c: "Cond_Enter t c m timed us w = (r, w')" and us: "us = Some 0 \<Longrightarrow> timed"
  shows "steps_ok t w w'"
    and "(r = None \<longleftrightarrow> 0 < locks (mutexes w m) t)"
    and "r \<noteq> None \<Longrightarrow> r = Some KERNEL_ERROR_EPERM \<and> w' = w"
    and "r = None \<Longrightarrow> in_wait m (locks (mutexes w m) t) timed (places w' t)"
    and "r = None \<Longrightarrow> us \<noteq> Some 0 \<Longrightarrow> waiting_for w' t = Some c"
proof -
  note mok = sync_invD(3) [OF inv, of m] and ci = sync_invD(1) [OF inv]
  have owner: "mx_owner (mutexes w m) = Some t \<longleftrightarrow> 0 < locks (mutexes w m) t"
    using mok by (auto simp: mutex_ok_def locks_def)
  consider (no) "mx_owner (mutexes w m) \<noteq> Some t" | (yes) "mx_owner (mutexes w m) = Some t" by blast
  then have all: "steps_ok t w w' \<and> (r = None \<longleftrightarrow> 0 < locks (mutexes w m) t)
    \<and> (r \<noteq> None \<longrightarrow> r = Some KERNEL_ERROR_EPERM \<and> w' = w)
    \<and> (r = None \<longrightarrow> in_wait m (locks (mutexes w m) t) timed (places w' t))
    \<and> (r = None \<longrightarrow> us \<noteq> Some 0 \<longrightarrow> waiting_for w' t = Some c)"
  proof cases
    case no
    then have "w' = w" "r = Some KERNEL_ERROR_EPERM" using c by (simp_all add: Cond_Enter_def)
    then show ?thesis using no owner inv by (simp add: steps_ok_refl)
  next
    case yes
    let ?n = "locks (mutexes w m) t"
    obtain x y m' where u: "NativeMutexUnlock t True (mutexes w m) = (x, y, m')"
      by (cases "NativeMutexUnlock t True (mutexes w m)")
    have x: "x = NOk" "y = Some ?n" "locks m' = (locks (mutexes w m))(t := 0)"
      and m': "mx_type m' = mx_type (mutexes w m)"
      using Unlock_spec [OF mok u] yes owner by auto
    have l0: "locks m' t = 0" and n: "?n = mx_count (mutexes w m)"
      using x yes by (simp_all, simp add: locks_def)
    have rest: "resting m' t ?n"
      unfolding resting_def l0 m' n using mok yes by (auto simp: mutex_ok_def)
    note own = Unlock_own [OF inv u]
    have M: "mutexes (CondAddWaiter c t w) = mutexes w" by (simp add: CondAddWaiter_def)
    show ?thesis
    proof (cases "us = Some 0")
      case True
      have w': "w' = set_place t (InRelock m ?n NEtimedout timed False) (set_mutex m m' w)"
        and r: "r = None"
        using c yes True u x by (simp_all add: Cond_Enter_def Let_def M Remove_Add(1) [OF ci run])
      have "steps_ok t w w'"
        by (rule steps_ok_mutex [OF inv _ _ w' own]) (simp_all add: run rest us [OF True])
      then show ?thesis using True r yes owner by (simp add: w')
    next
      case False
      have w': "w' = set_place t (InCond c m (cd_sequence (conds w c)) (th_sequence (threads w t)) ?n timed)
                (set_mutex m m' (CondAddWaiter c t w))" and r: "r = None"
        using c yes False u x by (simp_all add: Cond_Enter_def Let_def M)
      note e = cond_inv_enter [OF ci run w']
      have "steps_ok t w w'"
      proof (rule steps_okI [OF inv e(1)])
        show "waiting_for w' u = waiting_for w u \<or> waiting_for w' u = None" if "u \<noteq> t" for u
          using that by (simp add: e(2))
      qed (simp_all add: w' own M rest, simp_all add: CondAddWaiter_def)
      then show ?thesis using False r yes owner by (simp add: e(2)) (simp add: w')
    qed
  qed
  show "steps_ok t w w'" "(r = None \<longleftrightarrow> 0 < locks (mutexes w m) t)"
    "r \<noteq> None \<Longrightarrow> r = Some KERNEL_ERROR_EPERM \<and> w' = w"
    "r = None \<Longrightarrow> in_wait m (locks (mutexes w m) t) timed (places w' t)"
    "r = None \<Longrightarrow> us \<noteq> Some 0 \<Longrightarrow> waiting_for w' t = Some c"
    using all by simp_all
qed

lemma Cond_Turn_ok:
  assumes inv: "sync_inv w" and at: "places w t = InCond c m sq tsq r timed"
    and w': "w' = Cond_Turn t expired c m sq tsq r timed w"
  shows "steps_ok t w w'" and "in_wait m r timed (places w' t)"
proof -
  have rest: "resting (mutexes w m) t r" using sync_invD(4) [OF inv, of t] by (simp add: at)
  have "steps_ok t w w' \<and> in_wait m r timed (places w' t)"
  proof (cases "cond_ready w t c sq tsq \<or> timed \<and> expired")
    case True
    let ?p = "InRelock m r (if cond_ready w t c sq tsq then NOk else NEtimedout) timed False"
    have w'': "w' = set_place t ?p (snd (CondRemoveWaiter c t w))"
      using True unfolding w' Cond_Turn_def Let_def by (rule if_P)
    note l = cond_inv_leave [OF sync_invD(1) [OF inv] at _ w'']
    have "steps_ok t w w'"
    proof (rule steps_okI [OF inv])
      show "cond_inv w'" using l(1) by simp
      show "waiting_for w' u = waiting_for w u \<or> waiting_for w' u = None" for u using l(2) by simp
      show "own_locks t (mutexes w) (mutexes w')" using l(3) own_locks_refl [OF sync_invD(2) [OF inv]] by simp
      show "place_ok (mutexes w') t (places w' t)" using l(3) rest True by (auto simp: w'')
      show "places w' u = places w u" if "u \<noteq> t" for u using that by (simp add: w'' CondRemoveWaiter_def)
    qed
    then show ?thesis by (simp add: w'')
  next
    case False
    then have "w' = w" by (auto simp: w' Cond_Turn_def)
    then show ?thesis using inv at by (simp add: steps_ok_refl)
  qed
  then show "steps_ok t w w'" "in_wait m r timed (places w' t)" by simp_all
qed

section \<open>Locking again\<close>

lemma resting_not_owner: "mutex_ok m \<Longrightarrow> resting m t r \<Longrightarrow> mx_owner m \<noteq> Some t"
  by (auto simp: resting_def mutex_ok_def locks_def)

text \<open>A turn either sleeps on, while another thread owns the mutex, or takes all locks back.\<close>

lemma Relock_Turn_cases:
  assumes mok: "mutex_ok (mutexes w m)" and rest: "resting (mutexes w m) t recurse"
    and c: "Relock_Turn t m recurse result timed entered w = (r, w')"
  shows "if mx_owner (mutexes w m) = None
    then r = Some (cond_code timed result) \<and> w' = set_place t Running
           (set_mutex m ((mutexes w m)\<lparr>mx_owner := Some t, mx_count := recurse\<rparr>) w)
    else r = None \<and> w' = (if entered then w
           else set_place t (InRelock m recurse result timed True) w)"
proof -
  have "max recurse 1 = recurse" using rest by (simp add: resting_def)
  moreover have "cond_code timed (if result = NOk then NOk else result) = cond_code timed result"
    by (cases result) simp_all
  ultimately show ?thesis
    using c resting_not_owner [OF mok rest]
    by (auto simp: Relock_Turn_def Relock_Return_def restore_count_def Mutex_Turn_def Mutex_Enter_def
        split: if_splits)
qed

lemma Relock_Turn_ok:
  assumes inv: "sync_inv w" and at: "places w t = InRelock m recurse result timed entered"
    and c: "Relock_Turn t m recurse result timed entered w = (r, w')"
  shows "steps_ok t w w'"
    and "r = None \<Longrightarrow> in_wait m recurse timed (places w' t)"
    and "r = Some code \<Longrightarrow> code = cond_code timed result \<and> code \<in> {OK, KERNEL_ERROR_ETIMEDOUT}
      \<and> locks (mutexes w' m) t = recurse \<and> places w' t = Running"
proof -
  note mok = sync_invD(3) [OF inv, of m] and mi = sync_invD(2) [OF inv]
  have rest: "resting (mutexes w m) t recurse" and res: "result = NOk \<or> result = NEtimedout \<and> timed"
    using sync_invD(4) [OF inv, of t] by (simp_all add: at)
  note cases = Relock_Turn_cases [OF mok rest c]
  have "steps_ok t w w' \<and> (r = None \<longrightarrow> in_wait m recurse timed (places w' t))
    \<and> (\<forall>code. r = Some code \<longrightarrow> code = cond_code timed result \<and> code \<in> {OK, KERNEL_ERROR_ETIMEDOUT}
        \<and> locks (mutexes w' m) t = recurse \<and> places w' t = Running)"
  proof (cases "mx_owner (mutexes w m) = None")
    case True
    let ?m = "(mutexes w m)\<lparr>mx_owner := Some t, mx_count := recurse\<rparr>"
    have w': "w' = set_place t Running (set_mutex m ?m w)" and r: "r = Some (cond_code timed result)"
      using cases True by simp_all
    have "mutex_ok ?m" using rest by (auto simp: mutex_ok_def resting_def)
    then have own: "own_locks t (mutexes w) ((mutexes w)(m := ?m))"
      using True by (intro own_locks_upd [OF mi]) (simp_all add: locks_def)
    have "steps_ok t w w'" by (rule steps_ok_mutex [OF inv _ _ w' own]) (simp_all add: at)
    then show ?thesis using res by (auto simp: w' r locks_def)
  next
    case False
    have r: "r = None" and w': "w' = (if entered then w
        else set_place t (InRelock m recurse result timed True) (set_mutex m (mutexes w m) w))"
      using cases False by simp_all
    show ?thesis
    proof (cases entered)
      case True
      then show ?thesis using inv at by (simp add: r w' steps_ok_refl)
    next
      case False
      then have w'': "w' = set_place t (InRelock m recurse result timed True) (set_mutex m (mutexes w m) w)"
        using w' by simp
      have "steps_ok t w w'"
        by (rule steps_ok_mutex [OF inv _ _ w'']) (use own_locks_refl [OF mi] rest res at in auto)
      then show ?thesis by (simp add: r w'')
    qed
  qed
  then show "steps_ok t w w'" "r = None \<Longrightarrow> in_wait m recurse timed (places w' t)"
    "r = Some code \<Longrightarrow> code = cond_code timed result \<and> code \<in> {OK, KERNEL_ERROR_ETIMEDOUT}
      \<and> locks (mutexes w' m) t = recurse \<and> places w' t = Running" by blast+
qed

section \<open>Signals\<close>

lemma steps_ok_signal:
  assumes inv: "sync_inv w" and "cond_inv w'" and "places w' = places w" and "mutexes w' = mutexes w"
    and "\<And>u. waiting_for w' u = waiting_for w u \<or> waiting_for w' u = None"
  shows "steps_ok t w w'"
  using sync_invD [OF inv] assms by (intro steps_okI [OF inv]) (simp_all add: own_locks_refl)

lemma Wake_ok: "sync_inv w \<Longrightarrow> steps_ok t w (snd (CondWakeWaiter c u w))"
proof (cases "woken u (cd_waiters (conds w c))")
  case None
  assume "sync_inv w"
  then show ?thesis using Wake_none [OF None] by (simp add: steps_ok_refl)
next
  case (Some v)
  assume inv: "sync_inv w"
  show ?thesis
    using cond_inv_wake [OF sync_invD(1) [OF inv] Some refl] by (intro steps_ok_signal [OF inv]) simp_all
qed

lemma Broadcast_ok: "sync_inv w \<Longrightarrow> steps_ok t w (PthreadCondBroadcast c w)"
  using cond_inv_broadcast [OF sync_invD(1) refl] by (intro steps_ok_signal) simp_all

section \<open>Steps\<close>

lemma run_call_ok:
  assumes inv: "sync_inv w" and run: "places w t = Running" and c: "run_call t call w = (r, w')"
  shows "steps_ok t w w'"
proof (cases call)
  case (MutexLock m)
  then show ?thesis using c by (intro Lock_Enter_ok [OF inv run]) (simp add: PthreadMutexLock_def)
next
  case (MutexTimedlock m us)
  then show ?thesis using c by (intro Lock_Enter_ok [OF inv run]) (simp add: PthreadMutexTimedlock_def)
next
  case (MutexTrylock m)
  then show ?thesis using c by (intro Trylock_ok [OF inv run]) simp
next
  case (MutexUnlock m)
  then show ?thesis using c by (intro Unlock_ok [OF inv run]) simp
next
  case (CondWait c m)
  then have e: "Cond_Enter t c m False None w = (r, w')"
    using \<open>run_call t call w = (r, w')\<close> by (simp add: PthreadCondWait_def)
  show ?thesis by (rule Cond_Enter_ok(1) [OF inv run e]) simp
next
  case (CondTimedwait c m us)
  then have e: "Cond_Enter t c m True (Some us) w = (r, w')"
    using \<open>run_call t call w = (r, w')\<close> by (simp add: PthreadCondTimedwait_def)
  show ?thesis by (rule Cond_Enter_ok(1) [OF inv run e]) simp
next
  case (CondTimedwaitAbs c m valid)
  show ?thesis
  proof (cases valid)
    case True
    then have e: "Cond_Enter t c m True None w = (r, w')"
      using \<open>run_call t call w = (r, w')\<close> CondTimedwaitAbs by (simp add: PthreadCondTimedwaitAbs_def)
    show ?thesis by (rule Cond_Enter_ok(1) [OF inv run e]) simp
  next
    case False
    then show ?thesis using \<open>run_call t call w = (r, w')\<close> CondTimedwaitAbs inv by (simp add: PthreadCondTimedwaitAbs_def steps_ok_refl)
  qed
next
  case (CondSignal i)
  then show ?thesis using c inv by (auto simp: PthreadCondSignal_def Wake_ok)
next
  case (CondSignalto i u)
  then show ?thesis using c inv
    by (auto simp: PthreadCondSignalto_def Wake_ok steps_ok_refl split: option.splits)
next
  case (CondBroadcast i)
  then show ?thesis using c inv by (auto simp: Broadcast_ok)
qed

lemma turn_ok:
  assumes inv: "sync_inv w" and c: "turn t expired w = (r, w')"
  shows "steps_ok t w w'"
proof (cases "places w t")
  case Running
  then show ?thesis using c inv by (simp add: turn_def steps_ok_refl)
next
  case (InLock m timed)
  then show ?thesis using c Lock_Turn_ok [OF inv] by (simp add: turn_def)
next
  case (InLockOwn m)
  have w': "w' = w \<or> w' = set_place t Running (set_mutex m (mutexes w m) w)"
    using c by (auto simp: turn_def InLockOwn split: if_splits)
  have "steps_ok t w w'" if w'': "w' = set_place t Running (set_mutex m (mutexes w m) w)"
    by (rule steps_ok_mutex [OF inv _ _ w''])
      (use own_locks_refl [OF sync_invD(2) [OF inv]] InLockOwn in auto)
  then show ?thesis using w' inv steps_ok_refl by blast
next
  case (InCond c m sq tsq recurse timed)
  then have "w' = Cond_Turn t expired c m sq tsq recurse timed w"
    using \<open>turn t expired w = (r, w')\<close> by (simp add: turn_def)
  then show ?thesis by (rule Cond_Turn_ok(1) [OF inv InCond])
next
  case (InRelock m recurse result timed entered)
  then show ?thesis using c Relock_Turn_ok(1) [OF inv InRelock] by (simp add: turn_def)
qed

lemma sync_step_ok: "sync_step t r w w' \<Longrightarrow> sync_inv w \<Longrightarrow> steps_ok t w w'"
  by (induction rule: sync_step.induct) (simp_all add: run_call_ok turn_ok)

definition any_step :: "sync \<Rightarrow> sync \<Rightarrow> bool" where
  "any_step w w' \<longleftrightarrow> (\<exists>t r. sync_step t r w w')"

lemma sync_start_inv: "sync_start w \<Longrightarrow> sync_inv w"
proof -
  assume s: "sync_start w"
  have "mutex_ok (mutexes w i)" for i
  proof -
    obtain type where "mutexes w i = mutex_new type" using s unfolding sync_start_def by blast
    then show ?thesis by (simp add: mutex_ok_new)
  qed
  then show ?thesis using s
    by (simp add: sync_inv_def mutex_inv_def cond_inv_def sync_start_def)
qed

text \<open>
  A thread that sleeps on a condition variable is told to look again by a change of the sequence
  numbers; \<open>asleep\<close> are the waiters.
\<close>

interpretation sy: waiting_object sync_start any_step sync_inv
  "\<lambda>w. {(t, c). t \<in> set (cd_waiters (conds w c))}" "\<lambda>w (t, c). waiting_for w t \<noteq> Some c"
proof unfold_locales
  show "sync_inv w" if "sync_start w" for w using that by (rule sync_start_inv)
  show "sync_inv w'" if "sync_inv w" "any_step w w'" for w w'
    using that sync_step_ok unfolding any_step_def steps_ok_def by blast
  show "\<not> (case x of (t, c) \<Rightarrow> waiting_for w t \<noteq> Some c)"
    if "sync_inv w" "x \<in> {(t, c). t \<in> set (cd_waiters (conds w c))}" for w x
    using that waiters_iff sync_invD(1) by fastforce
qed

end
