(* ===== verification/PthreadProperties.thy ===== *)
theory PthreadProperties
  imports PthreadSteps
begin

text \<open>The properties of mutexes and condition variables of guest threads.\<close>

section \<open>Runs\<close>

text \<open>Steps of other threads, and steps in which the call of a thread does not return.\<close>

definition others :: "thread \<Rightarrow> sync \<Rightarrow> sync \<Rightarrow> bool" where
  "others t w w' \<longleftrightarrow> (\<exists>u r. u \<noteq> t \<and> sync_step u r w w')"

definition unreturned :: "thread \<Rightarrow> sync \<Rightarrow> sync \<Rightarrow> bool" where
  "unreturned t w w' \<longleftrightarrow> (\<exists>u r. sync_step u r w w' \<and> (u = t \<longrightarrow> r = None))"

lemma sync_step_inv: "sync_step t r w w' \<Longrightarrow> sync_inv w \<Longrightarrow> sync_inv w'"
  using sync_step_ok by (simp add: steps_ok_def)

lemma others_locks:
  assumes "(others t)\<^sup>*\<^sup>* w w'" and "sync_inv w"
  shows "sync_inv w' \<and> places w' t = places w t \<and> (\<forall>i. locks (mutexes w' i) t = locks (mutexes w i) t)"
  using assms
proof (induction rule: rtranclp_induct)
  case (step y z)
  then obtain u r where "u \<noteq> t" and "sync_step u r y z" by (auto simp: others_def)
  then have "steps_ok u y z" using sync_step_ok step by blast
  then show ?case using step \<open>u \<noteq> t\<close> by (simp add: steps_ok_def own_locks_def)
qed simp

lemma in_wait_step:
  assumes s: "unreturned t w w'" and inv: "sync_inv w" and at: "in_wait m r timed (places w t)"
  shows "in_wait m r timed (places w' t)"
proof -
  obtain u x where st: "sync_step u x w w'" and x: "u = t \<Longrightarrow> x = None"
    using s by (auto simp: unreturned_def)
  show ?thesis
  proof (cases "u = t")
    case False
    then show ?thesis using sync_step_ok [OF st inv] at by (simp add: steps_ok_def)
  next
    case True
    then have "turn t e w = (None, w') \<Longrightarrow> in_wait m r timed (places w' t)" for e
      using at Cond_Turn_ok(2) [OF inv] Relock_Turn_ok(2) [OF inv]
      by (cases "places w t") (auto simp: turn_def)
    then show ?thesis using st True x at by (auto elim: sync_step.cases)
  qed
qed

lemma in_wait_run:
  assumes "(unreturned t)\<^sup>*\<^sup>* w w'" and "sync_inv w" and "in_wait m r timed (places w t)"
  shows "sync_inv w' \<and> in_wait m r timed (places w' t)"
  using assms
proof (induction rule: rtranclp_induct)
  case (step y z)
  then show ?case using in_wait_step sync_step_inv by (auto simp: unreturned_def)
qed simp

lemma in_wait_locks:
  "sync_inv w \<Longrightarrow> in_wait m r timed (places w t) \<Longrightarrow> locks (mutexes w m) t = 0"
  using sync_invD(4) [of w t] by (cases "places w t") (auto simp: resting_def)

text \<open>A call that returns from a wait has ended with \<open>Relock_Turn\<close>.\<close>

lemma wait_returns:
  assumes st: "sync_step t (Some code) w w'" and at: "in_wait m r timed (places w t)"
  obtains result entered where "places w t = InRelock m r result timed entered"
    and "Relock_Turn t m r result timed entered w = (Some code, w')"
proof -
  have "places w t \<noteq> Running" using at by auto
  then obtain e where "turn t e w = (Some code, w')" using st by (auto elim: sync_step.cases)
  then show ?thesis using at that by (cases "places w t") (auto simp: turn_def)
qed

section \<open>Woken threads\<close>

definition woken_up :: "sync \<Rightarrow> thread \<Rightarrow> bool" where
  "woken_up w t \<longleftrightarrow> (case places w t of
       InCond c m sq tsq r timed \<Rightarrow> waiting_for w t = None
     | InRelock m r result timed entered \<Rightarrow> result = NOk
     | _ \<Rightarrow> False)"

lemma woken_up_step:
  assumes s: "unreturned t w w'" and inv: "sync_inv w" and up: "woken_up w t"
  shows "woken_up w' t"
proof -
  obtain u x where st: "sync_step u x w w'" and x: "u = t \<Longrightarrow> x = None"
    using s by (auto simp: unreturned_def)
  show ?thesis
  proof (cases "u = t")
    case False
    then have "places w' t = places w t" "waiting_for w' t = waiting_for w t \<or> waiting_for w' t = None"
      using sync_step_ok [OF st inv] by (simp_all add: steps_ok_def)
    then show ?thesis using up by (auto simp: woken_up_def split: place.splits)
  next
    case True
    then obtain e where tu: "turn t e w = (None, w')"
      using st up x by (auto simp: woken_up_def elim: sync_step.cases)
    show ?thesis
    proof (cases "places w t")
      case (InCond c m sq tsq r timed)
      then have "cond_ready w t c sq tsq"
        using up by (auto simp: woken_up_def waiting_for_def split: if_splits)
      then show ?thesis using tu InCond by (auto simp: turn_def Cond_Turn_def woken_up_def)
    next
      case (InRelock m r result timed entered)
      have rest: "resting (mutexes w m) t r" using sync_invD(4) [OF inv, of t] by (simp add: InRelock)
      have "Relock_Turn t m r result timed entered w = (None, w')"
        using tu InRelock by (simp add: turn_def)
      from Relock_Turn_cases [OF sync_invD(3) [OF inv] rest this] show ?thesis
        using up InRelock by (auto simp: woken_up_def split: if_splits)
    qed (use up in \<open>simp_all add: woken_up_def\<close>)
  qed
qed

lemma woken_up_run:
  assumes "(unreturned t)\<^sup>*\<^sup>* w w'" and "sync_inv w" and "woken_up w t"
  shows "sync_inv w' \<and> woken_up w' t"
  using assms
proof (induction rule: rtranclp_induct)
  case (step y z)
  then show ?case using woken_up_step sync_step_inv by (auto simp: unreturned_def)
qed simp

lemma woken_up_waking:
  assumes "sync_inv w" and "waiting_for w t = Some c" and "places w' = places w"
    and "waiting_for w' t = None"
  shows "woken_up w' t"
  using assms by (auto simp: woken_up_def waiting_for_def split: place.splits option.splits)

text \<open>The calls that wake a thread which waits for the condition variable \<open>c\<close>.\<close>

definition wakes :: "sync_call \<Rightarrow> nat \<Rightarrow> sync \<Rightarrow> thread \<Rightarrow> bool" where
  "wakes call c w t \<longleftrightarrow> call = CondBroadcast c \<or> call = CondSignalto c (Some t)
     \<or> call = CondSignal c \<and> hd (cd_waiters (conds w c)) = t"

lemma wakes_ok:
  assumes inv: "sync_inv w" and wt: "waiting_for w t = Some c" and wk: "wakes call c w t"
    and c: "run_call u call w = (r, w')"
  shows "woken_up w' t" and "r = Some OK"
proof -
  note ci = sync_invD(1) [OF inv]
  have t: "t \<in> set (cd_waiters (conds w c))" using waiters_iff [OF ci] wt by simp
  have wake: "woken_up w' t" if "woken x (cd_waiters (conds w c)) = Some t" "w' = snd (CondWakeWaiter c x w)" for x
    using cond_inv_wake [OF ci that] by (intro woken_up_waking [OF inv wt]) simp_all
  consider (b) "call = CondBroadcast c" | (to) "call = CondSignalto c (Some t)"
    | (s) "call = CondSignal c" "hd (cd_waiters (conds w c)) = t" using wk by (auto simp: wakes_def)
  then have "woken_up w' t \<and> r = Some OK"
  proof cases
    case b
    then have "w' = PthreadCondBroadcast c w" "r = Some OK" using c by simp_all
    then show ?thesis using cond_inv_broadcast [OF ci, of w' c] wt
      by (intro conjI woken_up_waking [OF inv wt]) simp_all
  next
    case to
    then show ?thesis using c t wake [of "Some t"] by (auto simp: PthreadCondSignalto_def woken_def)
  next
    case s
    then have "woken None (cd_waiters (conds w c)) = Some t" using t by (cases "cd_waiters (conds w c)") (auto simp: woken_def)
    then show ?thesis using c s wake [of None] by (auto simp: PthreadCondSignal_def)
  qed
  then show "woken_up w' t" "r = Some OK" by simp_all
qed

section \<open>Runs that are executed\<close>

text \<open>A run given as its calls and turns, for the witnesses.\<close>

fun play :: "(thread \<times> (sync_call + bool)) list \<Rightarrow> sync \<Rightarrow> sync option" where
  "play [] w = Some w"
| "play ((t, Inl call) # es) w =
     (if places w t = Running then play es (snd (run_call t call w)) else None)"
| "play ((t, Inr expired) # es) w =
     (if places w t = Running then None else play es (snd (turn t expired w)))"

lemma play_reach: "play es w = Some w' \<Longrightarrow> any_step\<^sup>*\<^sup>* w w'"
proof (induction es w rule: play.induct)
  case (2 t call es w)
  then have "any_step w (snd (run_call t call w))"
    unfolding any_step_def by (metis Call option.distinct(1) play.simps(2) prod.collapse)
  then show ?case using 2 by (auto split: if_splits intro: converse_rtranclp_into_rtranclp)
next
  case (3 t expired es w)
  then have "any_step w (snd (turn t expired w))"
    unfolding any_step_def by (metis Turn option.distinct(1) play.simps(3) prod.collapse)
  then show ?case using 3 by (auto split: if_splits intro: converse_rtranclp_into_rtranclp)
qed simp

definition sync0 :: sync where
  "sync0 = \<lparr>mutexes = (\<lambda>_. mutex_new 1), conds = (\<lambda>_. \<lparr>cd_sequence = 0, cd_waiters = []\<rparr>),
     threads = (\<lambda>_. \<lparr>th_sequence = 0, th_waiting = None\<rparr>), places = (\<lambda>_. Running)\<rparr>"

lemma sync0_start: "sync_start sync0"
  by (auto simp: sync_start_def sync0_def)

lemmas play_defs = sync0_def mutex_new_def turn_def PthreadMutexLock_def PthreadMutexUnlock_def
  PthreadCondWait_def PthreadCondTimedwait_def Lock_Enter_def Lock_Turn_def Mutex_Enter_def
  Mutex_Turn_def NativeMutexUnlock_def Cond_Enter_def Cond_Turn_def cond_ready_def CondAddWaiter_def
  CondRemoveWaiter_def CondWakeWaiter_def forget_waiting_def PthreadCondSignal_def Relock_Turn_def
  Relock_Return_def restore_count_def waiting_for_def locks_def Let_def

text \<open>Thread 1 has locked mutex 0; then it waits for condition variable 0 with it.\<close>

definition run_locked :: sync where
  "run_locked = the (play [(1, Inl (MutexLock 0))] sync0)"

definition run_asleep :: sync where
  "run_asleep = the (play [(1, Inl (MutexLock 0)), (1, Inl (CondTimedwait 0 0 5))] sync0)"

lemma run_locked_reach: "any_step\<^sup>*\<^sup>* sync0 run_locked"
  by (rule play_reach [of "[(1, Inl (MutexLock 0))]"]) (simp add: run_locked_def play_defs)

lemma run_asleep_reach: "any_step\<^sup>*\<^sup>* sync0 run_asleep"
  by (rule play_reach [of "[(1, Inl (MutexLock 0)), (1, Inl (CondTimedwait 0 0 5))]"])
    (simp add: run_asleep_def play_defs)

section \<open>The properties\<close>

text \<open>
  C16. The waiters of a condition variable: at every moment of every run they are exactly the
  threads in the loop of a wait on it whose sequence numbers nothing has changed, each of them
  once, and exactly those threads name it in \<open>waiting_cond\<close>. A thread inside a wait, until the
  wait returns, does not have the mutex of the wait and knows a positive number of locks to take
  again, one if the mutex is not recursive. Every mutex has an owner just when its count is
  positive.
\<close>

theorem threads_safe:
  assumes "sync_start w0" and "any_step\<^sup>*\<^sup>* w0 w"
  shows "distinct (cd_waiters (conds w c))
    \<and> (t \<in> set (cd_waiters (conds w c)) \<longleftrightarrow>
         (\<exists>m sq tsq r timed. places w t = InCond c m sq tsq r timed \<and> \<not> cond_ready w t c sq tsq))
    \<and> (th_waiting (threads w t) = Some c \<longleftrightarrow> t \<in> set (cd_waiters (conds w c)))
    \<and> (in_wait m r timed (places w t) \<longrightarrow>
         locks (mutexes w m) t = 0 \<and> 0 < r \<and> (mx_type (mutexes w m) \<noteq> 2 \<longrightarrow> r = 1))
    \<and> (mx_owner (mutexes w m) = None \<longleftrightarrow> mx_count (mutexes w m) = 0)"
proof -
  have inv: "sync_inv w" by (rule sy.reach_inv [OF assms])
  note ci = sync_invD(1) [OF inv] and mok = sync_invD(3) [OF inv, of m]
  have wf: "t \<in> set (cd_waiters (conds w c)) \<longleftrightarrow> waiting_for w t = Some c" by (rule waiters_iff [OF ci])
  have "waiting_for w t = Some c \<longleftrightarrow>
      (\<exists>m sq tsq r timed. places w t = InCond c m sq tsq r timed \<and> \<not> cond_ready w t c sq tsq)"
    by (cases "places w t") (auto simp: waiting_for_def)
  moreover have "in_wait m r timed (places w t) \<longrightarrow>
         locks (mutexes w m) t = 0 \<and> 0 < r \<and> (mx_type (mutexes w m) \<noteq> 2 \<longrightarrow> r = 1)"
    using sync_invD(4) [OF inv, of t] by (cases "places w t") (auto simp: resting_def)
  moreover have "mx_owner (mutexes w m) = None \<longleftrightarrow> mx_count (mutexes w m) = 0"
    using mok by (simp add: mutex_ok_def)
  ultimately show ?thesis using ci wf by (simp add: cond_inv_def)
qed

theorem threads_safe_witness:
  "1 \<in> set (cd_waiters (conds run_asleep 0)) \<and> distinct (cd_waiters (conds run_asleep 0))
    \<and> th_waiting (threads run_asleep 1) = Some 0 \<and> locks (mutexes run_asleep 0) 1 = 0"
proof -
  have "places run_asleep 1 = InCond 0 0 0 0 1 True" and "\<not> cond_ready run_asleep 1 0 0 0"
    by (simp_all add: run_asleep_def play_defs)
  then show ?thesis
    using threads_safe [OF sync0_start run_asleep_reach, of 0 1 0 1 True] by auto
qed

text \<open>
  C20. Mutual exclusion: while a thread has locks of a mutex, no step of other threads, in any
  order and number, changes how many it has, and no other thread gets one: a call to lock by
  another thread sleeps, or fails and changes nothing, and so does its call to unlock.
\<close>

theorem mutex_exclusive:
  assumes "sync_start w0" and "any_step\<^sup>*\<^sup>* w0 w" and "0 < locks (mutexes w m) t"
    and "(others t)\<^sup>*\<^sup>* w w'" and "u \<noteq> t"
  shows "locks (mutexes w' m) t = locks (mutexes w m) t \<and> locks (mutexes w' m) u = 0
    \<and> PthreadMutexLock u m w' = (None, set_place u (InLock m False) w')
    \<and> PthreadMutexTrylock u m w' = (Some KERNEL_ERROR_EBUSY, w')
    \<and> PthreadMutexTimedlock u m 0 w' = (Some KERNEL_ERROR_ETIMEDOUT, w')
    \<and> PthreadMutexUnlock u m w' = (Some KERNEL_ERROR_EPERM, w')
    \<and> PthreadCondWait u c m w' = (Some KERNEL_ERROR_EPERM, w')
    \<and> Lock_Turn u expired m timed w' =
        (if timed \<and> expired then (Some KERNEL_ERROR_ETIMEDOUT, set_place u Running w') else (None, w'))"
proof -
  have l: "locks (mutexes w' m) t = locks (mutexes w m) t"
    using others_locks [OF assms(4) sy.reach_inv [OF assms(1,2)]] by simp
  then have "mx_owner (mutexes w' m) = Some t" using assms(3) by (simp add: locks_def split: if_splits)
  then show ?thesis using l assms(5)
    by (auto simp: locks_def PthreadMutexLock_def PthreadMutexTrylock_def PthreadMutexTimedlock_def
        PthreadMutexUnlock_def PthreadCondWait_def Lock_Enter_def Mutex_Enter_def NativeMutexTrylock_def
        NativeMutexUnlock_def Cond_Enter_def Lock_Turn_def Mutex_Turn_def)
qed

theorem mutex_exclusive_witness:
  "PthreadMutexUnlock 2 0 run_locked = (Some KERNEL_ERROR_EPERM, run_locked)"
proof -
  have "0 < locks (mutexes run_locked 0) 1" by (simp add: run_locked_def play_defs)
  then show ?thesis
    using mutex_exclusive [OF sync0_start run_locked_reach, of 0 1 run_locked 2] by simp
qed



text \<open>
  C18. What a wait gives back: when a wait that went to sleep returns, whatever the threads did in
  between, its thread has the mutex again, locked as often as before the call, and the result is
  \<open>OK\<close> or a timeout, never a timeout from the wait without one. In between the thread did
  not have the mutex.
\<close>

theorem cond_wait_restores:
  assumes "sync_start w0" and "any_step\<^sup>*\<^sup>* w0 w" and "places w t = Running"
    and "call = CondWait c m \<or> call = CondTimedwait c m us \<or> call = CondTimedwaitAbs c m valid"
    and "run_call t call w = (None, w1)"
    and "(unreturned t)\<^sup>*\<^sup>* w1 w2" and "sync_step t (Some code) w2 w3"
  shows "0 < locks (mutexes w m) t \<and> locks (mutexes w2 m) t = 0
    \<and> locks (mutexes w3 m) t = locks (mutexes w m) t
    \<and> code \<in> {OK, KERNEL_ERROR_ETIMEDOUT} \<and> (call = CondWait c m \<longrightarrow> code = OK)"
proof -
  have inv: "sync_inv w" by (rule sy.reach_inv [OF assms(1,2)])
  obtain timed usec where e: "Cond_Enter t c m timed usec w = (None, w1)" and us: "usec = Some 0 \<Longrightarrow> timed"
    and tm: "call = CondWait c m \<Longrightarrow> \<not> timed"
  proof -
    consider (w) "call = CondWait c m" | (t) "call = CondTimedwait c m us"
      | (a) "call = CondTimedwaitAbs c m valid" "valid"
      using assms(4,5) by (auto simp: PthreadCondTimedwaitAbs_def split: if_splits)
    then show thesis
    proof cases
      case w
      then show thesis using assms(5) that [of False None] by (simp add: PthreadCondWait_def)
    next
      case t
      then show thesis using assms(5) that [of True "Some us"] by (simp add: PthreadCondTimedwait_def)
    next
      case a
      then show thesis using assms(5) that [of True None] by (simp add: PthreadCondTimedwaitAbs_def)
    qed
  qed
  let ?n = "locks (mutexes w m) t"
  note en = Cond_Enter_ok [OF inv assms(3) e us]
  have inv1: "sync_inv w1" and at1: "in_wait m ?n timed (places w1 t)"
    using en(1,4) by (simp_all add: steps_ok_def)
  have inv2: "sync_inv w2" and at2: "in_wait m ?n timed (places w2 t)"
    using in_wait_run [OF assms(6) inv1 at1] by simp_all
  obtain result entered where p: "places w2 t = InRelock m ?n result timed entered"
    and r: "Relock_Turn t m ?n result timed entered w2 = (Some code, w3)"
    by (rule wait_returns [OF assms(7) at2])
  have "result = NOk \<or> result = NEtimedout \<and> timed" using sync_invD(4) [OF inv2, of t] by (simp add: p)
  then show ?thesis
    using Relock_Turn_ok(3) [OF inv2 p r refl] en(2) in_wait_locks [OF inv2 at2] tm by auto
qed

theorem cond_wait_restores_witness:
  "\<exists>w1 w2 w3 code. run_call 1 (CondTimedwait 0 0 0) run_locked = (None, w1)
    \<and> (unreturned 1)\<^sup>*\<^sup>* w1 w2 \<and> sync_step 1 (Some code) w2 w3
    \<and> locks (mutexes w2 0) 1 = 0 \<and> locks (mutexes w3 0) 1 = locks (mutexes run_locked 0) 1"
proof -
  let ?w1 = "snd (run_call 1 (CondTimedwait 0 0 0) run_locked)"
  have run: "places run_locked 1 = Running" and c: "run_call 1 (CondTimedwait 0 0 0) run_locked = (None, ?w1)"
    by (simp_all add: run_locked_def play_defs)
  have t: "turn 1 False ?w1 = (Some KERNEL_ERROR_ETIMEDOUT, snd (turn 1 False ?w1))"
    and p: "places ?w1 1 \<noteq> Running"
    by (simp_all add: run_locked_def play_defs)
  have s: "sync_step 1 (Some KERNEL_ERROR_ETIMEDOUT) ?w1 (snd (turn 1 False ?w1))" by (rule Turn [OF p t])
  have "CondTimedwait 0 0 0 = CondWait 0 0 \<or> CondTimedwait 0 0 0 = CondTimedwait 0 0 0
      \<or> CondTimedwait 0 0 0 = CondTimedwaitAbs 0 0 False" by simp
  note r = cond_wait_restores [OF sync0_start run_locked_reach run this c rtranclp.rtrancl_refl s]
  show ?thesis
    by (intro exI conjI, rule c, rule rtranclp.rtrancl_refl, rule s)
      (rule r [THEN conjunct2, THEN conjunct1], rule r [THEN conjunct2, THEN conjunct2, THEN conjunct1])
qed

text \<open>
  C17. No wake-up is lost: once a signal or a broadcast has picked a thread that sleeps in a wait,
  the wait of this thread returns \<open>OK\<close> and nothing else, however long the thread does not run,
  also when the deadline has passed meanwhile.
\<close>

theorem cond_wakeup_kept:
  assumes "sync_start w0" and "any_step\<^sup>*\<^sup>* w0 w" and "waiting_for w t = Some c"
    and "wakes call c w t" and "run_call u call w = (r, w1)"
    and "(unreturned t)\<^sup>*\<^sup>* w1 w2" and "sync_step t (Some code) w2 w3"
  shows "r = Some OK \<and> code = OK \<and> places w3 t = Running"
proof -
  have inv: "sync_inv w" by (rule sy.reach_inv [OF assms(1,2)])
  have run: "\<exists>x. sync_inv x \<and> woken_up x t \<and> (unreturned t)\<^sup>*\<^sup>* x w2" if "sync_inv w1"
    using that wakes_ok(1) [OF inv assms(3-5)] assms(6) by blast
  have "sync_inv w1"
  proof -
    have "call \<in> {CondBroadcast c, CondSignalto c (Some t), CondSignal c}"
      using assms(4) by (auto simp: wakes_def)
    then show ?thesis using assms(5) Wake_ok [OF inv] Broadcast_ok [OF inv]
      by (auto simp: PthreadCondSignal_def PthreadCondSignalto_def steps_ok_def)
  qed
  then have inv2: "sync_inv w2" and up: "woken_up w2 t"
    using woken_up_run [OF assms(6)] wakes_ok(1) [OF inv assms(3-5)] by simp_all
  obtain m n timed where "in_wait m n timed (places w2 t)"
    using up by (cases "places w2 t") (auto simp: woken_up_def)
  then obtain result entered where p: "places w2 t = InRelock m n result timed entered"
    and rt: "Relock_Turn t m n result timed entered w2 = (Some code, w3)"
    by (rule wait_returns [OF assms(7)])
  have "result = NOk" using up by (simp add: woken_up_def p)
  then show ?thesis
    using Relock_Turn_ok(3) [OF inv2 p rt refl] wakes_ok(2) [OF inv assms(3-5)] by simp
qed

theorem cond_wakeup_kept_witness:
  "\<exists>w1 w2 w3 code. run_call 2 (CondSignal 0) run_asleep = (Some OK, w1)
    \<and> turn 1 True w1 = (None, w2) \<and> sync_step 1 (Some code) w2 w3 \<and> code = OK"
proof -
  let ?w1 = "PthreadCondSignal 0 run_asleep"
  let ?w2 = "snd (turn 1 True ?w1)"
  have wt: "waiting_for run_asleep 1 = Some 0" and wk: "wakes (CondSignal 0) 0 run_asleep 1"
    by (simp_all add: run_asleep_def play_defs wakes_def)
  have c: "run_call 2 (CondSignal 0) run_asleep = (Some OK, ?w1)" by simp
  have t1: "turn 1 True ?w1 = (None, ?w2)" and p1: "places ?w1 1 \<noteq> Running"
    and t2: "turn 1 False ?w2 = (Some OK, snd (turn 1 False ?w2))" and p2: "places ?w2 1 \<noteq> Running"
    by (simp_all add: run_asleep_def play_defs)
  have u: "unreturned 1 ?w1 ?w2" using Turn [OF p1 t1] by (auto simp: unreturned_def)
  note s = Turn [OF p2 t2]
  show ?thesis
    using cond_wakeup_kept [OF sync0_start run_asleep_reach wt wk c r_into_rtranclp [of "unreturned 1", OF u] s] c t1 s
    by (intro exI conjI) simp_all
qed

text \<open>
  Woken threads get on: a thread that sleeps in a wait and has been woken, or whose deadline
  has passed, needs no more than two turns to return when the mutex is free; a thread that has not
  been woken and has no deadline stays where it is.
\<close>

theorem cond_woken_returns:
  assumes "sync_start w0" and "any_step\<^sup>*\<^sup>* w0 w" and "places w t = InCond c m sq tsq n timed"
  shows "if waiting_for w t = None \<or> timed \<and> expired
    then (\<exists>w1. turn t expired w = (None, w1)
      \<and> (mx_owner (mutexes w m) = None \<longrightarrow> (\<exists>w2. turn t e w1 =
             (Some (if waiting_for w t = None then OK else KERNEL_ERROR_ETIMEDOUT), w2)
           \<and> locks (mutexes w2 m) t = n \<and> places w2 t = Running)))
    else turn t expired w = (None, w)"
proof -
  have inv: "sync_inv w" by (rule sy.reach_inv [OF assms(1,2)])
  have rd: "cond_ready w t c sq tsq \<longleftrightarrow> waiting_for w t = None" using assms(3) by (simp add: waiting_for_def)
  define w1 where "w1 = Cond_Turn t expired c m sq tsq n timed w"
  have t1: "turn t expired w = (None, w1)" using assms(3) by (simp add: turn_def w1_def)
  have inv1: "sync_inv w1" using Cond_Turn_ok(1) [OF inv assms(3) w1_def] by (simp add: steps_ok_def)
  show ?thesis
  proof (cases "waiting_for w t = None \<or> timed \<and> expired")
    case True
    let ?r = "if waiting_for w t = None then NOk else NEtimedout"
    have p: "places w1 t = InRelock m n ?r timed False" and M: "mutexes w1 = mutexes w"
      using True rd by (auto simp: w1_def Cond_Turn_def CondRemoveWaiter_def)
    have "\<exists>w2. turn t e w1 = (Some (if waiting_for w t = None then OK else KERNEL_ERROR_ETIMEDOUT), w2)
           \<and> locks (mutexes w2 m) t = n \<and> places w2 t = Running" if free: "mx_owner (mutexes w m) = None"
    proof -
      obtain x w2 where r: "Relock_Turn t m n ?r timed False w1 = (x, w2)"
        by (cases "Relock_Turn t m n ?r timed False w1")
      have rest: "resting (mutexes w1 m) t n" using sync_invD(4) [OF inv1, of t] by (simp add: p)
      have x: "x = Some (cond_code timed ?r)"
        using Relock_Turn_cases [OF sync_invD(3) [OF inv1] rest r] free M by simp
      then show ?thesis
        using Relock_Turn_ok(3) [OF inv1 p r x] r True by (auto simp: turn_def p)
    qed
    then show ?thesis using True t1 by auto
  next
    case False
    then have "w1 = w" using rd by (auto simp: w1_def Cond_Turn_def)
    then show ?thesis using False t1 by auto
  qed
qed

theorem cond_woken_returns_witness:
  "\<exists>w1 w2. turn 1 True run_asleep = (None, w1)
    \<and> turn 1 False w1 = (Some KERNEL_ERROR_ETIMEDOUT, w2) \<and> locks (mutexes w2 0) 1 = 1"
proof -
  have "places run_asleep 1 = InCond 0 0 0 0 1 True" "waiting_for run_asleep 1 = Some 0"
    "mx_owner (mutexes run_asleep 0) = None"
    by (simp_all add: run_asleep_def play_defs)
  then show ?thesis
    using cond_woken_returns [OF sync0_start run_asleep_reach, of 1 0 0 0 0 1 True True False] by auto
qed

end
