(* ===== verification/PthreadRwlock.thy ===== *)
theory PthreadRwlock
  imports PthreadMutex
begin

text \<open>
  The reader-writer locks of guest threads, \<open>gpu/src/kernel/pthread.cpp\<close>:
  \<open>PthreadRwlockPrivate\<close>, \<open>RwlockLockCooperative\<close> and the calls on them, for one lock and any
  number of threads. A step is one critical section of \<open>m\<close>; the loop of a lock that has to wait is
  its turns. Counts are natural numbers: the 32-bit counters of the source are not followed to
  their wrap-around.
\<close>

section \<open>State\<close>

record reader =
  rd_thread :: thread
  rd_count :: nat

record rwlock =
  rw_writer :: "thread option"
  rw_writer_count :: nat
  rw_reader_count :: nat
  rw_waiting_writers :: nat
  rw_readers :: "reader list"

definition rwlock_new :: rwlock where
  "rwlock_new = \<lparr>rw_writer = None, rw_writer_count = 0, rw_reader_count = 0,
     rw_waiting_writers = 0, rw_readers = []\<rparr>"

section \<open>Readers\<close>

fun RwlockFindReader :: "thread \<Rightarrow> reader list \<Rightarrow> reader option" where
  "RwlockFindReader t [] = None"
| "RwlockFindReader t (r # rs) = (if rd_thread r = t then Some r else RwlockFindReader t rs)"

fun count_up :: "thread \<Rightarrow> reader list \<Rightarrow> reader list" where
  "count_up t [] = []"
| "count_up t (r # rs) =
     (if rd_thread r = t then r\<lparr>rd_count := rd_count r + 1\<rparr> # rs else r # count_up t rs)"

definition RwlockAddReader :: "thread \<Rightarrow> rwlock \<Rightarrow> rwlock" where
  "RwlockAddReader t l = l
     \<lparr>rw_readers := (if RwlockFindReader t (rw_readers l) \<noteq> None then count_up t (rw_readers l)
                     else rw_readers l @ [\<lparr>rd_thread = t, rd_count = 1\<rparr>]),
      rw_reader_count := rw_reader_count l + 1\<rparr>"

fun count_down :: "thread \<Rightarrow> reader list \<Rightarrow> reader list" where
  "count_down t [] = []"
| "count_down t (r # rs) =
     (if rd_thread r = t
      then (if rd_count r - 1 = 0 then rs else r\<lparr>rd_count := rd_count r - 1\<rparr> # rs)
      else r # count_down t rs)"

definition RwlockRemoveReader :: "thread \<Rightarrow> rwlock \<Rightarrow> bool \<times> rwlock" where
  "RwlockRemoveReader t l =
     (if RwlockFindReader t (rw_readers l) = None then (False, l)
      else (True, l\<lparr>rw_readers := count_down t (rw_readers l),
                    rw_reader_count := rw_reader_count l - 1\<rparr>))"

section \<open>Locking\<close>

text \<open>May a thread read: the condition of the lock and of \<open>PthreadRwlockTryrdlock\<close>.\<close>

definition may_read :: "thread \<Rightarrow> rwlock \<Rightarrow> bool" where
  "may_read self l \<longleftrightarrow> rw_writer l = None
       \<and> (rw_waiting_writers l = 0 \<or> RwlockFindReader self (rw_readers l) \<noteq> None)
     \<or> rw_writer l = Some self"

definition unregister_writer_wait :: "bool \<Rightarrow> rwlock \<Rightarrow> rwlock" where
  "unregister_writer_wait registered l =
     (if registered then l\<lparr>rw_waiting_writers := rw_waiting_writers l - 1\<rparr> else l)"

text \<open>
  One turn of the loop of \<open>RwlockLockCooperative\<close>: \<open>Inl\<close> returns, \<open>Inr\<close> sleeps, with
  \<open>writer_wait_registered\<close>. The timeout is \<open>None\<close> for a null pointer, and \<open>expired\<close> says that the
  deadline has passed.
\<close>

definition sleep_or_leave :: "nat option \<Rightarrow> bool \<Rightarrow> bool \<Rightarrow> rwlock \<Rightarrow> int \<times> rwlock + bool \<times> rwlock" where
  "sleep_or_leave timeout expired registered l =
     (if timeout \<noteq> None \<and> (timeout = Some 0 \<or> expired)
      then Inl (KERNEL_ERROR_ETIMEDOUT, unregister_writer_wait registered l)
      else Inr (registered, l))"

definition RwlockLockCooperative :: "thread \<Rightarrow> bool \<Rightarrow> nat option \<Rightarrow> bool \<Rightarrow> bool \<Rightarrow> rwlock \<Rightarrow>
    int \<times> rwlock + bool \<times> rwlock" where
  "RwlockLockCooperative self write timeout expired registered l =
     (if write then
        (if rw_writer l = Some self \<or> RwlockFindReader self (rw_readers l) \<noteq> None
         then Inl (KERNEL_ERROR_EDEADLK, unregister_writer_wait registered l)
         else if rw_writer l = None \<and> rw_reader_count l = 0
         then Inl (OK, (unregister_writer_wait registered l)
                \<lparr>rw_writer := Some self, rw_writer_count := 1\<rparr>)
         else sleep_or_leave timeout expired True
                (if registered then l else l\<lparr>rw_waiting_writers := rw_waiting_writers l + 1\<rparr>))
      else if may_read self l then Inl (OK, RwlockAddReader self l)
      else sleep_or_leave timeout expired registered l)"

definition PthreadRwlockTryrdlock :: "thread \<Rightarrow> rwlock \<Rightarrow> int \<times> rwlock" where
  "PthreadRwlockTryrdlock self l =
     (if may_read self l then (OK, RwlockAddReader self l) else (KERNEL_ERROR_EBUSY, l))"

definition PthreadRwlockTrywrlock :: "thread \<Rightarrow> rwlock \<Rightarrow> int \<times> rwlock" where
  "PthreadRwlockTrywrlock self l =
     (if rw_writer l = Some self \<or> RwlockFindReader self (rw_readers l) \<noteq> None
      then (KERNEL_ERROR_EDEADLK, l)
      else if rw_writer l = None \<and> rw_reader_count l = 0
      then (OK, l\<lparr>rw_writer := Some self, rw_writer_count := 1\<rparr>)
      else (KERNEL_ERROR_EBUSY, l))"

text \<open>\<open>None\<close> is the fatal exit of a writer without a count.\<close>

definition PthreadRwlockUnlock :: "thread \<Rightarrow> rwlock \<Rightarrow> (int \<times> rwlock) option" where
  "PthreadRwlockUnlock self l =
     (case RwlockRemoveReader self l of
        (True, l') \<Rightarrow> Some (OK, l')
      | (False, l') \<Rightarrow>
          if rw_writer l' = Some self then
            (if rw_writer_count l' = 0 then None
             else (let l2 = l'\<lparr>rw_writer_count := rw_writer_count l' - 1\<rparr>
                   in Some (OK, if rw_writer_count l2 = 0 then l2\<lparr>rw_writer := None\<rparr> else l2)))
          else Some (KERNEL_ERROR_EPERM, l'))"

text \<open>\<open>PthreadRwlockDestroy\<close> of an existing lock; the lock is gone in the case of success.\<close>

definition PthreadRwlockDestroy :: "rwlock \<Rightarrow> int \<times> rwlock option" where
  "PthreadRwlockDestroy l =
     (if rw_writer l \<noteq> None \<or> rw_reader_count l \<noteq> 0 then (KERNEL_ERROR_EBUSY, Some l) else (OK, None))"

section \<open>Threads\<close>

text \<open>A thread is idle or in the loop of a lock: to write or read, its timeout, registered or not.\<close>

datatype rw_place =
  Idle
| InRwlock bool "nat option" bool

record rw_world =
  rww_lock :: rwlock
  rww_places :: "thread \<Rightarrow> rw_place"

datatype rw_call =
  Rdlock | Timedrdlock nat | Wrlock | Timedwrlock nat | Tryrdlock | Trywrlock | RwUnlock

definition rw_loop :: "thread \<Rightarrow> bool \<Rightarrow> nat option \<Rightarrow> bool \<Rightarrow> bool \<Rightarrow> rw_world \<Rightarrow> int option \<times> rw_world" where
  "rw_loop t write timeout expired registered w =
     (case RwlockLockCooperative t write timeout expired registered (rww_lock w) of
        Inl (code, l) \<Rightarrow> (Some code, \<lparr>rww_lock = l, rww_places = (rww_places w)(t := Idle)\<rparr>)
      | Inr (reg, l) \<Rightarrow>
          (None, \<lparr>rww_lock = l, rww_places = (rww_places w)(t := InRwlock write timeout reg)\<rparr>))"

definition PthreadRwlockRdlock :: "thread \<Rightarrow> rw_world \<Rightarrow> int option \<times> rw_world" where
  "PthreadRwlockRdlock t w = rw_loop t False None False False w"

definition PthreadRwlockTimedrdlock :: "thread \<Rightarrow> nat \<Rightarrow> bool \<Rightarrow> rw_world \<Rightarrow> int option \<times> rw_world" where
  "PthreadRwlockTimedrdlock t usec expired w = rw_loop t False (Some usec) expired False w"

definition PthreadRwlockWrlock :: "thread \<Rightarrow> rw_world \<Rightarrow> int option \<times> rw_world" where
  "PthreadRwlockWrlock t w = rw_loop t True None False False w"

definition PthreadRwlockTimedwrlock :: "thread \<Rightarrow> nat \<Rightarrow> bool \<Rightarrow> rw_world \<Rightarrow> int option \<times> rw_world" where
  "PthreadRwlockTimedwrlock t usec expired w = rw_loop t True (Some usec) expired False w"

lemmas rw_lock_calls = PthreadRwlockRdlock_def PthreadRwlockTimedrdlock_def PthreadRwlockWrlock_def
  PthreadRwlockTimedwrlock_def

fun rw_run :: "thread \<Rightarrow> rw_call \<Rightarrow> bool \<Rightarrow> rw_world \<Rightarrow> (int option \<times> rw_world) option" where
  "rw_run t Rdlock expired w = Some (PthreadRwlockRdlock t w)"
| "rw_run t (Timedrdlock usec) expired w = Some (PthreadRwlockTimedrdlock t usec expired w)"
| "rw_run t Wrlock expired w = Some (PthreadRwlockWrlock t w)"
| "rw_run t (Timedwrlock usec) expired w = Some (PthreadRwlockTimedwrlock t usec expired w)"
| "rw_run t Tryrdlock expired w =
     (case PthreadRwlockTryrdlock t (rww_lock w) of (c, l) \<Rightarrow> Some (Some c, w\<lparr>rww_lock := l\<rparr>))"
| "rw_run t Trywrlock expired w =
     (case PthreadRwlockTrywrlock t (rww_lock w) of (c, l) \<Rightarrow> Some (Some c, w\<lparr>rww_lock := l\<rparr>))"
| "rw_run t RwUnlock expired w =
     (case PthreadRwlockUnlock t (rww_lock w) of None \<Rightarrow> None
      | Some (c, l) \<Rightarrow> Some (Some c, w\<lparr>rww_lock := l\<rparr>))"

text \<open>A step of a thread; a fatal exit has no step.\<close>

inductive rw_step :: "thread \<Rightarrow> int option \<Rightarrow> rw_world \<Rightarrow> rw_world \<Rightarrow> bool" where
  Call: "rww_places w t = Idle \<Longrightarrow> rw_run t call expired w = Some (r, w') \<Longrightarrow> rw_step t r w w'"
| Loop: "rww_places w t = InRwlock write timeout registered \<Longrightarrow>
     rw_loop t write timeout expired registered w = (r, w') \<Longrightarrow> rw_step t r w w'"

definition rw_start :: "rw_world \<Rightarrow> bool" where
  "rw_start w \<longleftrightarrow> w = \<lparr>rww_lock = rwlock_new, rww_places = (\<lambda>_. Idle)\<rparr>"

definition rw_any_step :: "rw_world \<Rightarrow> rw_world \<Rightarrow> bool" where
  "rw_any_step w w' \<longleftrightarrow> (\<exists>t r. rw_step t r w w')"

section \<open>What the lock holds\<close>

text \<open>How often a thread has the lock to read and to write.\<close>

fun count_of :: "thread \<Rightarrow> reader list \<Rightarrow> nat" where
  "count_of t [] = 0"
| "count_of t (r # rs) = (if rd_thread r = t then rd_count r else count_of t rs)"

definition reads :: "rwlock \<Rightarrow> thread \<Rightarrow> nat" where
  "reads l t = count_of t (rw_readers l)"

definition writes :: "rwlock \<Rightarrow> thread \<Rightarrow> nat" where
  "writes l t = (if rw_writer l = Some t then rw_writer_count l else 0)"

definition readers_ok :: "reader list \<Rightarrow> bool" where
  "readers_ok rs \<longleftrightarrow> distinct (map rd_thread rs) \<and> (\<forall>r \<in> set rs. 0 < rd_count r)"

definition rwlock_ok :: "rwlock \<Rightarrow> bool" where
  "rwlock_ok l \<longleftrightarrow> readers_ok (rw_readers l)
     \<and> rw_reader_count l = sum_list (map rd_count (rw_readers l))
     \<and> rw_writer_count l = (if rw_writer l = None then 0 else 1)
     \<and> (\<forall>t. rw_writer l = Some t \<longrightarrow> rd_thread ` set (rw_readers l) \<subseteq> {t})"

lemma find_none: "RwlockFindReader t rs = None \<longleftrightarrow> t \<notin> rd_thread ` set rs"
  by (induction rs) auto

lemma count_of_pos: "readers_ok rs \<Longrightarrow> 0 < count_of t rs \<longleftrightarrow> t \<in> rd_thread ` set rs"
  by (induction rs) (auto simp: readers_ok_def)

lemma count_of_append: "count_of t (rs @ ss) = (if t \<in> rd_thread ` set rs then count_of t rs else count_of t ss)"
  by (induction rs) auto

lemma count_up:
  assumes "readers_ok rs" and "t \<in> rd_thread ` set rs"
  shows "map rd_thread (count_up t rs) = map rd_thread rs" and "readers_ok (count_up t rs)"
    and "sum_list (map rd_count (count_up t rs)) = sum_list (map rd_count rs) + 1"
    and "count_of u (count_up t rs) = count_of u rs + (if u = t then 1 else 0)"
proof -
  show th: "map rd_thread (count_up t rs) = map rd_thread rs" by (induction rs) auto
  have "\<forall>r \<in> set (count_up t rs). 0 < rd_count r"
    using assms(1) by (induction rs) (auto simp: readers_ok_def)
  then show "readers_ok (count_up t rs)" using assms(1) th by (simp add: readers_ok_def)
  show "sum_list (map rd_count (count_up t rs)) = sum_list (map rd_count rs) + 1"
    using assms(2) by (induction rs) auto
  show "count_of u (count_up t rs) = count_of u rs + (if u = t then 1 else 0)"
    using assms(2) by (induction rs) auto
qed

lemma count_down:
  assumes "readers_ok rs" and "t \<in> rd_thread ` set rs"
  shows "readers_ok (count_down t rs)"
    and "sum_list (map rd_count (count_down t rs)) = sum_list (map rd_count rs) - 1"
    and "count_of u (count_down t rs) = count_of u rs - (if u = t then 1 else 0)"
    and "rd_thread ` set (count_down t rs) \<subseteq> rd_thread ` set rs"
proof -
  show sub: "rd_thread ` set (count_down t rs) \<subseteq> rd_thread ` set rs" for rs
    by (induction rs) auto
  have out: "count_of t rs = 0" if "t \<notin> rd_thread ` set rs" for rs using that by (induction rs) auto
  show "readers_ok (count_down t rs)"
    using assms(1)
  proof (induction rs)
    case (Cons r rs)
    then have "readers_ok rs" "rd_thread r \<notin> rd_thread ` set rs" "0 < rd_count r" by (auto simp: readers_ok_def)
    then show ?case using Cons.IH sub [of rs] by (auto simp: readers_ok_def)
  qed simp
  show "sum_list (map rd_count (count_down t rs)) = sum_list (map rd_count rs) - 1"
    using assms
  proof (induction rs)
    case (Cons r rs)
    show ?case
    proof (cases "rd_thread r = t")
      case True
      then show ?thesis using Cons.prems by (auto simp: readers_ok_def)
    next
      case False
      then have t: "t \<in> rd_thread ` set rs" and ok: "readers_ok rs" using Cons.prems by (auto simp: readers_ok_def)
      have "0 < sum_list (map rd_count rs)" using t ok by (cases rs) (auto simp: readers_ok_def)
      then show ?thesis using Cons.IH [OF ok t] False by simp
    qed
  qed simp
  show "count_of u (count_down t rs) = count_of u rs - (if u = t then 1 else 0)"
    using assms
  proof (induction rs)
    case (Cons r rs)
    then show ?case using out by (auto simp: readers_ok_def)
  qed simp
qed

section \<open>What an operation does to the lock\<close>

lemma reads_pos: "rwlock_ok l \<Longrightarrow> 0 < reads l t \<longleftrightarrow> RwlockFindReader t (rw_readers l) \<noteq> None"
  by (simp add: reads_def count_of_pos find_none rwlock_ok_def)

lemma reads_zero: "rwlock_ok l \<Longrightarrow> RwlockFindReader t (rw_readers l) = None \<longleftrightarrow> reads l t = 0"
  using reads_pos [of l t] by auto

lemma writes_pos: "rwlock_ok l \<Longrightarrow> 0 < writes l t \<longleftrightarrow> rw_writer l = Some t"
  by (simp add: writes_def rwlock_ok_def)

text \<open>The threads' shares of the lock after an operation of a thread, and the waiting writers.\<close>

definition rw_change :: "thread \<Rightarrow> nat \<Rightarrow> nat \<Rightarrow> nat \<Rightarrow> rwlock \<Rightarrow> rwlock \<Rightarrow> bool" where
  "rw_change t r v ww l l' \<longleftrightarrow> rwlock_ok l' \<and> reads l' = (reads l)(t := r)
     \<and> writes l' = (writes l)(t := v) \<and> rw_waiting_writers l' = ww"

lemma rw_change_refl: "rwlock_ok l \<Longrightarrow> rw_change t (reads l t) (writes l t) (rw_waiting_writers l) l l"
  by (simp add: rw_change_def)

lemma waiting_upd [simp]:
  "rwlock_ok (l\<lparr>rw_waiting_writers := n\<rparr>) = rwlock_ok l"
  "reads (l\<lparr>rw_waiting_writers := n\<rparr>) = reads l" "writes (l\<lparr>rw_waiting_writers := n\<rparr>) = writes l"
  by (simp_all add: rwlock_ok_def reads_def writes_def fun_eq_iff)

lemma AddReader_change:
  assumes ok: "rwlock_ok l" and w: "rw_writer l = None \<or> rw_writer l = Some t"
  shows "rw_change t (reads l t + 1) (writes l t) (rw_waiting_writers l) l (RwlockAddReader t l)"
proof -
  let ?rs = "rw_readers l"
  have rs: "readers_ok ?rs" using ok by (simp add: rwlock_ok_def)
  show ?thesis
  proof (cases "t \<in> rd_thread ` set ?rs")
    case True
    note up = count_up [OF rs True]
    have l': "RwlockAddReader t l = l\<lparr>rw_readers := count_up t ?rs, rw_reader_count := rw_reader_count l + 1\<rparr>"
      using True by (simp add: RwlockAddReader_def find_none)
    have "rd_thread ` set (count_up t ?rs) = rd_thread ` set ?rs"
      using up(1) by (metis list.set_map)
    then show ?thesis using ok up(2-4)
      by (auto simp: l' rw_change_def rwlock_ok_def reads_def writes_def fun_eq_iff)
  next
    case False
    then have l': "RwlockAddReader t l = l\<lparr>rw_readers := ?rs @ [\<lparr>rd_thread = t, rd_count = 1\<rparr>],
        rw_reader_count := rw_reader_count l + 1\<rparr>"
      using find_none [of t ?rs] by (simp add: RwlockAddReader_def)
    have z: "count_of u ?rs = 0" if "u \<notin> rd_thread ` set ?rs" for u
      using that count_of_pos [OF rs, of u] by simp
    show ?thesis using ok False w z [OF False]
      by (auto simp: l' rw_change_def rwlock_ok_def reads_def writes_def fun_eq_iff readers_ok_def
          count_of_append z)
  qed
qed

lemma RemoveReader_change:
  assumes ok: "rwlock_ok l" and r: "0 < reads l t"
  shows "fst (RwlockRemoveReader t l)"
    and "rw_change t (reads l t - 1) (writes l t) (rw_waiting_writers l) l (snd (RwlockRemoveReader t l))"
proof -
  let ?rs = "rw_readers l"
  have f: "RwlockFindReader t ?rs \<noteq> None" using r reads_pos [OF ok] by simp
  have t: "t \<in> rd_thread ` set ?rs"
  proof (rule ccontr)
    assume "t \<notin> rd_thread ` set ?rs"
    then have "RwlockFindReader t ?rs = None" by (simp add: find_none)
    then show False using f by simp
  qed
  have l': "RwlockRemoveReader t l = (True, l\<lparr>rw_readers := count_down t ?rs,
      rw_reader_count := rw_reader_count l - 1\<rparr>)" using f by (simp add: RwlockRemoveReader_def)
  show "fst (RwlockRemoveReader t l)" by (simp add: l')
  have "readers_ok ?rs" using ok by (simp add: rwlock_ok_def)
  note down = count_down [OF this t]
  show "rw_change t (reads l t - 1) (writes l t) (rw_waiting_writers l) l (snd (RwlockRemoveReader t l))"
    using ok down(1-3) subset_trans [OF down(4)]
    by (auto simp: l' rw_change_def rwlock_ok_def reads_def writes_def fun_eq_iff)
qed

text \<open>Nobody reads: the readers are empty.\<close>

lemma no_readers:
  assumes "rwlock_ok l"
  shows "rw_reader_count l = 0 \<longleftrightarrow> rw_readers l = []" and "rw_reader_count l = 0 \<longleftrightarrow> (\<forall>t. reads l t = 0)"
proof -
  show e: "rw_reader_count l = 0 \<longleftrightarrow> rw_readers l = []"
    using assms by (cases "rw_readers l") (auto simp: rwlock_ok_def readers_ok_def)
  show "rw_reader_count l = 0 \<longleftrightarrow> (\<forall>t. reads l t = 0)"
  proof (cases "rw_readers l")
    case Nil
    then show ?thesis using e by (simp add: reads_def)
  next
    case (Cons r rs)
    then have "0 < reads l (rd_thread r)" using assms by (simp add: reads_def rwlock_ok_def readers_ok_def)
    then show ?thesis using e Cons by auto
  qed
qed

lemma write_change:
  assumes "rwlock_ok l" and "rw_writer l = None" and "rw_reader_count l = 0"
  shows "rw_change t 0 1 (rw_waiting_writers l) l (l\<lparr>rw_writer := Some t, rw_writer_count := 1\<rparr>)"
  using assms no_readers [OF assms(1)]
  by (auto simp: rw_change_def rwlock_ok_def reads_def writes_def fun_eq_iff)

text \<open>The writer excludes every other thread.\<close>

lemma rwlock_exclusive:
  assumes "rwlock_ok l" and "0 < writes l t" and "u \<noteq> t"
  shows "writes l u = 0" and "reads l u = 0"
proof -
  have w: "rw_writer l = Some t" using assms writes_pos by blast
  then show "writes l u = 0" using assms by (simp add: writes_def)
  have "u \<notin> rd_thread ` set (rw_readers l)" using assms w by (auto simp: rwlock_ok_def)
  then show "reads l u = 0" using assms(1) count_of_pos by (fastforce simp: reads_def rwlock_ok_def)
qed

end
