(* ===== verification/PthreadRwlockSafety.thy ===== *)
theory PthreadRwlockSafety
  imports PthreadRwlock
begin

text \<open>
  The invariant of a reader-writer lock and its threads: the counts are exact, a writer is alone,
  and the waiting writers are the threads that sleep to write.
\<close>

section \<open>Operations\<close>

text \<open>One turn of a lock: it succeeds, fails, or sleeps as a thread without a share of the lock.\<close>

lemma Cooperative_spec:
  assumes ok: "rwlock_ok l" and reg: "registered \<longrightarrow> write \<and> 0 < rw_waiting_writers l"
  shows "case RwlockLockCooperative t write timeout expired registered l of
      Inl (code, l') \<Rightarrow>
        (let ww = rw_waiting_writers l - (if registered then 1 else 0)
         in if code = OK
            then rw_change t (if write then 0 else reads l t + 1) (if write then 1 else writes l t) ww l l'
              \<and> (write \<longrightarrow> (\<forall>u. reads l u = 0 \<and> writes l u = 0))
            else rw_change t (reads l t) (writes l t) ww l l'
              \<and> (code = KERNEL_ERROR_EDEADLK \<and> write \<and> 0 < reads l t + writes l t
                 \<or> code = KERNEL_ERROR_ETIMEDOUT \<and> timeout \<noteq> None))
    | Inr (reg, l') \<Rightarrow> reg = write \<and> reads l t = 0 \<and> writes l t = 0
        \<and> rw_change t 0 0 (rw_waiting_writers l + (if write \<and> \<not> registered then 1 else 0)) l l'"
proof -
  note defs = RwlockLockCooperative_def Let_def unregister_writer_wait_def sleep_or_leave_def
  note codes = OK_def KERNEL_ERROR_EDEADLK_def KERNEL_ERROR_ETIMEDOUT_def
  have z: "reads l t = 0 \<longleftrightarrow> RwlockFindReader t (rw_readers l) = None" using reads_zero [OF ok] by simp
  have wz: "writes l t = 0 \<longleftrightarrow> rw_writer l \<noteq> Some t" using writes_pos [OF ok, of t] by auto
  have ww: "rw_change t r v n (l\<lparr>rw_waiting_writers := k\<rparr>) l' = rw_change t r v n l l'" for r v n k l'
    by (simp add: rw_change_def)
  show ?thesis
  proof (cases "write")
    case True
    consider (dead) "rw_writer l = Some t \<or> RwlockFindReader t (rw_readers l) \<noteq> None"
      | (free) "rw_writer l \<noteq> Some t" "RwlockFindReader t (rw_readers l) = None"
          "rw_writer l = None" "rw_reader_count l = 0"
      | (wait) "rw_writer l \<noteq> Some t" "RwlockFindReader t (rw_readers l) = None"
          "\<not> (rw_writer l = None \<and> rw_reader_count l = 0)" by metis
    then show ?thesis
    proof cases
      case dead
      then have "0 < reads l t + writes l t" using z wz by auto
      then show ?thesis using dead True ok by (auto simp: defs rw_change_def codes)
    next
      case free
      have none: "\<forall>u. reads l u = 0 \<and> writes l u = 0"
        using no_readers(2) [OF ok] free by (simp add: writes_def)
      have "rw_change t 0 1 (rw_waiting_writers l') l' (l'\<lparr>rw_writer := Some t, rw_writer_count := 1\<rparr>)"
        if "l' = unregister_writer_wait registered l" for l'
        using that ok free by (intro write_change) (simp_all add: unregister_writer_wait_def)
      from this [OF refl] show ?thesis using free True none
        by (cases registered) (simp_all add: defs rw_change_def)
    next
      case wait
      have zz: "reads l t = 0" "writes l t = 0" using wait z wz by simp_all
      show ?thesis
      proof (cases registered)
        case True
        then show ?thesis using wait \<open>write\<close> ok zz
          by (auto simp: defs rw_change_def codes fun_upd_idem)
      next
        case False
        then show ?thesis using wait \<open>write\<close> ok zz
          by (auto simp: defs rw_change_def codes fun_upd_idem)
      qed
    qed
  next
    case False
    show ?thesis
    proof (cases "may_read t l")
      case True
      then have "rw_writer l = None \<or> rw_writer l = Some t" by (auto simp: may_read_def)
      then show ?thesis using True False AddReader_change [OF ok] reg by (simp add: defs)
    next
      case no: False
      then have "writes l t = 0" using wz by (simp add: may_read_def)
      moreover have "reads l t = 0"
      proof (cases "rw_writer l")
        case None
        then show ?thesis using no z by (simp add: may_read_def)
      next
        case (Some u)
        then have "u \<noteq> t" "0 < writes l u" using no writes_pos [OF ok] by (auto simp: may_read_def)
        then show ?thesis using rwlock_exclusive(2) [OF ok, of u t] by simp
      qed
      ultimately show ?thesis using no False reg ok
        by (auto simp: defs rw_change_def codes fun_upd_idem)
    qed
  qed
qed

lemma Tryrdlock_spec:
  assumes "rwlock_ok l" and "PthreadRwlockTryrdlock t l = (code, l')"
  shows "rw_change t (reads l t + (if code = OK then 1 else 0)) (writes l t) (rw_waiting_writers l) l l'"
  using assms AddReader_change [OF assms(1), of t] rw_change_refl [OF assms(1), of t]
  by (auto simp: PthreadRwlockTryrdlock_def may_read_def OK_def KERNEL_ERROR_EBUSY_def split: if_splits)

lemma Trywrlock_spec:
  assumes "rwlock_ok l" and "PthreadRwlockTrywrlock t l = (code, l')"
  shows "rw_change t (if code = OK then 0 else reads l t) (if code = OK then 1 else writes l t)
    (rw_waiting_writers l) l l'"
  using assms write_change [OF assms(1), of t] rw_change_refl [OF assms(1), of t]
  by (auto simp: PthreadRwlockTrywrlock_def OK_def KERNEL_ERROR_EBUSY_def KERNEL_ERROR_EDEADLK_def
      split: if_splits)

text \<open>Unlock gives up a read first, then the write lock; it never reaches the fatal exit.\<close>

lemma RwUnlock_spec:
  assumes ok: "rwlock_ok l"
  shows "\<exists>code l'. PthreadRwlockUnlock t l = Some (code, l')
    \<and> rw_change t (reads l t - 1) (if 0 < reads l t then writes l t else 0) (rw_waiting_writers l) l l'
    \<and> code = (if 0 < reads l t + writes l t then OK else KERNEL_ERROR_EPERM)"
proof (cases "0 < reads l t")
  case True
  obtain l' where "RwlockRemoveReader t l = (True, l')"
    using RemoveReader_change(1) [OF ok True] by (cases "RwlockRemoveReader t l") simp
  then show ?thesis using RemoveReader_change(2) [OF ok True] True by (simp add: PthreadRwlockUnlock_def)
next
  case False
  then have r: "RwlockRemoveReader t l = (False, l)"
    using reads_zero [OF ok, of t] by (simp add: RwlockRemoveReader_def)
  show ?thesis
  proof (cases "rw_writer l = Some t")
    case True
    let ?l = "l\<lparr>rw_writer_count := 0, rw_writer := None\<rparr>"
    have "rw_writer_count l = 1" using ok True by (simp add: rwlock_ok_def)
    then have "PthreadRwlockUnlock t l = Some (OK, ?l)"
      using r True by (simp add: PthreadRwlockUnlock_def)
    moreover have "rw_change t 0 0 (rw_waiting_writers l) l ?l"
      using ok True False by (auto simp: rw_change_def rwlock_ok_def reads_def writes_def fun_eq_iff)
    ultimately show ?thesis using False True writes_pos [OF ok, of t] by simp
  next
    case no: False
    then have "writes l t = 0" by (simp add: writes_def)
    then show ?thesis using r no False rw_change_refl [OF ok, of t] by (simp add: PthreadRwlockUnlock_def)
  qed
qed

section \<open>Threads\<close>

definition waiting_writers :: "rw_world \<Rightarrow> thread set" where
  "waiting_writers w = {t. \<exists>timeout. rww_places w t = InRwlock True timeout True}"

definition rw_inv :: "rw_world \<Rightarrow> bool" where
  "rw_inv w \<longleftrightarrow> rwlock_ok (rww_lock w) \<and> finite (waiting_writers w)
     \<and> rw_waiting_writers (rww_lock w) = card (waiting_writers w)
     \<and> (\<forall>t write timeout reg. rww_places w t = InRwlock write timeout reg \<longrightarrow>
          reg = write \<and> reads (rww_lock w) t = 0 \<and> writes (rww_lock w) t = 0)"

text \<open>The step of a thread keeps the invariant and the shares and places of the others.\<close>

definition rw_steps_ok :: "thread \<Rightarrow> rw_world \<Rightarrow> rw_world \<Rightarrow> bool" where
  "rw_steps_ok t w w' \<longleftrightarrow> rw_inv w' \<and> (\<forall>u. u \<noteq> t \<longrightarrow> rww_places w' u = rww_places w u
     \<and> reads (rww_lock w') u = reads (rww_lock w) u \<and> writes (rww_lock w') u = writes (rww_lock w) u)"

lemma rw_steps_okI:
  assumes inv: "rw_inv w" and ch: "rw_change t r v ww (rww_lock w) l'"
    and ww: "ww = card (waiting_writers \<lparr>rww_lock = l', rww_places = (rww_places w)(t := p)\<rparr>)"
    and p: "\<And>write timeout reg. p = InRwlock write timeout reg \<Longrightarrow> reg = write \<and> r = 0 \<and> v = 0"
  shows "rw_steps_ok t w \<lparr>rww_lock = l', rww_places = (rww_places w)(t := p)\<rparr>"
proof -
  have "waiting_writers \<lparr>rww_lock = l', rww_places = (rww_places w)(t := p)\<rparr> \<subseteq> insert t (waiting_writers w)"
    by (auto simp: waiting_writers_def split: if_splits)
  then have "finite (waiting_writers \<lparr>rww_lock = l', rww_places = (rww_places w)(t := p)\<rparr>)"
    by (rule finite_subset) (use inv in \<open>simp add: rw_inv_def\<close>)
  then show ?thesis using inv ch ww p
    by (auto simp: rw_steps_ok_def rw_inv_def rw_change_def split: if_splits)
qed

lemma waiting_writers_upd:
  "waiting_writers \<lparr>rww_lock = l', rww_places = (rww_places w)(t := p)\<rparr> =
     (if \<exists>timeout. p = InRwlock True timeout True then insert t (waiting_writers w)
      else waiting_writers w - {t})"
  by (auto simp: waiting_writers_def)

lemma rw_loop_ok:
  assumes inv: "rw_inv w"
    and at: "rww_places w t = Idle \<and> \<not> registered \<or> rww_places w t = InRwlock write timeout registered"
    and c: "rw_loop t write timeout expired registered w = (r, w')"
  shows "rw_steps_ok t w w'"
proof -
  let ?l = "rww_lock w" and ?W = "waiting_writers w"
  have ok: "rwlock_ok ?l" and fin: "finite ?W" and ww: "rw_waiting_writers ?l = card ?W"
    and pl: "\<forall>wr to reg. rww_places w t = InRwlock wr to reg \<longrightarrow> reg = wr"
    using inv by (simp_all add: rw_inv_def)
  have mem: "t \<in> ?W \<longleftrightarrow> registered" using at pl by (auto simp: waiting_writers_def)
  have pos: "t \<in> ?W \<Longrightarrow> 0 < card ?W" using fin by (auto simp: card_gt_0_iff)
  have reg: "registered \<longrightarrow> write \<and> 0 < rw_waiting_writers ?l" using at pl mem pos ww by auto
  note spec = Cooperative_spec [OF ok reg, of t timeout expired]
  have drop: "card (?W - {t}) = card ?W - (if registered then 1 else 0)" using mem by (simp add: card_Diff_singleton_if)
  show ?thesis
  proof (cases "RwlockLockCooperative t write timeout expired registered ?l")
    case (Inl x)
    obtain code l' where x: "x = (code, l')" by (cases x)
    then have w': "w' = \<lparr>rww_lock = l', rww_places = (rww_places w)(t := Idle)\<rparr>"
      using c Inl by (simp add: rw_loop_def)
    obtain a b where "rw_change t a b (card ?W - (if registered then 1 else 0)) ?l l'"
      using spec Inl x ww by (auto simp: Let_def split: if_splits)
    then show ?thesis unfolding w'
      by (rule rw_steps_okI [OF inv]) (simp_all add: waiting_writers_upd drop)
  next
    case (Inr x)
    obtain reg l' where x: "x = (reg, l')" by (cases x)
    then have w': "w' = \<lparr>rww_lock = l', rww_places = (rww_places w)(t := InRwlock write timeout reg)\<rparr>"
      using c Inr by (simp add: rw_loop_def)
    have rg: "reg = write" and ch: "rw_change t 0 0 (card ?W + (if write \<and> \<not> registered then 1 else 0)) ?l l'"
      using spec Inr x ww by simp_all
    have "card ?W + (if write \<and> \<not> registered then 1 else 0) =
        card (waiting_writers \<lparr>rww_lock = l', rww_places = (rww_places w)(t := InRwlock write timeout reg)\<rparr>)"
      using mem fin rg reg by (auto simp: waiting_writers_upd insert_absorb)
    then show ?thesis unfolding w' by (rule rw_steps_okI [OF inv ch]) (simp add: rg)
  qed
qed

lemma rw_simple_ok:
  assumes inv: "rw_inv w" and idle: "rww_places w t = Idle"
    and ch: "rw_change t r v (rw_waiting_writers (rww_lock w)) (rww_lock w) l'"
  shows "rw_steps_ok t w (w\<lparr>rww_lock := l'\<rparr>)"
proof -
  have e: "w\<lparr>rww_lock := l'\<rparr> = \<lparr>rww_lock = l', rww_places = (rww_places w)(t := Idle)\<rparr>"
    using idle by (cases w) (auto simp: fun_upd_idem)
  have "t \<notin> waiting_writers w" using idle by (simp add: waiting_writers_def)
  then show ?thesis unfolding e using inv
    by (intro rw_steps_okI [OF inv ch]) (simp_all add: waiting_writers_upd rw_inv_def)
qed

lemma rw_run_ok:
  assumes inv: "rw_inv w" and idle: "rww_places w t = Idle" and c: "rw_run t call expired w = Some (r, w')"
  shows "rw_steps_ok t w w'"
proof -
  have ok: "rwlock_ok (rww_lock w)" using inv by (simp add: rw_inv_def)
  note simple = rw_simple_ok [OF inv idle]
  have loop: "rw_steps_ok t w w'" if "rw_loop t write timeout e False w = (r, w')" for "write" timeout e
    by (rule rw_loop_ok [OF inv _ that]) (simp add: idle)
  show ?thesis
  proof (cases call)
    case Rdlock
    then show ?thesis using c loop by (simp add: rw_lock_calls)
  next
    case (Timedrdlock usec)
    then show ?thesis using c loop by (simp add: rw_lock_calls)
  next
    case Wrlock
    then show ?thesis using c loop by (simp add: rw_lock_calls)
  next
    case (Timedwrlock usec)
    then show ?thesis using c loop by (simp add: rw_lock_calls)
  next
    case Tryrdlock
    obtain code l' where x: "PthreadRwlockTryrdlock t (rww_lock w) = (code, l')"
      by (cases "PthreadRwlockTryrdlock t (rww_lock w)")
    then show ?thesis using c Tryrdlock simple [OF Tryrdlock_spec [OF ok x]] by simp
  next
    case Trywrlock
    obtain code l' where x: "PthreadRwlockTrywrlock t (rww_lock w) = (code, l')"
      by (cases "PthreadRwlockTrywrlock t (rww_lock w)")
    then show ?thesis using c Trywrlock simple [OF Trywrlock_spec [OF ok x]] by simp
  next
    case RwUnlock
    then show ?thesis using c RwUnlock_spec [OF ok, of t] simple by auto
  qed
qed

lemma rw_step_ok: "rw_step t r w w' \<Longrightarrow> rw_inv w \<Longrightarrow> rw_steps_ok t w w'"
  by (induction rule: rw_step.induct) (auto intro: rw_run_ok rw_loop_ok)

lemma rw_start_inv: "rw_start w \<Longrightarrow> rw_inv w"
  by (simp add: rw_start_def rw_inv_def waiting_writers_def rwlock_ok_def rwlock_new_def readers_ok_def)

interpretation rw: atomic_object rw_start rw_any_step rw_inv
proof unfold_locales
  show "rw_inv w" if "rw_start w" for w using that by (rule rw_start_inv)
  show "rw_inv w'" if "rw_inv w" "rw_any_step w w'" for w w'
    using that rw_step_ok unfolding rw_any_step_def rw_steps_ok_def by blast
qed

section \<open>The properties\<close>

definition rw_others :: "thread \<Rightarrow> rw_world \<Rightarrow> rw_world \<Rightarrow> bool" where
  "rw_others t w w' \<longleftrightarrow> (\<exists>u r. u \<noteq> t \<and> rw_step u r w w')"

lemma rw_others_run:
  assumes "(rw_others t)\<^sup>*\<^sup>* w w'" and "rw_inv w"
  shows "rw_inv w' \<and> rww_places w' t = rww_places w t
    \<and> reads (rww_lock w') t = reads (rww_lock w) t \<and> writes (rww_lock w') t = writes (rww_lock w) t"
  using assms
proof (induction rule: rtranclp_induct)
  case (step y z)
  then obtain u r where "u \<noteq> t" and "rw_step u r y z" by (auto simp: rw_others_def)
  then show ?case using step rw_step_ok [of u r y z] by (simp add: rw_steps_ok_def)
qed simp

text \<open>
  A run of the witnesses: thread 1 reads, thread 2 sleeps to write; and one in which thread 1
  writes.
\<close>

definition rw0 :: rw_world where
  "rw0 = \<lparr>rww_lock = rwlock_new, rww_places = (\<lambda>_. Idle)\<rparr>"


definition rw_writing :: rw_world where
  "rw_writing = snd (PthreadRwlockWrlock 1 rw0)"

lemmas rw_defs = rw_lock_calls rw_loop_def RwlockLockCooperative_def may_read_def sleep_or_leave_def
  unregister_writer_wait_def RwlockAddReader_def rwlock_new_def rw0_def reads_def writes_def

lemma rw_call_step:
  assumes "rww_places w t = Idle"
  shows "rw_any_step w (snd (PthreadRwlockRdlock t w))" and "rw_any_step w (snd (PthreadRwlockWrlock t w))"
  using rw_step.Call [OF assms, of Rdlock False "fst (PthreadRwlockRdlock t w)" "snd (PthreadRwlockRdlock t w)"]
    rw_step.Call [OF assms, of Wrlock False "fst (PthreadRwlockWrlock t w)" "snd (PthreadRwlockWrlock t w)"]
  by (auto simp: rw_any_step_def)


lemma rw_writing_reach: "rw_any_step\<^sup>*\<^sup>* rw0 rw_writing"
  unfolding rw_writing_def by (intro r_into_rtranclp rw_call_step) (simp add: rw_defs)

lemma rw0_start: "rw_start rw0"
  by (simp add: rw_start_def rw0_def)



text \<open>
  What a thread has of the lock is its own: no steps of other threads, in any order and number,
  change how often it reads or writes. While it writes, every other thread that asks for the lock
  is refused without a change, and so is its unlock; while it reads, every other thread
  that asks to write is.
\<close>

theorem rwlock_held:
  assumes "rw_start w0" and "rw_any_step\<^sup>*\<^sup>* w0 w" and "(rw_others t)\<^sup>*\<^sup>* w w'" and "u \<noteq> t"
  shows "reads (rww_lock w') t = reads (rww_lock w) t \<and> writes (rww_lock w') t = writes (rww_lock w) t
    \<and> (0 < writes (rww_lock w) t \<longrightarrow>
         PthreadRwlockTryrdlock u (rww_lock w') = (KERNEL_ERROR_EBUSY, rww_lock w')
       \<and> PthreadRwlockUnlock u (rww_lock w') = Some (KERNEL_ERROR_EPERM, rww_lock w')
       \<and> RwlockLockCooperative u False None expired False (rww_lock w') = Inr (False, rww_lock w'))
    \<and> (0 < writes (rww_lock w) t + reads (rww_lock w) t \<longrightarrow>
         fst (PthreadRwlockTrywrlock u (rww_lock w')) \<noteq> OK
       \<and> snd (PthreadRwlockTrywrlock u (rww_lock w')) = rww_lock w'
       \<and> (\<forall>l. RwlockLockCooperative u True timeout expired reg (rww_lock w') \<noteq> Inl (OK, l)))"
proof -
  let ?l = "rww_lock w'"
  have inv: "rw_inv w'" and r: "reads ?l t = reads (rww_lock w) t" and v: "writes ?l t = writes (rww_lock w) t"
    using rw_others_run [OF assms(3) rw.reach_inv [OF assms(1,2)]] by simp_all
  have ok: "rwlock_ok ?l" using inv by (simp add: rw_inv_def)
  have writer: "rw_writer ?l = Some t \<and> reads ?l u = 0" if "0 < writes (rww_lock w) t"
    using that v writes_pos [OF ok, of t] rwlock_exclusive(2) [OF ok, of t u] assms(4) by simp
  have busy: "\<not> (rw_writer ?l = None \<and> rw_reader_count ?l = 0)" if "0 < writes (rww_lock w) t + reads (rww_lock w) t"
    using that r v no_readers(2) [OF ok] by (auto simp: writes_def)
  have "PthreadRwlockTryrdlock u ?l = (KERNEL_ERROR_EBUSY, ?l)
       \<and> PthreadRwlockUnlock u ?l = Some (KERNEL_ERROR_EPERM, ?l)
       \<and> RwlockLockCooperative u False None expired False ?l = Inr (False, ?l)"
    if "0 < writes (rww_lock w) t"
    using writer [OF that] assms(4) reads_zero [OF ok, of u]
    by (simp add: PthreadRwlockTryrdlock_def PthreadRwlockUnlock_def RwlockRemoveReader_def
        RwlockLockCooperative_def may_read_def sleep_or_leave_def)
  moreover have "fst (PthreadRwlockTrywrlock u ?l) \<noteq> OK \<and> snd (PthreadRwlockTrywrlock u ?l) = ?l
       \<and> (\<forall>l. RwlockLockCooperative u True timeout expired reg ?l \<noteq> Inl (OK, l))"
    if "0 < writes (rww_lock w) t + reads (rww_lock w) t"
    using busy [OF that]
    by (auto simp: PthreadRwlockTrywrlock_def RwlockLockCooperative_def sleep_or_leave_def OK_def
        KERNEL_ERROR_EBUSY_def KERNEL_ERROR_EDEADLK_def KERNEL_ERROR_ETIMEDOUT_def)
  ultimately show ?thesis using r v by simp
qed

theorem rwlock_held_witness:
  "writes (rww_lock rw_writing) 1 = 1
    \<and> PthreadRwlockTryrdlock 2 (rww_lock rw_writing) = (KERNEL_ERROR_EBUSY, rww_lock rw_writing)"
proof -
  have "writes (rww_lock rw_writing) 1 = 1" by (simp add: rw_writing_def rw_defs)
  then show ?thesis
    using rwlock_held [OF rw0_start rw_writing_reach rtranclp.rtrancl_refl, of 2 1] by simp
qed



end
