(* ===== verification/PthreadKeys.thy ===== *)
theory PthreadKeys
  imports Reachability
begin

text \<open>
  The thread-specific data of guest threads: \<open>class PthreadKeys\<close> of
  \<open>gpu/src/kernel/pthread.cpp\<close> and its system calls. Each operation is one critical section of
  \<open>m_mutex\<close>. A destructor is code of the guest, which may use the keys: its effect is an argument
  of \<open>Destruct\<close>. A pointer is its address, 0 for null.
\<close>

section \<open>State\<close>

definition KEYS_MAX :: nat where "KEYS_MAX = 256"
definition DESTRUCTOR_ITERATIONS :: nat where "DESTRUCTOR_ITERATIONS = 4"

record pkey =
  pk_used :: bool
  pk_destructor :: nat
  pk_values :: "(int \<times> nat) list"

type_synonym pkeys = "pkey list"

definition keys_new :: pkeys where
  "keys_new = replicate KEYS_MAX \<lparr>pk_used = False, pk_destructor = 0, pk_values = []\<rparr>"

definition valid_key :: "int \<Rightarrow> pkeys \<Rightarrow> bool" where
  "valid_key key ks \<longleftrightarrow> \<not> (key < 0 \<or> key \<ge> int KEYS_MAX \<or> \<not> pk_used (ks ! nat key))"

section \<open>Operations\<close>

fun first_unused :: "nat \<Rightarrow> pkeys \<Rightarrow> nat option" where
  "first_unused i [] = None"
| "first_unused i (k # ks) = (if \<not> pk_used k then Some i else first_unused (i + 1) ks)"

definition Keys_Create :: "nat \<Rightarrow> pkeys \<Rightarrow> nat option \<times> pkeys" where
  "Keys_Create destructor ks = (case first_unused 0 ks of
       None \<Rightarrow> (None, ks)
     | Some i \<Rightarrow> (Some i, ks[i := \<lparr>pk_used = True, pk_destructor = destructor, pk_values = []\<rparr>]))"

definition Keys_Delete :: "int \<Rightarrow> pkeys \<Rightarrow> bool \<times> pkeys" where
  "Keys_Delete key ks =
     (if \<not> valid_key key ks then (False, ks)
      else (True, ks[nat key := \<lparr>pk_used = False, pk_destructor = 0, pk_values = []\<rparr>]))"

fun set_value :: "int \<Rightarrow> nat \<Rightarrow> (int \<times> nat) list \<Rightarrow> (int \<times> nat) list" where
  "set_value t data [] = [(t, data)]"
| "set_value t data (v # vs) = (if fst v = t then (t, data) # vs else v # set_value t data vs)"

definition Keys_Set :: "int \<Rightarrow> int \<Rightarrow> nat \<Rightarrow> pkeys \<Rightarrow> bool \<times> pkeys" where
  "Keys_Set key t data ks =
     (if \<not> valid_key key ks then (False, ks)
      else (True, ks[nat key := (ks ! nat key)\<lparr>pk_values := set_value t data (pk_values (ks ! nat key))\<rparr>]))"

fun get_value :: "int \<Rightarrow> (int \<times> nat) list \<Rightarrow> nat" where
  "get_value t [] = 0"
| "get_value t (v # vs) = (if fst v = t then snd v else get_value t vs)"

definition Keys_Get :: "int \<Rightarrow> int \<Rightarrow> pkeys \<Rightarrow> nat option" where
  "Keys_Get key t ks =
     (if \<not> valid_key key ks then None else Some (get_value t (pk_values (ks ! nat key))))"

text \<open>
  A round of \<open>Destruct\<close>: the destructors to call, with their data, and the keys with these values
  cleared.
\<close>

definition has_call :: "int \<Rightarrow> pkey \<Rightarrow> int \<times> nat \<Rightarrow> bool" where
  "has_call t k v \<longleftrightarrow> pk_used k \<and> pk_destructor k \<noteq> 0 \<and> fst v = t \<and> snd v \<noteq> 0"

definition delete_list :: "int \<Rightarrow> pkeys \<Rightarrow> (nat \<times> nat) list" where
  "delete_list t ks =
     concat (map (\<lambda>k. map (\<lambda>v. (pk_destructor k, snd v)) (filter (has_call t k) (pk_values k))) ks)"

definition clear_values :: "int \<Rightarrow> pkeys \<Rightarrow> pkeys" where
  "clear_values t ks = map (\<lambda>k. k\<lparr>pk_values :=
     map (\<lambda>v. if has_call t k v then (fst v, 0) else v) (pk_values k)\<rparr>) ks"

definition erase_thread :: "int \<Rightarrow> pkeys \<Rightarrow> pkeys" where
  "erase_thread t ks = map (\<lambda>k. k\<lparr>pk_values := filter (\<lambda>v. fst v \<noteq> t) (pk_values k)\<rparr>) ks"

fun run_destructors :: "(nat \<Rightarrow> nat \<Rightarrow> pkeys \<Rightarrow> pkeys) \<Rightarrow> (nat \<times> nat) list \<Rightarrow> pkeys \<Rightarrow> pkeys" where
  "run_destructors d [] ks = ks"
| "run_destructors d (c # cs) ks = run_destructors d cs (d (fst c) (snd c) ks)"

text \<open>The calls that were made, in order, and the keys.\<close>

fun destruct_rounds :: "(nat \<Rightarrow> nat \<Rightarrow> pkeys \<Rightarrow> pkeys) \<Rightarrow> int \<Rightarrow> nat \<Rightarrow> pkeys \<Rightarrow>
    (nat \<times> nat) list \<times> pkeys" where
  "destruct_rounds d t 0 ks = ([], erase_thread t ks)"
| "destruct_rounds d t (Suc n) ks =
     (if delete_list t ks = [] then ([], clear_values t ks)
      else (case destruct_rounds d t n (run_destructors d (delete_list t ks) (clear_values t ks)) of
              (calls, ks') \<Rightarrow> (delete_list t ks @ calls, ks')))"

definition Keys_Destruct :: "(nat \<Rightarrow> nat \<Rightarrow> pkeys \<Rightarrow> pkeys) \<Rightarrow> int \<Rightarrow> pkeys \<Rightarrow>
    (nat \<times> nat) list \<times> pkeys" where
  "Keys_Destruct d t ks = destruct_rounds d t DESTRUCTOR_ITERATIONS ks"

section \<open>System calls\<close>

text \<open>A null pointer to the key is \<open>False\<close>.\<close>

definition PthreadKeyCreate :: "bool \<Rightarrow> nat \<Rightarrow> pkeys \<Rightarrow> int \<times> nat option \<times> pkeys" where
  "PthreadKeyCreate key destructor ks =
     (if \<not> key then (KERNEL_ERROR_EINVAL, None, ks)
      else (case Keys_Create destructor ks of
              (None, ks') \<Rightarrow> (KERNEL_ERROR_EAGAIN, None, ks')
            | (Some i, ks') \<Rightarrow> (OK, Some i, ks')))"

definition PthreadKeyDelete :: "int \<Rightarrow> pkeys \<Rightarrow> int \<times> pkeys" where
  "PthreadKeyDelete key ks = (case Keys_Delete key ks of
     (ok, ks') \<Rightarrow> (if ok then OK else KERNEL_ERROR_EINVAL, ks'))"

definition PthreadSetspecific :: "int \<Rightarrow> int \<Rightarrow> nat \<Rightarrow> pkeys \<Rightarrow> int \<times> pkeys" where
  "PthreadSetspecific t key data ks = (case Keys_Set key t data ks of
     (ok, ks') \<Rightarrow> (if ok then OK else KERNEL_ERROR_EINVAL, ks'))"

definition PthreadGetspecific :: "int \<Rightarrow> int \<Rightarrow> pkeys \<Rightarrow> nat" where
  "PthreadGetspecific t key ks = (case Keys_Get key t ks of None \<Rightarrow> 0 | Some data \<Rightarrow> data)"

section \<open>The keys as a map\<close>

text \<open>
  The abstract keys: for each key in use its destructor and the value of every thread. Well-formed
  keys name a thread at most once under a key, and a key that is not in use is empty.
\<close>

definition key_map :: "pkeys \<Rightarrow> nat \<Rightarrow> (nat \<times> (int \<Rightarrow> nat)) option" where
  "key_map ks i = (if i < length ks \<and> pk_used (ks ! i)
     then Some (pk_destructor (ks ! i), \<lambda>t. get_value t (pk_values (ks ! i))) else None)"

definition pkey_ok :: "pkey \<Rightarrow> bool" where
  "pkey_ok k \<longleftrightarrow> distinct (map fst (pk_values k))
     \<and> (\<not> pk_used k \<longrightarrow> pk_destructor k = 0 \<and> pk_values k = [])"

definition keys_ok :: "pkeys \<Rightarrow> bool" where
  "keys_ok ks \<longleftrightarrow> length ks = KEYS_MAX \<and> (\<forall>k \<in> set ks. pkey_ok k)"

lemma keys_ok_new: "keys_ok keys_new"
  by (simp add: keys_ok_def keys_new_def pkey_ok_def)

lemma valid_key_map: "length ks = KEYS_MAX \<Longrightarrow> valid_key key ks \<longleftrightarrow> 0 \<le> key \<and> key_map ks (nat key) \<noteq> None"
  by (auto simp: valid_key_def key_map_def)

lemma keys_ok_upd: "keys_ok ks \<Longrightarrow> pkey_ok k \<Longrightarrow> keys_ok (ks[i := k])"
  using set_update_subset_insert [of ks i k] by (auto simp: keys_ok_def)

lemma key_map_upd:
  "i < length ks \<Longrightarrow> key_map (ks[i := k]) = (key_map ks)
     (i := if pk_used k then Some (pk_destructor k, \<lambda>t. get_value t (pk_values k)) else None)"
  by (auto simp: key_map_def fun_eq_iff)

lemma set_value_fst: "fst ` set (set_value t data vs) = insert t (fst ` set vs)"
  by (induction vs) auto

lemma set_value_distinct: "distinct (map fst vs) \<Longrightarrow> distinct (map fst (set_value t data vs))"
  by (induction vs) (auto simp: set_value_fst simp del: set_map simp add: set_map)

lemma get_set_value: "get_value u (set_value t data vs) = (if u = t then data else get_value u vs)"
  by (induction vs) auto

lemma first_unused_None: "first_unused i ks = None \<longleftrightarrow> (\<forall>k \<in> set ks. pk_used k)"
  by (induction i ks rule: first_unused.induct) auto

lemma first_unused_Some:
  "first_unused i ks = Some j \<Longrightarrow> i \<le> j \<and> j - i < length ks \<and> \<not> pk_used (ks ! (j - i))
     \<and> (\<forall>n < j - i. pk_used (ks ! n))"
proof (induction i ks arbitrary: j rule: first_unused.induct)
  case (2 i k ks)
  show ?case
  proof (cases "pk_used k")
    case True
    then have IH: "i + 1 \<le> j \<and> j - (i + 1) < length ks \<and> \<not> pk_used (ks ! (j - (i + 1)))
        \<and> (\<forall>n < j - (i + 1). pk_used (ks ! n))" using 2 by simp
    then have "(k # ks) ! (j - i) = ks ! (j - (i + 1))" by (simp add: nth_Cons')
    moreover have "pk_used ((k # ks) ! n)" if "n < j - i" for n
      using that IH True by (cases n) auto
    ultimately show ?thesis using IH by auto
  qed (use 2 in simp)
qed simp

lemma nth_keys_ok: "keys_ok ks \<Longrightarrow> i < KEYS_MAX \<Longrightarrow> pkey_ok (ks ! i)"
  by (simp add: keys_ok_def)

section \<open>Refinement\<close>

lemma Create_refines:
  assumes ok: "keys_ok ks"
  shows "case Keys_Create d ks of
      (None, ks') \<Rightarrow> ks' = ks \<and> (\<forall>i < KEYS_MAX. key_map ks i \<noteq> None)
    | (Some i, ks') \<Rightarrow> keys_ok ks' \<and> i < KEYS_MAX \<and> key_map ks i = None
        \<and> (\<forall>j < i. key_map ks j \<noteq> None) \<and> key_map ks' = (key_map ks)(i \<mapsto> (d, \<lambda>t. 0))"
proof -
  have len: "length ks = KEYS_MAX" using ok by (simp add: keys_ok_def)
  show ?thesis
  proof (cases "first_unused 0 ks")
    case None
    then have "\<forall>k \<in> set ks. pk_used k" by (simp only: first_unused_None)
    then show ?thesis using None len by (simp add: Keys_Create_def key_map_def)
  next
    case (Some i)
    note f = first_unused_Some [OF Some]
    have "keys_ok (ks[i := \<lparr>pk_used = True, pk_destructor = d, pk_values = []\<rparr>])"
      by (rule keys_ok_upd [OF ok]) (simp add: pkey_ok_def)
    then show ?thesis using f len Some
      by (auto simp: Keys_Create_def key_map_upd) (auto simp: key_map_def)
  qed
qed

lemma Delete_refines:
  assumes ok: "keys_ok ks"
  shows "case Keys_Delete key ks of (r, ks') \<Rightarrow> keys_ok ks'
    \<and> (r \<longleftrightarrow> 0 \<le> key \<and> key_map ks (nat key) \<noteq> None)
    \<and> key_map ks' = (if r then (key_map ks)(nat key := None) else key_map ks)"
proof -
  have len: "length ks = KEYS_MAX" using ok by (simp add: keys_ok_def)
  have "keys_ok (ks[nat key := \<lparr>pk_used = False, pk_destructor = 0, pk_values = []\<rparr>])"
    by (rule keys_ok_upd [OF ok]) (simp add: pkey_ok_def)
  then show ?thesis using ok len valid_key_map [OF len, of key]
    by (auto simp: Keys_Delete_def key_map_upd valid_key_def)
qed

lemma Set_refines:
  assumes ok: "keys_ok ks"
  shows "case Keys_Set key t data ks of (r, ks') \<Rightarrow> keys_ok ks'
    \<and> (r \<longleftrightarrow> 0 \<le> key \<and> key_map ks (nat key) \<noteq> None)
    \<and> key_map ks' = (if r then (key_map ks)
        (nat key := map_option (\<lambda>(d, vs). (d, vs(t := data))) (key_map ks (nat key))) else key_map ks)"
proof (cases "valid_key key ks")
  case True
  have len: "length ks = KEYS_MAX" using ok by (simp add: keys_ok_def)
  have i: "nat key < KEYS_MAX" "pk_used (ks ! nat key)" using True by (auto simp: valid_key_def)
  let ?k = "ks ! nat key"
  let ?k' = "?k\<lparr>pk_values := set_value t data (pk_values ?k)\<rparr>"
  have "pkey_ok ?k'" using nth_keys_ok [OF ok i(1)] i(2) by (simp add: pkey_ok_def set_value_distinct)
  then have "keys_ok (ks[nat key := ?k'])" by (rule keys_ok_upd [OF ok])
  then show ?thesis using True i len valid_key_map [OF len, of key]
    by (simp add: Keys_Set_def key_map_upd) (simp add: key_map_def get_set_value fun_eq_iff)
next
  case False
  have "length ks = KEYS_MAX" using ok by (simp add: keys_ok_def)
  then show ?thesis using False ok valid_key_map [of ks key] by (simp add: Keys_Set_def)
qed

lemma Get_refines:
  assumes "keys_ok ks"
  shows "Keys_Get key t ks = (if key < 0 then None else map_option (\<lambda>(d, vs). vs t) (key_map ks (nat key)))"
  using assms valid_key_map [of ks key]
  by (auto simp: Keys_Get_def keys_ok_def key_map_def valid_key_def)

section \<open>Destruct\<close>


lemma fst_clear: "map fst (map (\<lambda>v. if has_call t k v then (fst v, 0) else v) vs) = map fst vs"
  by (induction vs) auto

lemma clear_value:
  assumes "pkey_ok k"
  shows "get_value u (map (\<lambda>v. if has_call t k v then (fst v, 0) else v) (pk_values k)) =
     (if u = t \<and> pk_destructor k \<noteq> 0 then 0 else get_value u (pk_values k))"
proof -
  have used: "pk_values k \<noteq> [] \<Longrightarrow> pk_used k" using assms by (auto simp: pkey_ok_def)
  have "get_value u (map (\<lambda>v. if has_call t k v then (fst v, 0) else v) vs) =
     (if u = t \<and> pk_destructor k \<noteq> 0 then 0 else get_value u vs)" if "vs \<noteq> [] \<Longrightarrow> pk_used k" for vs
    using that by (induction vs) (auto simp: has_call_def)
  then show ?thesis using used by simp
qed

lemma clear_pkey_ok:
  "pkey_ok k \<Longrightarrow> pkey_ok (k\<lparr>pk_values := map (\<lambda>v. if has_call t k v then (fst v, 0) else v) (pk_values k)\<rparr>)"
  by (simp add: pkey_ok_def fst_clear del: map_map)

lemma clear_values_refines:
  assumes ok: "keys_ok ks"
  shows "keys_ok (clear_values t ks)"
    and "key_map (clear_values t ks) =
      (\<lambda>i. map_option (\<lambda>(f, vs). (f, if f \<noteq> 0 then vs(t := 0) else vs)) (key_map ks i))"
proof -
  show "keys_ok (clear_values t ks)"
    using ok clear_pkey_ok by (auto simp: keys_ok_def clear_values_def)
  show "key_map (clear_values t ks) =
      (\<lambda>i. map_option (\<lambda>(f, vs). (f, if f \<noteq> 0 then vs(t := 0) else vs)) (key_map ks i))"
    using ok clear_value by (auto simp: key_map_def clear_values_def keys_ok_def fun_eq_iff)
qed


lemma delete_list_clear: "delete_list t (clear_values t ks) = []"
  by (auto simp: delete_list_def clear_values_def has_call_def filter_empty_conv)



lemma destructors_idle:
  assumes "\<And>f x ks. d f x ks = ks"
  shows "run_destructors d cs ks = ks"
  by (induction cs arbitrary: ks) (simp_all add: assms)

lemma clear_none: "delete_list t ks = [] \<Longrightarrow> clear_values t ks = ks"
proof -
  assume "delete_list t ks = []"
  then have "\<not> has_call t k v" if "k \<in> set ks" "v \<in> set (pk_values k)" for k v
    using that by (auto simp: delete_list_def filter_empty_conv)
  then show ?thesis unfolding clear_values_def by (intro map_idI) (simp cong: map_cong)
qed

section \<open>The properties\<close>

text \<open>
  C24. The keys are a map from each key in use to its destructor and the value of every thread.
  Creating takes the first free key, whose values are null for every thread, and fails just when
  all 256 are in use; deleting frees a key; setting changes the value of one thread under
  one key; getting returns it. A call on a key not in use, of any number, changes nothing and fails.
\<close>

theorem keys_refine_map:
  assumes "keys_ok ks"
  shows "(case PthreadKeyCreate True d ks of (r, created, ks') \<Rightarrow> keys_ok ks'
        \<and> (case created of
             None \<Rightarrow> r = KERNEL_ERROR_EAGAIN \<and> ks' = ks \<and> (\<forall>i < KEYS_MAX. key_map ks i \<noteq> None)
           | Some i \<Rightarrow> r = OK \<and> i < KEYS_MAX \<and> key_map ks i = None \<and> (\<forall>j < i. key_map ks j \<noteq> None)
               \<and> key_map ks' = (key_map ks)(i \<mapsto> (d, \<lambda>t. 0))))
    \<and> (case PthreadKeyDelete key ks of (r, ks') \<Rightarrow> keys_ok ks'
        \<and> (if 0 \<le> key \<and> key_map ks (nat key) \<noteq> None
            then r = OK \<and> key_map ks' = (key_map ks)(nat key := None)
            else r = KERNEL_ERROR_EINVAL \<and> ks' = ks))
    \<and> (case PthreadSetspecific t key data ks of (r, ks') \<Rightarrow> keys_ok ks'
        \<and> (if 0 \<le> key \<and> key_map ks (nat key) \<noteq> None
            then r = OK \<and> PthreadGetspecific t key ks' = data
              \<and> key_map ks' = (key_map ks)(nat key :=
                   map_option (\<lambda>(d, vs). (d, vs(t := data))) (key_map ks (nat key)))
            else r = KERNEL_ERROR_EINVAL \<and> ks' = ks))
    \<and> PthreadGetspecific t key ks =
        (if key < 0 then 0 else case key_map ks (nat key) of None \<Rightarrow> 0 | Some (d, vs) \<Rightarrow> vs t)"
proof -
  have len: "length ks = KEYS_MAX" using assms by (simp add: keys_ok_def)
  note vk = valid_key_map [OF len, of key]
  have get: "PthreadGetspecific t key ks =
      (if key < 0 then 0 else case key_map ks (nat key) of None \<Rightarrow> 0 | Some (d, vs) \<Rightarrow> vs t)"
    if "keys_ok ks" for ks
    using Get_refines [OF that, of key t] by (auto simp: PthreadGetspecific_def split: option.splits)
  have create: "case PthreadKeyCreate True d ks of (r, created, ks') \<Rightarrow> keys_ok ks'
        \<and> (case created of
             None \<Rightarrow> r = KERNEL_ERROR_EAGAIN \<and> ks' = ks \<and> (\<forall>i < KEYS_MAX. key_map ks i \<noteq> None)
           | Some i \<Rightarrow> r = OK \<and> i < KEYS_MAX \<and> key_map ks i = None \<and> (\<forall>j < i. key_map ks j \<noteq> None)
               \<and> key_map ks' = (key_map ks)(i \<mapsto> (d, \<lambda>t. 0)))"
    using Create_refines [OF assms, of d] assms
    by (cases "Keys_Create d ks"; cases "fst (Keys_Create d ks)") (simp_all add: PthreadKeyCreate_def)
  have delete: "case PthreadKeyDelete key ks of (r, ks') \<Rightarrow> keys_ok ks'
        \<and> (if 0 \<le> key \<and> key_map ks (nat key) \<noteq> None
            then r = OK \<and> key_map ks' = (key_map ks)(nat key := None)
            else r = KERNEL_ERROR_EINVAL \<and> ks' = ks)"
    using Delete_refines [OF assms, of key] vk
    by (cases "valid_key key ks") (auto simp: PthreadKeyDelete_def Keys_Delete_def)
  obtain r ks' where x: "Keys_Set key t data ks = (r, ks')" by (cases "Keys_Set key t data ks")
  have set: "case PthreadSetspecific t key data ks of (r, ks') \<Rightarrow> keys_ok ks'
        \<and> (if 0 \<le> key \<and> key_map ks (nat key) \<noteq> None
            then r = OK \<and> PthreadGetspecific t key ks' = data
              \<and> key_map ks' = (key_map ks)(nat key :=
                   map_option (\<lambda>(d, vs). (d, vs(t := data))) (key_map ks (nat key)))
            else r = KERNEL_ERROR_EINVAL \<and> ks' = ks)"
  proof (cases "valid_key key ks")
    case True
    then show ?thesis using Set_refines [OF assms, of key t data] x vk get [of ks']
      by (auto simp: PthreadSetspecific_def)
  next
    case False
    then show ?thesis using vk assms by (auto simp: PthreadSetspecific_def Keys_Set_def)
  qed
  show ?thesis using create delete set get [OF assms] by simp
qed

theorem keys_refine_map_witness:
  "PthreadGetspecific 7 0 (snd (PthreadSetspecific 7 0 42 (snd (snd (PthreadKeyCreate True 9 keys_new))))) = 42"
proof -
  let ?ks = "snd (snd (PthreadKeyCreate True 9 keys_new))"
  have c: "PthreadKeyCreate True 9 keys_new = (OK, Some 0, ?ks)"
    by (simp add: PthreadKeyCreate_def Keys_Create_def keys_new_def KEYS_MAX_def numeral_eq_Suc)
  have ok: "keys_ok ?ks" and m: "key_map ?ks 0 \<noteq> None"
    using conjunct1 [OF keys_refine_map [OF keys_ok_new, of 9 0 0 0]] c by auto
  obtain r ks' where x: "PthreadSetspecific 7 0 42 ?ks = (r, ks')" by (cases "PthreadSetspecific 7 0 42 ?ks")
  show ?thesis
    using keys_refine_map [OF ok, of 0 0 7 42] m x by auto
qed


text \<open>Key 0 with destructor 9 and the value 42 of thread 7, key 1 without a destructor and 5.\<close>

definition keys_demo :: pkeys where
  "keys_demo = keys_new
     [0 := \<lparr>pk_used = True, pk_destructor = 9, pk_values = [(7, 42)]\<rparr>,
      1 := \<lparr>pk_used = True, pk_destructor = 0, pk_values = [(7, 5)]\<rparr>]"

lemma keys_demo_ok: "keys_ok keys_demo"
  unfolding keys_demo_def by (intro keys_ok_upd keys_ok_new) (simp_all add: pkey_ok_def)

lemma keys_demo_map: "key_map keys_demo 0 = Some (9, \<lambda>t. if t = 7 then 42 else 0)"
  "key_map keys_demo 1 = Some (0, \<lambda>t. if t = 7 then 5 else 0)"
  by (auto simp: key_map_def keys_demo_def keys_new_def KEYS_MAX_def fun_eq_iff)


text \<open>
  \<open>Destruct\<close> returns as soon as a round has nothing to call, before it erases the entries of the
  thread: when the destructors leave the keys alone, every entry of the thread stays behind, under
  the same keys, and a value under a key without a destructor even keeps its data.
\<close>

theorem keys_destruct_keeps_entries:
  assumes "keys_ok ks" and "\<And>f x ks. d f x ks = ks"
  shows "map (\<lambda>k. map fst (pk_values k)) (snd (Keys_Destruct d t ks)) = map (\<lambda>k. map fst (pk_values k)) ks
    \<and> (key_map ks i = Some (0, vs) \<longrightarrow> key_map (snd (Keys_Destruct d t ks)) i = Some (0, vs))"
proof -
  have four: "DESTRUCTOR_ITERATIONS = Suc (Suc (Suc (Suc 0)))" by (simp add: DESTRUCTOR_ITERATIONS_def)
  have r: "snd (Keys_Destruct d t ks) = clear_values t ks"
    by (simp add: Keys_Destruct_def four destructors_idle assms(2) delete_list_clear clear_none)
  have "map fst (map (\<lambda>v. if has_call t k v then (fst v, 0) else v) vs) = map fst vs"
    for k and vs :: "(int \<times> nat) list" by (induction vs) auto
  then have "map (\<lambda>k. map fst (pk_values k)) (clear_values t ks) = map (\<lambda>k. map fst (pk_values k)) ks"
    by (simp add: clear_values_def comp_def)
  then show ?thesis using clear_values_refines(2) [OF assms(1), of t] by (simp add: r)
qed

theorem keys_destruct_keeps_entries_witness:
  "key_map (snd (Keys_Destruct (\<lambda>f x ks. ks) 7 keys_demo)) 1 = Some (0, \<lambda>t. if t = 7 then 5 else 0)"
  using keys_destruct_keeps_entries [OF keys_demo_ok, of "\<lambda>f x ks. ks" 7 1] keys_demo_map(2) by blast

end
