(* ===== verification/PthreadOnce.thy ===== *)
theory PthreadOnce
  imports Reachability
begin

text \<open>
  \<open>pthread_once\<close> of \<open>gpu/src/kernel/pthread.cpp\<close>, for one control object and any number of
  threads. A step is one critical section of \<open>g_pthread_once_mutex\<close>; the init routine runs between
  two of them. Threads that wait look again at any time (\<open>SIGNAL_APC_POLL_MICROS\<close>).
\<close>

definition PTHREAD_ONCE_NEEDS_INIT :: int where "PTHREAD_ONCE_NEEDS_INIT = 0"
definition PTHREAD_ONCE_DONE_INIT :: int where "PTHREAD_ONCE_DONE_INIT = 1"
definition PTHREAD_ONCE_IN_PROGRESS :: int where "PTHREAD_ONCE_IN_PROGRESS = 2"
definition PTHREAD_ONCE_WAIT :: int where "PTHREAD_ONCE_WAIT = 3"

lemmas once_defs = PTHREAD_ONCE_NEEDS_INIT_def PTHREAD_ONCE_DONE_INIT_def
  PTHREAD_ONCE_IN_PROGRESS_def PTHREAD_ONCE_WAIT_def

text \<open>A thread is outside, in the waiting loop, or in the init routine.\<close>

datatype once_place = Outside | Waiting | InInit

record once_world =
  on_state :: int
  on_places :: "nat \<Rightarrow> once_place"

text \<open>What a step shows: the routine starts, the call returns, or neither.\<close>

datatype once_event = Starts | Returned int | Silent

text \<open>The switch on the state of the control object.\<close>

definition once_switch :: "nat \<Rightarrow> once_world \<Rightarrow> once_event \<times> once_world" where
  "once_switch t w =
     (if on_state w = PTHREAD_ONCE_DONE_INIT
      then (Returned OK, w\<lparr>on_places := (on_places w)(t := Outside)\<rparr>)
      else if on_state w = PTHREAD_ONCE_NEEDS_INIT
      then (Starts, w\<lparr>on_state := PTHREAD_ONCE_IN_PROGRESS, on_places := (on_places w)(t := InInit)\<rparr>)
      else if on_state w = PTHREAD_ONCE_IN_PROGRESS \<or> on_state w = PTHREAD_ONCE_WAIT
      then (Silent, w\<lparr>on_state := PTHREAD_ONCE_WAIT, on_places := (on_places w)(t := Waiting)\<rparr>)
      else (Returned POSIX_EINVAL, w\<lparr>on_places := (on_places w)(t := Outside)\<rparr>))"

text \<open>A call, with whether both pointers are there; a turn of the waiting loop; the end of the routine.\<close>

definition once_call :: "nat \<Rightarrow> bool \<Rightarrow> once_world \<Rightarrow> once_event \<times> once_world" where
  "once_call t pointers w = (if pointers then once_switch t w else (Returned POSIX_EINVAL, w))"

definition once_turn :: "nat \<Rightarrow> once_world \<Rightarrow> once_event \<times> once_world" where
  "once_turn t w = (if on_state w = PTHREAD_ONCE_WAIT then (Silent, w) else once_switch t w)"

definition once_done :: "nat \<Rightarrow> once_world \<Rightarrow> once_event \<times> once_world" where
  "once_done t w = (Returned OK,
     w\<lparr>on_state := PTHREAD_ONCE_DONE_INIT, on_places := (on_places w)(t := Outside)\<rparr>)"

definition once_step :: "nat \<Rightarrow> bool \<Rightarrow> once_world \<Rightarrow> once_event \<times> once_world" where
  "once_step t pointers w = (case on_places w t of
       Outside \<Rightarrow> once_call t pointers w
     | Waiting \<Rightarrow> once_turn t w
     | InInit \<Rightarrow> once_done t w)"

text \<open>A run of steps of any threads, with what each step shows and whether it ends the routine.\<close>

inductive once_run :: "once_world \<Rightarrow> (nat \<times> bool \<times> once_event) list \<Rightarrow> once_world \<Rightarrow> bool" where
  Begin: "once_run w [] w"
| Step: "once_run w es w' \<Longrightarrow> once_step t pointers w' = (e, w'') \<Longrightarrow>
     once_run w (es @ [(t, on_places w' t = InInit, e)]) w''"

definition once_start :: "once_world \<Rightarrow> bool" where
  "once_start w \<longleftrightarrow> on_state w = PTHREAD_ONCE_NEEDS_INIT \<and> (\<forall>t. on_places w t = Outside)"

section \<open>Invariant\<close>

definition starts :: "(nat \<times> bool \<times> once_event) list \<Rightarrow> nat" where
  "starts es = length (filter (\<lambda>(t, ends, e). e = Starts) es)"

definition ended :: "(nat \<times> bool \<times> once_event) list \<Rightarrow> bool" where
  "ended es \<longleftrightarrow> (\<exists>(t, ends, e) \<in> set es. ends)"

text \<open>
  What is known after a run: nothing has begun, or one thread is in the routine, or it has ended.
\<close>

definition once_known :: "(nat \<times> bool \<times> once_event) list \<Rightarrow> once_world \<Rightarrow> bool" where
  "once_known es w \<longleftrightarrow>
     (on_state w = PTHREAD_ONCE_NEEDS_INIT \<and> starts es = 0 \<and> \<not> ended es
        \<and> (\<forall>t. on_places w t = Outside)
      \<or> on_state w \<in> {PTHREAD_ONCE_IN_PROGRESS, PTHREAD_ONCE_WAIT} \<and> starts es = 1 \<and> \<not> ended es
        \<and> (\<exists>t. \<forall>v. on_places w v = InInit \<longleftrightarrow> v = t)
      \<or> on_state w = PTHREAD_ONCE_DONE_INIT \<and> starts es = 1 \<and> ended es
        \<and> (\<forall>t. on_places w t \<noteq> InInit))
     \<and> (\<forall>t ends. (t, ends, Returned OK) \<in> set es \<longrightarrow> ended es)"

lemma starts_snoc [simp]: "starts (es @ [(t, b, e)]) = starts es + (if e = Starts then 1 else 0)"
  by (simp add: starts_def)

lemma ended_snoc [simp]: "ended (es @ [(t, b, e)]) \<longleftrightarrow> ended es \<or> b"
  by (auto simp: ended_def)

lemma once_known_step:
  assumes k: "once_known es w" and s: "once_step t p w = (e, w')"
  shows "once_known (es @ [(t, on_places w t = InInit, e)]) w'"
proof -
  have codes: "POSIX_EINVAL \<noteq> OK" by (simp add: POSIX_EINVAL_def OK_def)
  have ret: "\<forall>t ends. (t, ends, Returned OK) \<in> set es \<longrightarrow> ended es" using k by (simp add: once_known_def)
  consider (new) "on_state w = PTHREAD_ONCE_NEEDS_INIT" "starts es = 0" "\<not> ended es" "\<forall>t. on_places w t = Outside"
    | (run) u where "on_state w \<in> {PTHREAD_ONCE_IN_PROGRESS, PTHREAD_ONCE_WAIT}" "starts es = 1" "\<not> ended es"
        "\<forall>v. on_places w v = InInit \<longleftrightarrow> v = u"
    | (fin) "on_state w = PTHREAD_ONCE_DONE_INIT" "starts es = 1" "ended es" "\<forall>t. on_places w t \<noteq> InInit"
    using k unfolding once_known_def by (elim conjE disjE exE) metis+
  then show ?thesis
  proof cases
    case new
    have "\<forall>v. ((on_places w)(t := InInit)) v = InInit \<longleftrightarrow> v = t" using new by auto
    then show ?thesis using new s ret codes
      by (auto simp: once_known_def once_step_def once_call_def once_switch_def once_defs split: if_splits)
  next
    case run
    have at: "on_places w v = InInit \<longleftrightarrow> v = u" for v using run(4) by auto
    show ?thesis
    proof (cases "t = u")
      case True
      then have e: "e = Returned OK" and w': "w' = w\<lparr>on_state := PTHREAD_ONCE_DONE_INIT,
          on_places := (on_places w)(t := Outside)\<rparr>"
        using s at [of t] by (auto simp: once_step_def once_done_def)
      have "\<forall>v. on_places w' v \<noteq> InInit" using at True by (auto simp: w')
      then show ?thesis using run True at ret by (auto simp: once_known_def e w' once_defs)
    next
      case False
      have st: "on_state w \<noteq> PTHREAD_ONCE_DONE_INIT" "on_state w \<noteq> PTHREAD_ONCE_NEEDS_INIT"
        using run by (auto simp: once_defs)
      have out: "on_places w t \<noteq> InInit" using at False by simp
      have w': "w' = w \<or> w' = w\<lparr>on_state := PTHREAD_ONCE_WAIT, on_places := (on_places w)(t := Waiting)\<rparr>"
        and e: "e = Silent \<or> e = Returned POSIX_EINVAL"
        using s out st run(1)
        by (cases "on_places w t";
            simp add: once_step_def once_call_def once_turn_def once_switch_def split: if_splits)+
      have "on_state w' \<in> {PTHREAD_ONCE_IN_PROGRESS, PTHREAD_ONCE_WAIT}" using w' run(1) by (elim disjE) simp_all
      moreover have "\<forall>v. on_places w' v = InInit \<longleftrightarrow> v = u" using w' at False by (elim disjE) simp_all
      moreover have "starts (es @ [(t, False, e)]) = 1" "\<not> ended (es @ [(t, False, e)])"
        using run e by auto
      ultimately show ?thesis using ret run(3) e codes out unfolding once_known_def by auto
    qed
  next
    case fin
    then have "on_state w' = PTHREAD_ONCE_DONE_INIT \<and> e \<noteq> Starts \<and> (\<forall>v. on_places w' v \<noteq> InInit)"
      using s by (cases "on_places w t")
        (auto simp: once_step_def once_call_def once_turn_def once_switch_def once_defs split: if_splits)
    then show ?thesis using fin by (auto simp: once_known_def)
  qed
qed

lemma once_run_known: "once_run w es w' \<Longrightarrow> once_start w \<Longrightarrow> once_known es w'"
proof (induction rule: once_run.induct)
  case (Begin w)
  then show ?case by (simp add: once_known_def once_start_def starts_def ended_def)
next
  case (Step w es w' t pointers e w'')
  then show ?case using once_known_step by blast
qed

section \<open>The property\<close>

text \<open>
  C23. The init routine runs at most once in every run, and never again; no call returns \<open>OK\<close> before
  the routine has ended; and once it has ended, the next step of every thread that waits, and every
  later call, returns \<open>OK\<close>. Until then exactly one thread is in the routine once it has begun.
\<close>

theorem once_exactly_once:
  assumes "once_start w0" and "once_run w0 es w"
  shows "starts es \<le> 1
    \<and> ((u, ends, Returned OK) \<in> set es \<longrightarrow> starts es = 1 \<and> ended es)
    \<and> (starts es = 1 \<and> \<not> ended es \<longrightarrow> (\<exists>t. \<forall>v. on_places w v = InInit \<longleftrightarrow> v = t))
    \<and> (ended es \<longrightarrow> fst (once_step t True w) = Returned OK)"
proof -
  have k: "once_known es w" by (rule once_run_known [OF assms(2,1)])
  have "fst (once_step t True w) = Returned OK" if "ended es"
  proof -
    have "on_state w = PTHREAD_ONCE_DONE_INIT" using k that by (auto simp: once_known_def)
    then show ?thesis
      by (cases "on_places w t")
        (simp_all add: once_step_def once_call_def once_turn_def once_switch_def once_done_def once_defs)
  qed
  then show ?thesis using k unfolding once_known_def by auto
qed

theorem once_exactly_once_witness:
  "\<exists>w. once_run \<lparr>on_state = 0, on_places = (\<lambda>_. Outside)\<rparr>
        [(1, False, Starts), (2, False, Silent), (1, True, Returned OK)] w
    \<and> fst (once_step 2 True w) = Returned OK"
proof -
  define w0 :: once_world where "w0 = \<lparr>on_state = 0, on_places = (\<lambda>_. Outside)\<rparr>"
  define w1 where "w1 = snd (once_step 1 True w0)"
  define w2 where "w2 = snd (once_step 2 True w1)"
  define w3 where "w3 = snd (once_step 1 True w2)"
  note d = w0_def once_step_def once_call_def once_switch_def once_done_def once_defs
  have s1: "once_step 1 True w0 = (Starts, w1)" and p1: "on_places w0 1 = Outside"
    by (simp_all add: w1_def d)
  have s2: "once_step 2 True w1 = (Silent, w2)" and p2: "on_places w1 2 = Outside"
    by (simp_all add: w2_def w1_def d)
  have s3: "once_step 1 True w2 = (Returned OK, w3)" and p3: "on_places w2 1 = InInit"
    by (simp_all add: w3_def w2_def w1_def d)
  note r = Step [OF Step [OF Step [OF Begin s1] s2] s3, unfolded p1 p2 p3, simplified]
  have "once_start w0" by (simp add: once_start_def d)
  then have "fst (once_step 2 True w3) = Returned OK"
    using once_exactly_once [OF _ r, of 1 True 2] by (simp add: ended_def)
  then show ?thesis using r unfolding w0_def by auto
qed

end
