(* ===== verification/Spec2Isabelle.thy ===== *)
theory Spec2Isabelle
  imports RangeSet MemoryProtection VirtualRanges PhysicalMemory FlexibleMemory PooledMemory
    MemoryPoolProperties Semaphore PosixSem EventFlag EvFlag EventQueue EventDelivery EventSources FlipQueue
    ResourceMutex DirtyContracts PthreadProperties PthreadRwlockSafety PthreadKeys PthreadOnce
begin

text \<open>
  Verification development for psemu, a PlayStation 5 emulator. The C++ under
  \<open>gpu/src\<close> holds the emulated kernel (\<open>kernel/\<close>), the system libraries (\<open>libs/\<close>) and the
  graphics stack (\<open>graphics/\<close>); \<open>src/\<close> is the loader with its own small kernel layer.

  \<^bold>\<open>Conventions.\<close> Guest addresses and sizes are \<open>nat\<close> with the 64-bit wrap-around written out
  (\<open>add64\<close>, \<open>sub64\<close> of \<open>Prelude\<close>); bit patterns are words; a C++ \<open>int\<close> is an \<open>int\<close>. A fatal
  exit of the emulator is \<open>Inl (Exit msg)\<close>; a failed call is \<open>None\<close>, \<open>False\<close> or an error code
  as in the source. A \<open>std::map\<close> keyed by address is a sorted association list (\<open>om_\<close>
  functions of \<open>Prelude\<close>), a \<open>std::vector\<close> or \<open>std::list\<close> a list. An object protected by a mutex
  is a record and each critical section a function on it; threads interleave as an
  \<open>inductive\<close> step relation over these functions.

  \<^bold>\<open>Theories.\<close>
  \<^item> \<open>Prelude\<close>: 64-bit arithmetic, results, sets of spans, ordered maps, C strings.
  \<^item> \<open>RangeStore\<close>, \<open>AddressMap\<close>, \<open>Reachability\<close>: the interfaces. \<open>range_store\<close> and
    \<open>cutting_store\<close> say what a coalescing store of ranges promises, \<open>address_map\<close> what a map
    of addresses with attributes promises, \<open>atomic_object\<close> and \<open>waiting_object\<close> what an object
    with atomic steps and sleeping threads promises. Each is interpreted by the components.
  \<^item> \<open>RangeSet\<close>: \<open>RangeSet\<close> of \<open>graphics/host_gpu/rangeSet.h\<close>; refinement of sets of addresses.
  \<^item> \<open>MemoryProtection\<close>: the protection bits and range arithmetic of \<open>kernel/memory.cpp\<close>.
  \<^item> \<open>VirtualRanges\<close>: \<open>class VirtualRanges\<close>; refinement of a map from addresses to attributes.
  \<^item> \<open>PhysicalMemory\<close>, \<open>FlexibleMemory\<close>, \<open>PooledMemory\<close>: the three allocators; partition of the
    direct memory, first fit, exact release, exact budget, injective translation.
  \<^item> \<open>MemoryPoolCalls\<close>: the memory pool system calls and \<open>KernelMprotect\<close> of \<open>kernel/memory.cpp\<close> on
    one state: the direct memory, the pool, the virtual ranges, the counter of committed bytes and
    the view the host has of them. \<open>MemoryPoolInvariant\<close>: what ties these together, and the
    transactions on the host; \<open>MemoryPoolCommit\<close>, \<open>MemoryPoolDecommit\<close>, \<open>MemoryPoolSystem\<close>: the
    effect of each call; \<open>MemoryPoolSafety\<close>: all calls as one step relation, byte counts;
    \<open>MemoryPoolProperties\<close>: views and ranges agree, commits are transactions, decommits exact.
  \<^item> \<open>Semaphore\<close>, \<open>PosixSem\<close>: \<open>kernel/semaphore.cpp\<close>; no lost wakeup, conservation of tokens,
    the copy in guest memory.
  \<^item> \<open>EventFlag\<close>: \<open>kernel/eventFlag.cpp\<close>; \<open>EvFlag\<close>: \<open>src/evflag.cpp\<close>; no lost wakeup, agreement
    of the two.
  \<^item> \<open>EventQueue\<close>: \<open>kernel/eventQueue.cpp\<close> and the event functions its users pass;
    \<open>EventDelivery\<close>: order and completeness of delivery, timers.
  \<^item> \<open>EventSources\<close>: the video output and the end-of-pipe interrupts as sources of events, with
    the delete functions that connect them to the queues; agreement of both sides, delivery, and
    what concurrent calls break.
  \<^item> \<open>PthreadMutex\<close>, \<open>PthreadCond\<close>: mutexes and condition variables of \<open>kernel/pthread.cpp\<close>, with
    the threads that use them as one state. \<open>PthreadSafety\<close>: who is on a list of waiters;
    \<open>PthreadSteps\<close>: what a step does to the locks and waits of every thread; \<open>PthreadProperties\<close>:
    exclusion, signals, no lost wakeup, what a wait gives back.
  \<^item> \<open>PthreadRwlock\<close>, \<open>PthreadRwlockSafety\<close>: reader-writer locks; exclusion, exact counters,
    precedence of writers. \<open>PthreadKeys\<close>: thread-specific data; refinement of a map, what the end
    of a thread calls. \<open>PthreadOnce\<close>: \<open>pthread_once\<close>.
  \<^item> \<open>FlipQueue\<close>: \<open>class FlipQueue\<close> of \<open>presentation/videoOut.cpp\<close>; order of presentation, absence
    of fatal exits.
  \<^item> \<open>PageManager\<close>, \<open>RegionManager\<close>, \<open>MemoryTracker\<close>: the classes of the same names in
    \<open>graphics/host_gpu\<close>: which guest pages are watched, with which host protection, and which
    of the CPU and the GPU changed them last. \<open>TrackerInvariant\<close>, \<open>TrackerOps\<close>, \<open>TrackerFaults\<close>:
    the effect of each operation of a tracker on single pages.
  \<^item> \<open>ResourceMutex\<close>: the lock under which the caches and the fault handling run; exclusion and
    progress.
  \<^item> \<open>DirtyTracking\<close>: the page manager with the trackers of the buffer cache, the images and the
    image metadata, the readback workers and the fault handling of
    \<open>renderer/gpuResourceManager.cpp\<close>. \<open>DirtyInvariant\<close>: the watchers of a page are the sum of
    what the trackers ask for; \<open>BackingFlush\<close>, \<open>FaultHandling\<close>: a flush and a fault keep that;
    \<open>DirtySafety\<close>: all of it as one step relation; \<open>DirtyContracts\<close>: no write of the CPU is
    missed, no stale byte is read, every fault is resolved, and the contract of each operation.

  \<^bold>\<open>Bounds.\<close> Recursions follow the source's loops and terminate by structure or by a measure
  proved beside the definition; no fuel is used.

  \<^bold>\<open>Not modelled.\<close> The host's address space (\<open>DirectMemoryBacking\<close>, \<open>PlaceholderAddressSpace\<close>
  and the operating system): the pool calls take its answers from a list, and the theorems hold
  for every list. The system calls that map and unmap flexible and direct memory; other calls
  appear between the pool calls as steps that leave pool memory alone. Vulkan, file and network I/O, logging, the interpreter
  of host exceptions. Third-party code is not modelled. Of the threads of the guest: their creation,
  scheduling and cancellation, the handlers of guest signals that may run while a thread waits,
  clocks (that a deadline has passed is an argument of a step) and barriers; 32-bit and 64-bit
  counters of wake-ups and readers are not followed to their wrap-around. In the dirty tracking the bytes that move
  between guest memory and the GPU are left out, as are the hashes of sampled images
  (\<open>MarkSampledAliasesCpuDirtyLocked\<close>) and the handing over of a read back image to a buffer
  (\<open>PublishReadbackBacking\<close>); the image a fault reads back is a parameter.
\<close>

end
